(* ===== verification/Prelude.thy ===== *)
theory Prelude
  imports Complex_Main "HOL-Library.Multiset" "HOL-Library.AList" "HOL-Library.Word"
    "HOL-Library.List_Lexorder" "HOL-Library.Product_Lexorder"
begin

text \<open>
  Shared vocabulary of the development: Python exceptions as values of a result type, the few
  list and dictionary primitives of Python the engine uses (with the error they raise out of
  range), loops over them, and the generic lemmas that the component theories use.
\<close>

section \<open>Exceptions as values\<close>

datatype py_error =
    IndexError
  | KeyError
  | AssertionError string
  | ValueError string
  | RuntimeError string
  | StopIteration
  | TypeError
  | ZeroDivisionError
  | OverflowError
  | FileNotFoundError string
  | JSONDecodeError

type_synonym 'a result = "py_error + 'a"
type_synonym bytes = "8 word list"

text \<open>A Python \<open>str\<close> is a list of code points.\<close>

type_synonym ustr = "nat list"

named_theorems result_simps \<open>unfolding of sequenced results\<close>

definition rbind :: "'a result \<Rightarrow> ('a \<Rightarrow> 'b result) \<Rightarrow> 'b result" where
  "rbind m f = (case m of Inl e \<Rightarrow> Inl e | Inr x \<Rightarrow> f x)"

lemma rbind_simps [simp, code]:
  "rbind (Inl e) f = Inl e"
  "rbind (Inr x) f = f x"
  by (simp_all add: rbind_def)

lemma rbind_eq_Inr [result_simps]:
  "rbind m f = Inr y \<longleftrightarrow> (\<exists>x. m = Inr x \<and> f x = Inr y)"
  by (cases m) auto

lemma rbind_eq_Inl [result_simps]:
  "rbind m f = Inl e \<longleftrightarrow> m = Inl e \<or> (\<exists>x. m = Inr x \<and> f x = Inl e)"
  by (cases m) auto

lemma rbind_cong [fundef_cong]:
  assumes "m = m'" and "\<And>x. m' = Inr x \<Longrightarrow> f x = g x"
  shows "rbind m f = rbind m' g"
  using assms by (cases m') auto

definition py_assert :: "bool \<Rightarrow> string \<Rightarrow> unit result" where
  "py_assert c msg = (if c then Inr () else Inl (AssertionError msg))"

lemma py_assert_ok [simp]:
  "py_assert c msg = Inr u \<longleftrightarrow> c"
  "py_assert True msg = Inr ()"
  by (simp_all add: py_assert_def)

section \<open>Lists, deques and dictionaries\<close>

definition list_get :: "'a list \<Rightarrow> nat \<Rightarrow> 'a result" where
  "list_get xs i = (if i < length xs then Inr (xs ! i) else Inl IndexError)"

definition list_set :: "'a list \<Rightarrow> nat \<Rightarrow> 'a \<Rightarrow> 'a list result" where
  "list_set xs i v = (if i < length xs then Inr (xs[i := v]) else Inl IndexError)"

definition popleft :: "'a list \<Rightarrow> ('a \<times> 'a list) result" where
  "popleft xs = (case xs of [] \<Rightarrow> Inl IndexError | x # ys \<Rightarrow> Inr (x, ys))"

definition dict_del :: "('k \<times> 'v) list \<Rightarrow> 'k \<Rightarrow> ('k \<times> 'v) list result" where
  "dict_del d k = (if map_of d k = None then Inl KeyError else Inr (AList.delete k d))"

text \<open>\<open>xs[:k]\<close>: a negative bound counts from the end.\<close>

definition py_prefix :: "'a list \<Rightarrow> int \<Rightarrow> 'a list" where
  "py_prefix xs k = (if 0 \<le> k then take (nat k) xs else take (length xs - nat (- k)) xs)"

lemma list_get_ok [simp]: "i < length xs \<Longrightarrow> list_get xs i = Inr (xs ! i)"
  by (simp add: list_get_def)

lemma list_set_ok [simp]: "i < length xs \<Longrightarrow> list_set xs i v = Inr (xs[i := v])"
  by (simp add: list_set_def)

lemma popleft_Cons [simp]: "popleft (x # xs) = Inr (x, xs)"
  by (simp add: popleft_def)

lemma py_prefix_nonneg: "0 \<le> k \<Longrightarrow> py_prefix xs k = take (nat k) xs"
  by (simp add: py_prefix_def)

subsection \<open>Loops that may raise\<close>

text \<open>\<open>for x in xs: s = f(s, x)\<close>\<close>

primrec foldM :: "('s \<Rightarrow> 'x \<Rightarrow> 's result) \<Rightarrow> 's \<Rightarrow> 'x list \<Rightarrow> 's result" where
  "foldM f s [] = Inr s"
| "foldM f s (x # xs) = rbind (f s x) (\<lambda>s'. foldM f s' xs)"

text \<open>\<open>for _ in range(n): out.append(f())\<close>, threading the state \<open>f\<close> changes.\<close>

primrec draw :: "('s \<Rightarrow> ('s \<times> 'p) result) \<Rightarrow> nat \<Rightarrow> 's \<Rightarrow> ('s \<times> 'p list) result" where
  "draw f 0 s = Inr (s, [])"
| "draw f (Suc n) s = rbind (f s) (\<lambda>(s1, p). rbind (draw f n s1) (\<lambda>(s2, ps). Inr (s2, p # ps)))"

lemma foldM_append:
  "foldM f s (xs @ ys) = rbind (foldM f s xs) (\<lambda>s'. foldM f s' ys)"
proof (induction xs arbitrary: s)
  case (Cons x xs)
  then show ?case by (cases "f s x") simp_all
qed simp

text \<open>\<open>[f(x) for x in xs]\<close>\<close>

primrec mapM :: "('a \<Rightarrow> 'b result) \<Rightarrow> 'a list \<Rightarrow> 'b list result" where
  "mapM f [] = Inr []"
| "mapM f (x # xs) = rbind (f x) (\<lambda>y. rbind (mapM f xs) (\<lambda>ys. Inr (y # ys)))"

lemma mapM_ok: "(\<And>x. x \<in> set xs \<Longrightarrow> f x = Inr (g x)) \<Longrightarrow> mapM f xs = Inr (map g xs)"
  by (induction xs) simp_all

subsection \<open>Decimal text of an integer\<close>

fun show_nat :: "nat \<Rightarrow> string" where
  "show_nat n = (if n < 10 then [char_of (48 + n)]
                 else show_nat (n div 10) @ [char_of (48 + n mod 10)])"

declare show_nat.simps [simp del]

definition show_int :: "int \<Rightarrow> string" where
  "show_int i = (if i < 0 then ''-'' @ show_nat (nat (- i)) else show_nat (nat i))"

section \<open>Dictionaries\<close>

text \<open>A dictionary holds each key once; insertion and deletion keep that.\<close>

definition dict_wf :: "('k \<times> 'v) list \<Rightarrow> bool" where
  "dict_wf d \<longleftrightarrow> distinct (map fst d)"

lemma dict_wf_Nil [simp]: "dict_wf []"
  by (simp add: dict_wf_def)

lemma dict_wf_update [simp]: "dict_wf d \<Longrightarrow> dict_wf (AList.update k v d)"
  by (simp add: dict_wf_def distinct_update)

lemma dict_wf_delete [simp]: "dict_wf d \<Longrightarrow> dict_wf (AList.delete k d)"
  by (simp add: dict_wf_def distinct_delete)

lemmas dict_lookup = update_conv' delete_conv'

section \<open>Ceiling division\<close>

text \<open>\<open>-(-n // k)\<close>\<close>

definition ceil_div :: "int \<Rightarrow> nat \<Rightarrow> int" where
  "ceil_div n k = - ((- n) div int k)"

lemma ceil_div_le_iff: "0 < k \<Longrightarrow> ceil_div n k \<le> m \<longleftrightarrow> n \<le> m * int k"
proof
  assume k: "0 < k" and "ceil_div n k \<le> m"
  then have "(- m) * int k \<le> ((- n) div int k) * int k"
    unfolding ceil_div_def by (intro mult_right_mono) linarith+
  also have "\<dots> \<le> - n"
    using k by (metis mult.commute mult_div_mod_eq of_nat_0_less_iff pos_mod_sign add.commute
        le_add_same_cancel2)
  finally show "n \<le> m * int k" by simp
next
  assume k: "0 < k" and "n \<le> m * int k"
  then have "(- m * int k) div int k \<le> (- n) div int k"
    by (intro zdiv_mono1) simp_all
  moreover have "(- m * int k) div int k = - m"
    using k by (intro nonzero_mult_div_cancel_right) simp
  ultimately show "ceil_div n k \<le> m"
    unfolding ceil_div_def by linarith
qed

lemma less_ceil_div_iff: "0 < k \<Longrightarrow> m < ceil_div n k \<longleftrightarrow> m * int k < n"
  using ceil_div_le_iff [of k n m] by linarith

lemma ceil_div_mono: "0 < k \<Longrightarrow> n \<le> m \<Longrightarrow> ceil_div n k \<le> ceil_div m k"
  by (meson ceil_div_le_iff order.refl order.trans)

lemma ceil_div_nonneg: "0 < k \<Longrightarrow> 0 \<le> n \<Longrightarrow> 0 \<le> ceil_div n k"
  using less_ceil_div_iff [of k "- 1" n] by linarith

lemma ceil_div_pos: "0 < k \<Longrightarrow> 0 < n \<Longrightarrow> 0 < ceil_div n k"
  by (simp add: less_ceil_div_iff)

lemma ceil_div_add_mult: "0 < k \<Longrightarrow> ceil_div (c * int k + n) k = c + ceil_div n k"
proof -
  assume k: "0 < k"
  have "- (c * int k + n) = (- c) * int k + (- n)" by simp
  then have "(- (c * int k + n)) div int k = - c + (- n) div int k"
    using k by (metis div_mult_self3 of_nat_0_less_iff less_irrefl add.commute mult.commute)
  then show ?thesis by (simp add: ceil_div_def)
qed

lemma ceil_div_0 [simp]: "ceil_div 0 k = 0"
  by (simp add: ceil_div_def)

lemma ceil_div_mult [simp]: "0 < k \<Longrightarrow> ceil_div (c * int k) k = c"
  using ceil_div_add_mult [of k c 0] by simp

section \<open>Code outside the repository\<close>

text \<open>
  What the engine calls and does not contain: \<open>hashlib.sha256(..).digest()\<close>, numpy's
  \<open>asarray(.., dtype=uint32).tobytes()\<close>, the tokenizer's \<open>decode\<close> and the rounding of a
  float operation. They are arguments of the definitions that use them.
\<close>

record externals =
  sha256 :: "bytes \<Rightarrow> bytes"
  uint32_bytes :: "int list \<Rightarrow> bytes"
  decode :: "int list \<Rightarrow> ustr"
  fl_round :: "rat \<Rightarrow> rat"

end
