(* ===== verification/Py_Float.thy ===== *)
theory Py_Float
  imports Prelude
begin

text \<open>
  Python floats as far as the engine compares them: finite values (exact rationals), the two
  infinities and NaN. Every ordering comparison with NaN is false, so \<open><\<close> and \<open>\<le>\<close> are
  instances of \<open>ord\<close> but not of an order; \<open>py_eq\<close> is Python's \<open>==\<close>.
\<close>

datatype pyfloat = PyNaN | PyNegInf | PyFin rat | PyInf

instantiation pyfloat :: "{ord, zero, one}"
begin

definition zero_pyfloat :: pyfloat where
  "zero_pyfloat = PyFin 0"

definition one_pyfloat :: pyfloat where
  "one_pyfloat = PyFin 1"

fun less_pyfloat :: "pyfloat \<Rightarrow> pyfloat \<Rightarrow> bool" where
  "less_pyfloat (PyFin a) (PyFin b) \<longleftrightarrow> a < b"
| "less_pyfloat PyNegInf (PyFin b) \<longleftrightarrow> True"
| "less_pyfloat PyNegInf PyInf \<longleftrightarrow> True"
| "less_pyfloat (PyFin a) PyInf \<longleftrightarrow> True"
| "less_pyfloat _ _ \<longleftrightarrow> False"

definition less_eq_pyfloat :: "pyfloat \<Rightarrow> pyfloat \<Rightarrow> bool" where
  "less_eq_pyfloat x y \<longleftrightarrow> x < y \<or> (x = y \<and> x \<noteq> PyNaN)"

instance ..

end

definition py_eq :: "pyfloat \<Rightarrow> pyfloat \<Rightarrow> bool" where
  "py_eq x y \<longleftrightarrow> x = y \<and> x \<noteq> PyNaN"

lemmas pyfloat_defs = less_eq_pyfloat_def py_eq_def zero_pyfloat_def one_pyfloat_def

lemma nan_compare [simp]:
  "\<not> PyNaN < x" "\<not> x < PyNaN" "\<not> PyNaN \<le> x" "\<not> x \<le> PyNaN" "\<not> py_eq PyNaN x"
  by (cases x; simp add: pyfloat_defs)+

lemma pyfloat_trichotomy: "x \<noteq> PyNaN \<Longrightarrow> y \<noteq> PyNaN \<Longrightarrow> x < y \<or> py_eq x y \<or> y < x"
  by (cases x; cases y) (auto simp: pyfloat_defs)

lemma fin_compare [simp]:
  "PyFin a \<le> PyFin b \<longleftrightarrow> a \<le> b" "py_eq (PyFin a) (PyFin b) \<longleftrightarrow> a = b"
  "0 < PyFin a \<longleftrightarrow> 0 < a" "PyFin a < 0 \<longleftrightarrow> a < 0" "PyFin a \<le> 1 \<longleftrightarrow> a \<le> 1"
  "0 \<le> PyFin a \<longleftrightarrow> 0 \<le> a" "PyFin a < 1 \<longleftrightarrow> a < 1" "py_eq (PyFin a) 0 \<longleftrightarrow> a = 0"
  by (auto simp: pyfloat_defs)

end
