(* ===== verification/Seq_State.thy ===== *)
theory Seq_State
  imports Py_Float
begin

text \<open>
  \<open>engine/core/sequence.py\<close>: sampling parameters and their validation, the per-request
  \<open>Sequence\<close> record with its derived properties and \<open>append_token\<close>, and \<open>RequestOutput\<close>.
\<close>

section \<open>Status and sampling parameters\<close>

datatype seq_status = WAITING | RUNNING | PREEMPTED | FINISHED | ABORTED

record sampling_params =
  temperature :: pyfloat
  top_p :: pyfloat
  max_tokens :: int
  stop :: "ustr list"
  ignore_eos :: bool

definition sampling_params_post_init :: "sampling_params \<Rightarrow> sampling_params result" where
  "sampling_params_post_init p =
     (if temperature p < 0 then Inl (ValueError ''temperature must be non-negative'')
      else if \<not> (0 < top_p p \<and> top_p p \<le> 1) then Inl (ValueError ''top_p must be in (0, 1]'')
      else if max_tokens p < 1 then Inl (ValueError ''max_tokens must be at least 1'')
      else if list_ex (\<lambda>s. s = []) (stop p) then Inl (ValueError ''stop strings must be non-empty'')
      else Inr p)"

section \<open>Outputs\<close>

record request_output =
  out_seq_id :: int
  out_token_ids :: "int list"
  out_text :: ustr
  finished :: bool
  out_finish_reason :: "string option"
  out_num_prompt_tokens :: int
  out_num_output_tokens :: int
  out_error :: "string option"

section \<open>Sequences\<close>

text \<open>The state of \<open>IncrementalDetokenizer\<close> (its tokenizer is \<open>decode\<close> of the externals).\<close>

record detok_state =
  detok_ids :: "int list"
  prefix_offset :: nat
  read_offset :: nat

record sequence =
  seq_id :: int
  prompt_token_ids :: "int list"
  sampling_params_of :: sampling_params
  arrival_time :: rat
  priority :: "rat option"
  output_token_ids :: "int list"
  block_table :: "nat list"
  status :: seq_status
  num_computed_tokens :: int
  first_token_time :: "rat option"
  finish_reason :: "string option"
  error :: "string option"
  token_ids :: "int list"
  block_hashes :: "bytes list"
  num_registered_blocks :: nat
  num_cached_tokens :: int
  cpu_block_table :: "nat list"
  seq_num_preemptions :: int
  output_text :: ustr
  num_emitted_chars :: nat
  detokenizer :: "detok_state option"

definition new_sequence ::
  "int \<Rightarrow> int list \<Rightarrow> sampling_params \<Rightarrow> rat \<Rightarrow> rat option \<Rightarrow> sequence" where
  "new_sequence sid prompt params arrival prio =
     \<lparr>seq_id = sid, prompt_token_ids = prompt, sampling_params_of = params,
      arrival_time = arrival, priority = prio, output_token_ids = [], block_table = [],
      status = WAITING, num_computed_tokens = 0, first_token_time = None,
      finish_reason = None, error = None, token_ids = prompt, block_hashes = [],
      num_registered_blocks = 0, num_cached_tokens = 0, cpu_block_table = [],
      seq_num_preemptions = 0, output_text = [], num_emitted_chars = 0, detokenizer = None\<rparr>"

definition num_tokens :: "sequence \<Rightarrow> int" where
  "num_tokens s = int (length (token_ids s))"

definition num_prompt_tokens :: "sequence \<Rightarrow> int" where
  "num_prompt_tokens s = int (length (prompt_token_ids s))"

definition num_output_tokens :: "sequence \<Rightarrow> int" where
  "num_output_tokens s = int (length (output_token_ids s))"

definition num_uncomputed_tokens :: "sequence \<Rightarrow> int" where
  "num_uncomputed_tokens s = int (length (token_ids s)) - num_computed_tokens s"

definition is_finished :: "sequence \<Rightarrow> bool" where
  "is_finished s \<longleftrightarrow> status s \<in> {FINISHED, ABORTED}"

definition priority_key :: "sequence \<Rightarrow> rat" where
  "priority_key s = (case priority s of Some p \<Rightarrow> p | None \<Rightarrow> of_int (num_prompt_tokens s))"

definition seq_append_token :: "sequence \<Rightarrow> int \<Rightarrow> sequence" where
  "seq_append_token s t =
     s\<lparr>token_ids := token_ids s @ [t], output_token_ids := output_token_ids s @ [t]\<rparr>"

text \<open>The token list is the prompt followed by the output, whatever is appended.\<close>

definition tokens_consistent :: "sequence \<Rightarrow> bool" where
  "tokens_consistent s \<longleftrightarrow> token_ids s = prompt_token_ids s @ output_token_ids s"

lemma tokens_consistent_new: "tokens_consistent (new_sequence sid p sp a pr)"
  by (simp add: tokens_consistent_def new_sequence_def)

lemma tokens_consistent_append: "tokens_consistent s \<Longrightarrow> tokens_consistent (seq_append_token s t)"
  by (simp add: tokens_consistent_def seq_append_token_def)

end
