(* ===== verification/Block_Manager.thy ===== *)
theory Block_Manager
  imports Seq_State
begin

text \<open>
  \<open>engine/core/block_manager.py\<close>: the page allocator. A \<open>block_manager\<close> record holds the
  fields of the class; each method is a function of the manager and, where the method mutates
  the sequence, of the sequence, and returns both. \<open>OrderedDict\<close> \<open>evictable\<close> is the list of
  its keys, oldest first; \<open>hash_to_block\<close> is an association list.
\<close>

record block_manager =
  num_blocks :: nat
  block_size :: nat
  enable_prefix_caching :: bool
  free_blocks :: "nat list"
  ref_counts :: "int list"
  block_hash :: "bytes option list"
  hash_to_block :: "(bytes \<times> nat) list"
  evictable :: "nat list"
  num_cpu_blocks :: nat
  cpu_free :: "nat list"
  watermark_blocks :: int
  prefix_query_tokens :: int
  prefix_hit_tokens :: int

text \<open>\<open>int(x)\<close> of a float truncates toward zero; \<open>watermark\<close> is a finite float.\<close>

definition py_int_of_float :: "rat \<Rightarrow> int" where
  "py_int_of_float x = (if 0 \<le> x then \<lfloor>x\<rfloor> else \<lceil>x\<rceil>)"

definition init_block_manager ::
  "externals \<Rightarrow> nat \<Rightarrow> nat \<Rightarrow> bool \<Rightarrow> nat \<Rightarrow> rat \<Rightarrow> block_manager" where
  "init_block_manager X n bs prefix ncpu watermark =
     \<lparr>num_blocks = n, block_size = bs, enable_prefix_caching = prefix,
      free_blocks = [0..<n], ref_counts = replicate n 0, block_hash = replicate n None,
      hash_to_block = [], evictable = [], num_cpu_blocks = ncpu, cpu_free = [0..<ncpu],
      watermark_blocks = py_int_of_float (fl_round X (watermark * of_nat n)),
      prefix_query_tokens = 0, prefix_hit_tokens = 0\<rparr>"

section \<open>Accounting\<close>

definition num_free_blocks :: "block_manager \<Rightarrow> int" where
  "num_free_blocks b = int (length (free_blocks b)) + int (length (evictable b))"

definition num_used_blocks :: "block_manager \<Rightarrow> int" where
  "num_used_blocks b = int (num_blocks b) - num_free_blocks b"

definition blocks_for :: "block_manager \<Rightarrow> int \<Rightarrow> int" where
  "blocks_for b n = ceil_div n (block_size b)"

definition blocks_needed :: "block_manager \<Rightarrow> sequence \<Rightarrow> int \<Rightarrow> int" where
  "blocks_needed b s n =
     blocks_for b (num_computed_tokens s + n) - int (length (block_table s))"

section \<open>Prefix cache\<close>

text \<open>The hash of one block under its parent's digest (empty for the first block).\<close>

definition block_digest :: "externals \<Rightarrow> nat \<Rightarrow> int list \<Rightarrow> bytes list \<Rightarrow> bytes" where
  "block_digest X bs toks hashes =
     (let i = length hashes;
          tokens = take bs (drop (i * bs) toks)
      in sha256 X ((if hashes \<noteq> [] then last hashes else []) @ uint32_bytes X tokens))"

function extend_loop :: "externals \<Rightarrow> nat \<Rightarrow> int list \<Rightarrow> int \<Rightarrow> bytes list \<Rightarrow> bytes list" where
  "extend_loop X bs toks k hashes =
     (if int (length hashes) < k
      then extend_loop X bs toks k (hashes @ [block_digest X bs toks hashes])
      else hashes)"
  by pat_completeness auto
termination
  by (relation "measure (\<lambda>(X, bs, toks, k, hashes). nat (k - int (length hashes)))") auto

declare extend_loop.simps [simp del]

definition extend_hashes :: "externals \<Rightarrow> block_manager \<Rightarrow> sequence \<Rightarrow> int \<Rightarrow> sequence" where
  "extend_hashes X b s k =
     s\<lparr>block_hashes := extend_loop X (block_size b) (token_ids s) k (block_hashes s)\<rparr>"

primrec cached_hits :: "(bytes \<times> nat) list \<Rightarrow> bytes list \<Rightarrow> nat list" where
  "cached_hits d [] = []"
| "cached_hits d (h # hs) = (case map_of d h of None \<Rightarrow> [] | Some blk \<Rightarrow> blk # cached_hits d hs)"

definition cached_prefix ::
  "externals \<Rightarrow> block_manager \<Rightarrow> sequence \<Rightarrow> sequence \<times> nat list" where
  "cached_prefix X b s =
     (if \<not> enable_prefix_caching b then (s, [])
      else let max_blocks = (num_tokens s - 1) div int (block_size b);
               s1 = extend_hashes X b s max_blocks
           in (s1, cached_hits (hash_to_block b) (py_prefix (block_hashes s1) max_blocks)))"

definition publish :: "block_manager \<Rightarrow> nat \<Rightarrow> bytes \<Rightarrow> block_manager result" where
  "publish b blk h =
     rbind (list_get (block_hash b) blk) (\<lambda>old.
       if old = None \<and> map_of (hash_to_block b) h = None
       then rbind (list_set (block_hash b) blk (Some h)) (\<lambda>bh.
              Inr (b\<lparr>block_hash := bh, hash_to_block := AList.update h blk (hash_to_block b)\<rparr>))
       else Inr b)"

definition cache_full_blocks ::
  "externals \<Rightarrow> block_manager \<Rightarrow> sequence \<Rightarrow> (block_manager \<times> sequence) result" where
  "cache_full_blocks X b s =
     (if \<not> enable_prefix_caching b then Inr (b, s)
      else let num_full = num_computed_tokens s div int (block_size b) in
        if num_full \<le> int (num_registered_blocks s) then Inr (b, s)
        else let s1 = extend_hashes X b s num_full in
          rbind (foldM (\<lambda>b' i. rbind (list_get (block_table s1) i) (\<lambda>blk.
                          rbind (list_get (block_hashes s1) i) (\<lambda>h. publish b' blk h)))
                       b [num_registered_blocks s1..<nat num_full])
            (\<lambda>b'. Inr (b', s1\<lparr>num_registered_blocks := nat num_full\<rparr>)))"

section \<open>Allocation\<close>

definition take_free_block :: "block_manager \<Rightarrow> (block_manager \<times> nat) result" where
  "take_free_block b =
     (case free_blocks b of
        blk # rest \<Rightarrow>
          rbind (list_set (ref_counts b) blk 1) (\<lambda>rc.
            Inr (b\<lparr>free_blocks := rest, ref_counts := rc\<rparr>, blk))
      | [] \<Rightarrow>
          (case evictable b of
             [] \<Rightarrow> Inl KeyError
           | blk # rest \<Rightarrow>
               rbind (list_get (block_hash b) blk) (\<lambda>h.
                 case h of None \<Rightarrow> Inl KeyError
                 | Some d \<Rightarrow>
                     rbind (dict_del (hash_to_block b) d) (\<lambda>htb.
                     rbind (list_set (block_hash b) blk None) (\<lambda>bh.
                     rbind (list_set (ref_counts b) blk 1) (\<lambda>rc.
                       Inr (b\<lparr>evictable := rest, hash_to_block := htb, block_hash := bh,
                              ref_counts := rc\<rparr>, blk)))))))"

definition release_block :: "block_manager \<Rightarrow> nat \<Rightarrow> block_manager result" where
  "release_block b blk =
     rbind (list_get (ref_counts b) blk) (\<lambda>c.
     rbind (list_set (ref_counts b) blk (c - 1)) (\<lambda>rc.
       let b1 = b\<lparr>ref_counts := rc\<rparr> in
       if c - 1 = 0 then
         rbind (list_get (block_hash b1) blk) (\<lambda>h.
           if h \<noteq> None
           then Inr (b1\<lparr>evictable := (if blk \<in> set (evictable b1) then evictable b1
                                       else evictable b1 @ [blk])\<rparr>)
           else Inr (b1\<lparr>free_blocks := free_blocks b1 @ [blk]\<rparr>))
       else Inr b1))"

definition grow :: "block_manager \<Rightarrow> sequence \<Rightarrow> int \<Rightarrow> (block_manager \<times> sequence) result" where
  "grow b s n =
     rbind (draw take_free_block (nat (blocks_needed b s n)) b) (\<lambda>(b', blks).
       Inr (b', s\<lparr>block_table := block_table s @ blks\<rparr>))"

definition can_allocate ::
  "block_manager \<Rightarrow> sequence \<Rightarrow> int \<Rightarrow> nat list \<Rightarrow> bool \<Rightarrow> bool result" where
  "can_allocate b s n cached use_watermark =
     (let needed = blocks_for b (int (length cached) * int (block_size b) + n)
                     - int (length cached) in
      rbind (foldM (\<lambda>k blk. rbind (list_get (ref_counts b) blk) (\<lambda>c.
                      Inr (if c = 0 then k + 1 else k))) (0::int) cached) (\<lambda>pinned.
        Inr (needed \<le> num_free_blocks b - pinned
                        - (if use_watermark then watermark_blocks b else 0))))"

definition pin :: "block_manager \<Rightarrow> nat \<Rightarrow> block_manager result" where
  "pin b blk =
     rbind (list_get (ref_counts b) blk) (\<lambda>c.
       rbind (if c = 0 then
                if blk \<in> set (evictable b) then Inr (b\<lparr>evictable := remove1 blk (evictable b)\<rparr>)
                else Inl KeyError
              else Inr b) (\<lambda>b1.
         rbind (list_set (ref_counts b1) blk (c + 1)) (\<lambda>rc. Inr (b1\<lparr>ref_counts := rc\<rparr>))))"

definition allocate ::
  "block_manager \<Rightarrow> sequence \<Rightarrow> int \<Rightarrow> nat list \<Rightarrow> (block_manager \<times> sequence) result" where
  "allocate b s n cached =
     rbind (py_assert (block_table s = [])
              (''seq '' @ show_int (seq_id s) @ '' already holds blocks'')) (\<lambda>_.
     rbind (foldM pin b cached) (\<lambda>b1.
       let computed = int (length cached) * int (block_size b1);
           s1 = s\<lparr>block_table := cached, num_computed_tokens := computed,
                  num_cached_tokens := computed, num_registered_blocks := length cached\<rparr>;
           b2 = (if enable_prefix_caching b1
                 then b1\<lparr>prefix_query_tokens := prefix_query_tokens b1 + num_tokens s1,
                         prefix_hit_tokens := prefix_hit_tokens b1 + num_computed_tokens s1\<rparr>
                 else b1)
       in grow b2 s1 n))"

definition can_append :: "block_manager \<Rightarrow> sequence \<Rightarrow> int \<Rightarrow> bool" where
  "can_append b s n \<longleftrightarrow> blocks_needed b s n \<le> num_free_blocks b"

definition append_slots ::
  "block_manager \<Rightarrow> sequence \<Rightarrow> int \<Rightarrow> (block_manager \<times> sequence) result" where
  "append_slots b s n = grow b s n"

definition free_seq :: "block_manager \<Rightarrow> sequence \<Rightarrow> (block_manager \<times> sequence) result" where
  "free_seq b s =
     rbind (foldM release_block b (rev (block_table s))) (\<lambda>b'.
       Inr (b', s\<lparr>block_table := [], num_registered_blocks := 0\<rparr>))"

section \<open>Swapping\<close>

definition can_swap_out :: "block_manager \<Rightarrow> sequence \<Rightarrow> bool" where
  "can_swap_out b s \<longleftrightarrow> length (block_table s) \<le> length (cpu_free b)"

definition take_host :: "block_manager \<Rightarrow> (block_manager \<times> nat) result" where
  "take_host b = rbind (popleft (cpu_free b)) (\<lambda>(cpu, rest). Inr (b\<lparr>cpu_free := rest\<rparr>, cpu))"

definition give_host :: "block_manager \<Rightarrow> nat \<Rightarrow> block_manager result" where
  "give_host b cpu = Inr (b\<lparr>cpu_free := cpu_free b @ [cpu]\<rparr>)"

definition swap_out_one ::
  "block_manager \<times> sequence \<times> (nat \<times> nat) list \<Rightarrow> nat
     \<Rightarrow> (block_manager \<times> sequence \<times> (nat \<times> nat) list) result" where
  "swap_out_one st blk = (case st of (b, s, pairs) \<Rightarrow>
     rbind (take_host b) (\<lambda>(b1, cpu).
       Inr (b1, s\<lparr>cpu_block_table := cpu_block_table s @ [cpu]\<rparr>, pairs @ [(blk, cpu)])))"

definition swap_out_seq ::
  "block_manager \<Rightarrow> sequence \<Rightarrow> (block_manager \<times> sequence \<times> (nat \<times> nat) list) result" where
  "swap_out_seq b s =
     rbind (foldM swap_out_one (b, s, []) (block_table s)) (\<lambda>(b1, s1, pairs).
     rbind (free_seq b1 s1) (\<lambda>(b2, s2). Inr (b2, s2, pairs)))"

definition can_swap_in :: "block_manager \<Rightarrow> sequence \<Rightarrow> int \<Rightarrow> bool \<Rightarrow> bool" where
  "can_swap_in b s n use_watermark \<longleftrightarrow>
     blocks_for b (num_computed_tokens s + n)
       \<le> num_free_blocks b - (if use_watermark then watermark_blocks b else 0)"

definition swap_in_one ::
  "block_manager \<times> nat list \<times> (nat \<times> nat) list \<Rightarrow> nat
     \<Rightarrow> (block_manager \<times> nat list \<times> (nat \<times> nat) list) result" where
  "swap_in_one st cpu = (case st of (b, table, pairs) \<Rightarrow>
     rbind (take_free_block b) (\<lambda>(b1, blk).
     rbind (give_host b1 cpu) (\<lambda>b2.
       Inr (b2, table @ [blk], pairs @ [(cpu, blk)]))))"

definition swap_in_seq ::
  "block_manager \<Rightarrow> sequence \<Rightarrow> (block_manager \<times> sequence \<times> (nat \<times> nat) list) result" where
  "swap_in_seq b s =
     rbind (py_assert (block_table s = []) ''swap_in of a sequence that holds blocks'') (\<lambda>_.
     rbind (foldM swap_in_one (b, block_table s, []) (cpu_block_table s))
       (\<lambda>(b', table, pairs).
         Inr (b', s\<lparr>block_table := table, cpu_block_table := [], num_registered_blocks := 0\<rparr>,
              pairs)))"

definition free_cpu :: "block_manager \<Rightarrow> sequence \<Rightarrow> block_manager \<times> sequence" where
  "free_cpu b s =
     (b\<lparr>cpu_free := cpu_free b @ cpu_block_table s\<rparr>, s\<lparr>cpu_block_table := []\<rparr>)"

end
