(* ===== verification/Block_Manager_Inv.thy ===== *)
theory Block_Manager_Inv
  imports Block_Manager
begin

text \<open>
  The accounting invariant of the page allocator and its preservation. \<open>M\<close> is the multiset of
  GPU pages mapped by the live block tables (a page shared by two tables occurs twice) and \<open>K\<close>
  the multiset of host pages of the swapped sequences. The interface \<open>page_pool\<close> (take a page,
  give one back) is interpreted on the GPU pool and on the host pool; what the engine does to
  many pages at once is proved once inside it.
\<close>

section \<open>The interface of a page pool\<close>

locale page_pool =
  fixes inv :: "'s \<Rightarrow> 'p multiset \<Rightarrow> bool"
    and avail :: "'s \<Rightarrow> int"
    and take_page :: "'s \<Rightarrow> ('s \<times> 'p) result"
    and give_page :: "'s \<Rightarrow> 'p \<Rightarrow> 's result"
  assumes avail_nonneg: "inv s M \<Longrightarrow> 0 \<le> avail s"
    and take_page: "inv s M \<Longrightarrow> 0 < avail s \<Longrightarrow>
      \<exists>s' p. take_page s = Inr (s', p) \<and> p \<notin># M \<and> inv s' (add_mset p M) \<and> avail s' = avail s - 1"
    and give_page: "inv s (add_mset p M) \<Longrightarrow> \<exists>s'. give_page s p = Inr s' \<and> inv s' M"
    and avail_give: "inv s (add_mset p M) \<Longrightarrow> give_page s p = Inr s' \<Longrightarrow>
      avail s' = avail s + (if p \<in># M then 0 else 1)"
begin

lemma draw_pages:
  assumes "inv s M" and "int n \<le> avail s"
  shows "\<exists>s' ps. draw take_page n s = Inr (s', ps) \<and> length ps = n \<and> distinct ps
           \<and> set ps \<inter> set_mset M = {} \<and> inv s' (M + mset ps) \<and> avail s' = avail s - int n"
  using assms
proof (induction n arbitrary: s M)
  case 0
  then show ?case by simp
next
  case (Suc n)
  then obtain s1 p where 1: "take_page s = Inr (s1, p)" "p \<notin># M" "inv s1 (add_mset p M)"
      "avail s1 = avail s - 1"
    using take_page [of s M] by force
  with Suc.prems(2) Suc.IH [of s1 "add_mset p M"] obtain s2 ps where
    2: "draw take_page n s1 = Inr (s2, ps)" "length ps = n" "distinct ps"
      "set ps \<inter> set_mset (add_mset p M) = {}" "inv s2 (add_mset p M + mset ps)"
      "avail s2 = avail s1 - int n"
    by force
  with 1 show ?case
    by (intro exI [of _ s2] exI [of _ "p # ps"]) auto
qed

lemma draw_exhausted:
  assumes "inv s M" and "avail s < int n" and "\<And>t N. inv t N \<Longrightarrow> avail t = 0 \<Longrightarrow> \<exists>e. take_page t = Inl e"
  shows "\<exists>e. draw take_page n s = Inl e"
  using assms(1,2)
proof (induction n arbitrary: s M)
  case 0
  then show ?case using avail_nonneg [of s M] by simp
next
  case (Suc n)
  show ?case
  proof (cases "avail s = 0")
    case True
    with Suc.prems(1) assms(3) obtain e where "take_page s = Inl e" by blast
    then show ?thesis by simp
  next
    case False
    then obtain s1 p where "take_page s = Inr (s1, p)" "inv s1 (add_mset p M)" "avail s1 = avail s - 1"
      using take_page [of s M] avail_nonneg [of s M] Suc.prems(1) by force
    with Suc.prems(2) Suc.IH [of s1 "add_mset p M"] show ?thesis by force
  qed
qed

lemma give_pages:
  assumes "inv s (M + mset ps)"
  shows "\<exists>s'. foldM give_page s ps = Inr s' \<and> inv s' M"
  using assms
proof (induction ps arbitrary: s)
  case Nil
  then show ?case by simp
next
  case (Cons p ps)
  then obtain s1 where "give_page s p = Inr s1" "inv s1 (M + mset ps)"
    using give_page [of s p "M + mset ps"] by auto
  with Cons.IH [of s1] show ?case by auto
qed

text \<open>Pages that are drawn and given back leave the pool as available as it was.\<close>

lemma give_pages_avail:
  assumes "inv s (M + mset ps)" and "foldM give_page s ps = Inr s'"
  shows "avail s' = avail s + int (card (set ps - set_mset M))"
  using assms
proof (induction ps arbitrary: s)
  case Nil
  then show ?case by simp
next
  case (Cons p ps)
  then have inv: "inv s (add_mset p (M + mset ps))" by simp
  then obtain s1 where 1: "give_page s p = Inr s1" "inv s1 (M + mset ps)"
    using give_page by blast
  with Cons.prems have "avail s' = avail s1 + int (card (set ps - set_mset M))"
    by (intro Cons.IH) simp_all
  moreover have "avail s1 = avail s + (if p \<in># M + mset ps then 0 else 1)"
    using avail_give inv 1(1) by blast
  moreover have "card (set (p # ps) - set_mset M)
      = card (set ps - set_mset M) + (if p \<in># M + mset ps then 0 else 1)"
    by (auto simp: insert_Diff_if card_insert_if)
  ultimately show ?case by simp
qed

end

section \<open>The invariant\<close>

text \<open>
  Reference counts: every block's count is the number of live tables that contain it; without
  prefix caching no block is shared.
\<close>

definition refs_ok :: "block_manager \<Rightarrow> nat multiset \<Rightarrow> bool" where
  "refs_ok b M \<longleftrightarrow>
     length (ref_counts b) = num_blocks b \<and> set_mset M \<subseteq> {..<num_blocks b} \<and>
     (\<forall>i < num_blocks b. ref_counts b ! i = int (count M i)) \<and>
     (\<not> enable_prefix_caching b \<longrightarrow> (\<forall>i. count M i \<le> 1))"

text \<open>An unreferenced block is free when it has no hash and evictable when it has one.\<close>

definition pools_ok :: "block_manager \<Rightarrow> nat multiset \<Rightarrow> bool" where
  "pools_ok b M \<longleftrightarrow>
     distinct (free_blocks b) \<and> distinct (evictable b) \<and>
     (\<forall>i. i \<in> set (free_blocks b) \<longleftrightarrow> i < num_blocks b \<and> i \<notin># M \<and> block_hash b ! i = None) \<and>
     (\<forall>i. i \<in> set (evictable b) \<longleftrightarrow> i < num_blocks b \<and> i \<notin># M \<and> block_hash b ! i \<noteq> None)"

text \<open>The hash table and the blocks' hashes are inverse to each other.\<close>

definition cache_ok :: "block_manager \<Rightarrow> bool" where
  "cache_ok b \<longleftrightarrow>
     0 < block_size b \<and> length (block_hash b) = num_blocks b \<and>
     dict_wf (hash_to_block b) \<and>
     (\<forall>h i. map_of (hash_to_block b) h = Some i \<longleftrightarrow> i < num_blocks b \<and> block_hash b ! i = Some h) \<and>
     (\<not> enable_prefix_caching b \<longrightarrow> hash_to_block b = [])"

definition host_ok :: "block_manager \<Rightarrow> nat multiset \<Rightarrow> bool" where
  "host_ok b K \<longleftrightarrow> mset (cpu_free b) + K = mset [0..<num_cpu_blocks b]"

definition bm_inv :: "block_manager \<Rightarrow> nat multiset \<Rightarrow> nat multiset \<Rightarrow> bool" where
  "bm_inv b M K \<longleftrightarrow> refs_ok b M \<and> pools_ok b M \<and> cache_ok b \<and> host_ok b K"

text \<open>What no allocator operation changes.\<close>

definition bm_static :: "block_manager \<Rightarrow> block_manager \<Rightarrow> bool" where
  "bm_static b b' \<longleftrightarrow>
     num_blocks b' = num_blocks b \<and> block_size b' = block_size b \<and>
     enable_prefix_caching b' = enable_prefix_caching b \<and>
     num_cpu_blocks b' = num_cpu_blocks b \<and> watermark_blocks b' = watermark_blocks b"

definition gpu_frame :: "block_manager \<Rightarrow> block_manager \<Rightarrow> bool" where
  "gpu_frame b b' \<longleftrightarrow> bm_static b b' \<and> cpu_free b' = cpu_free b"

lemma bm_static_refl [simp]: "bm_static b b" by (simp add: bm_static_def)

lemma bm_static_trans: "bm_static a b \<Longrightarrow> bm_static b c \<Longrightarrow> bm_static a c"
  by (simp add: bm_static_def)

lemma gpu_frame_refl [simp]: "gpu_frame b b" by (simp add: gpu_frame_def)

lemma gpu_frame_trans: "gpu_frame a b \<Longrightarrow> gpu_frame b c \<Longrightarrow> gpu_frame a c"
  by (simp add: gpu_frame_def bm_static_def)

lemma gpu_frame_static: "gpu_frame b b' \<Longrightarrow> bm_static b b'" by (simp add: gpu_frame_def)

lemma gpu_frame_host: "gpu_frame b b' \<Longrightarrow> host_ok b K \<Longrightarrow> host_ok b' K"
  by (simp add: gpu_frame_def bm_static_def host_ok_def)

lemma bm_static_blocks_for: "bm_static b b' \<Longrightarrow> blocks_for b' n = blocks_for b n"
  by (simp add: bm_static_def blocks_for_def)

lemma bm_inv_init: "0 < bs \<Longrightarrow> bm_inv (init_block_manager X n bs prefix ncpu wm) {#} {#}"
  by (auto simp: bm_inv_def refs_ok_def pools_ok_def cache_ok_def host_ok_def init_block_manager_def)

lemma bm_inv_gpu:
  "bm_inv b M K \<Longrightarrow> gpu_frame b b' \<Longrightarrow> refs_ok b' N \<Longrightarrow> pools_ok b' N \<Longrightarrow> cache_ok b' \<Longrightarrow> bm_inv b' N K"
  using gpu_frame_host by (auto simp: bm_inv_def)

lemma bm_inv_block_size: "bm_inv b M K \<Longrightarrow> 0 < block_size b"
  by (simp add: bm_inv_def cache_ok_def)

lemma bm_inv_range: "bm_inv b M K \<Longrightarrow> p \<in># M \<Longrightarrow> p < num_blocks b"
  by (auto simp: bm_inv_def refs_ok_def)

lemma bm_inv_partition:
  assumes "bm_inv b M K"
  shows "set (free_blocks b) \<union> set (evictable b) \<union> set_mset M = {..<num_blocks b}"
    and "set (free_blocks b) \<inter> set (evictable b) = {}"
    and "(set (free_blocks b) \<union> set (evictable b)) \<inter> set_mset M = {}"
  using assms unfolding bm_inv_def refs_ok_def pools_ok_def by auto

lemma bm_inv_num_free:
  assumes "bm_inv b M K"
  shows "num_free_blocks b = int (num_blocks b) - int (card (set_mset M))"
proof -
  have "distinct (free_blocks b)" "distinct (evictable b)"
    using assms by (simp_all add: bm_inv_def pools_ok_def)
  then have "num_free_blocks b = int (card (set (free_blocks b) \<union> set (evictable b)))"
    using bm_inv_partition(2) [OF assms]
    by (simp add: num_free_blocks_def card_Un_disjoint distinct_card)
  moreover have "card {..<num_blocks b}
      = card (set (free_blocks b) \<union> set (evictable b)) + card (set_mset M)"
    unfolding bm_inv_partition(1) [OF assms, symmetric]
    by (rule card_Un_disjoint) (use bm_inv_partition(3) [OF assms] in auto)
  ultimately show ?thesis by simp
qed

lemma bm_inv_num_used: "bm_inv b M K \<Longrightarrow> num_used_blocks b = int (card (set_mset M))"
  by (simp add: num_used_blocks_def bm_inv_num_free)

section \<open>Single-page operations\<close>

lemma cache_ok_inj:
  "cache_ok b \<Longrightarrow> block_hash b ! i = Some h \<Longrightarrow> block_hash b ! j = Some h \<Longrightarrow>
     i < num_blocks b \<Longrightarrow> j < num_blocks b \<Longrightarrow> i = j"
  unfolding cache_ok_def by (metis option.inject)

lemma cache_ok_lookup:
  "cache_ok b \<Longrightarrow> map_of (hash_to_block b) h = Some i \<longleftrightarrow> i < num_blocks b \<and> block_hash b ! i = Some h"
  by (simp add: cache_ok_def)

lemma cache_okI:
  assumes "cache_ok b" and "bm_static b b'" and "length (block_hash b') = num_blocks b"
    and "dict_wf (hash_to_block b')"
    and "\<And>h i. map_of (hash_to_block b') h = Some i \<longleftrightarrow> i < num_blocks b \<and> block_hash b' ! i = Some h"
    and "\<not> enable_prefix_caching b \<Longrightarrow> hash_to_block b' = []"
  shows "cache_ok b'"
  using assms by (simp add: cache_ok_def bm_static_def)

lemma cache_ok_evict:
  assumes ok: "cache_ok b" and d: "block_hash b ! blk = Some d" "blk < num_blocks b"
  shows "cache_ok (b\<lparr>evictable := ev, hash_to_block := AList.delete d (hash_to_block b),
                     block_hash := (block_hash b)[blk := None], ref_counts := rc\<rparr>)"
proof (rule cache_okI [OF ok])
  fix h i
  show "map_of (hash_to_block (b\<lparr>evictable := ev, hash_to_block := AList.delete d (hash_to_block b),
          block_hash := (block_hash b)[blk := None], ref_counts := rc\<rparr>)) h = Some i \<longleftrightarrow>
        i < num_blocks b \<and> block_hash (b\<lparr>evictable := ev,
          hash_to_block := AList.delete d (hash_to_block b),
          block_hash := (block_hash b)[blk := None], ref_counts := rc\<rparr>) ! i = Some h"
    using cache_ok_inj [OF ok d(1), of i] d cache_ok_lookup [OF ok, of h i]
      ok [unfolded cache_ok_def]
    by (cases "i = blk") (auto simp: dict_lookup nth_list_update)
qed (use ok in \<open>simp_all add: cache_ok_def bm_static_def\<close>)

lemma cache_ok_publish:
  assumes ok: "cache_ok b" and new: "block_hash b ! blk = None" "map_of (hash_to_block b) h = None"
    and blk: "blk < num_blocks b" "enable_prefix_caching b"
  shows "cache_ok (b\<lparr>block_hash := (block_hash b)[blk := Some h],
                     hash_to_block := AList.update h blk (hash_to_block b)\<rparr>)"
proof (rule cache_okI [OF ok])
  have "length (block_hash b) = num_blocks b" using ok by (simp add: cache_ok_def)
  then show "map_of (hash_to_block (b\<lparr>block_hash := (block_hash b)[blk := Some h],
          hash_to_block := AList.update h blk (hash_to_block b)\<rparr>)) g = Some i \<longleftrightarrow>
        i < num_blocks b \<and> block_hash (b\<lparr>block_hash := (block_hash b)[blk := Some h],
          hash_to_block := AList.update h blk (hash_to_block b)\<rparr>) ! i = Some g" for g i
    using new blk cache_ok_lookup [OF ok, of g i]
    by (cases "g = h"; cases "i = blk") (auto simp: dict_lookup)
qed (use ok blk in \<open>simp_all add: cache_ok_def bm_static_def\<close>)

lemma pools_okI:
  assumes "distinct fs" and "distinct ev"
    and "\<And>i. i \<in> set fs \<longleftrightarrow> i < num_blocks b \<and> i \<notin># M \<and> block_hash b ! i = None"
    and "\<And>i. i \<in> set ev \<longleftrightarrow> i < num_blocks b \<and> i \<notin># M \<and> block_hash b ! i \<noteq> None"
    and "free_blocks b = fs" and "evictable b = ev"
  shows "pools_ok b M"
  using assms unfolding pools_ok_def by simp

lemma bm_invD:
  assumes "bm_inv b M K"
  shows "refs_ok b M" "pools_ok b M" "cache_ok b" "host_ok b K"
    and "length (ref_counts b) = num_blocks b" "length (block_hash b) = num_blocks b"
    and "distinct (free_blocks b)" "distinct (evictable b)"
    and "i \<in> set (free_blocks b) \<longleftrightarrow> i < num_blocks b \<and> i \<notin># M \<and> block_hash b ! i = None"
    and "i \<in> set (evictable b) \<longleftrightarrow> i < num_blocks b \<and> i \<notin># M \<and> block_hash b ! i \<noteq> None"
    and "i < num_blocks b \<Longrightarrow> ref_counts b ! i = int (count M i)"
  using assms by (simp_all add: bm_inv_def refs_ok_def pools_ok_def cache_ok_def)

lemma refs_okI:
  assumes "refs_ok b M" and "bm_static b b'" and "ref_counts b' = (ref_counts b)[blk := int (count N blk)]"
    and "blk < num_blocks b" and "\<And>i. i \<noteq> blk \<Longrightarrow> count N i = count M i"
    and "\<not> enable_prefix_caching b \<Longrightarrow> count N blk \<le> 1"
  shows "refs_ok b' N"
proof -
  have "set_mset N \<subseteq> insert blk (set_mset M)"
  proof
    fix x assume "x \<in># N"
    then show "x \<in> insert blk (set_mset M)"
      using assms(5) [of x] by (cases "x = blk") (auto simp flip: count_greater_zero_iff)
  qed
  moreover have "count N i \<le> 1" if "\<not> enable_prefix_caching b" for i
    using that assms(1) assms(5) [of i] assms(6) by (cases "i = blk") (simp_all add: refs_ok_def)
  ultimately show ?thesis
    using assms(1-5) by (auto simp: refs_ok_def bm_static_def nth_list_update)
qed

lemma take_free_block_ok:
  assumes inv: "bm_inv b M K" and "0 < num_free_blocks b"
  shows "\<exists>b' blk. take_free_block b = Inr (b', blk) \<and> blk \<notin># M \<and> bm_inv b' (add_mset blk M) K
           \<and> gpu_frame b b'"
proof (cases "free_blocks b")
  case (Cons blk rest)
  note D = bm_invD [OF inv]
  have blk: "blk < num_blocks b" "blk \<notin># M" "block_hash b ! blk = None" "blk \<notin> set rest"
    using D(7) D(9) [of blk] Cons by auto
  let ?b = "b\<lparr>free_blocks := rest, ref_counts := (ref_counts b)[blk := 1]\<rparr>"
  have fr: "gpu_frame b ?b" by (simp add: gpu_frame_def bm_static_def)
  have "refs_ok ?b (add_mset blk M)"
    by (rule refs_okI [OF D(1), of _ blk]) (use blk in \<open>auto simp: bm_static_def not_in_iff\<close>)
  moreover have "pools_ok ?b (add_mset blk M)"
  proof (rule pools_okI)
    show "i \<in> set rest \<longleftrightarrow> i < num_blocks ?b \<and> i \<notin># add_mset blk M \<and> block_hash ?b ! i = None" for i
      using D(9) [of i] Cons blk by (cases "i = blk") auto
    show "i \<in> set (evictable b) \<longleftrightarrow> i < num_blocks ?b \<and> i \<notin># add_mset blk M \<and> block_hash ?b ! i \<noteq> None" for i
      using D(10) [of i] blk by (cases "i = blk") auto
  qed (use D(7,8) Cons in simp_all)
  moreover have "cache_ok ?b" using D(3) by (simp add: cache_ok_def)
  moreover have "take_free_block b = Inr (?b, blk)"
    using blk Cons D(5) by (simp add: take_free_block_def)
  ultimately show ?thesis
    using blk(2) bm_inv_gpu [OF inv fr] fr by blast
next
  case Nil
  note D = bm_invD [OF inv]
  from Nil assms(2) obtain blk rest where ev: "evictable b = blk # rest"
    by (cases "evictable b") (auto simp: num_free_blocks_def)
  then obtain d where blk: "blk < num_blocks b" "blk \<notin># M" "block_hash b ! blk = Some d"
      "blk \<notin> set rest"
    using D(8) D(10) [of blk] by auto
  then have md: "map_of (hash_to_block b) d = Some blk"
    using cache_ok_lookup [OF D(3)] by simp
  let ?b = "b\<lparr>evictable := rest, hash_to_block := AList.delete d (hash_to_block b),
              block_hash := (block_hash b)[blk := None], ref_counts := (ref_counts b)[blk := 1]\<rparr>"
  have fr: "gpu_frame b ?b" by (simp add: gpu_frame_def bm_static_def)
  have "refs_ok ?b (add_mset blk M)"
    by (rule refs_okI [OF D(1), of _ blk]) (use blk in \<open>auto simp: bm_static_def not_in_iff\<close>)
  moreover have "pools_ok ?b (add_mset blk M)"
  proof (rule pools_okI)
    show "i \<in> set [] \<longleftrightarrow> i < num_blocks ?b \<and> i \<notin># add_mset blk M \<and> block_hash ?b ! i = None" for i
      using D(6) D(9) [of i] Nil by (cases "i = blk") auto
    show "i \<in> set rest \<longleftrightarrow> i < num_blocks ?b \<and> i \<notin># add_mset blk M \<and> block_hash ?b ! i \<noteq> None" for i
      using D(6) D(10) [of i] ev blk by (cases "i = blk") auto
  qed (use D(7,8) Nil ev in simp_all)
  moreover have "cache_ok ?b" by (rule cache_ok_evict [OF D(3) blk(3,1)])
  moreover have "take_free_block b = Inr (?b, blk)"
    using blk ev Nil md D(5,6) by (simp add: take_free_block_def dict_del_def)
  ultimately show ?thesis
    using blk(2) bm_inv_gpu [OF inv fr] fr by blast
qed

lemma release_block_ok:
  assumes inv: "bm_inv b (add_mset blk M) K"
  shows "\<exists>b'. release_block b blk = Inr b' \<and> bm_inv b' M K \<and> gpu_frame b b'
           \<and> block_hash b' = block_hash b \<and> hash_to_block b' = hash_to_block b"
proof -
  note D = bm_invD [OF inv]
  have blk: "blk < num_blocks b" "ref_counts b ! blk = 1 + int (count M blk)"
    using bm_inv_range [OF inv] D(11) [of blk] by simp_all
  have out: "blk \<notin> set (evictable b)" "blk \<notin> set (free_blocks b)"
    using D(9) [of blk] D(10) [of blk] by simp_all
  define rc where "rc = (ref_counts b)[blk := int (count M blk)]"
  define fs where "fs = (if blk \<notin># M \<and> block_hash b ! blk = None then free_blocks b @ [blk] else free_blocks b)"
  define ev where "ev = (if blk \<notin># M \<and> block_hash b ! blk \<noteq> None then evictable b @ [blk] else evictable b)"
  define b' where "b' = b\<lparr>ref_counts := rc, free_blocks := fs, evictable := ev\<rparr>"
  have cnt: "count M blk = 0 \<longleftrightarrow> blk \<notin># M" by (simp add: not_in_iff)
  have fr: "gpu_frame b b'" by (simp add: gpu_frame_def bm_static_def b'_def)
  have "release_block b blk = Inr b'"
    using blk out D(5,6) cnt
    by (simp add: release_block_def b'_def rc_def fs_def ev_def Let_def del: count_eq_zero_iff)
  moreover have "refs_ok b' M"
  proof (rule refs_okI [OF D(1), of _ blk])
    show "count M blk \<le> 1" if "\<not> enable_prefix_caching b"
    proof -
      have "count (add_mset blk M) blk \<le> 1"
        using that D(1) unfolding refs_ok_def by blast
      then show ?thesis by simp
    qed
  qed (use blk in \<open>auto simp: bm_static_def b'_def rc_def\<close>)
  moreover have "pools_ok b' M"
  proof (rule pools_okI)
    show "i \<in> set fs \<longleftrightarrow> i < num_blocks b' \<and> i \<notin># M \<and> block_hash b' ! i = None" for i
      using D(9) [of i] blk(1) by (cases "i = blk") (auto simp: b'_def fs_def)
    show "i \<in> set ev \<longleftrightarrow> i < num_blocks b' \<and> i \<notin># M \<and> block_hash b' ! i \<noteq> None" for i
      using D(10) [of i] blk(1) by (cases "i = blk") (auto simp: b'_def ev_def)
  qed (use D(7,8) out in \<open>simp_all add: b'_def fs_def ev_def\<close>)
  moreover have "cache_ok b'"
    using D(3) by (simp add: cache_ok_def b'_def)
  moreover have "block_hash b' = block_hash b" "hash_to_block b' = hash_to_block b"
    by (simp_all add: b'_def)
  ultimately show ?thesis
    using bm_inv_gpu [OF inv fr] fr by blast
qed

lemma cached_enabled:
  "cache_ok b \<Longrightarrow> i < num_blocks b \<Longrightarrow> block_hash b ! i \<noteq> None \<Longrightarrow> enable_prefix_caching b"
  using cache_ok_lookup [of b] by (auto simp: cache_ok_def)

lemma pin_ok:
  assumes inv: "bm_inv b M K" and blk: "blk < num_blocks b"
    and held: "block_hash b ! blk \<noteq> None"
  shows "\<exists>b'. pin b blk = Inr b' \<and> bm_inv b' (add_mset blk M) K \<and> gpu_frame b b'
           \<and> block_hash b' = block_hash b \<and> hash_to_block b' = hash_to_block b"
proof -
  note D = bm_invD [OF inv]
  define b' where "b' = b\<lparr>ref_counts := (ref_counts b)[blk := ref_counts b ! blk + 1],
      evictable := (if blk \<in># M then evictable b else remove1 blk (evictable b))\<rparr>"
  have zero: "ref_counts b ! blk = 0 \<longleftrightarrow> blk \<notin># M"
    using D(11) [OF blk] by (simp add: not_in_iff)
  have fr: "gpu_frame b b'" by (simp add: gpu_frame_def bm_static_def b'_def)
  have "pin b blk = Inr b'"
    using D(5) D(10) [of blk] blk held by (auto simp: pin_def b'_def zero)
  moreover have "refs_ok b' (add_mset blk M)"
    by (rule refs_okI [OF D(1), of _ blk])
      (use blk D(11) [of blk] cached_enabled [OF D(3) blk held] in \<open>auto simp: bm_static_def b'_def ac_simps\<close>)
  moreover have "pools_ok b' (add_mset blk M)"
  proof (rule pools_okI)
    show "i \<in> set (free_blocks b) \<longleftrightarrow> i < num_blocks b' \<and> i \<notin># add_mset blk M \<and> block_hash b' ! i = None" for i
      using D(9) [of i] held by (cases "i = blk") (auto simp: b'_def)
    show "i \<in> set (if blk \<in># M then evictable b else remove1 blk (evictable b))
        \<longleftrightarrow> i < num_blocks b' \<and> i \<notin># add_mset blk M \<and> block_hash b' ! i \<noteq> None" for i
      using D(8) D(10) [of i] by (cases "i = blk") (auto simp: b'_def)
  qed (use D(7,8) in \<open>simp_all add: b'_def\<close>)
  moreover have "cache_ok b'" using D(3) by (simp add: cache_ok_def b'_def)
  moreover have "block_hash b' = block_hash b" "hash_to_block b' = hash_to_block b"
    by (simp_all add: b'_def)
  ultimately show ?thesis
    using bm_inv_gpu [OF inv fr] fr by blast
qed

lemma publish_ok:
  assumes inv: "bm_inv b M K" and "blk \<in># M" and "enable_prefix_caching b"
  shows "\<exists>b'. publish b blk h = Inr b' \<and> bm_inv b' M K \<and> gpu_frame b b'"
proof -
  note D = bm_invD [OF inv]
  have blk: "blk < num_blocks b" using bm_inv_range [OF inv assms(2)] .
  let ?b = "b\<lparr>block_hash := (block_hash b)[blk := Some h],
              hash_to_block := AList.update h blk (hash_to_block b)\<rparr>"
  show ?thesis
  proof (cases "block_hash b ! blk = None \<and> map_of (hash_to_block b) h = None")
    case True
    have fr: "gpu_frame b ?b" by (simp add: gpu_frame_def bm_static_def)
    have "publish b blk h = Inr ?b"
      using True blk D(6) by (simp add: publish_def)
    moreover have "refs_ok ?b M" using D(1) by (simp add: refs_ok_def)
    moreover have "pools_ok ?b M"
    proof (rule pools_okI)
      show "i \<in> set (free_blocks b) \<longleftrightarrow> i < num_blocks ?b \<and> i \<notin># M \<and> block_hash ?b ! i = None" for i
        using D(6) D(9) [of i] blk assms(2) by (cases "i = blk") auto
      show "i \<in> set (evictable b) \<longleftrightarrow> i < num_blocks ?b \<and> i \<notin># M \<and> block_hash ?b ! i \<noteq> None" for i
        using D(6) D(10) [of i] blk assms(2) by (cases "i = blk") auto
    qed (use D(7,8) in simp_all)
    moreover have "cache_ok ?b"
      using True blk assms(3) by (intro cache_ok_publish [OF D(3)]) simp_all
    ultimately show ?thesis
      using bm_inv_gpu [OF inv fr] fr by blast
  next
    case False
    with D(6) blk inv show ?thesis by (auto simp: publish_def)
  qed
qed

section \<open>The two pools as interpretations\<close>

lemma take_free_block_avail:
  "bm_inv b M K \<Longrightarrow> bm_inv b' (add_mset p M) K \<Longrightarrow> p \<notin># M \<Longrightarrow> bm_static b b' \<Longrightarrow>
     num_free_blocks b' = num_free_blocks b - 1"
  by (simp add: bm_inv_num_free bm_static_def)

interpretation gpu: page_pool
  "\<lambda>b M. bm_inv b M K \<and> gpu_frame b0 b" num_free_blocks take_free_block release_block
  for K :: "nat multiset" and b0 :: block_manager
proof unfold_locales
  fix b M assume "bm_inv b M K \<and> gpu_frame b0 b"
  then show "0 \<le> num_free_blocks b" by (simp add: num_free_blocks_def)
next
  fix b M assume inv: "bm_inv b M K \<and> gpu_frame b0 b" and "0 < num_free_blocks b"
  then obtain b' p where "take_free_block b = Inr (b', p)" "p \<notin># M" "bm_inv b' (add_mset p M) K"
      "gpu_frame b b'"
    using take_free_block_ok by blast
  moreover from this inv have "num_free_blocks b' = num_free_blocks b - 1"
    by (intro take_free_block_avail [of b M K]) (simp_all add: gpu_frame_def)
  ultimately show "\<exists>b' p. take_free_block b = Inr (b', p) \<and> p \<notin># M \<and>
      (bm_inv b' (add_mset p M) K \<and> gpu_frame b0 b') \<and> num_free_blocks b' = num_free_blocks b - 1"
    using inv gpu_frame_trans by blast
next
  fix b p M assume "bm_inv b (add_mset p M) K \<and> gpu_frame b0 b"
  then show "\<exists>b'. release_block b p = Inr b' \<and> bm_inv b' M K \<and> gpu_frame b0 b'"
    using release_block_ok gpu_frame_trans by blast
next
  fix b p M b' assume inv: "bm_inv b (add_mset p M) K \<and> gpu_frame b0 b" and "release_block b p = Inr b'"
  then have "bm_inv b' M K" "bm_static b b'"
    using release_block_ok [of b p M K] by (auto simp: gpu_frame_def)
  then show "num_free_blocks b' = num_free_blocks b + (if p \<in># M then 0 else 1)"
    using bm_inv_num_free [of b "add_mset p M" K] bm_inv_num_free [of b' M K] inv
    by (auto simp: bm_static_def card_insert_if)
qed

text \<open>On the host side only the free list changes.\<close>

definition host_frame :: "block_manager \<Rightarrow> block_manager \<Rightarrow> bool" where
  "host_frame b b' \<longleftrightarrow> b' = b\<lparr>cpu_free := cpu_free b'\<rparr>"

lemma host_frame_refl [simp]: "host_frame b b" by (simp add: host_frame_def)

lemma host_frame_update [simp]: "host_frame b0 b \<Longrightarrow> host_frame b0 (b\<lparr>cpu_free := fs\<rparr>)"
  unfolding host_frame_def by (cases b0; cases b) simp

lemma bm_inv_cpu_update:
  "bm_inv (b\<lparr>cpu_free := fs\<rparr>) M K \<longleftrightarrow>
     refs_ok b M \<and> pools_ok b M \<and> cache_ok b \<and> mset fs + K = mset [0..<num_cpu_blocks b]"
  by (simp add: bm_inv_def refs_ok_def pools_ok_def cache_ok_def host_ok_def)

interpretation host: page_pool
  "\<lambda>b K. bm_inv b M K \<and> host_frame b0 b" "\<lambda>b. int (length (cpu_free b))" take_host give_host
  for M :: "nat multiset" and b0 :: block_manager
proof unfold_locales
  fix b K assume inv: "bm_inv b M K \<and> host_frame b0 b" and "0 < int (length (cpu_free b))"
  then obtain c rest where c: "cpu_free b = c # rest" by (cases "cpu_free b") auto
  have all: "add_mset c (mset rest + K) = mset [0..<num_cpu_blocks b]"
    using inv c by (simp add: bm_inv_def host_ok_def)
  have "count (mset [0..<num_cpu_blocks b]) c \<le> 1"
    by (simp add: count_mset_set')
  then have "c \<notin># K"
    unfolding all [symmetric] by (auto simp: not_in_iff)
  moreover have "bm_inv (b\<lparr>cpu_free := rest\<rparr>) M (add_mset c K)"
    using inv all by (simp only: bm_inv_cpu_update) (simp add: bm_inv_def)
  ultimately show "\<exists>b' p. take_host b = Inr (b', p) \<and> p \<notin># K \<and>
      (bm_inv b' M (add_mset p K) \<and> host_frame b0 b') \<and>
      int (length (cpu_free b')) = int (length (cpu_free b)) - 1"
    using inv c by (auto simp: take_host_def)
next
  fix b p K assume "bm_inv b M (add_mset p K) \<and> host_frame b0 b"
  then show "\<exists>b'. give_host b p = Inr b' \<and> bm_inv b' M K \<and> host_frame b0 b'"
    by (simp add: give_host_def bm_inv_cpu_update) (simp add: bm_inv_def host_ok_def)
next
  fix b p K b' assume inv: "bm_inv b M (add_mset p K) \<and> host_frame b0 b" and "give_host b p = Inr b'"
  moreover have "p \<notin># K"
  proof -
    have all: "mset (cpu_free b) + add_mset p K = mset [0..<num_cpu_blocks b]"
      using inv by (simp add: bm_inv_def host_ok_def)
    have "count (mset [0..<num_cpu_blocks b]) p \<le> 1" by (simp add: count_mset_set')
    then show ?thesis unfolding all [symmetric] by (auto simp: not_in_iff)
  qed
  ultimately show "int (length (cpu_free b')) = int (length (cpu_free b)) + (if p \<in># K then 0 else 1)"
    by (auto simp: give_host_def)
qed simp

end
