(* ===== verification/Block_Manager_Ops.thy ===== *)
theory Block_Manager_Ops
  imports Block_Manager_Inv
begin

text \<open>
  What each method of \<open>BlockManager\<close> does under the accounting invariant: the methods the
  scheduler guards with \<open>can_allocate\<close>, \<open>can_append\<close>, \<open>can_swap_in\<close> and \<open>can_swap_out\<close> never
  raise, and each moves exactly the pages it names between the pools.
\<close>

lemma bm_inv_static_cong:
  "bm_inv b M K \<Longrightarrow> block_size b' = block_size b \<Longrightarrow> num_blocks b' = num_blocks b \<Longrightarrow>
   ref_counts b' = ref_counts b \<Longrightarrow> block_hash b' = block_hash b \<Longrightarrow> free_blocks b' = free_blocks b \<Longrightarrow>
   evictable b' = evictable b \<Longrightarrow> hash_to_block b' = hash_to_block b \<Longrightarrow> cpu_free b' = cpu_free b \<Longrightarrow>
   num_cpu_blocks b' = num_cpu_blocks b \<Longrightarrow> enable_prefix_caching b' = enable_prefix_caching b \<Longrightarrow>
   bm_inv b' M K"
  by (simp add: bm_inv_def refs_ok_def pools_ok_def cache_ok_def host_ok_def)

section \<open>Growing a table\<close>

lemma grow_ok:
  assumes inv: "bm_inv b M K" and fits: "blocks_needed b s n \<le> num_free_blocks b"
  shows "\<exists>b' blks. grow b s n = Inr (b', s\<lparr>block_table := block_table s @ blks\<rparr>) \<and>
           length blks = nat (blocks_needed b s n) \<and> distinct blks \<and> set blks \<inter> set_mset M = {} \<and>
           bm_inv b' (M + mset blks) K \<and> gpu_frame b b' \<and>
           num_free_blocks b' = num_free_blocks b - int (length blks)"
proof -
  have "int (nat (blocks_needed b s n)) \<le> num_free_blocks b"
    using fits by (simp add: num_free_blocks_def)
  then obtain b' blks where "draw take_free_block (nat (blocks_needed b s n)) b = Inr (b', blks)"
      "length blks = nat (blocks_needed b s n)" "distinct blks" "set blks \<inter> set_mset M = {}"
      "bm_inv b' (M + mset blks) K \<and> gpu_frame b b'"
      "num_free_blocks b' = num_free_blocks b - int (nat (blocks_needed b s n))"
    using gpu.draw_pages [of b M K b "nat (blocks_needed b s n)"] inv by auto
  then show ?thesis
    by (intro exI [of _ b'] exI [of _ blks]) (simp add: grow_def)
qed

lemma append_slots_ok:
  assumes "bm_inv b M K" and "can_append b s n"
  shows "\<exists>b' blks. append_slots b s n = Inr (b', s\<lparr>block_table := block_table s @ blks\<rparr>) \<and>
           length blks = nat (blocks_needed b s n) \<and> distinct blks \<and> set blks \<inter> set_mset M = {} \<and>
           bm_inv b' (M + mset blks) K \<and> gpu_frame b b' \<and>
           num_free_blocks b' = num_free_blocks b - int (length blks)"
  using grow_ok assms unfolding append_slots_def can_append_def by blast

section \<open>Freeing a table\<close>

lemma free_seq_ok:
  assumes inv: "bm_inv b (M + mset (block_table s)) K"
  shows "\<exists>b'. free_seq b s = Inr (b', s\<lparr>block_table := [], num_registered_blocks := 0\<rparr>) \<and>
           bm_inv b' M K \<and> gpu_frame b b' \<and>
           num_free_blocks b' = num_free_blocks b + int (card (set (block_table s) - set_mset M))"
proof -
  have "bm_inv b (M + mset (rev (block_table s))) K \<and> gpu_frame b b"
    using inv by simp
  from gpu.give_pages [OF this] obtain b' where
    b': "foldM release_block b (rev (block_table s)) = Inr b'" "bm_inv b' M K \<and> gpu_frame b b'"
    by blast
  moreover from this have "num_free_blocks b' = num_free_blocks b
      + int (card (set (rev (block_table s)) - set_mset M))"
    using gpu.give_pages_avail [of b M "rev (block_table s)" K b] inv by simp
  ultimately show ?thesis by (simp add: free_seq_def)
qed

section \<open>The prefix cache\<close>

lemma length_extend_loop:
  "length (extend_loop X bs toks k hs) = max (length hs) (nat k)"
proof (induction X bs toks k hs rule: extend_loop.induct)
  case (1 X bs toks k hs)
  then show ?case by (subst extend_loop.simps) auto
qed

lemma extend_loop_prefix: "take (length hs) (extend_loop X bs toks k hs) = hs"
proof (induction X bs toks k hs rule: extend_loop.induct)
  case (1 X bs toks k hs)
  show ?case
  proof (cases "int (length hs) < k")
    case True
    let ?hs = "hs @ [block_digest X bs toks hs]"
    have "take (length hs) (take (length ?hs) (extend_loop X bs toks k ?hs)) = take (length hs) ?hs"
      using 1 True by simp
    with True show ?thesis
      by (subst extend_loop.simps) (simp add: min_def)
  next
    case False
    then show ?thesis by (subst extend_loop.simps) simp
  qed
qed

lemma extend_hashes_frame:
  "extend_hashes X b s k = s\<lparr>block_hashes := block_hashes (extend_hashes X b s k)\<rparr>"
  by (simp add: extend_hashes_def)

lemma cached_prefix_frame:
  "fst (cached_prefix X b s) = s\<lparr>block_hashes := block_hashes (fst (cached_prefix X b s))\<rparr>"
  by (simp add: cached_prefix_def Let_def extend_hashes_def)

lemma length_cached_hits: "length (cached_hits d hs) \<le> length hs"
  by (induction hs) (auto split: option.splits)

lemma set_cached_hits: "blk \<in> set (cached_hits d hs) \<Longrightarrow> \<exists>h. map_of d h = Some blk"
  by (induction hs) (auto split: option.splits)

text \<open>A hit is a block that still carries a hash; at least one token is left to compute.\<close>

lemma cached_prefix_hits:
  assumes "bm_inv b M K" and "blk \<in> set (snd (cached_prefix X b s))"
  shows "blk < num_blocks b \<and> block_hash b ! blk \<noteq> None"
proof -
  from assms(2) obtain h where "map_of (hash_to_block b) h = Some blk"
    using set_cached_hits by (fastforce simp: cached_prefix_def Let_def split: if_splits)
  then show ?thesis
    using assms(1) cache_ok_lookup by (fastforce simp: bm_inv_def)
qed

lemma cached_prefix_leaves_token:
  assumes "0 < block_size b" and "token_ids s \<noteq> []"
  shows "int (length (snd (cached_prefix X b s))) * int (block_size b) < num_tokens s"
proof (cases "enable_prefix_caching b")
  case True
  let ?m = "(num_tokens s - 1) div int (block_size b)"
  let ?hits = "snd (cached_prefix X b s)"
  have pos: "0 < num_tokens s" using assms(2) by (simp add: num_tokens_def)
  then have m: "0 \<le> ?m" using assms(1) by (simp add: pos_imp_zdiv_nonneg_iff)
  have "length ?hits \<le> length (py_prefix (block_hashes (extend_hashes X b s ?m)) ?m)"
    using True length_cached_hits by (simp add: cached_prefix_def Let_def)
  also have "\<dots> \<le> nat ?m" using m by (simp add: py_prefix_nonneg)
  finally have "int (length ?hits) \<le> ?m" using m by simp
  then have "int (length ?hits) * int (block_size b) \<le> ?m * int (block_size b)"
    by (rule mult_right_mono) simp
  also have "\<dots> \<le> num_tokens s - 1"
    using assms(1) by (metis div_mod_decomp_int le_add_same_cancel1 of_nat_0_less_iff pos_mod_sign)
  finally show ?thesis by simp
next
  case False
  then show ?thesis using assms(2) by (simp add: cached_prefix_def num_tokens_def)
qed

lemma cache_full_blocks_ok:
  assumes inv: "bm_inv b M K" and held: "set (block_table s) \<subseteq> set_mset M"
    and full: "num_computed_tokens s div int (block_size b) \<le> int (length (block_table s))"
  shows "\<exists>b' s'. cache_full_blocks X b s = Inr (b', s') \<and> bm_inv b' M K \<and> gpu_frame b b' \<and>
           s' = s\<lparr>block_hashes := block_hashes s', num_registered_blocks := num_registered_blocks s'\<rparr>"
proof -
  let ?full = "num_computed_tokens s div int (block_size b)"
  let ?s1 = "extend_hashes X b s ?full"
  let ?f = "\<lambda>b' i. rbind (list_get (block_table ?s1) i) (\<lambda>blk.
              rbind (list_get (block_hashes ?s1) i) (\<lambda>h. publish b' blk h))"
  have loop: "\<exists>b'. foldM ?f c is = Inr b' \<and> bm_inv b' M K \<and> gpu_frame b b'"
    if "bm_inv c M K" "gpu_frame b c" "\<forall>i \<in> set is. int i < ?full" "enable_prefix_caching b" for c "is"
    using that
  proof (induction "is" arbitrary: c)
    case Nil
    then show ?case by simp
  next
    case (Cons i "is")
    then have i: "i < length (block_table s)" "i < length (block_hashes ?s1)"
      using full by (auto simp: extend_hashes_def length_extend_loop)
    have "enable_prefix_caching c" using Cons.prems by (simp add: gpu_frame_def bm_static_def)
    then obtain c' where "publish c (block_table s ! i) (block_hashes ?s1 ! i) = Inr c'"
        "bm_inv c' M K" "gpu_frame c c'"
      using publish_ok [OF Cons.prems(1), of "block_table s ! i"] held i nth_mem by blast
    moreover from this have "gpu_frame b c'" using Cons.prems(2) gpu_frame_trans by blast
    ultimately show ?case
      using Cons.IH [of c'] Cons.prems i by (simp add: extend_hashes_def)
  qed
  show ?thesis
  proof (cases "\<not> enable_prefix_caching b \<or> ?full \<le> int (num_registered_blocks s)")
    case True
    then have "cache_full_blocks X b s = Inr (b, s)" by (auto simp: cache_full_blocks_def)
    with inv show ?thesis by simp
  next
    case False
    have "\<forall>i \<in> set [num_registered_blocks ?s1..<nat ?full]. int i < ?full"
      by (auto simp: zless_nat_eq_int_zless)
    with False obtain b' where "foldM ?f b [num_registered_blocks ?s1..<nat ?full] = Inr b'"
        "bm_inv b' M K" "gpu_frame b b'"
      using loop [OF inv gpu_frame_refl] by blast
    moreover from this False have "cache_full_blocks X b s
        = Inr (b', ?s1\<lparr>num_registered_blocks := nat ?full\<rparr>)"
      by (simp add: cache_full_blocks_def Let_def)
    ultimately show ?thesis by (simp add: extend_hashes_def)
  qed
qed

section \<open>Admission\<close>

lemma can_allocate_eq:
  assumes inv: "bm_inv b M K" and "\<forall>blk \<in> set cached. blk < num_blocks b"
  shows "can_allocate b s n cached wm =
    Inr (blocks_for b (int (length cached) * int (block_size b) + n) - int (length cached)
         \<le> num_free_blocks b - int (length (filter (\<lambda>blk. blk \<notin># M) cached))
             - (if wm then watermark_blocks b else 0))"
proof -
  have "foldM (\<lambda>k blk. rbind (list_get (ref_counts b) blk) (\<lambda>c. Inr (if c = 0 then k + 1 else k))) k cached
      = Inr (k + int (length (filter (\<lambda>blk. blk \<notin># M) cached)))" for k :: int
    using assms(2)
  proof (induction cached arbitrary: k)
    case (Cons blk cached)
    then have "list_get (ref_counts b) blk = Inr (int (count M blk))"
      using bm_invD(5,11) [OF inv] by simp
    with Cons show ?case by (simp add: not_in_iff)
  qed simp
  then show ?thesis by (simp add: can_allocate_def Let_def)
qed

lemma pin_all_ok:
  assumes "bm_inv b M K" and "\<forall>blk \<in> set cached. blk < num_blocks b \<and> block_hash b ! blk \<noteq> None"
  shows "\<exists>b'. foldM pin b cached = Inr b' \<and> bm_inv b' (M + mset cached) K \<and> gpu_frame b b'"
  using assms
proof (induction cached arbitrary: b M)
  case Nil
  then show ?case by simp
next
  case (Cons blk cached)
  then obtain b1 where b1: "pin b blk = Inr b1" "bm_inv b1 (add_mset blk M) K" "gpu_frame b b1"
      "block_hash b1 = block_hash b"
    using pin_ok [of b M K blk] by auto
  with Cons.prems(2) have "\<forall>blk \<in> set cached. blk < num_blocks b1 \<and> block_hash b1 ! blk \<noteq> None"
    by (simp add: gpu_frame_def bm_static_def)
  with Cons.IH [OF b1(2)] obtain b2 where "foldM pin b1 cached = Inr b2"
      "bm_inv b2 (add_mset blk M + mset cached) K" "gpu_frame b1 b2"
    by blast
  with b1 show ?case using gpu_frame_trans by auto
qed

lemma card_new_pins: "card (set xs - A) \<le> length (filter (\<lambda>x. x \<notin> A) xs)"
proof -
  have "set xs - A = set (filter (\<lambda>x. x \<notin> A) xs)" by auto
  then show ?thesis by (simp only: card_length)
qed

lemma allocate_ok:
  assumes inv: "bm_inv b M K" and empty: "block_table s = []"
    and hits: "\<forall>blk \<in> set cached. blk < num_blocks b \<and> block_hash b ! blk \<noteq> None"
    and can: "can_allocate b s n cached wm = Inr True" and wm: "wm \<Longrightarrow> 0 \<le> watermark_blocks b"
  shows "\<exists>b' blks. allocate b s n cached = Inr (b', s\<lparr>block_table := cached @ blks,
             num_computed_tokens := int (length cached) * int (block_size b),
             num_cached_tokens := int (length cached) * int (block_size b),
             num_registered_blocks := length cached\<rparr>) \<and>
           length blks = nat (blocks_for b (int (length cached) * int (block_size b) + n) - int (length cached)) \<and>
           distinct blks \<and> set blks \<inter> (set_mset M \<union> set cached) = {} \<and>
           bm_inv b' (M + mset (cached @ blks)) K \<and> gpu_frame b b'"
proof -
  let ?c = "int (length cached) * int (block_size b)"
  obtain b1 where b1: "foldM pin b cached = Inr b1" "bm_inv b1 (M + mset cached) K" "gpu_frame b b1"
    using pin_all_ok [OF inv hits] by blast
  define s1 where "s1 = s\<lparr>block_table := cached, num_computed_tokens := ?c,
      num_cached_tokens := ?c, num_registered_blocks := length cached\<rparr>"
  define b2 where "b2 = (if enable_prefix_caching b1
      then b1\<lparr>prefix_query_tokens := prefix_query_tokens b1 + num_tokens s1,
              prefix_hit_tokens := prefix_hit_tokens b1 + num_computed_tokens s1\<rparr> else b1)"
  have b2: "bm_inv b2 (M + mset cached) K" "gpu_frame b b2"
    using b1 by (auto simp: b2_def gpu_frame_def bm_static_def intro: bm_inv_static_cong)
  have needed: "blocks_needed b2 s1 n = blocks_for b (?c + n) - int (length cached)"
    using b2(2) by (simp add: blocks_needed_def s1_def gpu_frame_def bm_static_blocks_for)
  have "blocks_for b (?c + n) - int (length cached)
      \<le> num_free_blocks b - int (length (filter (\<lambda>blk. blk \<notin># M) cached))
          - (if wm then watermark_blocks b else 0)"
    using can hits by (subst (asm) can_allocate_eq [OF inv]) auto
  also have "\<dots> \<le> num_free_blocks b - int (length (filter (\<lambda>blk. blk \<notin># M) cached))"
    using wm by simp
  also have "\<dots> \<le> num_free_blocks b - int (card (set cached - set_mset M))"
    using card_new_pins [of cached "set_mset M"] by simp
  also have "\<dots> = num_free_blocks b2"
  proof -
    have "set_mset (M + mset cached) = set_mset M \<union> (set cached - set_mset M)" by auto
    then have "card (set_mset (M + mset cached)) = card (set_mset M) + card (set cached - set_mset M)"
      by (simp only:) (rule card_Un_disjoint; auto)
    then show ?thesis
      using bm_inv_num_free [OF inv] bm_inv_num_free [OF b2(1)] b2(2)
      by (simp add: gpu_frame_def bm_static_def)
  qed
  finally have "blocks_needed b2 s1 n \<le> num_free_blocks b2" using needed by simp
  from grow_ok [OF b2(1) this] obtain b' blks where
    g: "grow b2 s1 n = Inr (b', s1\<lparr>block_table := block_table s1 @ blks\<rparr>)"
      "length blks = nat (blocks_needed b2 s1 n)" "distinct blks" "set blks \<inter> set_mset (M + mset cached) = {}"
      "bm_inv b' (M + mset cached + mset blks) K" "gpu_frame b2 b'" by blast
  moreover have "block_size b1 = block_size b" using b1(3) by (simp add: gpu_frame_def bm_static_def)
  then have "allocate b s n cached = grow b2 s1 n"
    using empty b1(1) by (simp add: allocate_def Let_def s1_def b2_def py_assert_def)
  ultimately show ?thesis
    using needed gpu_frame_trans [OF b2(2)] 
    by (intro exI [of _ b'] exI [of _ blks]) (auto simp: s1_def add.assoc)
qed

section \<open>Swapping\<close>

lemma swap_out_loop:
  "draw take_host (length blks) b = Inr (b', cs) \<Longrightarrow>
   foldM swap_out_one (b, s, pairs) blks
     = Inr (b', s\<lparr>cpu_block_table := cpu_block_table s @ cs\<rparr>, pairs @ zip blks cs)"
proof (induction blks arbitrary: b s pairs cs)
  case Nil
  then show ?case by simp
next
  case (Cons blk blks)
  then obtain b1 c cs' where "take_host b = Inr (b1, c)" "draw take_host (length blks) b1 = Inr (b', cs')"
      "cs = c # cs'"
    by (auto simp: result_simps)
  with Cons.IH show ?case by (simp add: swap_out_one_def)
qed

lemma swap_out_seq_ok:
  assumes inv: "bm_inv b (M + mset (block_table s)) K" and can: "can_swap_out b s"
  shows "\<exists>b' cs. swap_out_seq b s = Inr (b', s\<lparr>cpu_block_table := cpu_block_table s @ cs,
             block_table := [], num_registered_blocks := 0\<rparr>, zip (block_table s) cs) \<and>
           length cs = length (block_table s) \<and> distinct cs \<and> set cs \<inter> set_mset K = {} \<and>
           bm_inv b' M (K + mset cs) \<and> bm_static b b'"
proof -
  obtain b1 cs where b1: "draw take_host (length (block_table s)) b = Inr (b1, cs)"
      "length cs = length (block_table s)" "distinct cs" "set cs \<inter> set_mset K = {}"
      "bm_inv b1 (M + mset (block_table s)) (K + mset cs)" "host_frame b b1"
    using host.draw_pages [of b "M + mset (block_table s)" K b "length (block_table s)"] inv can
    by (auto simp: can_swap_out_def)
  let ?s1 = "s\<lparr>cpu_block_table := cpu_block_table s @ cs\<rparr>"
  obtain b2 where b2: "free_seq b1 ?s1 = Inr (b2, ?s1\<lparr>block_table := [], num_registered_blocks := 0\<rparr>)"
      "bm_inv b2 M (K + mset cs)" "gpu_frame b1 b2"
    using free_seq_ok [of b1 M ?s1 "K + mset cs"] b1(5) by auto
  have "bm_static b b1"
    using b1(6) unfolding host_frame_def bm_static_def by (metis block_manager.surjective
        block_manager.update_convs(10) block_manager.select_convs(1,2,3,9,11))
  with b1 b2 show ?thesis
    by (intro exI [of _ b2] exI [of _ cs])
      (auto simp: swap_out_seq_def swap_out_loop [OF b1(1)] gpu_frame_def intro: bm_static_trans)
qed

lemma swap_in_pages_ok:
  assumes "bm_inv b M (K + mset cs)" and "int (length cs) \<le> num_free_blocks b"
  shows "\<exists>b' blks. foldM swap_in_one (b, table, pairs) cs = Inr (b', table @ blks, pairs @ zip cs blks) \<and>
           length blks = length cs \<and> distinct blks \<and> set blks \<inter> set_mset M = {} \<and>
           bm_inv b' (M + mset blks) K \<and> bm_static b b' \<and>
           num_free_blocks b' = num_free_blocks b - int (length cs)"
  using assms
proof (induction cs arbitrary: b M table pairs)
  case Nil
  then show ?case by simp
next
  case (Cons c cs)
  then obtain b1 blk where b1: "take_free_block b = Inr (b1, blk)" "blk \<notin># M"
      "bm_inv b1 (add_mset blk M) (add_mset c (K + mset cs))" "gpu_frame b b1"
    using take_free_block_ok [of b M "K + mset (c # cs)"] by auto
  have free1: "num_free_blocks b1 = num_free_blocks b - 1"
    using take_free_block_avail [OF Cons.prems(1)] b1 by (simp add: gpu_frame_def)
  obtain b2 where b2: "give_host b1 c = Inr b2" "bm_inv b2 (add_mset blk M) (K + mset cs)" "host_frame b1 b2"
    using host.give_page [of b1 "add_mset blk M" c "K + mset cs" b1] b1(3) by auto
  have st: "bm_static b b2" "num_free_blocks b2 = num_free_blocks b1"
    using b2(1) b1(4) by (auto simp: give_host_def gpu_frame_def bm_static_def num_free_blocks_def)
  with Cons.IH [OF b2(2), of "table @ [blk]" "pairs @ [(c, blk)]"] Cons.prems(2) free1
  obtain b' blks where "foldM swap_in_one (b2, table @ [blk], pairs @ [(c, blk)]) cs
        = Inr (b', (table @ [blk]) @ blks, (pairs @ [(c, blk)]) @ zip cs blks)"
      "length blks = length cs" "distinct blks" "set blks \<inter> set_mset (add_mset blk M) = {}"
      "bm_inv b' (add_mset blk M + mset blks) K" "bm_static b2 b'"
      "num_free_blocks b' = num_free_blocks b2 - int (length cs)"
    by auto
  moreover have "swap_in_one (b, table, pairs) c = Inr (b2, table @ [blk], pairs @ [(c, blk)])"
    using b1(1) b2(1) by (simp add: swap_in_one_def)
  ultimately show ?case
    using st free1 b1(2)
    by (intro exI [of _ b'] exI [of _ "blk # blks"]) (auto intro: bm_static_trans)
qed

lemma swap_in_seq_ok:
  assumes inv: "bm_inv b M (K + mset (cpu_block_table s))" and empty: "block_table s = []"
    and fits: "int (length (cpu_block_table s)) \<le> num_free_blocks b"
  shows "\<exists>b' blks. swap_in_seq b s = Inr (b', s\<lparr>block_table := blks, cpu_block_table := [],
             num_registered_blocks := 0\<rparr>, zip (cpu_block_table s) blks) \<and>
           length blks = length (cpu_block_table s) \<and> distinct blks \<and> set blks \<inter> set_mset M = {} \<and>
           bm_inv b' (M + mset blks) K \<and> bm_static b b' \<and>
           num_free_blocks b' = num_free_blocks b - int (length blks)"
proof -
  obtain b' blks where "foldM swap_in_one (b, [], []) (cpu_block_table s)
        = Inr (b', blks, zip (cpu_block_table s) blks)"
      "length blks = length (cpu_block_table s)" "distinct blks" "set blks \<inter> set_mset M = {}"
      "bm_inv b' (M + mset blks) K" "bm_static b b'"
      "num_free_blocks b' = num_free_blocks b - int (length (cpu_block_table s))"
    using swap_in_pages_ok [OF inv fits, of "[]" "[]"] by auto
  then show ?thesis
    using empty by (intro exI [of _ b'] exI [of _ blks]) (simp add: swap_in_seq_def py_assert_def)
qed

lemma free_cpu_ok:
  assumes "bm_inv b M (K + mset (cpu_block_table s))"
  shows "bm_inv (fst (free_cpu b s)) M K" and "bm_static b (fst (free_cpu b s))"
    and "snd (free_cpu b s) = s\<lparr>cpu_block_table := []\<rparr>"
  using assms unfolding free_cpu_def
  by (simp_all only: fst_conv snd_conv bm_inv_cpu_update)
    (simp_all add: bm_inv_def host_ok_def bm_static_def ac_simps)

end
