(* ===== verification/Prefix_Cache.thy ===== *)
theory Prefix_Cache
  imports Block_Manager_Ops
begin

text \<open>
  Soundness of the prefix cache. \<open>block_chain\<close> is the reference definition of the digests of a
  token list (each block hashed under its parent's digest); the incremental \<open>_extend_hashes\<close>
  computes it. \<open>c\<close> tells, for every GPU block, the token prefix for which its K/V were computed.
  Without a SHA-256 collision among the inputs hashed, a hit is a block whose K/V were computed
  for exactly the prefix of the request that asks for it.
\<close>

section \<open>The digest chain\<close>

primrec block_chain :: "externals \<Rightarrow> nat \<Rightarrow> int list \<Rightarrow> nat \<Rightarrow> bytes list" where
  "block_chain X bs toks 0 = []"
| "block_chain X bs toks (Suc n) =
     block_chain X bs toks n @ [block_digest X bs toks (block_chain X bs toks n)]"

lemma length_block_chain [simp]: "length (block_chain X bs toks n) = n"
  by (induction n) simp_all

lemma extend_loop_chain:
  "extend_loop X bs toks k (block_chain X bs toks n) = block_chain X bs toks (max n (nat k))"
proof (induction "nat k - n" arbitrary: n)
  case 0
  then have "\<not> int n < k" and "max n (nat k) = n" by linarith+
  then show ?case by (subst extend_loop.simps) simp
next
  case (Suc m)
  then have "int n < k" by linarith
  then have "extend_loop X bs toks k (block_chain X bs toks n)
      = extend_loop X bs toks k (block_chain X bs toks (Suc n))"
    by (subst extend_loop.simps) simp
  also have "\<dots> = block_chain X bs toks (max (Suc n) (nat k))"
    using Suc.hyps(2) by (intro Suc.hyps(1)) simp
  also have "max (Suc n) (nat k) = max n (nat k)" using Suc.hyps(2) by linarith
  finally show ?case .
qed

lemma take_block_chain: "take m (block_chain X bs toks n) = block_chain X bs toks (min m n)"
  by (induction n) (auto simp: min_def le_Suc_eq)

lemma nth_block_chain:
  assumes "i < n"
  shows "block_chain X bs toks n ! i = block_digest X bs toks (block_chain X bs toks i)"
proof -
  have "block_chain X bs toks n ! i = take (Suc i) (block_chain X bs toks n) ! i" by simp
  also have "\<dots> = block_chain X bs toks (Suc i) ! i" using assms by (simp add: take_block_chain min_def)
  finally show ?thesis by (simp add: nth_append)
qed

lemma take_drop_cong:
  "take (i * n + n) xs = take (i * n + n) ys \<Longrightarrow> take n (drop (i * n) xs) = take n (drop (i * n) ys)"
  by (metis add.commute take_drop)

lemma block_chain_cong:
  "take (n * bs) toks = take (n * bs) toks' \<Longrightarrow> block_chain X bs toks n = block_chain X bs toks' n"
proof (induction n)
  case (Suc n)
  have eq: "take (n * bs + bs) toks = take (n * bs + bs) toks'"
    using Suc.prems by (simp add: add.commute)
  then have "take (n * bs) toks = take (n * bs) toks'"
    by (metis le_add1 min.absorb1 take_take)
  with Suc.IH have "block_chain X bs toks n = block_chain X bs toks' n" .
  with take_drop_cong [OF eq] show ?case by (simp add: block_digest_def Let_def)
qed simp

section \<open>Collision freedom\<close>

text \<open>What is hashed for the block after \<open>i\<close> full blocks.\<close>

definition digest_input :: "externals \<Rightarrow> nat \<Rightarrow> int list \<Rightarrow> nat \<Rightarrow> bytes" where
  "digest_input X bs toks i =
     (if i = 0 then [] else last (block_chain X bs toks i)) @ uint32_bytes X (take bs (drop (i * bs) toks))"

lemma block_digest_input:
  "block_digest X bs toks (block_chain X bs toks i) = sha256 X (digest_input X bs toks i)"
proof -
  have "block_chain X bs toks i \<noteq> [] \<longleftrightarrow> i \<noteq> 0" by (cases i) simp_all
  then show ?thesis by (simp add: block_digest_def digest_input_def Let_def)
qed

text \<open>
  The documented formats of the two encoders, and no collision among the inputs hashed for the
  token lists \<open>T\<close>.
\<close>

definition encoders_ok :: "externals \<Rightarrow> int list set \<Rightarrow> bool" where
  "encoders_ok X T \<longleftrightarrow>
     (\<forall>m. length (sha256 X m) = 32) \<and> (\<forall>ts. length (uint32_bytes X ts) = 4 * length ts) \<and>
     inj_on (uint32_bytes X) {take n (drop m toks) | n m toks. toks \<in> T}"

definition collision_free :: "externals \<Rightarrow> nat \<Rightarrow> int list set \<Rightarrow> bool" where
  "collision_free X bs T \<longleftrightarrow> encoders_ok X T \<and>
     inj_on (sha256 X) {digest_input X bs toks i | toks i. toks \<in> T \<and> Suc i * bs \<le> length toks}"

lemma block_digest_inj:
  assumes cf: "collision_free X bs T" and "toks \<in> T" "toks' \<in> T"
    and "Suc i * bs \<le> length toks" "Suc j * bs \<le> length toks'"
    and "block_digest X bs toks (block_chain X bs toks i) = block_digest X bs toks' (block_chain X bs toks' j)"
  shows "i = j \<and> take (Suc i * bs) toks = take (Suc i * bs) toks'"
  using assms(4-)
proof (induction i arbitrary: j)
  have sha: "length (sha256 X m) = 32" and enc: "length (uint32_bytes X ts) = 4 * length ts" for m ts
    using cf by (simp_all add: collision_free_def encoders_ok_def)
  have encI: "take n (drop m toks) = take n' (drop m' toks')"
    if "uint32_bytes X (take n (drop m toks)) = uint32_bytes X (take n' (drop m' toks'))" for n m n' m'
    using cf assms(2,3) that unfolding collision_free_def encoders_ok_def inj_on_def by blast
  have input: "digest_input X bs toks i = digest_input X bs toks' j"
    if "Suc i * bs \<le> length toks" "Suc j * bs \<le> length toks'"
      "block_digest X bs toks (block_chain X bs toks i) = block_digest X bs toks' (block_chain X bs toks' j)"
    for i j
    using cf assms(2,3) that unfolding collision_free_def inj_on_def block_digest_input by blast
  have last: "last (block_chain X bs ts (Suc i)) = sha256 X (digest_input X bs ts i)" for ts i
    by (simp add: block_digest_input)
  have len: "length (digest_input X bs ts i) = (if i = 0 then 0 else 32) + 4 * bs"
    if "Suc i * bs \<le> length ts" for ts i
  proof -
    have "length (take bs (drop (i * bs) ts)) = bs" using that by simp
    then show ?thesis by (cases i) (simp_all add: digest_input_def enc last sha del: block_chain.simps)
  qed
  {
    case 0
    note in0 = input [OF 0]
    from len [OF 0(1)] len [OF 0(2)] in0 have "j = 0" by (simp split: if_splits)
    with in0 encI [of bs 0 bs 0] show ?case by (simp add: digest_input_def)
  next
    case (Suc i)
    note inS = input [OF Suc.prems]
    from len [OF Suc.prems(1)] len [OF Suc.prems(2)] inS obtain j' where j: "j = Suc j'"
      by (cases j) auto
    from inS have parts: "sha256 X (digest_input X bs toks i) = sha256 X (digest_input X bs toks' j')"
        "uint32_bytes X (take bs (drop (Suc i * bs) toks)) = uint32_bytes X (take bs (drop (Suc j' * bs) toks'))"
      by (simp_all add: digest_input_def j block_digest_input sha)
    have IH: "i = j' \<and> take (Suc i * bs) toks = take (Suc i * bs) toks'"
      using Suc.prems(1,2) parts(1) j by (intro Suc.IH) (simp_all add: block_digest_input)
    with encI [OF parts(2)] have "take (Suc i * bs + bs) toks = take (Suc i * bs + bs) toks'"
      by (metis take_add)
    with IH j show ?case by (simp add: add.commute)
  }
qed

section \<open>Soundness of the table\<close>

text \<open>A sequence's digests are a prefix of its chain, over full blocks only.\<close>

definition hashes_ok :: "externals \<Rightarrow> nat \<Rightarrow> sequence \<Rightarrow> bool" where
  "hashes_ok X bs s \<longleftrightarrow>
     block_hashes s = block_chain X bs (token_ids s) (length (block_hashes s)) \<and>
     length (block_hashes s) * bs \<le> length (token_ids s)"

definition cache_sound ::
  "externals \<Rightarrow> int list set \<Rightarrow> (nat \<Rightarrow> int list) \<Rightarrow> block_manager \<Rightarrow> bool" where
  "cache_sound X T c b \<longleftrightarrow>
     (\<forall>h blk. map_of (hash_to_block b) h = Some blk \<longrightarrow>
        (\<exists>toks \<in> T. \<exists>i. Suc i * block_size b \<le> length toks \<and> c blk = take (Suc i * block_size b) toks \<and>
           h = block_digest X (block_size b) toks (block_chain X (block_size b) toks i)))"

lemma hashes_ok_append:
  assumes "hashes_ok X bs s"
  shows "hashes_ok X bs (seq_append_token s t)"
proof -
  have "block_chain X bs (token_ids s @ [t]) (length (block_hashes s))
      = block_chain X bs (token_ids s) (length (block_hashes s))"
    using assms by (intro block_chain_cong) (simp add: hashes_ok_def)
  with assms show ?thesis by (simp add: hashes_ok_def seq_append_token_def)
qed

lemma extend_hashes_ok:
  assumes "hashes_ok X (block_size b) s" and "nat k * block_size b \<le> length (token_ids s)"
  shows "hashes_ok X (block_size b) (extend_hashes X b s k)"
    and "block_hashes (extend_hashes X b s k)
           = block_chain X (block_size b) (token_ids s) (max (length (block_hashes s)) (nat k))"
proof -
  show eq: "block_hashes (extend_hashes X b s k)
      = block_chain X (block_size b) (token_ids s) (max (length (block_hashes s)) (nat k))"
    using assms(1) extend_loop_chain [of X "block_size b" "token_ids s" k "length (block_hashes s)"]
    by (simp add: extend_hashes_def hashes_ok_def)
  with assms show "hashes_ok X (block_size b) (extend_hashes X b s k)"
    by (simp add: hashes_ok_def max_def extend_hashes_def)
qed

lemma nth_cached_hits:
  "i < length (cached_hits d hs) \<Longrightarrow> map_of d (hs ! i) = Some (cached_hits d hs ! i)"
proof (induction hs arbitrary: i)
  case (Cons h hs)
  then show ?case by (cases i) (auto split: option.splits)
qed simp

lemma cached_hits_stop:
  "length (cached_hits d hs) < length hs \<Longrightarrow> map_of d (hs ! length (cached_hits d hs)) = None"
  by (induction hs) (auto split: option.splits)

text \<open>The blocks \<open>cached_prefix\<close> may return: all full blocks but the one with the last token.\<close>

definition reusable_blocks :: "block_manager \<Rightarrow> sequence \<Rightarrow> nat" where
  "reusable_blocks b s = (length (token_ids s) - 1) div block_size b"

lemma reusable_blocks_bound:
  "0 < block_size b \<Longrightarrow> reusable_blocks b s * block_size b \<le> length (token_ids s) - 1"
  unfolding reusable_blocks_def by (rule div_times_less_eq_dividend)

lemma cached_prefix_chain:
  assumes ok: "hashes_ok X (block_size b) s" and "token_ids s \<noteq> []" and "0 < block_size b"
    and "enable_prefix_caching b"
  shows "snd (cached_prefix X b s) = cached_hits (hash_to_block b)
           (block_chain X (block_size b) (token_ids s) (reusable_blocks b s))"
    and "hashes_ok X (block_size b) (fst (cached_prefix X b s))"
proof -
  have "num_tokens s - 1 = int (length (token_ids s) - 1)"
    using assms(2) by (cases "token_ids s") (simp_all add: num_tokens_def)
  then have m: "(num_tokens s - 1) div int (block_size b) = int (reusable_blocks b s)"
    by (simp add: reusable_blocks_def zdiv_int)
  have le: "nat (int (reusable_blocks b s)) * block_size b \<le> length (token_ids s)"
    using reusable_blocks_bound [OF assms(3), of s] by simp
  show "snd (cached_prefix X b s) = cached_hits (hash_to_block b)
      (block_chain X (block_size b) (token_ids s) (reusable_blocks b s))"
    using extend_hashes_ok(2) [OF ok le] assms(4)
    by (simp add: cached_prefix_def Let_def m py_prefix_nonneg take_block_chain)
  show "hashes_ok X (block_size b) (fst (cached_prefix X b s))"
    using extend_hashes_ok(1) [OF ok le] assms(4) by (simp add: cached_prefix_def Let_def m)
qed

lemma cached_prefix_content:
  assumes cf: "collision_free X (block_size b) T" and sound: "cache_sound X T c b"
    and s: "token_ids s \<in> T" "hashes_ok X (block_size b) s" "token_ids s \<noteq> []" "0 < block_size b"
    and i: "i < length (snd (cached_prefix X b s))"
  shows "c (snd (cached_prefix X b s) ! i) = take (Suc i * block_size b) (token_ids s)"
proof -
  have on: "enable_prefix_caching b" using i by (auto simp: cached_prefix_def split: if_splits)
  let ?bs = "block_size b" and ?m = "reusable_blocks b s"
  note hits = cached_prefix_chain(1) [OF s(2-4) on]
  have im: "i < ?m"
    using i length_cached_hits [of "hash_to_block b" "block_chain X ?bs (token_ids s) ?m"] hits by simp
  let ?d = "block_digest X ?bs (token_ids s) (block_chain X ?bs (token_ids s) i)"
  have "map_of (hash_to_block b) ?d = Some (snd (cached_prefix X b s) ! i)"
    using nth_cached_hits i hits nth_block_chain [OF im, of X ?bs "token_ids s"] by metis
  then obtain toks j where j: "toks \<in> T" "Suc j * ?bs \<le> length toks"
      "c (snd (cached_prefix X b s) ! i) = take (Suc j * ?bs) toks"
      "?d = block_digest X ?bs toks (block_chain X ?bs toks j)"
    using sound unfolding cache_sound_def by blast
  have "Suc i * ?bs \<le> ?m * ?bs" using im by (intro mult_right_mono) simp_all
  then have "Suc i * ?bs \<le> length (token_ids s)"
    using reusable_blocks_bound [OF s(4), of s] by linarith
  from block_digest_inj [OF cf s(1) j(1) this j(2,4)] j(3) show ?thesis by metis
qed

lemma publish_sound:
  assumes sound: "cache_sound X T c b" and p: "publish b blk (block_digest X (block_size b) toks
      (block_chain X (block_size b) toks i)) = Inr b'"
    and t: "toks \<in> T" "Suc i * block_size b \<le> length toks" "c blk = take (Suc i * block_size b) toks"
  shows "cache_sound X T c b' \<and> block_size b' = block_size b"
proof -
  let ?h = "block_digest X (block_size b) toks (block_chain X (block_size b) toks i)"
  from p consider "b' = b"
    | bh where "b' = b\<lparr>block_hash := bh, hash_to_block := AList.update ?h blk (hash_to_block b)\<rparr>"
    by (auto simp: publish_def result_simps split: if_splits)
  then show ?thesis
  proof cases
    case 1
    with sound show ?thesis by simp
  next
    case 2
    with sound t show ?thesis
      unfolding cache_sound_def by (auto simp: dict_lookup split: if_splits)
  qed
qed

lemma cache_full_blocks_sound:
  assumes sound: "cache_sound X T c b" and ok: "hashes_ok X (block_size b) s"
    and T: "token_ids s \<in> T" and le: "num_computed_tokens s \<le> num_tokens s"
    and c: "\<And>i. int i < num_computed_tokens s div int (block_size b) \<Longrightarrow>
      c (block_table s ! i) = take (Suc i * block_size b) (token_ids s)"
    and run: "cache_full_blocks X b s = Inr (b', s')"
  shows "cache_sound X T c b' \<and> hashes_ok X (block_size b) s'"
proof -
  let ?bs = "block_size b" and ?full = "num_computed_tokens s div int (block_size b)"
  let ?s1 = "extend_hashes X b s ?full"
  let ?f = "\<lambda>b' i. rbind (list_get (block_table ?s1) i) (\<lambda>blk.
              rbind (list_get (block_hashes ?s1) i) (\<lambda>h. publish b' blk h))"
  show ?thesis
  proof (cases "\<not> enable_prefix_caching b \<or> ?full \<le> int (num_registered_blocks s)")
    case True
    then have "cache_full_blocks X b s = Inr (b, s)" by (auto simp: cache_full_blocks_def)
    with run sound ok show ?thesis by simp
  next
    case False
    then have full: "0 < ?full" by linarith
    have fits: "Suc i * ?bs \<le> length (token_ids s)" if "int i < ?full" for i
    proof -
      have "int (Suc i * ?bs) \<le> ?full * int ?bs"
        unfolding of_nat_mult using that by (intro mult_right_mono) simp_all
      also have "\<dots> \<le> num_computed_tokens s"
        using div_mult_mod_eq [of "num_computed_tokens s" "int ?bs"] pos_mod_sign [of "int ?bs"] full
        by (cases "?bs = 0") (simp, smt (verit) of_nat_0_less_iff neq0_conv)
      finally show ?thesis using le unfolding num_tokens_def by linarith
    qed
    have le': "nat ?full * ?bs \<le> length (token_ids s)"
      using fits [of "nat ?full - 1"] full by (cases "nat ?full") auto
    note H = extend_hashes_ok [OF ok le']
    have loop: "cache_sound X T c b2" if "foldM ?f b1 is = Inr b2" "cache_sound X T c b1"
        "block_size b1 = ?bs" "\<forall>i \<in> set is. int i < ?full" for b1 b2 "is"
      using that
    proof (induction "is" arbitrary: b1)
      case (Cons i "is")
      from Cons.prems obtain blk h b3 where f: "list_get (block_table ?s1) i = Inr blk"
          "list_get (block_hashes ?s1) i = Inr h" "publish b1 blk h = Inr b3" "foldM ?f b3 is = Inr b2"
        by (auto simp: result_simps)
      have i: "int i < ?full" using Cons.prems(4) by simp
      from f(1) have "blk = block_table s ! i"
        by (auto simp: list_get_def extend_hashes_def split: if_splits)
      moreover from f(2) have "h = block_digest X ?bs (token_ids s) (block_chain X ?bs (token_ids s) i)"
        using i by (auto simp: list_get_def H(2) nth_block_chain split: if_splits)
      ultimately have "cache_sound X T c b3 \<and> block_size b3 = ?bs"
        using publish_sound [OF Cons.prems(2), of blk "token_ids s" i b3] f(3) T fits [OF i] c [OF i]
          Cons.prems(3) by simp
      with Cons.IH [of b3] f(4) Cons.prems(4) show ?case by simp
    qed simp
    from run False obtain b2 where b2: "foldM ?f b [num_registered_blocks ?s1..<nat ?full] = Inr b2"
        "b' = b2" "s' = ?s1\<lparr>num_registered_blocks := nat ?full\<rparr>"
      by (auto simp: cache_full_blocks_def Let_def result_simps)
    have "cache_sound X T c b2"
      by (rule loop [OF b2(1) sound]) (auto simp: zless_nat_eq_int_zless)
    with b2 H(1) show ?thesis by (simp add: hashes_ok_def)
  qed
qed

text \<open>Taking a page drops its table entry before its content changes.\<close>

lemma take_free_block_sound:
  assumes inv: "bm_inv b M K" and sound: "cache_sound X T c b" and t: "take_free_block b = Inr (b', blk)"
  shows "cache_sound X T (c(blk := p)) b'"
proof -
  note D = bm_invD [OF inv]
  have "map_of (hash_to_block b') h \<noteq> Some blk \<and>
      (\<forall>i. map_of (hash_to_block b') h = Some i \<longrightarrow> map_of (hash_to_block b) h = Some i)" for h
  proof (cases "free_blocks b")
    case (Cons x rest)
    with t D(9) [of blk] have "block_hash b ! blk = None" "hash_to_block b' = hash_to_block b"
      by (auto simp: take_free_block_def result_simps)
    with cache_ok_lookup [OF D(3)] show ?thesis by auto
  next
    case Nil
    with t obtain d where d: "block_hash b ! blk = Some d"
        "hash_to_block b' = AList.delete d (hash_to_block b)"
      by (auto simp: take_free_block_def result_simps list_get_def dict_del_def
          split: list.splits option.splits if_splits)
    have "map_of (hash_to_block b) h = Some blk \<Longrightarrow> h = d" for h
      using cache_ok_lookup [OF D(3)] d(1) by simp
    with d(2) show ?thesis by (auto simp: dict_lookup)
  qed
  moreover have "block_size b' = block_size b"
    using t by (auto simp: take_free_block_def result_simps split: list.splits option.splits)
  ultimately show ?thesis
    using sound unfolding cache_sound_def by (metis fun_upd_other)
qed

end
