(* ===== verification/Block_Manager_Check.thy ===== *)
theory Block_Manager_Check
  imports Block_Manager_Ops
begin

text \<open>
  \<open>BlockManager.check_invariants\<close>, the debug assertions over the pools, as an executable function
  in the order of the source; and the proof that the accounting invariant \<open>bm_inv\<close> makes each of
  them hold. A \<open>Counter\<close> is the list it counts.
\<close>

section \<open>The assertions\<close>

definition check_table :: "block_manager \<Rightarrow> sequence \<Rightarrow> unit result" where
  "check_table b s =
     rbind (py_assert (card (set (block_table s)) = length (block_table s)) ''maps a block twice'') (\<lambda>_.
       py_assert (int (length (block_table s)) = blocks_for b (num_computed_tokens s))
         ''blocks for computed tokens'')"

definition check_refs :: "block_manager \<Rightarrow> nat list \<Rightarrow> unit result" where
  "check_refs b counts =
     foldM (\<lambda>_ i. rbind (list_get (ref_counts b) i) (\<lambda>c.
              py_assert (c = int (count_list counts i)) ''refcount'')) () [0..<num_blocks b]"

definition check_pools :: "block_manager \<Rightarrow> nat list \<Rightarrow> unit result" where
  "check_pools b counts =
     rbind (py_assert (card (set (free_blocks b)) = length (free_blocks b))
              ''free list holds a block twice'') (\<lambda>_.
     rbind (py_assert (set (free_blocks b) \<inter> set (evictable b) = {} \<and>
                       set (free_blocks b) \<inter> set counts = {} \<and> set (evictable b) \<inter> set counts = {})
              ''a block is in two pools'') (\<lambda>_.
       py_assert (card (set (free_blocks b)) + card (set (evictable b)) + card (set counts)
                    = num_blocks b) ''leak''))"

definition check_hashes :: "block_manager \<Rightarrow> unit result" where
  "check_hashes b =
     rbind (foldM (\<lambda>_ i. rbind (list_get (block_hash b) i) (\<lambda>h.
              py_assert (h = None) ''free block still has a hash'')) () (free_blocks b)) (\<lambda>_.
     rbind (foldM (\<lambda>_ i. rbind (list_get (block_hash b) i) (\<lambda>h.
              py_assert (case h of None \<Rightarrow> False | Some d \<Rightarrow> map_of (hash_to_block b) d = Some i)
                ''evictable block is not cached'')) () (evictable b)) (\<lambda>_.
       foldM (\<lambda>_ (d, i). rbind (list_get (block_hash b) i) (\<lambda>h.
              py_assert (h = Some d) ''hash map and block disagree'')) () (hash_to_block b)))"

definition check_host :: "block_manager \<Rightarrow> nat list \<Rightarrow> unit result" where
  "check_host b held =
     rbind (py_assert (list_all (\<lambda>c. count_list held c = 1) held) ''a host block is held twice'') (\<lambda>_.
     rbind (py_assert (card (set (cpu_free b)) = length (cpu_free b))
              ''host free list holds a block twice'') (\<lambda>_.
     rbind (py_assert (set (cpu_free b) \<inter> set held = {}) ''a host block is both free and held'') (\<lambda>_.
       py_assert (card (set (cpu_free b)) + card (set held) = num_cpu_blocks b) ''host leak'')))"

definition bm_check :: "block_manager \<Rightarrow> sequence list \<Rightarrow> sequence list \<Rightarrow> unit result" where
  "bm_check b gpu_seqs cpu_seqs =
     (let counts = concat (map block_table gpu_seqs);
          held = concat (map cpu_block_table cpu_seqs)
      in rbind (foldM (\<lambda>_ s. check_table b s) () gpu_seqs) (\<lambda>_.
         rbind (check_refs b counts) (\<lambda>_.
         rbind (check_pools b counts) (\<lambda>_.
         rbind (check_hashes b) (\<lambda>_. check_host b held)))))"

section \<open>The invariant makes them hold\<close>

lemma foldM_unit_ok: "(\<And>x. x \<in> set xs \<Longrightarrow> f () x = Inr ()) \<Longrightarrow> foldM f () xs = Inr ()"
  by (induction xs) simp_all

lemma check_refs_ok: "bm_inv b (mset counts) K \<Longrightarrow> check_refs b counts = Inr ()"
  unfolding check_refs_def
  by (rule foldM_unit_ok) (simp add: bm_invD(5,11) count_mset)

lemma check_pools_ok:
  assumes "bm_inv b (mset counts) K"
  shows "check_pools b counts = Inr ()"
proof -
  note D = bm_invD [OF assms] and P = bm_inv_partition [OF assms]
  have "card (set (free_blocks b)) + card (set (evictable b)) + card (set counts)
      = card (set (free_blocks b) \<union> set (evictable b) \<union> set_mset (mset counts))"
    using P(2,3) by (subst card_Un_disjoint; simp add: card_Un_disjoint)
  moreover have "set (free_blocks b) \<inter> set counts = {}" "set (evictable b) \<inter> set counts = {}"
    using P(3) by auto
  ultimately show ?thesis
    using P(1,2) D(7) by (simp add: check_pools_def distinct_card)
qed

lemma check_hashes_ok:
  assumes inv: "bm_inv b M K"
  shows "check_hashes b = Inr ()"
proof -
  note D = bm_invD [OF inv]
  have 1: "foldM (\<lambda>_ i. rbind (list_get (block_hash b) i) (\<lambda>h.
      py_assert (h = None) ''free block still has a hash'')) () (free_blocks b) = Inr ()"
    by (rule foldM_unit_ok) (use D(6,9) in simp)
  have 2: "foldM (\<lambda>_ i. rbind (list_get (block_hash b) i) (\<lambda>h.
      py_assert (case h of None \<Rightarrow> False | Some d \<Rightarrow> map_of (hash_to_block b) d = Some i)
        ''evictable block is not cached'')) () (evictable b) = Inr ()"
    by (rule foldM_unit_ok) (use D(6,10) cache_ok_lookup [OF D(3)] in auto)
  have 3: "foldM (\<lambda>_ (d, i). rbind (list_get (block_hash b) i) (\<lambda>h.
      py_assert (h = Some d) ''hash map and block disagree'')) () (hash_to_block b) = Inr ()"
  proof (rule foldM_unit_ok)
    fix x assume x: "x \<in> set (hash_to_block b)"
    obtain d i where di: "x = (d, i)" by (cases x)
    have "dict_wf (hash_to_block b)" using D(3) by (simp add: cache_ok_def)
    with x di have "map_of (hash_to_block b) d = Some i" by (simp add: dict_wf_def)
    with cache_ok_lookup [OF D(3)] D(6) di
    show "(case x of (d, i) \<Rightarrow> rbind (list_get (block_hash b) i) (\<lambda>h.
        py_assert (h = Some d) ''hash map and block disagree'')) = Inr ()"
      by simp
  qed
  from 1 2 3 show ?thesis by (simp add: check_hashes_def)
qed

lemma check_host_ok:
  assumes "bm_inv b M (mset held)"
  shows "check_host b held = Inr ()"
proof -
  have all: "mset (cpu_free b @ held) = mset [0..<num_cpu_blocks b]"
    using assms by (simp add: bm_inv_def host_ok_def)
  then have d: "distinct (cpu_free b @ held)" and l: "length (cpu_free b @ held) = num_cpu_blocks b"
    by (metis distinct_upt mset_eq_imp_distinct_iff, metis diff_zero length_upt mset_eq_length)
  then have "\<forall>c \<in> set held. count_list held c = 1"
    by (metis count_mset distinct_append distinct_count_atmost_1)
  with d l show ?thesis
    by (auto simp: check_host_def list_all_iff distinct_card)
qed

lemma check_table_ok:
  "distinct (block_table s) \<Longrightarrow> int (length (block_table s)) = blocks_for b (num_computed_tokens s)
     \<Longrightarrow> check_table b s = Inr ()"
  by (simp add: check_table_def distinct_card)

lemma bm_check_ok:
  assumes "bm_inv b (mset (concat (map block_table gpu))) (mset (concat (map cpu_block_table cpu)))"
    and "\<And>s. s \<in> set gpu \<Longrightarrow> distinct (block_table s)"
    and "\<And>s. s \<in> set gpu \<Longrightarrow> int (length (block_table s)) = blocks_for b (num_computed_tokens s)"
  shows "bm_check b gpu cpu = Inr ()"
proof -
  have "foldM (\<lambda>_ s. check_table b s) () gpu = Inr ()"
    by (rule foldM_unit_ok) (use assms(2,3) check_table_ok in blast)
  with assms(1) show ?thesis
    by (simp add: bm_check_def check_refs_ok check_pools_ok check_hashes_ok check_host_ok)
qed

end
