(* ===== verification/Examples.thy ===== *)
theory Examples
  imports Block_Manager_Ops
begin

text \<open>
  Concrete inputs on which the properties are instantiated: code outside the repository replaced
  by small computable functions of the documented shape, and a few sequences and pools.
\<close>

definition ex_ext :: externals where
  "ex_ext = \<lparr>
     sha256 = (\<lambda>m. of_nat (length m) # replicate 31 0),
     uint32_bytes = (\<lambda>ts. concat (map (\<lambda>t. [word_of_int t, word_of_int (t div 256),
                       word_of_int (t div 65536), word_of_int (t div 16777216)]) ts)),
     decode = (\<lambda>ts. map nat ts), fl_round = (\<lambda>x. x)\<rparr>"

definition ex_params :: sampling_params where
  "ex_params = \<lparr>temperature = 0, top_p = 1, max_tokens = 2, stop = [], ignore_eos = False\<rparr>"

definition ex_seq :: sequence where
  "ex_seq = new_sequence 0 [7, 7, 7] ex_params 0 None"

text \<open>Four pages of two tokens, two host pages.\<close>

definition ex_bm :: block_manager where
  "ex_bm = init_block_manager ex_ext 4 2 True 2 0"

text \<open>The same pool after a three-token sequence took two pages, the first of them published.\<close>

definition ex_held :: sequence where
  "ex_held = ex_seq\<lparr>block_table := [0, 1], num_computed_tokens := 3, num_registered_blocks := 1\<rparr>"

definition ex_bm_held :: block_manager where
  "ex_bm_held = ex_bm\<lparr>free_blocks := [2, 3], ref_counts := [1, 1, 0, 0],
     block_hash := [Some [1], None, None, None], hash_to_block := [([1], 0)]\<rparr>"

lemmas ex_defs = ex_ext_def ex_params_def ex_seq_def ex_bm_def ex_held_def ex_bm_held_def
  new_sequence_def init_block_manager_def py_int_of_float_def

lemma ex_bm_inv: "bm_inv ex_bm {#} {#}"
  unfolding ex_bm_def by (rule bm_inv_init) simp

lemma less_4_cases: "(i < (4::nat)) = (i = 0 \<or> i = 1 \<or> i = 2 \<or> i = 3)"
  by auto

lemma ex_bm_held_inv: "bm_inv ex_bm_held (mset (block_table ex_held)) {#}"
  unfolding bm_inv_def refs_ok_def pools_ok_def cache_ok_def host_ok_def
  by (auto simp: ex_defs less_4_cases dict_wf_def upt_rec split: if_splits intro: gr0I)

end
