(* ===== verification/Block_Props.thy ===== *)
theory Block_Props
  imports Prefix_Cache Block_Manager_Check Examples
begin

text \<open>
  Properties of the page allocator: what \<open>allocate\<close>, \<open>free\<close>, swapping and the prefix cache
  promise to the scheduler.
\<close>

section \<open>Order of release\<close>

lemma release_block_lists:
  assumes inv: "bm_inv b (add_mset p M) K" and r: "release_block b p = Inr b'"
  shows "free_blocks b' = free_blocks b @ (if p \<notin># M \<and> block_hash b ! p = None then [p] else [])"
    and "evictable b' = evictable b @ (if p \<notin># M \<and> block_hash b ! p \<noteq> None then [p] else [])"
proof -
  note D = bm_invD [OF inv]
  have p: "p < num_blocks b" "ref_counts b ! p - 1 = int (count M p)"
    using bm_inv_range [OF inv] D(11) [of p] by simp_all
  have "p \<notin> set (evictable b)" using D(10) [of p] by simp
  moreover have "count M p = 0 \<longleftrightarrow> p \<notin># M" by (simp add: not_in_iff)
  ultimately show "free_blocks b' = free_blocks b @ (if p \<notin># M \<and> block_hash b ! p = None then [p] else [])"
    and "evictable b' = evictable b @ (if p \<notin># M \<and> block_hash b ! p \<noteq> None then [p] else [])"
    using r p D(5,6) by (auto simp: release_block_def Let_def split: if_splits)
qed

lemma release_all_lists:
  assumes "bm_inv b (M + mset ps) K" and "distinct ps" and "foldM release_block b ps = Inr b'"
  shows "free_blocks b' = free_blocks b @ filter (\<lambda>p. p \<notin># M \<and> block_hash b ! p = None) ps \<and>
         evictable b' = evictable b @ filter (\<lambda>p. p \<notin># M \<and> block_hash b ! p \<noteq> None) ps"
  using assms
proof (induction ps arbitrary: b)
  case (Cons p ps)
  then have inv: "bm_inv b (add_mset p (M + mset ps)) K" and p: "p \<notin># mset ps" by simp_all
  from release_block_ok [OF inv] obtain b1 where b1: "release_block b p = Inr b1"
      "bm_inv b1 (M + mset ps) K" "block_hash b1 = block_hash b" by blast
  with Cons.prems have "foldM release_block b1 ps = Inr b'" by simp
  with Cons.IH [OF b1(2)] Cons.prems(2) b1(3) release_block_lists [OF inv b1(1)] p show ?case by simp
qed simp

section \<open>Properties\<close>

text \<open>An admission that \<open>can_allocate\<close> accepts does not raise: the table becomes the cached
  blocks followed by fresh pages that no live sequence holds, exactly as many as the cached and new
  tokens need, and the accounting invariant holds with the new table counted.\<close>

lemma allocate_admitted:
  assumes "bm_inv b M K" and "block_table s = []" and "cached = snd (cached_prefix X b s)"
    and "can_allocate b s n cached wm = Inr True" and "0 \<le> watermark_blocks b"
  shows "\<exists>b' blks. allocate b s n cached = Inr (b', s\<lparr>block_table := cached @ blks,
             num_computed_tokens := int (length cached) * int (block_size b),
             num_cached_tokens := int (length cached) * int (block_size b),
             num_registered_blocks := length cached\<rparr>) \<and>
           length blks = nat (blocks_for b (int (length cached) * int (block_size b) + n) - int (length cached)) \<and>
           distinct blks \<and> set blks \<inter> (set_mset M \<union> set cached) = {} \<and>
           bm_inv b' (M + mset (cached @ blks)) K \<and> bm_static b b'"
  using allocate_ok [OF assms(1,2) _ assms(4)] cached_prefix_hits [OF assms(1)] assms(3,5) gpu_frame_static
  by blast

text \<open>\<open>free\<close> gives back exactly the pages no other table maps, the table's tail first, published
  ones at the recent end of the LRU list and the others at the end of the free list; so a sequence's
  tail is evicted before its prefix.\<close>

lemma free_tail_first:
  assumes "bm_inv b (M + mset (block_table s)) K" and "distinct (block_table s)"
  shows "\<exists>b'. free_seq b s = Inr (b', s\<lparr>block_table := [], num_registered_blocks := 0\<rparr>) \<and>
           bm_inv b' M K \<and>
           free_blocks b' = free_blocks b
             @ filter (\<lambda>p. p \<notin># M \<and> block_hash b ! p = None) (rev (block_table s)) \<and>
           evictable b' = evictable b
             @ filter (\<lambda>p. p \<notin># M \<and> block_hash b ! p \<noteq> None) (rev (block_table s)) \<and>
           num_free_blocks b' = num_free_blocks b + int (card (set (block_table s) - set_mset M))"
proof -
  obtain b' where b': "free_seq b s = Inr (b', s\<lparr>block_table := [], num_registered_blocks := 0\<rparr>)"
      "bm_inv b' M K" "num_free_blocks b' = num_free_blocks b + int (card (set (block_table s) - set_mset M))"
    using free_seq_ok [OF assms(1)] by blast
  moreover from this have "foldM release_block b (rev (block_table s)) = Inr b'"
    by (auto simp: free_seq_def result_simps)
  ultimately show ?thesis
    using release_all_lists [of b M "rev (block_table s)" K b'] assms by simp
qed

text \<open>C32: swapping out and back in: when the host pool has room, \<open>swap_out\<close> moves the whole table
  to host pages and leaves no GPU page behind; when as many GPU pages are free afterwards, \<open>swap_in\<close>
  restores a table of the same length, and page \<open>i\<close> of the old table is copied through the same host
  page to page \<open>i\<close> of the new one.\<close>

theorem swap_round_trip:
  assumes "bm_inv b (M + mset (block_table s)) K" and "can_swap_out b s" and "cpu_block_table s = []"
  shows "\<exists>b1 s1 out. swap_out_seq b s = Inr (b1, s1, out) \<and> block_table s1 = [] \<and>
     map fst out = block_table s \<and> map snd out = cpu_block_table s1 \<and> distinct (cpu_block_table s1) \<and>
     bm_inv b1 M (K + mset (cpu_block_table s1)) \<and>
     (int (length (block_table s)) \<le> num_free_blocks b1 \<longrightarrow>
       (\<exists>b2 s2 back. swap_in_seq b1 s1 = Inr (b2, s2, back) \<and>
          map fst back = map snd out \<and> map snd back = block_table s2 \<and>
          length (block_table s2) = length (block_table s) \<and> distinct (block_table s2) \<and>
          set (block_table s2) \<inter> set_mset M = {} \<and> cpu_block_table s2 = [] \<and>
          bm_inv b2 (M + mset (block_table s2)) K))"
proof -
  obtain b1 cs where 1: "swap_out_seq b s = Inr (b1, s\<lparr>cpu_block_table := cpu_block_table s @ cs,
        block_table := [], num_registered_blocks := 0\<rparr>, zip (block_table s) cs)"
      "length cs = length (block_table s)" "distinct cs" "bm_inv b1 M (K + mset cs)"
    using swap_out_seq_ok [OF assms(1,2)] by blast
  let ?s1 = "s\<lparr>cpu_block_table := cpu_block_table s @ cs, block_table := [], num_registered_blocks := 0\<rparr>"
  have "\<exists>b2 blks. swap_in_seq b1 ?s1 = Inr (b2, ?s1\<lparr>block_table := blks, cpu_block_table := [],
          num_registered_blocks := 0\<rparr>, zip cs blks) \<and> length blks = length cs \<and> distinct blks \<and>
        set blks \<inter> set_mset M = {} \<and> bm_inv b2 (M + mset blks) K"
    if "int (length (block_table s)) \<le> num_free_blocks b1"
    using swap_in_seq_ok [of b1 M K ?s1] 1(2,4) assms(3) that by auto
  with 1 assms(3) show ?thesis by auto
qed

theorem swap_round_trip_witness:
  "\<exists>b1 s1 out b2 s2 back. swap_out_seq ex_bm_held ex_held = Inr (b1, s1, out) \<and>
     map fst out = [0, 1] \<and> swap_in_seq b1 s1 = Inr (b2, s2, back) \<and>
     map fst back = map snd out \<and> length (block_table s2) = 2"
proof -
  have "bm_inv ex_bm_held ({#} + mset (block_table ex_held)) {#}" using ex_bm_held_inv by simp
  moreover have "can_swap_out ex_bm_held ex_held" "cpu_block_table ex_held = []"
    "length (block_table ex_held) = 2" "block_table ex_held = [0, 1]" "num_blocks ex_bm_held = 4"
    by (simp_all add: can_swap_out_def ex_defs upt_rec)
  moreover have "num_free_blocks b1 = 4"
    if "swap_out_seq ex_bm_held ex_held = Inr (b1, s1, out)" for b1 s1 out
    using that by (simp add: swap_out_seq_def swap_out_one_def take_host_def free_seq_def release_block_def
        ex_defs upt_rec num_free_blocks_def) (auto simp: num_free_blocks_def)
  ultimately show ?thesis
    using swap_round_trip [of ex_bm_held "{#}" ex_held "{#}"] by fastforce
qed

text \<open>C33: without a SHA-256 collision, every block a request gets from the prefix cache holds the
  K/V of that request's own token prefix, and the last token is never among the cached ones.\<close>

theorem prefix_hit_sound:
  assumes "collision_free X (block_size b) T" and "cache_sound X T c b" and "0 < block_size b"
    and "token_ids s \<in> T" and "hashes_ok X (block_size b) s" and "token_ids s \<noteq> []"
  shows "(\<forall>i < length (snd (cached_prefix X b s)).
            c (snd (cached_prefix X b s) ! i) = take (Suc i * block_size b) (token_ids s)) \<and>
         int (length (snd (cached_prefix X b s))) * int (block_size b) < num_tokens s"
  using cached_prefix_content [OF assms(1,2,4,5,6,3)] cached_prefix_leaves_token [OF assms(3,6)] by blast

text \<open>The hit is the longest cached prefix: it ends at the last reusable block, or the next block
  of the request's digest chain is not in the table.\<close>

lemma prefix_hit_longest:
  assumes "hashes_ok X (block_size b) s" and "token_ids s \<noteq> []" and "0 < block_size b"
    and "enable_prefix_caching b"
  shows "length (snd (cached_prefix X b s)) = reusable_blocks b s \<or>
         length (snd (cached_prefix X b s)) < reusable_blocks b s \<and>
         map_of (hash_to_block b) (block_chain X (block_size b) (token_ids s) (reusable_blocks b s)
           ! length (snd (cached_prefix X b s))) = None"
  using length_cached_hits [of "hash_to_block b" "block_chain X (block_size b) (token_ids s) (reusable_blocks b s)"]
    cached_hits_stop [of "hash_to_block b" "block_chain X (block_size b) (token_ids s) (reusable_blocks b s)"]
    cached_prefix_chain(1) [OF assms]
  by fastforce

text \<open>Publishing keeps the table sound: after \<open>cache_full_blocks\<close> on a sequence whose full blocks
  hold the K/V of its own prefixes, every entry of the table still names a block with the K/V of the
  prefix its digest stands for.\<close>

lemma publish_keeps_sound:
  assumes "cache_sound X T c b" and "hashes_ok X (block_size b) s" and "token_ids s \<in> T"
    and "num_computed_tokens s \<le> num_tokens s"
    and "\<And>i. int i < num_computed_tokens s div int (block_size b) \<Longrightarrow>
           c (block_table s ! i) = take (Suc i * block_size b) (token_ids s)"
    and "cache_full_blocks X b s = Inr (b', s')"
  shows "cache_sound X T c b' \<and> hashes_ok X (block_size b) s'"
  using assms(1-4) _ assms(6) by (rule cache_full_blocks_sound) (rule assms(5))

section \<open>The prefix cache on a concrete pool\<close>

lemma ex_sublist: "\<exists>k. take n (drop m [7, 7, 7 :: int]) = replicate k 7"
proof -
  have "[7, 7, 7 :: int] = replicate 3 7" by (simp add: numeral_3_eq_3)
  then show ?thesis by (simp only: drop_replicate take_replicate) blast
qed

lemma ex_encoders: "encoders_ok ex_ext {[7, 7, 7]}"
proof -
  have len: "length (uint32_bytes ex_ext ts) = 4 * length ts" for ts
    by (induction ts) (simp_all add: ex_ext_def)
  have "inj_on (uint32_bytes ex_ext) {replicate k (7 :: int) | k. True}"
  proof (rule inj_onI, clarify)
    fix j k assume "uint32_bytes ex_ext (replicate j 7) = uint32_bytes ex_ext (replicate k 7)"
    then have "4 * j = 4 * k" using len by (metis length_replicate)
    then show "replicate j (7 :: int) = replicate k 7" by simp
  qed
  then have "inj_on (uint32_bytes ex_ext) {take n (drop m toks) | n m toks. toks \<in> {[7, 7, 7]}}"
    by (rule inj_on_subset) (use ex_sublist in blast)
  with len show ?thesis by (simp add: encoders_ok_def) (simp add: ex_ext_def)
qed

lemma ex_collision_free: "collision_free ex_ext 2 {[7, 7, 7]}"
  unfolding collision_free_def
proof
  have i: "i * 2 \<le> Suc 0 \<longleftrightarrow> i = 0" for i :: nat by arith
  have "{digest_input ex_ext 2 toks i | toks i. toks \<in> {[7, 7, 7]} \<and> Suc i * 2 \<le> length toks}
      = {digest_input ex_ext 2 [7, 7, 7] 0}"
    by (auto simp: i)
  then show "inj_on (sha256 ex_ext) {digest_input ex_ext 2 toks i | toks i.
      toks \<in> {[7, 7, 7]} \<and> Suc i * 2 \<le> length toks}"
    by simp
qed (rule ex_encoders)

text \<open>A pool whose block 0 is published for the tokens 7, 7.\<close>

definition ex_digest :: bytes where
  "ex_digest = block_digest ex_ext 2 [7, 7, 7] []"

definition ex_bm_pub :: block_manager where
  "ex_bm_pub = ex_bm_held\<lparr>block_hash := [Some ex_digest, None, None, None],
     hash_to_block := [(ex_digest, 0)]\<rparr>"

definition ex_content :: "nat \<Rightarrow> int list" where
  "ex_content p = [7, 7]"

lemma ex_cache_sound: "cache_sound ex_ext {[7, 7, 7]} ex_content ex_bm_pub"
  unfolding cache_sound_def
  by (auto simp: ex_bm_pub_def ex_defs ex_content_def ex_digest_def intro!: exI [of _ 0])

lemma ex_hashes_ok: "hashes_ok ex_ext 2 ex_seq"
  by (simp add: hashes_ok_def ex_defs)

lemma ex_cached_prefix: "snd (cached_prefix ex_ext ex_bm_pub ex_seq) = [0]"
  by (simp add: cached_prefix_def ex_bm_pub_def ex_defs Let_def num_tokens_def extend_hashes_def
      extend_loop.simps py_prefix_nonneg ex_digest_def)

theorem prefix_hit_sound_witness:
  "ex_content 0 = [7, 7] \<and> snd (cached_prefix ex_ext ex_bm_pub ex_seq) = [0]"
  using prefix_hit_sound [of ex_ext ex_bm_pub "{[7, 7, 7]}" ex_content ex_seq]
    ex_collision_free ex_cache_sound ex_hashes_ok ex_cached_prefix
  by (simp add: ex_bm_pub_def ex_defs)

end
