(* ===== verification/Waiting_Queue.thy ===== *)
theory Waiting_Queue
  imports Seq_State
begin

text \<open>
  \<open>WaitingQueue\<close> of \<open>engine/core/scheduler.py\<close>: a heap of entries (key, counter, sequence) with
  lazy removal. Sequence objects are references into a store, so that the identity test of
  \<open>peek\<close> is equality of references. The heap is its sorted list of entries: \<open>heappush\<close> inserts,
  \<open>heap[0]\<close> is the least entry and \<open>heappop\<close> removes it. Keys are tuples of finite floats.
\<close>

type_synonym sref = nat
type_synonym seq_store = "sref \<Rightarrow> sequence"
type_synonym heap_entry = "(rat list \<times> nat) \<times> sref"

record wait_queue =
  policy :: string
  aging_rate :: rat
  heap :: "heap_entry list"
  counter :: nat
  live :: "(int \<times> sref) list"

definition init_wait_queue :: "string \<Rightarrow> rat \<Rightarrow> wait_queue" where
  "init_wait_queue p a = \<lparr>policy = p, aging_rate = a, heap = [], counter = 0, live = []\<rparr>"

definition queue_key :: "externals \<Rightarrow> wait_queue \<Rightarrow> sequence \<Rightarrow> rat list" where
  "queue_key X q s =
     (if policy q = ''fcfs'' then [arrival_time s]
      else if policy q = ''sjf'' then [of_int (num_prompt_tokens s), arrival_time s]
      else [fl_round X (priority_key s + fl_round X (aging_rate q * arrival_time s)),
            arrival_time s])"

definition wq_push :: "externals \<Rightarrow> seq_store \<Rightarrow> wait_queue \<Rightarrow> sref \<Rightarrow> wait_queue" where
  "wq_push X st q r =
     q\<lparr>heap := insort_key fst ((queue_key X q (st r), counter q), r) (heap q),
       counter := counter q + 1,
       live := AList.update (seq_id (st r)) r (live q)\<rparr>"

fun drop_stale :: "seq_store \<Rightarrow> (int \<times> sref) list \<Rightarrow> heap_entry list \<Rightarrow> heap_entry list" where
  "drop_stale st lv [] = []"
| "drop_stale st lv ((k, r) # h) =
     (if map_of lv (seq_id (st r)) \<noteq> Some r then drop_stale st lv h else (k, r) # h)"

definition wq_peek :: "seq_store \<Rightarrow> wait_queue \<Rightarrow> wait_queue \<times> sref option" where
  "wq_peek st q =
     (let h = drop_stale st (live q) (heap q)
      in (q\<lparr>heap := h\<rparr>, case h of [] \<Rightarrow> None | (k, r) # _ \<Rightarrow> Some r))"

definition wq_pop :: "seq_store \<Rightarrow> wait_queue \<Rightarrow> (wait_queue \<times> sref) result" where
  "wq_pop st q =
     (let q1 = fst (wq_peek st q) in
      case heap q1 of
        [] \<Rightarrow> Inl IndexError
      | (k, r) # h \<Rightarrow>
          rbind (dict_del (live q1) (seq_id (st r))) (\<lambda>lv.
            Inr (q1\<lparr>heap := h, live := lv\<rparr>, r)))"

definition wq_remove :: "wait_queue \<Rightarrow> int \<Rightarrow> wait_queue \<times> sref option" where
  "wq_remove q sid = (q\<lparr>live := AList.delete sid (live q)\<rparr>, map_of (live q) sid)"

definition wq_len :: "wait_queue \<Rightarrow> int" where
  "wq_len q = int (length (live q))"

definition wq_iter :: "wait_queue \<Rightarrow> sref list" where
  "wq_iter q = map snd (live q)"

end
