(* ===== verification/Sampler_Text.thy ===== *)
theory Sampler_Text
  imports Seq_State
begin

text \<open>
  The text half of \<open>engine/core/sampler.py\<close>: \<open>IncrementalDetokenizer\<close>, \<open>_find_stop\<close> and
  \<open>append_token\<close>. The tokenizer's \<open>decode\<close> is external; text is a list of code points and
  65533 is U+FFFD.
\<close>

section \<open>Incremental detokenization\<close>

definition fffd :: nat where "fffd = 65533"

definition slice :: "'a list \<Rightarrow> nat \<Rightarrow> nat \<Rightarrow> 'a list" where
  "slice xs i j = drop i (take j xs)"

definition ends_with_fffd :: "ustr \<Rightarrow> bool" where
  "ends_with_fffd t \<longleftrightarrow> t \<noteq> [] \<and> last t = fffd"

definition init_detok :: detok_state where
  "init_detok = \<lparr>detok_ids = [], prefix_offset = 0, read_offset = 0\<rparr>"

definition detok_add :: "externals \<Rightarrow> detok_state \<Rightarrow> int \<Rightarrow> detok_state \<times> ustr" where
  "detok_add X d token_id =
     (let ids = detok_ids d @ [token_id];
          prefix_text = decode X (slice ids (prefix_offset d) (read_offset d));
          new_text = decode X (drop (prefix_offset d) ids)
      in if length prefix_text < length new_text \<and> \<not> ends_with_fffd new_text
         then (d\<lparr>detok_ids := ids, prefix_offset := read_offset d, read_offset := length ids\<rparr>,
               drop (length prefix_text) new_text)
         else (d\<lparr>detok_ids := ids\<rparr>, []))"

definition detok_flush :: "externals \<Rightarrow> detok_state \<Rightarrow> detok_state \<times> ustr" where
  "detok_flush X d =
     (let prefix_text = decode X (slice (detok_ids d) (prefix_offset d) (read_offset d));
          new_text = decode X (drop (prefix_offset d) (detok_ids d));
          n = length (detok_ids d)
      in (d\<lparr>prefix_offset := n, read_offset := n\<rparr>, drop (length prefix_text) new_text))"

section \<open>Stop strings\<close>

text \<open>\<open>text.find(sub, start)\<close>, with \<open>None\<close> for -1.\<close>

definition py_find :: "ustr \<Rightarrow> ustr \<Rightarrow> nat \<Rightarrow> nat option" where
  "py_find t sub start =
     List.find (\<lambda>i. take (length sub) (drop i t) = sub) [start..<Suc (length t)]"

definition find_stop_one :: "ustr \<Rightarrow> nat \<Rightarrow> nat option \<Rightarrow> ustr \<Rightarrow> nat option" where
  "find_stop_one t prev_len found st =
     (case py_find t st (nat (max 0 (int prev_len - int (length st) + 1))) of
        None \<Rightarrow> found
      | Some idx \<Rightarrow> (case found of None \<Rightarrow> Some idx
                     | Some f \<Rightarrow> if idx < f then Some idx else Some f))"

definition find_stop :: "ustr \<Rightarrow> nat \<Rightarrow> ustr list \<Rightarrow> nat option" where
  "find_stop t prev_len stops = foldl (find_stop_one t prev_len) None stops"

section \<open>Appending a sampled token\<close>

definition max_stop_len :: "ustr list \<Rightarrow> nat" where
  "max_stop_len stops = foldr (\<lambda>s m. max (length s) m) stops 0"

text \<open>\<open>seq.output_text += seq.detokenizer.add(token_id)\<close>, when there is a detokenizer.\<close>

definition extend_text :: "externals \<Rightarrow> int \<Rightarrow> sequence \<Rightarrow> sequence" where
  "extend_text X token_id s =
     (case detokenizer s of None \<Rightarrow> s
      | Some d \<Rightarrow> s\<lparr>detokenizer := Some (fst (detok_add X d token_id)),
                    output_text := output_text s @ snd (detok_add X d token_id)\<rparr>)"

definition flush_text :: "externals \<Rightarrow> sequence \<Rightarrow> sequence" where
  "flush_text X s =
     (case detokenizer s of None \<Rightarrow> s
      | Some d \<Rightarrow> s\<lparr>detokenizer := Some (fst (detok_flush X d)),
                    output_text := output_text s @ snd (detok_flush X d)\<rparr>)"

definition cut_text :: "nat option \<Rightarrow> sequence \<Rightarrow> sequence" where
  "cut_text stop_at s = (case stop_at of None \<Rightarrow> s | Some k \<Rightarrow> s\<lparr>output_text := take k (output_text s)\<rparr>)"

definition finish_of :: "nat option \<Rightarrow> int \<Rightarrow> int list \<Rightarrow> int \<Rightarrow> sequence \<Rightarrow> string option" where
  "finish_of stop_at token_id eos max_len s =
     (if stop_at \<noteq> None then Some ''stop''
      else if token_id \<in> set eos \<and> \<not> ignore_eos (sampling_params_of s) then Some ''stop''
      else if num_output_tokens s \<ge> max_tokens (sampling_params_of s) \<or> num_tokens s \<ge> max_len
      then Some ''length'' else None)"

text \<open>The end of the text that may be sent, and the part of it not sent before.\<close>

definition emit_end :: "string option \<Rightarrow> sequence \<Rightarrow> nat" where
  "emit_end finish s =
     (let stops = stop (sampling_params_of s);
          holdback = (if finish \<noteq> None \<or> stops = [] then 0 else int (max_stop_len stops) - 1)
      in nat (max (int (num_emitted_chars s)) (int (length (output_text s)) - holdback)))"

definition append_token ::
  "externals \<Rightarrow> sequence \<Rightarrow> int \<Rightarrow> int list \<Rightarrow> int \<Rightarrow> sequence \<times> ustr \<times> string option" where
  "append_token X s0 token_id eos max_len =
     (let params = sampling_params_of s0;
          s1 = seq_append_token s0 token_id;
          prev_len = length (output_text s1);
          s2 = extend_text X token_id s1;
          stop_at = (if stop params \<noteq> [] then find_stop (output_text s2) prev_len (stop params)
                     else None);
          s3 = cut_text stop_at s2;
          finish = finish_of stop_at token_id eos max_len s3;
          s4 = (if finish \<noteq> None \<and> stop_at = None then flush_text X s3 else s3);
          end' = emit_end finish s4
      in (s4\<lparr>num_emitted_chars := end'\<rparr>, slice (output_text s4) (num_emitted_chars s4) end', finish))"

section \<open>Only the text changes\<close>

definition text_only :: "sequence \<Rightarrow> sequence \<Rightarrow> bool" where
  "text_only a b \<longleftrightarrow> (\<exists>d t n. b = a\<lparr>detokenizer := d, output_text := t, num_emitted_chars := n\<rparr>)"

lemma text_only_trans: "text_only a b \<Longrightarrow> text_only b c \<Longrightarrow> text_only a c"
  by (auto simp: text_only_def) blast

lemma text_only_stages:
  "text_only s s" "text_only s (extend_text X t s)" "text_only s (flush_text X s)"
  "text_only s (cut_text k s)" "text_only s (s\<lparr>num_emitted_chars := n\<rparr>)"
proof -
  have eq: "s = s\<lparr>detokenizer := detokenizer s, output_text := output_text s,
      num_emitted_chars := num_emitted_chars s\<rparr>" by simp
  then show refl: "text_only s s" unfolding text_only_def by blast
  have upd: "text_only s (s\<lparr>detokenizer := d, output_text := o'\<rparr>)" for d o'
    unfolding text_only_def by (intro exI [of _ d] exI [of _ o'] exI [of _ "num_emitted_chars s"]) simp
  show "text_only s (extend_text X t s)" "text_only s (flush_text X s)"
    using refl upd by (auto simp: extend_text_def flush_text_def split: option.split)
  have "text_only s (s\<lparr>output_text := o'\<rparr>)" for o' using upd [where d = "detokenizer s" and o' = o'] by simp
  then show "text_only s (cut_text k s)" using refl by (simp add: cut_text_def split: option.split)
  show "text_only s (s\<lparr>num_emitted_chars := n\<rparr>)"
    unfolding text_only_def by (intro exI [of _ "detokenizer s"] exI [of _ "output_text s"] exI [of _ n]) simp
qed

lemma append_token_text_only:
  "append_token X s t eos L = (s', text, finish) \<Longrightarrow> text_only (seq_append_token s t) s'"
  unfolding append_token_def Let_def
  by (auto intro!: text_only_trans [OF _ text_only_stages(5)] text_only_trans [OF _ text_only_stages(4)]
      text_only_trans [OF _ text_only_stages(3)] text_only_stages(2))

lemma append_token_finish:
  assumes "append_token X s t eos L = (s', text, None)"
  shows "num_output_tokens s' < max_tokens (sampling_params_of s')" and "num_tokens s' < L"
proof -
  obtain k s3 n where "finish_of k t eos L s3 = None" "s' = s3\<lparr>num_emitted_chars := n\<rparr>"
    using assms unfolding append_token_def Let_def by (auto split: if_splits)
  then have "num_output_tokens s3 < max_tokens (sampling_params_of s3)" "num_tokens s3 < L"
    "num_output_tokens s' = num_output_tokens s3" "num_tokens s' = num_tokens s3"
    "sampling_params_of s' = sampling_params_of s3"
    by (auto simp: finish_of_def num_output_tokens_def num_tokens_def split: if_splits)
  then show "num_output_tokens s' < max_tokens (sampling_params_of s')" "num_tokens s' < L" by simp_all
qed

end
