(* ===== verification/Scheduler.thy ===== *)
theory Scheduler
  imports Block_Manager Waiting_Queue Sampler_Text
begin

text \<open>
  \<open>ScheduledBatch\<close> and \<open>Scheduler\<close> of \<open>engine/core/scheduler.py\<close>. Python's sequence objects are
  references into \<open>store\<close>; the queues hold references, so a mutation through one of them is seen
  through all. Every handler is the whole method: its guards, its calls and its early returns.
\<close>

section \<open>State\<close>

record scheduled_batch =
  b_seqs :: "sref list"
  num_new_tokens :: "int list"
  do_sample :: "bool list"
  swap_out :: "(nat \<times> nat) list"
  swap_in :: "(nat \<times> nat) list"
  num_preempted :: int
  batch_num_tokens :: int
  num_decode_tokens :: int

definition empty_batch :: scheduled_batch where
  "empty_batch = \<lparr>b_seqs = [], num_new_tokens = [], do_sample = [], swap_out = [], swap_in = [],
     num_preempted = 0, batch_num_tokens = 0, num_decode_tokens = 0\<rparr>"

definition batch_add :: "scheduled_batch \<Rightarrow> sref \<Rightarrow> sequence \<Rightarrow> int \<Rightarrow> scheduled_batch" where
  "batch_add b r s n =
     b\<lparr>b_seqs := b_seqs b @ [r],
       num_new_tokens := num_new_tokens b @ [n],
       do_sample := do_sample b @ [num_computed_tokens s + n = num_tokens s],
       batch_num_tokens := batch_num_tokens b + n,
       num_decode_tokens := num_decode_tokens b
         + (if n = 1 \<and> num_computed_tokens s \<ge> num_prompt_tokens s then 1 else 0)\<rparr>"

definition batch_is_empty :: "scheduled_batch \<Rightarrow> bool" where
  "batch_is_empty b \<longleftrightarrow> \<not> (b_seqs b \<noteq> [] \<or> swap_out b \<noteq> [] \<or> swap_in b \<noteq> [])"

definition num_prefill_tokens :: "scheduled_batch \<Rightarrow> int" where
  "num_prefill_tokens b = batch_num_tokens b - num_decode_tokens b"

record scheduler =
  store :: seq_store
  bm :: block_manager
  sch_block_size :: nat
  chunked :: bool
  max_num_seqs :: int
  max_batch_tokens :: int
  max_model_len :: int
  preemption_mode :: string
  eos_ids :: "int list"
  waiting :: wait_queue
  preempted :: "sref list"
  running :: "sref list"
  swapped :: "sref list"
  seqs :: "(int \<times> sref) list"
  outputs :: "request_output list"
  num_preemptions :: int
  num_swap_outs :: int
  num_aborted :: int
  num_failed :: int

definition set_seq :: "scheduler \<Rightarrow> sref \<Rightarrow> sequence \<Rightarrow> scheduler" where
  "set_seq s r q = s\<lparr>store := (store s)(r := q)\<rparr>"

definition list_remove :: "'a list \<Rightarrow> 'a \<Rightarrow> 'a list result" where
  "list_remove xs x =
     (if x \<in> set xs then Inr (remove1 x xs) else Inl (ValueError ''list.remove(x): x not in list''))"

section \<open>Requests\<close>

definition sched_add :: "externals \<Rightarrow> scheduler \<Rightarrow> sref \<Rightarrow> scheduler result" where
  "sched_add X s r =
     (if map_of (seqs s) (seq_id (store s r)) \<noteq> None then Inl (ValueError (''duplicate seq_id '' @ show_int (seq_id (store s r))))
      else let s1 = set_seq s r ((store s r)\<lparr>status := WAITING\<rparr>) in
        Inr (s1\<lparr>seqs := AList.update (seq_id (store s1 r)) r (seqs s1),
                waiting := wq_push X (store s1) (waiting s1) r\<rparr>))"

definition sched_abort :: "scheduler \<Rightarrow> int \<Rightarrow> (scheduler \<times> bool) result" where
  "sched_abort s sid =
     (case map_of (seqs s) sid of
        None \<Rightarrow> Inr (s, False)
      | Some r \<Rightarrow>
          let s0 = s\<lparr>seqs := AList.delete sid (seqs s)\<rparr> in
          rbind
            (if status (store s0 r) = RUNNING then
               rbind (list_remove (running s0) r) (\<lambda>rs.
               rbind (free_seq (bm s0) (store s0 r)) (\<lambda>(b, q).
                 Inr ((set_seq s0 r q)\<lparr>running := rs, bm := b\<rparr>)))
             else if cpu_block_table (store s0 r) \<noteq> [] then
               rbind (list_remove (swapped s0) r) (\<lambda>rs.
                 case free_cpu (bm s0) (store s0 r) of (b, q) \<Rightarrow>
                   Inr ((set_seq s0 r q)\<lparr>swapped := rs, bm := b\<rparr>))
             else if status (store s0 r) = PREEMPTED then
               rbind (list_remove (preempted s0) r) (\<lambda>rs. Inr (s0\<lparr>preempted := rs\<rparr>))
             else Inr (s0\<lparr>waiting := fst (wq_remove (waiting s0) sid)\<rparr>))
            (\<lambda>s1. Inr ((set_seq s1 r ((store s1 r)\<lparr>status := ABORTED\<rparr>))
                        \<lparr>num_aborted := num_aborted s1 + 1\<rparr>, True)))"

definition has_work :: "scheduler \<Rightarrow> bool" where
  "has_work s \<longleftrightarrow>
     running s \<noteq> [] \<or> swapped s \<noteq> [] \<or> preempted s \<noteq> [] \<or> wq_len (waiting s) \<noteq> 0"

definition take_outputs :: "scheduler \<Rightarrow> scheduler \<times> request_output list" where
  "take_outputs s = (s\<lparr>outputs := []\<rparr>, outputs s)"

section \<open>Preemption and failure\<close>

definition preempt :: "scheduler \<Rightarrow> sref \<Rightarrow> scheduled_batch \<Rightarrow> (scheduler \<times> scheduled_batch) result" where
  "preempt s0 r b0 =
     (let q = (store s0 r)\<lparr>seq_num_preemptions := seq_num_preemptions (store s0 r) + 1,
                           status := PREEMPTED\<rparr>;
          s = (set_seq s0 r q)\<lparr>num_preemptions := num_preemptions s0 + 1\<rparr>;
          b = b0\<lparr>num_preempted := num_preempted b0 + 1\<rparr>
      in if preemption_mode s = ''swap'' \<and> can_swap_out (bm s) q then
           rbind (swap_out_seq (bm s) q) (\<lambda>(bm', q', pairs).
             Inr ((set_seq s r q')\<lparr>bm := bm', swapped := r # swapped s,
                                   num_swap_outs := num_swap_outs s + 1\<rparr>,
                  b\<lparr>swap_out := swap_out b @ pairs\<rparr>))
         else
           rbind (free_seq (bm s) q) (\<lambda>(bm', q').
             Inr ((set_seq s r (q'\<lparr>num_computed_tokens := 0\<rparr>))\<lparr>bm := bm',
                     preempted := r # preempted s\<rparr>, b)))"

definition exhausted_message :: "scheduler \<Rightarrow> sref \<Rightarrow> string" where
  "exhausted_message s r =
     ''KV cache exhausted: request '' @ show_int (seq_id (store s r)) @ '' needs room for '' @
     show_int (num_tokens (store s r) + 1) @ '' tokens but the cache holds '' @
     show_nat (num_blocks (bm s) * sch_block_size s) @ '' ('' @ show_nat (num_blocks (bm s)) @
     '' blocks of '' @ show_nat (sch_block_size s) @ '')''"

definition release_all :: "block_manager \<Rightarrow> sequence \<Rightarrow> (block_manager \<times> sequence) result" where
  "release_all b q =
     rbind (if block_table q \<noteq> [] then free_seq b q else Inr (b, q)) (\<lambda>(b1, q1).
       Inr (if cpu_block_table q1 \<noteq> [] then free_cpu b1 q1 else (b1, q1)))"

definition sched_fail :: "scheduler \<Rightarrow> sref \<Rightarrow> string \<Rightarrow> scheduler result" where
  "sched_fail s r message =
     rbind (release_all (bm s) (store s r)) (\<lambda>(b2, q2).
     let q3 = q2\<lparr>status := FINISHED, finish_reason := Some ''error'', error := Some message\<rparr>
     in Inr ((set_seq s r q3)\<lparr>bm := b2, seqs := AList.delete (seq_id q3) (seqs s),
               num_failed := num_failed s + 1,
               outputs := outputs s @ [\<lparr>out_seq_id = seq_id q3, out_token_ids = [], out_text = [],
                 finished = True, out_finish_reason = Some ''error'',
                 out_num_prompt_tokens = num_prompt_tokens q3,
                 out_num_output_tokens = num_output_tokens q3, out_error = Some message\<rparr>]\<rparr>))"

section \<open>Running sequences\<close>

fun plan_chunks :: "seq_store \<Rightarrow> int \<Rightarrow> sref list \<Rightarrow> (sref \<times> int) list" where
  "plan_chunks st left [] = []"
| "plan_chunks st left (r # rs) =
     (if num_uncomputed_tokens (st r) = 1 then (r, 1) # plan_chunks st left rs
      else let n = min (num_uncomputed_tokens (st r)) left
           in (r, n) # plan_chunks st (left - n) rs)"

definition plan_running_tokens :: "scheduler \<Rightarrow> (sref \<times> int) list" where
  "plan_running_tokens s =
     (if \<not> chunked s then map (\<lambda>r. (r, 1)) (running s)
      else let left = max_batch_tokens s
                 - int (length (filter (\<lambda>r. num_uncomputed_tokens (store s r) = 1) (running s)))
           in plan_chunks (store s) left (running s))"

lemma preempt_running:
  "preempt s r b = Inr (s', b') \<Longrightarrow> running s' = running s"
  by (auto simp: preempt_def result_simps Let_def set_seq_def split: if_splits)

text \<open>
  The inner loop of \<open>_schedule_running\<close>: evict from the newest end until \<open>running[i]\<close> fits. The
  boolean tells whether the loop ended by its condition (the \<open>else\<close> clause) or by \<open>break\<close>.
\<close>

function make_room ::
  "sref \<Rightarrow> int \<Rightarrow> nat \<Rightarrow> scheduler \<Rightarrow> scheduled_batch \<Rightarrow> (bool \<times> scheduler \<times> scheduled_batch) result" where
  "make_room r n i s b =
     (if can_append (bm s) (store s r) n then Inr (True, s, b)
      else if i < length (running s) - 1 then
        rbind (preempt (s\<lparr>running := butlast (running s)\<rparr>) (last (running s)) b) (\<lambda>(s1, b1).
          make_room r n i s1 b1)
      else if length (running s) \<le> i then Inl IndexError
      else
        let s0 = s\<lparr>running := take i (running s) @ drop (Suc i) (running s)\<rparr> in
        if i = 0 then
          rbind (sched_fail s0 r (exhausted_message s0 r)) (\<lambda>s1. Inr (False, s1, b))
        else rbind (preempt s0 r b) (\<lambda>(s1, b1). Inr (False, s1, b1)))"
  by pat_completeness auto
termination
  by (relation "measure (\<lambda>(r, n, i, s, b). length (running s))")
    (auto dest!: preempt_running)

declare make_room.simps [simp del]

lemma sched_fail_queues:
  assumes "sched_fail s r m = Inr s'"
  shows "running s' = running s" "swapped s' = swapped s" "preempted s' = preempted s"
    and "waiting s' = waiting s"
  using assms by (auto simp: sched_fail_def result_simps Let_def set_seq_def split: prod.splits)

lemma make_room_running:
  "make_room r n i s b = Inr (fits, s', b') \<Longrightarrow>
     length (running s') \<le> length (running s) \<and> (\<not> fits \<longrightarrow> length (running s') < length (running s))"
proof (induction r n i s b rule: make_room.induct)
  case (1 r n i s b)
  show ?case
  proof (cases "can_append (bm s) (store s r) n")
    case True
    with "1.prems" show ?thesis by (simp add: make_room.simps)
  next
    case no: False
    show ?thesis
    proof (cases "i < length (running s) - 1")
      case True
      with no "1.prems" obtain s1 b1 where
        p: "preempt (s\<lparr>running := butlast (running s)\<rparr>) (last (running s)) b = Inr (s1, b1)" and
        m: "make_room r n i s1 b1 = Inr (fits, s', b')"
        by (subst (asm) make_room.simps) (auto simp: result_simps)
      from preempt_running [OF p] "1.IH" [OF no True p refl m] True show ?thesis by auto
    next
      case False
      with no "1.prems" have i: "i < length (running s)"
        by (subst (asm) make_room.simps) (simp split: if_splits)
      let ?s0 = "s\<lparr>running := take i (running s) @ drop (Suc i) (running s)\<rparr>"
      from False no i "1.prems" have "running s' = running ?s0 \<and> \<not> fits"
        by (subst (asm) make_room.simps)
          (cases "i = 0"; auto simp: result_simps Let_def dest: preempt_running sched_fail_queues(1))
      with i show ?thesis by simp
    qed
  qed
qed

function running_loop ::
  "(sref \<times> int) list \<Rightarrow> nat \<Rightarrow> scheduler \<Rightarrow> scheduled_batch \<Rightarrow> (scheduler \<times> scheduled_batch) result" where
  "running_loop plan i s b =
     (if i < length (running s) then
        let r = running s ! i in
        (case map_of plan r of
           None \<Rightarrow> Inl KeyError
         | Some n \<Rightarrow>
             if n = 0 then running_loop plan (Suc i) s b
             else rbind (make_room r n i s b) (\<lambda>(fits, s1, b1).
               if fits then
                 rbind (append_slots (bm s1) (store s1 r) n) (\<lambda>(bm', q').
                   running_loop plan (Suc i) ((set_seq s1 r q')\<lparr>bm := bm'\<rparr>) (batch_add b1 r q' n))
               else running_loop plan i s1 b1))
      else Inr (s, b))"
  by pat_completeness auto
termination
  by (relation "measure (\<lambda>(plan, i, s, b). length (running s) - i)")
    (auto simp: set_seq_def dest!: make_room_running)

declare running_loop.simps [simp del]

definition schedule_running :: "scheduler \<Rightarrow> scheduled_batch \<Rightarrow> (scheduler \<times> scheduled_batch) result" where
  "schedule_running s b = running_loop (plan_running_tokens s) 0 s b"

section \<open>Returning swapped sequences\<close>

text \<open>\<open>budget\<close> is \<open>None\<close> in prefill-priority mode.\<close>

function swap_in_loop ::
  "scheduler \<Rightarrow> scheduled_batch \<Rightarrow> int option \<Rightarrow> (scheduler \<times> scheduled_batch) result" where
  "swap_in_loop s b budget =
     (if swapped s \<noteq> [] \<and> int (length (running s)) < max_num_seqs s then
        let r = hd (swapped s);
            n = (case budget of None \<Rightarrow> num_uncomputed_tokens (store s r)
                 | Some k \<Rightarrow> min (num_uncomputed_tokens (store s r)) k)
        in if n \<le> 0 then Inr (s, b)
           else if \<not> can_swap_in (bm s) (store s r) n (running s \<noteq> []) then
             (if running s = [] then
                let s0 = s\<lparr>swapped := tl (swapped s)\<rparr> in
                rbind (sched_fail s0 r (exhausted_message s0 r)) (\<lambda>s1. swap_in_loop s1 b budget)
              else Inr (s, b))
           else
             let s0 = s\<lparr>swapped := tl (swapped s)\<rparr> in
             rbind (swap_in_seq (bm s0) (store s0 r)) (\<lambda>(b1, q1, pairs).
             rbind (append_slots b1 q1 n) (\<lambda>(b2, q2).
               let q3 = q2\<lparr>status := RUNNING\<rparr>;
                   s1 = (set_seq s0 r q3)\<lparr>bm := b2, running := running s0 @ [r]\<rparr>
               in swap_in_loop s1 (batch_add (b\<lparr>swap_in := swap_in b @ pairs\<rparr>) r q3 n)
                    (map_option (\<lambda>k. k - n) budget)))
      else Inr (s, b))"
  by pat_completeness auto
termination
  by (relation "measure (\<lambda>(s, b, budget). length (swapped s))")
    (auto simp: set_seq_def dest!: sched_fail_queues(2))

declare swap_in_loop.simps [simp del]

section \<open>Admission\<close>

text \<open>\<open>self.preempted[0] if self.preempted else self.waiting.peek()\<close>\<close>

definition admit_candidate :: "scheduler \<Rightarrow> scheduler \<times> sref option" where
  "admit_candidate s =
     (case preempted s of
        r # _ \<Rightarrow> (s, Some r)
      | [] \<Rightarrow> (case wq_peek (store s) (waiting s) of (q, c) \<Rightarrow> (s\<lparr>waiting := q\<rparr>, c)))"

definition pop_waiting :: "scheduler \<Rightarrow> sref \<Rightarrow> scheduler result" where
  "pop_waiting s r =
     (if preempted s \<noteq> [] \<and> hd (preempted s) = r then Inr (s\<lparr>preempted := tl (preempted s)\<rparr>)
      else rbind (wq_pop (store s) (waiting s)) (\<lambda>(q, popped).
           rbind (py_assert (popped = r) ''popped is seq'') (\<lambda>_. Inr (s\<lparr>waiting := q\<rparr>))))"

definition queue_size :: "scheduler \<Rightarrow> nat" where
  "queue_size s = length (preempted s) + length (heap (waiting s))"

lemma length_drop_stale: "length (drop_stale st lv h) \<le> length h"
  by (induction st lv h rule: drop_stale.induct) auto

lemma admit_candidate_size: "admit_candidate s = (s', c) \<Longrightarrow> queue_size s' \<le> queue_size s"
  using length_drop_stale [of "store s" "live (waiting s)" "heap (waiting s)"]
  by (auto simp: admit_candidate_def queue_size_def wq_peek_def Let_def split: list.splits)

lemma wq_pop_size:
  assumes "wq_pop st q = Inr (q', r)"
  shows "length (heap q') < length (heap q)"
proof -
  from assms obtain k h where "drop_stale st (live q) (heap q) = (k, r) # h" "heap q' = h"
    by (auto simp: wq_pop_def wq_peek_def Let_def result_simps split: list.splits)
  with length_drop_stale [of st "live q" "heap q"] show ?thesis by simp
qed

lemma pop_waiting_size: "pop_waiting s r = Inr s' \<Longrightarrow> queue_size s' < queue_size s"
  by (auto simp: pop_waiting_def queue_size_def result_simps dest: wq_pop_size split: if_splits)

lemma queue_size_update [simp]:
  "queue_size (s\<lparr>store := st\<rparr>) = queue_size s"
  "queue_size (s\<lparr>bm := x\<rparr>) = queue_size s"
  "queue_size (s\<lparr>running := rs\<rparr>) = queue_size s"
  by (simp_all add: queue_size_def)

lemma sched_fail_size: "sched_fail s r m = Inr s' \<Longrightarrow> queue_size s' = queue_size s"
  by (simp add: queue_size_def sched_fail_queues)

function admit_loop ::
  "externals \<Rightarrow> scheduler \<Rightarrow> scheduled_batch \<Rightarrow> int \<Rightarrow> (scheduler \<times> scheduled_batch) result" where
  "admit_loop X s b budget =
     (if 0 < budget \<and> int (length (running s)) < max_num_seqs s then
        case admit_candidate s of (s0, cand) \<Rightarrow>
        (case cand of
           None \<Rightarrow> Inr (s0, b)
         | Some r \<Rightarrow>
             if blocks_for (bm s0) (num_tokens (store s0 r)) > int (num_blocks (bm s0)) then
               rbind (pop_waiting s0 r) (\<lambda>s1.
               rbind (sched_fail s1 r (exhausted_message s1 r)) (\<lambda>s2. admit_loop X s2 b budget))
             else
               case cached_prefix X (bm s0) (store s0 r) of (q, cached) \<Rightarrow>
               let s1 = set_seq s0 r q;
                   remaining = num_tokens q - int (length cached) * int (sch_block_size s1);
                   n = (if chunked s1 then min remaining budget else remaining)
               in if n > budget then Inr (s1, b)
                  else rbind (can_allocate (bm s1) q n cached (running s1 \<noteq> [])) (\<lambda>ok.
                    if \<not> ok then Inr (s1, b)
                    else rbind (pop_waiting s1 r) (\<lambda>s2.
                      rbind (allocate (bm s2) (store s2 r) n cached) (\<lambda>(bm', q').
                        let q'' = q'\<lparr>status := RUNNING\<rparr>;
                            s3 = (set_seq s2 r q'')\<lparr>bm := bm', running := running s2 @ [r]\<rparr>
                        in admit_loop X s3 (batch_add b r q'' n) (budget - n)))))
      else Inr (s, b))"
  by pat_completeness auto
termination
proof (relation "measure (\<lambda>(X, s, b, budget). queue_size s)", goal_cases)
  case (2 X s b budget)
  then show ?case
    by (auto dest!: sym [of _ "admit_candidate _"] admit_candidate_size pop_waiting_size sched_fail_size)
next
  case (3 X s b budget)
  then show ?case
    by (auto simp: set_seq_def dest!: sym [of _ "admit_candidate _"] admit_candidate_size pop_waiting_size)
qed simp

declare admit_loop.simps [simp del]

section \<open>One iteration\<close>

definition schedule_prefill_priority ::
  "externals \<Rightarrow> scheduler \<Rightarrow> scheduled_batch \<Rightarrow> (scheduler \<times> scheduled_batch) result" where
  "schedule_prefill_priority X s b =
     rbind (if swapped s = [] then admit_loop X s b (max_batch_tokens s) else Inr (s, b)) (\<lambda>(s1, b1).
       if swapped s = [] \<and> b_seqs b1 \<noteq> [] then Inr (s1, b1)
       else rbind (schedule_running s1 b1) (\<lambda>(s2, b2).
              if num_preempted b2 = 0 then swap_in_loop s2 b2 None else Inr (s2, b2)))"

definition schedule_chunked ::
  "externals \<Rightarrow> scheduler \<Rightarrow> scheduled_batch \<Rightarrow> (scheduler \<times> scheduled_batch) result" where
  "schedule_chunked X s b =
     rbind (schedule_running s b) (\<lambda>(s1, b1).
       if num_preempted b1 \<noteq> 0 then Inr (s1, b1)
       else rbind (swap_in_loop s1 b1 (Some (max_batch_tokens s1 - batch_num_tokens b1))) (\<lambda>(s2, b2).
              if swapped s2 = [] then admit_loop X s2 b2 (max_batch_tokens s2 - batch_num_tokens b2)
              else Inr (s2, b2)))"

definition schedule :: "externals \<Rightarrow> scheduler \<Rightarrow> (scheduler \<times> scheduled_batch) result" where
  "schedule X s =
     rbind (if chunked s then schedule_chunked X s empty_batch
            else schedule_prefill_priority X s empty_batch) (\<lambda>(s', b).
     rbind (py_assert (\<not> (swap_out b \<noteq> [] \<and> swap_in b \<noteq> []))
              ''a step must not both swap out and swap in'') (\<lambda>_. Inr (s', b)))"

section \<open>After the forward pass\<close>

text \<open>The state of the loop: scheduler, outputs, the rest of the token iterator, \<open>any_finished\<close>.\<close>

type_synonym update_state = "scheduler \<times> request_output list \<times> int list \<times> bool"

definition finish_seq :: "scheduler \<Rightarrow> sref \<Rightarrow> sequence \<Rightarrow> string \<Rightarrow> scheduler result" where
  "finish_seq s r q reason =
     (let q1 = q\<lparr>status := FINISHED, finish_reason := Some reason\<rparr> in
      rbind (free_seq (bm s) q1) (\<lambda>(bm', q2).
        Inr ((set_seq s r q2)\<lparr>bm := bm', seqs := AList.delete (seq_id q2) (seqs s)\<rparr>)))"

definition update_one ::
  "externals \<Rightarrow> rat \<Rightarrow> update_state \<Rightarrow> sref \<times> int \<times> bool \<Rightarrow> update_state result" where
  "update_one X now st item = (case st of (s, outs, toks, any_finished) \<Rightarrow> (case item of (r, n, smp) \<Rightarrow>
     let q1 = (store s r)\<lparr>num_computed_tokens := num_computed_tokens (store s r) + n\<rparr> in
     rbind (cache_full_blocks X (bm s) q1) (\<lambda>(bm', q2).
       let s1 = (set_seq s r q2)\<lparr>bm := bm'\<rparr> in
       if \<not> smp then Inr (s1, outs, toks, any_finished)
       else (case toks of
           [] \<Rightarrow> Inl StopIteration
         | token # toks' \<Rightarrow>
             (case append_token X q2 token (eos_ids s1) (max_model_len s1) of (q3, text, finish) \<Rightarrow>
               let q4 = (if first_token_time q3 = None then q3\<lparr>first_token_time := Some now\<rparr> else q3);
                   out = \<lparr>out_seq_id = seq_id q4, out_token_ids = [token], out_text = text,
                          finished = (finish \<noteq> None), out_finish_reason = finish,
                          out_num_prompt_tokens = num_prompt_tokens q4,
                          out_num_output_tokens = num_output_tokens q4, out_error = None\<rparr>
               in (case finish of
                     None \<Rightarrow> Inr (set_seq s1 r q4, outs @ [out], toks', any_finished)
                   | Some reason \<Rightarrow>
                       rbind (finish_seq s1 r q4 reason) (\<lambda>s2. Inr (s2, outs @ [out], toks', True))))))))"

definition sched_update ::
  "externals \<Rightarrow> rat \<Rightarrow> scheduler \<Rightarrow> scheduled_batch \<Rightarrow> int list \<Rightarrow> (scheduler \<times> request_output list) result" where
  "sched_update X now s b sampled =
     (case take_outputs s of (s0, outs0) \<Rightarrow>
      rbind (foldM (update_one X now) (s0, outs0, sampled, False)
               (zip (b_seqs b) (zip (num_new_tokens b) (do_sample b)))) (\<lambda>(s1, outs, _, any_finished).
        Inr (if any_finished
             then s1\<lparr>running := filter (\<lambda>r. status (store s1 r) = RUNNING) (running s1)\<rparr>
             else s1, outs)))"

end
