(* ===== verification/Waiting_Queue_Inv.thy ===== *)
theory Waiting_Queue_Inv
  imports Waiting_Queue
begin

text \<open>
  The waiting queue against its abstract specification: \<open>pending\<close>, the list of waiting requests in
  admission order. The interface \<open>admission_queue\<close> states what the scheduler relies on; it is
  interpreted on the heap with lazy removal.
\<close>

section \<open>The interface\<close>

locale admission_queue =
  fixes inv :: "'q \<Rightarrow> bool"
    and pending :: "'q \<Rightarrow> 'r list"
    and key :: "'r \<Rightarrow> 'k::linorder"
    and fresh :: "'q \<Rightarrow> 'r \<Rightarrow> bool"
    and push :: "'q \<Rightarrow> 'r \<Rightarrow> 'q"
    and pop :: "'q \<Rightarrow> ('q \<times> 'r) result"
  assumes sorted_pending: "inv q \<Longrightarrow> sorted (map key (pending q))"
    and push_inv: "inv q \<Longrightarrow> fresh q r \<Longrightarrow> inv (push q r)"
    and push_pending: "inv q \<Longrightarrow> fresh q r \<Longrightarrow>
      pending (push q r) = takeWhile (\<lambda>x. key x \<le> key r) (pending q)
                             @ r # dropWhile (\<lambda>x. key x \<le> key r) (pending q)"
    and pop_pending: "inv q \<Longrightarrow> pending q = r # rs \<Longrightarrow>
      \<exists>q'. pop q = Inr (q', r) \<and> inv q' \<and> pending q' = rs"
begin

text \<open>Popping everything delivers the pending requests in order.\<close>

lemma drain: "inv q \<Longrightarrow> \<exists>q'. draw pop (length (pending q)) q = Inr (q', pending q) \<and> inv q' \<and> pending q' = []"
proof (induction "pending q" arbitrary: q)
  case Nil
  then show ?case by auto
next
  case (Cons r rs)
  then obtain q1 where "pop q = Inr (q1, r)" "inv q1" "pending q1 = rs"
    using pop_pending [of q r rs] by auto
  with Cons.hyps(1) [of q1] obtain q' where "draw pop (length rs) q1 = Inr (q', rs)" "inv q'" "pending q' = []"
    by auto
  with \<open>pop q = Inr (q1, r)\<close> Cons.hyps(2) [symmetric] show ?case by auto
qed

text \<open>What comes out has the least key of all that wait.\<close>

lemma pop_least:
  assumes "inv q" and "pending q \<noteq> []"
  shows "\<exists>q' r. pop q = Inr (q', r) \<and> r \<in> set (pending q) \<and> (\<forall>x \<in> set (pending q). key r \<le> key x)"
proof -
  from assms(2) obtain r rs where "pending q = r # rs" by (cases "pending q") auto
  then show ?thesis
    using pop_pending [OF assms(1)] sorted_pending [OF assms(1)] by fastforce
qed

text \<open>A new request overtakes exactly the requests with a greater key.\<close>

lemma push_overtakes:
  assumes "inv q" and "fresh q r"
  shows "\<exists>before behind. pending q = before @ behind \<and> pending (push q r) = before @ r # behind \<and>
     (\<forall>x \<in> set before. key x \<le> key r) \<and> (\<forall>x \<in> set behind. key r < key x)"
proof (intro exI conjI)
  let ?P = "\<lambda>x. key x \<le> key r"
  show "pending q = takeWhile ?P (pending q) @ dropWhile ?P (pending q)" by simp
  show "pending (push q r) = takeWhile ?P (pending q) @ r # dropWhile ?P (pending q)"
    by (rule push_pending [OF assms])
  show "\<forall>x \<in> set (takeWhile ?P (pending q)). ?P x" using set_takeWhileD by fast
  have "sorted (map key (pending q)) \<Longrightarrow> \<forall>x \<in> set (dropWhile ?P (pending q)). key r < key x" for q
  proof (induction "pending q" arbitrary: q)
    case Nil
    then show ?case by simp
  next
    case (Cons y ys)
    have "sorted (map key zs) \<Longrightarrow> \<forall>x \<in> set (dropWhile ?P zs). key r < key x" for zs
      by (induction zs) auto
    with Cons.prems show ?case by blast
  qed
  then show "\<forall>x \<in> set (dropWhile ?P (pending q)). key r < key x"
    using sorted_pending [OF assms(1)] by blast
qed

end

section \<open>The invariant of the heap\<close>

definition is_live :: "seq_store \<Rightarrow> (int \<times> sref) list \<Rightarrow> heap_entry \<Rightarrow> bool" where
  "is_live st lv e \<longleftrightarrow> map_of lv (seq_id (st (snd e))) = Some (snd e)"

definition pending :: "seq_store \<Rightarrow> wait_queue \<Rightarrow> sref list" where
  "pending st q = map snd (filter (is_live st (live q)) (heap q))"

definition wq_inv :: "externals \<Rightarrow> seq_store \<Rightarrow> wait_queue \<Rightarrow> bool" where
  "wq_inv X st q \<longleftrightarrow>
     sorted (map fst (heap q)) \<and> distinct (map snd (heap q)) \<and>
     (\<forall>e \<in> set (heap q). fst (fst e) = queue_key X q (st (snd e)) \<and> snd (fst e) < counter q) \<and>
     dict_wf (live q) \<and>
     (\<forall>i r. map_of (live q) i = Some r \<longrightarrow> seq_id (st r) = i \<and> r \<in> snd ` set (heap q))"

definition wq_fresh :: "seq_store \<Rightarrow> wait_queue \<Rightarrow> sref \<Rightarrow> bool" where
  "wq_fresh st q r \<longleftrightarrow> r \<notin> snd ` set (heap q) \<and> map_of (live q) (seq_id (st r)) = None"

lemma wq_inv_init [simp]: "wq_inv X st (init_wait_queue p a)"
  by (simp add: wq_inv_def init_wait_queue_def)

lemma pending_init [simp]: "pending st (init_wait_queue p a) = []"
  by (simp add: pending_def init_wait_queue_def)

lemma wq_invD:
  assumes "wq_inv X st q"
  shows "sorted (map fst (heap q))" "distinct (map snd (heap q))" "dict_wf (live q)"
    and "e \<in> set (heap q) \<Longrightarrow> fst (fst e) = queue_key X q (st (snd e))"
    and "e \<in> set (heap q) \<Longrightarrow> snd (fst e) < counter q"
    and "map_of (live q) i = Some r \<Longrightarrow> seq_id (st r) = i \<and> r \<in> snd ` set (heap q)"
  using assms unfolding wq_inv_def by blast+

subsection \<open>Sorted lists\<close>

lemma sorted_takeWhile_filter:
  "sorted (map f xs) \<Longrightarrow> takeWhile (\<lambda>x. f x \<le> a) xs = filter (\<lambda>x. f x \<le> a) xs"
proof (induction xs)
  case (Cons x xs)
  then have "\<not> f x \<le> a \<Longrightarrow> \<forall>y \<in> set xs. \<not> f y \<le> a" by force
  with Cons show ?case by (simp add: filter_False)
qed simp

lemma sorted_dropWhile_filter:
  "sorted (map f xs) \<Longrightarrow> dropWhile (\<lambda>x. f x \<le> a) xs = filter (\<lambda>x. \<not> f x \<le> a) xs"
proof (induction xs)
  case (Cons x xs)
  then have "\<not> f x \<le> a \<Longrightarrow> \<forall>y \<in> set xs. \<not> f y \<le> a" by force
  with Cons show ?case by (simp add: filter_True)
qed simp

lemma insort_as_filter:
  assumes "sorted (map fst h)" and "\<And>e. e \<in> set h \<Longrightarrow> snd (fst e) < (n :: nat)"
  shows "insort_key fst ((k, n), r) h
    = filter (\<lambda>e. fst (fst e) \<le> k) h @ ((k, n), r) # filter (\<lambda>e. \<not> fst (fst e) \<le> (k :: rat list)) h"
  using assms
proof (induction h)
  case (Cons e h)
  then have n: "snd (fst e) < n" by simp
  show ?case
  proof (cases "fst (fst e) \<le> k")
    case True
    with n have "\<not> (k, n) \<le> fst e" by (cases e) (auto simp: less_eq_prod_def)
    with Cons True show ?thesis by simp
  next
    case False
    then have "(k, n) \<le> fst e" by (cases e) (auto simp: less_eq_prod_def)
    moreover have "\<not> fst (fst x) \<le> k" if "x \<in> set h" for x
    proof -
      from Cons.prems(1) that have "fst e \<le> fst x" by simp
      then have "fst (fst e) \<le> fst (fst x)" by (cases "fst e"; cases "fst x") (auto simp: less_eq_prod_def)
      with False show ?thesis by (meson order.trans)
    qed
    ultimately show ?thesis
      using False by (simp add: filter_False filter_True)
  qed
qed simp

lemma sorted_fst_fst: "sorted (map fst (h :: heap_entry list)) \<Longrightarrow> sorted (map (\<lambda>e. fst (fst e)) h)"
  unfolding sorted_map by (rule sorted_wrt_mono_rel [of _ "\<lambda>x y. fst x \<le> fst y"])
    (auto simp: less_eq_prod_def)

subsection \<open>Push\<close>

lemma queue_key_cong [simp]:
  "queue_key X (q\<lparr>heap := h\<rparr>) s = queue_key X q s" "queue_key X (q\<lparr>live := l\<rparr>) s = queue_key X q s"
  "queue_key X (q\<lparr>counter := n\<rparr>) s = queue_key X q s"
  by (simp_all add: queue_key_def)

lemma wq_push_inv:
  assumes inv: "wq_inv X st q" and fresh: "wq_fresh st q r"
  shows "wq_inv X st (wq_push X st q r)"
  unfolding wq_inv_def
proof (intro conjI)
  note D = wq_invD [OF inv]
  let ?q = "wq_push X st q r"
  show "sorted (map fst (heap ?q))" using D(1) by (simp add: wq_push_def sorted_insort_key)
  have "mset (map snd (heap ?q)) = mset (r # map snd (heap q))"
    by (simp add: wq_push_def)
  then show "distinct (map snd (heap ?q))"
    using D(2) fresh by (metis distinct.simps(2) mset_eq_imp_distinct_iff set_map wq_fresh_def)
  show "\<forall>e \<in> set (heap ?q). fst (fst e) = queue_key X ?q (st (snd e)) \<and> snd (fst e) < counter ?q"
    using D(4,5) by (auto simp: wq_push_def set_insort_key less_Suc_eq)
  show "dict_wf (live ?q)" using D(3) by (simp add: wq_push_def)
  show "\<forall>i r'. map_of (live ?q) i = Some r' \<longrightarrow> seq_id (st r') = i \<and> r' \<in> snd ` set (heap ?q)"
    using D(6) by (auto simp: wq_push_def set_insort_key dict_lookup)
qed

lemma pending_push:
  assumes inv: "wq_inv X st q" and fresh: "wq_fresh st q r"
  defines "key \<equiv> \<lambda>x. queue_key X q (st x)"
  shows "pending st (wq_push X st q r)
    = takeWhile (\<lambda>x. key x \<le> key r) (pending st q) @ r # dropWhile (\<lambda>x. key x \<le> key r) (pending st q)"
proof -
  note D = wq_invD [OF inv]
  let ?lv = "AList.update (seq_id (st r)) r (live q)"
  have live: "is_live st ?lv e \<longleftrightarrow> is_live st (live q) e" if "e \<in> set (heap q)" for e
    using that fresh by (force simp: is_live_def dict_lookup wq_fresh_def)
  have key: "fst (fst e) = key (snd e)" if "e \<in> set (heap q)" for e
    using D(4) that by (simp add: key_def)
  have sorted: "sorted (map key (pending st q))"
  proof -
    have "sorted (map (\<lambda>e. fst (fst e)) (filter (is_live st (live q)) (heap q)))"
      using sorted_fst_fst [OF D(1)] by (rule sorted_filter)
    also have "map (\<lambda>e. fst (fst e)) (filter (is_live st (live q)) (heap q)) = map key (pending st q)"
      using key by (simp add: pending_def)
    finally show ?thesis .
  qed
  have new: "is_live st ?lv ((key r, counter q), r)"
    by (simp add: is_live_def dict_lookup)
  have part: "map snd (filter (is_live st ?lv) (filter (\<lambda>e. P (fst (fst e))) (heap q)))
      = filter (\<lambda>x. P (key x)) (pending st q)" for P
  proof -
    have "filter (is_live st ?lv) (filter (\<lambda>e. P (fst (fst e))) (heap q))
        = filter (\<lambda>e. P (key (snd e))) (filter (is_live st (live q)) (heap q))"
      using live key by (auto simp: intro!: filter_cong)
    then show ?thesis by (simp add: pending_def filter_map comp_def)
  qed
  have "heap (wq_push X st q r) = filter (\<lambda>e. fst (fst e) \<le> key r) (heap q)
      @ ((key r, counter q), r) # filter (\<lambda>e. \<not> fst (fst e) \<le> key r) (heap q)"
    using insort_as_filter [OF D(1), of "counter q" "key r" r] D(5) by (simp add: wq_push_def key_def)
  moreover have "live (wq_push X st q r) = ?lv" by (simp add: wq_push_def)
  ultimately have "pending st (wq_push X st q r)
      = filter (\<lambda>x. key x \<le> key r) (pending st q) @ r # filter (\<lambda>x. \<not> key x \<le> key r) (pending st q)"
    using new part [of "\<lambda>k. k \<le> key r"] part [of "\<lambda>k. \<not> k \<le> key r"]
    unfolding pending_def [of st "wq_push X st q r"] by simp
  then show ?thesis
    by (simp add: sorted_takeWhile_filter [OF sorted] sorted_dropWhile_filter [OF sorted])
qed

subsection \<open>Peek, pop and remove\<close>

lemma drop_stale_dropWhile: "drop_stale st lv h = dropWhile (\<lambda>e. \<not> is_live st lv e) h"
  by (induction st lv h rule: drop_stale.induct) (auto simp: is_live_def)

lemma filter_dropWhile_not: "filter P (dropWhile (\<lambda>x. \<not> P x) xs) = filter P xs"
  by (induction xs) simp_all

lemma wq_inv_dropWhile:
  assumes "wq_inv X st q"
  shows "wq_inv X st (q\<lparr>heap := dropWhile (\<lambda>e. \<not> is_live st (live q) e) (heap q)\<rparr>)"
proof -
  note D = wq_invD [OF assms]
  let ?h = "dropWhile (\<lambda>e. \<not> is_live st (live q) e) (heap q)"
  have sub: "set ?h \<subseteq> set (heap q)" using set_dropWhileD by fast
  have "\<exists>xs. heap q = xs @ ?h" using takeWhile_dropWhile_id [of _ "heap q"] by metis
  then have "sorted (map fst ?h)" "distinct (map snd ?h)"
    using D(1,2) by (metis map_append sorted_append, metis map_append distinct_append)
  moreover have "r \<in> snd ` set ?h" if l: "map_of (live q) i = Some r" for i r
  proof -
    from D(6) [OF l] obtain k where e: "(k, r) \<in> set (heap q)" "seq_id (st r) = i" by auto
    then have "is_live st (live q) (k, r)"
      using l by (simp add: is_live_def)
    with e have "(k, r) \<in> set (filter (is_live st (live q)) ?h)"
      by (simp only: filter_dropWhile_not) simp
    then show ?thesis by force
  qed
  ultimately show ?thesis
    using D(3-6) sub by (auto simp: wq_inv_def)
qed

lemma wq_peek_ok:
  assumes "wq_inv X st q"
  shows "wq_inv X st (fst (wq_peek st q))" and "pending st (fst (wq_peek st q)) = pending st q"
    and "snd (wq_peek st q) = (case pending st q of [] \<Rightarrow> None | r # _ \<Rightarrow> Some r)"
    and "live (fst (wq_peek st q)) = live q"
    and "snd ` set (heap (fst (wq_peek st q))) \<subseteq> snd ` set (heap q)"
proof -
  let ?h = "dropWhile (\<lambda>e. \<not> is_live st (live q) e) (heap q)"
  have q: "fst (wq_peek st q) = q\<lparr>heap := ?h\<rparr>"
    by (simp add: wq_peek_def Let_def drop_stale_dropWhile)
  show "wq_inv X st (fst (wq_peek st q))" unfolding q by (rule wq_inv_dropWhile [OF assms])
  show p: "pending st (fst (wq_peek st q)) = pending st q"
    by (simp add: q pending_def filter_dropWhile_not)
  show "live (fst (wq_peek st q)) = live q" by (simp add: q)
  show "snd ` set (heap (fst (wq_peek st q))) \<subseteq> snd ` set (heap q)"
    using set_dropWhileD by (fastforce simp: q)
  have "pending st q = map snd (filter (is_live st (live q)) ?h)"
    by (simp add: pending_def filter_dropWhile_not)
  moreover have "snd (wq_peek st q) = (case ?h of [] \<Rightarrow> None | (k, r) # _ \<Rightarrow> Some r)"
    by (simp add: wq_peek_def Let_def drop_stale_dropWhile)
  ultimately show "snd (wq_peek st q) = (case pending st q of [] \<Rightarrow> None | r # _ \<Rightarrow> Some r)"
    using hd_dropWhile [of "\<lambda>e. \<not> is_live st (live q) e" "heap q"]
    by (cases ?h) auto
qed

lemma wq_pop_ok:
  assumes inv: "wq_inv X st q" and p: "pending st q = r # rs"
  shows "\<exists>q'. wq_pop st q = Inr (q', r) \<and> wq_inv X st q' \<and> pending st q' = rs \<and>
           policy q' = policy q \<and> aging_rate q' = aging_rate q \<and>
           live q' = AList.delete (seq_id (st r)) (live q) \<and> snd ` set (heap q') \<subseteq> snd ` set (heap q)"
proof -
  define q1 where "q1 = fst (wq_peek st q)"
  note P = wq_peek_ok [OF inv, folded q1_def]
  note D = wq_invD [OF P(1)]
  have h: "heap q1 = dropWhile (\<lambda>e. \<not> is_live st (live q) e) (heap q)"
    by (simp add: q1_def wq_peek_def Let_def drop_stale_dropWhile)
  from p P(2) have "heap q1 \<noteq> []" by (auto simp: pending_def)
  then obtain k r' h' where h': "heap q1 = (k, r') # h'" by (cases "heap q1") auto
  then have "is_live st (live q) (k, r')"
    using hd_dropWhile [of "\<lambda>e. \<not> is_live st (live q) e" "heap q"] h by auto
  with h' P(2,4) p have r: "r' = r" and live: "map_of (live q1) (seq_id (st r)) = Some r"
    and rs: "rs = map snd (filter (is_live st (live q1)) h')"
    by (auto simp: pending_def is_live_def)
  let ?lv = "AList.delete (seq_id (st r)) (live q1)"
  let ?q = "q1\<lparr>heap := h', live := ?lv\<rparr>"
  have notr: "r \<notin> snd ` set h'" using D(2) h' r by auto
  have "wq_pop st q = Inr (?q, r)"
    using h' r live by (simp add: wq_pop_def Let_def q1_def [symmetric] dict_del_def)
  moreover have "pending st ?q = rs"
  proof -
    have "is_live st ?lv e \<longleftrightarrow> is_live st (live q1) e" if "e \<in> set h'" for e
      using that notr live by (force simp: is_live_def dict_lookup)
    then show ?thesis by (simp add: pending_def rs cong: filter_cong)
  qed
  moreover have "wq_inv X st ?q"
    unfolding wq_inv_def
  proof (intro conjI)
    show "\<forall>i r'. map_of (live ?q) i = Some r' \<longrightarrow> seq_id (st r') = i \<and> r' \<in> snd ` set (heap ?q)"
    proof (intro allI impI)
      fix i r' assume "map_of (live ?q) i = Some r'"
      then have l: "map_of (live q1) i = Some r'" "i \<noteq> seq_id (st r)"
        by (auto simp: dict_lookup split: if_splits)
      from D(6) [OF l(1)] l(2) h' r show "seq_id (st r') = i \<and> r' \<in> snd ` set (heap ?q)" by auto
    qed
  qed (use D(1-5) h' in \<open>auto simp: dict_wf_delete\<close>)
  moreover have "policy ?q = policy q" "aging_rate ?q = aging_rate q"
    by (simp_all add: q1_def wq_peek_def Let_def)
  moreover have "snd ` set (heap ?q) \<subseteq> snd ` set (heap q)" using P(5) h' by auto
  ultimately show ?thesis using P(4) by (intro exI [of _ ?q]) simp
qed

lemma map_of_live: "wq_inv X st q \<Longrightarrow> map_of (live q) i = Some r \<Longrightarrow> seq_id (st r) = i"
  using wq_invD(6) by blast

lemma wq_remove_ok:
  assumes inv: "wq_inv X st q"
  shows "wq_inv X st (fst (wq_remove q i))"
    and "pending st (fst (wq_remove q i)) = filter (\<lambda>r. seq_id (st r) \<noteq> i) (pending st q)"
proof -
  note D = wq_invD [OF inv]
  let ?lv = "AList.delete i (live q)"
  show "wq_inv X st (fst (wq_remove q i))"
    using D unfolding wq_inv_def wq_remove_def by (simp add: dict_lookup)
  have "filter (is_live st ?lv) (heap q)
      = filter (\<lambda>e. seq_id (st (snd e)) \<noteq> i) (filter (is_live st (live q)) (heap q))"
    by (auto simp: is_live_def dict_lookup intro!: filter_cong split: if_splits)
  then show "pending st (fst (wq_remove q i)) = filter (\<lambda>r. seq_id (st r) \<noteq> i) (pending st q)"
    by (simp add: wq_remove_def pending_def filter_map comp_def)
qed

subsection \<open>Size and members\<close>

lemma set_pending:
  assumes inv: "wq_inv X st q"
  shows "r \<in> set (pending st q) \<longleftrightarrow> map_of (live q) (seq_id (st r)) = Some r"
proof
  assume "map_of (live q) (seq_id (st r)) = Some r"
  moreover from this have "r \<in> snd ` set (heap q)" using wq_invD(6) [OF inv] by blast
  ultimately show "r \<in> set (pending st q)" by (force simp: pending_def is_live_def)
qed (auto simp: pending_def is_live_def)

lemma distinct_pending: "wq_inv X st q \<Longrightarrow> distinct (pending st q)"
  using wq_invD(2) unfolding pending_def by (rule distinct_map_filter)

lemma wq_iter_pending:
  assumes inv: "wq_inv X st q"
  shows "mset (wq_iter q) = mset (pending st q)" and "wq_len q = int (length (pending st q))"
proof -
  note D = wq_invD [OF inv]
  have live: "(i, r) \<in> set (live q) \<longleftrightarrow> map_of (live q) i = Some r" for i r
    using D(3) by (simp add: dict_wf_def)
  have "map fst (live q) = map (\<lambda>r. seq_id (st r)) (map snd (live q))"
    using D(6) live by auto
  then have "distinct (map (\<lambda>r. seq_id (st r)) (map snd (live q)))"
    using D(3) by (simp only: dict_wf_def)
  then have "distinct (map snd (live q))" by (simp only: distinct_map)
  moreover have "r \<in> set (map snd (live q)) \<longleftrightarrow> r \<in> set (pending st q)" for r
  proof -
    have "r \<in> set (map snd (live q)) \<longleftrightarrow> (\<exists>i. map_of (live q) i = Some r)"
      unfolding live [symmetric] by force
    then show ?thesis using set_pending [OF inv, of r] D(6) by blast
  qed
  then have "set (map snd (live q)) = set (pending st q)" by blast
  ultimately show 1: "mset (wq_iter q) = mset (pending st q)"
    unfolding wq_iter_def using distinct_pending [OF inv] set_eq_iff_mset_eq_distinct by blast
  from mset_eq_length [OF 1] show "wq_len q = int (length (pending st q))"
    by (simp add: wq_iter_def wq_len_def)
qed

subsection \<open>Stores that agree on what the queue reads\<close>

definition seq_static :: "sequence \<Rightarrow> sequence \<Rightarrow> bool" where
  "seq_static a b \<longleftrightarrow> seq_id b = seq_id a \<and> prompt_token_ids b = prompt_token_ids a \<and>
     arrival_time b = arrival_time a \<and> priority b = priority a"

lemma seq_static_refl [simp]: "seq_static a a" by (simp add: seq_static_def)

lemma seq_static_trans: "seq_static a b \<Longrightarrow> seq_static b c \<Longrightarrow> seq_static a c"
  by (simp add: seq_static_def)

lemma queue_key_static: "seq_static a b \<Longrightarrow> queue_key X q b = queue_key X q a"
  by (cases "priority a") (simp_all add: seq_static_def queue_key_def priority_key_def num_prompt_tokens_def)

lemma wq_store_cong:
  assumes "\<And>r. r \<in> snd ` set (heap q) \<Longrightarrow> seq_static (st r) (st' r)"
  shows "wq_inv X st q \<Longrightarrow> wq_inv X st' q" and "pending st' q = pending st q"
proof -
  have st: "seq_id (st' (snd e)) = seq_id (st (snd e))" "queue_key X q (st' (snd e)) = queue_key X q (st (snd e))"
    if "e \<in> set (heap q)" for e
  proof -
    have s: "seq_static (st (snd e)) (st' (snd e))" using assms that by simp
    then show "seq_id (st' (snd e)) = seq_id (st (snd e))" by (simp add: seq_static_def)
    show "queue_key X q (st' (snd e)) = queue_key X q (st (snd e))" by (rule queue_key_static [OF s])
  qed
  have "filter (is_live st' (live q)) (heap q) = filter (is_live st (live q)) (heap q)"
    by (rule filter_cong) (simp_all add: is_live_def st(1))
  then show "pending st' q = pending st q" by (simp add: pending_def)
  have st'': "seq_id (st' r) = seq_id (st r)" if "r \<in> snd ` set (heap q)" for r
    using that st by auto
  show "wq_inv X st' q" if "wq_inv X st q"
    unfolding wq_inv_def
  proof (intro conjI allI impI ballI)
    fix i r assume "map_of (live q) i = Some r"
    then show "seq_id (st' r) = i" "r \<in> snd ` set (heap q)"
      using wq_invD(6) [OF that] st'' by blast+
  qed (use wq_invD(1-5) [OF that] st(2) in simp_all)
qed

section \<open>The heap is an admission queue\<close>

interpretation wq: admission_queue
  "\<lambda>q. wq_inv X st q \<and> policy q = policy q0 \<and> aging_rate q = aging_rate q0" "pending st"
  "\<lambda>r. queue_key X q0 (st r)" "wq_fresh st" "wq_push X st" "wq_pop st"
  for X :: externals and st :: seq_store and q0 :: wait_queue
proof unfold_locales
  have key: "queue_key X q s = queue_key X q0 s" if "policy q = policy q0" "aging_rate q = aging_rate q0" for q s
    using that by (simp add: queue_key_def)
  fix q assume inv: "wq_inv X st q \<and> policy q = policy q0 \<and> aging_rate q = aging_rate q0"
  note D = wq_invD [OF conjunct1 [OF inv]]
  have "sorted (map (\<lambda>e. fst (fst e)) (filter (is_live st (live q)) (heap q)))"
    using sorted_fst_fst [OF D(1)] by (rule sorted_filter)
  also have "map (\<lambda>e. fst (fst e)) (filter (is_live st (live q)) (heap q))
      = map (\<lambda>r. queue_key X q0 (st r)) (pending st q)"
    using D(4) key [of q] inv by (simp add: pending_def)
  finally show "sorted (map (\<lambda>r. queue_key X q0 (st r)) (pending st q))" .
  fix r rs
  show "wq_inv X st (wq_push X st q r) \<and> policy (wq_push X st q r) = policy q0 \<and>
      aging_rate (wq_push X st q r) = aging_rate q0" if "wq_fresh st q r"
    using wq_push_inv that inv by (simp add: wq_push_def)
  show "pending st (wq_push X st q r)
      = takeWhile (\<lambda>x. queue_key X q0 (st x) \<le> queue_key X q0 (st r)) (pending st q)
          @ r # dropWhile (\<lambda>x. queue_key X q0 (st x) \<le> queue_key X q0 (st r)) (pending st q)"
    if "wq_fresh st q r"
    using pending_push [of X st q r] that inv key [of q] by simp
  show "\<exists>q'. wq_pop st q = Inr (q', r) \<and>
      (wq_inv X st q' \<and> policy q' = policy q0 \<and> aging_rate q' = aging_rate q0) \<and> pending st q' = rs"
    if "pending st q = r # rs"
    using wq_pop_ok [of X st q r rs] that inv by auto
qed

end
