(* ===== verification/Page_Hashes.thy ===== *)
theory Page_Hashes
  imports Prefix_Cache
begin

text \<open>
  What the allocator's calls do to the hashes of the pages: only \<open>cache_full_blocks\<close> gives a page a hash,
  and a page that is handed out has none. So the pages of a sequence from its first one on that is not
  complete stay its own.
\<close>

section \<open>No page gets a hash\<close>

definition forgets :: "block_manager \<Rightarrow> block_manager \<Rightarrow> bool" where
  "forgets b b' \<longleftrightarrow> num_blocks b' = num_blocks b \<and>
     (\<forall>i < num_blocks b. \<forall>h. block_hash b' ! i = Some h \<longrightarrow> block_hash b ! i = Some h)"

lemma forgets_same: "num_blocks b' = num_blocks b \<Longrightarrow> block_hash b' = block_hash b \<Longrightarrow> forgets b b'"
  by (simp add: forgets_def)

lemma forgets_refl [simp]: "forgets b b" by (simp add: forgets_def)

lemma forgets_trans: "forgets a b \<Longrightarrow> forgets b c \<Longrightarrow> forgets a c"
  by (simp add: forgets_def)

lemma forgetsD: "forgets b b' \<Longrightarrow> i < num_blocks b \<Longrightarrow> block_hash b ! i = None \<Longrightarrow> block_hash b' ! i = None"
  unfolding forgets_def by (cases "block_hash b' ! i") auto

text \<open>The table of digests only shrinks.\<close>

lemma forgets_lookup:
  assumes "forgets b b'" and "bm_inv b M K" and "bm_inv b' M' K'" and "map_of (hash_to_block b') h = Some g"
  shows "map_of (hash_to_block b) h = Some g"
  using assms bm_invD(3) [OF assms(2)] bm_invD(3) [OF assms(3)] unfolding forgets_def
  by (simp add: cache_ok_lookup)

lemma take_success:
  assumes inv: "bm_inv b M K" and t: "take_free_block b = Inr (b', g)"
  shows "g \<notin># M" "bm_inv b' (add_mset g M) K" "forgets b b'" "block_hash b' ! g = None"
proof -
  have "0 < num_free_blocks b"
    using t by (auto simp: take_free_block_def num_free_blocks_def split: list.splits)
  then have T: "g \<notin># M \<and> bm_inv b' (add_mset g M) K \<and> gpu_frame b b'" using take_free_block_ok [OF inv] t by auto
  then show "g \<notin># M" "bm_inv b' (add_mset g M) K" by simp_all
  note D = bm_invD [OF inv]
  have "g < num_blocks b'" using T bm_inv_range [of b' "add_mset g M" K g] by simp
  then have g: "g < num_blocks b" using T by (simp add: gpu_frame_def bm_static_def)
  have "num_blocks b' = num_blocks b \<and> (block_hash b' = block_hash b \<and> block_hash b ! g = None \<or> block_hash b' = (block_hash b)[g := None])"
  proof (cases "free_blocks b")
    case (Cons x rest)
    with t D(9) [of g] show ?thesis by (auto simp: take_free_block_def result_simps)
  next
    case Nil
    with t show ?thesis
      by (auto simp: take_free_block_def result_simps list_set_def split: list.splits option.splits if_splits)
  qed
  with g D(6) show "forgets b b'" "block_hash b' ! g = None"
    by (auto simp: forgets_def nth_list_update split: if_splits)
qed

lemma draw_success:
  assumes "bm_inv b M K" and "draw take_free_block n b = Inr (b', gs)"
  shows "forgets b b' \<and> (\<forall>g \<in> set gs. block_hash b' ! g = None)"
  using assms
proof (induction n arbitrary: b M gs)
  case (Suc n)
  from Suc.prems(2) obtain b1 g gs' where d: "take_free_block b = Inr (b1, g)" "draw take_free_block n b1 = Inr (b', gs')"
    "gs = g # gs'" by (auto simp: result_simps)
  note T = take_success [OF Suc.prems(1) d(1)]
  note IH = Suc.IH [OF T(2) d(2)]
  have "g < num_blocks b1" using bm_inv_range [OF T(2), of g] by simp
  then have "block_hash b' ! g = None" using IH T(4) forgetsD by blast
  with IH T(3) d(3) show ?case by (auto intro: forgets_trans)
qed simp

lemma grow_success:
  assumes "bm_inv b M K" and "append_slots b q n = Inr (b', q\<lparr>block_table := block_table q @ blks\<rparr>)"
  shows "forgets b b'" "\<forall>g \<in> set blks. block_hash b' ! g = None"
proof -
  obtain gs where d: "draw take_free_block (nat (blocks_needed b q n)) b = Inr (b', gs)"
    "q\<lparr>block_table := block_table q @ blks\<rparr> = q\<lparr>block_table := block_table q @ gs\<rparr>"
    using assms(2) by (auto simp: append_slots_def grow_def result_simps)
  have "block_table (q\<lparr>block_table := block_table q @ blks\<rparr>) = block_table (q\<lparr>block_table := block_table q @ gs\<rparr>)"
    unfolding d(2) ..
  then have "blks = gs" by simp
  with draw_success [OF assms(1) d(1)] show "forgets b b'" "\<forall>g \<in> set blks. block_hash b' ! g = None" by simp_all
qed

section \<open>Calls that leave the hashes alone\<close>

lemma release_hashes:
  assumes "release_block b g = Inr b'"
  shows "block_hash b' = block_hash b \<and> num_blocks b' = num_blocks b"
  using assms by (auto simp: release_block_def Let_def result_simps split: if_splits)

lemma release_all_hashes: "foldM release_block b gs = Inr b' \<Longrightarrow> block_hash b' = block_hash b \<and> num_blocks b' = num_blocks b"
proof (induction gs arbitrary: b)
  case (Cons g gs)
  from Cons.prems obtain b1 where "release_block b g = Inr b1" "foldM release_block b1 gs = Inr b'" by (auto simp: result_simps)
  with Cons.IH release_hashes show ?case by metis
qed simp

lemma free_seq_hashes: "free_seq b q = Inr (b', q') \<Longrightarrow> block_hash b' = block_hash b \<and> num_blocks b' = num_blocks b"
  by (auto simp: free_seq_def result_simps dest: release_all_hashes)

lemma free_seq_forgets: "free_seq b q = Inr (b', q') \<Longrightarrow> forgets b b'"
  using free_seq_hashes forgets_same by blast

lemma swap_out_hashes:
  assumes "swap_out_seq b q = Inr (b', q', prs)"
  shows "forgets b b'"
proof -
  have one: "block_hash b2 = block_hash b1 \<and> num_blocks b2 = num_blocks b1"
    if "foldM swap_out_one (b1, q1, prs1) blks = Inr (b2, q2, prs2)" for b1 q1 prs1 blks b2 q2 prs2
    using that
  proof (induction blks arbitrary: b1 q1 prs1)
    case (Cons blk blks)
    from Cons.prems obtain st where s: "swap_out_one (b1, q1, prs1) blk = Inr st" "foldM swap_out_one st blks = Inr (b2, q2, prs2)"
      by (auto simp: result_simps)
    obtain b3 q3 prs3 where st: "st = (b3, q3, prs3)" by (cases st) auto
    have "block_hash b3 = block_hash b1 \<and> num_blocks b3 = num_blocks b1"
      using s(1) unfolding st by (auto simp: swap_out_one_def take_host_def result_simps)
    with Cons.IH s(2) st show ?case by simp
  qed simp
  obtain b1 q1 where "foldM swap_out_one (b, q, []) (block_table q) = Inr (b1, q1, prs)" "free_seq b1 q1 = Inr (b', q')"
    using assms by (auto simp: swap_out_seq_def result_simps)
  with one free_seq_hashes have "block_hash b' = block_hash b \<and> num_blocks b' = num_blocks b" by metis
  then show ?thesis by (simp add: forgets_same)
qed

lemma swap_in_hashes:
  assumes inv: "bm_inv b M (K + mset (cpu_block_table q))" and s: "swap_in_seq b q = Inr (b', q', prs)"
  shows "forgets b b'" "\<forall>g \<in> set (block_table q'). block_hash b' ! g = None"
proof -
  have loop: "forgets b1 b2 \<and> (\<forall>g \<in> set t2. block_hash b2 ! g = None)"
    if "foldM swap_in_one (b1, t, prs1) cs = Inr (b2, t2, prs2)" "bm_inv b1 M (K + mset cs)" "\<forall>g \<in> set t. block_hash b1 ! g = None \<and> g < num_blocks b1"
    for b1 t prs1 cs b2 t2 prs2 M
    using that
  proof (induction cs arbitrary: b1 t prs1 M)
    case (Cons c cs)
    from Cons.prems(1) obtain st where o: "swap_in_one (b1, t, prs1) c = Inr st" "foldM swap_in_one st cs = Inr (b2, t2, prs2)"
      by (auto simp: result_simps)
    from o(1) obtain b3 g b4 where 1: "take_free_block b1 = Inr (b3, g)" "give_host b3 c = Inr b4" "st = (b4, t @ [g], prs1 @ [(c, g)])"
      by (auto simp: swap_in_one_def result_simps)
    note T = take_success [OF Cons.prems(2) 1(1)]
    have "bm_inv b3 (add_mset g M) (add_mset c (K + mset cs))" using T(2) by simp
    then have inv4: "bm_inv b4 (add_mset g M) (K + mset cs)"
      using host.give_page [of b3 "add_mset g M" c "K + mset cs" b3] 1(2) by auto
    have b4: "block_hash b4 = block_hash b3" "num_blocks b4 = num_blocks b3" using 1(2) by (auto simp: give_host_def)
    have n: "num_blocks b3 = num_blocks b1" using T(3) by (simp add: forgets_def)
    have "g < num_blocks b3" using bm_inv_range [OF T(2), of g] by simp
    then have "\<forall>x \<in> set (t @ [g]). block_hash b4 ! x = None \<and> x < num_blocks b4"
      using Cons.prems(3) T(4) forgetsD [OF T(3)] b4 n by auto
    from Cons.IH [OF o(2) [unfolded 1(3)] inv4 this] have "forgets b4 b2 \<and> (\<forall>g \<in> set t2. block_hash b2 ! g = None)" .
    then show ?case using T(3) b4 forgets_trans forgets_same by metis
  qed simp
  obtain t where l: "foldM swap_in_one (b, [], []) (cpu_block_table q) = Inr (b', t, prs)"
    and q: "q' = q\<lparr>block_table := t, cpu_block_table := [], num_registered_blocks := 0\<rparr>"
    using s by (auto simp: swap_in_seq_def result_simps)
  from loop [OF l inv] q show "forgets b b'" "\<forall>g \<in> set (block_table q'). block_hash b' ! g = None" by simp_all
qed

lemma pin_hashes: "pin b g = Inr b' \<Longrightarrow> block_hash b' = block_hash b \<and> num_blocks b' = num_blocks b"
  by (auto simp: pin_def result_simps split: if_splits)

lemma pin_all_hashes: "foldM pin b gs = Inr b' \<Longrightarrow> block_hash b' = block_hash b \<and> num_blocks b' = num_blocks b"
proof (induction gs arbitrary: b)
  case (Cons g gs)
  from Cons.prems obtain b1 where "pin b g = Inr b1" "foldM pin b1 gs = Inr b'" by (auto simp: result_simps)
  with Cons.IH pin_hashes show ?case by metis
qed simp

lemma allocate_hashes:
  assumes inv: "bm_inv b M K" and hits: "\<forall>blk \<in> set cached. blk < num_blocks b \<and> block_hash b ! blk \<noteq> None"
    and a: "allocate b q n cached = Inr (b', q')"
  shows "forgets b b'" "\<exists>blks. block_table q' = cached @ blks \<and> (\<forall>g \<in> set blks. block_hash b' ! g = None)"
proof -
  obtain b1 where p: "foldM pin b cached = Inr b1" "bm_inv b1 (M + mset cached) K" using pin_all_ok [OF inv hits] by blast
  define q1 where "q1 = q\<lparr>block_table := cached, num_computed_tokens := int (length cached) * int (block_size b1),
      num_cached_tokens := int (length cached) * int (block_size b1), num_registered_blocks := length cached\<rparr>"
  define b2 where "b2 = (if enable_prefix_caching b1
      then b1\<lparr>prefix_query_tokens := prefix_query_tokens b1 + num_tokens q1,
              prefix_hit_tokens := prefix_hit_tokens b1 + num_computed_tokens q1\<rparr> else b1)"
  have g: "grow b2 q1 n = Inr (b', q')"
    using a p(1) by (auto simp: allocate_def Let_def result_simps b2_def q1_def)
  then obtain blks where d: "draw take_free_block (nat (blocks_needed b2 q1 n)) b2 = Inr (b', blks)"
    "q' = q1\<lparr>block_table := block_table q1 @ blks\<rparr>" by (auto simp: grow_def result_simps)
  have i2: "bm_inv b2 (M + mset cached) K" using p(2) by (auto simp: b2_def intro: bm_inv_static_cong)
  have h2: "block_hash b2 = block_hash b" "num_blocks b2 = num_blocks b"
    using pin_all_hashes [OF p(1)] by (simp_all add: b2_def)
  note D = draw_success [OF i2 d(1)]
  show "forgets b b'" using D forgets_trans [OF forgets_same [OF h2(2,1)]] by blast
  show "\<exists>blks. block_table q' = cached @ blks \<and> (\<forall>g \<in> set blks. block_hash b' ! g = None)"
    using D d(2) by (intro exI [of _ blks]) (simp add: q1_def)
qed

section \<open>Hits\<close>

text \<open>The pages \<open>cached_prefix\<close> returns carry the digests of the request's own tokens.\<close>

lemma cached_prefix_pages:
  assumes inv: "bm_inv b M K" and q: "hashes_ok X (block_size b) q" "token_ids q \<noteq> []"
    and k: "k < length (snd (cached_prefix X b q))"
  shows "Suc k * block_size b \<le> length (token_ids q)" "snd (cached_prefix X b q) ! k < num_blocks b"
    and "block_hash b ! (snd (cached_prefix X b q) ! k)
      = Some (block_digest X (block_size b) (token_ids q) (block_chain X (block_size b) (token_ids q) k))"
proof -
  let ?bs = "block_size b" and ?m = "reusable_blocks b q"
  have on: "enable_prefix_caching b" using k by (auto simp: cached_prefix_def split: if_splits)
  have pos: "0 < ?bs" by (rule bm_inv_block_size [OF inv])
  note hits = cached_prefix_chain(1) [OF q pos on]
  have km: "k < ?m"
    using k length_cached_hits [of "hash_to_block b" "block_chain X ?bs (token_ids q) ?m"] hits by simp
  then have "Suc k * ?bs \<le> ?m * ?bs" by (intro mult_right_mono) simp_all
  then show "Suc k * ?bs \<le> length (token_ids q)" using reusable_blocks_bound [OF pos, of q] by linarith
  have "map_of (hash_to_block b) (block_digest X ?bs (token_ids q) (block_chain X ?bs (token_ids q) k))
      = Some (snd (cached_prefix X b q) ! k)"
    using nth_cached_hits k hits nth_block_chain [OF km, of X ?bs "token_ids q"] by metis
  then show "snd (cached_prefix X b q) ! k < num_blocks b"
    "block_hash b ! (snd (cached_prefix X b q) ! k)
      = Some (block_digest X ?bs (token_ids q) (block_chain X ?bs (token_ids q) k))"
    using cache_ok_lookup [OF bm_invD(3) [OF inv]] by simp_all
qed

text \<open>A sequence that starts from hits: its computed tokens are complete pages that carry its digests.\<close>

definition cache_hits :: "externals \<Rightarrow> block_manager \<Rightarrow> sequence \<Rightarrow> bool" where
  "cache_hits X b q \<longleftrightarrow>
     num_computed_tokens q = int (num_registered_blocks q * block_size b) \<and> num_registered_blocks q \<le> length (block_table q) \<and>
     (\<not> enable_prefix_caching b \<longrightarrow> num_registered_blocks q = 0) \<and>
     (\<forall>k < num_registered_blocks q. Suc k * block_size b \<le> length (token_ids q) \<and> block_table q ! k < num_blocks b \<and>
        block_hash b ! (block_table q ! k)
          = Some (block_digest X (block_size b) (token_ids q) (block_chain X (block_size b) (token_ids q) k)))"

lemma cache_hits_frame:
  assumes f: "forgets b b'" and st: "bm_static b b'" and h: "cache_hits X b' q"
  shows "cache_hits X b q"
proof -
  have same: "block_size b' = block_size b" "num_blocks b' = num_blocks b" "enable_prefix_caching b' = enable_prefix_caching b"
    using st by (simp_all add: bm_static_def)
  note H = h [unfolded cache_hits_def same]
  have "block_hash b ! (block_table q ! k)
      = Some (block_digest X (block_size b) (token_ids q) (block_chain X (block_size b) (token_ids q) k))"
    if "k < num_registered_blocks q" for k
    using H that f by (simp add: forgets_def)
  with H show ?thesis unfolding cache_hits_def by blast
qed

lemma cached_prefix_cache_hits:
  assumes inv: "bm_inv b M K" and q0: "hashes_ok X (block_size b) q0" "token_ids q0 \<noteq> []"
    and c: "cached = snd (cached_prefix X b q0)"
    and q: "block_table q = cached @ blks" "num_computed_tokens q = int (length cached) * int (block_size b)"
      "token_ids q = token_ids q0" "num_registered_blocks q = length cached"
  shows "cache_hits X b q"
  unfolding cache_hits_def q(4)
proof (intro conjI allI impI)
  show "length cached = 0" if "\<not> enable_prefix_caching b" using that c by (simp add: cached_prefix_def)
  fix k assume k: "k < length cached"
  note P = cached_prefix_pages [OF inv q0 k [unfolded c]]
  have t: "block_table q ! k = snd (cached_prefix X b q0) ! k" using k q(1) c by (simp add: nth_append)
  show "Suc k * block_size b \<le> length (token_ids q)" using P(1) q(3) by simp
  show "block_table q ! k < num_blocks b" using P(2) t by simp
  show "block_hash b ! (block_table q ! k)
      = Some (block_digest X (block_size b) (token_ids q) (block_chain X (block_size b) (token_ids q) k))"
    using P(3) t q(3) by simp
qed (use q in simp_all)

section \<open>Pages of one's own\<close>

text \<open>
  The pages of a table from the first one on that was not looked up or published: they are in no other table
  and no table twice, and carry no hash.
\<close>

definition own_pages :: "block_manager \<Rightarrow> nat multiset \<Rightarrow> sequence \<Rightarrow> bool" where
  "own_pages b M q \<longleftrightarrow>
     (block_table q \<noteq> [] \<longrightarrow> num_registered_blocks q * block_size b \<le> nat (num_computed_tokens q)) \<and>
     (\<forall>k. num_registered_blocks q \<le> k \<and> k < length (block_table q) \<longrightarrow>
        count M (block_table q ! k) = 1 \<and> block_hash b ! (block_table q ! k) = None)"

lemma own_pagesD:
  assumes "own_pages b M q" and "num_registered_blocks q \<le> k" and "k < length (block_table q)"
  shows "count M (block_table q ! k) = 1" "block_hash b ! (block_table q ! k) = None" "block_table q ! k \<in># M"
  using assms by (auto simp: own_pages_def simp flip: count_greater_zero_iff)

text \<open>The page the next token goes to, and those behind it.\<close>

lemma own_pages_write:
  assumes own: "own_pages b M q" and k: "nat (num_computed_tokens q) div block_size b \<le> k" "k < length (block_table q)"
    and bs: "0 < block_size b"
  shows "num_registered_blocks q \<le> k"
proof -
  have "num_registered_blocks q * block_size b \<le> nat (num_computed_tokens q)" using own k(2) by (auto simp: own_pages_def)
  then have "num_registered_blocks q \<le> nat (num_computed_tokens q) div block_size b" using bs by (simp add: less_eq_div_iff_mult_less_eq)
  then show ?thesis using k(1) by simp
qed

lemma own_pages_table: "block_table q = [] \<Longrightarrow> own_pages b M q"
  by (simp add: own_pages_def)

lemma own_pages_cong:
  "own_pages b M q \<Longrightarrow> block_table q' = block_table q \<Longrightarrow> num_registered_blocks q' = num_registered_blocks q \<Longrightarrow>
     num_computed_tokens q \<le> num_computed_tokens q' \<Longrightarrow> own_pages b M q'"
  by (auto simp: own_pages_def)

lemma own_pages_frame:
  assumes own: "own_pages b M q" and inv: "bm_inv b M K" and f: "forgets b b'" "block_size b' = block_size b"
    and one: "\<And>g. g \<in> set (block_table q) \<Longrightarrow> count M g = 1 \<Longrightarrow> block_hash b ! g = None \<Longrightarrow> count M' g = 1"
  shows "own_pages b' M' q"
  unfolding own_pages_def
proof (intro conjI allI impI)
  fix k
  assume k: "num_registered_blocks q \<le> k \<and> k < length (block_table q)"
  note o = own_pagesD [OF own conjunct1 [OF k] conjunct2 [OF k]]
  have "block_table q ! k < num_blocks b" by (rule bm_inv_range [OF inv o(3)])
  then show "count M' (block_table q ! k) = 1" "block_hash b' ! (block_table q ! k) = None"
    using one [OF _ o(1,2)] forgetsD [OF f(1)] o(2) k by simp_all
qed (use own f(2) in \<open>simp add: own_pages_def\<close>)

text \<open>A neighbour's pages go or come.\<close>

lemma own_pages_gone:
  assumes "own_pages b (M + N) q" and "bm_inv b (M + N) K" and "forgets b b'" "block_size b' = block_size b"
    and "set (block_table q) \<subseteq> set_mset M"
  shows "own_pages b' M q"
proof (rule own_pages_frame [OF assms(1-4)])
  fix g
  assume g: "g \<in> set (block_table q)" "count (M + N) g = 1"
  then have "0 < count M g" using assms(5) by (auto simp: count_greater_zero_iff)
  then show "count M g = 1" using g(2) by (simp del: count_greater_zero_iff)
qed

lemma own_pages_more:
  assumes "own_pages b M q" and "bm_inv b M K" and "forgets b b'" "block_size b' = block_size b"
    and "\<And>g. g \<in># M \<Longrightarrow> block_hash b ! g = None \<Longrightarrow> g \<notin># N"
  shows "own_pages b' (M + N) q"
proof (rule own_pages_frame [OF assms(1-4)])
  fix g
  assume g: "count M g = 1" "block_hash b ! g = None"
  then have "g \<in># M" by (simp flip: count_greater_zero_iff)
  then have "count N g = 0" using assms(5) g(2) by (simp add: not_in_iff)
  then show "count (M + N) g = 1" using g(1) by simp
qed

text \<open>New pages at the end of the table.\<close>

lemma own_pages_fresh:
  assumes new: "distinct blks" "set blks \<inter> set_mset M = {}" "\<forall>g \<in> set blks. block_hash b' ! g = None"
    and g: "g \<in> set blks"
  shows "count (M + mset blks) g = 1 \<and> block_hash b' ! g = None"
proof -
  have "count M g = 0" using new(2) g by (auto simp: not_in_iff)
  moreover have "count (mset blks) g = 1" using g new(1) by (simp add: distinct_count_atmost_1)
  ultimately show ?thesis using g new(3) by simp
qed

lemma own_pages_grown:
  assumes own: "own_pages b M q" and inv: "bm_inv b M K" and f: "forgets b b'" "block_size b' = block_size b"
    and new: "distinct blks" "set blks \<inter> set_mset M = {}" "\<forall>g \<in> set blks. block_hash b' ! g = None"
    and q': "block_table q' = block_table q @ blks" "num_registered_blocks q' = num_registered_blocks q"
      "num_computed_tokens q' = num_computed_tokens q"
    and reg: "num_registered_blocks q * block_size b \<le> nat (num_computed_tokens q)"
  shows "own_pages b' (M + mset blks) q'"
  unfolding own_pages_def
proof (intro conjI allI impI)
  fix k
  assume k: "num_registered_blocks q' \<le> k \<and> k < length (block_table q')"
  have "count (M + mset blks) (block_table q' ! k) = 1 \<and> block_hash b' ! (block_table q' ! k) = None"
  proof (cases "k < length (block_table q)")
    case True
    have "own_pages b' (M + mset blks) q" by (rule own_pages_more [OF own inv f]) (use new(2) in auto)
    from own_pagesD [OF this _ True] k q' True show ?thesis by (simp add: nth_append)
  next
    case False
    then have g: "block_table q' ! k \<in> set blks" using k q'(1) by (auto simp: nth_append)
    then show ?thesis by (rule own_pages_fresh [OF new])
  qed
  then show "count (M + mset blks) (block_table q' ! k) = 1" "block_hash b' ! (block_table q' ! k) = None" by simp_all
qed (use reg f(2) q' in simp)

text \<open>A page of one's own is at one place only.\<close>

lemma count_once:
  assumes one: "count (mset xs + N) (xs ! k) = 1" and k: "k < length xs"
  shows "xs ! k \<notin># N" and "j < length xs \<Longrightarrow> xs ! j = xs ! k \<Longrightarrow> j = k"
proof -
  let ?g = "xs ! k"
  have "0 < count (mset xs) ?g" using k by (simp add: count_greater_zero_iff)
  then have c: "count (mset xs) ?g = 1" "count N ?g = 0" using one unfolding count_union by linarith+
  then show "?g \<notin># N" by (simp add: not_in_iff)
  assume j: "j < length xs" "xs ! j = ?g"
  show "j = k"
  proof (rule ccontr)
    assume ne: "j \<noteq> k"
    have "count_list xs ?g = length (filter ((=) ?g) xs)" by (simp add: count_list_eq_length_filter)
    also have "\<dots> = card {i. i < length xs \<and> ?g = xs ! i}" by (rule length_filter_conv_card)
    finally have "count_list xs ?g = card {i. i < length xs \<and> ?g = xs ! i}" .
    moreover have "card {j, k} \<le> card {i. i < length xs \<and> ?g = xs ! i}"
      by (rule card_mono) (use j k in auto)
    ultimately show False using ne c(1) by (simp add: count_mset)
  qed
qed

section \<open>Publishing complete pages\<close>

text \<open>What \<open>b'\<close> knows and \<open>b\<close> did not are digests of the first \<open>n\<close> pages of a table.\<close>

definition published :: "block_manager \<Rightarrow> block_manager \<Rightarrow> nat list \<Rightarrow> nat \<Rightarrow> (nat \<Rightarrow> bytes) \<Rightarrow> bool" where
  "published b b' t n d \<longleftrightarrow> num_blocks b' = num_blocks b \<and>
     (\<forall>i < num_blocks b. \<forall>h. block_hash b' ! i = Some h \<longrightarrow>
        block_hash b ! i = Some h \<or> (\<exists>j < n. j < length t \<and> i = t ! j \<and> h = d j))"

lemma published_refl [simp]: "published b b t n d" by (simp add: published_def)

lemma published_trans: "published a b t n d \<Longrightarrow> published b c t n d \<Longrightarrow> published a c t n d"
  unfolding published_def by metis

lemma publish_published:
  assumes "publish b (t ! j) (d j) = Inr b'" and "j < n" "j < length t" and "length (block_hash b) = num_blocks b"
  shows "published b b' t n d"
  using assms by (auto simp: publish_def published_def result_simps list_set_def nth_list_update split: if_splits)

lemma cache_full_blocks_published:
  assumes inv: "bm_inv b M K" and held: "set (block_table q) \<subseteq> set_mset M"
    and full: "num_computed_tokens q div int (block_size b) \<le> int (length (block_table q))"
    and ok: "hashes_ok X (block_size b) q" and le: "num_computed_tokens q \<le> num_tokens q"
    and c: "cache_full_blocks X b q = Inr (b', q')"
  shows "published b b' (block_table q) (num_registered_blocks q')
      (\<lambda>j. block_digest X (block_size b) (token_ids q) (block_chain X (block_size b) (token_ids q) j))"
    and "hashes_ok X (block_size b) q'"
    and "num_registered_blocks q' = num_registered_blocks q \<or>
      num_registered_blocks q' * block_size b \<le> nat (num_computed_tokens q)"
    and "num_registered_blocks q \<le> num_registered_blocks q'"
proof -
  let ?bs = "block_size b" and ?full = "num_computed_tokens q div int (block_size b)"
  let ?d = "\<lambda>j. block_digest X ?bs (token_ids q) (block_chain X ?bs (token_ids q) j)"
  let ?s1 = "extend_hashes X b q ?full"
  let ?f = "\<lambda>b' i. rbind (list_get (block_table ?s1) i) (\<lambda>blk. rbind (list_get (block_hashes ?s1) i) (\<lambda>h. publish b' blk h))"
  have bs: "0 < ?bs" by (rule bm_inv_block_size [OF inv])
  have n: "nat ?full = nat (num_computed_tokens q) div ?bs" by (simp add: nat_div_distrib')
  have "published b b' (block_table q) (num_registered_blocks q') ?d \<and> hashes_ok X ?bs q' \<and>
      (num_registered_blocks q' = num_registered_blocks q \<or> num_registered_blocks q' * ?bs \<le> nat (num_computed_tokens q)) \<and>
      num_registered_blocks q \<le> num_registered_blocks q'"
  proof (cases "\<not> enable_prefix_caching b \<or> ?full \<le> int (num_registered_blocks q)")
    case True
    then have "cache_full_blocks X b q = Inr (b, q)" by (auto simp: cache_full_blocks_def)
    with c ok show ?thesis by simp
  next
    case False
    then have pos: "0 < ?full" by linarith
    have "nat ?full * ?bs \<le> nat (num_computed_tokens q)" unfolding n by (rule div_times_less_eq_dividend)
    then have le': "nat ?full * ?bs \<le> length (token_ids q)" using le by (simp add: num_tokens_def)
    note H = extend_hashes_ok [OF ok le']
    have loop: "published c c' (block_table q) (nat ?full) ?d"
      if "foldM ?f c is = Inr c'" "bm_inv c M K" "enable_prefix_caching c" "\<forall>i \<in> set is. int i < ?full" for c c' "is"
      using that
    proof (induction "is" arbitrary: c)
      case (Cons i "is")
      from Cons.prems(1) obtain blk h c1 where f: "list_get (block_table ?s1) i = Inr blk"
          "list_get (block_hashes ?s1) i = Inr h" "publish c blk h = Inr c1" "foldM ?f c1 is = Inr c'"
        by (auto simp: result_simps)
      have i0: "int i < ?full" using Cons.prems(4) by simp
      then have i: "int i < ?full" "i < nat ?full" by linarith+
      have t: "i < length (block_table q)" "blk = block_table q ! i"
        using f(1) by (auto simp: list_get_def extend_hashes_def split: if_splits)
      have h: "h = ?d i" using f(2) i by (auto simp: list_get_def H(2) nth_block_chain split: if_splits)
      have "blk \<in># M" using held t nth_mem by blast
      then obtain c2 where "publish c blk h = Inr c2" "bm_inv c2 M K" "gpu_frame c c2"
        using publish_ok [OF Cons.prems(2) _ Cons.prems(3)] by blast
      then have inv1: "bm_inv c1 M K" "enable_prefix_caching c1"
        using f(3) Cons.prems(3) by (simp_all add: gpu_frame_def bm_static_def)
      have "published c c1 (block_table q) (nat ?full) ?d"
        by (rule publish_published [of c _ i]) (use f(3) t h i bm_invD(6) [OF Cons.prems(2)] in simp_all)
      moreover have "published c1 c' (block_table q) (nat ?full) ?d"
        by (rule Cons.IH [OF f(4) inv1]) (use Cons.prems(4) in simp)
      ultimately show ?case by (rule published_trans)
    qed simp
    from c False obtain b2 where b2: "foldM ?f b [num_registered_blocks ?s1..<nat ?full] = Inr b2"
        "b' = b2" "q' = ?s1\<lparr>num_registered_blocks := nat ?full\<rparr>"
      by (auto simp: cache_full_blocks_def Let_def result_simps)
    have "published b b2 (block_table q) (nat ?full) ?d"
      by (rule loop [OF b2(1) inv]) (use False in \<open>auto simp: zless_nat_eq_int_zless\<close>)
    with b2 H(1) n False show ?thesis by (auto simp: hashes_ok_def)
  qed
  then show "published b b' (block_table q) (num_registered_blocks q') ?d" "hashes_ok X ?bs q'"
    "num_registered_blocks q' = num_registered_blocks q \<or> num_registered_blocks q' * ?bs \<le> nat (num_computed_tokens q)"
    "num_registered_blocks q \<le> num_registered_blocks q'" by blast+
qed

text \<open>The pages not published stay one's own, and so do everybody else's.\<close>

lemma own_pages_published:
  assumes own: "own_pages b M q" and inv: "bm_inv b M K"
    and p: "published b b' t n d" and bs: "block_size b' = block_size b"
    and q': "block_table q' = block_table q" "num_registered_blocks q \<le> num_registered_blocks q'"
    and reg: "num_registered_blocks q' * block_size b \<le> nat (num_computed_tokens q')"
    and apart: "\<And>j k. j < n \<Longrightarrow> j < length t \<Longrightarrow> num_registered_blocks q' \<le> k \<Longrightarrow>
      k < length (block_table q) \<Longrightarrow> count M (block_table q ! k) = 1 \<Longrightarrow> block_table q ! k \<noteq> t ! j"
  shows "own_pages b' M q'"
  unfolding own_pages_def
proof (intro conjI allI impI)
  fix k
  assume k: "num_registered_blocks q' \<le> k \<and> k < length (block_table q')"
  have "num_registered_blocks q \<le> k" "k < length (block_table q)" using k q' by auto
  note o = own_pagesD [OF own this]
  have r: "block_table q ! k < num_blocks b" by (rule bm_inv_range [OF inv o(3)])
  show "count M (block_table q' ! k) = 1" using o(1) q'(1) by simp
  show "block_hash b' ! (block_table q' ! k) = None"
  proof (rule ccontr)
    assume "block_hash b' ! (block_table q' ! k) \<noteq> None"
    then obtain h where "block_hash b' ! (block_table q ! k) = Some h" using q'(1) by auto
    then obtain j where "j < n" "j < length t" "block_table q ! k = t ! j"
      using p r o(2) unfolding published_def by (metis option.distinct(1))
    then show False using apart [of j k] k o(1) q'(1) by simp
  qed
qed (use reg bs in simp)

end
