(* ===== verification/Scheduler_Inv.thy ===== *)
theory Scheduler_Inv
  imports Scheduler Waiting_Queue_Inv Block_Manager_Check Page_Hashes
begin

text \<open>
  The invariant of the scheduler: every live sequence is in exactly one queue, in the state that
  queue stands for, and the pages of the queues' tables are exactly the allocator's pages in use.
  \<open>p r\<close> is the number of tokens sequence \<open>r\<close> computes in the iteration under way (0 between
  iterations), and \<open>xs\<close> lists sequences taken out of their queue and not yet put into another.
\<close>

section \<open>Pages of a queue\<close>

definition pages :: "(sequence \<Rightarrow> nat list) \<Rightarrow> seq_store \<Rightarrow> sref list \<Rightarrow> nat multiset" where
  "pages f st rs = mset (concat (map (\<lambda>r. f (st r)) rs))"

lemma pages_simps [simp]:
  "pages f st [] = {#}" "pages f st (r # rs) = mset (f (st r)) + pages f st rs"
  "pages f st (rs @ rs') = pages f st rs + pages f st rs'"
  by (simp_all add: pages_def)

lemma pages_upd [simp]: "r \<notin> set rs \<Longrightarrow> pages f (st(r := q)) rs = pages f st rs"
  by (induction rs) auto

lemma pages_upd_same [simp]: "f q = f (st r) \<Longrightarrow> pages f (st(r := q)) rs = pages f st rs"
  by (induction rs) auto

lemma pages_remove1: "r \<in> set rs \<Longrightarrow> pages f st rs = mset (f (st r)) + pages f st (remove1 r rs)"
  by (induction rs) (auto simp: ac_simps)

lemma pages_member: "r \<in> set rs \<Longrightarrow> set (f (st r)) \<subseteq> set_mset (pages f st rs)"
  by (induction rs) auto

lemma pages_sum: "pages f st rs = (\<Sum>r\<in>#mset rs. mset (f (st r)))"
  by (induction rs) simp_all

lemma pages_mset: "mset rs = mset rs' \<Longrightarrow> pages f st rs = pages f st rs'"
  by (simp add: pages_sum)

lemma pages_empty: "(\<And>r. r \<in> set rs \<Longrightarrow> f (st r) = []) \<Longrightarrow> pages f st rs = {#}"
  by (induction rs) auto

section \<open>States of a sequence\<close>

text \<open>A live request: its token list is prompt plus output, and it still has output to produce.\<close>

definition live_ok :: "int \<Rightarrow> sequence \<Rightarrow> bool" where
  "live_ok L q \<longleftrightarrow> tokens_consistent q \<and> prompt_token_ids q \<noteq> [] \<and>
     num_prompt_tokens q + max_tokens (sampling_params_of q) \<le> L \<and>
     num_output_tokens q < max_tokens (sampling_params_of q)"

definition running_ok :: "bool \<Rightarrow> nat \<Rightarrow> int \<Rightarrow> sequence \<Rightarrow> bool" where
  "running_ok chunk bs n q \<longleftrightarrow>
     status q = RUNNING \<and> cpu_block_table q = [] \<and> 0 \<le> num_computed_tokens q \<and> 0 \<le> n \<and>
     1 \<le> num_computed_tokens q + n \<and> num_computed_tokens q + n \<le> num_tokens q \<and>
     (n = 0 \<longrightarrow> num_computed_tokens q < num_tokens q \<and>
                (\<not> chunk \<longrightarrow> num_computed_tokens q + 1 = num_tokens q)) \<and>
     (0 < n \<and> \<not> chunk \<longrightarrow> num_computed_tokens q + n = num_tokens q) \<and>
     int (length (block_table q)) = ceil_div (num_computed_tokens q + n) bs"

definition swapped_ok :: "bool \<Rightarrow> nat \<Rightarrow> sequence \<Rightarrow> bool" where
  "swapped_ok chunk bs q \<longleftrightarrow>
     status q = PREEMPTED \<and> block_table q = [] \<and> cpu_block_table q \<noteq> [] \<and>
     1 \<le> num_computed_tokens q \<and> num_computed_tokens q < num_tokens q \<and>
     (\<not> chunk \<longrightarrow> num_computed_tokens q + 1 = num_tokens q) \<and>
     int (length (cpu_block_table q)) = ceil_div (num_computed_tokens q) bs"

definition idle_ok :: "seq_status \<Rightarrow> sequence \<Rightarrow> bool" where
  "idle_ok stat q \<longleftrightarrow>
     status q = stat \<and> block_table q = [] \<and> cpu_block_table q = [] \<and> num_computed_tokens q = 0"

section \<open>The invariant\<close>

definition queue_list :: "scheduler \<Rightarrow> sref list \<Rightarrow> sref list" where
  "queue_list s xs = running s @ swapped s @ preempted s @ pending (store s) (waiting s) @ xs"

definition pages_inv :: "scheduler \<Rightarrow> sref list \<Rightarrow> bool" where
  "pages_inv s xs \<longleftrightarrow> bm_inv (bm s) (pages block_table (store s) (running s @ xs))
                            (pages cpu_block_table (store s) (swapped s @ xs))"

definition queues_inv :: "externals \<Rightarrow> scheduler \<Rightarrow> sref list \<Rightarrow> bool" where
  "queues_inv X s xs \<longleftrightarrow>
     wq_inv X (store s) (waiting s) \<and> distinct (queue_list s xs) \<and> dict_wf (seqs s) \<and>
     (\<forall>i r. map_of (seqs s) i = Some r \<longleftrightarrow> r \<in> set (queue_list s xs) \<and> seq_id (store s r) = i)"

definition seqs_inv :: "scheduler \<Rightarrow> (sref \<Rightarrow> int) \<Rightarrow> bool" where
  "seqs_inv s p \<longleftrightarrow>
     (\<forall>r \<in> set (running s). running_ok (chunked s) (sch_block_size s) (p r) (store s r)) \<and>
     (\<forall>r \<in> set (swapped s). swapped_ok (chunked s) (sch_block_size s) (store s r)) \<and>
     (\<forall>r \<in> set (preempted s). idle_ok PREEMPTED (store s r)) \<and>
     (\<forall>r \<in> set (pending (store s) (waiting s)). idle_ok WAITING (store s r))"

definition live_inv :: "scheduler \<Rightarrow> sref list \<Rightarrow> bool" where
  "live_inv s xs \<longleftrightarrow> (\<forall>r \<in> set (queue_list s xs). live_ok (max_model_len s) (store s r))"

text \<open>
  The pages a running sequence still writes to are its own and not in the prefix cache, and the digests kept
  in a sequence are those of its tokens.
\<close>

definition cache_inv :: "externals \<Rightarrow> scheduler \<Rightarrow> sref list \<Rightarrow> bool" where
  "cache_inv X s xs \<longleftrightarrow>
     (\<forall>r \<in> set (running s @ xs). own_pages (bm s) (pages block_table (store s) (running s @ xs)) (store s r)) \<and>
     (\<forall>r \<in> set (queue_list s xs). hashes_ok X (block_size (bm s)) (store s r))"

text \<open>What \<open>EngineConfig.resolve\<close> guarantees and the constructor sets.\<close>

definition conf_ok :: "scheduler \<Rightarrow> bool" where
  "conf_ok s \<longleftrightarrow>
     sch_block_size s = block_size (bm s) \<and> 0 \<le> watermark_blocks (bm s) \<and> 0 < max_num_seqs s \<and>
     0 < max_batch_tokens s \<and>
     (if chunked s then max_num_seqs s \<le> max_batch_tokens s else max_model_len s \<le> max_batch_tokens s)"

definition sinv :: "externals \<Rightarrow> scheduler \<Rightarrow> (sref \<Rightarrow> int) \<Rightarrow> sref list \<Rightarrow> bool" where
  "sinv X s p xs \<longleftrightarrow> pages_inv s xs \<and> queues_inv X s xs \<and> seqs_inv s p \<and> live_inv s xs \<and> conf_ok s \<and>
     int (length (running s)) \<le> max_num_seqs s \<and> cache_inv X s xs"

lemma sinvD:
  assumes "sinv X s p xs"
  shows "pages_inv s xs" "queues_inv X s xs" "seqs_inv s p" "live_inv s xs" "conf_ok s"
    and "int (length (running s)) \<le> max_num_seqs s" "cache_inv X s xs"
  using assms by (simp_all add: sinv_def)

lemma sinvI:
  "pages_inv s xs \<Longrightarrow> queues_inv X s xs \<Longrightarrow> seqs_inv s p \<Longrightarrow> live_inv s xs \<Longrightarrow> conf_ok s \<Longrightarrow>
     int (length (running s)) \<le> max_num_seqs s \<Longrightarrow> cache_inv X s xs \<Longrightarrow> sinv X s p xs"
  by (simp add: sinv_def)

lemma queues_invD:
  assumes "queues_inv X s xs"
  shows "wq_inv X (store s) (waiting s)" "distinct (queue_list s xs)" "dict_wf (seqs s)"
    and "map_of (seqs s) i = Some r \<longleftrightarrow> r \<in> set (queue_list s xs) \<and> seq_id (store s r) = i"
  using assms by (simp_all add: queues_inv_def)

lemma seqs_invD:
  assumes "seqs_inv s p"
  shows "r \<in> set (running s) \<Longrightarrow> running_ok (chunked s) (sch_block_size s) (p r) (store s r)"
    and "r \<in> set (swapped s) \<Longrightarrow> swapped_ok (chunked s) (sch_block_size s) (store s r)"
    and "r \<in> set (preempted s) \<Longrightarrow> idle_ok PREEMPTED (store s r)"
    and "r \<in> set (pending (store s) (waiting s)) \<Longrightarrow> idle_ok WAITING (store s r)"
  using assms by (simp_all add: seqs_inv_def)

lemma cache_invD:
  assumes "cache_inv X s xs"
  shows "r \<in> set (running s @ xs) \<Longrightarrow> own_pages (bm s) (pages block_table (store s) (running s @ xs)) (store s r)"
    and "r \<in> set (queue_list s xs) \<Longrightarrow> hashes_ok X (block_size (bm s)) (store s r)"
  using assms by (simp_all add: cache_inv_def)

lemma live_invD: "live_inv s xs \<Longrightarrow> r \<in> set (queue_list s xs) \<Longrightarrow> live_ok (max_model_len s) (store s r)"
  by (simp add: live_inv_def)

subsection \<open>What scheduling never changes\<close>

text \<open>The tokens, the text and the identity of a request.\<close>

definition gen_same :: "sequence \<Rightarrow> sequence \<Rightarrow> bool" where
  "gen_same a b \<longleftrightarrow> seq_static a b \<and> sampling_params_of b = sampling_params_of a \<and>
     output_token_ids b = output_token_ids a \<and> token_ids b = token_ids a \<and>
     output_text b = output_text a \<and> num_emitted_chars b = num_emitted_chars a \<and>
     detokenizer b = detokenizer a \<and> first_token_time b = first_token_time a"

lemma gen_same_refl [simp]: "gen_same a a" by (simp add: gen_same_def)

lemma gen_same_trans: "gen_same a b \<Longrightarrow> gen_same b c \<Longrightarrow> gen_same a c"
  by (simp add: gen_same_def seq_static_def)

lemma gen_same_static: "gen_same a b \<Longrightarrow> seq_static a b" by (simp add: gen_same_def)

lemma gen_same_num: "gen_same a b \<Longrightarrow> num_tokens b = num_tokens a"
  by (simp add: gen_same_def num_tokens_def)

lemma gen_same_live: "gen_same a b \<Longrightarrow> live_ok L b = live_ok L a"
  by (simp add: gen_same_def seq_static_def live_ok_def tokens_consistent_def num_prompt_tokens_def
      num_output_tokens_def)

definition conf_same :: "scheduler \<Rightarrow> scheduler \<Rightarrow> bool" where
  "conf_same s s' \<longleftrightarrow> sch_block_size s' = sch_block_size s \<and> chunked s' = chunked s \<and>
     max_num_seqs s' = max_num_seqs s \<and> max_batch_tokens s' = max_batch_tokens s \<and>
     max_model_len s' = max_model_len s \<and> preemption_mode s' = preemption_mode s \<and>
     eos_ids s' = eos_ids s \<and> bm_static (bm s) (bm s') \<and>
     policy (waiting s') = policy (waiting s) \<and> aging_rate (waiting s') = aging_rate (waiting s) \<and>
     snd ` set (heap (waiting s')) \<subseteq> snd ` set (heap (waiting s)) \<and> set (seqs s') \<subseteq> set (seqs s)"

lemma set_dict_delete [simp]: "set (AList.delete k d) \<subseteq> set d"
  by (auto simp: AList.delete_eq)

text \<open>
  Scheduling reports an output only for a request it drops from the dictionary, and drops only requests it
  leaves finished.
\<close>

definition drops_finished :: "scheduler \<Rightarrow> scheduler \<Rightarrow> bool" where
  "drops_finished s s' \<longleftrightarrow>
     (\<forall>r. is_finished (store s r) \<longrightarrow> is_finished (store s' r)) \<and>
     (\<forall>i r. (i, r) \<in> set (seqs s) \<longrightarrow> (i, r) \<in> set (seqs s') \<or> is_finished (store s' r))"

lemma drops_finished_refl [simp]: "drops_finished s s" by (simp add: drops_finished_def)

lemma drops_finished_trans: "drops_finished a b \<Longrightarrow> drops_finished b c \<Longrightarrow> drops_finished a c"
  unfolding drops_finished_def by blast

lemma drops_finished_same [simp]:
  "store s' = store s \<Longrightarrow> seqs s' = seqs s \<Longrightarrow> drops_finished s s'"
  by (simp add: drops_finished_def)

lemma drops_finished_upd:
  "store s' = (store s)(r := q) \<Longrightarrow> seqs s' = seqs s \<Longrightarrow> is_finished q = is_finished (store s r) \<or> \<not> is_finished (store s r) \<Longrightarrow>
     drops_finished s s'"
  by (auto simp: drops_finished_def)

lemma drops_finished_drop:
  assumes "dict_wf (seqs s)" and "map_of (seqs s) k = Some r" and "store s' = (store s)(r := q)"
    and "seqs s' = AList.delete k (seqs s)" and "is_finished q"
  shows "drops_finished s s'"
proof -
  have "x = r" if "(k, x) \<in> set (seqs s)" for x
    using assms(1,2) that map_of_is_SomeI [of "seqs s" k x] by (simp add: dict_wf_def)
  then show ?thesis using assms(3-5) by (auto simp: drops_finished_def AList.delete_eq)
qed

lemma drops_finished_queues [simp]:
  "drops_finished (s\<lparr>running := x\<rparr>) s' = drops_finished s s'"
  "drops_finished (s\<lparr>swapped := x\<rparr>) s' = drops_finished s s'"
  "drops_finished (s\<lparr>preempted := x\<rparr>) s' = drops_finished s s'"
  by (simp_all add: drops_finished_def)

definition sched_frame :: "scheduler \<Rightarrow> scheduler \<Rightarrow> bool" where
  "sched_frame s s' \<longleftrightarrow> conf_same s s' \<and> (\<forall>r. gen_same (store s r) (store s' r)) \<and>
     (outputs s' \<noteq> outputs s \<longrightarrow> set (seqs s') \<noteq> set (seqs s)) \<and> drops_finished s s' \<and>
     forgets (bm s) (bm s')"

lemma conf_same_refl [simp]: "conf_same s s" by (simp add: conf_same_def)

lemma conf_same_trans: "conf_same a b \<Longrightarrow> conf_same b c \<Longrightarrow> conf_same a c"
  unfolding conf_same_def by (simp, meson bm_static_trans subset_trans)

lemma sched_frame_refl [simp]: "sched_frame s s" by (simp add: sched_frame_def)

lemma sched_frame_trans: "sched_frame a b \<Longrightarrow> sched_frame b c \<Longrightarrow> sched_frame a c"
  unfolding sched_frame_def
proof (elim conjE, intro conjI allI impI)
  assume c: "conf_same a b" "conf_same b c"
  then show "conf_same a c" by (rule conf_same_trans)
  assume o: "outputs b \<noteq> outputs a \<longrightarrow> set (seqs b) \<noteq> set (seqs a)" "outputs c \<noteq> outputs b \<longrightarrow> set (seqs c) \<noteq> set (seqs b)"
    and "outputs c \<noteq> outputs a"
  have "set (seqs c) \<subseteq> set (seqs b)" "set (seqs b) \<subseteq> set (seqs a)" using c by (simp_all add: conf_same_def)
  then show "set (seqs c) \<noteq> set (seqs a)" using o \<open>outputs c \<noteq> outputs a\<close> by (metis subset_antisym)
next
  fix r assume "\<forall>r. gen_same (store a r) (store b r)" "\<forall>r. gen_same (store b r) (store c r)"
  then show "gen_same (store a r) (store c r)" using gen_same_trans by blast
qed (blast intro: drops_finished_trans forgets_trans)+

lemma sched_frame_num: "sched_frame s s' \<Longrightarrow> num_tokens (store s' r) = num_tokens (store s r)"
  using gen_same_num by (simp add: sched_frame_def)

lemma conf_ok_same: "conf_same s s' \<Longrightarrow> conf_ok s \<Longrightarrow> conf_ok s'"
  by (simp add: conf_same_def conf_ok_def bm_static_def)

subsection \<open>Moving a sequence between queues\<close>

lemma queues_inv_move:
  assumes "queues_inv X s xs" and "wq_inv X (store s') (waiting s')"
    and "mset (queue_list s' ys) = mset (queue_list s xs)" and "seqs s' = seqs s"
    and "\<And>r. seq_id (store s' r) = seq_id (store s r)"
  shows "queues_inv X s' ys"
  unfolding queues_inv_def
proof (intro conjI allI)
  note D = queues_invD [OF assms(1)]
  show "distinct (queue_list s' ys)"
    using mset_eq_imp_distinct_iff [OF assms(3)] D(2) by blast
  show "map_of (seqs s') i = Some r \<longleftrightarrow> r \<in> set (queue_list s' ys) \<and> seq_id (store s' r) = i" for i r
    using D(4) [of i r] unfolding assms(4,5) mset_eq_setD [OF assms(3)] .
qed (use assms(2,4) queues_invD(3) [OF assms(1)] in simp_all)

lemma queues_inv_drop:
  assumes q: "queues_inv X s (r # xs)" and "wq_inv X (store s') (waiting s')"
    and m: "mset (queue_list s' xs) = mset (queue_list s xs)"
    and "seqs s' = AList.delete (seq_id (store s r)) (seqs s)"
    and id: "\<And>r. seq_id (store s' r) = seq_id (store s r)"
  shows "queues_inv X s' xs"
proof -
  note D = queues_invD [OF q]
  have all: "set (queue_list s (r # xs)) = insert r (set (queue_list s xs))"
    and r: "r \<notin> set (queue_list s xs)" and d: "distinct (queue_list s xs)"
    using D(2) by (auto simp: queue_list_def)
  have uniq: "x = r" if "x \<in> set (queue_list s (r # xs))" "seq_id (store s x) = seq_id (store s r)" for x
  proof -
    have "map_of (seqs s) (seq_id (store s r)) = Some x" using D(4) that by blast
    moreover have "map_of (seqs s) (seq_id (store s r)) = Some r" using D(4) all by blast
    ultimately show ?thesis by simp
  qed
  have "map_of (seqs s') i = Some x \<longleftrightarrow> x \<in> set (queue_list s xs) \<and> seq_id (store s x) = i" for i x
  proof (cases "i = seq_id (store s r)")
    case True
    then have "map_of (seqs s') i = None" by (simp add: assms(4) dict_lookup)
    with True uniq [of x] all r show ?thesis by auto
  next
    case False
    then have "map_of (seqs s') i = map_of (seqs s) i" by (simp add: assms(4) dict_lookup)
    with False D(4) [of i x] all show ?thesis by auto
  qed
  moreover have "distinct (queue_list s' xs)" using mset_eq_imp_distinct_iff [OF m] d by blast
  ultimately show ?thesis
    using assms(2,4) D(3) unfolding queues_inv_def id mset_eq_setD [OF m] by simp
qed

lemma live_inv_move:
  assumes "live_inv s xs" and "set (queue_list s' ys) \<subseteq> set (queue_list s xs)"
    and "conf_same s s'" and "\<And>r. gen_same (store s r) (store s' r)"
  shows "live_inv s' ys"
proof -
  have "live_ok (max_model_len s') (store s' r) = live_ok (max_model_len s) (store s r)" for r
    using assms(3) gen_same_live [OF assms(4)] by (simp add: conf_same_def)
  with assms(1,2) show ?thesis unfolding live_inv_def by blast
qed

lemma pending_upd:
  assumes "seq_static (st r) q"
  shows "pending (st(r := q)) w = pending st w" and "wq_inv X st w \<Longrightarrow> wq_inv X (st(r := q)) w"
  by (rule wq_store_cong; use assms in simp)+

lemma blocks_for_conf: "conf_ok s \<Longrightarrow> blocks_for (bm s) n = ceil_div n (sch_block_size s)"
  by (simp add: conf_ok_def blocks_for_def)

end
