(* ===== verification/Scheduler_Moves.thy ===== *)
theory Scheduler_Moves
  imports Scheduler_Inv
begin

text \<open>
  The elementary moves all scheduler handlers are made of, each proved to keep the invariant:
  taking a sequence out of its queue (\<open>sinv_take\<close>), putting it into another (\<open>sinv_put\<close>), dropping
  it for good (\<open>sinv_drop\<close>), and changing bookkeeping fields no queue depends on (\<open>sinv_touch\<close>).
\<close>

lemma queue_list_simps: "queue_list s xs = running s @ swapped s @ preempted s @ pending (store s) (waiting s) @ xs"
  by (rule queue_list_def)

lemma sinv_distinct:
  assumes "sinv X s p xs"
  shows "distinct (running s @ swapped s @ preempted s @ pending (store s) (waiting s) @ xs)"
  using queues_invD(2) [OF sinvD(2) [OF assms]] by (simp only: queue_list_def)

lemma sinv_detached:
  assumes "sinv X s p [r]"
  shows "r \<notin> set (running s)" "r \<notin> set (swapped s)" "r \<notin> set (preempted s)"
    and "r \<notin> set (pending (store s) (waiting s))"
  using sinv_distinct [OF assms] by auto

lemma queued_alive:
  assumes inv: "sinv X s p []" and r: "r \<in> set (queue_list s [])"
  shows "\<not> is_finished (store s r)"
  using seqs_invD [OF sinvD(3) [OF inv], of r] r
  by (auto simp: queue_list_def is_finished_def running_ok_def swapped_ok_def idle_ok_def)

lemma sinv_live: "sinv X s p xs \<Longrightarrow> r \<in> set (queue_list s xs) \<Longrightarrow> live_ok (max_model_len s) (store s r)"
  by (rule live_invD [OF sinvD(4)])

lemma sinv_wq: "sinv X s p xs \<Longrightarrow> wq_inv X (store s) (waiting s)"
  using queues_invD(1) sinvD(2) by blast

section \<open>Taking a sequence out of its queue\<close>

lemma sinv_take:
  assumes inv: "sinv X s p []"
    and same: "store s' = store s" "bm s' = bm s" "seqs s' = seqs s" "conf_same s s'"
    and w: "wq_inv X (store s) (waiting s')"
    and m: "mset (r # queue_list s' []) = mset (queue_list s [])"
    and sub: "mset (running s') \<subseteq># mset (running s)" "set (swapped s') \<subseteq> set (swapped s)"
      "set (preempted s') \<subseteq> set (preempted s)"
      "set (pending (store s) (waiting s')) \<subseteq> set (pending (store s) (waiting s))"
    and pg: "pages block_table (store s) (running s' @ [r]) = pages block_table (store s) (running s)"
      "pages cpu_block_table (store s) (swapped s' @ [r]) = pages cpu_block_table (store s) (swapped s)"
    and was: "r \<in> set (running s) \<or> block_table (store s r) = []"
  shows "sinv X s' p [r]"
proof (rule sinvI)
  note D = sinvD [OF inv]
  have m': "mset (queue_list s' [r]) = mset (queue_list s [])"
    using m by (simp add: queue_list_def same(1))
  show "pages_inv s' [r]"
    using D(1) pg unfolding pages_inv_def same(1,2) append_Nil2 by simp
  show "queues_inv X s' [r]"
    by (rule queues_inv_move [OF D(2)]) (use m' w same in simp_all)
  have rs: "set (running s') \<subseteq> set (running s)" using sub(1) by (metis set_mset_mono set_mset_mset)
  show "seqs_inv s' p"
    using D(3) rs sub(2-4) same(4) unfolding seqs_inv_def conf_same_def same(1) by fastforce
  show "live_inv s' [r]"
    by (rule live_inv_move [OF D(4)]) (use mset_eq_setD [OF m'] same in auto)
  show "conf_ok s'" by (rule conf_ok_same [OF same(4) D(5)])
  have "length (running s') \<le> length (running s)" using size_mset_mono [OF sub(1)] by simp
  then show "int (length (running s')) \<le> max_num_seqs s'"
    using D(6) same(4) by (simp add: conf_same_def)
  have "own_pages (bm s) (pages block_table (store s) (running s)) (store s x)" if "x \<in> set (running s' @ [r])" for x
    using that was rs cache_invD(1) [OF D(7), of x] own_pages_table by auto
  then show "cache_inv X s' [r]"
    using cache_invD(2) [OF D(7)] mset_eq_setD [OF m'] pg(1) by (simp add: cache_inv_def same)
qed

lemma conf_same_queues [simp]:
  "conf_same s (s\<lparr>running := rs\<rparr>)" "conf_same s (s\<lparr>swapped := rs\<rparr>)" "conf_same s (s\<lparr>preempted := rs\<rparr>)"
  "set d \<subseteq> set (seqs s) \<Longrightarrow> conf_same s (s\<lparr>seqs := d\<rparr>)"
  by (simp_all add: conf_same_def)

lemma sinv_take_running:
  assumes inv: "sinv X s p []" and m: "mset (running s) = add_mset r (mset rs)"
  shows "sinv X (s\<lparr>running := rs\<rparr>) p [r]"
proof (rule sinv_take [OF inv])
  have r: "r \<in> set (running s)" using m by (metis set_mset_mset union_single_eq_member)
  have "cpu_block_table (store s r) = []"
    using seqs_invD(1) [OF sinvD(3) [OF inv] r] by (simp add: running_ok_def)
  then show "pages cpu_block_table (store s) (swapped (s\<lparr>running := rs\<rparr>) @ [r])
      = pages cpu_block_table (store s) (swapped s)" by simp
  have "mset (running s) = mset (rs @ [r])" using m by simp
  then show "pages block_table (store s) (running (s\<lparr>running := rs\<rparr>) @ [r])
      = pages block_table (store s) (running s)"
    by (intro pages_mset) simp
  show "mset (r # queue_list (s\<lparr>running := rs\<rparr>) []) = mset (queue_list s [])"
    using m by (simp add: queue_list_def)
  show "mset (running (s\<lparr>running := rs\<rparr>)) \<subseteq># mset (running s)" using m by simp
  show "r \<in> set (running s) \<or> block_table (store s r) = []" using r by blast
qed (use sinv_wq [OF inv] in simp_all)

lemma sinv_take_swapped:
  assumes inv: "sinv X s p []" and m: "mset (swapped s) = add_mset r (mset rs)"
  shows "sinv X (s\<lparr>swapped := rs\<rparr>) p [r]"
proof (rule sinv_take [OF inv])
  have sets: "set (swapped s) = insert r (set rs)" using m by (metis set_mset_add_mset_insert set_mset_mset)
  have "mset (swapped s) = mset (rs @ [r])" using m by simp
  then show "pages cpu_block_table (store s) (swapped (s\<lparr>swapped := rs\<rparr>) @ [r])
      = pages cpu_block_table (store s) (swapped s)"
    by (intro pages_mset) simp
  show "set (swapped (s\<lparr>swapped := rs\<rparr>)) \<subseteq> set (swapped s)" using sets by auto
  have t: "block_table (store s r) = []"
    using seqs_invD(2) [OF sinvD(3) [OF inv], of r] sets by (simp add: swapped_ok_def)
  then show "r \<in> set (running s) \<or> block_table (store s r) = []" by blast
  from t show "pages block_table (store s) (running (s\<lparr>swapped := rs\<rparr>) @ [r])
      = pages block_table (store s) (running s)" by simp
  show "mset (r # queue_list (s\<lparr>swapped := rs\<rparr>) []) = mset (queue_list s [])"
    by (simp add: queue_list_def m)
qed (use sinv_wq [OF inv] in simp_all)

lemma idle_no_pages:
  "idle_ok st q \<Longrightarrow> block_table q = []" "idle_ok st q \<Longrightarrow> cpu_block_table q = []"
  by (simp_all add: idle_ok_def)

lemma sinv_take_preempted:
  assumes inv: "sinv X s p []" and m: "mset (preempted s) = add_mset r (mset rs)"
  shows "sinv X (s\<lparr>preempted := rs\<rparr>) p [r]"
proof (rule sinv_take [OF inv])
  have sets: "set (preempted s) = insert r (set rs)" using m by (metis set_mset_add_mset_insert set_mset_mset)
  then show "set (preempted (s\<lparr>preempted := rs\<rparr>)) \<subseteq> set (preempted s)" by auto
  have i: "idle_ok PREEMPTED (store s r)" using seqs_invD(3) [OF sinvD(3) [OF inv], of r] sets by simp
  then show "r \<in> set (running s) \<or> block_table (store s r) = []" using idle_no_pages by blast
  from i show "pages block_table (store s) (running (s\<lparr>preempted := rs\<rparr>) @ [r])
      = pages block_table (store s) (running s)"
    "pages cpu_block_table (store s) (swapped (s\<lparr>preempted := rs\<rparr>) @ [r])
      = pages cpu_block_table (store s) (swapped s)"
    using idle_no_pages by auto
  show "mset (r # queue_list (s\<lparr>preempted := rs\<rparr>) []) = mset (queue_list s [])"
    by (simp add: queue_list_def m)
qed (use sinv_wq [OF inv] in auto)

lemma sinv_take_waiting:
  assumes inv: "sinv X s p []" and pop: "wq_pop (store s) (waiting s) = Inr (q, r)"
    and pend: "pending (store s) (waiting s) = r # rs"
  shows "sinv X (s\<lparr>waiting := q\<rparr>) p [r]" and "sched_frame s (s\<lparr>waiting := q\<rparr>)"
proof -
  have q: "wq_inv X (store s) q" "pending (store s) q = rs" "policy q = policy (waiting s)"
      "aging_rate q = aging_rate (waiting s)" "snd ` set (heap q) \<subseteq> snd ` set (heap (waiting s))"
    using wq_pop_ok [OF sinv_wq [OF inv] pend] pop by auto
  have c: "conf_same s (s\<lparr>waiting := q\<rparr>)" using q by (simp add: conf_same_def)
  then show "sched_frame s (s\<lparr>waiting := q\<rparr>)" by (simp add: sched_frame_def)
  have "idle_ok WAITING (store s r)" using seqs_invD(4) [OF sinvD(3) [OF inv], of r] pend by simp
  then show "sinv X (s\<lparr>waiting := q\<rparr>) p [r]"
    by (intro sinv_take [OF inv _ _ _ c]) (use q pend idle_no_pages in \<open>auto simp: queue_list_def\<close>)
qed

section \<open>Putting it into a queue\<close>

lemma sinv_put:
  assumes inv: "sinv X s p [r]"
    and st: "store s' = (store s)(r := q)" and g: "gen_same (store s r) q" and c: "conf_same s s'"
    and w: "waiting s' = waiting s" and sq: "seqs s' = seqs s"
    and put: "running s' = running s @ [r] \<and> swapped s' = swapped s \<and> preempted s' = preempted s \<and>
          running_ok (chunked s) (sch_block_size s) (p' r) q \<and> int (length (running s)) < max_num_seqs s
        \<or> running s' = running s \<and> swapped s' = r # swapped s \<and> preempted s' = preempted s \<and>
          swapped_ok (chunked s) (sch_block_size s) q
        \<or> running s' = running s \<and> swapped s' = swapped s \<and> preempted s' = r # preempted s \<and>
          idle_ok PREEMPTED q"
    and p: "\<forall>x \<in> set (running s). p' x = p x"
    and pg: "bm_inv (bm s') (pages block_table (store s) (running s) + mset (block_table q))
               (pages cpu_block_table (store s) (swapped s) + mset (cpu_block_table q))"
    and outs: "outputs s' = outputs s" and alive: "\<not> is_finished (store s r)"
    and h: "forgets (bm s) (bm s')" "block_hashes q = block_hashes (store s r)"
    and own: "own_pages (bm s') (pages block_table (store s) (running s) + mset (block_table q)) q"
      "\<And>x. x \<in> set (running s) \<Longrightarrow> own_pages (bm s') (pages block_table (store s) (running s) + mset (block_table q)) (store s x)"
  shows "sinv X s' p' [] \<and> sched_frame s s'"
proof -
  note D = sinvD [OF inv] and out = sinv_detached [OF inv]
  have gs: "gen_same (store s x) (store s' x)" for x using g st by simp
  have f: "sched_frame s s'" using gs c outs drops_finished_upd [OF st sq] alive h(1) by (simp add: sched_frame_def)
  have pend: "pending (store s') (waiting s') = pending (store s) (waiting s)"
    using pending_upd(1) [of "store s" r q] g st w by (simp add: gen_same_static)
  have m: "mset (queue_list s' []) = mset (queue_list s [r])"
    using put by (auto simp: queue_list_def pend)
  have cf: "chunked s' = chunked s" "sch_block_size s' = sch_block_size s" "max_num_seqs s' = max_num_seqs s"
    using c by (simp_all add: conf_same_def)
  have other: "store s' x = store s x" if "x \<noteq> r" for x using st that by simp
  have "pages_inv s' []"
    using put pg out by (auto simp: pages_inv_def st running_ok_def swapped_ok_def idle_ok_def ac_simps)
  moreover have "queues_inv X s' []"
  proof (rule queues_inv_move [OF D(2) _ m sq])
    show "wq_inv X (store s') (waiting s')"
      using pending_upd(2) [OF gen_same_static [OF g] sinv_wq [OF inv]] st w by simp
    show "seq_id (store s' x) = seq_id (store s x)" for x
      using g st by (simp add: gen_same_def seq_static_def)
  qed
  moreover have "seqs_inv s' p'"
    unfolding seqs_inv_def cf pend
  proof (intro conjI ballI)
    fix x
    show "running_ok (chunked s) (sch_block_size s) (p' x) (store s' x)" if "x \<in> set (running s')"
      using that put out p seqs_invD(1) [OF D(3), of x] by (cases "x = r") (auto simp: st)
    show "swapped_ok (chunked s) (sch_block_size s) (store s' x)" if "x \<in> set (swapped s')"
      using that put out seqs_invD(2) [OF D(3), of x] by (cases "x = r") (auto simp: st)
    show "idle_ok PREEMPTED (store s' x)" if "x \<in> set (preempted s')"
      using that put out seqs_invD(3) [OF D(3), of x] by (cases "x = r") (auto simp: st)
    show "idle_ok WAITING (store s' x)" if "x \<in> set (pending (store s) (waiting s))"
      using that out seqs_invD(4) [OF D(3), of x] by (cases "x = r") (auto simp: st)
  qed
  moreover have "live_inv s' []"
    by (rule live_inv_move [OF D(4) _ c gs]) (use mset_eq_setD [OF m] in simp)
  moreover have "conf_ok s'" by (rule conf_ok_same [OF c D(5)])
  moreover have "int (length (running s')) \<le> max_num_seqs s'"
    using put D(6) cf by auto
  moreover have "cache_inv X s' []"
  proof -
    have "pages block_table (store s') (running s') = pages block_table (store s) (running s) + mset (block_table q)"
      using put out by (auto simp: st swapped_ok_def idle_ok_def)
    moreover have "own_pages (bm s') (pages block_table (store s) (running s) + mset (block_table q)) (store s' x)"
      if "x \<in> set (running s')" for x
      using that put own by (cases "x = r") (auto simp: st)
    moreover have "hashes_ok X (block_size (bm s')) (store s' x)" if "x \<in> set (queue_list s' [])" for x
      using that cache_invD(2) [OF D(7), of x] mset_eq_setD [OF m] gs [of x] c h(2)
      by (cases "x = r") (auto simp: st gen_same_def hashes_ok_def conf_same_def bm_static_def)
    ultimately show ?thesis by (simp add: cache_inv_def)
  qed
  ultimately show ?thesis using f by (simp add: sinvI)
qed

text \<open>The other tables when pages are handed back, or fresh ones or hits handed out.\<close>

lemma others_own_fewer:
  assumes inv: "sinv X s p [r]" and f: "forgets (bm s) b'" "block_size b' = block_size (bm s)"
    and x: "x \<in> set (running s)"
  shows "own_pages b' (pages block_table (store s) (running s)) (store s x)"
proof (rule own_pages_gone [OF _ _ f])
  show "own_pages (bm s) (pages block_table (store s) (running s) + mset (block_table (store s r))) (store s x)"
    using cache_invD(1) [OF sinvD(7) [OF inv], of x] x by simp
  show "bm_inv (bm s) (pages block_table (store s) (running s) + mset (block_table (store s r)))
      (pages cpu_block_table (store s) (swapped s @ [r]))"
    using sinvD(1) [OF inv] by (simp add: pages_inv_def)
qed (rule pages_member [OF x])

lemma others_own_more:
  assumes inv: "sinv X s p [r]" and "block_table (store s r) = []"
    and f: "forgets (bm s) b'" "block_size b' = block_size (bm s)" and x: "x \<in> set (running s)"
    and new: "\<And>g. g \<in># pages block_table (store s) (running s) \<Longrightarrow> block_hash (bm s) ! g = None \<Longrightarrow> g \<notin># N"
  shows "own_pages b' (pages block_table (store s) (running s) + N) (store s x)"
proof (rule own_pages_more [OF _ _ f new])
  show "own_pages (bm s) (pages block_table (store s) (running s)) (store s x)"
    using cache_invD(1) [OF sinvD(7) [OF inv], of x] x assms(2) by simp
  show "bm_inv (bm s) (pages block_table (store s) (running s)) (pages cpu_block_table (store s) (swapped s @ [r]))"
    using sinvD(1) [OF inv] assms(2) by (simp add: pages_inv_def)
qed

section \<open>Dropping it\<close>

lemma sinv_drop:
  assumes inv: "sinv X s p [r]"
    and st: "store s' = (store s)(r := q)" and g: "seq_static (store s r) q" and c: "conf_same s s'"
    and w: "waiting s' = waiting s" and sq: "seqs s' = AList.delete (seq_id (store s r)) (seqs s)"
    and qs: "running s' = running s" "swapped s' = swapped s" "preempted s' = preempted s"
    and pg: "bm_inv (bm s') (pages block_table (store s) (running s))
               (pages cpu_block_table (store s) (swapped s))"
    and own: "\<And>x. x \<in> set (running s) \<Longrightarrow> own_pages (bm s') (pages block_table (store s) (running s)) (store s x)"
  shows "sinv X s' p []"
proof -
  note D = sinvD [OF inv] and out = sinv_detached [OF inv]
  have pend: "pending (store s') (waiting s') = pending (store s) (waiting s)"
    using pending_upd(1) [of "store s" r q] g st w by simp
  have ql: "queue_list s' [] = queue_list s []"
    by (simp add: queue_list_def pend qs)
  have cf: "chunked s' = chunked s" "sch_block_size s' = sch_block_size s" "max_num_seqs s' = max_num_seqs s"
      "max_model_len s' = max_model_len s"
    using c by (simp_all add: conf_same_def)
  have other: "store s' x = store s x" if "x \<in> set (queue_list s [])" for x
    using that out st by (auto simp: queue_list_def)
  have "pages_inv s' []"
    using pg out by (simp add: pages_inv_def st qs)
  moreover have "queues_inv X s' []"
  proof (rule queues_inv_drop [OF D(2) _ _ sq])
    show "wq_inv X (store s') (waiting s')"
      using pending_upd(2) [OF g sinv_wq [OF inv]] st w by simp
    show "seq_id (store s' x) = seq_id (store s x)" for x
      using g st by (simp add: seq_static_def)
  qed (simp add: ql)
  moreover have "seqs_inv s' p"
    using D(3) other unfolding seqs_inv_def cf pend qs queue_list_def by simp
  moreover have "live_inv s' []"
    using D(4) other unfolding live_inv_def cf ql by (auto simp: queue_list_def)
  moreover have "conf_ok s'" by (rule conf_ok_same [OF c D(5)])
  moreover have "int (length (running s')) \<le> max_num_seqs s'"
    using D(6) cf qs by simp
  moreover have "cache_inv X s' []"
  proof -
    have bs: "block_size (bm s') = block_size (bm s)" using c by (simp add: conf_same_def bm_static_def)
    have "pages block_table (store s') (running s') = pages block_table (store s) (running s)"
      using out by (simp add: st qs)
    moreover have "own_pages (bm s') (pages block_table (store s) (running s)) (store s' x)" if "x \<in> set (running s')" for x
      using own [of x] that other [of x] by (simp add: qs queue_list_def)
    moreover have "hashes_ok X (block_size (bm s')) (store s' x)" if "x \<in> set (queue_list s' [])" for x
    proof -
      have x: "x \<in> set (queue_list s [])" using that ql by simp
      then have "x \<in> set (queue_list s [r])" by (auto simp: queue_list_def)
      from cache_invD(2) [OF D(7) this] show ?thesis using other [OF x] bs by simp
    qed
    ultimately show ?thesis by (simp add: cache_inv_def)
  qed
  ultimately show ?thesis by (rule sinvI)
qed

section \<open>Bookkeeping fields\<close>

definition same_state :: "sequence \<Rightarrow> sequence \<Rightarrow> bool" where
  "same_state a b \<longleftrightarrow> gen_same a b \<and> status b = status a \<and> block_table b = block_table a \<and>
     cpu_block_table b = cpu_block_table a \<and> num_computed_tokens b = num_computed_tokens a \<and>
     num_registered_blocks b = num_registered_blocks a"

lemma same_state_ok:
  assumes "same_state a b"
  shows "running_ok ch bs n b = running_ok ch bs n a" "swapped_ok ch bs b = swapped_ok ch bs a"
    and "idle_ok st b = idle_ok st a"
  using assms gen_same_num [of a b]
  by (simp_all add: same_state_def running_ok_def swapped_ok_def idle_ok_def)

lemma sinv_touch:
  assumes inv: "sinv X s p xs" and st: "store s' = (store s)(r := q)" and g: "same_state (store s r) q"
    and same: "waiting s' = waiting s" "seqs s' = seqs s" "running s' = running s"
      "swapped s' = swapped s" "preempted s' = preempted s" "conf_same s s'"
    and b: "bm s' = bm s" and hx: "hashes_ok X (block_size (bm s)) q"
    and outs: "outputs s' = outputs s"
  shows "sinv X s' p xs \<and> sched_frame s s'"
proof -
  note D = sinvD [OF inv]
  have gs: "gen_same (store s r) q" and tables: "block_table q = block_table (store s r)"
      "cpu_block_table q = cpu_block_table (store s r)"
    using g by (simp_all add: same_state_def)
  have all: "gen_same (store s x) (store s' x)" for x using gs st by simp
  have "is_finished q = is_finished (store s r)" using g by (simp add: same_state_def is_finished_def)
  then have f: "sched_frame s s'" using b all same(2,6) outs drops_finished_upd [OF st same(2)] by (simp add: sched_frame_def)
  have pend: "pending (store s') (waiting s') = pending (store s) (waiting s)"
    using pending_upd(1) [of "store s" r q] gen_same_static [OF gs] st same(1) by simp
  have ql: "queue_list s' xs = queue_list s xs"
    by (simp add: queue_list_def pend same(3-5))
  have cf: "chunked s' = chunked s" "sch_block_size s' = sch_block_size s" "max_num_seqs s' = max_num_seqs s"
    using same(6) by (simp_all add: conf_same_def)
  have ok: "running_ok ch bs n (store s' x) = running_ok ch bs n (store s x)"
      "swapped_ok ch bs (store s' x) = swapped_ok ch bs (store s x)"
      "idle_ok stat (store s' x) = idle_ok stat (store s x)" for ch bs n x stat
    using same_state_ok [OF g] st by (cases "x = r"; simp)+
  have "pages_inv s' xs"
    using D(1) by (simp add: pages_inv_def st same tables b)
  moreover have "queues_inv X s' xs"
  proof (rule queues_inv_move [OF D(2)])
    show "wq_inv X (store s') (waiting s')"
      using pending_upd(2) [of "store s" r q] gen_same_static [OF gs] sinv_wq [OF inv] st same(1) by simp
    show "seq_id (store s' x) = seq_id (store s x)" for x
      using gs st by (simp add: gen_same_def seq_static_def)
  qed (simp_all add: ql same)
  moreover have "seqs_inv s' p"
    using D(3) unfolding seqs_inv_def cf pend same(3-5) ok .
  moreover have "live_inv s' xs" by (rule live_inv_move [OF D(4) _ same(6) all]) (simp add: ql)
  moreover have "conf_ok s'" by (rule conf_ok_same [OF same(6) D(5)])
  moreover have "int (length (running s')) \<le> max_num_seqs s'" using D(6) cf same by simp
  moreover have "cache_inv X s' xs"
  proof -
    have pg: "pages block_table (store s') (running s @ xs) = pages block_table (store s) (running s @ xs)"
      unfolding st by (rule pages_upd_same) (rule tables)
    have "own_pages (bm s) (pages block_table (store s) (running s @ xs)) (store s' x)" if "x \<in> set (running s @ xs)" for x
    proof (cases "x = r")
      case True
      then have "own_pages (bm s) (pages block_table (store s) (running s @ xs)) (store s r)"
        using cache_invD(1) [OF D(7) that] by simp
      then have "own_pages (bm s) (pages block_table (store s) (running s @ xs)) q"
        by (rule own_pages_cong) (use g in \<open>simp_all add: same_state_def\<close>)
      then show ?thesis using True by (simp add: st)
    qed (use cache_invD(1) [OF D(7) that] in \<open>simp add: st\<close>)
    moreover have "hashes_ok X (block_size (bm s)) (store s' x)" if "x \<in> set (queue_list s xs)" for x
      using cache_invD(2) [OF D(7) that] hx by (simp add: st)
    ultimately show ?thesis unfolding cache_inv_def same(3) b ql pg by blast
  qed
  ultimately show ?thesis using f by (simp add: sinvI)
qed

end
