(* ===== verification/Scheduler_Ops.thy ===== *)
theory Scheduler_Ops
  imports Scheduler_Moves
begin

text \<open>
  The handlers that move one sequence: preemption, failure, taking the admission candidate. Under
  the invariant none of them raises, and each keeps it.
\<close>

section \<open>Preemption\<close>

text \<open>What preempting others does not change of the batch.\<close>

definition batch_same :: "scheduled_batch \<Rightarrow> scheduled_batch \<Rightarrow> bool" where
  "batch_same b b' \<longleftrightarrow> b_seqs b' = b_seqs b \<and> num_new_tokens b' = num_new_tokens b \<and>
     do_sample b' = do_sample b \<and> swap_in b' = swap_in b \<and> batch_num_tokens b' = batch_num_tokens b \<and>
     num_decode_tokens b' = num_decode_tokens b"

lemma batch_same_refl [simp]: "batch_same b b" by (simp add: batch_same_def)

lemma batch_same_trans: "batch_same a b \<Longrightarrow> batch_same b c \<Longrightarrow> batch_same a c"
  by (simp add: batch_same_def)

definition pushed_back :: "scheduler \<Rightarrow> scheduler \<Rightarrow> sref \<Rightarrow> bool" where
  "pushed_back s s' r \<longleftrightarrow>
     swapped s' = r # swapped s \<and> preempted s' = preempted s
   \<or> swapped s' = swapped s \<and> preempted s' = r # preempted s"

lemma preempt_ok:
  assumes inv: "sinv X s p [r]" and run: "running_ok (chunked s) (sch_block_size s) 0 (store s r)"
  shows "\<exists>s' b'. preempt s r b = Inr (s', b') \<and> sinv X s' p [] \<and> sched_frame s s' \<and>
     running s' = running s \<and> waiting s' = waiting s \<and> outputs s' = outputs s \<and>
     (\<forall>x. x \<noteq> r \<longrightarrow> store s' x = store s x) \<and> batch_same b b' \<and>
     num_preempted b' = num_preempted b + 1 \<and> pushed_back s s' r"
proof -
  note D = sinvD [OF inv]
  define q where "q = (store s r)\<lparr>seq_num_preemptions := seq_num_preemptions (store s r) + 1,
      status := PREEMPTED\<rparr>"
  define s1 where "s1 = (set_seq s r q)\<lparr>num_preemptions := num_preemptions s + 1\<rparr>"
  let ?M = "pages block_table (store s) (running s)" and ?K = "pages cpu_block_table (store s) (swapped s)"
  have bminv: "bm_inv (bm s) (?M + mset (block_table q)) ?K"
    using D(1) run by (simp add: pages_inv_def q_def running_ok_def)
  have len: "int (length (block_table q)) = ceil_div (num_computed_tokens q) (sch_block_size s)"
    and comp: "1 \<le> num_computed_tokens q" "num_computed_tokens q < num_tokens q"
      "\<not> chunked s \<Longrightarrow> num_computed_tokens q + 1 = num_tokens q" and cpu: "cpu_block_table q = []"
    using run by (simp_all add: running_ok_def q_def num_tokens_def)
  have bs: "0 < sch_block_size s"
    using D(5) bm_inv_block_size [OF bminv] by (simp add: conf_ok_def)
  then have ne: "block_table q \<noteq> []"
    using ceil_div_pos [of "sch_block_size s" "num_computed_tokens q"] comp(1) len by auto
  show ?thesis
  proof (cases "preemption_mode s = ''swap'' \<and> can_swap_out (bm s) q")
    case True
    then obtain bm' cs where sw: "swap_out_seq (bm s) q = Inr (bm', q\<lparr>cpu_block_table := cs, block_table := [],
          num_registered_blocks := 0\<rparr>, zip (block_table q) cs)"
        "length cs = length (block_table q)" "bm_inv bm' ?M (?K + mset cs)" "bm_static (bm s) bm'"
      using swap_out_seq_ok [OF bminv] cpu by auto
    let ?q = "q\<lparr>cpu_block_table := cs, block_table := [], num_registered_blocks := 0\<rparr>"
    let ?s = "(set_seq s1 r ?q)\<lparr>bm := bm', swapped := r # swapped s1, num_swap_outs := num_swap_outs s1 + 1\<rparr>"
    have run_eq: "preempt s r b = Inr (?s, b\<lparr>num_preempted := num_preempted b + 1,
        swap_out := swap_out b @ zip (block_table q) cs\<rparr>)"
      using True sw(1) by (simp add: preempt_def Let_def q_def s1_def set_seq_def)
    have "sinv X ?s p [] \<and> sched_frame s ?s"
    proof (rule sinv_put [OF inv, of ?s ?q])
      show "store ?s = (store s)(r := ?q)" by (simp add: s1_def set_seq_def)
      show "gen_same (store s r) ?q" by (simp add: q_def gen_same_def seq_static_def)
      show "outputs ?s = outputs s" by (simp add: s1_def set_seq_def)
      show "\<not> is_finished (store s r)" using run by (simp add: running_ok_def is_finished_def)
      show "conf_same s ?s" using sw(4) by (simp add: conf_same_def s1_def set_seq_def)
      have "swapped_ok (chunked s) (sch_block_size s) ?q"
        using len comp ne sw(2) by (auto simp: swapped_ok_def q_def num_tokens_def)
      then show "running ?s = running s @ [r] \<and> swapped ?s = swapped s \<and> preempted ?s = preempted s \<and>
          running_ok (chunked s) (sch_block_size s) (p r) ?q \<and> int (length (running s)) < max_num_seqs s
        \<or> running ?s = running s \<and> swapped ?s = r # swapped s \<and> preempted ?s = preempted s \<and>
          swapped_ok (chunked s) (sch_block_size s) ?q
        \<or> running ?s = running s \<and> swapped ?s = swapped s \<and> preempted ?s = r # preempted s \<and>
          idle_ok PREEMPTED ?q"
        by (simp add: s1_def set_seq_def)
      show "bm_inv (bm ?s) (?M + mset (block_table ?q)) (?K + mset (cpu_block_table ?q))"
        using sw(3) by simp
      show f: "forgets (bm s) (bm ?s)" using swap_out_hashes [OF sw(1)] by simp
      have "block_size (bm ?s) = block_size (bm s)" using sw(4) by (simp add: bm_static_def)
      then show "own_pages (bm ?s) (?M + mset (block_table ?q)) (store s x)" if "x \<in> set (running s)" for x
        using others_own_fewer [OF inv f _ that] by simp
    qed (simp_all add: s1_def set_seq_def q_def own_pages_table)
    then show ?thesis
      unfolding run_eq by (auto simp: s1_def set_seq_def batch_same_def pushed_back_def)
  next
    case False
    obtain bm' where fr: "free_seq (bm s) q = Inr (bm', q\<lparr>block_table := [], num_registered_blocks := 0\<rparr>)"
        "bm_inv bm' ?M ?K" "gpu_frame (bm s) bm'"
      using free_seq_ok [OF bminv] by blast
    let ?q = "q\<lparr>block_table := [], num_registered_blocks := 0, num_computed_tokens := 0\<rparr>"
    let ?s = "(set_seq s1 r ?q)\<lparr>bm := bm', preempted := r # preempted s1\<rparr>"
    have run_eq: "preempt s r b = Inr (?s, b\<lparr>num_preempted := num_preempted b + 1\<rparr>)"
      using False fr(1) unfolding preempt_def Let_def q_def s1_def set_seq_def by auto
    have "sinv X ?s p [] \<and> sched_frame s ?s"
    proof (rule sinv_put [OF inv, of ?s ?q])
      show "store ?s = (store s)(r := ?q)" by (simp add: s1_def set_seq_def)
      show "gen_same (store s r) ?q" by (simp add: q_def gen_same_def seq_static_def)
      show "outputs ?s = outputs s" by (simp add: s1_def set_seq_def)
      show "\<not> is_finished (store s r)" using run by (simp add: running_ok_def is_finished_def)
      show "conf_same s ?s" using fr(3) by (simp add: conf_same_def s1_def set_seq_def gpu_frame_def)
      have "idle_ok PREEMPTED ?q" using cpu by (simp add: idle_ok_def q_def)
      then show "running ?s = running s @ [r] \<and> swapped ?s = swapped s \<and> preempted ?s = preempted s \<and>
          running_ok (chunked s) (sch_block_size s) (p r) ?q \<and> int (length (running s)) < max_num_seqs s
        \<or> running ?s = running s \<and> swapped ?s = r # swapped s \<and> preempted ?s = preempted s \<and>
          swapped_ok (chunked s) (sch_block_size s) ?q
        \<or> running ?s = running s \<and> swapped ?s = swapped s \<and> preempted ?s = r # preempted s \<and>
          idle_ok PREEMPTED ?q"
        by (simp add: s1_def set_seq_def)
      show "bm_inv (bm ?s) (?M + mset (block_table ?q)) (?K + mset (cpu_block_table ?q))"
        using fr(2) cpu by simp
      show f: "forgets (bm s) (bm ?s)" using free_seq_forgets [OF fr(1)] by simp
      have "block_size (bm ?s) = block_size (bm s)" using fr(3) by (simp add: gpu_frame_def bm_static_def)
      then show "own_pages (bm ?s) (?M + mset (block_table ?q)) (store s x)" if "x \<in> set (running s)" for x
        using others_own_fewer [OF inv f _ that] by simp
    qed (simp_all add: s1_def set_seq_def q_def own_pages_table)
    then show ?thesis
      unfolding run_eq by (auto simp: s1_def set_seq_def batch_same_def pushed_back_def)
  qed
qed

section \<open>Failure\<close>

lemma update_same: "block_table q = [] \<Longrightarrow> q\<lparr>block_table := []\<rparr> = q"
  "cpu_block_table q = [] \<Longrightarrow> q\<lparr>cpu_block_table := []\<rparr> = q"
  by (cases q; simp)+

definition released :: "sequence \<Rightarrow> sequence" where
  "released q = q\<lparr>block_table := [], cpu_block_table := [],
     num_registered_blocks := (if block_table q = [] then num_registered_blocks q else 0)\<rparr>"

lemma release_all_ok:
  assumes inv: "bm_inv b (M + mset (block_table q)) (K + mset (cpu_block_table q))"
  shows "\<exists>b'. release_all b q = Inr (b', released q) \<and> bm_inv b' M K \<and> bm_static b b' \<and> forgets b b'"
proof -
  define q1 where "q1 = q\<lparr>block_table := [],
     num_registered_blocks := (if block_table q = [] then num_registered_blocks q else 0)\<rparr>"
  have "\<exists>b1. (if block_table q \<noteq> [] then free_seq b q else Inr (b, q)) = Inr (b1, q1) \<and>
      bm_inv b1 M (K + mset (cpu_block_table q1)) \<and> bm_static b b1 \<and> forgets b b1"
  proof (cases "block_table q = []")
    case True
    then have "q1 = q" by (simp add: q1_def update_same)
    with True inv show ?thesis by simp
  next
    case False
    obtain b1 where "free_seq b q = Inr (b1, q\<lparr>block_table := [], num_registered_blocks := 0\<rparr>)"
        "bm_inv b1 M (K + mset (cpu_block_table q))" "gpu_frame b b1"
      using free_seq_ok [OF inv] by blast
    with False free_seq_forgets show ?thesis by (auto simp: q1_def gpu_frame_static)
  qed
  then obtain b1 where 1: "(if block_table q \<noteq> [] then free_seq b q else Inr (b, q)) = Inr (b1, q1)"
      "bm_inv b1 M (K + mset (cpu_block_table q1))" "bm_static b b1" "forgets b b1" by blast
  have rel: "released q = q1\<lparr>cpu_block_table := []\<rparr>" by (simp add: released_def q1_def)
  show ?thesis
  proof (cases "cpu_block_table q1 = []")
    case True
    then have "release_all b q = Inr (b1, released q)"
      unfolding release_all_def 1(1) rel by (simp add: update_same)
    with 1 True show ?thesis by simp
  next
    case False
    then have "release_all b q = Inr (fst (free_cpu b1 q1), released q)"
      unfolding release_all_def 1(1) rel by (simp add: free_cpu_def)
    moreover have "bm_inv (fst (free_cpu b1 q1)) M K" "bm_static b (fst (free_cpu b1 q1))"
      using free_cpu_ok(1,2) [OF 1(2)] bm_static_trans [OF 1(3)] by blast+
    moreover have "forgets b (fst (free_cpu b1 q1))" using 1(4) by (simp add: free_cpu_def forgets_def)
    ultimately show ?thesis by blast
  qed
qed

lemma fail_ok:
  assumes inv: "sinv X s p [r]"
  shows "\<exists>s' out. sched_fail s r msg = Inr s' \<and> sinv X s' p [] \<and> sched_frame s s' \<and>
     running s' = running s \<and> swapped s' = swapped s \<and> preempted s' = preempted s \<and>
     waiting s' = waiting s \<and> (\<forall>x. x \<noteq> r \<longrightarrow> store s' x = store s x) \<and>
     status (store s' r) = FINISHED \<and> outputs s' = outputs s @ [out] \<and>
     out_seq_id out = seq_id (store s r) \<and> out_error out = Some msg \<and> finished out"
proof -
  note D = sinvD [OF inv]
  let ?M = "pages block_table (store s) (running s)" and ?K = "pages cpu_block_table (store s) (swapped s)"
  have "bm_inv (bm s) (?M + mset (block_table (store s r))) (?K + mset (cpu_block_table (store s r)))"
    using D(1) by (simp add: pages_inv_def)
  then obtain b' where rel: "release_all (bm s) (store s r) = Inr (b', released (store s r))"
      "bm_inv b' ?M ?K" "bm_static (bm s) b'" "forgets (bm s) b'"
    using release_all_ok by blast
  define q where "q = (released (store s r))\<lparr>status := FINISHED, finish_reason := Some ''error'',
      error := Some msg\<rparr>"
  have same: "gen_same (store s r) q"
    by (simp add: q_def gen_same_def seq_static_def released_def)
  then have id: "seq_id q = seq_id (store s r)" by (simp add: gen_same_def seq_static_def)
  obtain s' where s': "sched_fail s r msg = Inr s'" and s'_def: "s' = (set_seq s r q)\<lparr>bm := b',
       seqs := AList.delete (seq_id q) (seqs s), num_failed := num_failed s + 1,
       outputs := outputs s @ [\<lparr>out_seq_id = seq_id q, out_token_ids = [], out_text = [],
                 finished = True, out_finish_reason = Some ''error'',
                 out_num_prompt_tokens = num_prompt_tokens q,
                 out_num_output_tokens = num_output_tokens q, out_error = Some msg\<rparr>]\<rparr>"
    using rel(1) by (simp add: sched_fail_def q_def Let_def)
  have c: "conf_same s s'" using rel(3) by (simp add: s'_def conf_same_def set_seq_def)
  have bs: "block_size b' = block_size (bm s)" using rel(3) by (simp add: bm_static_def)
  have "sinv X s' p []"
    by (rule sinv_drop [OF inv _ gen_same_static [OF same] c])
      (use rel(2) id others_own_fewer [OF inv rel(4) bs] in \<open>simp_all add: s'_def set_seq_def\<close>)
  moreover note Q = queues_invD [OF D(2)]
  have mine: "map_of (seqs s) (seq_id (store s r)) = Some r" using Q(4) by (simp add: queue_list_def)
  have drop: "drops_finished s s'"
    by (rule drops_finished_drop [OF Q(3) mine]) (simp_all add: s'_def set_seq_def id, simp add: q_def is_finished_def)
  have "set (seqs s') \<noteq> set (seqs s)"
  proof -
    note mine
    then have "(seq_id (store s r), r) \<in> set (seqs s)" by (rule map_of_SomeD)
    moreover have "(seq_id (store s r), r) \<notin> set (seqs s')" by (simp add: s'_def id AList.delete_eq)
    ultimately show ?thesis by blast
  qed
  then have "sched_frame s s'"
    using c same drop rel(4) by (simp add: sched_frame_def s'_def set_seq_def)
  ultimately show ?thesis
    using s' id by (auto simp: s'_def set_seq_def q_def)
qed

section \<open>The admission candidate\<close>

definition admission_order :: "scheduler \<Rightarrow> sref list" where
  "admission_order s = preempted s @ pending (store s) (waiting s)"

lemma admit_candidate_ok:
  assumes inv: "sinv X s p []"
  shows "\<exists>s'. admit_candidate s = (s', case admission_order s of [] \<Rightarrow> None | r # _ \<Rightarrow> Some r) \<and>
     sinv X s' p [] \<and> sched_frame s s' \<and> s' = s\<lparr>waiting := waiting s'\<rparr> \<and>
     pending (store s) (waiting s') = pending (store s) (waiting s)"
proof (cases "preempted s")
  case (Cons r rs)
  with inv show ?thesis by (intro exI [of _ s]) (simp add: admit_candidate_def admission_order_def)
next
  case Nil
  note P = wq_peek_ok [OF sinv_wq [OF inv]]
  define w where "w = fst (wq_peek (store s) (waiting s))"
  let ?s = "s\<lparr>waiting := w\<rparr>"
  have c: "conf_same s ?s"
    using P(5) by (simp add: conf_same_def w_def) (simp add: wq_peek_def Let_def)
  then have f: "sched_frame s ?s" by (simp add: sched_frame_def)
  note D = sinvD [OF inv]
  have pend: "pending (store ?s) (waiting ?s) = pending (store s) (waiting s)"
    using P(2) by (simp add: w_def)
  then have ql: "queue_list ?s [] = queue_list s []" by (simp add: queue_list_def)
  have "sinv X ?s p []"
  proof (rule sinvI)
    show "queues_inv X ?s []"
      by (rule queues_inv_move [OF D(2)]) (use P(1) ql in \<open>simp_all add: w_def\<close>)
    show "seqs_inv ?s p" using D(3) pend by (simp add: seqs_inv_def)
    show "live_inv ?s []" using D(4) ql by (simp add: live_inv_def)
    show "cache_inv X ?s []" using D(7) ql by (simp add: cache_inv_def)
  qed (use D(1,5,6) in \<open>simp_all add: pages_inv_def conf_ok_def\<close>)
  with Nil P(2,3) f show ?thesis
    by (intro exI [of _ ?s])
      (simp add: admit_candidate_def admission_order_def w_def split: prod.splits, metis snd_conv)
qed

lemma pop_waiting_ok:
  assumes inv: "sinv X s p []" and ord: "admission_order s = r # rs"
  shows "\<exists>s'. pop_waiting s r = Inr s' \<and> sinv X s' p [r] \<and> sched_frame s s' \<and> admission_order s' = rs \<and>
     store s' = store s \<and> bm s' = bm s \<and> running s' = running s \<and> swapped s' = swapped s \<and>
     outputs s' = outputs s \<and> idle_ok (status (store s r)) (store s r) \<and> seqs s' = seqs s"
proof (cases "preempted s")
  case (Cons x xs)
  with ord have "x = r" "rs = xs @ pending (store s) (waiting s)" by (simp_all add: admission_order_def)
  moreover have "idle_ok PREEMPTED (store s x)" using seqs_invD(3) [OF sinvD(3) [OF inv]] Cons by simp
  ultimately show ?thesis
    using Cons sinv_take_preempted [OF inv, of r xs]
    by (intro exI [of _ "s\<lparr>preempted := xs\<rparr>"])
      (simp add: pop_waiting_def admission_order_def sched_frame_def idle_ok_def)
next
  case Nil
  with ord have pend: "pending (store s) (waiting s) = r # rs" by (simp add: admission_order_def)
  obtain q where q: "wq_pop (store s) (waiting s) = Inr (q, r)" "pending (store s) q = rs"
    using wq_pop_ok [OF sinv_wq [OF inv] pend] by blast
  have "idle_ok WAITING (store s r)" using seqs_invD(4) [OF sinvD(3) [OF inv]] pend by simp
  then show ?thesis
    using Nil q sinv_take_waiting [OF inv q(1) pend]
    by (intro exI [of _ "s\<lparr>waiting := q\<rparr>"])
      (simp add: pop_waiting_def admission_order_def idle_ok_def)
qed

end
