(* ===== verification/Scheduler_Requests.thy ===== *)
theory Scheduler_Requests
  imports Scheduler_Ops
begin

text \<open>
  The operations a client of the scheduler calls between iterations: \<open>add\<close> enqueues a request,
  \<open>abort\<close> withdraws one from whichever queue holds it. Both keep the invariant, and neither raises
  but for the duplicate id \<open>add\<close> refuses. Then the debug assertions of \<open>check_invariants\<close>.
\<close>

section \<open>Adding a request\<close>

text \<open>The object passed to \<open>add\<close>: not in the heap, and as its constructor left it.\<close>

definition addable :: "scheduler \<Rightarrow> sref \<Rightarrow> bool" where
  "addable s r \<longleftrightarrow> r \<notin> snd ` set (heap (waiting s)) \<and> live_ok (max_model_len s) (store s r) \<and>
     block_table (store s r) = [] \<and> cpu_block_table (store s r) = [] \<and> num_computed_tokens (store s r) = 0 \<and>
     block_hashes (store s r) = []"

text \<open>Where the policy puts it: behind every waiting request whose key is not greater.\<close>

definition enqueued :: "externals \<Rightarrow> scheduler \<Rightarrow> sref \<Rightarrow> sref list" where
  "enqueued X s r =
     (let key = (\<lambda>x. queue_key X (waiting s) (store s x)); w = pending (store s) (waiting s)
      in takeWhile (\<lambda>x. key x \<le> key r) w @ r # dropWhile (\<lambda>x. key x \<le> key r) w)"

lemma set_take_drop: "set (takeWhile P xs @ r # dropWhile P xs) = insert r (set xs)"
  by (metis Un_insert_right list.simps(15) set_append takeWhile_dropWhile_id)

lemma mset_take_drop: "mset (takeWhile P xs @ r # dropWhile P xs) = add_mset r (mset xs)"
  by (metis mset.simps(2) mset_append takeWhile_dropWhile_id union_mset_add_mset_right)

lemma sched_add_ok:
  assumes inv: "sinv X s p []" and add: "addable s r" and new: "map_of (seqs s) (seq_id (store s r)) = None"
  shows "\<exists>s'. sched_add X s r = Inr s' \<and> sinv X s' p [] \<and>
     pending (store s') (waiting s') = enqueued X s r \<and> running s' = running s \<and> swapped s' = swapped s \<and>
     preempted s' = preempted s \<and> outputs s' = outputs s \<and>
     store s' = (store s)(r := (store s r)\<lparr>status := WAITING\<rparr>) \<and> bm s' = bm s \<and>
     snd ` set (heap (waiting s')) = insert r (snd ` set (heap (waiting s))) \<and>
     map_of (seqs s') = (map_of (seqs s))(seq_id (store s r) \<mapsto> r) \<and>
     max_model_len s' = max_model_len s \<and> eos_ids s' = eos_ids s"
proof -
  note D = sinvD [OF inv] and A = add [unfolded addable_def]
  note Q = queues_invD [OF D(2)]
  define q where "q = (store s r)\<lparr>status := WAITING\<rparr>"
  define st where "st = (store s)(r := q)"
  define w where "w = wq_push X st (waiting s) r"
  define s' where "s' = s\<lparr>store := st, seqs := AList.update (seq_id q) r (seqs s), waiting := w\<rparr>"
  have id: "seq_id q = seq_id (store s r)" and stat: "seq_static (store s r) q"
    by (simp_all add: q_def seq_static_def)
  have out: "r \<notin> set (queue_list s [])" using Q(4) [of "seq_id (store s r)" r] new by auto
  have st: "wq_inv X st (waiting s)" "pending st (waiting s) = pending (store s) (waiting s)"
    using pending_upd [where st = "store s" and r = r, OF stat] Q(1) by (simp_all add: st_def)
  have fresh: "wq_fresh st (waiting s) r"
  proof -
    have "map_of (live (waiting s)) (seq_id (store s r)) \<noteq> Some x" for x
    proof
      assume l: "map_of (live (waiting s)) (seq_id (store s r)) = Some x"
      then have "seq_id (store s x) = seq_id (store s r)" by (rule map_of_live [OF Q(1)])
      with l have "x \<in> set (pending (store s) (waiting s))" using set_pending [OF Q(1)] by simp
      then have "x \<in> set (queue_list s [])" by (simp add: queue_list_def)
      with \<open>seq_id (store s x) = _\<close> have "map_of (seqs s) (seq_id (store s r)) = Some x" using Q(4) by blast
      with new show False by simp
    qed
    then have "map_of (live (waiting s)) (seq_id (store s r)) = None" by blast
    then show ?thesis using A by (simp add: wq_fresh_def st_def id)
  qed
  have key: "queue_key X (waiting s) (st x) = queue_key X (waiting s) (store s x)" for x
    using queue_key_static [OF stat] by (simp add: st_def)
  have pend: "pending st w = enqueued X s r"
    using pending_push [OF st(1) fresh] by (simp add: w_def enqueued_def Let_def st(2) key)
  have ms: "mset (queue_list s' []) = add_mset r (mset (queue_list s []))"
    using mset_take_drop [of _ "pending (store s) (waiting s)" r]
    by (simp add: queue_list_def s'_def pend enqueued_def Let_def)
  then have sets: "set (queue_list s' []) = insert r (set (queue_list s []))"
    by (metis set_mset_add_mset_insert set_mset_mset)
  have pset: "set (pending st w) = insert r (set (pending (store s) (waiting s)))"
    unfolding pend enqueued_def Let_def by (rule set_take_drop)
  have run: "sched_add X s r = Inr s'"
    using new by (simp add: sched_add_def Let_def s'_def set_seq_def st_def q_def w_def)
  have "queues_inv X s' []"
    unfolding queues_inv_def
  proof (intro conjI allI)
    show "wq_inv X (store s') (waiting s')"
      using wq_push_inv [OF st(1) fresh] by (simp add: s'_def w_def)
    have "distinct (r # queue_list s [])" using out Q(2) by simp
    then show "distinct (queue_list s' [])" using ms by (metis mset.simps(2) mset_eq_imp_distinct_iff)
    show "dict_wf (seqs s')" using Q(3) by (simp add: s'_def)
    fix i x
    have "seq_id (store s' x) = seq_id (store s x)" by (simp add: s'_def st_def id)
    moreover have "map_of (seqs s') i = (if i = seq_id (store s r) then Some r else map_of (seqs s) i)"
      by (simp add: s'_def id dict_lookup)
    ultimately show "map_of (seqs s') i = Some x \<longleftrightarrow> x \<in> set (queue_list s' []) \<and> seq_id (store s' x) = i"
      using Q(4) [of i x] new out unfolding sets by auto
  qed
  moreover have "pages_inv s' []"
    using D(1) out by (simp add: pages_inv_def s'_def st_def queue_list_def)
  moreover have "seqs_inv s' p"
  proof -
    have "store s' x = store s x" if "x \<noteq> r" for x using that by (simp add: s'_def st_def)
    moreover have "idle_ok WAITING (store s' r)" using A by (simp add: idle_ok_def s'_def st_def q_def)
    ultimately show ?thesis
      using D(3) out pset unfolding seqs_inv_def queue_list_def
      by (auto simp: s'_def st_def)
  qed
  moreover have "live_inv s' []"
    using D(4) A unfolding live_inv_def sets
    by (auto simp: s'_def st_def q_def live_ok_def tokens_consistent_def num_prompt_tokens_def num_output_tokens_def)
  moreover have "conf_ok s'" using D(5) by (simp add: conf_ok_def s'_def)
  moreover have "int (length (running s')) \<le> max_num_seqs s'" using D(6) by (simp add: s'_def)
  moreover have "cache_inv X s' []"
  proof -
    have other: "store s' x = store s x" if "x \<noteq> r" for x using that by (simp add: s'_def st_def)
    have run': "running s' = running s" "bm s' = bm s" by (simp_all add: s'_def)
    have nr: "r \<notin> set (running s)" using out by (simp add: queue_list_def)
    then have "pages block_table (store s') (running s) = pages block_table (store s) (running s)"
      by (simp add: s'_def st_def)
    moreover have "store s' x = store s x" if "x \<in> set (running s)" for x using other [of x] that nr by auto
    moreover have "hashes_ok X (block_size (bm s)) (store s' r)"
      using A by (simp add: hashes_ok_def s'_def st_def q_def)
    moreover have "hashes_ok X (block_size (bm s)) (store s' x)" if "x \<in> set (queue_list s' [])" "x \<noteq> r" for x
      using that cache_invD(2) [OF D(7), of x] other [of x] unfolding sets by simp
    ultimately show ?thesis using cache_invD(1) [OF D(7)] unfolding cache_inv_def run' by auto
  qed
  ultimately have "sinv X s' p []" by (simp add: sinv_def)
  moreover have "snd ` set (heap (waiting s')) = insert r (snd ` set (heap (waiting s)))"
    by (simp add: s'_def w_def wq_push_def set_insort_key)
  moreover have "map_of (seqs s') = (map_of (seqs s))(seq_id (store s r) \<mapsto> r)"
    by (simp add: s'_def id update_conv')
  ultimately show ?thesis
    using run pend by (intro exI [of _ s']) (simp add: s'_def st_def q_def)
qed

lemma sched_add_duplicate:
  "map_of (seqs s) (seq_id (store s r)) \<noteq> None \<Longrightarrow>
     sched_add X s r = Inl (ValueError (''duplicate seq_id '' @ show_int (seq_id (store s r))))"
  by (simp add: sched_add_def)

section \<open>Aborting a request\<close>

text \<open>Withdrawn: terminal, holding nothing, in no queue, known under no id.\<close>

definition withdrawn :: "scheduler \<Rightarrow> scheduler \<Rightarrow> sref \<Rightarrow> bool" where
  "withdrawn s s' r \<longleftrightarrow>
     status (store s' r) = ABORTED \<and> block_table (store s' r) = [] \<and> cpu_block_table (store s' r) = [] \<and>
     running s' = remove1 r (running s) \<and> swapped s' = remove1 r (swapped s) \<and>
     preempted s' = remove1 r (preempted s) \<and>
     pending (store s') (waiting s') = remove1 r (pending (store s) (waiting s)) \<and>
     map_of (seqs s') = (map_of (seqs s))(seq_id (store s r) := None) \<and>
     (\<forall>x. x \<noteq> r \<longrightarrow> store s' x = store s x) \<and> outputs s' = outputs s \<and> sched_frame s s'"

lemma sinv_take_pending:
  assumes inv: "sinv X s p []" and r: "r \<in> set (pending (store s) (waiting s))"
  defines "w \<equiv> fst (wq_remove (waiting s) (seq_id (store s r)))"
  shows "sinv X (s\<lparr>waiting := w\<rparr>) p [r]"
    and "pending (store s) w = remove1 r (pending (store s) (waiting s))"
    and "conf_same s (s\<lparr>waiting := w\<rparr>)"
proof -
  note Q = queues_invD [OF sinvD(2) [OF inv]]
  have d: "distinct (pending (store s) (waiting s))" by (rule distinct_pending [OF Q(1)])
  have same: "seq_id (store s x) = seq_id (store s r) \<longleftrightarrow> x = r"
    if "x \<in> set (pending (store s) (waiting s))" for x
    using that r set_pending [OF Q(1)] by (metis option.inject)
  have "pending (store s) w = filter (\<lambda>x. x \<noteq> r) (pending (store s) (waiting s))"
    using wq_remove_ok(2) [OF Q(1)] same by (simp add: w_def cong: filter_cong)
  then show p: "pending (store s) w = remove1 r (pending (store s) (waiting s))"
    using d by (simp add: distinct_remove1_removeAll removeAll_filter_not_eq)
      (metis (mono_tags, lifting) filter_cong)
  show c: "conf_same s (s\<lparr>waiting := w\<rparr>)" by (simp add: conf_same_def w_def wq_remove_def)
  have idle: "idle_ok WAITING (store s r)" by (rule seqs_invD(4) [OF sinvD(3) [OF inv] r])
  show "sinv X (s\<lparr>waiting := w\<rparr>) p [r]"
  proof (rule sinv_take [OF inv _ _ _ c])
    show "wq_inv X (store s) (waiting (s\<lparr>waiting := w\<rparr>))"
      using wq_remove_ok(1) [OF Q(1)] by (simp add: w_def)
    show "mset (r # queue_list (s\<lparr>waiting := w\<rparr>) []) = mset (queue_list s [])"
      using r by (simp add: queue_list_def p)
    show "set (pending (store s) (waiting (s\<lparr>waiting := w\<rparr>))) \<subseteq> set (pending (store s) (waiting s))"
      by (simp add: p set_remove1_subset)
  qed (use idle idle_no_pages in auto)
qed

lemma withdraw:
  assumes inv: "sinv X s1 p [r]" and c1: "conf_same s s1" and st1: "store s1 = store s"
    and sq1: "seqs s1 = seqs s" and o1: "outputs s1 = outputs s"
    and qs: "running s1 = remove1 r (running s)" "swapped s1 = remove1 r (swapped s)"
      "preempted s1 = remove1 r (preempted s)"
      "pending (store s) (waiting s1) = remove1 r (pending (store s) (waiting s))"
    and s': "s' = s1\<lparr>store := (store s)(r := q), bm := b, seqs := AList.delete (seq_id (store s r)) (seqs s),
      num_aborted := n\<rparr>"
    and q: "gen_same (store s r) q" "status q = ABORTED" "block_table q = []" "cpu_block_table q = []"
    and b: "bm_inv b (pages block_table (store s) (running s1)) (pages cpu_block_table (store s) (swapped s1))"
      "bm_static (bm s) b" "forgets (bm s) b" "bm s1 = bm s"
  shows "sinv X s' p [] \<and> withdrawn s s' r"
proof -
  have st: "bm_static (bm s1) b"
    using c1 b(2) by (auto simp: conf_same_def bm_static_def)
  have c: "conf_same s s'" using c1 b(2) by (simp add: conf_same_def s')
  have bs: "block_size b = block_size (bm s1)" using b(2,4) by (simp add: bm_static_def)
  have "forgets (bm s1) b" using b(3,4) by simp
  note own = others_own_fewer [OF inv this bs]
  have "sinv X s' p []"
    by (rule sinv_drop [OF inv, where q = q])
      (use st1 q(1) b(1) st sq1 c1 own in \<open>simp_all add: s' gen_same_static conf_same_def\<close>)
  moreover have "pending (store s') (waiting s') = pending (store s) (waiting s1)"
    using pending_upd(1) [where st = "store s" and r = r, OF gen_same_static [OF q(1)]] by (simp add: s')
  moreover have "drops_finished s s'"
  proof (rule drops_finished_drop)
    note Q = queues_invD [OF sinvD(2) [OF inv]]
    show "dict_wf (seqs s)" using Q(3) by (simp add: sq1)
    show "map_of (seqs s) (seq_id (store s r)) = Some r" using Q(4) by (simp add: queue_list_def sq1 st1)
    show "is_finished q" using q(2) by (simp add: is_finished_def)
  qed (simp_all add: s')
  ultimately show ?thesis
    using c q qs o1 b(3) by (simp add: withdrawn_def s' sched_frame_def delete_conv')
qed

lemma remove1_others:
  assumes "distinct (a @ b @ c @ d @ [])" and "r \<in> set (a @ b @ c @ d)"
  shows "r \<in> set a \<Longrightarrow> remove1 r b = b \<and> remove1 r c = c \<and> remove1 r d = d"
    and "r \<in> set b \<Longrightarrow> remove1 r a = a \<and> remove1 r c = c \<and> remove1 r d = d"
    and "r \<in> set c \<Longrightarrow> remove1 r a = a \<and> remove1 r b = b \<and> remove1 r d = d"
    and "r \<in> set d \<Longrightarrow> remove1 r a = a \<and> remove1 r b = b \<and> remove1 r c = c"
  using assms by (auto intro!: remove1_idem)

lemma sched_abort_ok:
  assumes inv: "sinv X s p []" and known: "map_of (seqs s) sid = Some r"
  shows "\<exists>s'. sched_abort s sid = Inr (s', True) \<and> sinv X s' p [] \<and> withdrawn s s' r \<and>
     num_aborted s' = num_aborted s + 1"
proof -
  note D = sinvD [OF inv] and dist = sinv_distinct [OF inv]
  note Q = queues_invD [OF D(2)]
  have r: "r \<in> set (queue_list s [])" "seq_id (store s r) = sid" using Q(4) known by blast+
  let ?P = "pending (store s) (waiting s)"
  have "r \<in> set (running s @ swapped s @ preempted s @ ?P)" using r(1) by (simp add: queue_list_def)
  note out = remove1_others [OF dist this]
  let ?M = "pages block_table (store s)" and ?K = "pages cpu_block_table (store s)"
  consider "r \<in> set (running s)" | "r \<in> set (swapped s)" | "r \<in> set (preempted s)" | "r \<in> set ?P"
    using r(1) by (auto simp: queue_list_def)
  then show ?thesis
  proof cases
    case 1
    have m: "mset (running s) = add_mset r (mset (remove1 r (running s)))" using 1 by simp
    let ?s1 = "s\<lparr>running := remove1 r (running s)\<rparr>"
    have inv1: "sinv X ?s1 p [r]" by (rule sinv_take_running [OF inv m])
    have ok: "status (store s r) = RUNNING" "cpu_block_table (store s r) = []"
      using seqs_invD(1) [OF D(3) 1] by (simp_all add: running_ok_def)
    have "bm_inv (bm s) (?M (running ?s1) + mset (block_table (store s r))) (?K (swapped ?s1))"
      using sinvD(1) [OF inv1] ok by (simp add: pages_inv_def)
    then obtain b where f: "free_seq (bm s) (store s r) = Inr (b, (store s r)\<lparr>block_table := [], num_registered_blocks := 0\<rparr>)"
        "bm_inv b (?M (running ?s1)) (?K (swapped ?s1))" "gpu_frame (bm s) b"
      using free_seq_ok by blast
    let ?q = "(store s r)\<lparr>block_table := [], num_registered_blocks := 0, status := ABORTED\<rparr>"
    let ?s' = "?s1\<lparr>store := (store s)(r := ?q), bm := b, seqs := AList.delete (seq_id (store s r)) (seqs s),
      num_aborted := num_aborted s + 1\<rparr>"
    have run: "sched_abort s sid = Inr (?s', True)"
      using known 1 ok f(1) r(2) by (simp add: sched_abort_def Let_def set_seq_def list_remove_def)
    have "sinv X ?s' p [] \<and> withdrawn s ?s' r"
      by (rule withdraw [OF inv1, where q = ?q and b = b and n = "num_aborted s + 1"])
        (use f free_seq_forgets [OF f(1)] ok out(1) [OF 1] in \<open>auto simp: gen_same_def seq_static_def gpu_frame_static\<close>)
    with run show ?thesis by simp
  next
    case 2
    have m: "mset (swapped s) = add_mset r (mset (remove1 r (swapped s)))" using 2 by simp
    let ?s1 = "s\<lparr>swapped := remove1 r (swapped s)\<rparr>"
    have inv1: "sinv X ?s1 p [r]" by (rule sinv_take_swapped [OF inv m])
    have ok: "status (store s r) = PREEMPTED" "block_table (store s r) = []" "cpu_block_table (store s r) \<noteq> []"
      using seqs_invD(2) [OF D(3) 2] by (simp_all add: swapped_ok_def)
    have "bm_inv (bm s) (?M (running ?s1)) (?K (swapped ?s1) + mset (cpu_block_table (store s r)))"
      using sinvD(1) [OF inv1] ok by (simp add: pages_inv_def)
    note f = free_cpu_ok [OF this]
    let ?b = "fst (free_cpu (bm s) (store s r))"
    let ?q = "(store s r)\<lparr>cpu_block_table := [], status := ABORTED\<rparr>"
    let ?s' = "?s1\<lparr>store := (store s)(r := ?q), bm := ?b, seqs := AList.delete (seq_id (store s r)) (seqs s),
      num_aborted := num_aborted s + 1\<rparr>"
    have run: "sched_abort s sid = Inr (?s', True)"
      using known 2 ok r(2) by (simp add: sched_abort_def Let_def set_seq_def list_remove_def free_cpu_def)
    have "sinv X ?s' p [] \<and> withdrawn s ?s' r"
      by (rule withdraw [OF inv1, where q = ?q and b = ?b and n = "num_aborted s + 1"])
        (use f ok out(2) [OF 2] in \<open>auto simp: gen_same_def seq_static_def free_cpu_def forgets_def\<close>)
    with run show ?thesis by simp
  next
    case 3
    have m: "mset (preempted s) = add_mset r (mset (remove1 r (preempted s)))" using 3 by simp
    let ?s1 = "s\<lparr>preempted := remove1 r (preempted s)\<rparr>"
    have inv1: "sinv X ?s1 p [r]" by (rule sinv_take_preempted [OF inv m])
    have ok: "status (store s r) = PREEMPTED" "block_table (store s r) = []" "cpu_block_table (store s r) = []"
      using seqs_invD(3) [OF D(3) 3] by (simp_all add: idle_ok_def)
    let ?q = "(store s r)\<lparr>status := ABORTED\<rparr>"
    let ?s' = "?s1\<lparr>store := (store s)(r := ?q), bm := bm s, seqs := AList.delete (seq_id (store s r)) (seqs s),
      num_aborted := num_aborted s + 1\<rparr>"
    have run: "sched_abort s sid = Inr (?s', True)"
      using known 3 ok r(2) by (simp add: sched_abort_def Let_def set_seq_def list_remove_def)
    have "sinv X ?s' p [] \<and> withdrawn s ?s' r"
      by (rule withdraw [OF inv1, where q = ?q and b = "bm s" and n = "num_aborted s + 1"])
        (use sinvD(1) [OF inv1] ok out(3) [OF 3] in \<open>auto simp: gen_same_def seq_static_def pages_inv_def\<close>)
    with run show ?thesis by simp
  next
    case 4
    let ?w = "fst (wq_remove (waiting s) (seq_id (store s r)))"
    let ?s1 = "s\<lparr>waiting := ?w\<rparr>"
    note T = sinv_take_pending [OF inv 4]
    have ok: "status (store s r) = WAITING" "block_table (store s r) = []" "cpu_block_table (store s r) = []"
      using seqs_invD(4) [OF D(3) 4] by (simp_all add: idle_ok_def)
    let ?q = "(store s r)\<lparr>status := ABORTED\<rparr>"
    let ?s' = "?s1\<lparr>store := (store s)(r := ?q), bm := bm s, seqs := AList.delete (seq_id (store s r)) (seqs s),
      num_aborted := num_aborted s + 1\<rparr>"
    have run: "sched_abort s sid = Inr (?s', True)"
      using known 4 ok r(2) by (simp add: sched_abort_def Let_def set_seq_def list_remove_def)
    have "sinv X ?s' p [] \<and> withdrawn s ?s' r"
      by (rule withdraw [OF T(1) T(3), where q = ?q and b = "bm s" and n = "num_aborted s + 1"])
        (use sinvD(1) [OF T(1)] T(2) ok out(4) [OF 4] in
          \<open>auto simp: gen_same_def seq_static_def pages_inv_def\<close>)
    with run show ?thesis by simp
  qed
qed

lemma sched_abort_unknown: "map_of (seqs s) sid = None \<Longrightarrow> sched_abort s sid = Inr (s, False)"
  by (simp add: sched_abort_def)

end
