(* ===== verification/Scheduler_Running.thy ===== *)
theory Scheduler_Running
  imports Scheduler_Ops
begin

text \<open>
  \<open>_schedule_running\<close>: the plan of token counts, the eviction loop and the walk over the running
  sequences. \<open>batch_ok\<close> ties the batch under construction to the tokens \<open>p\<close> each sequence computes.
\<close>

section \<open>The batch under construction\<close>

definition samples :: "seq_store \<Rightarrow> (sref \<Rightarrow> int) \<Rightarrow> sref \<Rightarrow> bool" where
  "samples st p r \<longleftrightarrow> num_computed_tokens (st r) + p r = num_tokens (st r)"

definition batch_ok :: "scheduler \<Rightarrow> (sref \<Rightarrow> int) \<Rightarrow> scheduled_batch \<Rightarrow> bool" where
  "batch_ok s p b \<longleftrightarrow>
     distinct (b_seqs b) \<and> set (b_seqs b) \<subseteq> set (running s) \<and>
     (\<forall>r. if r \<in> set (b_seqs b) then 1 \<le> p r else p r = 0) \<and>
     num_new_tokens b = map p (b_seqs b) \<and>
     do_sample b = map (samples (store s) p) (b_seqs b) \<and>
     batch_num_tokens b = sum_list (map p (b_seqs b))"

lemma batch_ok_empty [simp]: "batch_ok s (\<lambda>_. 0) empty_batch"
  by (simp add: batch_ok_def empty_batch_def)

lemma batch_okD:
  assumes "batch_ok s p b"
  shows "distinct (b_seqs b)" "set (b_seqs b) \<subseteq> set (running s)"
    and "r \<in> set (b_seqs b) \<Longrightarrow> 1 \<le> p r" "r \<notin> set (b_seqs b) \<Longrightarrow> p r = 0"
    and "num_new_tokens b = map p (b_seqs b)" "batch_num_tokens b = sum_list (map p (b_seqs b))"
    and "do_sample b = map (samples (store s) p) (b_seqs b)"
  using assms unfolding batch_ok_def by (auto split: if_splits; metis)+

lemma batch_ok_same:
  assumes "batch_ok s p b" and "batch_same b b'" and "set (b_seqs b) \<subseteq> set (running s')"
    and "\<And>r. r \<in> set (b_seqs b) \<Longrightarrow> samples (store s') p r = samples (store s) p r"
  shows "batch_ok s' p b'"
  using assms unfolding batch_ok_def batch_same_def by (auto cong: map_cong)

lemma batch_ok_add:
  assumes ok: "batch_ok s p b" and "r \<notin> set (b_seqs b)" and "1 \<le> n"
    and "insert r (set (b_seqs b)) \<subseteq> set (running s')"
    and samp: "\<And>x. x \<in> set (b_seqs b) \<Longrightarrow> samples (store s') p x = samples (store s) p x"
    and q: "num_computed_tokens q = num_computed_tokens (store s' r)" "num_tokens q = num_tokens (store s' r)"
  shows "batch_ok s' (p(r := n)) (batch_add b r q n)"
proof -
  note D = batch_okD [OF ok]
  have "map (p(r := n)) (b_seqs b) = map p (b_seqs b)" using assms(2) by auto
  moreover have "map (samples (store s') (p(r := n))) (b_seqs b) = map (samples (store s) p) (b_seqs b)"
    using samp assms(2) by (auto simp: samples_def)
  moreover have "\<forall>x. if x \<in> set (b_seqs b @ [r]) then 1 \<le> (p(r := n)) x else (p(r := n)) x = 0"
    using D(3,4) assms(2,3) by auto
  ultimately show ?thesis
    using D(1,2,5-7) assms(2,4) q unfolding batch_ok_def batch_add_def by (simp add: samples_def)
qed

section \<open>Making room\<close>

definition grew :: "'a list \<Rightarrow> 'a list \<Rightarrow> bool" where
  "grew xs ys \<longleftrightarrow> (\<exists>zs. ys = xs @ zs)"

lemma grew_refl [simp]: "grew xs xs" by (simp add: grew_def)
lemma grew_append [simp]: "grew xs (xs @ ys)" by (simp add: grew_def)
lemma grew_trans: "grew xs ys \<Longrightarrow> grew ys zs \<Longrightarrow> grew xs zs" by (auto simp: grew_def)
lemma grew_length: "grew xs ys \<Longrightarrow> length xs \<le> length ys" by (auto simp: grew_def)
lemma grew_strict: "grew xs ys \<Longrightarrow> grew (ys @ [z]) zs \<Longrightarrow> xs \<noteq> zs" by (auto simp: grew_def)

lemma sinv_evict:
  assumes inv: "sinv X s p []" and m: "mset (running s) = add_mset r (mset rs)" and p: "p r = 0"
  shows "sinv X (s\<lparr>running := rs\<rparr>) p [r]"
    and "running_ok (chunked s) (sch_block_size s) 0 (store s r)"
proof -
  show "sinv X (s\<lparr>running := rs\<rparr>) p [r]" by (rule sinv_take_running [OF inv m])
  have "r \<in> set (running s)" using m by (metis set_mset_mset union_single_eq_member)
  then show "running_ok (chunked s) (sch_block_size s) 0 (store s r)"
    using seqs_invD(1) [OF sinvD(3) [OF inv]] p by metis
qed

text \<open>What \<open>make_room\<close> promises for the sequence at position \<open>i\<close>.\<close>

definition room_made ::
  "externals \<Rightarrow> (sref \<Rightarrow> int) \<Rightarrow> sref \<Rightarrow> int \<Rightarrow> nat \<Rightarrow> scheduler \<Rightarrow> scheduled_batch
     \<Rightarrow> bool \<Rightarrow> scheduler \<Rightarrow> scheduled_batch \<Rightarrow> bool" where
  "room_made X p r n i s b fits s' b' \<longleftrightarrow>
     sinv X s' p [] \<and> sched_frame s s' \<and> batch_same b b' \<and> num_preempted b \<le> num_preempted b' \<and>
     (\<forall>x \<in> set (running s'). store s' x = store s x) \<and> waiting s' = waiting s \<and>
     (num_preempted b' = num_preempted b \<longrightarrow> swap_out b' = swap_out b \<and> swapped s' = swapped s \<and> preempted s' = preempted s) \<and>
     (if fits then can_append (bm s') (store s' r) n \<and> outputs s' = outputs s \<and>
                   (\<exists>k > i. running s' = take k (running s))
      else running s' = take i (running s) \<and>
           (if i = 0 then \<exists>out. outputs s' = outputs s @ [out] else outputs s' = outputs s))"

lemma make_room_ok:
  assumes "sinv X s p []" and "i < length (running s)" and "running s ! i = r"
    and "\<And>j. i \<le> j \<Longrightarrow> j < length (running s) \<Longrightarrow> p (running s ! j) = 0"
  shows "\<exists>fits s' b'. make_room r n i s b = Inr (fits, s', b') \<and> room_made X p r n i s b fits s' b'"
  using assms
proof (induction r n i s b rule: make_room.induct)
  case (1 r n i s b)
  note inv = "1.prems"(1)
  show ?case
  proof (cases "can_append (bm s) (store s r) n")
    case True
    then have "make_room r n i s b = Inr (True, s, b)" by (simp add: make_room.simps)
    moreover have "\<exists>k > i. running s = take k (running s)"
      using "1.prems"(2) by (intro exI [of _ "length (running s)"]) simp
    ultimately show ?thesis
      using inv True by (intro exI [of _ True] exI [of _ s] exI [of _ b]) (simp add: room_made_def)
  next
    case no: False
    show ?thesis
    proof (cases "i < length (running s) - 1")
      case True
      let ?v = "last (running s)" and ?s0 = "s\<lparr>running := butlast (running s)\<rparr>"
      have ne: "running s \<noteq> []" using "1.prems"(2) by auto
      then have "running s = butlast (running s) @ [?v]" by simp
      then have m: "mset (running s) = add_mset ?v (mset (butlast (running s)))"
        by (metis mset_append mset.simps(1,2) add_mset_add_single)
      have "p ?v = 0" using "1.prems"(4) [of "length (running s) - 1"] True ne by (simp add: last_conv_nth)
      note ev = sinv_evict [OF inv m this]
      have "running_ok (chunked ?s0) (sch_block_size ?s0) 0 (store ?s0 ?v)" using ev(2) by simp
      from preempt_ok [OF ev(1) this, of b] obtain s1 b1 where
        1: "preempt ?s0 ?v b = Inr (s1, b1)" "sinv X s1 p []" "sched_frame ?s0 s1"
          "running s1 = butlast (running s)" "outputs s1 = outputs s" "waiting s1 = waiting s"
          "\<forall>x. x \<noteq> ?v \<longrightarrow> store s1 x = store s x" "batch_same b b1" "num_preempted b1 = num_preempted b + 1"
        by auto
      have f: "sched_frame s s1" using 1(3) by (simp add: sched_frame_def conf_same_def)
      have vout: "?v \<notin> set (butlast (running s))" using sinv_detached(1) [OF ev(1)] by simp
      have nth: "running s1 ! j = running s ! j" if "j < length (running s) - 1" for j
        using that 1(4) by (simp add: nth_butlast)
      obtain fits s' b' where m: "make_room r n i s1 b1 = Inr (fits, s', b')" "room_made X p r n i s1 b1 fits s' b'"
        using "1.IH" [OF no True 1(1) refl 1(2)] "1.prems"(3,4) True nth 1(4) by auto
      have tk: "take k (running s1) = take (min k (length (running s) - 1)) (running s)" for k
        using 1(4) by (simp add: butlast_conv_take min_def)
      have sub: "set (running s') \<subseteq> set (running s1)"
        using m(2) by (auto simp: room_made_def split: if_splits dest: in_set_takeD)
      have "room_made X p r n i s b fits s' b'"
        unfolding room_made_def
      proof (intro conjI)
        show "sched_frame s s'" using f m(2) sched_frame_trans by (auto simp: room_made_def)
        show "batch_same b b'" using 1(8) m(2) batch_same_trans by (auto simp: room_made_def)
        show "\<forall>x \<in> set (running s'). store s' x = store s x"
        proof
          fix x assume x: "x \<in> set (running s')"
          with sub vout 1(4) have "x \<noteq> ?v" by auto
          with x m(2) 1(7) show "store s' x = store s x" by (simp add: room_made_def)
        qed
        show "if fits then can_append (bm s') (store s' r) n \<and> outputs s' = outputs s \<and>
                   (\<exists>k > i. running s' = take k (running s))
              else running s' = take i (running s) \<and>
                (if i = 0 then \<exists>out. outputs s' = outputs s @ [out] else outputs s' = outputs s)"
        proof (cases fits)
          case fits: True
          then obtain k where k: "i < k" "running s' = take k (running s1)"
            using m(2) by (auto simp: room_made_def)
          have "i < min k (length (running s) - 1)" using k(1) True by simp
          then show ?thesis
            using fits m(2) 1(5) k(2) tk [of k] unfolding room_made_def by metis
        next
          case False
          then show ?thesis
            using m(2) True 1(5) tk [of i] unfolding room_made_def by (cases "i = 0") simp_all
        qed
      qed (use m(2) 1(6,9) in \<open>auto simp: room_made_def\<close>)
      moreover have "make_room r n i s b = Inr (fits, s', b')"
        using no True 1(1) m(1) by (subst make_room.simps) simp
      ultimately show ?thesis by blast
    next
      case False
      with "1.prems"(2) have i: "Suc i = length (running s)" by linarith
      let ?s0 = "s\<lparr>running := take i (running s) @ drop (Suc i) (running s)\<rparr>"
      have s0: "running ?s0 = take i (running s)" using i by simp
      have "running s = take i (running s) @ [r]"
        using "1.prems"(2,3) i by (metis lessI take_Suc_conv_app_nth take_all_iff order_refl)
      then have m: "mset (running s) = add_mset r (mset (running ?s0))"
        using s0 by (metis mset_append mset.simps(1,2) add_mset_add_single)
      have pr: "p r = 0" using "1.prems"(2-4) by auto
      have ev: "sinv X ?s0 p [r]" "running_ok (chunked ?s0) (sch_block_size ?s0) 0 (store ?s0 r)"
        using sinv_evict [OF inv m pr] by simp_all
      have out: "r \<notin> set (take i (running s))" using sinv_detached(1) [OF ev(1)] s0 by simp
      show ?thesis
      proof (cases "i = 0")
        case True
        obtain s' o' where "sched_fail ?s0 r (exhausted_message ?s0 r) = Inr s'" "sinv X s' p []"
            "sched_frame ?s0 s'" "running s' = running ?s0" "waiting s' = waiting ?s0"
            "swapped s' = swapped ?s0" "preempted s' = preempted ?s0"
            "outputs s' = outputs ?s0 @ [o']"
          using fail_ok [OF ev(1)] by blast
        moreover from this have "make_room r n i s b = Inr (False, s', b)"
          using no True i "1.prems"(2) by (subst make_room.simps) (simp add: Let_def)
        ultimately show ?thesis
          using True s0 by (auto simp: room_made_def sched_frame_def conf_same_def)
      next
        case pos: False
        obtain s' b' where pr': "preempt ?s0 r b = Inr (s', b')" "sinv X s' p []"
            "sched_frame ?s0 s'" "running s' = running ?s0" "waiting s' = waiting ?s0" "outputs s' = outputs ?s0"
            "\<forall>x. x \<noteq> r \<longrightarrow> store s' x = store ?s0 x" "batch_same b b'" "num_preempted b' = num_preempted b + 1"
          using preempt_ok [OF ev, of b] by blast
        moreover from this have "make_room r n i s b = Inr (False, s', b')"
          using no False pos "1.prems"(2) by (subst make_room.simps) (simp add: Let_def)
        ultimately show ?thesis
          using pos s0 out by (auto simp: room_made_def sched_frame_def conf_same_def)
      qed
    qed
  qed
qed

section \<open>A running sequence in place\<close>

lemma pages_grow:
  "distinct rs \<Longrightarrow> r \<in> set rs \<Longrightarrow> f q = f (st r) @ blks \<Longrightarrow>
     pages f (st(r := q)) rs = pages f st rs + mset blks"
  by (induction rs) (auto simp: ac_simps)

text \<open>Changing a running sequence where it stands.\<close>

lemma sinv_running:
  assumes inv: "sinv X s p []" and r: "r \<in> set (running s)"
    and st: "store s' = (store s)(r := q)" and g: "seq_static (store s r) q"
    and live: "live_ok (max_model_len s) q" and c: "conf_same s s'"
    and same: "waiting s' = waiting s" "seqs s' = seqs s" "running s' = running s"
      "swapped s' = swapped s" "preempted s' = preempted s"
    and ok: "running_ok (chunked s) (sch_block_size s) (p' r) q"
    and p: "\<forall>x \<in> set (running s) - {r}. p' x = p x"
    and pg: "bm_inv (bm s') (pages block_table ((store s)(r := q)) (running s))
               (pages cpu_block_table (store s) (swapped s))"
    and hx: "hashes_ok X (block_size (bm s)) q"
    and own: "\<And>x. x \<in> set (running s) \<Longrightarrow>
      own_pages (bm s') (pages block_table ((store s)(r := q)) (running s)) (((store s)(r := q)) x)"
  shows "sinv X s' p' []"
proof -
  note D = sinvD [OF inv]
  have others: "r \<notin> set (swapped s)" "r \<notin> set (preempted s)" "r \<notin> set (pending (store s) (waiting s))"
    using sinv_distinct [OF inv] r by auto
  have pend: "pending (store s') (waiting s') = pending (store s) (waiting s)"
    using pending_upd(1) [of "store s" r q] g st same(1) by simp
  have ql: "queue_list s' [] = queue_list s []" by (simp add: queue_list_def pend same(3-5))
  have cf: "chunked s' = chunked s" "sch_block_size s' = sch_block_size s" "max_num_seqs s' = max_num_seqs s"
      "max_model_len s' = max_model_len s"
    using c by (simp_all add: conf_same_def)
  have "pages_inv s' []" using pg others by (simp add: pages_inv_def st same)
  moreover have "queues_inv X s' []"
  proof (rule queues_inv_move [OF D(2)])
    show "wq_inv X (store s') (waiting s')"
      using pending_upd(2) [of "store s" r q] g sinv_wq [OF inv] st same(1) by simp
    show "seq_id (store s' x) = seq_id (store s x)" for x using g st by (simp add: seq_static_def)
  qed (simp_all add: ql same)
  moreover have "seqs_inv s' p'"
    unfolding seqs_inv_def cf pend same(3-5)
  proof (intro conjI ballI)
    fix x
    show "running_ok (chunked s) (sch_block_size s) (p' x) (store s' x)" if "x \<in> set (running s)"
      using that ok p seqs_invD(1) [OF D(3) that] by (cases "x = r") (auto simp: st)
    show "swapped_ok (chunked s) (sch_block_size s) (store s' x)" if "x \<in> set (swapped s)"
      using that others seqs_invD(2) [OF D(3) that] by (cases "x = r") (auto simp: st)
    show "idle_ok PREEMPTED (store s' x)" if "x \<in> set (preempted s)"
      using that others seqs_invD(3) [OF D(3) that] by (cases "x = r") (auto simp: st)
    show "idle_ok WAITING (store s' x)" if "x \<in> set (pending (store s) (waiting s))"
      using that others seqs_invD(4) [OF D(3) that] by (cases "x = r") (auto simp: st)
  qed
  moreover have "live_inv s' []"
    using D(4) live unfolding live_inv_def ql cf by (auto simp: st)
  moreover have "conf_ok s'" by (rule conf_ok_same [OF c D(5)])
  moreover have "int (length (running s')) \<le> max_num_seqs s'" using D(6) cf same by simp
  moreover have "cache_inv X s' []"
  proof -
    have bs: "block_size (bm s') = block_size (bm s)" using c by (simp add: conf_same_def bm_static_def)
    have "hashes_ok X (block_size (bm s)) (store s' x)" if "x \<in> set (queue_list s [])" for x
      using cache_invD(2) [OF D(7) that] hx by (simp add: st)
    then show ?thesis unfolding cache_inv_def ql bs using own by (simp add: st same)
  qed
  ultimately show ?thesis by (rule sinvI)
qed

lemma sinv_bs_pos: "sinv X s p xs \<Longrightarrow> 0 < sch_block_size s"
  using sinvD(1,5) bm_inv_block_size by (fastforce simp: pages_inv_def conf_ok_def)

text \<open>The step that gives a running sequence its slots.\<close>

lemma append_running_ok:
  assumes inv: "sinv X s p []" and r: "r \<in> set (running s)" "p r = 0"
    and fits: "can_append (bm s) (store s r) n"
    and n: "1 \<le> n" "n \<le> num_uncomputed_tokens (store s r)" "\<not> chunked s \<Longrightarrow> n = 1"
  shows "\<exists>bm' blks. append_slots (bm s) (store s r) n
        = Inr (bm', (store s r)\<lparr>block_table := block_table (store s r) @ blks\<rparr>) \<and>
     sinv X ((set_seq s r ((store s r)\<lparr>block_table := block_table (store s r) @ blks\<rparr>))\<lparr>bm := bm'\<rparr>) (p(r := n)) [] \<and>
     sched_frame s ((set_seq s r ((store s r)\<lparr>block_table := block_table (store s r) @ blks\<rparr>))\<lparr>bm := bm'\<rparr>)"
proof -
  note D = sinvD [OF inv]
  have ok: "running_ok (chunked s) (sch_block_size s) 0 (store s r)"
    using seqs_invD(1) [OF D(3) r(1)] r(2) by simp
  have bmi: "bm_inv (bm s) (pages block_table (store s) (running s)) (pages cpu_block_table (store s) (swapped s))"
    using D(1) by (simp add: pages_inv_def)
  then obtain bm' blks where a: "append_slots (bm s) (store s r) n
        = Inr (bm', (store s r)\<lparr>block_table := block_table (store s r) @ blks\<rparr>)"
      "length blks = nat (blocks_needed (bm s) (store s r) n)" "gpu_frame (bm s) bm'"
      "distinct blks" "set blks \<inter> set_mset (pages block_table (store s) (running s)) = {}"
      "bm_inv bm' (pages block_table (store s) (running s) + mset blks) (pages cpu_block_table (store s) (swapped s))"
    using append_slots_ok [OF _ fits] by blast
  let ?q = "(store s r)\<lparr>block_table := block_table (store s r) @ blks\<rparr>"
  let ?s = "(set_seq s r ?q)\<lparr>bm := bm'\<rparr>"
  have c: "conf_same s ?s" using a(3) by (simp add: conf_same_def set_seq_def gpu_frame_def)
  have g: "gen_same (store s r) ?q" by (simp add: gen_same_def seq_static_def)
  have "ceil_div (num_computed_tokens (store s r)) (sch_block_size s)
      \<le> ceil_div (num_computed_tokens (store s r) + n) (sch_block_size s)"
    using n(1) sinv_bs_pos [OF inv] by (intro ceil_div_mono) simp_all
  then have "running_ok (chunked s) (sch_block_size s) n ?q"
    using ok n a(2) blocks_for_conf [OF D(5)]
    by (simp add: running_ok_def blocks_needed_def num_uncomputed_tokens_def num_tokens_def)
  moreover have d: "distinct (running s)" using sinv_distinct [OF inv] by simp
  moreover note pages_grow [OF d r(1), of block_table ?q "store s" blks]
  moreover have "own_pages (bm ?s) (pages block_table ((store s)(r := ?q)) (running s)) (((store s)(r := ?q)) x)"
    if x: "x \<in> set (running s)" for x
  proof -
    note H = grow_success [OF bmi a(1)]
    have bs: "block_size bm' = block_size (bm s)" using a(3) by (simp add: gpu_frame_def bm_static_def)
    have pg: "pages block_table ((store s)(r := ?q)) (running s) = pages block_table (store s) (running s) + mset blks"
      using pages_grow [OF d r(1), of block_table ?q "store s" blks] by simp
    have own: "own_pages (bm s) (pages block_table (store s) (running s)) (store s x)"
      using cache_invD(1) [OF D(7), of x] x by simp
    show ?thesis
    proof (cases "x = r")
      case True
      have "int (length (block_table (store s r))) = ceil_div (num_computed_tokens (store s r)) (sch_block_size s)"
        "1 \<le> num_computed_tokens (store s r)" using ok by (simp_all add: running_ok_def)
      then have "block_table (store s r) \<noteq> []"
        using ceil_div_pos [OF sinv_bs_pos [OF inv], of "num_computed_tokens (store s r)"] by auto
      then have reg: "num_registered_blocks (store s r) * block_size (bm s) \<le> nat (num_computed_tokens (store s r))"
        using own True by (simp add: own_pages_def)
      have "own_pages bm' (pages block_table (store s) (running s) + mset blks) ?q"
        by (rule own_pages_grown [OF own [unfolded True] bmi H(1) bs a(4,5) H(2) _ _ _ reg]) simp_all
      then show ?thesis using True pg by simp
    next
      case False
      have "own_pages bm' (pages block_table (store s) (running s) + mset blks) (store s x)"
        by (rule own_pages_more [OF own bmi H(1) bs]) (use a(5) in auto)
      then show ?thesis using False pg by simp
    qed
  qed
  moreover have "hashes_ok X (block_size (bm s)) ?q"
    using cache_invD(2) [OF D(7), of r] r(1) by (simp add: queue_list_def hashes_ok_def)
  ultimately have "sinv X ?s (p(r := n)) []"
    using r a(6) live_invD [OF D(4), of r] gen_same_live [OF g]
    by (intro sinv_running [OF inv r(1) _ gen_same_static [OF g] _ c])
      (simp_all add: set_seq_def queue_list_def)
  moreover have "drops_finished s ?s"
  proof (rule drops_finished_upd)
    show "store ?s = (store s)(r := ?q)" "seqs ?s = seqs s" by (simp_all add: set_seq_def)
    have "is_finished ?q = is_finished (store s r)" by (simp add: is_finished_def)
    then show "is_finished ?q = is_finished (store s r) \<or> \<not> is_finished (store s r)" ..
  qed
  then have "sched_frame s ?s" using c g grow_success(1) [OF bmi a(1)] by (simp add: sched_frame_def set_seq_def)
  ultimately show ?thesis using a(1) by blast
qed

section \<open>The walk over the running sequences\<close>

definition plan_ok :: "scheduler \<Rightarrow> (sref \<times> int) list \<Rightarrow> bool" where
  "plan_ok s plan \<longleftrightarrow> (\<forall>r \<in> set (running s). \<exists>n. map_of plan r = Some n \<and> 0 \<le> n \<and>
     n \<le> num_uncomputed_tokens (store s r) \<and> (\<not> chunked s \<longrightarrow> n = 1))"

text \<open>
  What the walk from position \<open>i\<close> on delivers: the survivors are a prefix of the running list, each
  computes exactly its planned tokens, and nothing is preempted unless the counter says so.
\<close>

definition walked ::
  "externals \<Rightarrow> (sref \<times> int) list \<Rightarrow> scheduler \<Rightarrow> scheduled_batch \<Rightarrow> scheduler \<Rightarrow> (sref \<Rightarrow> int)
     \<Rightarrow> scheduled_batch \<Rightarrow> bool" where
  "walked X plan s b s' p' b' \<longleftrightarrow>
     sinv X s' p' [] \<and> batch_ok s' p' b' \<and> sched_frame s s' \<and> (\<exists>k. running s' = take k (running s)) \<and>
     (\<forall>r \<in> set (running s'). map_of plan r = Some (p' r)) \<and>
     grew (b_seqs b) (b_seqs b') \<and> grew (outputs s) (outputs s') \<and> waiting s' = waiting s \<and>
     swap_in b' = swap_in b \<and> num_preempted b \<le> num_preempted b' \<and>
     (num_preempted b' = num_preempted b \<longrightarrow>
        swap_out b' = swap_out b \<and> swapped s' = swapped s \<and> preempted s' = preempted s)"

lemma in_drop_pos:
  assumes "sinv X s p []" and "i < length (running s)" and "r = running s ! i"
    and "set (b_seqs b) \<subseteq> set (take i (running s))"
  shows "r \<notin> set (b_seqs b)" and "r \<notin> set (take i (running s))"
proof -
  have "distinct (running s)" using sinv_distinct [OF assms(1)] by simp
  moreover have "running s = take i (running s) @ r # drop (Suc i) (running s)"
    using id_take_nth_drop [OF assms(2)] assms(3) by simp
  ultimately show "r \<notin> set (take i (running s))"
    by (metis distinct_append disjoint_iff list.set_intros(1))
  with assms(4) show "r \<notin> set (b_seqs b)" by blast
qed

lemma walkedD:
  assumes "walked X plan s b s' p' b'"
  shows "sinv X s' p' []" "batch_ok s' p' b'" "sched_frame s s'" "\<exists>k. running s' = take k (running s)"
    and "\<forall>r \<in> set (running s'). map_of plan r = Some (p' r)"
    and "grew (b_seqs b) (b_seqs b')" "grew (outputs s) (outputs s')" "waiting s' = waiting s"
    and "swap_in b' = swap_in b" "num_preempted b \<le> num_preempted b'"
    and "num_preempted b' = num_preempted b \<Longrightarrow>
           swap_out b' = swap_out b \<and> swapped s' = swapped s \<and> preempted s' = preempted s"
  using assms unfolding walked_def by simp_all

lemma walked_trans:
  assumes f: "sched_frame s s1" and t: "\<exists>k. running s1 = take k (running s)"
    and g: "grew (b_seqs b) (b_seqs b1)" "grew (outputs s) (outputs s1)"
    and same: "waiting s1 = waiting s" "swap_in b1 = swap_in b"
    and n: "num_preempted b \<le> num_preempted b1" "num_preempted b1 = num_preempted b \<Longrightarrow>
      swap_out b1 = swap_out b \<and> swapped s1 = swapped s \<and> preempted s1 = preempted s"
    and w: "walked X plan s1 b1 s' p' b'"
  shows "walked X plan s b s' p' b'"
  unfolding walked_def
proof (intro conjI impI)
  note W = walkedD [OF w]
  from t W(4) obtain k k' where "running s1 = take k (running s)" "running s' = take k' (running s1)" by blast
  then have "running s' = take (min k' k) (running s)" by simp
  then show "\<exists>k. running s' = take k (running s)" by blast
  show "sched_frame s s'" by (rule sched_frame_trans [OF f W(3)])
  show "grew (b_seqs b) (b_seqs b')" by (rule grew_trans [OF g(1) W(6)])
  show "grew (outputs s) (outputs s')" by (rule grew_trans [OF g(2) W(7)])
  show "num_preempted b \<le> num_preempted b'" using W(10) n(1) by linarith
  assume "num_preempted b' = num_preempted b"
  then have "num_preempted b' = num_preempted b1" "num_preempted b1 = num_preempted b"
    using W(10) n(1) by linarith+
  with W(11) n(2) show "swap_out b' = swap_out b" "swapped s' = swapped s" "preempted s' = preempted s"
    by simp_all
qed (use walkedD [OF w] same in \<open>simp_all\<close>)

lemma plan_ok_same:
  "plan_ok s plan \<Longrightarrow> set (running s') \<subseteq> set (running s) \<Longrightarrow> chunked s' = chunked s \<Longrightarrow>
   (\<And>r. r \<in> set (running s') \<Longrightarrow> num_uncomputed_tokens (store s' r) = num_uncomputed_tokens (store s r)) \<Longrightarrow>
   plan_ok s' plan"
  unfolding plan_ok_def by (metis subsetD)

lemma running_loop_ok:
  assumes "sinv X s p []" and "batch_ok s p b" and "plan_ok s plan"
    and "set (b_seqs b) \<subseteq> set (take i (running s))"
    and "\<forall>r \<in> set (take i (running s)). map_of plan r = Some (p r)"
  shows "\<exists>s' b' p'. running_loop plan i s b = Inr (s', b') \<and> walked X plan s b s' p' b' \<and>
     (i = 0 \<and> running s \<noteq> [] \<and> map_of plan (running s ! 0) \<noteq> Some 0 \<longrightarrow>
        b_seqs b' \<noteq> [] \<or> outputs s' \<noteq> outputs s)"
  using assms
proof (induction "length (running s) - i" arbitrary: i s p b rule: less_induct)
  case less
  note inv = less.prems(1)
  show ?case
  proof (cases "i < length (running s)")
    case False
    then have "running_loop plan i s b = Inr (s, b)" by (subst running_loop.simps) simp
    moreover have "walked X plan s b s p b"
      using less.prems False by (auto simp: walked_def intro!: exI [of _ "length (running s)"])
    ultimately show ?thesis using False by (intro exI [of _ s] exI [of _ b] exI [of _ p]) auto
  next
    case i: True
    define r where "r = running s ! i"
    have r: "r \<in> set (running s)" using i by (simp add: r_def)
    note out = in_drop_pos [OF inv i r_def less.prems(4)]
    obtain n where n: "map_of plan r = Some n" "0 \<le> n" "n \<le> num_uncomputed_tokens (store s r)"
        "\<not> chunked s \<Longrightarrow> n = 1"
      using less.prems(3) r unfolding plan_ok_def by blast
    have pr: "p r = 0" using batch_okD(4) [OF less.prems(2) out(1)] .
    have tk: "take (Suc i) (running s) = take i (running s) @ [r]"
      using i by (simp add: take_Suc_conv_app_nth r_def)
    show ?thesis
    proof (cases "n = 0")
      case True
      have "\<exists>s' b' p'. running_loop plan (Suc i) s b = Inr (s', b') \<and> walked X plan s b s' p' b'"
      proof -
        have "length (running s) - Suc i < length (running s) - i" using i by simp
        moreover have "set (b_seqs b) \<subseteq> set (take (Suc i) (running s))" using tk less.prems(4) by auto
        moreover have "\<forall>x \<in> set (take (Suc i) (running s)). map_of plan x = Some (p x)"
          using tk less.prems(5) n(1) True pr by auto
        ultimately show ?thesis using less.hyps [of s "Suc i" p b] less.prems(1-3) by blast
      qed
      moreover have "running_loop plan i s b = running_loop plan (Suc i) s b"
        using i n(1) True by (subst running_loop.simps) (simp add: r_def [symmetric])
      ultimately show ?thesis using True n(1) by (auto simp: r_def)
    next
      case False
      have "p (running s ! j) = 0" if "i \<le> j" "j < length (running s)" for j
      proof -
        have "running s ! j \<notin> set (take j (running s))"
          using in_drop_pos(2) [OF inv that(2) refl, of empty_batch] by (simp add: empty_batch_def)
        then have "running s ! j \<notin> set (take i (running s))" using that(1) set_take_subset_set_take by fast
        with less.prems(4) show ?thesis using batch_okD(4) [OF less.prems(2)] by blast
      qed
      then obtain fits s1 b1 where m: "make_room r n i s b = Inr (fits, s1, b1)"
          "room_made X p r n i s b fits s1 b1"
        using make_room_ok [OF inv i r_def [symmetric], of n b] by blast
      have run1: "\<exists>k \<ge> i. running s1 = take k (running s)"
        using m(2) by (auto simp: room_made_def split: if_splits intro: less_imp_le)
      then have sub1: "set (running s1) \<subseteq> set (running s)" and tk1: "take i (running s1) = take i (running s)"
        by (auto dest: in_set_takeD simp: min_def)
      have st1: "store s1 x = store s x" if "x \<in> set (running s1)" for x
        using m(2) that by (simp add: room_made_def)
      have cf: "chunked s1 = chunked s" using m(2) by (simp add: room_made_def sched_frame_def conf_same_def)
      have b1: "batch_same b b1" "b_seqs b1 = b_seqs b" using m(2) by (simp_all add: room_made_def batch_same_def)
      have sub2: "set (b_seqs b) \<subseteq> set (running s1)"
        using less.prems(4) tk1 set_take_subset [of i "running s1"] by auto
      have bok: "batch_ok s1 p b1"
        by (rule batch_ok_same [OF less.prems(2) b1(1) sub2]) (use sub2 st1 in \<open>auto simp: samples_def\<close>)
      have pok: "plan_ok s1 plan" by (rule plan_ok_same [OF less.prems(3) sub1 cf]) (simp add: st1)
      have inv1: "sinv X s1 p []" using m(2) by (simp add: room_made_def)
      have W: "walked X plan s1 b1 s' p' b' \<Longrightarrow> walked X plan s b s' p' b'" for s' p' b'
        by (rule walked_trans) (use m(2) run1 b1 in \<open>auto simp: room_made_def batch_same_def split: if_splits\<close>)
      show ?thesis
      proof (cases fits)
        case fits: False
        then have r1: "running s1 = take i (running s)" using m(2) by (simp add: room_made_def)
        then have "running_loop plan i s1 b1 = Inr (s1, b1)" by (subst running_loop.simps) simp
        then have run: "running_loop plan i s b = Inr (s1, b1)"
          using i n(1) False m(1) fits by (subst running_loop.simps) (simp add: r_def [symmetric])
        have "walked X plan s1 b1 s1 p b1"
          using inv1 bok less.prems(5) r1 by (auto simp: walked_def intro!: exI [of _ i])
        moreover have "i = 0 \<longrightarrow> outputs s1 \<noteq> outputs s" using m(2) fits by (auto simp: room_made_def)
        ultimately show ?thesis using run W by blast
      next
        case fits: True
        then obtain k where k: "i < k" "running s1 = take k (running s)"
          and can: "can_append (bm s1) (store s1 r) n" and outs: "outputs s1 = outputs s"
          using m(2) by (auto simp: room_made_def)
        have i1: "i < length (running s1)" "running s1 ! i = r" using k i by (simp_all add: r_def)
        then have r1: "r \<in> set (running s1)" by (metis nth_mem)
        obtain bm' blks where a: "append_slots (bm s1) (store s1 r) n
              = Inr (bm', (store s1 r)\<lparr>block_table := block_table (store s1 r) @ blks\<rparr>)"
            "sinv X ((set_seq s1 r ((store s1 r)\<lparr>block_table := block_table (store s1 r) @ blks\<rparr>))\<lparr>bm := bm'\<rparr>) (p(r := n)) []"
            "sched_frame s1 ((set_seq s1 r ((store s1 r)\<lparr>block_table := block_table (store s1 r) @ blks\<rparr>))\<lparr>bm := bm'\<rparr>)"
          using append_running_ok [where p = p, OF inv1 r1 pr can] n False st1 [OF r1] cf by auto
        define q where "q = (store s1 r)\<lparr>block_table := block_table (store s1 r) @ blks\<rparr>"
        define s2 where "s2 = (set_seq s1 r q)\<lparr>bm := bm'\<rparr>"
        define b2 where "b2 = batch_add b1 r q n"
        have s2: "sinv X s2 (p(r := n)) []" "sched_frame s1 s2" using a by (simp_all add: s2_def q_def)
        have q2: "num_computed_tokens (store s2 x) = num_computed_tokens (store s1 x)"
            "num_tokens (store s2 x) = num_tokens (store s1 x)" for x
          by (simp_all add: s2_def q_def set_seq_def num_tokens_def)
        have fields: "running s2 = running s1" "outputs s2 = outputs s1" "waiting s2 = waiting s1"
            "swapped s2 = swapped s1" "preempted s2 = preempted s1" "chunked s2 = chunked s1"
          by (simp_all add: s2_def set_seq_def)
        have bok2: "batch_ok s2 (p(r := n)) b2"
          unfolding b2_def
          by (rule batch_ok_add [OF bok]) (use out(1) b1(2) n(2) False r1 sub2 fields(1) q2 in
              \<open>auto simp: samples_def q_def num_tokens_def\<close>)
        have tk2: "take (Suc i) (running s2) = take i (running s) @ [r]"
          using i1 tk1 fields(1) by (simp add: take_Suc_conv_app_nth)
        have bs2: "b_seqs b2 = b_seqs b @ [r]" "swap_in b2 = swap_in b1" "swap_out b2 = swap_out b1"
            "num_preempted b2 = num_preempted b1"
          using b1(2) by (simp_all add: b2_def batch_add_def)
        have pok2: "plan_ok s2 plan"
          by (rule plan_ok_same [OF pok]) (simp_all add: fields num_uncomputed_tokens_def q2 num_tokens_def [symmetric])
        have "\<exists>s' b' p'. running_loop plan (Suc i) s2 b2 = Inr (s', b') \<and> walked X plan s2 b2 s' p' b'"
        proof -
          have "length (running s2) - Suc i < length (running s) - i"
            using i1 k(2) fields(1) i by simp
          moreover have "\<forall>x \<in> set (take (Suc i) (running s2)). map_of plan x = Some ((p(r := n)) x)"
            using tk2 n(1) less.prems(5) out(2) by auto
          moreover have "set (b_seqs b2) \<subseteq> set (take (Suc i) (running s2))"
            using bs2(1) tk2 less.prems(4) by auto
          ultimately show ?thesis
            using less.hyps [of s2 "Suc i" "p(r := n)" b2] s2(1) bok2 pok2 by blast
        qed
        then obtain s' b' p' where l: "running_loop plan (Suc i) s2 b2 = Inr (s', b')"
            "walked X plan s2 b2 s' p' b'" by blast
        have "running_loop plan i s b = Inr (s', b')"
          using i n(1) False m(1) fits a(1) l(1)
          by (subst running_loop.simps) (simp add: r_def [symmetric] s2_def q_def b2_def)
        moreover have "walked X plan s b s' p' b'"
        proof (rule W, rule walked_trans [OF s2(2) _ _ _ _ _ _ _ l(2)])
          show "\<exists>k. running s2 = take k (running s1)" using fields(1) by (metis take_all order_refl)
        qed (simp_all add: fields bs2 b1(2))
        moreover have "b_seqs b' \<noteq> []" using l(2) bs2(1) by (auto simp: walked_def grew_def)
        ultimately show ?thesis by blast
      qed
    qed
  qed
qed

end
