(* ===== verification/Scheduler_Admit.thy ===== *)
theory Scheduler_Admit
  imports Scheduler_Running
begin

text \<open>
  The token plan and its budget, the return of swapped sequences and the admission of waiting ones.
\<close>

section \<open>The plan\<close>

lemma map_fst_plan_chunks: "map fst (plan_chunks st left rs) = rs"
  by (induction st left rs rule: plan_chunks.induct) (simp_all add: Let_def)

lemma plan_chunks_range:
  assumes "0 \<le> left" and "\<And>r. r \<in> set rs \<Longrightarrow> 1 \<le> num_uncomputed_tokens (st r)"
    and "(r, n) \<in> set (plan_chunks st left rs)"
  shows "0 \<le> n \<and> n \<le> num_uncomputed_tokens (st r)"
  using assms
proof (induction st left rs rule: plan_chunks.induct)
  case (2 st left x rs)
  then show ?case by (fastforce simp: Let_def split: if_splits)
qed simp

lemma plan_chunks_sum:
  assumes "0 \<le> left"
  shows "sum_list (map snd (plan_chunks st left rs))
    \<le> left + int (length (filter (\<lambda>r. num_uncomputed_tokens (st r) = 1) rs))"
  using assms
proof (induction st left rs rule: plan_chunks.induct)
  case (2 st left x rs)
  then show ?case by (auto simp: Let_def)
qed simp

lemma length_filter_less: "x \<in> set xs \<Longrightarrow> \<not> P x \<Longrightarrow> length (filter P xs) < length xs"
  by (induction xs) (auto simp: le_imp_less_Suc)

lemma map_of_map_fst: "distinct (map fst xs) \<Longrightarrow> map_of xs r = Some n \<longleftrightarrow> (r, n) \<in> set xs"
  by simp

lemma running_uncomputed:
  assumes "sinv X s p []" and "r \<in> set (running s)" and "p r = 0"
  shows "1 \<le> num_uncomputed_tokens (store s r)"
    and "\<not> chunked s \<Longrightarrow> num_uncomputed_tokens (store s r) = 1"
  using seqs_invD(1) [OF sinvD(3) [OF assms(1)] assms(2)] assms(3)
  by (simp_all add: running_ok_def num_uncomputed_tokens_def num_tokens_def)

text \<open>Every running sequence has a planned count; the first one is never starved.\<close>

lemma plan_running_ok:
  assumes inv: "sinv X s (\<lambda>_. 0) []"
  shows "plan_ok s (plan_running_tokens s)" and "map fst (plan_running_tokens s) = running s"
    and "\<forall>(r, n) \<in> set (plan_running_tokens s). 0 \<le> n"
    and "running s \<noteq> [] \<Longrightarrow> map_of (plan_running_tokens s) (running s ! 0) \<noteq> Some 0"
    and "sum_list (map snd (plan_running_tokens s))
          \<le> (if chunked s then max_batch_tokens s else max_num_seqs s)"
proof -
  note D = sinvD [OF inv]
  have d: "distinct (running s)" using sinv_distinct [OF inv] by simp
  note un = running_uncomputed [OF inv _ refl]
  let ?one = "\<lambda>r. num_uncomputed_tokens (store s r) = 1"
  define left where "left = max_batch_tokens s - int (length (filter ?one (running s)))"
  have plan: "plan_running_tokens s = (if \<not> chunked s then map (\<lambda>r. (r, 1)) (running s)
      else plan_chunks (store s) left (running s))"
    by (simp add: plan_running_tokens_def left_def)
  have len: "int (length (running s)) \<le> max_batch_tokens s" if "chunked s"
    using D(5,6) that by (simp add: conf_ok_def)
  have left: "0 \<le> left" if "chunked s"
    using len [OF that] length_filter_le [of ?one "running s"] unfolding left_def by linarith
  show fst: "map fst (plan_running_tokens s) = running s"
    by (simp add: plan map_fst_plan_chunks comp_def)
  have range: "0 \<le> n \<and> n \<le> num_uncomputed_tokens (store s r) \<and> (\<not> chunked s \<longrightarrow> n = 1)"
    if "(r, n) \<in> set (plan_running_tokens s)" for r n
  proof (cases "chunked s")
    case True
    with that plan_chunks_range [OF left [OF True], of "running s" "store s" r n] un(1) plan
    show ?thesis by auto
  next
    case False
    with that un(1) plan show ?thesis by auto
  qed
  then show "\<forall>(r, n) \<in> set (plan_running_tokens s). 0 \<le> n" by blast
  show "plan_ok s (plan_running_tokens s)"
    unfolding plan_ok_def
  proof
    fix r assume "r \<in> set (running s)"
    then obtain n where "(r, n) \<in> set (plan_running_tokens s)" using fst by (metis in_set_conv_nth length_map nth_map prod.collapse)
    moreover from this have "map_of (plan_running_tokens s) r = Some n" using fst d by simp
    ultimately show "\<exists>n. map_of (plan_running_tokens s) r = Some n \<and> 0 \<le> n \<and>
        n \<le> num_uncomputed_tokens (store s r) \<and> (\<not> chunked s \<longrightarrow> n = 1)"
      using range by blast
  qed
  show "map_of (plan_running_tokens s) (running s ! 0) \<noteq> Some 0" if "running s \<noteq> []"
  proof -
    from that obtain r rs where rs: "running s = r # rs" by (cases "running s") auto
    show ?thesis
    proof (cases "chunked s \<and> \<not> ?one r")
      case True
      then have "length (filter ?one (running s)) < length (running s)"
        using rs length_filter_less [of r "running s" ?one] by simp
      then have "0 < left" using len True unfolding left_def by linarith
      with True rs plan un(1) [of r] show ?thesis by (simp add: Let_def)
    next
      case False
      with rs plan show ?thesis by auto
    qed
  qed
  show "sum_list (map snd (plan_running_tokens s)) \<le> (if chunked s then max_batch_tokens s else max_num_seqs s)"
    using plan_chunks_sum [OF left, of "store s" "running s"] D(6)
    by (auto simp: plan left_def comp_def sum_list_triv)
qed

text \<open>A batch that takes its counts from the plan stays within the plan's total.\<close>

lemma sum_list_plan:
  assumes "distinct xs" and "distinct (map fst plan)" and "\<forall>(r, n) \<in> set plan. (0::int) \<le> n"
    and "\<forall>r \<in> set xs. map_of plan r = Some (f r)"
  shows "sum_list (map f xs) \<le> sum_list (map snd plan)"
  using assms
proof (induction plan arbitrary: xs)
  case Nil
  then have "xs = []" by (cases xs) auto
  then show ?case by simp
next
  case (Cons e plan)
  obtain r n where e: "e = (r, n)" by (cases e)
  have n: "0 \<le> n" using Cons.prems(3) e by simp
  let ?ys = "remove1 r xs"
  have ys: "distinct ?ys" "set ?ys = set xs - {r}" using Cons.prems(1) by simp_all
  have "sum_list (map f ?ys) \<le> sum_list (map snd plan)"
  proof (rule Cons.IH [OF ys(1)])
    show "\<forall>x \<in> set ?ys. map_of plan x = Some (f x)"
    proof
      fix x assume "x \<in> set ?ys"
      then have "x \<in> set xs" "x \<noteq> r" using ys(2) by auto
      with Cons.prems(4) e show "map_of plan x = Some (f x)" by fastforce
    qed
  qed (use Cons.prems(2,3) in auto)
  moreover have "sum_list (map f xs) \<le> n + sum_list (map f ?ys)"
  proof (cases "r \<in> set xs")
    case True
    then have "f r = n" using Cons.prems(4) e by fastforce
    then show ?thesis using sum_list_map_remove1 [OF True, of f] by simp
  next
    case False
    then show ?thesis using n by (simp add: remove1_idem)
  qed
  ultimately show ?case using e by simp
qed

section \<open>Sequences that join the batch\<close>

definition joined ::
  "externals \<Rightarrow> scheduler \<Rightarrow> (sref \<Rightarrow> int) \<Rightarrow> scheduled_batch \<Rightarrow> scheduler \<Rightarrow> (sref \<Rightarrow> int)
     \<Rightarrow> scheduled_batch \<Rightarrow> sref list \<Rightarrow> bool" where
  "joined X s p b s' p' b' new \<longleftrightarrow>
     sinv X s' p' [] \<and> batch_ok s' p' b' \<and> sched_frame s s' \<and>
     running s' = running s @ new \<and> b_seqs b' = b_seqs b @ new \<and> (\<forall>r \<in> set (running s). p' r = p r) \<and>
     grew (outputs s) (outputs s') \<and> swap_out b' = swap_out b \<and> num_preempted b' = num_preempted b"

lemma joinedD:
  assumes "joined X s p b s' p' b' new"
  shows "sinv X s' p' []" "batch_ok s' p' b'" "sched_frame s s'" "running s' = running s @ new"
    and "b_seqs b' = b_seqs b @ new" "\<forall>r \<in> set (running s). p' r = p r" "grew (outputs s) (outputs s')"
    and "swap_out b' = swap_out b" "num_preempted b' = num_preempted b"
  using assms by (simp_all add: joined_def)

lemma joined_refl: "sinv X s p [] \<Longrightarrow> batch_ok s p b \<Longrightarrow> joined X s p b s p b []"
  by (simp add: joined_def)

text \<open>After a failure, or a step that only touched bookkeeping.\<close>

lemma joined_after:
  assumes j: "joined X s1 p b s' p' b' new" and f: "sched_frame s s1" and "running s1 = running s"
    and "grew (outputs s) (outputs s1)"
  shows "joined X s p b s' p' b' new"
  using joinedD [OF j] assms(3) sched_frame_trans [OF f] grew_trans [OF assms(4)]
  by (simp add: joined_def)

text \<open>After one sequence joined.\<close>

lemma joined_step:
  assumes j: "joined X s1 (p(r := n)) b1 s' p' b' new" and f: "sched_frame s s1"
    and "running s1 = running s @ [r]" "outputs s1 = outputs s" "r \<notin> set (running s)"
    and "b_seqs b1 = b_seqs b @ [r]" "swap_out b1 = swap_out b" "num_preempted b1 = num_preempted b"
  shows "joined X s p b s' p' b' (r # new)"
proof -
  note J = joinedD [OF j]
  have "\<forall>x \<in> set (running s). p' x = p x" using J(6) assms(3,5) by auto
  then show ?thesis
    using J assms(3-) sched_frame_trans [OF f J(3)] by (simp add: joined_def)
qed

lemma sched_frame_pending: "sched_frame s s' \<Longrightarrow> pending (store s') q = pending (store s) q"
  by (rule wq_store_cong(2)) (simp add: sched_frame_def gen_same_static)

section \<open>Swapping in\<close>

lemma batch_ok_join:
  assumes ok: "batch_ok s p b" and inv: "sinv X s' (p(r := n)) []" and "r \<notin> set (running s)" "1 \<le> n"
    and run: "running s' = running s @ [r]" and st: "\<And>x. x \<in> set (running s) \<Longrightarrow> store s' x = store s x"
    and b': "b_seqs b' = b_seqs b" "num_new_tokens b' = num_new_tokens b" "do_sample b' = do_sample b"
      "batch_num_tokens b' = batch_num_tokens b"
  shows "batch_ok s' (p(r := n)) (batch_add b' r (store s' r) n)"
proof -
  note D = batch_okD [OF ok]
  have "batch_ok s p b'" using ok b' unfolding batch_ok_def by simp
  then show ?thesis
    by (rule batch_ok_add) (use D(2) assms(3,4) run b' st in \<open>auto simp: samples_def subset_iff\<close>)
qed

lemma swap_in_step:
  assumes inv: "sinv X s p []" and sw: "swapped s = r # rs" and room: "int (length (running s)) < max_num_seqs s"
    and n: "1 \<le> n" "n \<le> num_uncomputed_tokens (store s r)"
      "\<not> chunked s \<Longrightarrow> n = num_uncomputed_tokens (store s r)"
    and can: "can_swap_in (bm s) (store s r) n wm"
  defines "s0 \<equiv> s\<lparr>swapped := rs\<rparr>"
  shows "\<exists>b1 q1 prs b2 q2. swap_in_seq (bm s0) (store s0 r) = Inr (b1, q1, prs) \<and>
     append_slots b1 q1 n = Inr (b2, q2) \<and>
     sinv X ((set_seq s0 r (q2\<lparr>status := RUNNING\<rparr>))\<lparr>bm := b2, running := running s0 @ [r]\<rparr>) (p(r := n)) [] \<and>
     sched_frame s ((set_seq s0 r (q2\<lparr>status := RUNNING\<rparr>))\<lparr>bm := b2, running := running s0 @ [r]\<rparr>)"
proof -
  have inv0: "sinv X s0 p [r]" unfolding s0_def by (rule sinv_take_swapped [OF inv]) (simp add: sw)
  note D = sinvD [OF inv0]
  let ?q = "store s r" and ?M = "pages block_table (store s) (running s)"
  let ?K = "pages cpu_block_table (store s) rs"
  have ok: "swapped_ok (chunked s) (sch_block_size s) ?q"
    using seqs_invD(2) [OF sinvD(3) [OF inv]] sw by simp
  have bmi: "bm_inv (bm s) ?M (?K + mset (cpu_block_table ?q))"
    using D(1) ok by (simp add: pages_inv_def s0_def swapped_ok_def)
  have len: "int (length (cpu_block_table ?q)) = blocks_for (bm s) (num_computed_tokens ?q)"
    using ok blocks_for_conf [OF sinvD(5) [OF inv]] by (simp add: swapped_ok_def)
  have wm: "0 \<le> watermark_blocks (bm s)" using sinvD(5) [OF inv] by (simp add: conf_ok_def)
  have bs: "0 < block_size (bm s)" by (rule bm_inv_block_size [OF bmi])
  have need: "blocks_for (bm s) (num_computed_tokens ?q + n) \<le> num_free_blocks (bm s)"
    using can wm by (simp add: can_swap_in_def split: if_splits)
  have mono: "blocks_for (bm s) (num_computed_tokens ?q) \<le> blocks_for (bm s) (num_computed_tokens ?q + n)"
    using n(1) bs unfolding blocks_for_def by (intro ceil_div_mono) simp_all
  have "block_table ?q = []" "int (length (cpu_block_table ?q)) \<le> num_free_blocks (bm s)"
    using ok need mono len by (simp_all add: swapped_ok_def)
  then obtain b1 blks where 1: "swap_in_seq (bm s) ?q = Inr (b1, ?q\<lparr>block_table := blks, cpu_block_table := [],
        num_registered_blocks := 0\<rparr>, zip (cpu_block_table ?q) blks)"
      "length blks = length (cpu_block_table ?q)" "bm_inv b1 (?M + mset blks) ?K" "bm_static (bm s) b1"
      "num_free_blocks b1 = num_free_blocks (bm s) - int (length blks)"
      "distinct blks" "set blks \<inter> set_mset ?M = {}"
    using swap_in_seq_ok [OF bmi] by blast
  let ?q1 = "?q\<lparr>block_table := blks, cpu_block_table := [], num_registered_blocks := 0\<rparr>"
  have needed: "blocks_needed b1 ?q1 n = blocks_for (bm s) (num_computed_tokens ?q + n) - int (length blks)"
    by (simp add: blocks_needed_def bm_static_blocks_for [OF 1(4)])
  then have "can_append b1 ?q1 n" using need 1(5) by (simp add: can_append_def)
  from append_slots_ok [OF 1(3) this] obtain b2 more where
    2: "append_slots b1 ?q1 n = Inr (b2, ?q1\<lparr>block_table := blks @ more\<rparr>)"
      "length more = nat (blocks_needed b1 ?q1 n)" "bm_inv b2 (?M + mset blks + mset more) ?K" "gpu_frame b1 b2"
      "distinct more" "set more \<inter> set_mset (?M + mset blks) = {}"
    by auto
  let ?q3 = "?q1\<lparr>block_table := blks @ more, status := RUNNING\<rparr>"
  let ?s = "(set_seq s0 r ?q3)\<lparr>bm := b2, running := running s0 @ [r]\<rparr>"
  have "running_ok (chunked s) (sch_block_size s) n ?q3"
    using ok n 1(2) 2(2) needed mono len blocks_for_conf [OF sinvD(5) [OF inv]]
    by (auto simp: running_ok_def swapped_ok_def num_uncomputed_tokens_def num_tokens_def)
  moreover have "\<not> is_finished ?q" using ok by (simp add: swapped_ok_def is_finished_def)
  moreover have "forgets (bm s0) b2 \<and> own_pages b2 (?M + mset (blks @ more)) ?q3 \<and>
      (\<forall>x \<in> set (running s0). own_pages b2 (?M + mset (blks @ more)) (store s0 x))"
  proof (intro conjI ballI)
    have grow: "append_slots b1 ?q1 n = Inr (b2, ?q1\<lparr>block_table := block_table ?q1 @ more\<rparr>)" using 2(1) by simp
    note H = swap_in_hashes [OF bmi 1(1)] and H' = grow_success [OF 1(3) grow]
    show f: "forgets (bm s0) b2" using forgets_trans [OF H(1) H'(1)] by (simp add: s0_def)
    have nb: "block_size b2 = block_size (bm s0)" using 1(4) 2(4) by (simp add: s0_def gpu_frame_def bm_static_def)
    have new: "distinct (blks @ more)" "set (blks @ more) \<inter> set_mset ?M = {}"
      using 1(6,7) 2(5,6) by auto
    have none: "\<forall>g \<in> set (blks @ more). block_hash b2 ! g = None"
    proof
      fix g assume "g \<in> set (blks @ more)"
      moreover have "block_hash b2 ! g = None" if "g \<in> set blks"
        using H(2) that bm_inv_range [OF 1(3), of g] forgetsD [OF H'(1), of g] by simp
      ultimately show "block_hash b2 ! g = None" using H'(2) by auto
    qed
    show "own_pages b2 (?M + mset (blks @ more)) ?q3"
      unfolding own_pages_def
    proof (intro conjI allI impI)
      fix k assume "num_registered_blocks ?q3 \<le> k \<and> k < length (block_table ?q3)"
      then have "block_table ?q3 ! k \<in> set (blks @ more)" using nth_mem [of k "blks @ more"] by simp
      from own_pages_fresh [OF new none this]
      show "count (?M + mset (blks @ more)) (block_table ?q3 ! k) = 1" "block_hash b2 ! (block_table ?q3 ! k) = None"
        by blast+
    qed simp
    show "own_pages b2 (?M + mset (blks @ more)) (store s0 x)" if "x \<in> set (running s0)" for x
      using others_own_more [OF inv0 _ f nb that, of "mset (blks @ more)"] new(2) ok
      by (auto simp: s0_def swapped_ok_def)
  qed
  ultimately have "sinv X ?s (p(r := n)) [] \<and> sched_frame s0 ?s"
    using room 2(3,4) 1(4) sinv_detached(1) [OF inv0]
    by (intro sinv_put [OF inv0, of ?s ?q3])
      (auto simp: s0_def set_seq_def gen_same_def seq_static_def conf_same_def gpu_frame_def add.assoc
        intro: bm_static_trans)
  moreover have "sched_frame s s0" by (simp add: sched_frame_def s0_def)
  ultimately show ?thesis
    using 1(1) 2(1) sched_frame_trans by (auto simp: s0_def)
qed

text \<open>Tokens added under a budget; without one, a token per sequence.\<close>

definition in_budget :: "int option \<Rightarrow> scheduled_batch \<Rightarrow> scheduled_batch \<Rightarrow> sref list \<Rightarrow> bool" where
  "in_budget budget b b' new \<longleftrightarrow>
     (case budget of
        None \<Rightarrow> batch_num_tokens b' = batch_num_tokens b + int (length new)
      | Some m \<Rightarrow> batch_num_tokens b' \<le> batch_num_tokens b + max 0 m)"

lemma swap_in_loop_ok:
  assumes "sinv X s p []" and "batch_ok s p b" and "chunked s \<longleftrightarrow> budget \<noteq> None"
  shows "\<exists>s' b' p' new. swap_in_loop s b budget = Inr (s', b') \<and> joined X s p b s' p' b' new \<and>
     waiting s' = waiting s \<and> preempted s' = preempted s \<and> (\<exists>k. swapped s' = drop k (swapped s)) \<and>
     in_budget budget b b' new \<and> set new \<subseteq> set (swapped s) \<and>
     (running s = [] \<and> swapped s \<noteq> [] \<and> (\<forall>m. budget = Some m \<longrightarrow> 0 < m) \<longrightarrow>
        b_seqs b' \<noteq> [] \<or> outputs s' \<noteq> outputs s)"
  using assms
proof (induction "length (swapped s)" arbitrary: s p b budget rule: less_induct)
  case less
  note inv = less.prems(1)
  have stop: ?case if "swap_in_loop s b budget = Inr (s, b)"
    "\<not> (running s = [] \<and> swapped s \<noteq> [] \<and> (\<forall>m. budget = Some m \<longrightarrow> 0 < m))"
    using that joined_refl [OF less.prems(1,2)]
    by (intro exI [of _ s] exI [of _ b] exI [of _ p] exI [of _ "[]"] conjI)
      (auto simp: in_budget_def split: option.splits intro: exI [of _ 0])
  show ?case
  proof (cases "swapped s \<noteq> [] \<and> int (length (running s)) < max_num_seqs s")
    case False
    then have "swap_in_loop s b budget = Inr (s, b)" by (subst swap_in_loop.simps) auto
    moreover have "0 < max_num_seqs s" using sinvD(5) [OF inv] by (simp add: conf_ok_def)
    ultimately show ?thesis using False by (intro stop) auto
  next
    case True
    then obtain r rs where sw: "swapped s = r # rs" and room: "int (length (running s)) < max_num_seqs s"
      by (cases "swapped s") auto
    define n where "n = (case budget of None \<Rightarrow> num_uncomputed_tokens (store s r)
                 | Some k \<Rightarrow> min (num_uncomputed_tokens (store s r)) k)"
    have un: "1 \<le> num_uncomputed_tokens (store s r)" "\<not> chunked s \<Longrightarrow> num_uncomputed_tokens (store s r) = 1"
      using seqs_invD(2) [OF sinvD(3) [OF inv], of r] sw
      by (simp_all add: swapped_ok_def num_uncomputed_tokens_def num_tokens_def)
    have unfold: "swap_in_loop s b budget =
        (if n \<le> 0 then Inr (s, b)
         else if \<not> can_swap_in (bm s) (store s r) n (running s \<noteq> []) then
           (if running s = [] then
              rbind (sched_fail (s\<lparr>swapped := rs\<rparr>) r (exhausted_message (s\<lparr>swapped := rs\<rparr>) r))
                (\<lambda>s1. swap_in_loop s1 b budget)
            else Inr (s, b))
         else rbind (swap_in_seq (bm (s\<lparr>swapped := rs\<rparr>)) (store (s\<lparr>swapped := rs\<rparr>) r)) (\<lambda>(b1, q1, pairs).
              rbind (append_slots b1 q1 n) (\<lambda>(b2, q2).
                swap_in_loop ((set_seq (s\<lparr>swapped := rs\<rparr>) r (q2\<lparr>status := RUNNING\<rparr>))
                    \<lparr>bm := b2, running := running (s\<lparr>swapped := rs\<rparr>) @ [r]\<rparr>)
                  (batch_add (b\<lparr>swap_in := swap_in b @ pairs\<rparr>) r (q2\<lparr>status := RUNNING\<rparr>) n)
                  (map_option (\<lambda>k. k - n) budget))))"
      using sw room by (subst swap_in_loop.simps) (simp add: n_def Let_def)
    show ?thesis
    proof (cases "n \<le> 0")
      case True
      with un show ?thesis using unfold by (intro stop) (auto simp: n_def split: option.splits)
    next
      case pos: False
      show ?thesis
      proof (cases "can_swap_in (bm s) (store s r) n (running s \<noteq> [])")
        case False
        show ?thesis
        proof (cases "running s = []")
          case True
          let ?s0 = "s\<lparr>swapped := rs\<rparr>"
          have inv0: "sinv X ?s0 p [r]" by (rule sinv_take_swapped [OF inv]) (simp add: sw)
          obtain s1 out where f: "sched_fail ?s0 r (exhausted_message ?s0 r) = Inr s1" "sinv X s1 p []"
              "sched_frame ?s0 s1" "running s1 = running s" "swapped s1 = rs" "preempted s1 = preempted s"
              "waiting s1 = waiting s" "\<forall>x. x \<noteq> r \<longrightarrow> store s1 x = store s x" "outputs s1 = outputs s @ [out]"
            using fail_ok [OF inv0, of "exhausted_message ?s0 r"] by auto
          have fr: "sched_frame s s1" using f(3) by (simp add: sched_frame_def conf_same_def)
          have bok: "batch_ok s1 p b"
            by (rule batch_ok_same [OF less.prems(2) batch_same_refl])
              (use batch_okD(2) [OF less.prems(2)] True in simp_all)
          have "length (swapped s1) < length (swapped s)" using f(5) sw by simp
          moreover have "chunked s1 \<longleftrightarrow> budget \<noteq> None"
            using fr less.prems(3) by (simp add: sched_frame_def conf_same_def)
          ultimately obtain s' b' p' new where h: "swap_in_loop s1 b budget = Inr (s', b')"
              "joined X s1 p b s' p' b' new" "waiting s' = waiting s1" "preempted s' = preempted s1"
              "\<exists>k. swapped s' = drop k (swapped s1)" "in_budget budget b b' new" "set new \<subseteq> set (swapped s1)"
            using less.hyps [of s1 p b budget] f(2) bok by blast
          have "\<exists>k. swapped s' = drop k (swapped s)"
            using h(5) f(5) sw by (metis drop_Suc_Cons)
          moreover have "outputs s' \<noteq> outputs s"
            using joinedD(7) [OF h(2)] f(9) grew_strict grew_refl by metis
          moreover have "joined X s p b s' p' b' new"
            by (rule joined_after [OF h(2) fr]) (simp_all add: f)
          moreover have "swap_in_loop s b budget = Inr (s', b')"
            using unfold pos False True f(1) h(1) by simp
          moreover have "set new \<subseteq> set (swapped s)" using h(7) f(5) sw by auto
          ultimately show ?thesis using h f by metis
        next
          case ne: False
          with False pos show ?thesis using unfold by (intro stop) auto
        qed
      next
        case can: True
        let ?s0 = "s\<lparr>swapped := rs\<rparr>"
        have n: "1 \<le> n" "n \<le> num_uncomputed_tokens (store s r)"
            "\<not> chunked s \<Longrightarrow> n = num_uncomputed_tokens (store s r)" "\<And>m. budget = Some m \<Longrightarrow> n \<le> m"
          using pos less.prems(3) by (auto simp: n_def split: option.splits)
        from swap_in_step [OF inv sw room n(1,2,3) can] obtain b1 q1 prs b2 q2 where
          st: "swap_in_seq (bm ?s0) (store ?s0 r) = Inr (b1, q1, prs)" "append_slots b1 q1 n = Inr (b2, q2)"
            "sinv X ((set_seq ?s0 r (q2\<lparr>status := RUNNING\<rparr>))\<lparr>bm := b2, running := running ?s0 @ [r]\<rparr>) (p(r := n)) []"
            "sched_frame s ((set_seq ?s0 r (q2\<lparr>status := RUNNING\<rparr>))\<lparr>bm := b2, running := running ?s0 @ [r]\<rparr>)"
          by blast
        define s1 where "s1 = (set_seq ?s0 r (q2\<lparr>status := RUNNING\<rparr>))\<lparr>bm := b2, running := running ?s0 @ [r]\<rparr>"
        define b3 where "b3 = batch_add (b\<lparr>swap_in := swap_in b @ prs\<rparr>) r (q2\<lparr>status := RUNNING\<rparr>) n"
        have fields: "running s1 = running s @ [r]" "swapped s1 = rs" "preempted s1 = preempted s"
            "waiting s1 = waiting s" "outputs s1 = outputs s" "store s1 = (store s)(r := q2\<lparr>status := RUNNING\<rparr>)"
          by (simp_all add: s1_def set_seq_def)
        have r: "r \<notin> set (running s)" using sinv_distinct [OF inv] sw by auto
        have s1: "sinv X s1 (p(r := n)) []" "sched_frame s s1" using st(3,4) by (simp_all add: s1_def)
        have "store s1 x = store s x" if "x \<in> set (running s)" for x using that r fields(6) by auto
        then have bok: "batch_ok s1 (p(r := n)) b3"
          using batch_ok_join [OF less.prems(2) s1(1) r n(1) fields(1), of "b\<lparr>swap_in := swap_in b @ prs\<rparr>"]
          by (simp add: fields(6) b3_def)
        have b3: "b_seqs b3 = b_seqs b @ [r]" "swap_out b3 = swap_out b" "num_preempted b3 = num_preempted b"
            "batch_num_tokens b3 = batch_num_tokens b + n"
          by (simp_all add: b3_def batch_add_def)
        have "length (swapped s1) < length (swapped s)" using fields(2) sw by simp
        moreover have "chunked s1 \<longleftrightarrow> map_option (\<lambda>k. k - n) budget \<noteq> None"
          using s1(2) less.prems(3) by (simp add: sched_frame_def conf_same_def)
        ultimately obtain s' b' p' new where h: "swap_in_loop s1 b3 (map_option (\<lambda>k. k - n) budget) = Inr (s', b')"
            "joined X s1 (p(r := n)) b3 s' p' b' new" "waiting s' = waiting s1" "preempted s' = preempted s1"
            "\<exists>k. swapped s' = drop k (swapped s1)" "in_budget (map_option (\<lambda>k. k - n) budget) b3 b' new"
            "set new \<subseteq> set (swapped s1)"
          using less.hyps [of s1 "p(r := n)" b3 "map_option (\<lambda>k. k - n) budget"] s1(1) bok by blast
        have j: "joined X s p b s' p' b' (r # new)"
          by (rule joined_step [OF h(2) s1(2) fields(1,5) r b3(1,2,3)])
        have "swap_in_loop s b budget = Inr (s', b')"
          using unfold pos can st(1,2) h(1) by (simp add: s1_def b3_def)
        moreover have "in_budget budget b b' (r # new)"
          using h(6) b3(4) n un(2) less.prems(3) by (auto simp: in_budget_def split: option.splits)
        moreover have "\<exists>k. swapped s' = drop k (swapped s)"
          using h(5) fields(2) sw by (metis drop_Suc_Cons)
        moreover have "b_seqs b' \<noteq> []" using joinedD(5) [OF j] by simp
        moreover have "set (r # new) \<subseteq> set (swapped s)" using h(7) fields(2) sw by auto
        ultimately show ?thesis using j h(3,4) fields(3,4) by metis
      qed
    qed
  qed
qed

end
