(* ===== verification/Scheduler_Schedule.thy ===== *)
theory Scheduler_Schedule
  imports Scheduler_Admit
begin

text \<open>
  Admission, and the whole of \<open>schedule\<close> in both modes: it never raises, keeps the invariant,
  respects the budget, and makes progress whenever there is work.
\<close>

section \<open>One admission\<close>

text \<open>What the loop looks at for its candidate \<open>r\<close>.\<close>

definition admit_tokens :: "scheduler \<Rightarrow> sequence \<Rightarrow> nat list \<Rightarrow> int \<Rightarrow> int" where
  "admit_tokens s q cached budget =
     (let remaining = num_tokens q - int (length cached) * int (sch_block_size s)
      in if chunked s then min remaining budget else remaining)"

lemma queued_hashes:
  assumes "sinv X s p xs" and "r \<in> set (queue_list s xs)"
  shows "hashes_ok X (block_size (bm s)) (store s r)" "token_ids (store s r) \<noteq> []"
  using cache_invD(2) [OF sinvD(7) [OF assms(1)] assms(2)] sinv_live [OF assms]
  by (auto simp: live_ok_def tokens_consistent_def)

lemma queued_order: "admission_order s = r # rs \<Longrightarrow> r \<in> set (queue_list s [])"
  by (metis UnCI admission_order_def append.assoc append_Nil2 list.set_intros(1) queue_list_def set_append)

lemma touch_hashes:
  assumes inv: "sinv X s p []" and c: "cached_prefix X (bm s) (store s r) = (q, cached)"
    and r: "r \<in> set (queue_list s [])"
  shows "sinv X (set_seq s r q) p [] \<and> sched_frame s (set_seq s r q)"
    and "same_state (store s r) q"
proof -
  have "q = (store s r)\<lparr>block_hashes := block_hashes q\<rparr>"
    using cached_prefix_frame [of X "bm s" "store s r"] c by simp
  then have "\<exists>h. q = (store s r)\<lparr>block_hashes := h\<rparr>" by blast
  then show same: "same_state (store s r) q"
    by (auto simp: same_state_def gen_same_def seq_static_def)
  show "sinv X (set_seq s r q) p [] \<and> sched_frame s (set_seq s r q)"
  proof (rule sinv_touch [OF inv _ same])
    have "block_size (bm s) = sch_block_size s" using sinvD(5) [OF inv] by (simp add: conf_ok_def)
    then show "hashes_ok X (block_size (bm s)) q"
      using cached_prefix_chain(2) [OF queued_hashes [OF inv r]] sinv_bs_pos [OF inv] c queued_hashes(1) [OF inv r]
      by (cases "enable_prefix_caching (bm s)") (auto simp: cached_prefix_def)
  qed (simp_all add: set_seq_def conf_same_def)
qed

lemma admission_order_frame:
  "sched_frame s s' \<Longrightarrow> preempted s' = preempted s \<Longrightarrow>
     pending (store s) (waiting s') = pending (store s) (waiting s) \<Longrightarrow> admission_order s' = admission_order s"
  by (simp add: admission_order_def sched_frame_pending)

lemma admitted_ok:
  assumes inv: "sinv X s p []" and ord: "admission_order s = r # rs"
    and c: "cached = snd (cached_prefix X (bm s) q0)" "token_ids q0 = token_ids (store s r)"
      "hashes_ok X (block_size (bm s)) q0"
    and n: "n = admit_tokens s (store s r) cached budget" "0 < budget"
    and room: "int (length (running s)) < max_num_seqs s"
    and can: "can_allocate (bm s) (store s r) n cached wm = Inr True"
  shows "\<exists>s1 bm' q. pop_waiting s r = Inr s1 \<and> bm s1 = bm s \<and> store s1 r = store s r \<and>
     allocate (bm s1) (store s1 r) n cached = Inr (bm', q) \<and> 1 \<le> n \<and>
     sinv X ((set_seq s1 r (q\<lparr>status := RUNNING\<rparr>))\<lparr>bm := bm', running := running s1 @ [r]\<rparr>) (p(r := n)) [] \<and>
     sched_frame s ((set_seq s1 r (q\<lparr>status := RUNNING\<rparr>))\<lparr>bm := bm', running := running s1 @ [r]\<rparr>) \<and>
     running s1 = running s \<and> swapped s1 = swapped s \<and> outputs s1 = outputs s \<and> store s1 = store s \<and>
     admission_order s1 = rs \<and> r \<notin> set (running s) \<and> cache_hits X (bm s) (q\<lparr>status := RUNNING\<rparr>)"
proof -
  obtain s1 where 1: "pop_waiting s r = Inr s1" "sinv X s1 p [r]" "sched_frame s s1"
      "admission_order s1 = rs" "store s1 = store s" "bm s1 = bm s" "running s1 = running s"
      "swapped s1 = swapped s" "outputs s1 = outputs s" "idle_ok (status (store s r)) (store s r)"
    using pop_waiting_ok [OF inv ord] by blast
  note D = sinvD [OF 1(2)]
  let ?q = "store s r" and ?c = "int (length cached) * int (block_size (bm s))"
  let ?M = "pages block_table (store s) (running s)" and ?K = "pages cpu_block_table (store s) (swapped s)"
  have bs: "sch_block_size s = block_size (bm s)" and wm: "0 \<le> watermark_blocks (bm s)"
    using sinvD(5) [OF inv] by (simp_all add: conf_ok_def)
  have bmi: "bm_inv (bm s) ?M ?K"
    using sinvD(1) [OF inv] by (simp add: pages_inv_def)
  have pos: "0 < block_size (bm s)" by (rule bm_inv_block_size [OF bmi])
  have "r \<in> set (queue_list s [])" using ord by (auto simp: queue_list_def admission_order_def)
  then have "live_ok (max_model_len s) ?q" and alive: "\<not> is_finished ?q" by (rule sinv_live [OF inv], rule queued_alive [OF inv])
  then have ne: "token_ids ?q \<noteq> []" by (auto simp: live_ok_def tokens_consistent_def)
  have left: "?c < num_tokens ?q"
    using cached_prefix_leaves_token [OF pos, of q0 X] ne c by (simp add: num_tokens_def)
  have n1: "1 \<le> n" "?c + n \<le> num_tokens ?q" "\<not> chunked s \<Longrightarrow> ?c + n = num_tokens ?q"
    using n left bs by (auto simp: admit_tokens_def Let_def)
  have "0 \<le> ?c" by simp
  then have one: "1 \<le> ?c + n" using n1(1) by linarith
  have empty: "block_table ?q = []" "cpu_block_table ?q = []" using 1(10) by (simp_all add: idle_ok_def)
  obtain bm' blks where 2: "allocate (bm s) ?q n cached = Inr (bm', ?q\<lparr>block_table := cached @ blks,
        num_computed_tokens := ?c, num_cached_tokens := ?c, num_registered_blocks := length cached\<rparr>)"
      "length blks = nat (blocks_for (bm s) (?c + n) - int (length cached))"
      "bm_inv bm' (?M + mset (cached @ blks)) ?K" "gpu_frame (bm s) bm'"
      "distinct blks" "set blks \<inter> (set_mset ?M \<union> set cached) = {}"
    using allocate_ok [OF bmi empty(1) _ can wm] cached_prefix_hits [OF bmi] unfolding c(1) by blast
  let ?q1 = "?q\<lparr>block_table := cached @ blks, num_computed_tokens := ?c, num_cached_tokens := ?c,
      num_registered_blocks := length cached\<rparr>"
  let ?q2 = "?q1\<lparr>status := RUNNING\<rparr>"
  let ?s = "(set_seq s1 r ?q2)\<lparr>bm := bm', running := running s1 @ [r]\<rparr>"
  have "blocks_for (bm s) (?c + n) = int (length cached) + blocks_for (bm s) n"
    unfolding blocks_for_def by (rule ceil_div_add_mult [OF pos])
  moreover have "0 \<le> blocks_for (bm s) n"
    using n1(1) pos unfolding blocks_for_def by (intro ceil_div_nonneg) simp_all
  ultimately have len: "int (length (cached @ blks)) = ceil_div (?c + n) (sch_block_size s)"
    using 2(2) bs by (simp add: blocks_for_def)
  have cf: "chunked s1 = chunked s" "sch_block_size s1 = sch_block_size s" "max_num_seqs s1 = max_num_seqs s"
    using 1(3) by (simp_all add: sched_frame_def conf_same_def)
  have hits: "\<forall>blk \<in> set cached. blk < num_blocks (bm s) \<and> block_hash (bm s) ! blk \<noteq> None"
    using cached_prefix_hits [OF bmi] unfolding c(1) by blast
  note H = allocate_hashes [OF bmi hits 2(1)]
  have none: "\<forall>g \<in> set blks. block_hash bm' ! g = None" using H(2) by simp
  have nb: "block_size bm' = block_size (bm s)" using 2(4) by (simp add: gpu_frame_def bm_static_def)
  have own: "own_pages bm' (?M + mset (cached @ blks)) ?q2"
    unfolding own_pages_def
  proof (intro conjI allI impI)
    fix k assume "num_registered_blocks ?q2 \<le> k \<and> k < length (block_table ?q2)"
    then have k: "block_table ?q2 ! k \<in> set blks" by (auto simp: nth_append)
    have "set blks \<inter> set_mset (?M + mset cached) = {}" using 2(6) by auto
    from own_pages_fresh [OF 2(5) this none k]
    show "count (?M + mset (cached @ blks)) (block_table ?q2 ! k) = 1" "block_hash bm' ! (block_table ?q2 ! k) = None"
      by (simp_all add: add.assoc)
  qed (use nb in \<open>simp add: nat_mult_distrib\<close>)
  have others: "own_pages bm' (?M + mset (cached @ blks)) (store s x)" if "x \<in> set (running s)" for x
    using others_own_more [OF 1(2) _ _ nb [folded 1(6)], of x "mset (cached @ blks)"] that 1(5-7) H(1) empty(1) hits 2(6)
    by fastforce
  have "running_ok (chunked s) (sch_block_size s) n ?q2"
    using n1 one len empty(2) by (auto simp: running_ok_def num_tokens_def)
  then have "sinv X ?s (p(r := n)) [] \<and> sched_frame s1 ?s"
    using room 2(3,4) 1(5-8) empty(2) cf sinv_detached(1) [OF 1(2)] alive H(1) own others
    by (intro sinv_put [OF 1(2), of ?s ?q2])
      (auto simp: set_seq_def gen_same_def seq_static_def conf_same_def gpu_frame_def)
  moreover have "cache_hits X (bm s) ?q2"
    by (rule cached_prefix_cache_hits [OF bmi c(3) _ c(1), of _ blks]) (use c(2) ne in simp_all)
  ultimately show ?thesis
    using 1 2(1) n1(1) sched_frame_trans [OF 1(3)] sinv_detached(1) [OF 1(2)]
    by (intro exI [of _ s1] exI [of _ bm'] exI [of _ ?q1]) simp
qed

text \<open>With nothing running, the head of the order is admitted or reported as too large.\<close>

lemma admission_fits:
  assumes inv: "sinv X s p []" and none: "running s = []" and "swapped s = []"
    and c: "cached = snd (cached_prefix X (bm s) q0)"
    and fits: "blocks_for (bm s) (num_tokens q) \<le> int (num_blocks (bm s))"
    and n: "int (length cached) * int (block_size (bm s)) + n \<le> num_tokens q"
  shows "can_allocate (bm s) q n cached False = Inr True"
proof -
  have bmi: "bm_inv (bm s) {#} {#}" using sinvD(1) [OF inv] assms(2,3) by (simp add: pages_inv_def)
  have pos: "0 < block_size (bm s)" by (rule bm_inv_block_size [OF bmi])
  have free: "num_free_blocks (bm s) = int (num_blocks (bm s))" using bm_inv_num_free [OF bmi] by simp
  have "\<forall>blk \<in> set cached. blk < num_blocks (bm s)" using cached_prefix_hits [OF bmi] c by blast
  note can = can_allocate_eq [OF bmi this, of q n False]
  have "blocks_for (bm s) (int (length cached) * int (block_size (bm s)) + n) \<le> blocks_for (bm s) (num_tokens q)"
    using n pos unfolding blocks_for_def by (rule ceil_div_mono [rotated])
  then show ?thesis using can fits free by simp
qed

section \<open>The admission loop\<close>

text \<open>
  The candidates taken are a prefix of the admission order; those that were not too large for the
  cache join the batch in that order, so nothing overtakes a request that does not fit.
\<close>

definition admitted_prefix :: "scheduler \<Rightarrow> scheduler \<Rightarrow> sref list \<Rightarrow> bool" where
  "admitted_prefix s s' new \<longleftrightarrow>
     (\<exists>taken. admission_order s = taken @ admission_order s' \<and>
        new = filter (\<lambda>r. status (store s' r) = RUNNING) taken \<and>
        (\<forall>r \<in> set taken. status (store s' r) \<in> {RUNNING, FINISHED}))"

text \<open>A sequence that left the order, or never was in it, is settled.\<close>

definition settled :: "scheduler \<Rightarrow> scheduler \<Rightarrow> bool" where
  "settled s s' \<longleftrightarrow> (\<forall>r. r \<notin> set (admission_order s) \<longrightarrow> store s' r = store s r)"

text \<open>An admitted sequence starts from the pages that were in the cache for its tokens.\<close>

definition from_cache :: "externals \<Rightarrow> scheduler \<Rightarrow> scheduler \<Rightarrow> sref list \<Rightarrow> bool" where
  "from_cache X s s' new \<longleftrightarrow> (\<forall>r \<in> set new. cache_hits X (bm s) (store s' r))"

lemma from_cache_Nil [simp]: "from_cache X s s' []" by (simp add: from_cache_def)

lemma from_cache_frame: "sched_frame s s1 \<Longrightarrow> from_cache X s1 s' new \<Longrightarrow> from_cache X s s' new"
  unfolding from_cache_def sched_frame_def conf_same_def using cache_hits_frame by blast

lemma admitted_prefix_cons:
  assumes "admission_order s = r # admission_order s1" and "admitted_prefix s1 s' new"
    and "status (store s1 r) \<in> {RUNNING, FINISHED}" and "settled s1 s'" and "distinct (admission_order s)"
  shows "admitted_prefix s s' (if status (store s1 r) = RUNNING then r # new else new)"
proof -
  obtain taken where t: "admission_order s1 = taken @ admission_order s'"
      "new = filter (\<lambda>r. status (store s' r) = RUNNING) taken"
      "\<forall>r \<in> set taken. status (store s' r) \<in> {RUNNING, FINISHED}"
    using assms(2) by (auto simp: admitted_prefix_def)
  have "status (store s' r) = status (store s1 r)"
    using assms(1,4,5) by (simp add: settled_def)
  with t assms(1,3) show ?thesis
    by (intro admitted_prefix_def [THEN iffD2] exI [of _ "r # taken"]) auto
qed

lemma distinct_order: "sinv X s p xs \<Longrightarrow> distinct (admission_order s)"
  using sinv_distinct by (fastforce simp: admission_order_def)

definition admits ::
  "externals \<Rightarrow> scheduler \<Rightarrow> (sref \<Rightarrow> int) \<Rightarrow> scheduled_batch \<Rightarrow> int \<Rightarrow> scheduler \<Rightarrow> (sref \<Rightarrow> int)
     \<Rightarrow> scheduled_batch \<Rightarrow> sref list \<Rightarrow> bool" where
  "admits X s p b budget s' p' b' new \<longleftrightarrow>
     joined X s p b s' p' b' new \<and> swapped s' = swapped s \<and> swap_in b' = swap_in b \<and>
     batch_num_tokens b' \<le> batch_num_tokens b + max 0 budget \<and>
     admitted_prefix s s' new \<and> settled s s' \<and> from_cache X s s' new"

lemma settled_trans:
  "settled s s1 \<Longrightarrow> settled s1 s' \<Longrightarrow> set (admission_order s1) \<subseteq> set (admission_order s) \<Longrightarrow> settled s s'"
  unfolding settled_def by (metis subsetD)

lemma settled_refl [simp]: "settled s s" by (simp add: settled_def)

lemma admitted_prefix_refl: "admission_order s' = admission_order s \<Longrightarrow> admitted_prefix s s' []"
  by (simp add: admitted_prefix_def)

lemma admits_after:
  assumes a: "admits X s1 p b budget s' p' b' new" and f: "sched_frame s s1"
    and same: "running s1 = running s" "swapped s1 = swapped s" "outputs s1 = outputs s"
      "admission_order s1 = admission_order s" "\<And>x. x \<notin> set (admission_order s) \<Longrightarrow> store s1 x = store s x"
  shows "admits X s p b budget s' p' b' new"
proof -
  have "joined X s p b s' p' b' new"
    by (rule joined_after [OF _ f]) (use a same in \<open>simp_all add: admits_def\<close>)
  then show ?thesis
    using a same from_cache_frame [OF f] by (simp add: admits_def admitted_prefix_def settled_def)
qed

lemma admits_refl: "sinv X s p [] \<Longrightarrow> batch_ok s p b \<Longrightarrow> admits X s p b budget s p b []"
  by (simp add: admits_def joined_refl admitted_prefix_refl)

lemma admits_fail:
  assumes a: "admits X s2 p b budget s' p' b' new" and f: "sched_frame s s2"
    and same: "running s2 = running s" "swapped s2 = swapped s" "outputs s2 = outputs s @ [out]"
    and ord: "admission_order s = r # admission_order s2" "distinct (admission_order s)"
    and st: "status (store s2 r) = FINISHED" "\<And>x. x \<noteq> r \<Longrightarrow> store s2 x = store s x"
  shows "admits X s p b budget s' p' b' new" and "outputs s' \<noteq> outputs s"
proof -
  have j: "joined X s p b s' p' b' new"
    by (rule joined_after [OF _ f]) (use a same in \<open>simp_all add: admits_def\<close>)
  have "settled s2 s'" "admitted_prefix s2 s' new" using a by (simp_all add: admits_def)
  then have "admitted_prefix s s' new"
    using admitted_prefix_cons [OF ord(1), of s' new] ord(2) st(1) by simp
  moreover have "settled s s'"
  proof (rule settled_trans [OF _ \<open>settled s2 s'\<close>])
    show "settled s s2" using ord(1) st(2) by (auto simp: settled_def)
  qed (use ord(1) in auto)
  ultimately show "admits X s p b budget s' p' b' new"
    using a j same from_cache_frame [OF f] by (simp add: admits_def)
  have "grew (outputs s @ [out]) (outputs s')"
    using a same(3) by (simp add: admits_def joined_def)
  then show "outputs s' \<noteq> outputs s" using grew_strict grew_refl by metis
qed

lemma admits_join:
  assumes a: "admits X s3 (p(r := n)) b3 (budget - n) s' p' b' new" and f: "sched_frame s s3"
    and same: "running s3 = running s @ [r]" "swapped s3 = swapped s" "outputs s3 = outputs s"
    and r: "r \<notin> set (running s)" and n: "n \<le> budget" "1 \<le> n"
    and b3: "b_seqs b3 = b_seqs b @ [r]" "swap_out b3 = swap_out b" "num_preempted b3 = num_preempted b"
      "swap_in b3 = swap_in b" "batch_num_tokens b3 = batch_num_tokens b + n"
    and ord: "admission_order s = r # admission_order s3" "distinct (admission_order s)"
    and st: "status (store s3 r) = RUNNING" "\<And>x. x \<noteq> r \<Longrightarrow> store s3 x = store s x"
      "cache_hits X (bm s) (store s3 r)"
  shows "admits X s p b budget s' p' b' (r # new)"
proof -
  have j: "joined X s p b s' p' b' (r # new)"
    by (rule joined_step [where n = n, OF _ f same(1,3) r b3(1-3)]) (use a in \<open>simp add: admits_def\<close>)
  have "settled s3 s'" "admitted_prefix s3 s' new" using a by (simp_all add: admits_def)
  then have "admitted_prefix s s' (r # new)"
    using admitted_prefix_cons [OF ord(1), of s' new] ord(2) st(1) by simp
  moreover have "settled s s'"
  proof (rule settled_trans [OF _ \<open>settled s3 s'\<close>])
    show "settled s s3" using ord(1) st(2) by (auto simp: settled_def)
  qed (use ord(1) in auto)
  moreover have "from_cache X s s' (r # new)"
  proof -
    have "store s' r = store s3 r" using \<open>settled s3 s'\<close> ord by (simp add: settled_def)
    moreover have "from_cache X s s' new" by (rule from_cache_frame [OF f]) (use a in \<open>simp add: admits_def\<close>)
    ultimately show ?thesis using st(3) by (simp add: from_cache_def)
  qed
  ultimately show ?thesis
    using a j same b3 n by (simp add: admits_def)
qed

lemma admit_loop_ok:
  assumes "sinv X s p []" and "batch_ok s p b"
  shows "\<exists>s' b' p' new. admit_loop X s b budget = Inr (s', b') \<and> admits X s p b budget s' p' b' new \<and>
     (running s = [] \<and> swapped s = [] \<and> 0 < budget \<and> (\<not> chunked s \<longrightarrow> max_model_len s \<le> budget) \<and>
      admission_order s \<noteq> [] \<longrightarrow> b_seqs b' \<noteq> [] \<or> outputs s' \<noteq> outputs s)"
  using assms
proof (induction "length (admission_order s)" arbitrary: s p b budget rule: less_induct)
  case less
  note inv = less.prems(1)
  define easy where "easy \<longleftrightarrow> running s = [] \<and> swapped s = [] \<and> 0 < budget \<and>
      (\<not> chunked s \<longrightarrow> max_model_len s \<le> budget) \<and> admission_order s \<noteq> []"
  show ?case
  proof (cases "0 < budget \<and> int (length (running s)) < max_num_seqs s")
    case False
    then have "admit_loop X s b budget = Inr (s, b)" by (subst admit_loop.simps) auto
    moreover have "\<not> easy"
      using False sinvD(5) [OF inv] by (auto simp: easy_def conf_ok_def)
    ultimately show ?thesis
      using admits_refl [OF inv less.prems(2)] unfolding easy_def by blast
  next
    case True
    then have budget: "0 < budget" and room: "int (length (running s)) < max_num_seqs s" by simp_all
    obtain s0 where 0: "admit_candidate s = (s0, case admission_order s of [] \<Rightarrow> None | r # _ \<Rightarrow> Some r)"
        "sinv X s0 p []" "sched_frame s s0" "s0 = s\<lparr>waiting := waiting s0\<rparr>"
        "pending (store s) (waiting s0) = pending (store s) (waiting s)"
      using admit_candidate_ok [OF inv] by blast
    define w where "w = waiting s0"
    have s0: "running s0 = running s" "swapped s0 = swapped s" "preempted s0 = preempted s"
        "outputs s0 = outputs s" "store s0 = store s" "bm s0 = bm s" "max_num_seqs s0 = max_num_seqs s"
        "chunked s0 = chunked s" "max_model_len s0 = max_model_len s"
      using 0(4) unfolding w_def [symmetric] by simp_all
    have ord0: "admission_order s0 = admission_order s"
      by (rule admission_order_frame [OF 0(3) s0(3) 0(5)])
    have bok0: "batch_ok s0 p b"
      using less.prems(2) s0 by (simp add: batch_ok_def)
    note after0 = admits_after [OF _ 0(3) s0(1,2,4) ord0]
    show ?thesis
    proof (cases "admission_order s")
      case Nil
      then have "admit_loop X s b budget = Inr (s0, b)"
        using True 0(1) by (subst admit_loop.simps) simp
      moreover have "admits X s p b budget s0 p b []"
        by (rule after0 [OF admits_refl [OF 0(2) bok0]]) (simp add: s0)
      ultimately show ?thesis using Nil by blast
    next
      case (Cons r rs)
      have dist: "distinct (admission_order s)" by (rule distinct_order [OF inv])
      have ord: "admission_order s0 = r # rs" using Cons ord0 by simp
      show ?thesis
      proof (cases "blocks_for (bm s0) (num_tokens (store s0 r)) > int (num_blocks (bm s0))")
        case big: True
        obtain s1 where 1: "pop_waiting s0 r = Inr s1" "sinv X s1 p [r]" "sched_frame s0 s1"
            "admission_order s1 = rs" "store s1 = store s0" "running s1 = running s0"
            "swapped s1 = swapped s0" "outputs s1 = outputs s0"
          using pop_waiting_ok [OF 0(2) ord] by blast
        obtain s2 out where 2: "sched_fail s1 r (exhausted_message s1 r) = Inr s2" "sinv X s2 p []"
            "sched_frame s1 s2" "running s2 = running s1" "swapped s2 = swapped s1" "preempted s2 = preempted s1"
            "waiting s2 = waiting s1" "\<forall>x. x \<noteq> r \<longrightarrow> store s2 x = store s1 x"
            "status (store s2 r) = FINISHED" "outputs s2 = outputs s1 @ [out]"
          using fail_ok [OF 1(2)] by blast
        have ord2: "admission_order s2 = rs"
          using admission_order_frame [OF 2(3,6)] 2(7) 1(4) by simp
        have "r \<notin> set (running s)" using sinv_detached(1) [OF 1(2)] 1(6) s0(1) by simp
        then have bok2: "batch_ok s2 p b"
          using batch_okD(2) [OF less.prems(2)] 2(4,8) 1(5,6) s0
          by (intro batch_ok_same [OF less.prems(2) batch_same_refl]) (auto simp: samples_def)
        have "length (admission_order s2) < length (admission_order s)" using ord2 Cons by simp
        then obtain s' b' p' new where h: "admit_loop X s2 b budget = Inr (s', b')"
            "admits X s2 p b budget s' p' b' new"
          using less.hyps [of s2 p b budget] 2(2) bok2 by blast
        have fr: "sched_frame s s2" using 0(3) 1(3) 2(3) sched_frame_trans by blast
        have "admits X s p b budget s' p' b' new \<and> outputs s' \<noteq> outputs s"
          using admits_fail [OF h(2) fr, of out r] 2 1 s0 ord2 Cons dist by simp
        moreover have "admit_loop X s b budget = Inr (s', b')"
          using True 0(1) Cons big 1(1) 2(1) h(1) by (subst admit_loop.simps) simp
        ultimately show ?thesis by blast
      next
        case small: False
        obtain q cached where cp: "cached_prefix X (bm s0) (store s0 r) = (q, cached)"
          by (cases "cached_prefix X (bm s0) (store s0 r)")
        define s1 where "s1 = set_seq s0 r q"
        have 1: "sinv X s1 p []" "sched_frame s0 s1" and ss: "same_state (store s0 r) q"
          using touch_hashes [OF 0(2) cp queued_order [OF ord]] by (simp_all add: s1_def)
        have s1: "running s1 = running s" "swapped s1 = swapped s" "outputs s1 = outputs s"
            "store s1 = (store s)(r := q)" "bm s1 = bm s" "preempted s1 = preempted s0"
            "waiting s1 = waiting s0" "max_num_seqs s1 = max_num_seqs s" "chunked s1 = chunked s"
          using s0 by (simp_all add: s1_def set_seq_def)
        have fr1: "sched_frame s s1" by (rule sched_frame_trans [OF 0(3) 1(2)])
        have ord1: "admission_order s1 = r # rs"
          using admission_order_frame [OF 1(2) s1(6)] s1(7) ord by simp
        have stat: "status (store s1 x) = status (store s x)" for x
          using ss s0(5) s1(4) by (simp add: same_state_def)
        have same_num: "token_ids q = token_ids (store s r)" "num_tokens q = num_tokens (store s r)"
            "num_computed_tokens q = num_computed_tokens (store s r)"
          using ss s0(5) by (simp_all add: same_state_def gen_same_def num_tokens_def)
        have bok1: "batch_ok s1 p b"
          using batch_okD(2) [OF less.prems(2)] s1 same_num
          by (intro batch_ok_same [OF less.prems(2) batch_same_refl]) (auto simp: samples_def)
        define n where "n = admit_tokens s1 q cached budget"
        have n_eq: "(if chunked s1 then min (num_tokens q - int (length cached) * int (sch_block_size s1)) budget
            else num_tokens q - int (length cached) * int (sch_block_size s1)) = n"
          by (simp add: n_def admit_tokens_def Let_def)
        have c: "cached = snd (cached_prefix X (bm s1) (store s r))" using cp s0 s1(5) by simp
        have unfold: "admit_loop X s b budget =
            (if n > budget then Inr (s1, b)
             else rbind (can_allocate (bm s1) q n cached (running s1 \<noteq> [])) (\<lambda>ok.
               if \<not> ok then Inr (s1, b)
               else rbind (pop_waiting s1 r) (\<lambda>s2.
                 rbind (allocate (bm s2) (store s2 r) n cached) (\<lambda>(bm', q').
                   admit_loop X ((set_seq s2 r (q'\<lparr>status := RUNNING\<rparr>))\<lparr>bm := bm', running := running s2 @ [r]\<rparr>)
                     (batch_add b r (q'\<lparr>status := RUNNING\<rparr>) n) (budget - n)))))"
          using True 0(1) Cons small cp
          by (subst admit_loop.simps)
            (simp add: Let_def s1_def [symmetric] n_eq cong: if_cong split del: if_split)
        have stop: ?thesis if "admit_loop X s b budget = Inr (s1, b)" "\<not> easy"
        proof -
          have "admits X s p b budget s1 p b []"
            by (rule admits_after [OF admits_refl [OF 1(1) bok1] fr1 s1(1,2,3)]) (simp_all add: ord1 Cons s1(4))
          with that show ?thesis unfolding easy_def by blast
        qed
        have live: "live_ok (max_model_len s) (store s r)"
        proof (rule sinv_live [OF inv])
          have "r \<in> set (admission_order s)" using Cons by simp
          then show "r \<in> set (queue_list s [])" by (auto simp: queue_list_def admission_order_def)
        qed
        then have short: "num_tokens (store s r) \<le> max_model_len s"
          by (auto simp: live_ok_def tokens_consistent_def num_tokens_def num_prompt_tokens_def
              num_output_tokens_def)
        have bs: "sch_block_size s1 = block_size (bm s1)" using sinvD(5) [OF 1(1)] by (simp add: conf_ok_def)
        show ?thesis
        proof (cases "n > budget")
          case over: True
          define remaining where "remaining = num_tokens q - int (length cached) * int (sch_block_size s1)"
          have "remaining \<le> num_tokens q" by (simp add: remaining_def)
          then have "remaining \<le> max_model_len s" using short same_num(2) by linarith
          moreover have "n = (if chunked s then min remaining budget else remaining)"
            using s1(9) by (simp add: n_def admit_tokens_def Let_def remaining_def)
          ultimately have "n \<le> (if chunked s then budget else max_model_len s)" by simp
          with over have "\<not> easy" by (auto simp: easy_def split: if_splits)
          then show ?thesis using unfold over by (intro stop) simp_all
        next
          case fits: False
          have bmi: "bm_inv (bm s1) (pages block_table (store s1) (running s1)) (pages cpu_block_table (store s1) (swapped s1))"
            using sinvD(1) [OF 1(1)] by (simp add: pages_inv_def)
          have "\<forall>blk \<in> set cached. blk < num_blocks (bm s1)"
            using cached_prefix_hits [OF bmi] c by blast
          then obtain ok where can: "can_allocate (bm s1) q n cached (running s1 \<noteq> []) = Inr ok"
            using can_allocate_eq [OF bmi] by blast
          show ?thesis
          proof (cases ok)
            case notok: False
            have "\<not> easy"
            proof
              assume e: easy
              have "int (length cached) * int (block_size (bm s1)) + n \<le> num_tokens q"
              proof -
                have "n \<le> num_tokens q - int (length cached) * int (sch_block_size s1)"
                  by (simp add: n_def admit_tokens_def Let_def)
                then show ?thesis using bs by simp
              qed
              then have "can_allocate (bm s1) q n cached False = Inr True"
                using small s0 s1 same_num e
                by (intro admission_fits [OF 1(1) _ _ c]) (simp_all add: easy_def)
              with can notok e s1(1) show False by (simp add: easy_def)
            qed
            then show ?thesis using unfold fits can notok by (intro stop) simp_all
          next
            case ok: True
            have q: "store s1 r = q" using s1(4) by simp
            have can': "can_allocate (bm s1) (store s1 r) n cached (running s1 \<noteq> []) = Inr True"
              using can ok q by simp
            have tok: "token_ids (store s r) = token_ids (store s1 r)" using q same_num by simp
            have n': "n = admit_tokens s1 (store s1 r) cached budget" using q by (simp add: n_def)
            have room1: "int (length (running s1)) < max_num_seqs s1" using room s1 by simp
            have hq: "hashes_ok X (block_size (bm s1)) (store s r)"
              using queued_hashes(1) [OF inv queued_order [OF Cons]] s1(5) by simp
            from admitted_ok [OF 1(1) ord1 c tok hq n' budget room1 can'] obtain s2 bm' q' where
              2: "pop_waiting s1 r = Inr s2" "allocate (bm s2) (store s2 r) n cached = Inr (bm', q')" "1 \<le> n"
                "sinv X ((set_seq s2 r (q'\<lparr>status := RUNNING\<rparr>))\<lparr>bm := bm', running := running s2 @ [r]\<rparr>) (p(r := n)) []"
                "sched_frame s1 ((set_seq s2 r (q'\<lparr>status := RUNNING\<rparr>))\<lparr>bm := bm', running := running s2 @ [r]\<rparr>)"
                "running s2 = running s1" "swapped s2 = swapped s1" "outputs s2 = outputs s1"
                "store s2 = store s1" "admission_order s2 = rs" "r \<notin> set (running s1)"
                "cache_hits X (bm s1) (q'\<lparr>status := RUNNING\<rparr>)"
              by blast
            define s3 where "s3 = (set_seq s2 r (q'\<lparr>status := RUNNING\<rparr>))\<lparr>bm := bm', running := running s2 @ [r]\<rparr>"
            define b3 where "b3 = batch_add b r (q'\<lparr>status := RUNNING\<rparr>) n"
            have 3: "sinv X s3 (p(r := n)) []" "sched_frame s1 s3" using 2(4,5) by (simp_all add: s3_def)
            have s3: "running s3 = running s1 @ [r]" "swapped s3 = swapped s1" "outputs s3 = outputs s1"
                "store s3 = (store s1)(r := q'\<lparr>status := RUNNING\<rparr>)"
              using 2(6-9) by (simp_all add: s3_def set_seq_def)
            have "preempted s3 = preempted s2" "waiting s3 = waiting s2"
              by (simp_all add: s3_def set_seq_def)
            then have ord3: "admission_order s3 = rs"
              using 2(9,10) sched_frame_pending [OF 3(2)] by (simp add: admission_order_def)
            have "store s3 x = store s1 x" if "x \<in> set (running s1)" for x
              using that 2(11) s3(4) by auto
            then have bok3: "batch_ok s3 (p(r := n)) b3"
              using batch_ok_join [OF bok1 3(1) 2(11,3) s3(1), of b] by (simp add: s3(4) b3_def)
            have "length (admission_order s3) < length (admission_order s)" using ord3 Cons by simp
            then obtain s' b' p' new where h: "admit_loop X s3 b3 (budget - n) = Inr (s', b')"
                "admits X s3 (p(r := n)) b3 (budget - n) s' p' b' new"
              using less.hyps [of s3 "p(r := n)" b3 "budget - n"] 3(1) bok3 by blast
            have "admits X s1 p b budget s' p' b' (r # new)"
              by (rule admits_join [OF h(2) 3(2) s3(1-3) 2(11)])
                (use fits 2(3) ord1 ord3 s3(4) 2(12) distinct_order [OF 1(1)] in \<open>simp_all add: b3_def batch_add_def\<close>)
            then have a: "admits X s p b budget s' p' b' (r # new)"
              by (rule admits_after [OF _ fr1 s1(1-3)]) (use ord1 Cons s1(4) in simp_all)
            then have "b_seqs b' \<noteq> []" by (simp add: admits_def joined_def)
            moreover have "admit_loop X s b budget = Inr (s', b')"
              using unfold fits can ok 2(1,2) h(1) by (simp add: s3_def b3_def)
            ultimately show ?thesis using a by blast
          qed
        qed
      qed
    qed
  qed
qed

section \<open>The running part of an iteration\<close>

lemma plan_chunks_one:
  "r \<in> set rs \<Longrightarrow> num_uncomputed_tokens (st r) = 1 \<Longrightarrow> (r, 1) \<in> set (plan_chunks st left rs)"
  by (induction st left rs rule: plan_chunks.induct) (auto simp: Let_def)

lemma plan_one:
  assumes inv: "sinv X s (\<lambda>_. 0) []" and r: "r \<in> set (running s)" "num_uncomputed_tokens (store s r) = 1"
  shows "map_of (plan_running_tokens s) r = Some 1"
proof -
  have "distinct (map fst (plan_running_tokens s))"
    using plan_running_ok(2) [OF inv] sinv_distinct [OF inv] by simp
  moreover have "(r, 1) \<in> set (plan_running_tokens s)"
    using r plan_chunks_one [OF r(1), of "store s"] by (simp add: plan_running_tokens_def Let_def image_iff)
  ultimately show ?thesis by simp
qed

lemma subset_walked: "walked X plan s b s' p' b' \<Longrightarrow> set (running s') \<subseteq> set (running s)"
  by (metis walkedD(4) set_take_subset)

lemma walked_tokens:
  assumes inv: "sinv X s (\<lambda>_. 0) []" and w: "walked X (plan_running_tokens s) s b s' p' b'"
  shows "batch_num_tokens b' \<le> (if chunked s then max_batch_tokens s else int (length (running s')))"
proof -
  note W = walkedD [OF w] and P = plan_running_ok [OF inv]
  note B = batch_okD [OF W(2)]
  have plan: "\<forall>r \<in> set (b_seqs b'). map_of (plan_running_tokens s) r = Some (p' r)"
    using W(5) B(2) by blast
  have d: "distinct (map fst (plan_running_tokens s))" using P(2) sinv_distinct [OF inv] by simp
  show ?thesis
  proof (cases "chunked s")
    case True
    have "batch_num_tokens b' \<le> sum_list (map snd (plan_running_tokens s))"
      unfolding B(6) by (rule sum_list_plan [OF B(1) d P(3) plan])
    with P(5) True show ?thesis by simp
  next
    case False
    have "p' r = 1" if "r \<in> set (b_seqs b')" for r
    proof -
      have "r \<in> set (running s)"
        using that B(2) subset_walked [OF w] by blast
      then show ?thesis using P(1) False plan that unfolding plan_ok_def by fastforce
    qed
    then have "sum_list (map p' (b_seqs b')) = int (length (b_seqs b'))"
      by (simp add: sum_list_triv cong: map_cong)
    moreover have "length (b_seqs b') \<le> length (running s')"
      using B(1,2) by (metis card_length card_mono distinct_card finite_set le_trans)
    ultimately show ?thesis using False B(6) by simp
  qed
qed

lemma schedule_running_ok:
  assumes inv: "sinv X s (\<lambda>_. 0) []" and b: "batch_ok s (\<lambda>_. 0) b" "b_seqs b = []"
  shows "\<exists>s' b' p'. schedule_running s b = Inr (s', b') \<and>
     walked X (plan_running_tokens s) s b s' p' b' \<and>
     (running s \<noteq> [] \<longrightarrow> b_seqs b' \<noteq> [] \<or> outputs s' \<noteq> outputs s) \<and> (running s = [] \<longrightarrow> s' = s \<and> b' = b)"
proof (cases "running s = []")
  case True
  then have "schedule_running s b = Inr (s, b)"
    unfolding schedule_running_def by (subst running_loop.simps) simp
  moreover have "walked X (plan_running_tokens s) s b s (\<lambda>_. 0) b"
    using inv b True by (simp add: walked_def)
  ultimately show ?thesis using True by blast
next
  case False
  with running_loop_ok [OF inv b(1) plan_running_ok(1) [OF inv], of 0] b(2) plan_running_ok(4) [OF inv False]
  show ?thesis by (auto simp: schedule_running_def)
qed

section \<open>The whole iteration\<close>

definition scheduled ::
  "externals \<Rightarrow> scheduler \<Rightarrow> scheduler \<Rightarrow> (sref \<Rightarrow> int) \<Rightarrow> scheduled_batch \<Rightarrow> bool" where
  "scheduled X s s' p b \<longleftrightarrow>
     sinv X s' p [] \<and> batch_ok s' p b \<and> sched_frame s s' \<and> grew (outputs s) (outputs s') \<and>
     (swap_out b = [] \<or> swap_in b = []) \<and>
     (num_preempted b \<noteq> 0 \<longrightarrow> set (b_seqs b) \<subseteq> set (running s) \<and> swap_in b = []) \<and>
     batch_num_tokens b \<le> (if chunked s then max_batch_tokens s else max (max_batch_tokens s) (max_num_seqs s)) \<and>
     (chunked s \<longrightarrow> (\<forall>r \<in> set (running s) \<inter> set (running s').
        num_uncomputed_tokens (store s r) = 1 \<longrightarrow> p r = 1)) \<and>
     (has_work s \<longrightarrow> b_seqs b \<noteq> [] \<or> outputs s' \<noteq> outputs s)"

lemma has_work_iff:
  assumes "sinv X s p xs"
  shows "has_work s \<longleftrightarrow> running s \<noteq> [] \<or> swapped s \<noteq> [] \<or> admission_order s \<noteq> []"
  using wq_iter_pending(2) [OF sinv_wq [OF assms]] by (simp add: has_work_def admission_order_def)

lemma grew_neq: "grew xs ys \<Longrightarrow> grew ys zs \<Longrightarrow> ys \<noteq> xs \<Longrightarrow> zs \<noteq> xs"
  by (auto simp: grew_def)

lemma walked_one:
  assumes inv: "sinv X s (\<lambda>_. 0) []" and w: "walked X (plan_running_tokens s) s b s' p' b'"
    and r: "r \<in> set (running s')" "num_uncomputed_tokens (store s r) = 1"
  shows "p' r = 1"
  using walkedD(5) [OF w] plan_one [OF inv _ r(2)] subset_walked [OF w] r(1) by fastforce

text \<open>An iteration so far, when nothing was preempted in it.\<close>

definition stage :: "externals \<Rightarrow> scheduler \<Rightarrow> scheduler \<Rightarrow> (sref \<Rightarrow> int) \<Rightarrow> scheduled_batch \<Rightarrow> bool" where
  "stage X s s' p b \<longleftrightarrow>
     sinv X s' p [] \<and> batch_ok s' p b \<and> sched_frame s s' \<and> grew (outputs s) (outputs s') \<and>
     swap_out b = [] \<and> num_preempted b = 0 \<and>
     (chunked s \<longrightarrow> (\<forall>r \<in> set (running s) \<inter> set (running s').
        num_uncomputed_tokens (store s r) = 1 \<longrightarrow> p r = 1))"

definition moved :: "scheduler \<Rightarrow> scheduler \<Rightarrow> scheduled_batch \<Rightarrow> bool" where
  "moved s s' b \<longleftrightarrow> b_seqs b \<noteq> [] \<or> outputs s' \<noteq> outputs s"

lemma stage_join:
  assumes st: "stage X s s1 p b" and j: "joined X s1 p b s2 p2 b2 new"
    and new: "set new \<inter> set (running s) = {}"
  shows "stage X s s2 p2 b2" and "moved s s1 b \<or> moved s1 s2 b2 \<Longrightarrow> moved s s2 b2"
proof -
  note J = joinedD [OF j]
  have S: "sched_frame s s1" "grew (outputs s) (outputs s1)" "swap_out b = []" "num_preempted b = 0"
    using st by (simp_all add: stage_def)
  have "p2 r = 1" if "chunked s" "r \<in> set (running s) \<inter> set (running s2)" "num_uncomputed_tokens (store s r) = 1" for r
  proof -
    have "r \<in> set (running s1)" using that(2) J(4) new by auto
    with that st J(6) show ?thesis by (simp add: stage_def)
  qed
  then show "stage X s s2 p2 b2"
    unfolding stage_def
    using J S sched_frame_trans [OF S(1) J(3)] grew_trans [OF S(2) J(7)] by simp
  show "moved s s2 b2" if "moved s s1 b \<or> moved s1 s2 b2"
    using that J(5,7) S(2) by (auto simp: moved_def grew_def)
qed

lemma walked_stage:
  assumes inv: "sinv X s0 (\<lambda>_. 0) []" and w: "walked X (plan_running_tokens s0) s0 b0 s1 p1 b1"
    and n: "num_preempted b1 = 0" "num_preempted b0 = 0" "swap_out b0 = []"
  shows "stage X s0 s1 p1 b1"
  using walkedD [OF w] walked_one [OF inv w] n by (simp add: stage_def)

lemma order_running_disjoint:
  assumes "sinv X s p []"
  shows "set (admission_order s) \<inter> set (running s) = {}" and "set (swapped s) \<inter> set (running s) = {}"
  using sinv_distinct [OF assms] by (auto simp: admission_order_def)

lemma admits_new: "admits X s p b budget s' p' b' new \<Longrightarrow> set new \<subseteq> set (admission_order s)"
  by (auto simp: admits_def admitted_prefix_def)

lemma schedule_chunked_ok:
  assumes inv: "sinv X s (\<lambda>_. 0) []" and ch: "chunked s"
  shows "\<exists>s' b p. schedule_chunked X s empty_batch = Inr (s', b) \<and> scheduled X s s' p b"
proof -
  have e: "batch_ok s (\<lambda>_. 0) empty_batch" "b_seqs empty_batch = []" "swap_in empty_batch = []"
      "swap_out empty_batch = []" "num_preempted empty_batch = 0"
    by (simp_all add: empty_batch_def batch_ok_def)
  obtain s1 b1 p1 where 1: "schedule_running s empty_batch = Inr (s1, b1)"
      "walked X (plan_running_tokens s) s empty_batch s1 p1 b1"
      "running s \<noteq> [] \<longrightarrow> b_seqs b1 \<noteq> [] \<or> outputs s1 \<noteq> outputs s"
      "running s = [] \<longrightarrow> s1 = s \<and> b1 = empty_batch"
    using schedule_running_ok [OF inv e(1,2)] by blast
  note W = walkedD [OF 1(2)]
  have tok: "batch_num_tokens b1 \<le> max_batch_tokens s" using walked_tokens [OF inv 1(2)] ch by simp
  show ?thesis
  proof (cases "num_preempted b1 = 0")
    case False
    then have "schedule_chunked X s empty_batch = Inr (s1, b1)" using 1(1) by (simp add: schedule_chunked_def)
    moreover have "scheduled X s s1 p1 b1"
      unfolding scheduled_def
    proof (intro conjI impI)
      show "set (b_seqs b1) \<subseteq> set (running s)"
        using batch_okD(2) [OF W(2)] subset_walked [OF 1(2)] by blast
      show "b_seqs b1 \<noteq> [] \<or> outputs s1 \<noteq> outputs s" using 1(3,4) False e(5) by metis
    qed (use W e tok walked_one [OF inv 1(2)] ch in auto)
    ultimately show ?thesis by blast
  next
    case True
    have st1: "stage X s s1 p1 b1" by (rule walked_stage [OF inv 1(2) True e(5,4)])
    have cf1: "chunked s1 = chunked s" "max_batch_tokens s1 = max_batch_tokens s"
      using W(3) by (simp_all add: sched_frame_def conf_same_def)
    have same1: "swapped s1 = swapped s" "preempted s1 = preempted s" using W(11) True e(5) by simp_all
    let ?m = "max_batch_tokens s1 - batch_num_tokens b1"
    obtain s2 b2 p2 new where 2: "swap_in_loop s1 b1 (Some ?m) = Inr (s2, b2)" "joined X s1 p1 b1 s2 p2 b2 new"
        "waiting s2 = waiting s1" "preempted s2 = preempted s1"
        "in_budget (Some ?m) b1 b2 new" "set new \<subseteq> set (swapped s1)"
        "running s1 = [] \<and> swapped s1 \<noteq> [] \<and> 0 < ?m \<longrightarrow> moved s1 s2 b2"
      using swap_in_loop_ok [OF W(1,2), of "Some ?m"] ch cf1(1) by (auto simp: moved_def)
    note J = joinedD [OF 2(2)]
    have new: "set new \<inter> set (running s) = {}"
      using 2(6) same1(1) order_running_disjoint(2) [OF inv] by auto
    note st2 = stage_join [OF st1 2(2) new]
    have cf2: "chunked s2 = chunked s" "max_batch_tokens s2 = max_batch_tokens s" "max_model_len s2 = max_model_len s1"
      using J(3) cf1 by (simp_all add: sched_frame_def conf_same_def)
    have tok2: "batch_num_tokens b2 \<le> max_batch_tokens s"
      using 2(5) tok cf1(2) by (simp add: in_budget_def max_def split: if_splits)
    let ?n = "max_batch_tokens s2 - batch_num_tokens b2"
    obtain s3 b3 p3 new' where 3: "(if swapped s2 = [] then admit_loop X s2 b2 ?n else Inr (s2, b2)) = Inr (s3, b3)"
        "joined X s2 p2 b2 s3 p3 b3 new'" "batch_num_tokens b3 \<le> max_batch_tokens s"
        "set new' \<subseteq> set (admission_order s2)"
        "running s2 = [] \<and> swapped s2 = [] \<and> 0 < ?n \<and> admission_order s2 \<noteq> [] \<longrightarrow> moved s2 s3 b3"
    proof (cases "swapped s2 = []")
      case True
      obtain s3 b3 p3 new' where a: "admit_loop X s2 b2 ?n = Inr (s3, b3)" "admits X s2 p2 b2 ?n s3 p3 b3 new'"
          "running s2 = [] \<and> swapped s2 = [] \<and> 0 < ?n \<and> (\<not> chunked s2 \<longrightarrow> max_model_len s2 \<le> ?n) \<and>
           admission_order s2 \<noteq> [] \<longrightarrow> b_seqs b3 \<noteq> [] \<or> outputs s3 \<noteq> outputs s2"
        using admit_loop_ok [OF J(1,2), where budget = ?n] by blast
      then show ?thesis
        using that True tok2 cf2 ch admits_new [OF a(2)] by (auto simp: admits_def moved_def)
    next
      case False
      then show ?thesis
        using that [of s2 b2 p2 "[]"] tok2 joined_refl [OF J(1,2)] by auto
    qed
    have ord2: "admission_order s2 = admission_order s"
      using 2(3,4) same1(2) W(8) sched_frame_pending [OF W(3)] sched_frame_pending [OF J(3)]
      by (simp add: admission_order_def)
    have new': "set new' \<inter> set (running s) = {}"
      using 3(4) ord2 order_running_disjoint(1) [OF inv] by auto
    note st3 = stage_join [OF st2(1) 3(2) new']
    have "schedule_chunked X s empty_batch = Inr (s3, b3)"
      using 1(1) True 2(1) 3(1) by (simp add: schedule_chunked_def)
    moreover have "moved s s3 b3" if work: "has_work s"
    proof (cases "running s = []")
      case False
      then show ?thesis using 1(3) st2(2) st3(2) by (auto simp: moved_def)
    next
      case none: True
      then have eq: "s1 = s" "b1 = empty_batch" using 1(4) by simp_all
      have m: "0 < max_batch_tokens s" using sinvD(5) [OF inv] by (simp add: conf_ok_def)
      show ?thesis
      proof (cases "swapped s = []")
        case False
        then have "moved s1 s2 b2" using 2(7) none eq m by (simp add: empty_batch_def)
        then show ?thesis using st2(2) st3(2) by blast
      next
        case sw: True
        then have "new = []" using 2(6) eq by simp
        then have "running s2 = []" "b_seqs b2 = []" using J(4,5) none eq e(2) by simp_all
        moreover from this have "batch_num_tokens b2 = 0" using batch_okD(6) [OF J(2)] by simp
        moreover have "admission_order s2 \<noteq> []" using work has_work_iff [OF inv] none sw ord2 by simp
        moreover have "swapped s2 = []" using swap_in_loop.simps [of s1 b1 "Some ?m"] 2(1) sw eq by simp
        ultimately have "moved s2 s3 b3" using 3(5) m cf2 by simp
        then show ?thesis using st3(2) by blast
      qed
    qed
    ultimately show ?thesis
      using st3(1) 3(3) ch by (auto simp: scheduled_def stage_def moved_def)
  qed
qed

text \<open>Without chunking a batch is either a prefill within the budget or one token per sequence.\<close>

lemma decode_iteration_ok:
  assumes st0: "stage X s s0 (\<lambda>_. 0) b0" and b0: "b_seqs b0 = []" "swap_in b0 = []" "running s0 = running s"
    and nch: "\<not> chunked s" and inv: "sinv X s (\<lambda>_. 0) []"
    and mv: "running s0 = [] \<Longrightarrow> swapped s0 = [] \<Longrightarrow> has_work s \<Longrightarrow> outputs s0 \<noteq> outputs s"
    and disj: "set (swapped s0) \<inter> set (running s) = {}"
  shows "\<exists>s' b p. rbind (schedule_running s0 b0) (\<lambda>(s2, b2).
      if num_preempted b2 = 0 then swap_in_loop s2 b2 None else Inr (s2, b2)) = Inr (s', b) \<and> scheduled X s s' p b"
proof -
  have S: "sinv X s0 (\<lambda>_. 0) []" "batch_ok s0 (\<lambda>_. 0) b0" "sched_frame s s0" "grew (outputs s) (outputs s0)"
      "swap_out b0 = []" "num_preempted b0 = 0"
    using st0 by (simp_all add: stage_def)
  obtain s1 b1 p1 where 1: "schedule_running s0 b0 = Inr (s1, b1)"
      "walked X (plan_running_tokens s0) s0 b0 s1 p1 b1"
      "running s0 \<noteq> [] \<longrightarrow> b_seqs b1 \<noteq> [] \<or> outputs s1 \<noteq> outputs s0"
      "running s0 = [] \<longrightarrow> s1 = s0 \<and> b1 = b0"
    using schedule_running_ok [OF S(1,2) b0(1)] by blast
  note W = walkedD [OF 1(2)]
  have fr1: "sched_frame s s1" and g1: "grew (outputs s) (outputs s1)"
    using sched_frame_trans [OF S(3) W(3)] grew_trans [OF S(4) W(7)] by simp_all
  have cf1: "chunked s1 = chunked s" "max_num_seqs s1 = max_num_seqs s" "chunked s0 = chunked s"
    using fr1 S(3) by (simp_all add: sched_frame_def conf_same_def)
  have tok1: "batch_num_tokens b1 \<le> int (length (running s1))"
    using walked_tokens [OF S(1) 1(2)] nch cf1(3) by simp
  have mv1: "running s0 \<noteq> [] \<Longrightarrow> moved s s1 b1"
    using 1(3) S(4) W(7) by (auto simp: moved_def grew_def)
  show ?thesis
  proof (cases "num_preempted b1 = 0")
    case False
    have "set (b_seqs b1) \<subseteq> set (running s)"
      using batch_okD(2) [OF W(2)] subset_walked [OF 1(2)] b0(3) by auto
    moreover have "moved s s1 b1" using False 1(4) S(6) mv1 by metis
    ultimately have "scheduled X s s1 p1 b1"
      using W fr1 g1 b0(2) tok1 nch sinvD(6) [OF W(1)] cf1 by (auto simp: scheduled_def moved_def)
    then show ?thesis using 1(1) False by (intro exI [of _ s1] exI [of _ b1] exI [of _ p1]) simp
  next
    case True
    have same1: "swapped s1 = swapped s0" "swap_out b1 = []" using W(11) True S(5,6) by simp_all
    have st1: "stage X s s1 p1 b1"
      unfolding stage_def using W fr1 g1 same1 True nch by simp
    obtain s2 b2 p2 new where 2: "swap_in_loop s1 b1 None = Inr (s2, b2)" "joined X s1 p1 b1 s2 p2 b2 new"
        "in_budget None b1 b2 new" "set new \<subseteq> set (swapped s1)"
        "running s1 = [] \<and> swapped s1 \<noteq> [] \<longrightarrow> moved s1 s2 b2"
      using swap_in_loop_ok [OF W(1,2), of None] nch cf1(1) by (auto simp: moved_def)
    note J = joinedD [OF 2(2)]
    have new: "set new \<inter> set (running s) = {}" using 2(4) same1(1) disj by auto
    note st2 = stage_join [OF st1 2(2) new]
    have tok2: "batch_num_tokens b2 \<le> max_num_seqs s"
      using 2(3) tok1 J(4) sinvD(6) [OF J(1)] J(3) cf1(2)
      by (simp add: in_budget_def sched_frame_def conf_same_def)
    have "moved s s2 b2" if work: "has_work s"
    proof (cases "running s0 = []")
      case False
      then show ?thesis using mv1 st2(2) by blast
    next
      case none: True
      then have eq: "s1 = s0" "b1 = b0" using 1(4) by simp_all
      show ?thesis
      proof (cases "swapped s0 = []")
        case False
        then show ?thesis using 2(5) none eq st2(2) by blast
      next
        case empty: True
        then have "moved s s1 b1" using mv [OF none] work eq by (simp add: moved_def)
        then show ?thesis using st2(2) by blast
      qed
    qed
    then have "scheduled X s s2 p2 b2"
      using st2(1) tok2 nch by (auto simp: scheduled_def stage_def moved_def)
    then show ?thesis using 1(1) True 2(1) by (intro exI [of _ s2] exI [of _ b2] exI [of _ p2]) simp
  qed
qed

lemma schedule_prefill_priority_ok:
  assumes inv: "sinv X s (\<lambda>_. 0) []" and nch: "\<not> chunked s"
  shows "\<exists>s' b p. schedule_prefill_priority X s empty_batch = Inr (s', b) \<and> scheduled X s s' p b"
proof -
  have e: "batch_ok s (\<lambda>_. 0) empty_batch" "b_seqs empty_batch = []" "swap_in empty_batch = []"
      "swap_out empty_batch = []" "num_preempted empty_batch = 0" "batch_num_tokens empty_batch = 0"
    by (simp_all add: empty_batch_def batch_ok_def)
  have st: "stage X s s (\<lambda>_. 0) empty_batch"
    using inv e nch by (simp add: stage_def)
  have conf: "max_model_len s \<le> max_batch_tokens s" "0 < max_batch_tokens s"
    using sinvD(5) [OF inv] nch by (simp_all add: conf_ok_def)
  show ?thesis
  proof (cases "swapped s = []")
    case False
    show ?thesis
      unfolding schedule_prefill_priority_def
      using decode_iteration_ok [OF st e(2,3) refl nch inv] False order_running_disjoint(2) [OF inv] by simp
  next
    case True
    obtain s1 b1 p1 new where 1: "admit_loop X s empty_batch (max_batch_tokens s) = Inr (s1, b1)"
        "admits X s (\<lambda>_. 0) empty_batch (max_batch_tokens s) s1 p1 b1 new"
        "running s = [] \<and> swapped s = [] \<and> 0 < max_batch_tokens s \<and>
         (\<not> chunked s \<longrightarrow> max_model_len s \<le> max_batch_tokens s) \<and> admission_order s \<noteq> []
         \<longrightarrow> b_seqs b1 \<noteq> [] \<or> outputs s1 \<noteq> outputs s"
      using admit_loop_ok [OF inv e(1), where budget = "max_batch_tokens s"] by blast
    have j: "joined X s (\<lambda>_. 0) empty_batch s1 p1 b1 new" and sw1: "swapped s1 = swapped s"
        "swap_in b1 = []" and tok1: "batch_num_tokens b1 \<le> max_batch_tokens s"
      using 1(2) conf e by (simp_all add: admits_def)
    note J = joinedD [OF j]
    have new: "set new \<inter> set (running s) = {}"
      using admits_new [OF 1(2)] order_running_disjoint(1) [OF inv] by auto
    note st1 = stage_join [OF st j new]
    show ?thesis
    proof (cases "b_seqs b1 = []")
      case False
      then have "scheduled X s s1 p1 b1"
        using st1(1) tok1 nch by (auto simp: scheduled_def stage_def)
      then show ?thesis
        unfolding schedule_prefill_priority_def using True False 1(1) by auto
    next
      case none: True
      then have "new = []" using J(5) by simp
      then have r1: "running s1 = running s" using J(4) by simp
      have "p1 = (\<lambda>_. 0)" using batch_okD(4) [OF J(2)] none by auto
      then have st0: "stage X s s1 (\<lambda>_. 0) b1" using st1(1) by simp
      have mv: "outputs s1 \<noteq> outputs s" if "running s1 = []" "has_work s"
        using that 1(3) True conf has_work_iff [OF inv] r1 none by auto
      show ?thesis
        unfolding schedule_prefill_priority_def
        using decode_iteration_ok [OF st0 none sw1(2) r1 nch inv mv] True none 1(1) sw1(1) by simp
    qed
  qed
qed

lemma schedule_ok:
  assumes inv: "sinv X s (\<lambda>_. 0) []"
  shows "\<exists>s' b p. schedule X s = Inr (s', b) \<and> scheduled X s s' p b"
proof -
  obtain s' b p where 1: "(if chunked s then schedule_chunked X s empty_batch
      else schedule_prefill_priority X s empty_batch) = Inr (s', b)" "scheduled X s s' p b"
    using schedule_chunked_ok [OF inv] schedule_prefill_priority_ok [OF inv] by (cases "chunked s") auto
  then have "\<not> (swap_out b \<noteq> [] \<and> swap_in b \<noteq> [])" by (auto simp: scheduled_def)
  with 1 have "schedule X s = Inr (s', b)" by (simp add: schedule_def py_assert_def)
  with 1(2) show ?thesis by blast
qed

end
