(* ===== verification/Scheduler_Update.thy ===== *)
theory Scheduler_Update
  imports Scheduler_Schedule
begin

text \<open>
  \<open>update\<close>, \<open>add\<close> and \<open>abort\<close>. While \<open>update\<close> walks the batch, sequences that finished are still in
  the running list; the invariant holds of the list without them.
\<close>

section \<open>Appending a token\<close>

lemma append_token_fields:
  assumes "append_token X q t eos L = (q', text, finish)"
  shows "token_ids q' = token_ids q @ [t]" "output_token_ids q' = output_token_ids q @ [t]"
    and "seq_static q q'" "sampling_params_of q' = sampling_params_of q" "status q' = status q"
    and "block_table q' = block_table q" "cpu_block_table q' = cpu_block_table q"
    and "num_computed_tokens q' = num_computed_tokens q"
    and "first_token_time q' = first_token_time q"
    and "num_registered_blocks q' = num_registered_blocks q" "block_hashes q' = block_hashes q"
  using append_token_text_only [OF assms]
  by (auto simp: text_only_def seq_append_token_def seq_static_def)

lemma append_token_continues:
  assumes "append_token X q t eos L = (q', text, None)"
  shows "num_output_tokens q' < max_tokens (sampling_params_of q)" and "num_tokens q' < L"
  using append_token_finish [OF assms] append_token_fields(4) [OF assms] by simp_all

section \<open>One sequence of the batch\<close>

definition alive :: "scheduler \<Rightarrow> scheduler" where
  "alive s = s\<lparr>running := filter (\<lambda>r. status (store s r) = RUNNING) (running s)\<rparr>"

lemma alive_fields [simp]:
  "store (alive s) = store s" "bm (alive s) = bm s" "seqs (alive s) = seqs s" "waiting (alive s) = waiting s"
  "swapped (alive s) = swapped s" "preempted (alive s) = preempted s" "chunked (alive s) = chunked s"
  "sch_block_size (alive s) = sch_block_size s" "max_num_seqs (alive s) = max_num_seqs s"
  "max_model_len (alive s) = max_model_len s"
  by (simp_all add: alive_def)

lemma alive_running [simp]: "r \<in> set (running (alive s)) \<longleftrightarrow> r \<in> set (running s) \<and> status (store s r) = RUNNING"
  by (simp add: alive_def)

lemma alive_same: "sinv X s p xs \<Longrightarrow> alive s = s"
proof -
  assume inv: "sinv X s p xs"
  have "filter (\<lambda>r. status (store s r) = RUNNING) (running s) = running s"
    using seqs_invD(1) [OF sinvD(3) [OF inv]] by (intro filter_True) (auto simp: running_ok_def)
  then show ?thesis by (simp add: alive_def)
qed

lemma sinv_outputs [simp]: "sinv X (s\<lparr>outputs := out\<rparr>) p xs = sinv X s p xs"
  by (simp add: sinv_def pages_inv_def queues_inv_def seqs_inv_def live_inv_def conf_ok_def cache_inv_def queue_list_def)

lemma sinv_p_cong: "sinv X s p xs \<Longrightarrow> (\<And>r. r \<in> set (running s) \<Longrightarrow> p' r = p r) \<Longrightarrow> sinv X s p' xs"
  by (simp add: sinv_def seqs_inv_def)

text \<open>The full blocks of a sequence lie inside its table.\<close>

lemma full_blocks_held:
  assumes "0 < bs" and "0 \<le> n" and "int (length t) = ceil_div n bs"
  shows "n div int bs \<le> int (length t)"
proof -
  have "ceil_div n bs * int bs \<ge> n" using ceil_div_le_iff [OF assms(1), of n "ceil_div n bs"] by simp
  then have "n div int bs \<le> (ceil_div n bs * int bs) div int bs"
    using assms(1) by (intro zdiv_mono1) simp_all
  then show ?thesis using assms(1,3) by simp
qed

text \<open>Publishing the complete pages of \<open>r\<close> leaves the others' pages, and the rest of its own, alone.\<close>

lemma pages_twice:
  assumes "distinct rs" and "r \<in> set rs" "x \<in> set rs" "r \<noteq> x" and "g \<in> set (f (st r))" "g \<in> set (f (st x))"
  shows "count (pages f st rs) g \<noteq> 1"
proof -
  have "x \<in> set (remove1 r rs)" using assms(1,3,4) by simp
  then have "pages f st rs = mset (f (st r)) + (mset (f (st x)) + pages f st (remove1 x (remove1 r rs)))"
    using assms(2) pages_remove1 by metis
  moreover have "0 < count (mset (f (st r))) g" "0 < count (mset (f (st x))) g"
    using assms(5,6) by (simp_all add: count_greater_zero_iff)
  ultimately show ?thesis by (simp del: count_greater_zero_iff)
qed

text \<open>What the table of digests learns in an iteration: digests of complete pages of the batch.\<close>

definition pages_named :: "externals \<Rightarrow> scheduler \<Rightarrow> scheduler \<Rightarrow> (sref \<Rightarrow> int) \<Rightarrow> sref list \<Rightarrow> bool" where
  "pages_named X s s' p rs \<longleftrightarrow> num_blocks (bm s') = num_blocks (bm s) \<and>
     (\<forall>i < num_blocks (bm s). \<forall>h. block_hash (bm s') ! i = Some h \<longrightarrow> block_hash (bm s) ! i = Some h \<or>
        (\<exists>r \<in> set rs. \<exists>j. Suc j * block_size (bm s) \<le> nat (num_computed_tokens (store s r) + p r) \<and>
           j < length (block_table (store s r)) \<and> i = block_table (store s r) ! j \<and>
           h = block_digest X (block_size (bm s)) (token_ids (store s r)) (block_chain X (block_size (bm s)) (token_ids (store s r)) j)))"

lemma pages_named_Nil [simp]: "pages_named X s s p []" by (simp add: pages_named_def)

lemma pages_named_forgets:
  assumes n: "pages_named X s s1 p rs" and f: "forgets (bm s1) (bm s2)"
  shows "pages_named X s s2 p rs"
proof -
  have "num_blocks (bm s1) = num_blocks (bm s)" using n by (simp add: pages_named_def)
  then have "block_hash (bm s1) ! i = Some h" if "i < num_blocks (bm s)" "block_hash (bm s2) ! i = Some h" for i h
    using f that by (simp add: forgets_def)
  then show ?thesis using n f unfolding pages_named_def forgets_def by simp
qed

lemma pages_named_Cons:
  assumes "pages_named X s s1 p [r]" and "pages_named X s1 s' (p(r := 0)) rs" and "r \<notin> set rs"
    and "\<forall>x. x \<noteq> r \<longrightarrow> store s1 x = store s x" and bs: "block_size (bm s1) = block_size (bm s)"
  shows "pages_named X s s' p (r # rs)"
  unfolding pages_named_def
proof (intro conjI allI impI)
  show "num_blocks (bm s') = num_blocks (bm s)" using assms(1,2) by (simp add: pages_named_def)
  fix i h
  assume i: "i < num_blocks (bm s)" and h: "block_hash (bm s') ! i = Some h"
  let ?named = "\<lambda>x st p. \<exists>j. Suc j * block_size (bm s) \<le> nat (num_computed_tokens (st x) + p x) \<and>
     j < length (block_table (st x)) \<and> i = block_table (st x) ! j \<and>
     h = block_digest X (block_size (bm s)) (token_ids (st x)) (block_chain X (block_size (bm s)) (token_ids (st x)) j)"
  have n: "num_blocks (bm s1) = num_blocks (bm s)" using assms(1) by (simp add: pages_named_def)
  have "block_hash (bm s1) ! i = Some h \<or> (\<exists>x \<in> set rs. ?named x (store s1) (p(r := 0)))"
    using assms(2) i h unfolding pages_named_def n bs by blast
  then show "block_hash (bm s) ! i = Some h \<or> (\<exists>x \<in> set (r # rs). ?named x (store s) p)"
  proof
    assume "block_hash (bm s1) ! i = Some h"
    then have "block_hash (bm s) ! i = Some h \<or> ?named r (store s) p"
      using assms(1) i unfolding pages_named_def by simp
    then show ?thesis by auto
  next
    assume "\<exists>x \<in> set rs. ?named x (store s1) (p(r := 0))"
    then obtain x where x: "x \<in> set rs" "?named x (store s1) (p(r := 0))" by blast
    have "x \<noteq> r" using x(1) assms(3) by blast
    then have "?named x (store s) p" using x(2) assms(4) by simp
    then show ?thesis using x(1) by auto
  qed
qed

lemma publish_own:
  assumes inv: "sinv X a p []" and r: "r \<in> set (running a)" and n: "n = p r"
    and q1: "q1 = (store a r)\<lparr>num_computed_tokens := num_computed_tokens (store a r) + n\<rparr>"
    and c: "cache_full_blocks X (bm a) q1 = Inr (bm', q2)" and bs': "block_size bm' = block_size (bm a)"
  shows "hashes_ok X (block_size (bm a)) q2"
    and "x \<in> set (running a) \<Longrightarrow> x \<noteq> r \<Longrightarrow> own_pages bm' (pages block_table (store a) (running a)) (store a x)"
    and "block_table q = block_table (store a r) \<Longrightarrow> num_computed_tokens q = num_computed_tokens q1 \<Longrightarrow>
      num_registered_blocks q = num_registered_blocks q2 \<Longrightarrow> own_pages bm' (pages block_table (store a) (running a)) q"
    and "bm a' = bm' \<Longrightarrow> pages_named X a a' p [r]"
proof -
  let ?q0 = "store a r" and ?M = "pages block_table (store a) (running a)"
  note D = sinvD [OF inv]
  have bmi: "bm_inv (bm a) ?M (pages cpu_block_table (store a) (swapped a))" using D(1) by (simp add: pages_inv_def)
  have bs: "block_size (bm a) = sch_block_size a" "0 < sch_block_size a"
    using D(5) sinv_bs_pos [OF inv] by (simp_all add: conf_ok_def)
  have d: "distinct (running a)" using sinv_distinct [OF inv] by simp
  have run: "running_ok (chunked a) (sch_block_size a) (p x) (store a x)" if "x \<in> set (running a)" for x
    using seqs_invD(1) [OF D(3) that] .
  have table: "block_table (store a x) \<noteq> []" if "x \<in> set (running a)" for x
    using run [OF that] ceil_div_pos [OF bs(2), of "num_computed_tokens (store a x) + p x"] by (auto simp: running_ok_def)
  have own: "own_pages (bm a) ?M (store a x)" if "x \<in> set (running a)" for x
    using cache_invD(1) [OF D(7), of x] that by simp
  have reg: "num_registered_blocks (store a x) * block_size (bm a) \<le> nat (num_computed_tokens (store a x))"
    if "x \<in> set (running a)" for x
    using own [OF that] table [OF that] by (simp add: own_pages_def)
  have held: "set (block_table q1) \<subseteq> set_mset ?M" using pages_member [OF r, of block_table "store a"] by (simp add: q1)
  have full: "num_computed_tokens q1 div int (block_size (bm a)) \<le> int (length (block_table q1))"
    using full_blocks_held [OF bs(2), of "num_computed_tokens q1" "block_table q1"] run [OF r] bs(1) n
    by (simp add: q1 running_ok_def)
  have "hashes_ok X (block_size (bm a)) ?q0" using cache_invD(2) [OF D(7), of r] r by (simp add: queue_list_def)
  then have ok: "hashes_ok X (block_size (bm a)) q1" by (simp add: q1 hashes_ok_def)
  have le: "num_computed_tokens q1 \<le> num_tokens q1" using run [OF r] n by (simp add: q1 running_ok_def num_tokens_def)
  note P = cache_full_blocks_published [OF bmi held full ok le c]
  show "hashes_ok X (block_size (bm a)) q2" by (rule P(2))
  have t1: "block_table q1 = block_table ?q0" by (simp add: q1)
  show "own_pages bm' ?M (store a x)" if x: "x \<in> set (running a)" "x \<noteq> r"
  proof (rule own_pages_published [OF own [OF x(1)] bmi P(1) bs' refl order_refl reg [OF x(1)]])
    fix j k
    assume j: "j < length (block_table q1)" and k: "k < length (block_table (store a x))" "count ?M (block_table (store a x) ! k) = 1"
    show "block_table (store a x) ! k \<noteq> block_table q1 ! j"
    proof
      assume "block_table (store a x) ! k = block_table q1 ! j"
      then have "block_table (store a x) ! k \<in> set (block_table ?q0)" using j t1 by simp
      then show False using pages_twice [OF d r x(1), of "block_table (store a x) ! k" block_table "store a"] x(2) k by simp
    qed
  qed
  have np: "num_computed_tokens ?q0 \<le> num_computed_tokens q1" using run [OF r] n by (simp add: q1 running_ok_def)
  have "num_registered_blocks q2 * block_size (bm a) \<le> nat (num_computed_tokens q1)"
  proof (cases "num_registered_blocks q2 = num_registered_blocks q1")
    case True
    have "num_registered_blocks ?q0 * block_size (bm a) \<le> nat (num_computed_tokens q1)"
      using reg [OF r] np by linarith
    then show ?thesis using True by (simp add: q1)
  qed (use P(3) in simp)
  then have reg2: "num_registered_blocks q2 * block_size (bm a) \<le> nat (num_computed_tokens q1)" .
  show "pages_named X a a' p [r]" if "bm a' = bm'"
    unfolding pages_named_def that
  proof (intro conjI allI impI)
    show "num_blocks bm' = num_blocks (bm a)" using P(1) by (simp add: published_def)
    fix i h
    assume "i < num_blocks (bm a)" and "block_hash bm' ! i = Some h"
    then have "block_hash (bm a) ! i = Some h \<or> (\<exists>j < num_registered_blocks q2. j < length (block_table q1) \<and>
        i = block_table q1 ! j \<and> h = block_digest X (block_size (bm a)) (token_ids q1) (block_chain X (block_size (bm a)) (token_ids q1) j))"
      using P(1) unfolding published_def by blast
    moreover have "Suc j * block_size (bm a) \<le> nat (num_computed_tokens (store a r) + p r)" if "j < num_registered_blocks q2" for j
    proof -
      have "Suc j * block_size (bm a) \<le> num_registered_blocks q2 * block_size (bm a)"
        using that by (intro mult_right_mono) simp_all
      then show ?thesis using reg2 n by (simp add: q1)
    qed
    ultimately show "block_hash (bm a) ! i = Some h \<or>
        (\<exists>x \<in> set [r]. \<exists>j. Suc j * block_size (bm a) \<le> nat (num_computed_tokens (store a x) + p x) \<and>
           j < length (block_table (store a x)) \<and> i = block_table (store a x) ! j \<and>
           h = block_digest X (block_size (bm a)) (token_ids (store a x)) (block_chain X (block_size (bm a)) (token_ids (store a x)) j))"
      using t1 by (auto simp: q1)
  qed
  assume q: "block_table q = block_table ?q0" "num_computed_tokens q = num_computed_tokens q1"
    "num_registered_blocks q = num_registered_blocks q2"
  have regq: "num_registered_blocks q * block_size (bm a) \<le> nat (num_computed_tokens q)" using reg2 q by simp
  have up: "num_registered_blocks ?q0 \<le> num_registered_blocks q" using P(4) q(3) by (simp add: q1)
  show "own_pages bm' ?M q"
  proof (rule own_pages_published [OF own [OF r] bmi P(1) bs' q(1) up regq])
    fix j k
    assume j: "j < num_registered_blocks q2" "j < length (block_table q1)" and k: "num_registered_blocks q \<le> k"
      "k < length (block_table ?q0)" and one: "count ?M (block_table ?q0 ! k) = 1"
    show "block_table ?q0 ! k \<noteq> block_table q1 ! j"
    proof
      assume e: "block_table ?q0 ! k = block_table q1 ! j"
      have "?M = mset (block_table ?q0) + pages block_table (store a) (remove1 r (running a))"
        by (rule pages_remove1 [OF r])
      then have "count (mset (block_table ?q0) + pages block_table (store a) (remove1 r (running a))) (block_table ?q0 ! k) = 1"
        using one by simp
      from count_once(2) [OF this k(2), of j] e j t1 have "j = k" by simp
      then show False using j(1) k(1) q(3) by simp
    qed
  qed
qed

text \<open>What \<open>update\<close> does to the sequence \<open>r\<close> and to nothing else.\<close>

definition advanced :: "scheduler \<Rightarrow> scheduler \<Rightarrow> sref \<Rightarrow> int \<Rightarrow> int list \<Rightarrow> bool" where
  "advanced s s' r n new \<longleftrightarrow>
     num_computed_tokens (store s' r) = num_computed_tokens (store s r) + n \<and>
     token_ids (store s' r) = token_ids (store s r) @ new \<and>
     output_token_ids (store s' r) = output_token_ids (store s r) @ new \<and>
     status (store s' r) \<in> {RUNNING, FINISHED} \<and> (new = [] \<longrightarrow> status (store s' r) = RUNNING) \<and>
     seq_static (store s r) (store s' r) \<and>
     sampling_params_of (store s' r) = sampling_params_of (store s r)"

lemma finish_one_ok:
  assumes inv: "sinv X (alive s) p []" and r: "r \<in> set (running (alive s))"
    and b: "bm_inv bm' (pages block_table (store s) (running (alive s))) (pages cpu_block_table (store s) (swapped s))"
      "bm_static (bm s) bm'"
    and q: "seq_static (store s r) q" "block_table q = block_table (store s r)"
    and own: "\<And>x. x \<in> set (running (alive s)) \<Longrightarrow> x \<noteq> r \<Longrightarrow>
      own_pages bm' (pages block_table (store s) (running (alive s))) (store s x)"
  shows "\<exists>s'. finish_seq ((set_seq s r q2)\<lparr>bm := bm'\<rparr>) r q reason = Inr s' \<and> sinv X (alive s') (p(r := 0)) [] \<and>
     conf_same s s' \<and> running s' = running s \<and> outputs s' = outputs s \<and>
     store s' = (store s)(r := q\<lparr>status := FINISHED, finish_reason := Some reason, block_table := [],
       num_registered_blocks := 0\<rparr>) \<and> forgets bm' (bm s')"
proof -
  let ?a = "alive s" and ?rs = "remove1 r (running (alive s))"
  let ?q1 = "q\<lparr>status := FINISHED, finish_reason := Some reason\<rparr>"
  have d: "distinct (running ?a)" using sinv_distinct [OF inv] by simp
  have m: "mset (running ?a) = add_mset r (mset ?rs)" using r by simp
  have inv0: "sinv X (?a\<lparr>running := ?rs\<rparr>) p [r]" by (rule sinv_take_running [OF inv m])
  have "bm_inv bm' (pages block_table (store s) ?rs + mset (block_table ?q1)) (pages cpu_block_table (store s) (swapped s))"
    using b(1) q(2) pages_remove1 [OF r, of block_table "store s"] by (simp add: ac_simps)
  then obtain bm2 where f: "free_seq bm' ?q1 = Inr (bm2, ?q1\<lparr>block_table := [], num_registered_blocks := 0\<rparr>)"
      "bm_inv bm2 (pages block_table (store s) ?rs) (pages cpu_block_table (store s) (swapped s))" "gpu_frame bm' bm2"
    using free_seq_ok by blast
  let ?q2 = "?q1\<lparr>block_table := [], num_registered_blocks := 0\<rparr>"
  let ?s = "(set_seq ((set_seq s r q2)\<lparr>bm := bm'\<rparr>) r ?q2)\<lparr>bm := bm2, seqs := AList.delete (seq_id ?q2) (seqs s)\<rparr>"
  have run: "finish_seq ((set_seq s r q2)\<lparr>bm := bm'\<rparr>) r q reason = Inr ?s"
    using f(1) by (simp add: finish_seq_def Let_def set_seq_def)
  have c: "conf_same s ?s" using b(2) f(3) bm_static_trans gpu_frame_static
    by (auto simp: conf_same_def set_seq_def)
  have id: "seq_id q = seq_id (store s r)" using q(1) by (simp add: seq_static_def)
  have rest: "running (alive ?s) = ?rs"
    using d by (auto simp: alive_def set_seq_def distinct_remove1_removeAll removeAll_filter_not_eq
        intro!: filter_cong)
  have "sinv X (alive ?s) p []"
  proof (rule sinv_drop [OF inv0])
    show "store (alive ?s) = (store (?a\<lparr>running := ?rs\<rparr>))(r := ?q2)" by (simp add: set_seq_def)
    show "seq_static (store (?a\<lparr>running := ?rs\<rparr>) r) ?q2" using q(1) by (simp add: seq_static_def)
    show "conf_same (?a\<lparr>running := ?rs\<rparr>) (alive ?s)" using c by (simp add: conf_same_def alive_def)
    show "seqs (alive ?s) = AList.delete (seq_id (store (?a\<lparr>running := ?rs\<rparr>) r)) (seqs (?a\<lparr>running := ?rs\<rparr>))"
      using id by simp
    show "bm_inv (bm (alive ?s)) (pages block_table (store (?a\<lparr>running := ?rs\<rparr>)) (running (?a\<lparr>running := ?rs\<rparr>)))
        (pages cpu_block_table (store (?a\<lparr>running := ?rs\<rparr>)) (swapped (?a\<lparr>running := ?rs\<rparr>)))"
      using f(2) by simp
    fix x assume "x \<in> set (running (?a\<lparr>running := ?rs\<rparr>))"
    then have xrs: "x \<in> set ?rs" by simp
    then have x: "x \<in> set (running ?a)" "x \<noteq> r" using d by auto
    have split: "pages block_table (store s) (running ?a) = pages block_table (store s) ?rs + mset (block_table (store s r))"
      using pages_remove1 [OF r, of block_table "store s"] by (simp add: ac_simps)
    have "own_pages bm2 (pages block_table (store s) ?rs) (store s x)"
    proof (rule own_pages_gone)
      show "own_pages bm' (pages block_table (store s) ?rs + mset (block_table (store s r))) (store s x)"
        using own [OF x] split by simp
      show "bm_inv bm' (pages block_table (store s) ?rs + mset (block_table (store s r))) (pages cpu_block_table (store s) (swapped s))"
        using b(1) split by simp
      show "block_size bm2 = block_size bm'" using f(3) by (simp add: gpu_frame_def bm_static_def)
    qed (rule free_seq_forgets [OF f(1)], rule pages_member [OF xrs])
    then show "own_pages (bm (alive ?s)) (pages block_table (store (?a\<lparr>running := ?rs\<rparr>)) (running (?a\<lparr>running := ?rs\<rparr>)))
        (store (?a\<lparr>running := ?rs\<rparr>) x)" by simp
  qed (use rest in \<open>simp_all add: set_seq_def\<close>)
  then have "sinv X (alive ?s) (p(r := 0)) []"
  proof (rule sinv_p_cong)
    fix x assume "x \<in> set (running (alive ?s))"
    then have "x \<noteq> r" unfolding rest using d by auto
    then show "(p(r := 0)) x = p x" by simp
  qed
  then show ?thesis
    using run c free_seq_forgets [OF f(1)] by (intro exI [of _ ?s]) (simp add: set_seq_def)
qed

lemma continue_one_ok:
  assumes inv: "sinv X (alive s) p []" and r: "r \<in> set (running (alive s))"
    and b: "bm_inv bm' (pages block_table (store s) (running (alive s))) (pages cpu_block_table (store s) (swapped s))"
      "bm_static (bm s) bm'"
    and q: "seq_static (store s r) q" "block_table q = block_table (store s r)"
      "live_ok (max_model_len s) q" "running_ok (chunked s) (sch_block_size s) 0 q"
    and s': "s' = (set_seq s r q)\<lparr>bm := bm'\<rparr>" and hx: "hashes_ok X (block_size (bm s)) q"
    and own: "\<And>x. x \<in> set (running (alive s)) \<Longrightarrow> x \<noteq> r \<Longrightarrow>
        own_pages bm' (pages block_table (store s) (running (alive s))) (store s x)"
      "own_pages bm' (pages block_table (store s) (running (alive s))) q"
  shows "sinv X (alive s') (p(r := 0)) [] \<and> conf_same s s'"
proof -
  let ?a = "alive s"
  have stat: "status q = RUNNING" using q(4) by (simp add: running_ok_def)
  have run: "running (alive s') = running ?a"
    using stat r by (auto simp: alive_def s' set_seq_def intro!: filter_cong)
  have c: "conf_same s s'" using b(2) by (simp add: conf_same_def s' set_seq_def)
  have "sinv X (alive s') (p(r := 0)) []"
  proof (rule sinv_running [OF inv r])
    show "store (alive s') = (store ?a)(r := q)" by (simp add: s' set_seq_def)
    show "conf_same ?a (alive s')" using c by (simp add: conf_same_def alive_def)
    show "bm_inv (bm (alive s')) (pages block_table ((store ?a)(r := q)) (running ?a))
        (pages cpu_block_table (store ?a) (swapped ?a))"
      using b(1) q(2) by (simp add: s')
    fix x assume x: "x \<in> set (running ?a)"
    have "pages block_table ((store s)(r := q)) (running ?a) = pages block_table (store s) (running ?a)"
      by (rule pages_upd_same) (rule q(2))
    then show "own_pages (bm (alive s')) (pages block_table ((store ?a)(r := q)) (running ?a)) (((store ?a)(r := q)) x)"
      using own(1) [OF x] own(2) by (simp add: s')
  qed (use q run hx in \<open>simp_all add: s' set_seq_def\<close>)
  with c show ?thesis by simp
qed

lemma update_one_ok:
  assumes inv: "sinv X (alive s) p []" and r: "r \<in> set (running (alive s))"
    and n: "n = p r" "1 \<le> n" and smp: "smp = samples (store s) p r" and toks: "smp \<Longrightarrow> toks \<noteq> []"
  shows "\<exists>s' outs' any'. update_one X now (s, outs, toks, any_finished) (r, n, smp)
        = Inr (s', outs', if smp then tl toks else toks, any') \<and>
     sinv X (alive s') (p(r := 0)) [] \<and> conf_same s s' \<and> running s' = running s \<and> outputs s' = outputs s \<and>
     (\<forall>x. x \<noteq> r \<longrightarrow> store s' x = store s x) \<and>
     advanced s s' r n (if smp then [hd toks] else []) \<and>
     any' = (any_finished \<or> status (store s' r) \<noteq> RUNNING) \<and>
     (\<exists>os. outs' = outs @ os \<and> map out_token_ids os = (if smp then [[hd toks]] else []) \<and>
        map out_seq_id os = (if smp then [seq_id (store s r)] else []) \<and>
        (smp \<longrightarrow> (finished (hd os) \<longleftrightarrow> status (store s' r) = FINISHED))) \<and>
     pages_named X s s' p [r]"
proof -
  let ?a = "alive s" and ?q0 = "store s r"
  define q1 where "q1 = ?q0\<lparr>num_computed_tokens := num_computed_tokens ?q0 + n\<rparr>"
  have D: "bm_inv (bm s) (pages block_table (store s) (running ?a)) (pages cpu_block_table (store s) (swapped s))"
    using sinvD(1) [OF inv] by (simp add: pages_inv_def)
  have ok: "running_ok (chunked s) (sch_block_size s) n ?q0"
    using seqs_invD(1) [OF sinvD(3) [OF inv] r] n(1) by simp
  have live: "live_ok (max_model_len s) ?q0"
    using sinv_live [OF inv, of r] r by (simp add: queue_list_def)
  have bs: "block_size (bm s) = sch_block_size s" "0 < sch_block_size s"
    using sinvD(5) [OF inv] sinv_bs_pos [OF inv] by (simp_all add: conf_ok_def)
  have "num_computed_tokens q1 div int (block_size (bm s)) \<le> int (length (block_table q1))"
    using full_blocks_held [OF bs(2), of "num_computed_tokens q1" "block_table q1"] ok bs(1)
    by (simp add: q1_def running_ok_def)
  moreover have "set (block_table q1) \<subseteq> set_mset (pages block_table (store s) (running ?a))"
    using pages_member [OF r, of block_table "store s"] by (simp add: q1_def)
  ultimately obtain bm' q2 where c: "cache_full_blocks X (bm s) q1 = Inr (bm', q2)"
      "bm_inv bm' (pages block_table (store s) (running ?a)) (pages cpu_block_table (store s) (swapped s))"
      "gpu_frame (bm s) bm'" "q2 = q1\<lparr>block_hashes := block_hashes q2, num_registered_blocks := num_registered_blocks q2\<rparr>"
    using cache_full_blocks_ok [OF D, of q1 X] by blast
  obtain h k where q2: "q2 = ?q0\<lparr>num_computed_tokens := num_computed_tokens ?q0 + n, block_hashes := h,
      num_registered_blocks := k\<rparr>"
    using c(4) unfolding q1_def by simp
  have st: "bm_static (bm s) bm'" by (rule gpu_frame_static [OF c(3)])
  then have bs': "block_size bm' = block_size (bm s)" by (simp add: bm_static_def)
  note P = publish_own [OF inv r n(1), simplified alive_fields, OF q1_def c(1) bs']
  have named: "pages_named X s s' p [r]" if "forgets bm' (bm s')" for s'
    using P(4) [of "s\<lparr>bm := bm'\<rparr>"] pages_named_forgets [of X "alive s" "s\<lparr>bm := bm'\<rparr>" p "[r]" s'] that
    by (simp add: pages_named_def)
  define s1 where "s1 = (set_seq s r q2)\<lparr>bm := bm'\<rparr>"
  show ?thesis
  proof (cases smp)
    case False
    then have lt: "num_computed_tokens ?q0 + n < num_tokens ?q0" "chunked s"
      using ok smp n by (auto simp: samples_def running_ok_def)
    have "running_ok (chunked s) (sch_block_size s) 0 q2"
      using ok lt n(2) by (auto simp: running_ok_def q2 num_tokens_def)
    moreover have own2: "own_pages bm' (pages block_table (store s) (running ?a)) q2" by (rule P(3)) (simp_all add: q2 q1_def)
    moreover have "live_ok (max_model_len s) q2"
      using live by (simp add: q2 live_ok_def tokens_consistent_def num_prompt_tokens_def num_output_tokens_def)
    ultimately have "sinv X (alive s1) (p(r := 0)) [] \<and> conf_same s s1"
      using P(1,2) own2 by (intro continue_one_ok [OF inv r c(2) st, where q = q2]) (simp_all add: q2 seq_static_def s1_def)
    moreover have "update_one X now (s, outs, toks, any_finished) (r, n, smp) = Inr (s1, outs, toks, any_finished)"
      using False c(1) by (simp add: update_one_def Let_def q1_def s1_def)
    moreover have "advanced s s1 r n []"
      using r by (simp add: advanced_def s1_def set_seq_def q2 seq_static_def)
    moreover from this have "status (store s1 r) = RUNNING" by (simp add: advanced_def)
    ultimately show ?thesis
      using False named [of s1] by (intro exI [of _ s1] exI [of _ outs] exI [of _ any_finished])
        (simp add: s1_def set_seq_def)
  next
    case True
    then obtain t ts where t: "toks = t # ts" using toks by (cases toks) auto
    obtain q3 tx finish where a: "append_token X q2 t (eos_ids s1) (max_model_len s1) = (q3, tx, finish)"
      by (metis prod_cases3)
    note A = append_token_fields [OF a]
    define q4 where "q4 = (if first_token_time q3 = None then q3\<lparr>first_token_time := Some now\<rparr> else q3)"
    define out where "out = \<lparr>out_seq_id = seq_id q4, out_token_ids = [t], out_text = tx,
        finished = (finish \<noteq> None), out_finish_reason = finish,
        out_num_prompt_tokens = num_prompt_tokens q4,
        out_num_output_tokens = num_output_tokens q4, out_error = None\<rparr>"
    have q4: "token_ids q4 = token_ids ?q0 @ [t]" "output_token_ids q4 = output_token_ids ?q0 @ [t]"
      "seq_static ?q0 q4" "sampling_params_of q4 = sampling_params_of ?q0" "status q4 = RUNNING"
      "block_table q4 = block_table ?q0" "cpu_block_table q4 = cpu_block_table ?q0"
      "num_computed_tokens q4 = num_computed_tokens ?q0 + n"
      "num_registered_blocks q4 = num_registered_blocks q2" "block_hashes q4 = block_hashes q2"
      using A r by (simp_all add: q4_def q2 seq_static_def)
    have "token_ids q2 = token_ids ?q0" by (simp add: q2)
    then have h4: "hashes_ok X (block_size (bm s)) q4"
      using hashes_ok_append [OF P(1), of t] q4(1,10) by (simp add: hashes_ok_def seq_append_token_def)
    have full: "num_computed_tokens ?q0 + n = num_tokens ?q0" using True smp n(1) by (simp add: samples_def)
    show ?thesis
    proof (cases finish)
      case None
      have "running_ok (chunked s) (sch_block_size s) 0 q4"
        using ok full q4 by (auto simp: running_ok_def num_tokens_def)
      moreover have "num_output_tokens q4 < max_tokens (sampling_params_of q4)"
        using append_token_continues(1) [of X q2 t "eos_ids s1" "max_model_len s1" q3 tx] a None A(4)
        by (simp add: q4_def num_output_tokens_def)
      then have "live_ok (max_model_len s) q4"
        using live q4 by (simp add: live_ok_def tokens_consistent_def seq_static_def num_prompt_tokens_def)
      ultimately have "sinv X (alive ((set_seq s r q4)\<lparr>bm := bm'\<rparr>)) (p(r := 0)) [] \<and>
          conf_same s ((set_seq s r q4)\<lparr>bm := bm'\<rparr>)"
        using P(2) P(3) [OF q4(6) _ q4(9)] h4 q4(8) by (intro continue_one_ok [OF inv r c(2) st q4(3) q4(6)]) (simp_all add: q1_def)
      moreover have "set_seq s1 r q4 = (set_seq s r q4)\<lparr>bm := bm'\<rparr>" by (simp add: s1_def set_seq_def)
      ultimately have s4: "sinv X (alive (set_seq s1 r q4)) (p(r := 0)) [] \<and> conf_same s (set_seq s1 r q4)"
        by simp
      have "update_one X now (s, outs, toks, any_finished) (r, n, smp)
          = Inr (set_seq s1 r q4, outs @ [out], ts, any_finished)"
        using True c(1) t a None by (simp add: update_one_def Let_def q1_def s1_def [symmetric] q4_def out_def)
      moreover have "advanced s (set_seq s1 r q4) r n [t]"
        using q4 by (simp add: advanced_def set_seq_def)
      moreover have "seq_id q4 = seq_id ?q0" using q4(3) by (simp add: seq_static_def)
      ultimately show ?thesis
        using True t s4 None q4(5) named [of "set_seq s1 r q4"]
        by (intro exI [of _ "set_seq s1 r q4"] exI [of _ "outs @ [out]"] exI [of _ any_finished])
          (simp add: s1_def set_seq_def out_def)
    next
      case (Some reason)
      obtain s' where f: "finish_seq s1 r q4 reason = Inr s'" "sinv X (alive s') (p(r := 0)) []"
          "conf_same s s'" "running s' = running s" "outputs s' = outputs s"
          "store s' = (store s)(r := q4\<lparr>status := FINISHED, finish_reason := Some reason, block_table := [],
            num_registered_blocks := 0\<rparr>)" "forgets bm' (bm s')"
        using finish_one_ok [OF inv r c(2) st q4(3,6) P(2)] s1_def by blast
      have "update_one X now (s, outs, toks, any_finished) (r, n, smp) = Inr (s', outs @ [out], ts, True)"
        using True c(1) t a Some f(1)
        by (simp add: update_one_def Let_def q1_def s1_def [symmetric] q4_def [symmetric] out_def)
      moreover have "advanced s s' r n [t]"
        using q4 f(6) by (simp add: advanced_def seq_static_def)
      moreover have "seq_id q4 = seq_id ?q0" using q4(3) by (simp add: seq_static_def)
      ultimately show ?thesis
        using True t f Some named [OF f(7)]
        by (intro exI [of _ s'] exI [of _ "outs @ [out]"] exI [of _ True]) (simp add: out_def)
    qed
  qed
qed

section \<open>The whole batch\<close>

text \<open>The new tokens of the batch, dealt to the sampling sequences in batch order.\<close>

fun dealt :: "(sref \<Rightarrow> bool) \<Rightarrow> sref list \<Rightarrow> int list \<Rightarrow> sref \<Rightarrow> int list" where
  "dealt smp [] toks x = []"
| "dealt smp (r # rs) toks x =
     (if x = r then (if smp r then [hd toks] else [])
      else dealt smp rs (if smp r then tl toks else toks) x)"

definition batch_items :: "seq_store \<Rightarrow> (sref \<Rightarrow> int) \<Rightarrow> sref list \<Rightarrow> (sref \<times> int \<times> bool) list" where
  "batch_items st p rs = map (\<lambda>r. (r, p r, samples st p r)) rs"

lemma zip_with_images: "zip xs (zip (map f xs) (map g xs)) = map (\<lambda>x. (x, f x, g x)) xs"
  by (induction xs) simp_all

lemma batch_items_eq:
  "batch_ok s p b \<Longrightarrow> zip (b_seqs b) (zip (num_new_tokens b) (do_sample b)) = batch_items (store s) p (b_seqs b)"
  unfolding batch_ok_def batch_items_def by (simp add: zip_with_images)

definition updated :: "scheduler \<Rightarrow> scheduler \<Rightarrow> (sref \<Rightarrow> int) \<Rightarrow> sref list \<Rightarrow> int list \<Rightarrow> bool" where
  "updated s s' p rs toks \<longleftrightarrow>
     conf_same s s' \<and> running s' = running s \<and> outputs s' = outputs s \<and>
     (\<forall>x. x \<notin> set rs \<longrightarrow> store s' x = store s x) \<and>
     (\<forall>r \<in> set rs. advanced s s' r (p r) (dealt (samples (store s) p) rs toks r))"

lemma update_loop_ok:
  assumes "sinv X (alive s) p []" and "distinct rs" and "set rs \<subseteq> set (running (alive s))"
    and "\<forall>r. if r \<in> set rs then 1 \<le> p r else p r = 0"
    and "length (filter (samples (store s) p) rs) \<le> length toks"
  shows "\<exists>s' os ts any'. foldM (update_one X now) (s, outs, toks, any_finished) (batch_items (store s) p rs)
        = Inr (s', outs @ os, ts, any') \<and>
     sinv X (alive s') (\<lambda>_. 0) [] \<and> updated s s' p rs toks \<and>
     any' = (any_finished \<or> (\<exists>r \<in> set rs. status (store s' r) \<noteq> RUNNING)) \<and>
     map out_seq_id os = map (\<lambda>r. seq_id (store s r)) (filter (samples (store s) p) rs) \<and>
     map out_token_ids os = map (\<lambda>t. [t]) (take (length os) toks) \<and> pages_named X s s' p rs"
  using assms
proof (induction rs arbitrary: s p toks outs any_finished)
  case Nil
  then have "p = (\<lambda>_. 0)" by auto
  with Nil show ?case by (simp add: batch_items_def updated_def)
next
  case (Cons r rs)
  let ?smp = "samples (store s) p r"
  have r: "r \<in> set (running (alive s))" "1 \<le> p r" "r \<notin> set rs" using Cons.prems(2-4) by auto
  have toks: "?smp \<Longrightarrow> toks \<noteq> []" using Cons.prems(5) by auto
  obtain s1 outs1 any1 os1 where 1: "update_one X now (s, outs, toks, any_finished) (r, p r, ?smp)
        = Inr (s1, outs1, if ?smp then tl toks else toks, any1)"
      "sinv X (alive s1) (p(r := 0)) []" "conf_same s s1" "running s1 = running s" "outputs s1 = outputs s"
      "\<forall>x. x \<noteq> r \<longrightarrow> store s1 x = store s x" "advanced s s1 r (p r) (if ?smp then [hd toks] else [])"
      "any1 = (any_finished \<or> status (store s1 r) \<noteq> RUNNING)"
      "outs1 = outs @ os1" "map out_token_ids os1 = (if ?smp then [[hd toks]] else [])"
      "map out_seq_id os1 = (if ?smp then [seq_id (store s r)] else [])" "pages_named X s s1 p [r]"
    using update_one_ok [OF Cons.prems(1) r(1) refl r(2) refl toks, where now = now and outs = outs
        and any_finished = any_finished] by blast
  let ?p = "p(r := 0)" and ?ts = "if ?smp then tl toks else toks"
  have same: "samples (store s1) ?p x = samples (store s) p x" if "x \<noteq> r" for x
    using 1(6) that by (simp add: samples_def)
  have same': "samples (store s1) ?p x = samples (store s) p x" if "x \<in> set rs" for x
    using same [of x] that r(3) by blast
  have filt: "filter (samples (store s1) ?p) rs = filter (samples (store s) p) rs"
    by (rule filter_cong) (simp_all add: same')
  have items: "batch_items (store s1) ?p rs = batch_items (store s) p rs"
    unfolding batch_items_def by (rule map_cong) (use same' r(3) in auto)
  have sub: "set rs \<subseteq> set (running (alive s1))"
    using Cons.prems(3) 1(4,6) r(3) by (auto simp: subset_iff)
  have pos: "\<forall>x. if x \<in> set rs then 1 \<le> ?p x else ?p x = 0" using Cons.prems(4) r(3) by auto
  have len: "length (filter (samples (store s1) ?p) rs) \<le> length ?ts"
    unfolding filt using Cons.prems(5) by (cases ?smp; cases toks) auto
  obtain s' os ts any' where 2: "foldM (update_one X now) (s1, outs1, ?ts, any1) (batch_items (store s1) ?p rs)
        = Inr (s', outs1 @ os, ts, any')" "sinv X (alive s') (\<lambda>_. 0) []" "updated s1 s' ?p rs ?ts"
      "any' = (any1 \<or> (\<exists>r \<in> set rs. status (store s' r) \<noteq> RUNNING))"
      "map out_seq_id os = map (\<lambda>r. seq_id (store s1 r)) (filter (samples (store s1) ?p) rs)"
      "map out_token_ids os = map (\<lambda>t. [t]) (take (length os) ?ts)" "pages_named X s1 s' ?p rs"
  proof -
    have "distinct rs" using Cons.prems(2) by simp
    from Cons.IH [OF 1(2) this sub pos len, of outs1 any1] that show ?thesis by blast
  qed
  have rest: "store s' r = store s1 r" using 2(3) r(3) by (simp add: updated_def)
  have dealt_cong: "dealt (samples (store s1) ?p) xs us x = dealt (samples (store s) p) xs us x"
    if "r \<notin> set xs" for xs us x
    using that same by (induction xs arbitrary: us) auto
  have "updated s s' p (r # rs) toks"
    unfolding updated_def
  proof (intro conjI allI impI ballI)
    show "conf_same s s'" using 1(3) 2(3) conf_same_trans by (auto simp: updated_def)
    fix x assume x: "x \<in> set (r # rs)"
    show "advanced s s' x (p x) (dealt (samples (store s) p) (r # rs) toks x)"
    proof (cases "x = r")
      case True
      with 1(7) rest show ?thesis by (simp add: advanced_def)
    next
      case False
      with x have "advanced s1 s' x (?p x) (dealt (samples (store s1) ?p) rs ?ts x)"
        using 2(3) unfolding updated_def by auto
      then have "advanced s s' x (p x) (dealt (samples (store s) p) rs ?ts x)"
        using False 1(6) unfolding dealt_cong [OF r(3)] by (simp add: advanced_def)
      with False show ?thesis by simp
    qed
  qed (use 1(4-6) 2(3) in \<open>auto simp: updated_def\<close>)
  moreover have "foldM (update_one X now) (s, outs, toks, any_finished) (batch_items (store s) p (r # rs))
      = Inr (s', outs @ (os1 @ os), ts, any')"
    using 1(1,9) 2(1) unfolding items by (simp add: batch_items_def del: if_split_asm split del: if_split)
  moreover have "any' = (any_finished \<or> (\<exists>x \<in> set (r # rs). status (store s' x) \<noteq> RUNNING))"
    using 1(8) 2(4) rest by auto
  moreover have "map out_seq_id (os1 @ os) = map (\<lambda>r. seq_id (store s r)) (filter (samples (store s) p) (r # rs))"
    using 1(6,11) 2(5) r(3) unfolding filt by auto
  moreover have "map out_token_ids (os1 @ os) = map (\<lambda>t. [t]) (take (length (os1 @ os)) toks)"
  proof (cases ?smp)
    case True
    then obtain u us where "toks = u # us" using toks by (cases toks) auto
    moreover have "length os1 = 1" using 1(10) True by (metis length_map list.size(3,4) One_nat_def plus_1_eq_Suc add_0)
    ultimately show ?thesis using True 1(10) 2(6) by simp
  next
    case False
    then show ?thesis using 1(10) 2(6) by simp
  qed
  moreover have "block_size (bm s1) = block_size (bm s)" using 1(3) by (simp add: conf_same_def bm_static_def)
  then have "pages_named X s s' p (r # rs)" by (rule pages_named_Cons [OF 1(12) 2(7) r(3) 1(6)])
  ultimately show ?case using 2(2) by blast
qed

lemma sched_update_ok:
  assumes inv: "sinv X s p []" and ok: "batch_ok s p b"
    and enough: "length (filter (\<lambda>d. d) (do_sample b)) \<le> length sampled"
  shows "\<exists>s' os. sched_update X now s b sampled = Inr (s', outputs s @ os) \<and>
     sinv X s' (\<lambda>_. 0) [] \<and> outputs s' = [] \<and> conf_same s s' \<and>
     running s' = filter (\<lambda>r. status (store s' r) = RUNNING) (running s) \<and>
     (\<forall>x. x \<notin> set (b_seqs b) \<longrightarrow> store s' x = store s x) \<and>
     (\<forall>r \<in> set (b_seqs b). advanced s s' r (p r) (dealt (samples (store s) p) (b_seqs b) sampled r)) \<and>
     map out_seq_id os = map (\<lambda>r. seq_id (store s r)) (filter (samples (store s) p) (b_seqs b)) \<and>
     map out_token_ids os = map (\<lambda>t. [t]) (take (length os) sampled) \<and>
     pages_named X s s' p (b_seqs b)"
proof -
  note B = batch_okD [OF ok]
  define s0 where "s0 = s\<lparr>outputs := []\<rparr>"
  have inv0: "sinv X s0 p []"
    using inv by (simp add: s0_def)
  have al: "alive s0 = s0" by (rule alive_same [OF inv0])
  have f0: "store s0 = store s" "running s0 = running s" by (simp_all add: s0_def)
  have "filter (\<lambda>d. d) (do_sample b) = map (samples (store s) p) (filter (samples (store s) p) (b_seqs b))"
    unfolding B(7) by (simp add: filter_map comp_def)
  then have len: "length (filter (samples (store s0) p) (b_seqs b)) \<le> length sampled"
    using enough by (simp add: f0)
  have pos: "\<forall>r. if r \<in> set (b_seqs b) then 1 \<le> p r else p r = 0" using B(3,4) by auto
  have inv0': "sinv X (alive s0) p []" using inv0 al by simp
  have sub: "set (b_seqs b) \<subseteq> set (running (alive s0))" unfolding al f0 by (rule B(2))
  obtain s1 os ts any' where 1: "foldM (update_one X now) (s0, outputs s, sampled, False)
        (batch_items (store s0) p (b_seqs b)) = Inr (s1, outputs s @ os, ts, any')"
      "sinv X (alive s1) (\<lambda>_. 0) []" "updated s0 s1 p (b_seqs b) sampled"
      "any' = (\<exists>r \<in> set (b_seqs b). status (store s1 r) \<noteq> RUNNING)"
      "map out_seq_id os = map (\<lambda>r. seq_id (store s0 r)) (filter (samples (store s0) p) (b_seqs b))"
      "map out_token_ids os = map (\<lambda>t. [t]) (take (length os) sampled)" "pages_named X s0 s1 p (b_seqs b)"
    using update_loop_ok [OF inv0' B(1) sub pos len, of now "outputs s" False] by auto
  have upd: "store s1 x = store s x" if "x \<notin> set (b_seqs b)" for x
    using 1(3) that f0 by (simp add: updated_def)
  have "alive s1 = s1" if "\<not> any'"
  proof -
    have "status (store s1 r) = RUNNING" if r: "r \<in> set (running s1)" for r
    proof (cases "r \<in> set (b_seqs b)")
      case False
      have "r \<in> set (running s)" using r 1(3) f0 by (simp add: updated_def)
      then show ?thesis
        using seqs_invD(1) [OF sinvD(3) [OF inv]] upd [OF False] by (auto simp: running_ok_def)
    qed (use 1(4) \<open>\<not> any'\<close> in simp)
    then show ?thesis by (simp add: alive_def)
  qed
  then have "sched_update X now s b sampled = Inr (alive s1, outputs s @ os)"
    using 1(1) f0 batch_items_eq [OF ok]
    by (simp add: sched_update_def take_outputs_def s0_def [symmetric] alive_def)
  moreover have "conf_same s (alive s1)"
    using 1(3) by (simp add: updated_def conf_same_def alive_def s0_def)
  moreover have "outputs (alive s1) = []" "running (alive s1) = filter (\<lambda>r. status (store (alive s1) r) = RUNNING) (running s)"
    using 1(3) f0 by (simp_all add: alive_def updated_def s0_def)
  moreover have "\<forall>r \<in> set (b_seqs b). advanced s (alive s1) r (p r) (dealt (samples (store s) p) (b_seqs b) sampled r)"
    using 1(3) f0 by (simp add: updated_def advanced_def)
  moreover have "pages_named X s (alive s1) p (b_seqs b)" using 1(7) by (simp add: pages_named_def s0_def)
  ultimately show ?thesis
    using 1(2,5,6) upd f0 by (intro exI [of _ "alive s1"] exI [of _ os]) simp
qed

end
