(* ===== verification/Config.thy ===== *)
theory Config
  imports Py_Float
begin

text \<open>
  \<open>engine/config.py\<close>: \<open>EngineConfig\<close>, the checks of \<open>__post_init__\<close> and \<open>resolve\<close>. \<open>aging_rate\<close>
  is a finite float.
\<close>

record engine_config =
  cfg_model :: string
  cfg_device :: string
  cfg_dtype :: string
  cfg_seed :: int
  cfg_block_size :: int
  cfg_num_blocks :: "int option"
  cfg_gpu_memory_utilization :: pyfloat
  cfg_swap_space_gb :: pyfloat
  cfg_watermark :: pyfloat
  cfg_max_num_seqs :: int
  cfg_max_batch_tokens :: int
  cfg_max_model_len :: "int option"
  cfg_enable_chunked_prefill :: bool
  cfg_enable_prefix_caching :: bool
  cfg_preemption_mode :: string
  cfg_admission_policy :: string
  cfg_aging_rate :: rat
  cfg_attention_backend :: string
  cfg_cuda_graphs :: bool
  cfg_debug_invariants :: bool
  cfg_step_log :: "string option"

definition cfg_check :: "bool \<Rightarrow> string \<Rightarrow> unit result" where
  "cfg_check c msg = (if c then Inr () else Inl (ValueError msg))"

lemma cfg_check_simps [simp]:
  "cfg_check c m = Inr u \<longleftrightarrow> c" "cfg_check c m = Inl e \<longleftrightarrow> \<not> c \<and> e = ValueError m"
  "cfg_check True m = Inr ()" "cfg_check False m = Inl (ValueError m)"
  by (auto simp: cfg_check_def)

definition starts_with :: "string \<Rightarrow> string \<Rightarrow> bool" where
  "starts_with s p \<longleftrightarrow> take (length p) s = p"

definition post_init_checks :: "engine_config \<Rightarrow> (bool \<times> string) list" where
  "post_init_checks c =
     [(cfg_block_size c > 0, ''block_size must be positive''),
      (case cfg_num_blocks c of None \<Rightarrow> True | Some n \<Rightarrow> n > 0, ''num_blocks must be positive''),
      (0 < cfg_gpu_memory_utilization c \<and> cfg_gpu_memory_utilization c \<le> 1,
        ''gpu_memory_utilization must be in (0, 1]''),
      (0 \<le> cfg_swap_space_gb c, ''swap_space_gb must be non-negative''),
      (0 \<le> cfg_watermark c \<and> cfg_watermark c < 1, ''watermark must be in [0, 1)''),
      (cfg_max_num_seqs c > 0, ''max_num_seqs must be positive''),
      (cfg_max_batch_tokens c > 0, ''max_batch_tokens must be positive''),
      (case cfg_max_model_len c of None \<Rightarrow> True | Some n \<Rightarrow> n > 0, ''max_model_len must be positive''),
      (cfg_preemption_mode c \<in> {''recompute'', ''swap''}, ''preemption_mode must be recompute or swap''),
      (cfg_admission_policy c \<in> {''fcfs'', ''sjf'', ''priority''},
        ''admission_policy must be fcfs, sjf or priority''),
      (cfg_aging_rate c \<ge> 0, ''aging_rate must be non-negative''),
      (cfg_attention_backend c \<in> {''auto'', ''naive'', ''flashinfer''},
        ''attention_backend must be auto, naive or flashinfer''),
      (cfg_dtype c \<in> {''auto'', ''float32'', ''bfloat16'', ''float16''},
        ''dtype must be auto, float32, bfloat16 or float16''),
      (cfg_device c \<in> {''auto'', ''cpu'', ''cuda'', ''mps''} \<or> starts_with (cfg_device c) ''cuda:'',
        ''device must be auto, cpu, cuda, cuda:N or mps'')]"

definition config_post_init :: "engine_config \<Rightarrow> engine_config result" where
  "config_post_init c =
     rbind (foldM (\<lambda>_ (ok, msg). cfg_check ok msg) () (post_init_checks c)) (\<lambda>_. Inr c)"

definition is_cuda :: "engine_config \<Rightarrow> bool" where
  "is_cuda c \<longleftrightarrow> starts_with (cfg_device c) ''cuda''"

text \<open>\<open>cuda\<close> is \<open>torch.cuda.is_available()\<close>.\<close>

definition resolve_auto :: "bool \<Rightarrow> engine_config \<Rightarrow> engine_config" where
  "resolve_auto cuda c =
     (let c1 = (if cfg_device c = ''auto''
                then c\<lparr>cfg_device := (if cuda then ''cuda'' else ''cpu'')\<rparr> else c);
          c2 = (if cfg_dtype c1 = ''auto''
                then c1\<lparr>cfg_dtype := (if is_cuda c1 then ''bfloat16'' else ''float32'')\<rparr> else c1)
      in if cfg_attention_backend c2 = ''auto''
         then c2\<lparr>cfg_attention_backend :=
                (if is_cuda c2 \<and> cfg_dtype c2 \<noteq> ''float32'' then ''flashinfer'' else ''naive'')\<rparr>
         else c2)"

definition resolve :: "bool \<Rightarrow> int \<Rightarrow> engine_config \<Rightarrow> engine_config result" where
  "resolve cuda model_max_len c0 =
     (let c = resolve_auto cuda c0 in
      rbind (cfg_check (\<not> (cfg_attention_backend c = ''flashinfer'' \<and> \<not> is_cuda c))
               ''the flashinfer backend needs CUDA'') (\<lambda>_.
      rbind (cfg_check (\<not> (cfg_attention_backend c = ''flashinfer'' \<and> cfg_dtype c = ''float32''))
               ''the flashinfer backend needs float16 or bfloat16'') (\<lambda>_.
      rbind (cfg_check (\<not> cfg_cuda_graphs c \<or> (is_cuda c \<and> cfg_attention_backend c = ''flashinfer''))
               ''cuda_graphs needs CUDA and the flashinfer backend'') (\<lambda>_.
      rbind (cfg_check (cfg_num_blocks c \<noteq> None \<or> is_cuda c)
               ''num_blocks must be set when not running on CUDA'') (\<lambda>_.
      let len = (case cfg_max_model_len c of None \<Rightarrow> model_max_len | Some n \<Rightarrow> n);
          c' = c\<lparr>cfg_max_model_len := Some len\<rparr> in
      rbind (cfg_check (len \<le> model_max_len)
               (''max_model_len '' @ show_int len @ '' exceeds the model'' @ [CHR 0x27] @
                ''s context length '' @ show_int model_max_len)) (\<lambda>_.
      if cfg_enable_chunked_prefill c' then
        rbind (cfg_check (cfg_max_batch_tokens c' \<ge> cfg_max_num_seqs c')
                 ''with chunked prefill, max_batch_tokens must be >= max_num_seqs'') (\<lambda>_. Inr c')
      else if cfg_max_batch_tokens c' < len then Inr (c'\<lparr>cfg_max_batch_tokens := len\<rparr>)
      else Inr c'))))))"

section \<open>What a resolved configuration guarantees\<close>

definition config_valid :: "engine_config \<Rightarrow> bool" where
  "config_valid c \<longleftrightarrow> config_post_init c = Inr c"

lemma config_valid_iff: "config_valid c \<longleftrightarrow> list_all fst (post_init_checks c)"
proof -
  have "foldM (\<lambda>_ (ok, msg). cfg_check ok msg) () xs = Inr () \<longleftrightarrow> list_all fst xs" for xs
    by (induction xs) (auto simp: result_simps)
  then show ?thesis
    by (auto simp: config_valid_def config_post_init_def result_simps)
qed

end
