(* ===== verification/Scheduler_Check.thy ===== *)
theory Scheduler_Check
  imports Scheduler_Requests Scheduler_Update Scheduler_Schedule Config
begin

text \<open>
  \<open>Scheduler.check_invariants\<close>, the assertions the engine runs after every step in debug mode, as an
  executable function in the order of the source, and the proof that the scheduler's invariant makes
  every one of them hold. Then the constructor and the invariant of its result.
\<close>

section \<open>The assertions\<close>

definition check_running :: "sequence \<Rightarrow> unit result" where
  "check_running q =
     rbind (py_assert (status q = RUNNING \<and> cpu_block_table q = []) (''bad running seq '' @ show_int (seq_id q))) (\<lambda>_.
       py_assert (num_uncomputed_tokens q \<ge> 1)
         (''running seq '' @ show_int (seq_id q) @ '' has nothing left to compute''))"

definition check_swapped :: "sequence \<Rightarrow> unit result" where
  "check_swapped q = py_assert (status q = PREEMPTED \<and> cpu_block_table q \<noteq> [] \<and> block_table q = []) ''''"

definition check_preempted :: "sequence \<Rightarrow> unit result" where
  "check_preempted q =
     rbind (py_assert (status q = PREEMPTED \<and> block_table q = [] \<and> cpu_block_table q = []) '''') (\<lambda>_.
       py_assert (num_computed_tokens q = 0) '''')"

definition check_waiting :: "sequence \<Rightarrow> unit result" where
  "check_waiting q = py_assert (status q = WAITING \<and> block_table q = [] \<and> num_computed_tokens q = 0) ''''"

definition sched_check :: "scheduler \<Rightarrow> unit result" where
  "sched_check s =
     rbind (bm_check (bm s) (map (store s) (running s)) (map (store s) (swapped s))) (\<lambda>_.
     rbind (foldM (\<lambda>_ r. check_running (store s r)) () (running s)) (\<lambda>_.
     rbind (foldM (\<lambda>_ r. check_swapped (store s r)) () (swapped s)) (\<lambda>_.
     rbind (foldM (\<lambda>_ r. check_preempted (store s r)) () (preempted s)) (\<lambda>_.
     rbind (foldM (\<lambda>_ r. check_waiting (store s r)) () (wq_iter (waiting s))) (\<lambda>_.
     let queued = running s @ swapped s @ preempted s @ wq_iter (waiting s) in
     rbind (py_assert (length queued = card (set (map (\<lambda>r. seq_id (store s r)) queued)) \<and>
                       card (set (map (\<lambda>r. seq_id (store s r)) queued)) = length (seqs s))
              ''a sequence is lost or queued twice'') (\<lambda>_.
       py_assert (int (length (running s)) \<le> max_num_seqs s) ''''))))))"

text \<open>The \<open>describe\<close> line of the error the engine raises when an iteration makes no progress.\<close>

definition show_list :: "('a \<Rightarrow> string) \<Rightarrow> 'a list \<Rightarrow> string" where
  "show_list f xs = ''['' @ (case xs of [] \<Rightarrow> [] | y # ys \<Rightarrow> f y @ concat (map (\<lambda>x. '', '' @ f x) ys)) @ '']''"

definition describe :: "scheduler \<Rightarrow> string" where
  "describe s =
     ''running='' @ show_list (\<lambda>r. ''('' @ show_int (seq_id (store s r)) @ '', '' @
        show_int (num_computed_tokens (store s r)) @ '', '' @ show_int (num_tokens (store s r)) @ '')'') (running s)
     @ '' swapped='' @ show_list (\<lambda>r. show_int (seq_id (store s r))) (swapped s)
     @ '' preempted='' @ show_list (\<lambda>r. show_int (seq_id (store s r))) (preempted s)
     @ '' waiting='' @ show_int (wq_len (waiting s))
     @ '' free_blocks='' @ show_int (num_free_blocks (bm s)) @ ''/'' @ show_nat (num_blocks (bm s))"

section \<open>The invariant makes them hold\<close>

definition tables_distinct :: "scheduler \<Rightarrow> bool" where
  "tables_distinct s \<longleftrightarrow> (\<forall>r \<in> set (running s). distinct (block_table (store s r)))"

lemma count_pages: "count (pages f st rs) i = (\<Sum>r\<leftarrow>rs. count_list (f (st r)) i)"
  by (induction rs) (simp_all add: count_mset)

lemma tables_distinct_uncached:
  assumes inv: "sinv X s p []" and off: "\<not> enable_prefix_caching (bm s)"
  shows "tables_distinct s"
  unfolding tables_distinct_def
proof
  fix r assume r: "r \<in> set (running s)"
  have "refs_ok (bm s) (pages block_table (store s) (running s))"
    using sinvD(1) [OF inv] by (simp add: pages_inv_def bm_inv_def)
  then have one: "count (pages block_table (store s) (running s)) i \<le> 1" for i
    using off unfolding refs_ok_def by blast
  have le: "count (mset (block_table (store s r))) i \<le> 1" for i
    using one [of i] pages_remove1 [OF r, of block_table "store s"] by simp
  show "distinct (block_table (store s r))"
    unfolding distinct_count_atmost_1
  proof
    fix i
    show "count (mset (block_table (store s r))) i = (if i \<in> set (block_table (store s r)) then 1 else 0)"
    proof (cases "i \<in> set (block_table (store s r))")
      case True
      then have "i \<in># mset (block_table (store s r))" by simp
      then have "0 < count (mset (block_table (store s r))) i" by (simp only: count_greater_zero_iff)
      with le [of i] have "count (mset (block_table (store s r))) i = 1" by linarith
      with True show ?thesis by simp
    qed (simp add: not_in_iff [symmetric])
  qed
qed

lemma mset_concat_tables: "mset (concat (map f (map (store s) rs))) = pages f (store s) rs"
  by (simp add: pages_def comp_def)

lemma distinct_ids:
  assumes inv: "sinv X s p []"
  shows "inj_on (\<lambda>r. seq_id (store s r)) (set (queue_list s []))"
    and "length (seqs s) = length (queue_list s [])"
proof -
  note Q = queues_invD [OF sinvD(2) [OF inv]]
  show inj: "inj_on (\<lambda>r. seq_id (store s r)) (set (queue_list s []))"
  proof (rule inj_onI)
    fix x y assume x: "x \<in> set (queue_list s [])" and y: "y \<in> set (queue_list s [])"
      and eq: "seq_id (store s x) = seq_id (store s y)"
    have "map_of (seqs s) (seq_id (store s x)) = Some x"
      using Q(4) [of "seq_id (store s x)" x] x by simp
    moreover have "map_of (seqs s) (seq_id (store s x)) = Some y"
      using Q(4) [of "seq_id (store s x)" y] y eq by simp
    ultimately show "x = y" by simp
  qed
  have "set (seqs s) = (\<lambda>r. (seq_id (store s r), r)) ` set (queue_list s [])"
  proof -
    have mem: "(i, r) \<in> set (seqs s) \<longleftrightarrow> r \<in> set (queue_list s []) \<and> seq_id (store s r) = i" for i r
    proof -
      have "(i, r) \<in> set (seqs s) \<longleftrightarrow> map_of (seqs s) i = Some r"
        using Q(3) by (simp add: dict_wf_def)
      then show ?thesis using Q(4) [of i r] by blast
    qed
    show ?thesis
    proof (rule set_eqI)
      fix e :: "int \<times> sref"
      obtain i r where e: "e = (i, r)" by (cases e)
      show "e \<in> set (seqs s) \<longleftrightarrow> e \<in> (\<lambda>r. (seq_id (store s r), r)) ` set (queue_list s [])"
        unfolding e mem by blast
    qed
  qed
  then have "card (set (seqs s)) = card (set (queue_list s []))"
    by (simp add: card_image inj_on_def)
  moreover have "card (set (seqs s)) = length (seqs s)"
    using Q(3) unfolding dict_wf_def by (metis distinct_card distinct_map)
  moreover have "card (set (queue_list s [])) = length (queue_list s [])"
    by (rule distinct_card [OF Q(2)])
  ultimately show "length (seqs s) = length (queue_list s [])" by simp
qed

lemma sched_check_ok:
  assumes inv: "sinv X s (\<lambda>_. 0) []" and dist: "tables_distinct s"
  shows "sched_check s = Inr ()"
proof -
  note D = sinvD [OF inv]
  note S = seqs_invD [OF D(3)]
  note W = wq_iter_pending [OF sinv_wq [OF inv]]
  have bs: "block_size (bm s) = sch_block_size s" using D(5) by (simp add: conf_ok_def)
  have bm: "bm_check (bm s) (map (store s) (running s)) (map (store s) (swapped s)) = Inr ()"
  proof (rule bm_check_ok)
    show "bm_inv (bm s) (mset (concat (map block_table (map (store s) (running s)))))
        (mset (concat (map cpu_block_table (map (store s) (swapped s)))))"
      using D(1) unfolding mset_concat_tables by (simp add: pages_inv_def)
    fix q assume "q \<in> set (map (store s) (running s))"
    then obtain r where r: "r \<in> set (running s)" "q = store s r" by auto
    show "distinct (block_table q)" using dist r by (simp add: tables_distinct_def)
    show "int (length (block_table q)) = blocks_for (bm s) (num_computed_tokens q)"
      using S(1) [OF r(1)] r(2) by (simp add: running_ok_def blocks_for_conf [OF D(5)])
  qed
  have run: "foldM (\<lambda>_ r. check_running (store s r)) () (running s) = Inr ()"
    by (rule foldM_unit_ok) (use S(1) in \<open>force simp: check_running_def running_ok_def num_uncomputed_tokens_def num_tokens_def\<close>)
  have sw: "foldM (\<lambda>_ r. check_swapped (store s r)) () (swapped s) = Inr ()"
    by (rule foldM_unit_ok) (use S(2) in \<open>force simp: check_swapped_def swapped_ok_def\<close>)
  have pr: "foldM (\<lambda>_ r. check_preempted (store s r)) () (preempted s) = Inr ()"
    by (rule foldM_unit_ok) (use S(3) in \<open>force simp: check_preempted_def idle_ok_def\<close>)
  have wa: "foldM (\<lambda>_ r. check_waiting (store s r)) () (wq_iter (waiting s)) = Inr ()"
    by (rule foldM_unit_ok)
      (use S(4) mset_eq_setD [OF W(1)] in \<open>force simp: check_waiting_def idle_ok_def\<close>)
  let ?q = "running s @ swapped s @ preempted s @ wq_iter (waiting s)"
  have "mset ?q = mset (queue_list s [])" using W(1) by (simp add: queue_list_def)
  then have sets: "set ?q = set (queue_list s [])" and len: "length ?q = length (queue_list s [])"
    by (metis set_mset_mset, metis size_mset)
  have "card (set (map (\<lambda>r. seq_id (store s r)) ?q)) = card (set (queue_list s []))"
    unfolding set_map sets by (rule card_image [OF distinct_ids(1) [OF inv]])
  also have "\<dots> = length (queue_list s [])"
    by (rule distinct_card) (use queues_invD(2) [OF D(2)] in simp)
  finally have card: "card (set (map (\<lambda>r. seq_id (store s r)) ?q)) = length (queue_list s [])" .
  then show ?thesis
    using bm run sw pr wa D(6) len distinct_ids(2) [OF inv]
    by (simp add: sched_check_def Let_def del: set_append set_map length_append map_append)
qed

section \<open>The constructor\<close>

definition init_scheduler :: "engine_config \<Rightarrow> block_manager \<Rightarrow> int list \<Rightarrow> scheduler" where
  "init_scheduler c b eos =
     \<lparr>store = (\<lambda>_. new_sequence 0 [] \<lparr>temperature = 0, top_p = 1, max_tokens = 1, stop = [], ignore_eos = False\<rparr> 0 None),
      bm = b, sch_block_size = nat (cfg_block_size c), chunked = cfg_enable_chunked_prefill c,
      max_num_seqs = cfg_max_num_seqs c, max_batch_tokens = cfg_max_batch_tokens c,
      max_model_len = the (cfg_max_model_len c), preemption_mode = cfg_preemption_mode c,
      eos_ids = eos, waiting = init_wait_queue (cfg_admission_policy c) (cfg_aging_rate c),
      preempted = [], running = [], swapped = [], seqs = [], outputs = [],
      num_preemptions = 0, num_swap_outs = 0, num_aborted = 0, num_failed = 0\<rparr>"

lemma init_scheduler_inv:
  assumes "bm_inv b {#} {#}" and "block_size b = nat (cfg_block_size c)" and "0 \<le> watermark_blocks b"
    and "0 < cfg_max_num_seqs c" and "0 < cfg_max_batch_tokens c"
    and "if cfg_enable_chunked_prefill c then cfg_max_num_seqs c \<le> cfg_max_batch_tokens c
         else the (cfg_max_model_len c) \<le> cfg_max_batch_tokens c"
  shows "sinv X ((init_scheduler c b eos)\<lparr>store := st\<rparr>) (\<lambda>_. 0) []"
  using assms
  by (simp add: sinv_def pages_inv_def queues_inv_def seqs_inv_def live_inv_def conf_ok_def cache_inv_def queue_list_def
      init_scheduler_def)

end
