(* ===== verification/Config_Props.thy ===== *)
theory Config_Props
  imports Config
begin

text \<open>
  What a validated and resolved configuration guarantees to the scheduler and the runner, and the
  idempotence \<open>resolve\<close> documents.
\<close>

section \<open>The stages of \<open>resolve\<close>\<close>

lemma resolve_auto_fields:
  "cfg_max_model_len (resolve_auto cuda c) = cfg_max_model_len c"
  "cfg_max_batch_tokens (resolve_auto cuda c) = cfg_max_batch_tokens c"
  "cfg_max_num_seqs (resolve_auto cuda c) = cfg_max_num_seqs c"
  "cfg_enable_chunked_prefill (resolve_auto cuda c) = cfg_enable_chunked_prefill c"
  "cfg_num_blocks (resolve_auto cuda c) = cfg_num_blocks c"
  "cfg_cuda_graphs (resolve_auto cuda c) = cfg_cuda_graphs c"
  "cfg_block_size (resolve_auto cuda c) = cfg_block_size c"
  "cfg_gpu_memory_utilization (resolve_auto cuda c) = cfg_gpu_memory_utilization c"
  "cfg_swap_space_gb (resolve_auto cuda c) = cfg_swap_space_gb c"
  "cfg_watermark (resolve_auto cuda c) = cfg_watermark c"
  "cfg_preemption_mode (resolve_auto cuda c) = cfg_preemption_mode c"
  "cfg_admission_policy (resolve_auto cuda c) = cfg_admission_policy c"
  "cfg_aging_rate (resolve_auto cuda c) = cfg_aging_rate c"
  by (simp_all add: resolve_auto_def Let_def)

lemma resolve_auto_chosen:
  "cfg_device (resolve_auto cuda c) \<noteq> ''auto''"
  "cfg_dtype (resolve_auto cuda c) \<noteq> ''auto''"
  "cfg_attention_backend (resolve_auto cuda c) \<noteq> ''auto''"
  by (simp_all add: resolve_auto_def Let_def)

lemma resolve_auto_done:
  "cfg_device c \<noteq> ''auto'' \<Longrightarrow> cfg_dtype c \<noteq> ''auto'' \<Longrightarrow> cfg_attention_backend c \<noteq> ''auto'' \<Longrightarrow>
     resolve_auto cuda c = c"
  by (simp add: resolve_auto_def Let_def)

lemma resolve_auto_same:
  "cfg_device c \<noteq> ''auto'' \<Longrightarrow> cfg_device (resolve_auto cuda c) = cfg_device c"
  "cfg_dtype c \<noteq> ''auto'' \<Longrightarrow> cfg_dtype (resolve_auto cuda c) = cfg_dtype c"
  by (simp_all add: resolve_auto_def Let_def)

lemma resolve_auto_range:
  "cfg_device (resolve_auto cuda c) \<in> {cfg_device c, ''cuda'', ''cpu''}"
  "cfg_dtype (resolve_auto cuda c) \<in> {cfg_dtype c, ''bfloat16'', ''float32''}"
  "cfg_attention_backend (resolve_auto cuda c) \<in> {cfg_attention_backend c, ''flashinfer'', ''naive''}"
  by (simp_all add: resolve_auto_def Let_def)

lemma pick_of_three: "x \<in> {y, a, b} \<Longrightarrow> P y \<Longrightarrow> P a \<Longrightarrow> P b \<Longrightarrow> P x"
  by blast

text \<open>The checks that pass and the value of a successful \<open>resolve\<close>.\<close>

lemma resolve_Inr:
  assumes "resolve cuda m c0 = Inr c'"
  defines "c \<equiv> resolve_auto cuda c0"
  defines "len \<equiv> (case cfg_max_model_len c0 of None \<Rightarrow> m | Some n \<Rightarrow> n)"
  shows "cfg_attention_backend c = ''flashinfer'' \<longrightarrow> is_cuda c \<and> cfg_dtype c \<noteq> ''float32''"
    and "cfg_cuda_graphs c \<longrightarrow> is_cuda c \<and> cfg_attention_backend c = ''flashinfer''"
    and "cfg_num_blocks c \<noteq> None \<or> is_cuda c" and "len \<le> m"
    and "cfg_enable_chunked_prefill c \<longrightarrow> cfg_max_num_seqs c \<le> cfg_max_batch_tokens c"
    and "c' = c\<lparr>cfg_max_model_len := Some len, cfg_max_batch_tokens :=
           (if cfg_enable_chunked_prefill c then cfg_max_batch_tokens c
            else max (cfg_max_batch_tokens c) len)\<rparr>"
  using assms by (auto simp: resolve_def Let_def result_simps resolve_auto_fields max_def is_cuda_def
      split: if_splits)

section \<open>Properties\<close>

text \<open>C40: a resolved configuration satisfies the cross-field rules the scheduler relies on: with
  chunked prefill every running sequence can decode in one iteration, without it any admissible
  prompt fits one iteration; the model length is set and within the model's context; and FlashInfer
  and CUDA graphs are chosen only on a CUDA device with a 16-bit type.\<close>

theorem resolve_guarantees:
  assumes "resolve cuda m c0 = Inr c"
  shows "\<exists>len. cfg_max_model_len c = Some len \<and> len \<le> m \<and>
           (if cfg_enable_chunked_prefill c then cfg_max_num_seqs c \<le> cfg_max_batch_tokens c
            else len \<le> cfg_max_batch_tokens c) \<and>
           cfg_max_batch_tokens c0 \<le> cfg_max_batch_tokens c \<and>
           cfg_device c \<noteq> ''auto'' \<and> cfg_dtype c \<noteq> ''auto'' \<and>
           (cfg_attention_backend c = ''flashinfer'' \<and> is_cuda c \<and> cfg_dtype c \<noteq> ''float32''
            \<or> cfg_attention_backend c \<noteq> ''flashinfer'' \<and> \<not> cfg_cuda_graphs c) \<and>
           (cfg_num_blocks c \<noteq> None \<or> is_cuda c)"
  using resolve_Inr [OF assms] resolve_auto_chosen [of cuda c0] resolve_auto_fields [of cuda c0]
  by (auto simp: is_cuda_def)

text \<open>\<open>resolve\<close> is idempotent, as it documents: resolving a resolved configuration changes
  nothing, whatever devices are available the second time.\<close>

lemma resolve_idempotent:
  assumes "resolve cuda m c0 = Inr c"
  shows "resolve cuda' m c = Inr c"
proof -
  note R = resolve_Inr [OF assms]
  have "resolve_auto cuda' c = c"
    by (rule resolve_auto_done) (simp_all add: R(6) resolve_auto_chosen)
  then show ?thesis
    using R(1-5) by (auto simp: resolve_def Let_def R(6) is_cuda_def cfg_check_def)
qed

definition ex_config :: engine_config where
  "ex_config = \<lparr>cfg_model = ''m'', cfg_device = ''auto'', cfg_dtype = ''auto'', cfg_seed = 0,
     cfg_block_size = 16, cfg_num_blocks = Some 8, cfg_gpu_memory_utilization = PyFin 1,
     cfg_swap_space_gb = PyFin 4, cfg_watermark = PyFin 0, cfg_max_num_seqs = 256,
     cfg_max_batch_tokens = 2048, cfg_max_model_len = None, cfg_enable_chunked_prefill = False,
     cfg_enable_prefix_caching = False, cfg_preemption_mode = ''recompute'',
     cfg_admission_policy = ''fcfs'', cfg_aging_rate = 100, cfg_attention_backend = ''auto'',
     cfg_cuda_graphs = False, cfg_debug_invariants = False, cfg_step_log = None\<rparr>"

definition ex_resolved :: engine_config where
  "ex_resolved = ex_config\<lparr>cfg_device := ''cpu'', cfg_dtype := ''float32'',
     cfg_attention_backend := ''naive'', cfg_max_model_len := Some 4096, cfg_max_batch_tokens := 4096\<rparr>"

lemma ex_resolve: "resolve False 4096 ex_config = Inr ex_resolved"
  by (simp add: resolve_def resolve_auto_def Let_def is_cuda_def starts_with_def ex_config_def
      ex_resolved_def)

theorem resolve_guarantees_witness:
  "cfg_max_batch_tokens ex_config < 4096 \<and> 4096 \<le> cfg_max_batch_tokens ex_resolved"
  using resolve_guarantees [OF ex_resolve] by (simp add: ex_config_def ex_resolved_def)

text \<open>Resolving a configuration that passed \<open>__post_init__\<close>, for a model with a positive context
  length, gives one that passes it too: no automatic choice leaves the documented ranges.\<close>

lemma resolve_keeps_valid:
  assumes "config_post_init c0 = Inr c0" and "0 < m" and "resolve cuda m c0 = Inr c"
  shows "config_post_init c = Inr c"
proof -
  note R = resolve_Inr [OF assms(3)]
  have ok: "list_all fst (post_init_checks c0)"
    using assms(1) by (simp add: config_valid_iff [symmetric] config_valid_def)
  let ?c = "resolve_auto cuda c0"
  note ok' = ok [unfolded post_init_checks_def, simplified]
  have dtype: "cfg_dtype ?c \<in> {''auto'', ''float32'', ''bfloat16'', ''float16''}"
    by (rule pick_of_three [OF resolve_auto_range(2)]) (use ok' in simp_all)
  have backend: "cfg_attention_backend ?c \<in> {''auto'', ''naive'', ''flashinfer''}"
    by (rule pick_of_three [OF resolve_auto_range(3)]) (use ok' in simp_all)
  have device: "cfg_device ?c \<in> {''auto'', ''cpu'', ''cuda'', ''mps''} \<or> starts_with (cfg_device ?c) ''cuda:''"
    by (rule pick_of_three [OF resolve_auto_range(1)]) (use ok' in simp_all)
  have len: "0 < (case cfg_max_model_len c0 of None \<Rightarrow> m | Some n \<Rightarrow> n)"
    using ok' assms(2) by (cases "cfg_max_model_len c0") simp_all
  have "list_all fst (post_init_checks c)"
    using ok' dtype backend device len
    by (simp add: post_init_checks_def R(6) resolve_auto_fields less_max_iff_disj)
  then show ?thesis
    by (simp add: config_valid_iff [symmetric] config_valid_def)
qed

end
