(* ===== verification/Scheduler_Props.thy ===== *)
theory Scheduler_Props
  imports Scheduler_Check Config_Props Examples
begin

text \<open>
  Properties of the scheduler and of its admission queue, and the small schedulers they are
  instantiated on: four pages of two tokens, or one, and at most two running sequences.
\<close>

section \<open>A concrete scheduler\<close>

definition ex_sched_config :: engine_config where
  "ex_sched_config = ex_resolved\<lparr>cfg_block_size := 2, cfg_num_blocks := Some 4, cfg_max_num_seqs := 2,
     cfg_max_batch_tokens := 8, cfg_max_model_len := Some 8\<rparr>"

definition ex_sched0 :: scheduler where
  "ex_sched0 = (init_scheduler ex_sched_config ex_bm [9])\<lparr>store := \<lambda>_. ex_seq\<rparr>"

text \<open>One request waiting.\<close>

definition ex_sched1 :: scheduler where
  "ex_sched1 = ex_sched0\<lparr>store := (\<lambda>_. ex_seq)(0 := ex_seq), seqs := [(0, 0)],
     waiting := (waiting ex_sched0)\<lparr>heap := [(([0], 0), 0)], counter := 1, live := [(0, 0)]\<rparr>\<rparr>"

lemmas ex_sched_defs = ex_sched1_def ex_sched0_def ex_sched_config_def init_scheduler_def ex_resolved_def
  ex_config_def init_wait_queue_def

lemma ex_sched0_inv: "sinv ex_ext ex_sched0 (\<lambda>_. 0) []"
  unfolding ex_sched0_def
  by (rule init_scheduler_inv [OF ex_bm_inv])
    (simp_all add: ex_sched_config_def ex_resolved_def ex_config_def ex_defs)

lemma ex_addable: "addable ex_sched0 0"
  by (simp add: addable_def live_ok_def tokens_consistent_def num_prompt_tokens_def num_output_tokens_def
      ex_sched_defs ex_defs)

lemma ex_add: "sched_add ex_ext ex_sched0 0 = Inr ex_sched1"
  by (simp add: sched_add_def Let_def set_seq_def wq_push_def queue_key_def ex_sched_defs ex_defs)

lemma ex_sched1_inv: "sinv ex_ext ex_sched1 (\<lambda>_. 0) []"
  using sched_add_ok [OF ex_sched0_inv ex_addable] ex_add by (auto simp: ex_sched_defs)

lemma ex_sched1_work: "has_work ex_sched1"
  by (simp add: has_work_def wq_len_def ex_sched_defs)

text \<open>A scheduler with chunked prefill and one sequence decoding: four tokens, three of them computed.\<close>

definition ex_run :: sequence where
  "ex_run = ex_held\<lparr>status := RUNNING, token_ids := [7, 7, 7, 5], output_token_ids := [5]\<rparr>"

definition ex_sched2 :: scheduler where
  "ex_sched2 = ex_sched0\<lparr>store := \<lambda>_. ex_run, chunked := True, bm := ex_bm_held, seqs := [(0, 0)], running := [0]\<rparr>"

lemma ex_run_ok: "running_ok c 2 0 ex_run" "live_ok 8 ex_run" "block_table ex_run = [0, 1]"
  "num_computed_tokens ex_run = 3" "num_tokens ex_run = 4" "seq_id ex_run = 0" "cpu_block_table ex_run = []"
  by (simp_all add: running_ok_def live_ok_def tokens_consistent_def num_tokens_def num_prompt_tokens_def
      num_output_tokens_def ceil_div_def ex_run_def ex_defs)

lemma ex_sched2_fields [simp]:
  "running ex_sched2 = [0]" "swapped ex_sched2 = []" "preempted ex_sched2 = []" "store ex_sched2 = (\<lambda>_. ex_run)"
  "waiting ex_sched2 = init_wait_queue ''fcfs'' 100" "seqs ex_sched2 = [(0, 0)]" "bm ex_sched2 = ex_bm_held"
  "chunked ex_sched2" "outputs ex_sched2 = []" "max_num_seqs ex_sched2 = 2" "max_batch_tokens ex_sched2 = 8"
  "max_model_len ex_sched2 = 8" "sch_block_size ex_sched2 = 2"
  by (simp_all add: ex_sched2_def ex_sched0_def init_scheduler_def ex_sched_config_def ex_resolved_def ex_config_def)

lemma ex_sched2_inv: "sinv ex_ext ex_sched2 (\<lambda>_. 0) []"
proof (rule sinvI)
  have t: "mset (block_table ex_held) = mset [0, 1]" by (simp add: ex_defs)
  show "pages_inv ex_sched2 []"
    using ex_bm_held_inv unfolding t by (simp add: pages_inv_def ex_run_ok)
  show "queues_inv ex_ext ex_sched2 []"
    by (auto simp: queues_inv_def queue_list_def dict_wf_def ex_run_ok)
  show "conf_ok ex_sched2"
    by (simp add: conf_ok_def) (simp add: ex_defs)
  show "cache_inv ex_ext ex_sched2 []"
    by (auto simp: cache_inv_def own_pages_def hashes_ok_def queue_list_def ex_run_def ex_defs less_Suc_eq)
qed (simp_all add: seqs_inv_def live_inv_def queue_list_def ex_run_ok)

text \<open>Two requests of three tokens that want four more each, without prefix caching, over a number of pages.\<close>

definition ex_pair_seq :: "int \<Rightarrow> int list \<Rightarrow> sequence" where
  "ex_pair_seq i prompt = new_sequence i prompt (ex_params\<lparr>max_tokens := 4\<rparr>) 0 None"

definition ex_pair0 :: "nat \<Rightarrow> int list \<Rightarrow> scheduler" where
  "ex_pair0 blocks prompt = (init_scheduler ex_sched_config (init_block_manager ex_ext blocks 2 False 0 0) [9])
     \<lparr>store := (\<lambda>_. ex_pair_seq 0 [7, 7, 7])(1 := ex_pair_seq 1 prompt)\<rparr>"

definition ex_pair :: "nat \<Rightarrow> int list \<Rightarrow> scheduler" where
  "ex_pair blocks prompt = projr (rbind (sched_add ex_ext (ex_pair0 blocks prompt) 0) (\<lambda>s. sched_add ex_ext s 1))"

lemma ex_pair_inv:
  assumes "prompt \<noteq> []" and "length prompt \<le> 4"
  shows "sinv ex_ext (ex_pair blocks prompt) (\<lambda>_. 0) []"
proof -
  let ?s = "ex_pair0 blocks prompt"
  have inv: "sinv ex_ext ?s (\<lambda>_. 0) []"
    unfolding ex_pair0_def
    by (rule init_scheduler_inv [OF bm_inv_init])
      (simp_all add: ex_sched_config_def ex_resolved_def ex_config_def ex_defs)
  note defs = addable_def ex_pair0_def ex_pair_seq_def live_ok_def tokens_consistent_def num_prompt_tokens_def num_output_tokens_def
    ex_sched_defs ex_defs
  have "addable ?s 0" by (simp add: defs)
  moreover have "map_of (seqs ?s) (seq_id (store ?s 0)) = None" by (simp add: defs)
  ultimately obtain s1 where s1: "sched_add ex_ext ?s 0 = Inr s1" "sinv ex_ext s1 (\<lambda>_. 0) []"
      "store s1 = (store ?s)(0 := (store ?s 0)\<lparr>status := WAITING\<rparr>)" "snd ` set (heap (waiting s1)) = insert 0 (snd ` set (heap (waiting ?s)))"
      "map_of (seqs s1) = (map_of (seqs ?s))(seq_id (store ?s 0) \<mapsto> 0)" "max_model_len s1 = max_model_len ?s"
    using sched_add_ok [OF inv, of 0] by blast
  have "addable s1 1" unfolding addable_def s1(3,4,6) using assms by (simp add: defs)
  moreover have "map_of (seqs s1) (seq_id (store s1 1)) = None" unfolding s1(3,5) by (simp add: defs)
  ultimately obtain s2 where "sched_add ex_ext s1 1 = Inr s2" "sinv ex_ext s2 (\<lambda>_. 0) []"
    using sched_add_ok [OF s1(2), of 1] by blast
  then show ?thesis using s1(1) by (simp add: ex_pair_def)
qed

text \<open>An iteration with the tokens its batch samples.\<close>

definition ex_iterate :: "int list \<Rightarrow> scheduler \<Rightarrow> scheduler" where
  "ex_iterate toks s = (case schedule ex_ext s of Inl _ \<Rightarrow> s | Inr (s1, b) \<Rightarrow> fst (projr (sched_update ex_ext 0 s1 b toks)))"

definition ex_enough :: "int list \<Rightarrow> scheduler \<Rightarrow> bool" where
  "ex_enough toks s = (case schedule ex_ext s of Inl _ \<Rightarrow> False | Inr (s1, b) \<Rightarrow> length (filter (\<lambda>d. d) (do_sample b)) \<le> length toks)"

lemma ex_iterate_inv:
  assumes inv: "sinv ex_ext s (\<lambda>_. 0) []" and enough: "ex_enough toks s"
  shows "sinv ex_ext (ex_iterate toks s) (\<lambda>_. 0) []"
proof -
  obtain s1 b p where r: "schedule ex_ext s = Inr (s1, b)" "scheduled ex_ext s s1 p b" using schedule_ok [OF inv] by blast
  have "sinv ex_ext s1 p []" "batch_ok s1 p b" using r(2) by (simp_all add: scheduled_def)
  moreover have "length (filter (\<lambda>d. d) (do_sample b)) \<le> length toks" using enough r(1) by (simp add: ex_enough_def)
  ultimately obtain s' os where "sched_update ex_ext 0 s1 b toks = Inr (s', os)" "sinv ex_ext s' (\<lambda>_. 0) []"
    using sched_update_ok [of ex_ext s1 p b toks 0] by blast
  then show ?thesis using r(1) by (simp add: ex_iterate_def)
qed

text \<open>After two iterations on four pages both requests have five tokens, and all pages are taken.\<close>

definition ex_crowded :: scheduler where
  "ex_crowded = ex_iterate [5, 5] (ex_iterate [5, 5] (ex_pair 4 [7, 7, 7]))"

lemma ex_crowded_inv: "sinv ex_ext ex_crowded (\<lambda>_. 0) []"
proof -
  have "ex_enough [5, 5] (ex_pair 4 [7, 7, 7])" "ex_enough [5, 5] (ex_iterate [5, 5] (ex_pair 4 [7, 7, 7]))" by code_simp+
  moreover have "sinv ex_ext (ex_pair 4 [7, 7, 7]) (\<lambda>_. 0) []" by (rule ex_pair_inv) simp_all
  ultimately show ?thesis unfolding ex_crowded_def by (intro ex_iterate_inv)
qed

section \<open>One iteration\<close>

lemma scheduledD:
  assumes "sinv X s (\<lambda>_. 0) []" and "schedule X s = Inr (s', b)"
  obtains p where "scheduled X s s' p b"
  using schedule_ok [OF assms(1)] assms(2) by auto

text \<open>C21: \<open>schedule\<close> never raises: whatever the queues hold, every lookup, removal, allocation and
  assertion on its way succeeds, the invariant holds afterwards (with the batch's tokens pending), and
  the batch names running sequences once each, with a positive number of tokens.\<close>

theorem schedule_total:
  assumes "sinv X s (\<lambda>_. 0) []"
  shows "\<exists>s' b p. schedule X s = Inr (s', b) \<and> sinv X s' p [] \<and> batch_ok s' p b \<and>
           (swap_out b = [] \<or> swap_in b = [])"
  using schedule_ok [OF assms] unfolding scheduled_def by blast

theorem schedule_total_witness: "\<exists>s' b. schedule ex_ext ex_sched1 = Inr (s', b)"
  using schedule_total [OF ex_sched1_inv] by blast

text \<open>C22: an iteration with work pending makes progress: it schedules a sequence or reports a request
  that can never fit, so the engine's loop is never stuck.\<close>

theorem schedule_progress:
  assumes "sinv X s (\<lambda>_. 0) []" and "has_work s" and "schedule X s = Inr (s', b)"
  shows "b_seqs b \<noteq> [] \<or> outputs s' \<noteq> outputs s"
  using scheduledD [OF assms(1,3)] assms(2) unfolding scheduled_def by metis

theorem schedule_progress_witness:
  "\<exists>s' b. schedule ex_ext ex_sched1 = Inr (s', b) \<and> (b_seqs b \<noteq> [] \<or> outputs s' \<noteq> [])"
proof -
  obtain s' b where run: "schedule ex_ext ex_sched1 = Inr (s', b)"
    using schedule_ok [OF ex_sched1_inv] by blast
  have "outputs ex_sched1 = []" by (simp add: ex_sched_defs)
  with schedule_progress [OF ex_sched1_inv ex_sched1_work run] run show ?thesis by auto
qed



text \<open>C24: with chunked prefill decodes are never stalled by prefills: every running sequence with one
  token left to compute, unless it is preempted in this iteration, is in the batch with exactly that
  token, whatever prompts wait.\<close>

theorem decode_first:
  assumes "sinv X s (\<lambda>_. 0) []" and "chunked s" and "schedule X s = Inr (s', b)"
    and "r \<in> set (running s)" and "r \<in> set (running s')" and "num_uncomputed_tokens (store s r) = 1"
  shows "(r, 1) \<in> set (zip (b_seqs b) (num_new_tokens b))"
proof -
  obtain p where S: "scheduled X s s' p b" by (rule scheduledD [OF assms(1,3)])
  then have ok: "batch_ok s' p b" and "p r = 1"
    using assms(2,4-6) by (simp_all add: scheduled_def)
  note B = batch_okD [OF ok]
  have "r \<in> set (b_seqs b)" using B(4) \<open>p r = 1\<close> by force
  then show ?thesis
    using \<open>p r = 1\<close> unfolding B(5) by (auto simp: set_zip in_set_conv_nth)
qed

theorem decode_first_witness:
  "\<exists>s' b. schedule ex_ext ex_sched2 = Inr (s', b) \<and> (0 \<in> set (running s') \<longrightarrow> (0, 1) \<in> set (zip (b_seqs b) (num_new_tokens b)))"
proof -
  obtain s' b where run: "schedule ex_ext ex_sched2 = Inr (s', b)"
    using schedule_ok [OF ex_sched2_inv] by blast
  have "num_uncomputed_tokens ex_run = 1"
    using ex_run_ok(4,5) by (simp add: num_uncomputed_tokens_def num_tokens_def)
  with decode_first [OF ex_sched2_inv _ run, of 0] run show ?thesis by auto
qed

text \<open>C25: an iteration that preempts admits and returns nobody: what it runs was running before, so
  pages freed by a preemption are not given away in the same iteration, and no iteration swaps both
  ways.\<close>

theorem preemption_admits_nobody:
  assumes "sinv X s (\<lambda>_. 0) []" and "schedule X s = Inr (s', b)"
  shows "(num_preempted b \<noteq> 0 \<longrightarrow> set (b_seqs b) \<subseteq> set (running s) \<and> swap_in b = []) \<and>
         (swap_out b = [] \<or> swap_in b = [])"
proof -
  obtain p where "scheduled X s s' p b" by (rule scheduledD [OF assms])
  then show ?thesis unfolding scheduled_def by blast
qed

lemma ex_crowded_preempts:
  "running ex_crowded = [0, 1] \<and> (case schedule ex_ext ex_crowded of Inl _ \<Rightarrow> False
     | Inr (s', b) \<Rightarrow> num_preempted b = 1 \<and> b_seqs b = [0] \<and> preempted s' = [1])"
  by code_simp

theorem preemption_admits_nobody_witness:
  "\<exists>s' b. schedule ex_ext ex_crowded = Inr (s', b) \<and> num_preempted b = 1 \<and> b_seqs b = [0] \<and> preempted s' = [1] \<and>
     set (b_seqs b) \<subseteq> set (running ex_crowded) \<and> swap_in b = []"
proof -
  obtain s' b where run: "schedule ex_ext ex_crowded = Inr (s', b)" "num_preempted b = 1" "b_seqs b = [0]" "preempted s' = [1]"
    using ex_crowded_preempts by (auto split: sum.splits)
  with preemption_admits_nobody [OF ex_crowded_inv run(1)] show ?thesis by auto
qed

text \<open>Scheduling never touches what a request has produced: tokens, text, detokenizer state,
  sampling parameters and identity of every request are the same after an iteration's schedule,
  preemption by recompute or swap included.\<close>

theorem schedule_keeps_tokens:
  assumes "sinv X s (\<lambda>_. 0) []" and "schedule X s = Inr (s', b)"
  shows "token_ids (store s' r) = token_ids (store s r) \<and>
         output_token_ids (store s' r) = output_token_ids (store s r) \<and>
         output_text (store s' r) = output_text (store s r) \<and>
         num_emitted_chars (store s' r) = num_emitted_chars (store s r) \<and>
         sampling_params_of (store s' r) = sampling_params_of (store s r) \<and>
         seq_id (store s' r) = seq_id (store s r)"
proof -
  obtain p where "scheduled X s s' p b" by (rule scheduledD [OF assms])
  then show ?thesis by (simp add: scheduled_def sched_frame_def gen_same_def seq_static_def)
qed

theorem schedule_keeps_tokens_witness:
  "\<exists>s' b. schedule ex_ext ex_sched1 = Inr (s', b) \<and> token_ids (store s' 0) = [7, 7, 7]"
proof -
  obtain s' b where run: "schedule ex_ext ex_sched1 = Inr (s', b)"
    using schedule_ok [OF ex_sched1_inv] by blast
  have "token_ids (store ex_sched1 0) = [7, 7, 7]" by (simp add: ex_sched_defs ex_defs)
  with schedule_keeps_tokens [OF ex_sched1_inv run, of 0] run show ?thesis by auto
qed

section \<open>Who runs, who is preempted, who is admitted\<close>



text \<open>A sequence that ended during admission was refused, and its client is told so.\<close>

definition refused :: "sequence \<Rightarrow> request_output list \<Rightarrow> bool" where
  "refused q os \<longleftrightarrow> finish_reason q = Some ''error'' \<and>
     (\<exists>out \<in> set os. out_seq_id out = seq_id q \<and> finished out \<and> out_error out = error q \<and> out_error out \<noteq> None)"

definition end_same :: "sequence \<Rightarrow> sequence \<Rightarrow> bool" where
  "end_same q q' \<longleftrightarrow> seq_id q' = seq_id q \<and> finish_reason q' = finish_reason q \<and> error q' = error q"

definition refusals_told :: "scheduler \<Rightarrow> scheduler \<Rightarrow> bool" where
  "refusals_told s s' \<longleftrightarrow> (\<exists>os. outputs s' = outputs s @ os \<and>
     (\<forall>r. status (store s' r) = FINISHED \<longrightarrow> status (store s r) = FINISHED \<and> end_same (store s r) (store s' r) \<or> refused (store s' r) os))"

lemma refused_later: "refused q os \<Longrightarrow> end_same q q' \<Longrightarrow> refused q' (os @ ps)"
  unfolding refused_def end_same_def by (elim conjE bexE) (auto intro!: bexI)

lemma refused_append: "refused q ps \<Longrightarrow> refused q (os @ ps)"
  by (auto simp: refused_def)

lemma refusals_toldI:
  "outputs s' = outputs s @ os \<Longrightarrow> (\<And>r. status (store s' r) = FINISHED \<Longrightarrow>
     status (store s r) = FINISHED \<and> end_same (store s r) (store s' r) \<or> refused (store s' r) os) \<Longrightarrow> refusals_told s s'"
  unfolding refusals_told_def by blast

lemma refusals_told_trans:
  assumes "refusals_told a b" and "refusals_told b c"
  shows "refusals_told a c"
proof -
  obtain os ps where o: "outputs b = outputs a @ os" "outputs c = outputs b @ ps"
    and os: "\<And>r. status (store b r) = FINISHED \<Longrightarrow> status (store a r) = FINISHED \<and> end_same (store a r) (store b r) \<or> refused (store b r) os"
    and ps: "\<And>r. status (store c r) = FINISHED \<Longrightarrow> status (store b r) = FINISHED \<and> end_same (store b r) (store c r) \<or> refused (store c r) ps"
    using assms unfolding refusals_told_def by blast
  show ?thesis
  proof (rule refusals_toldI)
    show "outputs c = outputs a @ os @ ps" using o by simp
    fix r assume "status (store c r) = FINISHED"
    from ps [OF this] show "status (store a r) = FINISHED \<and> end_same (store a r) (store c r) \<or> refused (store c r) (os @ ps)"
    proof (elim disjE conjE)
      assume b: "status (store b r) = FINISHED" "end_same (store b r) (store c r)"
      from os [OF b(1)] show ?thesis using b(2) refused_later by (auto simp: end_same_def)
    qed (simp add: refused_append)
  qed
qed

text \<open>A sequence object written without ending it.\<close>

lemma refusals_told_write:
  "outputs s' = outputs s \<Longrightarrow> (\<And>x. x \<noteq> r \<Longrightarrow> store s' x = store s x) \<Longrightarrow>
     (status (store s' r) = FINISHED \<Longrightarrow> status (store s r) = FINISHED \<and> end_same (store s r) (store s' r)) \<Longrightarrow> refusals_told s s'"
  by (rule refusals_toldI [of _ _ "[]"]) (simp, metis end_same_def)

lemma refusals_told_same: "outputs s' = outputs s \<Longrightarrow> store s' = store s \<Longrightarrow> refusals_told s s'"
  by (rule refusals_toldI [of _ _ "[]"]) (simp_all add: end_same_def)

lemma sched_fail_tells:
  assumes "sched_fail s r m = Inr s'"
  shows "refusals_told s s'"
proof -
  obtain q out where s': "store s' = (store s)(r := q)" "outputs s' = outputs s @ [out]" "finish_reason q = Some ''error''" "error q = Some m"
      "out_seq_id out = seq_id q" "finished out" "out_error out = Some m"
    using assms by (auto simp: sched_fail_def result_simps Let_def set_seq_def split: prod.splits)
  show ?thesis
    by (rule refusals_toldI [OF s'(2)]) (use s' in \<open>auto simp: refused_def end_same_def\<close>)
qed

lemma admit_candidate_store: "admit_candidate s = (s', c) \<Longrightarrow> outputs s' = outputs s \<and> store s' = store s"
  by (auto simp: admit_candidate_def split: list.splits prod.splits)

lemma pop_waiting_store: "pop_waiting s r = Inr s' \<Longrightarrow> outputs s' = outputs s \<and> store s' = store s"
  by (auto simp: pop_waiting_def result_simps split: if_splits)

lemma admit_loop_tells:
  assumes "admit_loop X s b budget = Inr (s', b')"
  shows "refusals_told s s'"
  using assms
proof (induction X s b budget rule: admit_loop.induct)
  case (1 X s b budget)
  obtain s0 cand where c: "admit_candidate s = (s0, cand)" by (cases "admit_candidate s")
  have start: "refusals_told s s0" using admit_candidate_store [OF c] by (intro refusals_told_same) simp_all
  show ?case
  proof (cases "0 < budget \<and> int (length (running s)) < max_num_seqs s")
    case False
    with "1.prems" have "s' = s" by (simp add: admit_loop.simps)
    then show ?thesis by (intro refusals_told_same) simp_all
  next
    case go: True
    show ?thesis
    proof (cases cand)
      case None
      with "1.prems" go c start show ?thesis by (simp add: admit_loop.simps)
    next
      case (Some r)
      note IH = "1.IH" [OF go c [symmetric] Some]
      show ?thesis
      proof (cases "blocks_for (bm s0) (num_tokens (store s0 r)) > int (num_blocks (bm s0))")
        case True
        with "1.prems" go c Some obtain s1 s2 where p: "pop_waiting s0 r = Inr s1" "sched_fail s1 r (exhausted_message s1 r) = Inr s2"
          "admit_loop X s2 b budget = Inr (s', b')"
          by (auto simp: admit_loop.simps [of X s b budget] result_simps)
        have "refusals_told s0 s1" using pop_waiting_store [OF p(1)] by (intro refusals_told_same) simp_all
        then show ?thesis using start sched_fail_tells [OF p(2)] IH(1) [OF True p] refusals_told_trans by blast
      next
        case fits: False
        obtain q cached where k: "cached_prefix X (bm s0) (store s0 r) = (q, cached)" by (cases "cached_prefix X (bm s0) (store s0 r)")
        define s1 where "s1 = set_seq s0 r q"
        define remaining where "remaining = num_tokens q - int (length cached) * int (sch_block_size s1)"
        define n where "n = (if chunked s1 then min remaining budget else remaining)"
        have "q = (store s0 r)\<lparr>block_hashes := block_hashes q\<rparr>" using cached_prefix_frame [of X "bm s0" "store s0 r"] k by simp
        then have "status q = status (store s0 r)" "seq_id q = seq_id (store s0 r)" "finish_reason q = finish_reason (store s0 r)"
            "error q = error (store s0 r)"
          by (metis sequence.select_convs sequence.surjective sequence.update_convs(14))+
        then have "refusals_told s0 s1"
          by (intro refusals_told_write [of _ _ r]) (simp_all add: s1_def set_seq_def end_same_def)
        then have s1: "refusals_told s s1" using start refusals_told_trans by blast
        note U = "1.prems" [unfolded admit_loop.simps [of X s b budget] Let_def, unfolded c prod.case Some option.case k, folded s1_def,
            folded remaining_def, folded n_def]
        show ?thesis
        proof (cases "n > budget")
          case True
          with U go fits s1 show ?thesis by auto
        next
          case n: False
          with U go fits obtain ok where ok: "can_allocate (bm s1) q n cached (running s1 \<noteq> []) = Inr ok"
            and rest: "(if \<not> ok then Inr (s1, b) else rbind (pop_waiting s1 r) (\<lambda>s2.
                      rbind (allocate (bm s2) (store s2 r) n cached) (\<lambda>(bm', q').
                        admit_loop X ((set_seq s2 r (q'\<lparr>status := RUNNING\<rparr>))\<lparr>bm := bm', running := running s2 @ [r]\<rparr>)
                          (batch_add b r (q'\<lparr>status := RUNNING\<rparr>) n) (budget - n)))) = Inr (s', b')"
            by (auto simp: result_simps)
          show ?thesis
          proof (cases ok)
            case False
            with rest s1 show ?thesis by auto
          next
            case True
            with rest obtain s2 bm' q' where p: "pop_waiting s1 r = Inr s2" "allocate (bm s2) (store s2 r) n cached = Inr (bm', q')"
              and l: "admit_loop X ((set_seq s2 r (q'\<lparr>status := RUNNING\<rparr>))\<lparr>bm := bm', running := running s2 @ [r]\<rparr>)
                          (batch_add b r (q'\<lparr>status := RUNNING\<rparr>) n) (budget - n) = Inr (s', b')"
              by (auto simp: result_simps)
            have t: "\<not> \<not> ok" using True by simp
            define s3 where "s3 = (set_seq s2 r (q'\<lparr>status := RUNNING\<rparr>))\<lparr>bm := bm', running := running s2 @ [r]\<rparr>"
            have "refusals_told s1 s2" using pop_waiting_store [OF p(1)] by (intro refusals_told_same) simp_all
            moreover have "refusals_told s2 s3" by (rule refusals_told_write [of _ _ r]) (simp_all add: s3_def set_seq_def)
            moreover have "refusals_told s3 s'"
              using IH(2) [OF fits k [symmetric] s1_def remaining_def n_def n ok t p(1) p(2) refl refl refl l] by (simp add: s3_def)
            ultimately show ?thesis using s1 refusals_told_trans by blast
          qed
        qed
      qed
    qed
  qed
qed

text \<open>C27: admission follows the policy: the requests taken are a prefix of the order in which preempted
  and waiting requests stand, none is skipped, those that fit join the end of the running list in that
  order, and each of the others has ended with the reason \<open>error\<close> and a last output with its number
  and its message among the outputs the iteration added.\<close>

theorem admission_in_order:
  assumes "sinv X s p []" and "batch_ok s p b" and "admit_loop X s b budget = Inr (s', b')"
  shows "\<exists>taken new told. admission_order s = taken @ admission_order s' \<and>
           new = filter (\<lambda>r. status (store s' r) = RUNNING) taken \<and> outputs s' = outputs s @ told \<and>
           list_all (\<lambda>r. status (store s' r) = RUNNING \<or> status (store s' r) = FINISHED \<and> finish_reason (store s' r) = Some ''error'' \<and>
             (\<exists>out \<in> set told. out_seq_id out = seq_id (store s' r) \<and> finished out \<and> out_error out = error (store s' r) \<and>
                out_error out \<noteq> None)) taken \<and>
           running s' = running s @ new \<and> b_seqs b' = b_seqs b @ new \<and>
           batch_num_tokens b' \<le> batch_num_tokens b + max 0 budget"
proof -
  obtain p' new where a: "admits X s p b budget s' p' b' new"
    using admit_loop_ok [OF assms(1,2), of budget] assms(3) by auto
  then obtain taken where t: "admission_order s = taken @ admission_order s'" "new = filter (\<lambda>r. status (store s' r) = RUNNING) taken"
      "\<forall>r \<in> set taken. status (store s' r) \<in> {RUNNING, FINISHED}"
    unfolding admits_def admitted_prefix_def by blast
  obtain told where told: "outputs s' = outputs s @ told"
    "\<And>r. status (store s' r) = FINISHED \<Longrightarrow> status (store s r) = FINISHED \<and> end_same (store s r) (store s' r) \<or> refused (store s' r) told"
    using admit_loop_tells [OF assms(3)] unfolding refusals_told_def by blast
  have waiting: "status (store s r) \<noteq> FINISHED" if "r \<in> set taken" for r
  proof -
    have "r \<in> set (admission_order s)" unfolding t(1) using that by simp
    then have "r \<in> set (preempted s) \<or> r \<in> set (pending (store s) (waiting s))" by (simp add: admission_order_def)
    then show ?thesis using seqs_invD(3,4) [OF sinvD(3) [OF assms(1)]] by (auto simp: idle_ok_def)
  qed
  have "list_all (\<lambda>r. status (store s' r) = RUNNING \<or> status (store s' r) = FINISHED \<and> finish_reason (store s' r) = Some ''error'' \<and>
      (\<exists>out \<in> set told. out_seq_id out = seq_id (store s' r) \<and> finished out \<and> out_error out = error (store s' r) \<and> out_error out \<noteq> None)) taken"
    unfolding list_all_iff using t(3) told(2) waiting by (fastforce simp: refused_def)
  then show ?thesis
    using a t(1,2) told(1) unfolding admits_def joined_def by blast
qed

text \<open>On a pool of one page the first request never fits and the second one, of one token, does.\<close>

definition ex_tiny :: scheduler where
  "ex_tiny = ex_pair 1 [7]"

lemma ex_tiny_order: "admission_order ex_tiny = [0, 1]" by code_simp

lemma ex_tiny_running: "running ex_tiny = []" by code_simp

lemma ex_tiny_outputs: "outputs ex_tiny = []" by code_simp

abbreviation ex_tiny_admits :: "(scheduler \<Rightarrow> scheduled_batch \<Rightarrow> bool) \<Rightarrow> bool" where
  "ex_tiny_admits P \<equiv> (case admit_loop ex_ext ex_tiny empty_batch 8 of Inl _ \<Rightarrow> False | Inr (s', b') \<Rightarrow> P s' b')"

lemma ex_tiny_admits_all: "ex_tiny_admits (\<lambda>s' b'. admission_order s' = [])" by code_simp

lemma ex_tiny_batch: "ex_tiny_admits (\<lambda>s' b'. b_seqs b' = [1])" by code_simp

lemma ex_tiny_refused: "ex_tiny_admits (\<lambda>s' b'. status (store s' 0) = FINISHED)" by code_simp

lemma ex_tiny_number: "ex_tiny_admits (\<lambda>s' b'. seq_id (store s' 0) = 0)" by code_simp

lemma ex_tiny_run:
  obtains s' b' where "admit_loop ex_ext ex_tiny empty_batch 8 = Inr (s', b')" "admission_order s' = []"
    "status (store s' 0) = FINISHED" "seq_id (store s' 0) = 0" "b_seqs b' = [1]"
proof (cases "admit_loop ex_ext ex_tiny empty_batch 8")
  case (Inl err)
  then show thesis using ex_tiny_batch by simp
next
  case (Inr res)
  obtain s' b' where res: "res = (s', b')" by (cases res)
  note F = ex_tiny_admits_all ex_tiny_batch ex_tiny_refused ex_tiny_number
  show thesis by (rule that [of s' b']) (use F in \<open>simp_all add: Inr res\<close>)
qed

theorem admission_in_order_witness:
  "\<exists>s' b'. admit_loop ex_ext ex_tiny empty_batch 8 = Inr (s', b') \<and> running s' = [1] \<and>
     (\<exists>out \<in> set (outputs s'). out_seq_id out = 0 \<and> finished out \<and> out_error out \<noteq> None)"
proof -
  have inv: "sinv ex_ext ex_tiny (\<lambda>_. 0) []" unfolding ex_tiny_def by (rule ex_pair_inv) simp_all
  have ok: "batch_ok ex_tiny (\<lambda>_. 0) empty_batch" by (simp add: ex_tiny_running)
  obtain s' b' where run: "admit_loop ex_ext ex_tiny empty_batch 8 = Inr (s', b')" "admission_order s' = []"
      "status (store s' 0) = FINISHED" "seq_id (store s' 0) = 0" "b_seqs b' = [1]"
    by (rule ex_tiny_run)
  from admission_in_order [OF inv ok run(1)] obtain new told where "outputs s' = told" "running s' = new" "b_seqs b' = b_seqs empty_batch @ new"
      "\<exists>out \<in> set told. out_seq_id out = seq_id (store s' 0) \<and> finished out \<and> out_error out \<noteq> None"
    unfolding ex_tiny_order ex_tiny_running ex_tiny_outputs run(2) using run(3) by auto
  then show ?thesis using run(1,4,5) by (auto simp: empty_batch_def)
qed

section \<open>After the forward pass\<close>

text \<open>C28: \<open>update\<close> deals the sampled tokens to the right requests: given a token for every sampling
  sequence it does not raise, each sampling sequence of the batch gains exactly its own token, in batch
  order, every batched sequence advances by the tokens it computed, no other sequence changes, the
  outputs name the same requests and tokens in the same order, sequences that finished leave the running
  list, and the invariant holds again with nothing pending.\<close>

theorem update_deals:
  assumes "sinv X s p []" and "batch_ok s p b" and "length (filter (\<lambda>d. d) (do_sample b)) \<le> length sampled"
  shows "\<exists>s' outs. sched_update X now s b sampled = Inr (s', outputs s @ outs) \<and> sinv X s' (\<lambda>_. 0) [] \<and>
     outputs s' = [] \<and> running s' = filter (\<lambda>r. status (store s' r) = RUNNING) (running s) \<and>
     (\<forall>x. x \<notin> set (b_seqs b) \<longrightarrow> store s' x = store s x) \<and>
     list_all (\<lambda>r. token_ids (store s' r) = token_ids (store s r) @ dealt (samples (store s) p) (b_seqs b) sampled r \<and>
        num_computed_tokens (store s' r) = num_computed_tokens (store s r) + p r \<and>
        status (store s' r) \<in> {RUNNING, FINISHED}) (b_seqs b) \<and>
     map out_seq_id outs = map (\<lambda>r. seq_id (store s r)) (filter (samples (store s) p) (b_seqs b)) \<and>
     map out_token_ids outs = map (\<lambda>t. [t]) (take (length outs) sampled)"
proof -
  obtain s' os where U: "sched_update X now s b sampled = Inr (s', outputs s @ os)"
     "sinv X s' (\<lambda>_. 0) []" "outputs s' = []"
     "running s' = filter (\<lambda>r. status (store s' r) = RUNNING) (running s)"
     "\<forall>x. x \<notin> set (b_seqs b) \<longrightarrow> store s' x = store s x"
     "\<forall>r \<in> set (b_seqs b). advanced s s' r (p r) (dealt (samples (store s) p) (b_seqs b) sampled r)"
     "map out_seq_id os = map (\<lambda>r. seq_id (store s r)) (filter (samples (store s) p) (b_seqs b))"
     "map out_token_ids os = map (\<lambda>t. [t]) (take (length os) sampled)"
    using sched_update_ok [OF assms, of now] by blast
  then show ?thesis
    by (intro exI [of _ s'] exI [of _ os]) (auto simp: list_all_iff advanced_def)
qed

text \<open>The prompt of the waiting request is computed in one iteration, which samples a token for it.\<close>

lemma ex_sched1_batch:
  "case schedule ex_ext ex_sched1 of Inl _ \<Rightarrow> False
   | Inr (s, b) \<Rightarrow> b_seqs b = [0] \<and> num_new_tokens b = [3] \<and> do_sample b = [True] \<and> token_ids (store s 0) = [7, 7, 7] \<and>
       num_computed_tokens (store s 0) = 0 \<and> seq_id (store s 0) = 0"
  by code_simp

theorem update_deals_witness:
  "\<exists>s b s' out. schedule ex_ext ex_sched1 = Inr (s, b) \<and> b_seqs b = [0] \<and> sched_update ex_ext 0 s b [5] = Inr (s', outputs s @ [out]) \<and>
     token_ids (store s' 0) = [7, 7, 7, 5] \<and> num_computed_tokens (store s' 0) = 3 \<and> out_seq_id out = 0 \<and> out_token_ids out = [5]"
proof -
  obtain s b where run: "schedule ex_ext ex_sched1 = Inr (s, b)" "b_seqs b = [0]" "num_new_tokens b = [3]" "do_sample b = [True]"
      "token_ids (store s 0) = [7, 7, 7]" "num_computed_tokens (store s 0) = 0" "seq_id (store s 0) = 0"
    using ex_sched1_batch by (auto split: sum.splits)
  obtain p where "scheduled ex_ext ex_sched1 s p b" by (rule scheduledD [OF ex_sched1_inv run(1)])
  then have S: "sinv ex_ext s p []" "batch_ok s p b" by (simp_all add: scheduled_def)
  have p: "samples (store s) p 0" "p 0 = 3" using batch_okD(5,7) [OF S(2)] run(2-4) by simp_all
  have "length (filter (\<lambda>d. d) (do_sample b)) \<le> length [5 :: int]" using run(4) by simp
  from update_deals [OF S this, of 0] obtain s' outs where U: "sched_update ex_ext 0 s b [5] = Inr (s', outputs s @ outs)"
      "token_ids (store s' 0) = [7, 7, 7, 5]" "num_computed_tokens (store s' 0) = 3"
      "map out_seq_id outs = [0]" "map out_token_ids outs = map (\<lambda>t. [t]) (take (length outs) [5])"
    using run p by auto
  obtain out where out: "outs = [out]" using U(4) by (cases outs) auto
  then show ?thesis using run(1,2) U by (intro exI [of _ s] exI [of _ b] exI [of _ s'] exI [of _ out]) simp
qed

section \<open>Requests\<close>

text \<open>\<open>add\<close> puts a new request behind exactly those waiting requests whose policy key is not
  greater, changes no other queue and keeps the invariant; an id that is still live is refused with
  ValueError.\<close>

lemma add_in_order:
  assumes "sinv X s p []" and "addable s r"
  shows "(if map_of (seqs s) (seq_id (store s r)) = None
          then \<exists>s'. sched_add X s r = Inr s' \<and> sinv X s' p [] \<and>
                 pending (store s') (waiting s') = enqueued X s r \<and> running s' = running s \<and>
                 swapped s' = swapped s \<and> preempted s' = preempted s \<and> bm s' = bm s
          else \<exists>msg. sched_add X s r = Inl (ValueError msg))"
  using sched_add_ok [OF assms] sched_add_duplicate [of s r X] by auto

text \<open>C29: \<open>abort\<close> withdraws a live request from whichever queue holds it: the request ends ABORTED with
  no GPU or host page, every other request, queue position and produced token is untouched, the
  invariant holds; aborting the same id again is a no-op.\<close>

theorem abort_withdraws:
  assumes "sinv X s p []" and "map_of (seqs s) sid = Some r"
  shows "\<exists>s'. sched_abort s sid = Inr (s', True) \<and> sinv X s' p [] \<and>
     status (store s' r) = ABORTED \<and> block_table (store s' r) = [] \<and> cpu_block_table (store s' r) = [] \<and>
     running s' = remove1 r (running s) \<and> swapped s' = remove1 r (swapped s) \<and>
     preempted s' = remove1 r (preempted s) \<and>
     pending (store s') (waiting s') = remove1 r (pending (store s) (waiting s)) \<and>
     (\<forall>x. x \<noteq> r \<longrightarrow> store s' x = store s x) \<and> token_ids (store s' r) = token_ids (store s r) \<and>
     num_aborted s' = num_aborted s + 1 \<and> sched_abort s' sid = Inr (s', False)"
proof -
  obtain s' where A: "sched_abort s sid = Inr (s', True)" "sinv X s' p []" "withdrawn s s' r"
      "num_aborted s' = num_aborted s + 1"
    using sched_abort_ok [OF assms] by blast
  have "seq_id (store s r) = sid" using queues_invD(4) [OF sinvD(2) [OF assms(1)]] assms(2) by blast
  then have "map_of (seqs s') sid = None" using A(3) by (simp add: withdrawn_def)
  then have "sched_abort s' sid = Inr (s', False)" by (rule sched_abort_unknown)
  with A show ?thesis
    by (intro exI [of _ s']) (simp add: withdrawn_def sched_frame_def gen_same_def)
qed

theorem abort_withdraws_witness:
  "\<exists>s'. sched_abort ex_sched2 0 = Inr (s', True) \<and> running s' = [] \<and> block_table (store s' 0) = []"
  using abort_withdraws [OF ex_sched2_inv, of 0 0] by auto

section \<open>Accounting\<close>

text \<open>The debug assertions of \<open>check_invariants\<close> all hold between iterations, whenever no table of a
  running sequence maps a page twice. Without prefix caching that is always the case; with it, in every state
  an engine reaches whose digests do not collide.\<close>

theorem check_invariants_pass:
  assumes "sinv X s (\<lambda>_. 0) []" and "tables_distinct s \<or> \<not> enable_prefix_caching (bm s)"
  shows "sched_check s = Inr ()"
  using assms sched_check_ok tables_distinct_uncached by blast

theorem check_invariants_pass_witness: "sched_check ex_sched2 = Inr ()"
  by (rule check_invariants_pass [OF ex_sched2_inv]) (simp add: tables_distinct_def ex_run_ok)

section \<open>The waiting queue\<close>

text \<open>C31: \<open>pop\<close> returns a waiting request whose policy key is least among all that wait, through any
  history of pushes and lazy removals.\<close>

theorem pop_returns_least:
  assumes "wq_inv X st q" and "pending st q \<noteq> []"
  shows "\<exists>q' r. wq_pop st q = Inr (q', r) \<and> r \<in> set (pending st q) \<and>
           list_all (\<lambda>x. queue_key X q (st r) \<le> queue_key X q (st x)) (pending st q)"
  using wq.pop_least [of X st q q] assms by (auto simp: list_all_iff)

theorem pop_returns_least_witness: "\<exists>q'. wq_pop (store ex_sched1) (waiting ex_sched1) = Inr (q', 0)"
proof -
  have "pending (store ex_sched1) (waiting ex_sched1) = [0]"
    by (simp add: pending_def is_live_def ex_sched_defs ex_defs)
  with pop_returns_least [OF sinv_wq [OF ex_sched1_inv]] show ?thesis by auto
qed

definition effective_priority :: "rat \<Rightarrow> rat \<Rightarrow> sequence \<Rightarrow> rat" where
  "effective_priority rate now s = priority_key s - rate * (now - arrival_time s)"

text \<open>Aging by a static key is exact, as the class comment claims: in exact arithmetic, two requests
  compare by the stored key as they compare by their effective priority
  \<open>priority - aging_rate * (now - arrival)\<close>, ties by arrival, whatever the time \<open>now\<close>.\<close>

lemma aging_key_exact:
  assumes "policy q \<notin> {''fcfs'', ''sjf''}" and "fl_round X = (\<lambda>x. x)"
  shows "queue_key X q a \<le> queue_key X q b \<longleftrightarrow>
     effective_priority (aging_rate q) now a < effective_priority (aging_rate q) now b \<or>
     effective_priority (aging_rate q) now a = effective_priority (aging_rate q) now b \<and>
     arrival_time a \<le> arrival_time b"
proof -
  have eq: "effective_priority (aging_rate q) now s
      = priority_key s + aging_rate q * arrival_time s - aging_rate q * now" for s
    by (simp add: effective_priority_def algebra_simps)
  show ?thesis
    using assms unfolding eq by (auto simp: queue_key_def)
qed

end
