(* ===== verification/Attention.thy ===== *)
theory Attention
  imports Prelude
begin

text \<open>
  \<open>engine/model/attention.py\<close>: the paged KV cache and the attention backends. A tensor is the list of
  its rows; a row of K, V or Q is the list of its heads, a head the list of its scalars. The cache keeps,
  per layer, K and V as the flat list of slots that \<open>flat\<close> shows. torch's scaled dot-product attention is
  the argument \<open>attend\<close>: one query head over the keys and values it may see.
\<close>

section \<open>Indexing\<close>

text \<open>\<open>index_select(0, idx)\<close> and \<open>index_copy_(0, idx, src)\<close>.\<close>

definition index_select :: "'a list \<Rightarrow> nat list \<Rightarrow> 'a list result" where
  "index_select xs idx = mapM (list_get xs) idx"

definition index_copy :: "'a list \<Rightarrow> nat list \<Rightarrow> 'a list \<Rightarrow> 'a list result" where
  "index_copy xs idx src =
     (if length idx \<noteq> length src then Inl IndexError
      else foldM (\<lambda>ys (i, v). list_set ys i v) xs (zip idx src))"

text \<open>\<open>xs[i:j]\<close> and \<open>xs[i:j] = ys\<close> for \<open>0 \<le> i\<close>.\<close>

definition py_slice :: "'a list \<Rightarrow> nat \<Rightarrow> nat \<Rightarrow> 'a list" where
  "py_slice xs i j = drop i (take j xs)"

definition slice_assign :: "'a list \<Rightarrow> nat \<Rightarrow> nat \<Rightarrow> 'a list \<Rightarrow> 'a list result" where
  "slice_assign xs i j ys =
     (if length (py_slice xs i j) = length ys then Inr (take i xs @ ys @ drop (i + length ys) xs)
      else Inl (RuntimeError ''the expanded size of the tensor must match''))"

text \<open>\<open>[0, x1, x1 + x2, ..]\<close>\<close>

primrec offsets :: "nat \<Rightarrow> nat list \<Rightarrow> nat list" where
  "offsets a [] = [a]"
| "offsets a (n # ns) = a # offsets (a + n) ns"

section \<open>The cache\<close>

type_synonym 'a row = "'a list list"

record 'a kv_cache =
  kv_num_blocks :: nat
  kv_block_size :: nat
  scratch_block :: nat
  kv_data :: "('a row list \<times> 'a row list) list"

definition init_kv_cache :: "nat \<Rightarrow> nat \<Rightarrow> nat \<Rightarrow> nat \<Rightarrow> nat \<Rightarrow> ('a::zero) kv_cache" where
  "init_kv_cache layers blocks bs kv_heads head_dim =
     (let zeros = replicate ((blocks + 1) * bs) (replicate kv_heads (replicate head_dim 0))
      in \<lparr>kv_num_blocks = blocks, kv_block_size = bs, scratch_block = blocks,
          kv_data = replicate layers (zeros, zeros)\<rparr>)"

definition bytes_per_block :: "nat \<Rightarrow> nat \<Rightarrow> nat \<Rightarrow> nat \<Rightarrow> nat \<Rightarrow> nat" where
  "bytes_per_block layers bs kv_heads head_dim itemsize = layers * 2 * bs * kv_heads * head_dim * itemsize"

text \<open>\<open>flat(layer)\<close> is the stored form; \<open>layer(layer)\<close> groups its slots into pages.\<close>

definition kv_flat :: "'a kv_cache \<Rightarrow> nat \<Rightarrow> ('a row list \<times> 'a row list) result" where
  "kv_flat c layer = list_get (kv_data c) layer"

definition pages_of :: "nat \<Rightarrow> 'a list \<Rightarrow> 'a list list" where
  "pages_of bs xs = map (\<lambda>i. py_slice xs (i * bs) (i * bs + bs)) [0..<length xs div bs]"

definition kv_layer :: "'a kv_cache \<Rightarrow> nat \<Rightarrow> ('a row list list \<times> 'a row list list) result" where
  "kv_layer c layer =
     rbind (kv_flat c layer) (\<lambda>(k, v). Inr (pages_of (kv_block_size c) k, pages_of (kv_block_size c) v))"

definition set_flat :: "'a kv_cache \<Rightarrow> nat \<Rightarrow> ('a row list \<times> 'a row list) \<Rightarrow> 'a kv_cache" where
  "set_flat c layer kv = c\<lparr>kv_data := (kv_data c)[layer := kv]\<rparr>"

section \<open>Metadata of a step\<close>

record attention_metadata =
  query_lens :: "nat list"
  kv_lens :: "nat list"
  query_start :: "nat list"
  slot_mapping :: "nat list"
  kv_slots :: "nat list option"
  kv_start :: "nat list option"
  block_tables :: "nat list list option"

definition meta_num_seqs :: "attention_metadata \<Rightarrow> nat" where
  "meta_num_seqs m = length (query_lens m)"

section \<open>Causal attention\<close>

type_synonym 'a attend = "'a list \<Rightarrow> 'a list list \<Rightarrow> 'a list list \<Rightarrow> 'a list"

definition repeat_interleave :: "nat \<Rightarrow> 'a list \<Rightarrow> 'a list" where
  "repeat_interleave n xs = concat (map (replicate n) xs)"

text \<open>
  \<open>F.scaled_dot_product_attention\<close>, head by head and query by query over the keys its mask admits.
\<close>

definition sdpa :: "'a attend \<Rightarrow> (nat \<Rightarrow> nat \<Rightarrow> bool) \<Rightarrow> 'a row list \<Rightarrow> 'a row list \<Rightarrow> 'a row list \<Rightarrow> 'a row list" where
  "sdpa attend vis q k v =
     map (\<lambda>i. map (\<lambda>h. let seen = filter (vis i) [0..<length k] in
                attend (q ! i ! h) (map (\<lambda>j. k ! j ! h) seen) (map (\<lambda>j. v ! j ! h) seen)) [0..<length (q ! i)])
       [0..<length q]"

definition causal_mask :: "nat \<Rightarrow> nat \<Rightarrow> nat \<Rightarrow> nat \<Rightarrow> bool" where
  "causal_mask tq tk i j \<longleftrightarrow> (if tq > 1 then int j \<le> int i + (int tk - int tq) else True)"

definition causal_attention :: "'a attend \<Rightarrow> 'a row list \<Rightarrow> 'a row list \<Rightarrow> 'a row list \<Rightarrow> 'a row list" where
  "causal_attention attend q k v =
     (let heads = length (hd q); kv_heads = length (hd k);
          k' = (if heads \<noteq> kv_heads then map (repeat_interleave (heads div kv_heads)) k else k);
          v' = (if heads \<noteq> kv_heads then map (repeat_interleave (heads div kv_heads)) v else v)
      in sdpa attend (causal_mask (length q) (length k)) q k' v')"

section \<open>The contiguous reference\<close>

type_synonym 'a contiguous = "('a row list \<times> 'a row list) option list"

definition init_contiguous :: "nat \<Rightarrow> 'a contiguous" where
  "init_contiguous layers = replicate layers None"

definition contiguous_call ::
  "'a attend \<Rightarrow> 'a contiguous \<Rightarrow> nat \<Rightarrow> 'a row list \<Rightarrow> 'a row list \<Rightarrow> 'a row list
     \<Rightarrow> ('a contiguous \<times> 'a row list) result" where
  "contiguous_call attend st layer q k v =
     rbind (list_get st layer) (\<lambda>old.
       let kv = (case old of None \<Rightarrow> (k, v) | Some (k0, v0) \<Rightarrow> (k0 @ k, v0 @ v))
       in Inr (st[layer := Some kv], causal_attention attend q (fst kv) (snd kv)))"

section \<open>The naive paged backend\<close>

definition naive_write ::
  "attention_metadata \<Rightarrow> 'a kv_cache \<Rightarrow> nat \<Rightarrow> 'a row list \<Rightarrow> 'a row list \<Rightarrow> 'a kv_cache result" where
  "naive_write m c layer k v =
     rbind (kv_flat c layer) (\<lambda>(k_flat, v_flat).
     rbind (index_copy k_flat (slot_mapping m) k) (\<lambda>k_flat'.
     rbind (index_copy v_flat (slot_mapping m) v) (\<lambda>v_flat'.
       Inr (set_flat c layer (k_flat', v_flat')))))"

definition naive_gather ::
  "attention_metadata \<Rightarrow> 'a kv_cache \<Rightarrow> nat \<Rightarrow> nat \<Rightarrow> ('a row list \<times> 'a row list) result" where
  "naive_gather m c layer i =
     (case (kv_slots m, kv_start m) of
        (Some slots, Some starts) \<Rightarrow>
          rbind (list_get starts i) (\<lambda>lo.
          rbind (list_get starts (i + 1)) (\<lambda>hi.
          rbind (kv_flat c layer) (\<lambda>(k_flat, v_flat).
          rbind (index_select k_flat (py_slice slots lo hi)) (\<lambda>keys.
          rbind (index_select v_flat (py_slice slots lo hi)) (\<lambda>vals. Inr (keys, vals))))))
      | _ \<Rightarrow> Inl (RuntimeError ''no slots''))"

text \<open>One turn of the loop over the sequences: attend, and write the rows into the output.\<close>

definition naive_seq ::
  "'a attend \<Rightarrow> attention_metadata \<Rightarrow> 'a kv_cache \<Rightarrow> nat \<Rightarrow> 'a row list \<Rightarrow> 'a row list \<Rightarrow> nat \<Rightarrow> 'a row list result" where
  "naive_seq attend m c layer q out i =
     rbind (list_get (query_start m) i) (\<lambda>lo.
     rbind (list_get (query_start m) (i + 1)) (\<lambda>hi.
     rbind (naive_gather m c layer i) (\<lambda>(keys, vals).
       slice_assign out lo hi (causal_attention attend (py_slice q lo hi) keys vals))))"

text \<open>\<open>junk\<close> is what the rows of \<open>torch.empty_like(q)\<close> happen to hold.\<close>

definition naive_call ::
  "'a attend \<Rightarrow> (nat \<Rightarrow> 'a row) \<Rightarrow> attention_metadata \<Rightarrow> nat \<Rightarrow> 'a row list \<Rightarrow> 'a row list \<Rightarrow> 'a row list
     \<Rightarrow> 'a kv_cache \<Rightarrow> ('a kv_cache \<times> 'a row list) result" where
  "naive_call attend junk m layer q k v c0 =
     rbind (naive_write m c0 layer k v) (\<lambda>c.
     rbind (foldM (naive_seq attend m c layer q) (map junk [0..<length q]) [0..<meta_num_seqs m]) (\<lambda>out. Inr (c, out)))"

section \<open>FlashInfer's page index\<close>

record page_index =
  indptr :: "32 word list"
  indices :: "32 word list"
  last_page_len :: "32 word list"

text \<open>Compressed rows, in the 32-bit integers the kernels take.\<close>

definition paged_kv_index :: "nat list list \<Rightarrow> nat list \<Rightarrow> nat \<Rightarrow> page_index" where
  "paged_kv_index tables lens bs =
     \<lparr>indptr = map of_nat (offsets 0 (map length tables)),
      indices = map of_nat (concat tables),
      last_page_len = map (\<lambda>(n, t). word_of_int (int n - (int (length t) - 1) * int bs)) (zip lens tables)\<rparr>"

text \<open>\<open>FlashInferAttention.begin_step\<close>: which wrapper runs, and the plan it is given.\<close>

record flash_plan =
  decode_only :: bool
  qo_indptr :: "32 word list option"
  pages_plan :: page_index

definition flash_begin_step :: "attention_metadata \<Rightarrow> nat \<Rightarrow> flash_plan result" where
  "flash_begin_step m bs =
     (case block_tables m of
        None \<Rightarrow> Inl (RuntimeError ''no tables'')
      | Some tables \<Rightarrow>
          let dec = list_all (\<lambda>n. n = 1) (query_lens m)
          in Inr \<lparr>decode_only = dec,
                  qo_indptr = (if dec then None else Some (map of_nat (query_start m))),
                  pages_plan = paged_kv_index tables (kv_lens m) bs\<rparr>)"

text \<open>\<open>run\<close> stands for the wrapper's kernel; it reads the cache this call has written.\<close>

definition flash_call ::
  "(flash_plan \<Rightarrow> 'a row list \<Rightarrow> ('a row list list \<times> 'a row list list) \<Rightarrow> 'a row list) \<Rightarrow>
     attention_metadata \<Rightarrow> flash_plan \<Rightarrow> nat \<Rightarrow> 'a row list \<Rightarrow> 'a row list \<Rightarrow> 'a row list \<Rightarrow> 'a kv_cache
     \<Rightarrow> ('a kv_cache \<times> 'a row list) result" where
  "flash_call run m plan layer q k v c0 =
     rbind (naive_write m c0 layer k v) (\<lambda>c.
     rbind (kv_layer c layer) (\<lambda>kv. Inr (c, run plan q kv)))"

end
