(* ===== verification/Runner_Prepare.thy ===== *)
theory Runner_Prepare
  imports Scheduler Attention
begin

text \<open>
  \<open>ModelRunner.prepare\<close> of \<open>engine/core/model_runner.py\<close>: the scheduled batch flattened into token ids,
  positions, destination slots and the metadata the attention backend reads. Counts of computed tokens
  are not negative, so they index lists as natural numbers. Packing the index arrays into one tensor and
  splitting it again on the device changes none of them.
\<close>

section \<open>One sequence\<close>

record prepared_seq =
  ps_ids :: "int list"
  ps_positions :: "nat list"
  ps_slots :: "nat list"
  ps_table :: "nat list"
  ps_kv_len :: nat

text \<open>\<open>dst[lo:hi] = xs\<close> for an array slice of \<open>n\<close> elements: a single element is broadcast.\<close>

definition np_fill :: "nat \<Rightarrow> 'a list \<Rightarrow> 'a list result" where
  "np_fill n xs =
     (if length xs = n then Inr xs
      else if length xs = 1 then Inr (replicate n (hd xs))
      else Inl (ValueError ''could not broadcast input array''))"

definition slot_of :: "nat \<Rightarrow> nat list \<Rightarrow> nat \<Rightarrow> nat result" where
  "slot_of bs table p = rbind (list_get table (p div bs)) (\<lambda>blk. Inr (blk * bs + p mod bs))"

definition trim_table :: "nat \<Rightarrow> sequence \<Rightarrow> nat \<Rightarrow> nat list" where
  "trim_table bs q kv_len = py_prefix (block_table q) (ceil_div (int kv_len) bs)"

definition prepare_seq :: "nat \<Rightarrow> sequence \<Rightarrow> nat \<Rightarrow> prepared_seq result" where
  "prepare_seq bs q n =
     (let start = nat (num_computed_tokens q); kv_len = start + n;
          positions = [start..<start + n]; table = trim_table bs q kv_len
      in rbind (np_fill n (py_slice (token_ids q) start (start + n))) (\<lambda>ids.
         rbind (mapM (slot_of bs table) positions) (\<lambda>slots.
           Inr \<lparr>ps_ids = ids, ps_positions = positions, ps_slots = slots, ps_table = table, ps_kv_len = kv_len\<rparr>)))"

section \<open>The batch\<close>

definition prepare_seqs :: "nat \<Rightarrow> seq_store \<Rightarrow> scheduled_batch \<Rightarrow> prepared_seq list result" where
  "prepare_seqs bs st b =
     mapM (\<lambda>(r, n). prepare_seq bs (st r) (nat n)) (zip (b_seqs b) (num_new_tokens b))"

text \<open>Rows of the last token of every sampling sequence.\<close>

definition logits_indices :: "nat list \<Rightarrow> bool list \<Rightarrow> nat list" where
  "logits_indices starts sample =
     map (\<lambda>i. starts ! (i + 1) - 1) (filter (\<lambda>i. sample ! i) [0..<length sample])"

text \<open>\<open>(table[:, None] * bs + np.arange(bs)).reshape(-1)[:kv_len]\<close>\<close>

definition cached_slots :: "nat \<Rightarrow> nat list \<Rightarrow> nat \<Rightarrow> nat list" where
  "cached_slots bs table kv_len = take kv_len (concat (map (\<lambda>blk. [blk * bs..<blk * bs + bs]) table))"

definition prepare ::
  "nat \<Rightarrow> bool \<Rightarrow> seq_store \<Rightarrow> scheduled_batch \<Rightarrow> (int list \<times> nat list \<times> nat list \<times> attention_metadata) result" where
  "prepare bs naive st b =
     rbind (prepare_seqs bs st b) (\<lambda>ps.
       let lens = map nat (num_new_tokens b); starts = offsets 0 lens
       in Inr (concat (map ps_ids ps), concat (map ps_positions ps), logits_indices starts (do_sample b),
            \<lparr>query_lens = lens, kv_lens = map ps_kv_len ps, query_start = starts,
             slot_mapping = concat (map ps_slots ps),
             kv_slots = (if naive then Some (concat (map (\<lambda>p. cached_slots bs (ps_table p) (ps_kv_len p)) ps)) else None),
             kv_start = (if naive then Some (offsets 0 (map ps_kv_len ps)) else None),
             block_tables = (if naive then None else Some (map ps_table ps))\<rparr>))"

end
