(* ===== verification/Index_Lemmas.thy ===== *)
theory Index_Lemmas
  imports Runner_Prepare
begin

text \<open>
  Generic facts about the index operations of the backends: scatters to distinct places, gathers,
  slices of concatenations at their offsets, and the slots of a block table.
\<close>

section \<open>Scatter and gather\<close>

lemma index_select_ok: "(\<And>i. i \<in> set idx \<Longrightarrow> i < length xs) \<Longrightarrow> index_select xs idx = Inr (map ((!) xs) idx)"
  unfolding index_select_def by (rule mapM_ok) simp

lemma foldM_list_set:
  assumes "length idx = length src" and "distinct idx" and "\<forall>i \<in> set idx. i < length xs"
  shows "\<exists>ys. foldM (\<lambda>ys (i, v). list_set ys i v) xs (zip idx src) = Inr ys \<and> length ys = length xs \<and>
     map ((!) ys) idx = src \<and> (\<forall>i. i \<notin> set idx \<longrightarrow> ys ! i = xs ! i)"
  using assms
proof (induction idx src arbitrary: xs rule: list_induct2)
  case (Cons i idx v src)
  from Cons.IH [of "xs[i := v]"] Cons.prems obtain ys where
    ys: "foldM (\<lambda>ys (i, v). list_set ys i v) (xs[i := v]) (zip idx src) = Inr ys" "length ys = length xs"
      "map ((!) ys) idx = src" "\<forall>j. j \<notin> set idx \<longrightarrow> ys ! j = xs[i := v] ! j" by auto
  have "ys ! i = v" using ys(4) Cons.prems by simp
  moreover have "\<forall>j. j \<notin> set (i # idx) \<longrightarrow> ys ! j = xs ! j" using ys(4) by simp
  ultimately show ?case
    using ys(1-3) Cons.prems by (intro exI [of _ ys]) simp
qed simp

lemma index_copy_ok:
  assumes "length idx = length src" and "distinct idx" and "\<forall>i \<in> set idx. i < length xs"
  shows "\<exists>ys. index_copy xs idx src = Inr ys \<and> length ys = length xs \<and>
     map ((!) ys) idx = src \<and> (\<forall>i. i \<notin> set idx \<longrightarrow> ys ! i = xs ! i)"
  using foldM_list_set [OF assms] assms(1) by (simp add: index_copy_def)

section \<open>Slices at offsets\<close>

lemma length_offsets [simp]: "length (offsets a ns) = Suc (length ns)"
  by (induction ns arbitrary: a) simp_all

lemma nth_offsets: "i \<le> length ns \<Longrightarrow> offsets a ns ! i = a + sum_list (take i ns)"
proof (induction ns arbitrary: a i)
  case (Cons n ns)
  then show ?case by (cases i) simp_all
qed simp

lemma length_concat_map:
  "(\<And>x. x \<in> set xs \<Longrightarrow> length (f x) = n x) \<Longrightarrow> length (concat (map f xs)) = sum_list (map n xs)"
  by (induction xs) simp_all

lemma length_concat_take: "length (concat (take i xss)) = sum_list (take i (map length xss))"
  by (simp add: length_concat take_map)

lemma slice_concat:
  assumes "i < length xss"
  shows "py_slice (concat xss) (sum_list (take i (map length xss))) (sum_list (take (Suc i) (map length xss))) = xss ! i"
proof -
  have split: "concat xss = concat (take i xss) @ xss ! i @ concat (drop (Suc i) xss)"
    using id_take_nth_drop [OF assms] by (metis concat_append concat.simps(2))
  have len: "sum_list (take i (map length xss)) = length (concat (take i xss))"
    "sum_list (take (Suc i) (map length xss)) = length (concat (take i xss)) + length (xss ! i)"
    using assms by (simp_all add: length_concat_take take_Suc_conv_app_nth)
  show ?thesis
    unfolding len py_slice_def by (subst split) simp
qed

lemma slice_concat_map:
  assumes "i < length xs" and "\<And>x. x \<in> set xs \<Longrightarrow> length (f x) = n x"
  shows "py_slice (concat (map f xs)) (offsets 0 (map n xs) ! i) (offsets 0 (map n xs) ! Suc i) = f (xs ! i)"
proof -
  have "map n xs = map length (map f xs)" using assms(2) by simp
  then have lens: "map n xs = map length (map f xs)" .
  show ?thesis
    using slice_concat [of i "map f xs"] assms(1) unfolding lens by (simp add: nth_offsets del: map_map)
qed

lemma slice_assign_fill:
  assumes "length out = a + n + b" and "length ys = n" and "length pre = a"
    and "take a out = pre"
  shows "slice_assign out a (a + n) ys = Inr (pre @ ys @ drop (a + n) out)"
  using assms by (simp add: slice_assign_def py_slice_def)

text \<open>The loop of a backend: each turn writes one slice, in order, and the slices cover the output.\<close>

lemma fill_loop:
  assumes step: "\<And>i out. i < length xs \<Longrightarrow> f out i =
      slice_assign out (offsets 0 (map n xs) ! i) (offsets 0 (map n xs) ! Suc i) (g (xs ! i))"
    and len: "\<And>x. x \<in> set xs \<Longrightarrow> length (g x) = n x"
    and out: "length out = sum_list (map n xs)" and k: "k \<le> length xs"
  shows "foldM f out [0..<k] = Inr (concat (map g (take k xs)) @ drop (sum_list (map n (take k xs))) out)"
  using k
proof (induction k)
  case (Suc k)
  let ?pre = "concat (map g (take k xs))"
  let ?a = "sum_list (map n (take k xs))"
  have k: "k < length xs" using Suc.prems by simp
  have split: "take (Suc k) xs = take k xs @ [xs ! k]" using k by (rule take_Suc_conv_app_nth)
  have lpre: "length ?pre = ?a"
    by (rule length_concat_map) (meson len in_set_takeD)
  have offs: "offsets 0 (map n xs) ! k = ?a" "offsets 0 (map n xs) ! Suc k = ?a + n (xs ! k)"
    using k by (simp_all add: nth_offsets take_map split)
  have rest: "xs = take k xs @ xs ! k # drop (Suc k) xs" using k by (rule id_take_nth_drop)
  have total_out: "length out = ?a + n (xs ! k) + sum_list (map n (drop (Suc k) xs))"
    using out by (subst (asm) rest) simp
  have lg: "length (g (xs ! k)) = n (xs ! k)" using len k by simp
  have "slice_assign (?pre @ drop ?a out) ?a (?a + n (xs ! k)) (g (xs ! k))
      = Inr (?pre @ g (xs ! k) @ drop (?a + n (xs ! k)) (?pre @ drop ?a out))"
    by (rule slice_assign_fill [where b = "sum_list (map n (drop (Suc k) xs))"]) (use lpre lg total_out in simp_all)
  moreover have "foldM f out [0..<k] = Inr (?pre @ drop ?a out)" using Suc by simp
  moreover have "f (?pre @ drop ?a out) k = slice_assign (?pre @ drop ?a out) ?a (?a + n (xs ! k)) (g (xs ! k))"
    using step [OF k] by (simp add: offs)
  ultimately show ?case
    using lpre by (simp add: foldM_append split add.commute)
qed simp

section \<open>Slots\<close>

definition slot_at :: "nat \<Rightarrow> nat list \<Rightarrow> nat \<Rightarrow> nat" where
  "slot_at bs table p = table ! (p div bs) * bs + p mod bs"

lemma slot_of_ok: "0 < bs \<Longrightarrow> p < length table * bs \<Longrightarrow> slot_of bs table p = Inr (slot_at bs table p)"
  by (simp add: slot_of_def slot_at_def less_mult_imp_div_less)

lemma concat_pages:
  "concat (map (\<lambda>blk. [blk * bs..<blk * bs + bs]) table) = map (slot_at bs table) [0..<length table * bs]"
proof (induction table rule: rev_induct)
  case (snoc b t)
  have "map (slot_at bs (t @ [b])) [length t * bs..<length t * bs + bs] = [b * bs..<b * bs + bs]"
  proof (rule nth_equalityI)
    fix i assume "i < length (map (slot_at bs (t @ [b])) [length t * bs..<length t * bs + bs])"
    then have i: "i < bs" by simp
    then have "(length t * bs + i) div bs = length t" "(length t * bs + i) mod bs = i" by simp_all
    with i show "map (slot_at bs (t @ [b])) [length t * bs..<length t * bs + bs] ! i = [b * bs..<b * bs + bs] ! i"
      by (simp add: slot_at_def)
  qed simp
  moreover have "map (slot_at bs (t @ [b])) [0..<length t * bs] = map (slot_at bs t) [0..<length t * bs]"
    by (rule map_cong) (auto simp: slot_at_def nth_append less_mult_imp_div_less)
  moreover have "[0..<length (t @ [b]) * bs] = [0..<length t * bs] @ [length t * bs..<length t * bs + bs]"
    using upt_add_eq_append [of 0 "length t * bs" bs] by (simp add: add.commute)
  ultimately show ?case using snoc by (simp only: map_append concat_append list.map concat.simps append_Nil2)
qed simp

lemma cached_slots_eq: "n \<le> length table * bs \<Longrightarrow> cached_slots bs table n = map (slot_at bs table) [0..<n]"
  by (simp add: cached_slots_def concat_pages take_map)

lemma slot_at_inj:
  assumes "0 < bs" and "slot_at bs t p = slot_at bs u r"
  shows "t ! (p div bs) = u ! (r div bs)" and "p mod bs = r mod bs"
proof -
  have "(t ! (p div bs) * bs + p mod bs) div bs = t ! (p div bs)"
    "(u ! (r div bs) * bs + r mod bs) div bs = u ! (r div bs)"
    "(t ! (p div bs) * bs + p mod bs) mod bs = p mod bs" "(u ! (r div bs) * bs + r mod bs) mod bs = r mod bs"
    using assms(1) by simp_all
  with assms(2) show "t ! (p div bs) = u ! (r div bs)" and "p mod bs = r mod bs"
    unfolding slot_at_def by metis+
qed

lemma slot_at_bound:
  assumes "0 < bs" and "p < length t * bs" and "\<forall>b \<in> set t. b < k"
  shows "slot_at bs t p < k * bs"
proof -
  have "t ! (p div bs) < k" using assms by (simp add: less_mult_imp_div_less)
  then have "t ! (p div bs) * bs + bs \<le> k * bs" by (metis Suc_leI add.commute mult_Suc mult_le_mono1)
  moreover have "p mod bs < bs" using assms(1) by simp
  ultimately show ?thesis unfolding slot_at_def by linarith
qed

end
