(* ===== verification/Paged_Attention.thy ===== *)
theory Paged_Attention
  imports Index_Lemmas
begin

text \<open>
  The naive paged backend computes, for every sequence of a batch, causal attention of its new queries
  over the rows its slots hold after the step's writes; and causal attention, row by row, is attention
  over the positions up to the row's own.
\<close>

section \<open>Layout of a batch in the cache\<close>

text \<open>A scheduled sequence: its tokens, how many are computed, how many this step adds, its pages.\<close>

record batch_item =
  it_tokens :: "int list"
  it_start :: nat
  it_new :: nat
  it_table :: "nat list"

definition it_end :: "batch_item \<Rightarrow> nat" where
  "it_end it = it_start it + it_new it"

definition it_slot :: "nat \<Rightarrow> batch_item \<Rightarrow> nat \<Rightarrow> nat" where
  "it_slot bs it p = slot_at bs (it_table it) p"

definition write_slots :: "nat \<Rightarrow> batch_item \<Rightarrow> nat list" where
  "write_slots bs it = map (it_slot bs it) [it_start it..<it_end it]"

definition all_writes :: "nat \<Rightarrow> batch_item list \<Rightarrow> nat list" where
  "all_writes bs items = concat (map (write_slots bs) items)"

text \<open>
  Every page is inside the cache, the slots written are distinct, and no slot a sequence reads back from
  an earlier step is written. Sequences may share the pages they only read.
\<close>

definition layout_ok :: "nat \<Rightarrow> nat \<Rightarrow> batch_item list \<Rightarrow> bool" where
  "layout_ok bs slots items \<longleftrightarrow>
     0 < bs \<and> distinct (all_writes bs items) \<and>
     (\<forall>it \<in> set items. 1 \<le> it_new it \<and> it_end it \<le> length (it_table it) * bs \<and> it_end it \<le> length (it_tokens it) \<and>
        (\<forall>p < it_end it. it_slot bs it p < slots) \<and>
        (\<forall>p < it_start it. it_slot bs it p \<notin> set (all_writes bs items)))"

lemma layout_okD:
  assumes "layout_ok bs slots items"
  shows "0 < bs" "distinct (all_writes bs items)"
    and "it \<in> set items \<Longrightarrow> 1 \<le> it_new it" "it \<in> set items \<Longrightarrow> it_end it \<le> length (it_table it) * bs"
    and "it \<in> set items \<Longrightarrow> it_end it \<le> length (it_tokens it)"
    and "it \<in> set items \<Longrightarrow> p < it_end it \<Longrightarrow> it_slot bs it p < slots"
    and "it \<in> set items \<Longrightarrow> p < it_start it \<Longrightarrow> it_slot bs it p \<notin> set (all_writes bs items)"
  using assms by (auto simp: layout_ok_def)

definition items_meta :: "nat \<Rightarrow> batch_item list \<Rightarrow> attention_metadata" where
  "items_meta bs items =
     \<lparr>query_lens = map it_new items, kv_lens = map it_end items, query_start = offsets 0 (map it_new items),
      slot_mapping = all_writes bs items,
      kv_slots = Some (concat (map (\<lambda>it. map (it_slot bs it) [0..<it_end it]) items)),
      kv_start = Some (offsets 0 (map it_end items)), block_tables = None\<rparr>"

section \<open>Writing\<close>

text \<open>What a scatter of the rows \<open>r it\<close> leaves behind.\<close>

definition written :: "nat \<Rightarrow> batch_item list \<Rightarrow> (batch_item \<Rightarrow> 'r list) \<Rightarrow> 'r list \<Rightarrow> 'r list \<Rightarrow> bool" where
  "written bs items r f f' \<longleftrightarrow>
     length f' = length f \<and> (\<forall>s. s \<notin> set (all_writes bs items) \<longrightarrow> f' ! s = f ! s) \<and>
     (\<forall>it \<in> set items. \<forall>j < it_new it. f' ! it_slot bs it (it_start it + j) = r it ! j)"

lemma concat_map_eqD:
  assumes "concat (map f xs) = concat (map g xs)" and "\<And>x. x \<in> set xs \<Longrightarrow> length (f x) = length (g x)"
    and "x \<in> set xs"
  shows "f x = g x"
  using assms
proof (induction xs)
  case (Cons y ys)
  from Cons.prems(1,2) have "f y = g y" "concat (map f ys) = concat (map g ys)" by simp_all
  with Cons show ?case by auto
qed simp

lemma index_copy_written:
  assumes lay: "layout_ok bs (length f) items" and r: "\<And>it. it \<in> set items \<Longrightarrow> length (r it) = it_new it"
  shows "\<exists>f'. index_copy f (all_writes bs items) (concat (map r items)) = Inr f' \<and> written bs items r f f'"
proof -
  note L = layout_okD [OF lay]
  have lw: "length (write_slots bs it) = it_new it" for it by (simp add: write_slots_def it_end_def)
  have len: "length (all_writes bs items) = length (concat (map r items))"
    using length_concat_map [of items "write_slots bs" it_new] length_concat_map [of items r it_new] lw r
    by (simp add: all_writes_def)
  have "\<forall>i \<in> set (all_writes bs items). i < length f"
    using L(6) by (auto simp: all_writes_def write_slots_def)
  from index_copy_ok [OF len L(2) this] obtain f' where
    f': "index_copy f (all_writes bs items) (concat (map r items)) = Inr f'" "length f' = length f"
      "map ((!) f') (all_writes bs items) = concat (map r items)"
      "\<forall>i. i \<notin> set (all_writes bs items) \<longrightarrow> f' ! i = f ! i" by blast
  have "concat (map (\<lambda>it. map ((!) f') (write_slots bs it)) items) = concat (map r items)"
    using f'(3) by (simp add: all_writes_def map_concat comp_def)
  then have rows: "map ((!) f') (write_slots bs it) = r it" if "it \<in> set items" for it
    using concat_map_eqD [of "\<lambda>it. map ((!) f') (write_slots bs it)" items r it] r lw that by simp
  have "f' ! it_slot bs it (it_start it + j) = r it ! j" if "it \<in> set items" "j < it_new it" for it j
  proof -
    have "map ((!) f') (write_slots bs it) ! j = f' ! it_slot bs it (it_start it + j)"
      using that by (simp add: write_slots_def it_end_def)
    with rows [OF that(1)] show ?thesis by simp
  qed
  with f' show ?thesis unfolding written_def by blast
qed

section \<open>The backend's call\<close>

definition held_rows :: "nat \<Rightarrow> batch_item \<Rightarrow> 'r list \<Rightarrow> 'r list" where
  "held_rows bs it f = map (\<lambda>p. f ! it_slot bs it p) [0..<it_end it]"

definition item_attention ::
  "'a attend \<Rightarrow> nat \<Rightarrow> (batch_item \<Rightarrow> 'a row list) \<Rightarrow> 'a row list \<Rightarrow> 'a row list \<Rightarrow> batch_item \<Rightarrow> 'a row list" where
  "item_attention att bs qr kf vf it = causal_attention att (qr it) (held_rows bs it kf) (held_rows bs it vf)"

lemma length_causal_attention [simp]: "length (causal_attention att q k v) = length q"
  by (simp add: causal_attention_def Let_def sdpa_def)

lemma naive_call_items:
  assumes lay: "layout_ok bs (length kf) items" and flat: "kv_flat c layer = Inr (kf, vf)" "length vf = length kf"
    and q: "\<And>it. it \<in> set items \<Longrightarrow> length (qr it) = it_new it"
    and k: "\<And>it. it \<in> set items \<Longrightarrow> length (kr it) = it_new it"
    and v: "\<And>it. it \<in> set items \<Longrightarrow> length (vr it) = it_new it"
  shows "\<exists>kf' vf'. naive_call att junk (items_meta bs items) layer (concat (map qr items)) (concat (map kr items))
        (concat (map vr items)) c
      = Inr (set_flat c layer (kf', vf'), concat (map (item_attention att bs qr kf' vf') items)) \<and>
     written bs items kr kf kf' \<and> written bs items vr vf vf'"
proof -
  note L = layout_okD [OF lay]
  let ?m = "items_meta bs items" and ?q = "concat (map qr items)"
  obtain kf' where kf': "index_copy kf (all_writes bs items) (concat (map kr items)) = Inr kf'" "written bs items kr kf kf'"
    using index_copy_written [OF lay k] by blast
  obtain vf' where vf': "index_copy vf (all_writes bs items) (concat (map vr items)) = Inr vf'" "written bs items vr vf vf'"
    using index_copy_written [of bs vf items vr] lay v flat(2) by auto
  define c' where "c' = set_flat c layer (kf', vf')"
  have wr: "naive_write ?m c layer (concat (map kr items)) (concat (map vr items)) = Inr c'"
    using flat kf'(1) vf'(1) by (simp add: naive_write_def items_meta_def c'_def)
  have "layer < length (kv_data c)" using flat(1) by (simp add: kv_flat_def list_get_def split: if_splits)
  then have flat': "kv_flat c' layer = Inr (kf', vf')" by (simp add: c'_def kv_flat_def set_flat_def)
  have gather: "naive_gather ?m c' layer i = Inr (held_rows bs (items ! i) kf', held_rows bs (items ! i) vf')"
    if i: "i < length items" for i
  proof -
    let ?it = "items ! i"
    have it: "?it \<in> set items" using i by simp
    have slice: "py_slice (concat (map (\<lambda>it. map (it_slot bs it) [0..<it_end it]) items))
        (offsets 0 (map it_end items) ! i) (offsets 0 (map it_end items) ! Suc i) = map (it_slot bs ?it) [0..<it_end ?it]"
      by (rule slice_concat_map [OF i]) simp
    have sel: "index_select f (map (it_slot bs ?it) [0..<it_end ?it]) = Inr (held_rows bs ?it f)"
      if "length f = length kf" for f :: "'a row list"
      using L(6) [OF it] that by (subst index_select_ok) (auto simp: held_rows_def)
    have "length kf' = length kf" "length vf' = length kf"
      using kf'(2) vf'(2) flat(2) by (simp_all add: written_def)
    then show ?thesis
      using i slice sel flat' by (simp add: naive_gather_def items_meta_def)
  qed
  have step: "naive_seq att ?m c' layer ?q out i = slice_assign out (offsets 0 (map it_new items) ! i)
      (offsets 0 (map it_new items) ! Suc i) (item_attention att bs qr kf' vf' (items ! i))"
    if i: "i < length items" for out i
  proof -
    have "py_slice ?q (offsets 0 (map it_new items) ! i) (offsets 0 (map it_new items) ! Suc i) = qr (items ! i)"
      by (rule slice_concat_map [OF i q])
    then show ?thesis
      using gather [OF i] i by (simp add: naive_seq_def items_meta_def item_attention_def)
  qed
  have lq: "length ?q = sum_list (map it_new items)"
    by (rule length_concat_map [OF q])
  have "foldM (naive_seq att ?m c' layer ?q) (map junk [0..<length ?q]) [0..<length items]
      = Inr (concat (map (item_attention att bs qr kf' vf') (take (length items) items))
          @ drop (sum_list (map it_new (take (length items) items))) (map junk [0..<length ?q]))"
    by (rule fill_loop [where f = "naive_seq att ?m c' layer ?q", OF step])
      (use q lq in \<open>simp_all add: item_attention_def\<close>)
  then have "foldM (naive_seq att ?m c' layer ?q) (map junk [0..<length ?q]) [0..<length items]
      = Inr (concat (map (item_attention att bs qr kf' vf') items))"
    using lq by simp
  then have "naive_call att junk ?m layer ?q (concat (map kr items)) (concat (map vr items)) c
      = Inr (c', concat (map (item_attention att bs qr kf' vf') items))"
    using wr by (simp add: naive_call_def meta_num_seqs_def) (simp add: items_meta_def)
  with kf'(2) vf'(2) show ?thesis unfolding c'_def by blast
qed

section \<open>Causal attention, row by row\<close>

definition expand_heads :: "nat \<Rightarrow> nat \<Rightarrow> 'a row \<Rightarrow> 'a row" where
  "expand_heads heads kv_heads row =
     (if heads \<noteq> kv_heads then repeat_interleave (heads div kv_heads) row else row)"

text \<open>One query over the keys and values of all positions up to its own.\<close>

definition attend_row :: "'a attend \<Rightarrow> nat \<Rightarrow> nat \<Rightarrow> 'a row \<Rightarrow> 'a row list \<Rightarrow> 'a row list \<Rightarrow> 'a row" where
  "attend_row att heads kv_heads q ks vs =
     map (\<lambda>h. att (q ! h) (map (\<lambda>r. expand_heads heads kv_heads r ! h) ks)
                (map (\<lambda>r. expand_heads heads kv_heads r ! h) vs)) [0..<length q]"

lemma causal_seen:
  assumes "tk = c + tq" and "i < tq"
  shows "filter (causal_mask tq tk i) [0..<tk] = [0..<Suc (c + i)]"
proof -
  have "causal_mask tq tk i j \<longleftrightarrow> j \<le> c + i" if "j < tk" for j
    using assms that by (auto simp: causal_mask_def)
  then have "filter (causal_mask tq tk i) [0..<tk] = filter (\<lambda>j. j \<le> c + i) [0..<tk]"
    by (intro filter_cong) simp_all
  also have "\<dots> = [0..<Suc (c + i)]"
  proof -
    have "[0..<tk] = [0..<Suc (c + i)] @ [Suc (c + i)..<tk]"
      using upt_add_eq_append [of 0 "Suc (c + i)" "tk - Suc (c + i)"] assms by simp
    then show ?thesis by (simp add: filter_True filter_False del: upt_Suc)
  qed
  finally show ?thesis .
qed

lemma causal_attention_rows:
  assumes len: "length k = c + length q" "length v = length k" and q: "q \<noteq> []"
    and heads: "\<And>row. row \<in> set q \<Longrightarrow> length row = heads" "\<And>row. row \<in> set k \<Longrightarrow> length row = kv_heads"
  shows "causal_attention att q k v
    = map (\<lambda>i. attend_row att heads kv_heads (q ! i) (take (Suc (c + i)) k) (take (Suc (c + i)) v)) [0..<length q]"
proof -
  have ne: "k \<noteq> []" using len q by auto
  have h: "length (hd q) = heads" "length (hd k) = kv_heads" using heads q ne by simp_all
  have exp: "(if heads \<noteq> kv_heads then map (repeat_interleave (heads div kv_heads)) xs else xs)
      = map (expand_heads heads kv_heads) xs" for xs :: "'a row list"
    by (cases "heads = kv_heads") (simp_all add: expand_heads_def [abs_def])
  have row: "map (\<lambda>h. let seen = filter (causal_mask (length q) (length k) i) [0..<length k] in
        att (q ! i ! h) (map (\<lambda>j. map (expand_heads heads kv_heads) k ! j ! h) seen)
          (map (\<lambda>j. map (expand_heads heads kv_heads) v ! j ! h) seen)) [0..<length (q ! i)]
      = attend_row att heads kv_heads (q ! i) (take (Suc (c + i)) k) (take (Suc (c + i)) v)"
    if i: "i < length q" for i
  proof -
    have seen: "filter (causal_mask (length q) (length k) i) [0..<length k] = [0..<Suc (c + i)]"
      using len i by (intro causal_seen) simp_all
    have pick: "map (\<lambda>j. map (expand_heads heads kv_heads) xs ! j ! h) [0..<Suc (c + i)]
        = map (\<lambda>r. expand_heads heads kv_heads r ! h) (take (Suc (c + i)) xs)"
      if "length xs = length k" for xs :: "'a row list" and h
      using that len i by (intro nth_equalityI) (simp_all del: upt_Suc)
    show ?thesis
      unfolding seen Let_def attend_row_def using pick len(2) by (simp del: upt_Suc)
  qed
  show ?thesis
    unfolding causal_attention_def Let_def h exp sdpa_def length_map
    by (rule map_cong [OF refl]) (use row in \<open>simp add: Let_def\<close>)
qed

end
