(* ===== verification/Json.thy ===== *)
theory Json
  imports Prelude
begin

text \<open>
  Values as \<open>json.load\<close> returns them, and the dictionary accesses the sources make on them. Where a
  source stores a value of an unexpected type and fails later, the accessors here fail at once.
\<close>

datatype json =
    JNull
  | JBool bool
  | JInt int
  | JFloat rat
  | JStr string
  | JArr "json list"
  | JObj "(string \<times> json) list"

type_synonym json_obj = "(string \<times> json) list"

text \<open>Python's truth value.\<close>

fun truthy :: "json \<Rightarrow> bool" where
  "truthy JNull = False"
| "truthy (JBool b) = b"
| "truthy (JInt i) = (i \<noteq> 0)"
| "truthy (JFloat x) = (x \<noteq> 0)"
| "truthy (JStr s) = (s \<noteq> [])"
| "truthy (JArr xs) = (xs \<noteq> [])"
| "truthy (JObj d) = (d \<noteq> [])"

definition json_get :: "json_obj \<Rightarrow> string \<Rightarrow> json \<Rightarrow> json" where
  "json_get d k dflt = (case map_of d k of None \<Rightarrow> dflt | Some v \<Rightarrow> v)"

definition json_item :: "json_obj \<Rightarrow> string \<Rightarrow> json result" where
  "json_item d k = (case map_of d k of None \<Rightarrow> Inl KeyError | Some v \<Rightarrow> Inr v)"

fun json_int :: "json \<Rightarrow> int result" where
  "json_int (JInt i) = Inr i"
| "json_int _ = Inl TypeError"

fun json_float :: "json \<Rightarrow> rat result" where
  "json_float (JInt i) = Inr (of_int i)"
| "json_float (JFloat x) = Inr x"
| "json_float _ = Inl TypeError"

definition item_int :: "json_obj \<Rightarrow> string \<Rightarrow> int result" where
  "item_int d k = rbind (json_item d k) json_int"

definition item_float :: "json_obj \<Rightarrow> string \<Rightarrow> rat result" where
  "item_float d k = rbind (json_item d k) json_float"

definition floor_div :: "int \<Rightarrow> int \<Rightarrow> int result" where
  "floor_div a b = (if b = 0 then Inl ZeroDivisionError else Inr (a div b))"

end
