(* ===== verification/Qwen3.thy ===== *)
theory Qwen3
  imports Attention Json
begin

text \<open>
  \<open>engine/model/qwen3.py\<close>: the configuration read from the checkpoint's \<open>config.json\<close> and the forward
  pass over a flat batch of tokens. A tensor is the list of its rows and the arithmetic is exact, in any
  field; rsqrt, SiLU, cosine, sine and the attention kernel are arguments (\<open>'a math\<close>). The attention
  backend is a call that threads its own state.
\<close>

section \<open>Configuration\<close>

record model_config =
  hidden_size :: int
  intermediate_size :: int
  num_hidden_layers :: int
  num_attention_heads :: int
  num_key_value_heads :: int
  head_dim :: int
  mc_vocab_size :: int
  rope_theta :: rat
  rms_norm_eps :: rat
  max_position_embeddings :: int
  tie_word_embeddings :: bool
  eos_token_ids :: "int list"

definition unsupported_settings :: "json_obj \<Rightarrow> string list" where
  "unsupported_settings d =
     map fst (filter snd
       [(''model_type'', json_get d ''model_type'' JNull \<noteq> JStr ''qwen3''),
        (''hidden_act'', json_get d ''hidden_act'' (JStr ''silu'') \<noteq> JStr ''silu''),
        (''attention_bias'', truthy (json_get d ''attention_bias'' (JBool False))),
        (''rope_scaling'', truthy (json_get d ''rope_scaling'' JNull)),
        (''use_sliding_window'', truthy (json_get d ''use_sliding_window'' (JBool False)))])"

fun eos_of :: "json \<Rightarrow> int list result" where
  "eos_of (JArr xs) = mapM json_int xs"
| "eos_of JNull = Inr []"
| "eos_of j = rbind (json_int j) (\<lambda>i. Inr [i])"

definition from_hf_dict :: "json_obj \<Rightarrow> model_config result" where
  "from_hf_dict d =
     (if unsupported_settings d \<noteq> []
      then Inl (ValueError (''unsupported Qwen3 config settings: '' @ concat (unsupported_settings d)))
      else
        rbind (eos_of (json_get d ''eos_token_id'' JNull)) (\<lambda>eos.
        rbind (item_int d ''hidden_size'') (\<lambda>hidden.
        rbind (item_int d ''intermediate_size'') (\<lambda>inter.
        rbind (item_int d ''num_hidden_layers'') (\<lambda>layers.
        rbind (item_int d ''num_attention_heads'') (\<lambda>heads.
        rbind (item_int d ''num_key_value_heads'') (\<lambda>kv.
        rbind (if truthy (json_get d ''head_dim'' JNull) then json_int (json_get d ''head_dim'' JNull)
               else floor_div hidden heads) (\<lambda>hd_dim.
        rbind (item_int d ''vocab_size'') (\<lambda>vocab.
        rbind (item_float d ''rope_theta'') (\<lambda>theta.
        rbind (item_float d ''rms_norm_eps'') (\<lambda>eps.
        rbind (item_int d ''max_position_embeddings'') (\<lambda>maxpos.
          Inr \<lparr>hidden_size = hidden, intermediate_size = inter, num_hidden_layers = layers,
               num_attention_heads = heads, num_key_value_heads = kv, head_dim = hd_dim,
               mc_vocab_size = vocab, rope_theta = theta, rms_norm_eps = eps,
               max_position_embeddings = maxpos,
               tie_word_embeddings = truthy (json_get d ''tie_word_embeddings'' (JBool False)),
               eos_token_ids = eos\<rparr>))))))))))))"

section \<open>Row-wise building blocks\<close>

record 'a math =
  rsqrt :: "'a \<Rightarrow> 'a"
  silu :: "'a \<Rightarrow> 'a"
  cosf :: "'a \<Rightarrow> 'a"
  sinf :: "'a \<Rightarrow> 'a"
  inv_freq :: "'a list"
  norm_eps :: 'a
  attend_fn :: "'a attend"

definition linear :: "('a::comm_ring_1) list list \<Rightarrow> 'a list \<Rightarrow> 'a list" where
  "linear w x = map (\<lambda>row. sum_list (map2 (*) row x)) w"

definition vec_add :: "('a::comm_ring_1) list \<Rightarrow> 'a list \<Rightarrow> 'a list" where
  "vec_add x y = map2 (+) x y"

definition rms_norm :: "('a::field) math \<Rightarrow> 'a list \<Rightarrow> 'a list \<Rightarrow> 'a list" where
  "rms_norm m w x =
     (let scale = rsqrt m (sum_list (map (\<lambda>a. a ^ 2) x) / of_nat (length x) + norm_eps m)
      in map2 (*) w (map (\<lambda>a. a * scale) x))"

definition rotate_half :: "('a::comm_ring_1) list \<Rightarrow> 'a list" where
  "rotate_half x = map uminus (drop (length x div 2) x) @ take (length x div 2) x"

text \<open>The table has \<open>max_positions\<close> rows; a position past its end is an IndexError.\<close>

definition rope_row :: "('a \<Rightarrow> 'a) \<Rightarrow> ('a::field) math \<Rightarrow> nat \<Rightarrow> 'a list" where
  "rope_row f m p = map (\<lambda>w. f (of_nat p * w)) (inv_freq m @ inv_freq m)"

definition rope_table :: "('a \<Rightarrow> 'a) \<Rightarrow> ('a::field) math \<Rightarrow> nat \<Rightarrow> 'a list list" where
  "rope_table f m max_positions = map (rope_row f m) [0..<max_positions]"

definition rope_head :: "('a::comm_ring_1) list \<Rightarrow> 'a list \<Rightarrow> 'a list \<Rightarrow> 'a list" where
  "rope_head c s x = map2 (+) (map2 (*) x c) (map2 (*) (rotate_half x) s)"

definition rotary :: "('a::field) math \<Rightarrow> nat \<Rightarrow> nat \<Rightarrow> 'a row \<Rightarrow> 'a row \<Rightarrow> ('a row \<times> 'a row) result" where
  "rotary m max_positions p q k =
     rbind (list_get (rope_table (cosf m) m max_positions) p) (\<lambda>c.
     rbind (list_get (rope_table (sinf m) m max_positions) p) (\<lambda>s.
       Inr (map (rope_head c s) q, map (rope_head c s) k)))"

section \<open>The network\<close>

record 'a layer_weights =
  qkv_proj :: "'a list list"
  o_proj :: "'a list list"
  q_norm :: "'a list"
  k_norm :: "'a list"
  gate_up_proj :: "'a list list"
  down_proj :: "'a list list"
  input_layernorm :: "'a list"
  post_attention_layernorm :: "'a list"

record 'a model =
  embed_tokens :: "'a list list"
  model_layers :: "'a layer_weights list"
  final_norm :: "'a list"
  lm_head :: "'a list list option"
  n_heads :: nat
  n_kv_heads :: nat
  d_head :: nat
  d_inter :: nat
  max_positions :: nat
  ops :: "'a math"

text \<open>\<open>view(t, n, d)\<close> of one row.\<close>

definition heads_of :: "nat \<Rightarrow> nat \<Rightarrow> 'a list \<Rightarrow> 'a row" where
  "heads_of n d x = map (\<lambda>i. py_slice x (i * d) (i * d + d)) [0..<n]"

text \<open>One row through \<open>qkv_proj\<close>, the split, the per-head norms and RoPE.\<close>

definition qkv_row ::
  "('a::field) model \<Rightarrow> 'a layer_weights \<Rightarrow> nat \<Rightarrow> 'a list \<Rightarrow> ('a row \<times> 'a row \<times> 'a row) result" where
  "qkv_row M L p x =
     (let y = linear (qkv_proj L) x; q_size = n_heads M * d_head M; kv_size = n_kv_heads M * d_head M
      in if length y \<noteq> q_size + 2 * kv_size then Inl (RuntimeError ''split_with_sizes'')
         else
           let q = map (rms_norm (ops M) (q_norm L)) (heads_of (n_heads M) (d_head M) (take q_size y));
               k = map (rms_norm (ops M) (k_norm L)) (heads_of (n_kv_heads M) (d_head M) (take kv_size (drop q_size y)));
               v = heads_of (n_kv_heads M) (d_head M) (drop (q_size + kv_size) y)
           in rbind (rotary (ops M) (max_positions M) p q k) (\<lambda>(q', k'). Inr (q', k', v)))"

type_synonym ('a, 's) attention_fn =
  "nat \<Rightarrow> 'a row list \<Rightarrow> 'a row list \<Rightarrow> 'a row list \<Rightarrow> 's \<Rightarrow> ('s \<times> 'a row list) result"

definition self_attention ::
  "('a::field) model \<Rightarrow> 'a layer_weights \<Rightarrow> nat \<Rightarrow> ('a, 's) attention_fn \<Rightarrow> nat list \<Rightarrow> 'a list list \<Rightarrow> 's
     \<Rightarrow> ('s \<times> 'a list list) result" where
  "self_attention M L layer attn positions hidden s =
     rbind (mapM (\<lambda>(p, x). qkv_row M L p x) (zip positions hidden)) (\<lambda>qkv.
     rbind (attn layer (map fst qkv) (map (fst \<circ> snd) qkv) (map (snd \<circ> snd) qkv) s) (\<lambda>(s', out).
       Inr (s', map (\<lambda>row. linear (o_proj L) (concat row)) out)))"

definition mlp :: "('a::field) model \<Rightarrow> 'a layer_weights \<Rightarrow> 'a list \<Rightarrow> 'a list" where
  "mlp M L x =
     (let y = linear (gate_up_proj L) x; gate = take (d_inter M) y; up = drop (d_inter M) y
      in linear (down_proj L) (map2 (*) (map (silu (ops M)) gate) up))"

definition decoder_layer ::
  "('a::field) model \<Rightarrow> ('a, 's) attention_fn \<Rightarrow> nat list \<Rightarrow> 's \<times> 'a list list \<Rightarrow> nat \<Rightarrow> ('s \<times> 'a list list) result" where
  "decoder_layer M attn positions st layer = (case st of (s, hidden) \<Rightarrow>
     let L = model_layers M ! layer in
     rbind (self_attention M L layer attn positions (map (rms_norm (ops M) (input_layernorm L)) hidden) s) (\<lambda>(s', a).
       let h = map2 vec_add hidden a
       in Inr (s', map (\<lambda>x. vec_add x (mlp M L (rms_norm (ops M) (post_attention_layernorm L) x))) h)))"

definition embed :: "('a::field) model \<Rightarrow> int \<Rightarrow> 'a list result" where
  "embed M t = (if t < 0 then Inl IndexError else list_get (embed_tokens M) (nat t))"

definition qwen_forward ::
  "('a::field) model \<Rightarrow> ('a, 's) attention_fn \<Rightarrow> int list \<Rightarrow> nat list \<Rightarrow> 's \<Rightarrow> ('s \<times> 'a list list) result" where
  "qwen_forward M attn ids positions s =
     rbind (mapM (embed M) ids) (\<lambda>hidden.
     rbind (foldM (decoder_layer M attn positions) (s, hidden) [0..<length (model_layers M)]) (\<lambda>(s', h).
       Inr (s', map (rms_norm (ops M) (final_norm M)) h)))"

definition compute_logits :: "('a::field) model \<Rightarrow> 'a list list \<Rightarrow> 'a list list" where
  "compute_logits M hidden =
     map (linear (case lm_head M of None \<Rightarrow> embed_tokens M | Some w \<Rightarrow> w)) hidden"

end
