(* ===== verification/Forward_Ref.thy ===== *)
theory Forward_Ref
  imports Paged_Attention Qwen3
begin

text \<open>
  The reference semantics of the network: the hidden state of a position is a function of the tokens up
  to it, whatever batch, chunk or cache computed it. The forward pass over a flat batch with the naive
  paged backend computes exactly these states, and leaves in the cache exactly the keys and values they
  imply.
\<close>

section \<open>Keys, values and hidden states of a token list\<close>

definition model_ok :: "('a::field) model \<Rightarrow> bool" where
  "model_ok M \<longleftrightarrow> list_all (\<lambda>L. length (qkv_proj L) = n_heads M * d_head M + 2 * (n_kv_heads M * d_head M)) (model_layers M)"

definition tokens_ok :: "('a::field) model \<Rightarrow> int list \<Rightarrow> bool" where
  "tokens_ok M toks \<longleftrightarrow> list_all (\<lambda>t. 0 \<le> t \<and> nat t < length (embed_tokens M)) toks \<and> length toks \<le> max_positions M"

definition qkv_of :: "('a::field) model \<Rightarrow> nat \<Rightarrow> nat \<Rightarrow> 'a list \<Rightarrow> 'a row \<times> 'a row \<times> 'a row" where
  "qkv_of M l p x = (let L = model_layers M ! l in projr (qkv_row M L p (rms_norm (ops M) (input_layernorm L) x)))"

definition layer_out :: "('a::field) model \<Rightarrow> nat \<Rightarrow> 'a list \<Rightarrow> 'a row \<Rightarrow> 'a list" where
  "layer_out M l x att =
     (let L = model_layers M ! l; h = vec_add x (linear (o_proj L) (concat att))
      in vec_add h (mlp M L (rms_norm (ops M) (post_attention_layernorm L) h)))"

primrec ref_hidden :: "('a::field) model \<Rightarrow> int list \<Rightarrow> nat \<Rightarrow> nat \<Rightarrow> 'a list" where
  "ref_hidden M toks 0 = (\<lambda>p. embed_tokens M ! nat (toks ! p))"
| "ref_hidden M toks (Suc l) = (\<lambda>p.
     let kv = map (\<lambda>j. snd (qkv_of M l j (ref_hidden M toks l j))) [0..<Suc p]
     in layer_out M l (ref_hidden M toks l p)
          (attend_row (attend_fn (ops M)) (n_heads M) (n_kv_heads M)
             (fst (qkv_of M l p (ref_hidden M toks l p))) (map fst kv) (map snd kv)))"

definition ref_q :: "('a::field) model \<Rightarrow> int list \<Rightarrow> nat \<Rightarrow> nat \<Rightarrow> 'a row" where
  "ref_q M toks l p = fst (qkv_of M l p (ref_hidden M toks l p))"

definition ref_k :: "('a::field) model \<Rightarrow> int list \<Rightarrow> nat \<Rightarrow> nat \<Rightarrow> 'a row" where
  "ref_k M toks l p = fst (snd (qkv_of M l p (ref_hidden M toks l p)))"

definition ref_v :: "('a::field) model \<Rightarrow> int list \<Rightarrow> nat \<Rightarrow> nat \<Rightarrow> 'a row" where
  "ref_v M toks l p = snd (snd (qkv_of M l p (ref_hidden M toks l p)))"

definition ref_logits :: "('a::field) model \<Rightarrow> int list \<Rightarrow> 'a list" where
  "ref_logits M toks =
     linear (case lm_head M of None \<Rightarrow> embed_tokens M | Some w \<Rightarrow> w)
       (rms_norm (ops M) (final_norm M) (ref_hidden M toks (length (model_layers M)) (length toks - 1)))"

declare ref_hidden.simps(2) [simp del]

lemma ref_hidden_Suc:
  "ref_hidden M toks (Suc l) p = layer_out M l (ref_hidden M toks l p)
     (attend_row (attend_fn (ops M)) (n_heads M) (n_kv_heads M) (ref_q M toks l p)
        (map (ref_k M toks l) [0..<Suc p]) (map (ref_v M toks l) [0..<Suc p]))"
  by (simp add: ref_hidden.simps(2) Let_def ref_q_def ref_k_def [abs_def] ref_v_def [abs_def] comp_def del: upt_Suc)

text \<open>Causality: a hidden state depends on the tokens up to its position only.\<close>

lemma ref_hidden_cong:
  assumes "\<And>j. j \<le> p \<Longrightarrow> toks ! j = toks' ! j"
  shows "ref_hidden M toks l p = ref_hidden M toks' l p"
  using assms
proof (induction l arbitrary: p)
  case (Suc l)
  have eq: "ref_hidden M toks l j = ref_hidden M toks' l j" if "j \<le> p" for j
    using Suc.IH Suc.prems that by simp
  have ks: "map (ref_k M toks l) [0..<Suc p] = map (ref_k M toks' l) [0..<Suc p]"
    by (rule map_cong [OF refl]) (auto simp: ref_k_def eq)
  have vs: "map (ref_v M toks l) [0..<Suc p] = map (ref_v M toks' l) [0..<Suc p]"
    by (rule map_cong [OF refl]) (auto simp: ref_v_def eq)
  have "ref_q M toks l p = ref_q M toks' l p" by (simp add: ref_q_def eq)
  with eq [of p] show ?case by (simp only: ref_hidden_Suc ks vs order.refl)
qed simp

lemma ref_kv_cong:
  assumes "\<And>j. j \<le> p \<Longrightarrow> toks ! j = toks' ! j"
  shows "ref_k M toks l p = ref_k M toks' l p" and "ref_v M toks l p = ref_v M toks' l p"
proof -
  have "ref_hidden M toks l p = ref_hidden M toks' l p" by (rule ref_hidden_cong) (rule assms)
  then show "ref_k M toks l p = ref_k M toks' l p" and "ref_v M toks l p = ref_v M toks' l p"
    by (simp_all add: ref_k_def ref_v_def)
qed

subsection \<open>Rows\<close>

lemma length_heads_of [simp]: "length (heads_of n d x) = n" by (simp add: heads_of_def)

lemma qkv_row_ok:
  assumes "model_ok M" and "l < length (model_layers M)" and "p < max_positions M"
  shows "qkv_row M (model_layers M ! l) p (rms_norm (ops M) (input_layernorm (model_layers M ! l)) x) = Inr (qkv_of M l p x)"
    and "length (fst (qkv_of M l p x)) = n_heads M" "length (fst (snd (qkv_of M l p x))) = n_kv_heads M"
    and "length (snd (snd (qkv_of M l p x))) = n_kv_heads M"
proof -
  have "length (qkv_proj (model_layers M ! l)) = n_heads M * d_head M + 2 * (n_kv_heads M * d_head M)"
    using assms(1,2) by (simp add: model_ok_def list_all_length)
  then have "\<exists>q k v. qkv_row M (model_layers M ! l) p y = Inr (q, k, v) \<and> length q = n_heads M \<and>
      length k = n_kv_heads M \<and> length v = n_kv_heads M" for y
    using assms(3) by (simp add: qkv_row_def Let_def linear_def rotary_def rope_table_def)
  then obtain q k v where "qkv_row M (model_layers M ! l) p (rms_norm (ops M) (input_layernorm (model_layers M ! l)) x)
      = Inr (q, k, v)" "length q = n_heads M" "length k = n_kv_heads M" "length v = n_kv_heads M"
    by blast
  then show "qkv_row M (model_layers M ! l) p (rms_norm (ops M) (input_layernorm (model_layers M ! l)) x) = Inr (qkv_of M l p x)"
    and "length (fst (qkv_of M l p x)) = n_heads M" "length (fst (snd (qkv_of M l p x))) = n_kv_heads M"
    and "length (snd (snd (qkv_of M l p x))) = n_kv_heads M"
    by (simp_all add: qkv_of_def Let_def)
qed

text \<open>A row for every new position of every sequence of the batch.\<close>

definition batch_rows :: "batch_item list \<Rightarrow> (batch_item \<Rightarrow> nat \<Rightarrow> 'r) \<Rightarrow> 'r list" where
  "batch_rows items g = concat (map (\<lambda>it. map (g it) [it_start it..<it_end it]) items)"

lemma map_batch_rows: "map f (batch_rows items g) = batch_rows items (\<lambda>it p. f (g it p))"
  by (simp add: batch_rows_def map_concat comp_def)

lemma zip_batch_rows: "zip (batch_rows items g) (batch_rows items h) = batch_rows items (\<lambda>it p. (g it p, h it p))"
  unfolding batch_rows_def by (induction items) (simp_all add: zip_map_map zip_same_conv_map)

lemma map2_batch_rows:
  "map2 f (batch_rows items g) (batch_rows items h) = batch_rows items (\<lambda>it p. f (g it p) (h it p))"
  by (simp add: zip_batch_rows map_batch_rows)

lemma batch_rows_cong:
  "(\<And>it p. it \<in> set items \<Longrightarrow> it_start it \<le> p \<Longrightarrow> p < it_end it \<Longrightarrow> g it p = h it p) \<Longrightarrow>
     batch_rows items g = batch_rows items h"
  unfolding batch_rows_def by (intro arg_cong [of _ _ concat] map_cong refl) auto

lemma mapM_batch_rows:
  assumes "\<And>it p. it \<in> set items \<Longrightarrow> it_start it \<le> p \<Longrightarrow> p < it_end it \<Longrightarrow> f (g it p) = Inr (h it p)"
  shows "mapM f (batch_rows items g) = Inr (batch_rows items h)"
proof -
  have app: "mapM f xs = Inr ys \<Longrightarrow> mapM f zs = Inr us \<Longrightarrow> mapM f (xs @ zs) = Inr (ys @ us)" for xs ys zs us
    by (induction xs arbitrary: ys) (auto simp: result_simps)
  show ?thesis
    using assms
  proof (induction items)
    case (Cons it items)
    have "mapM f (map (g it) ps) = Inr (map (h it) ps)"
      if "\<forall>p \<in> set ps. it_start it \<le> p \<and> p < it_end it" for ps
      using that Cons.prems by (induction ps) simp_all
    then have "mapM f (map (g it) [it_start it..<it_end it]) = Inr (map (h it) [it_start it..<it_end it])" by simp
    with Cons app show ?case by (simp add: batch_rows_def)
  qed (simp add: batch_rows_def)
qed

end
