(* ===== verification/Paged_Forward.thy ===== *)
theory Paged_Forward
  imports Forward_Ref
begin

text \<open>
  The forward pass with the naive paged backend computes the reference states, for every sequence of
  the batch at once, and extends what the cache holds of each of them; the pass with the contiguous
  backend computes the same states for one sequence.
\<close>

section \<open>What a cache holds\<close>

definition cache_shape :: "('a::field) model \<Rightarrow> nat \<Rightarrow> 'a kv_cache \<Rightarrow> bool" where
  "cache_shape M slots c \<longleftrightarrow>
     length (kv_data c) = length (model_layers M) \<and>
     list_all (\<lambda>kv. length (fst kv) = slots \<and> length (snd kv) = slots) (kv_data c)"

text \<open>The slots of the first \<open>n\<close> positions hold the reference keys and values of layer \<open>l\<close>.\<close>

definition holds_layer :: "('a::field) model \<Rightarrow> nat \<Rightarrow> 'a kv_cache \<Rightarrow> nat \<Rightarrow> batch_item \<Rightarrow> nat \<Rightarrow> bool" where
  "holds_layer M bs c l it n \<longleftrightarrow>
     (\<forall>p < n. fst (kv_data c ! l) ! it_slot bs it p = ref_k M (it_tokens it) l p \<and>
              snd (kv_data c ! l) ! it_slot bs it p = ref_v M (it_tokens it) l p)"

definition holds :: "('a::field) model \<Rightarrow> nat \<Rightarrow> 'a kv_cache \<Rightarrow> batch_item \<Rightarrow> nat \<Rightarrow> bool" where
  "holds M bs c it n \<longleftrightarrow> (\<forall>l < length (model_layers M). holds_layer M bs c l it n)"

text \<open>Nothing but the listed slots differs.\<close>

definition only_written :: "nat list \<Rightarrow> 'a kv_cache \<Rightarrow> 'a kv_cache \<Rightarrow> bool" where
  "only_written slots c c' \<longleftrightarrow>
     c' = c\<lparr>kv_data := kv_data c'\<rparr> \<and> length (kv_data c') = length (kv_data c) \<and>
     (\<forall>l < length (kv_data c). \<forall>s. s \<notin> set slots \<longrightarrow>
        fst (kv_data c' ! l) ! s = fst (kv_data c ! l) ! s \<and> snd (kv_data c' ! l) ! s = snd (kv_data c ! l) ! s)"

lemma only_written_refl [simp]: "only_written slots c c" by (simp add: only_written_def)

lemma only_written_trans: "only_written s a b \<Longrightarrow> only_written s b c \<Longrightarrow> only_written s a c"
  by (cases a; cases b; cases c) (simp add: only_written_def)

section \<open>One layer\<close>

definition naive_fn ::
  "('a::field) model \<Rightarrow> (nat \<Rightarrow> 'a row) \<Rightarrow> attention_metadata \<Rightarrow> ('a, 'a kv_cache) attention_fn" where
  "naive_fn M junk m layer q k v c = naive_call (attend_fn (ops M)) junk m layer q k v c"

definition ref_attn :: "('a::field) model \<Rightarrow> int list \<Rightarrow> nat \<Rightarrow> nat \<Rightarrow> 'a row" where
  "ref_attn M toks l p =
     attend_row (attend_fn (ops M)) (n_heads M) (n_kv_heads M) (ref_q M toks l p)
       (map (ref_k M toks l) [0..<Suc p]) (map (ref_v M toks l) [0..<Suc p])"

definition ref_rows :: "('a::field) model \<Rightarrow> batch_item list \<Rightarrow> nat \<Rightarrow> 'a list list" where
  "ref_rows M items l = batch_rows items (\<lambda>it p. ref_hidden M (it_tokens it) l p)"

definition batch_positions :: "batch_item list \<Rightarrow> nat list" where
  "batch_positions items = batch_rows items (\<lambda>_ p. p)"

lemma ref_lengths:
  assumes "model_ok M" and "l < length (model_layers M)" and "p < max_positions M"
  shows "length (ref_q M toks l p) = n_heads M" "length (ref_k M toks l p) = n_kv_heads M"
    "length (ref_v M toks l p) = n_kv_heads M"
  using qkv_row_ok(2-4) [OF assms] by (simp_all add: ref_q_def ref_k_def ref_v_def)

lemma item_attention_ref:
  assumes ok: "model_ok M" "l < length (model_layers M)" "it_end it \<le> max_positions M" "1 \<le> it_new it"
    and kf: "held_rows bs it kf = map (ref_k M (it_tokens it) l) [0..<it_end it]"
    and vf: "held_rows bs it vf = map (ref_v M (it_tokens it) l) [0..<it_end it]"
  shows "item_attention (attend_fn (ops M)) bs (\<lambda>it. map (ref_q M (it_tokens it) l) [it_start it..<it_end it]) kf vf it
    = map (ref_attn M (it_tokens it) l) [it_start it..<it_end it]"
proof -
  let ?t = "it_tokens it" and ?c = "it_start it"
  let ?q = "map (ref_q M ?t l) [?c..<it_end it]"
  have len: "length ?q = it_new it" by (simp add: it_end_def)
  have "causal_attention (attend_fn (ops M)) ?q (map (ref_k M ?t l) [0..<it_end it]) (map (ref_v M ?t l) [0..<it_end it])
    = map (\<lambda>i. attend_row (attend_fn (ops M)) (n_heads M) (n_kv_heads M) (?q ! i)
        (take (Suc (?c + i)) (map (ref_k M ?t l) [0..<it_end it]))
        (take (Suc (?c + i)) (map (ref_v M ?t l) [0..<it_end it]))) [0..<length ?q]"
  proof (rule causal_attention_rows)
    show "length (map (ref_k M ?t l) [0..<it_end it]) = ?c + length ?q" by (simp add: it_end_def)
    show "?q \<noteq> []" using len assms(4) by (metis list.size(3) not_one_le_zero)
    show "length row = n_heads M" if "row \<in> set ?q" for row
      using that ref_lengths(1) [OF ok(1,2)] ok(3) by (auto simp: less_le_trans)
    show "length row = n_kv_heads M" if "row \<in> set (map (ref_k M ?t l) [0..<it_end it])" for row
      using that ref_lengths(2) [OF ok(1,2)] ok(3) by (auto simp: less_le_trans)
  qed simp
  also have "\<dots> = map (ref_attn M ?t l) [?c..<it_end it]"
  proof (rule nth_equalityI)
    fix i assume i: "i < length (map (\<lambda>i. attend_row (attend_fn (ops M)) (n_heads M) (n_kv_heads M) (?q ! i)
        (take (Suc (?c + i)) (map (ref_k M ?t l) [0..<it_end it]))
        (take (Suc (?c + i)) (map (ref_v M ?t l) [0..<it_end it]))) [0..<length ?q])"
    then have i: "i < it_end it - ?c" by simp
    then have "take (Suc (?c + i)) [0..<it_end it] = [0..<Suc (?c + i)]"
      by (simp add: take_upt)
    with i show "map (\<lambda>i. attend_row (attend_fn (ops M)) (n_heads M) (n_kv_heads M) (?q ! i)
        (take (Suc (?c + i)) (map (ref_k M ?t l) [0..<it_end it]))
        (take (Suc (?c + i)) (map (ref_v M ?t l) [0..<it_end it]))) [0..<length ?q] ! i
      = map (ref_attn M ?t l) [?c..<it_end it] ! i"
      by (simp add: ref_attn_def take_map del: upt_Suc)
  qed simp
  finally show ?thesis by (simp add: item_attention_def kf vf)
qed

lemma self_attention_items:
  assumes ok: "model_ok M" "l < length (model_layers M)"
    and pos: "\<And>it. it \<in> set items \<Longrightarrow> it_end it \<le> max_positions M"
    and lay: "layout_ok bs slots items" and shape: "cache_shape M slots c"
    and held: "\<And>it. it \<in> set items \<Longrightarrow> holds_layer M bs c l it (it_start it)"
  shows "\<exists>c'. self_attention M (model_layers M ! l) l (naive_fn M junk (items_meta bs items)) (batch_positions items)
        (map (rms_norm (ops M) (input_layernorm (model_layers M ! l))) (ref_rows M items l)) c
      = Inr (c', batch_rows items (\<lambda>it p. linear (o_proj (model_layers M ! l)) (concat (ref_attn M (it_tokens it) l p)))) \<and>
     cache_shape M slots c' \<and> only_written (all_writes bs items) c c' \<and>
     (\<forall>it \<in> set items. holds_layer M bs c' l it (it_end it)) \<and>
     (\<forall>l'. l' \<noteq> l \<longrightarrow> kv_data c' ! l' = kv_data c ! l')"
proof -
  note L = layout_okD [OF lay]
  let ?W = "model_layers M ! l"
  obtain kf vf where kv: "kv_data c ! l = (kf, vf)" by (cases "kv_data c ! l")
  have lc: "l < length (kv_data c)" using shape ok(2) by (simp add: cache_shape_def)
  have lens: "length kf = slots" "length vf = slots"
    using shape lc kv by (auto simp: cache_shape_def list_all_length)
  have flat: "kv_flat c l = Inr (kf, vf)" using lc kv by (simp add: kv_flat_def)
  define qr where "qr = (\<lambda>it. map (ref_q M (it_tokens it) l) [it_start it..<it_end it])"
  define kr where "kr = (\<lambda>it. map (ref_k M (it_tokens it) l) [it_start it..<it_end it])"
  define vr where "vr = (\<lambda>it. map (ref_v M (it_tokens it) l) [it_start it..<it_end it])"
  have rows: "mapM (\<lambda>(p, x). qkv_row M ?W p x)
      (zip (batch_positions items) (map (rms_norm (ops M) (input_layernorm ?W)) (ref_rows M items l)))
    = Inr (batch_rows items (\<lambda>it p. qkv_of M l p (ref_hidden M (it_tokens it) l p)))"
    unfolding batch_positions_def ref_rows_def map_batch_rows zip_batch_rows
    by (rule mapM_batch_rows) (use qkv_row_ok(1) [OF ok] pos in force)
  have qkv: "map fst (batch_rows items (\<lambda>it p. qkv_of M l p (ref_hidden M (it_tokens it) l p))) = concat (map qr items)"
    "map (fst \<circ> snd) (batch_rows items (\<lambda>it p. qkv_of M l p (ref_hidden M (it_tokens it) l p))) = concat (map kr items)"
    "map (snd \<circ> snd) (batch_rows items (\<lambda>it p. qkv_of M l p (ref_hidden M (it_tokens it) l p))) = concat (map vr items)"
    unfolding map_batch_rows by (simp_all add: batch_rows_def qr_def kr_def vr_def ref_q_def [abs_def] ref_k_def [abs_def] ref_v_def [abs_def])
  have lay': "layout_ok bs (length kf) items" using lay lens by simp
  have lr: "length (qr it) = it_new it" "length (kr it) = it_new it" "length (vr it) = it_new it" for it
    by (simp_all add: qr_def kr_def vr_def it_end_def)
  have lvk: "length vf = length kf" using lens by simp
  from naive_call_items [OF lay' flat lvk, of qr kr vr "attend_fn (ops M)" junk] lr obtain kf' vf' where
    call: "naive_call (attend_fn (ops M)) junk (items_meta bs items) l (concat (map qr items)) (concat (map kr items))
        (concat (map vr items)) c
      = Inr (set_flat c l (kf', vf'), concat (map (item_attention (attend_fn (ops M)) bs qr kf' vf') items))"
    and wk: "written bs items kr kf kf'" and wv: "written bs items vr vf vf'" by blast
  define c' where "c' = set_flat c l (kf', vf')"
  have c'l: "kv_data c' ! l = (kf', vf')" "\<And>l'. l' \<noteq> l \<Longrightarrow> kv_data c' ! l' = kv_data c ! l'"
    using lc by (simp_all add: c'_def set_flat_def)
  have slot: "f' ! it_slot bs it p = r M (it_tokens it) l p"
    if w: "written bs items (\<lambda>it. map (r M (it_tokens it) l) [it_start it..<it_end it]) f f'" and it: "it \<in> set items"
      and p: "p < it_end it" and old: "\<forall>p < it_start it. f ! it_slot bs it p = r M (it_tokens it) l p"
    for f f' :: "'a row list" and r and it p
  proof (cases "p < it_start it")
    case True
    with L(7) [OF it True] w old show ?thesis by (simp add: written_def)
  next
    case False
    then have j: "p = it_start it + (p - it_start it)" "p - it_start it < it_new it"
      using p by (simp_all add: it_end_def)
    have "f' ! it_slot bs it (it_start it + (p - it_start it))
        = map (r M (it_tokens it) l) [it_start it..<it_end it] ! (p - it_start it)"
      using w it j(2) unfolding written_def by blast
    with j False p show ?thesis by simp
  qed
  have old: "\<forall>p < it_start it. kf ! it_slot bs it p = ref_k M (it_tokens it) l p"
    "\<forall>p < it_start it. vf ! it_slot bs it p = ref_v M (it_tokens it) l p" if "it \<in> set items" for it
    using held [OF that] kv by (simp_all add: holds_layer_def)
  have new: "holds_layer M bs c' l it (it_end it)" if it: "it \<in> set items" for it
    unfolding holds_layer_def c'l(1) fst_conv snd_conv
  proof (intro allI impI conjI)
    fix p assume p: "p < it_end it"
    show "kf' ! it_slot bs it p = ref_k M (it_tokens it) l p"
      by (rule slot [of ref_k kf]) (use wk it p old(1) [OF it] in \<open>simp_all add: kr_def\<close>)
    show "vf' ! it_slot bs it p = ref_v M (it_tokens it) l p"
      by (rule slot [of ref_v vf]) (use wv it p old(2) [OF it] in \<open>simp_all add: vr_def\<close>)
  qed
  have "item_attention (attend_fn (ops M)) bs qr kf' vf' it = map (ref_attn M (it_tokens it) l) [it_start it..<it_end it]"
    if it: "it \<in> set items" for it
    unfolding qr_def
    by (rule item_attention_ref [OF ok pos [OF it] L(3) [OF it]])
      (use new [OF it] c'l(1) in \<open>simp_all add: held_rows_def holds_layer_def\<close>)
  then have out: "concat (map (item_attention (attend_fn (ops M)) bs qr kf' vf') items)
      = batch_rows items (\<lambda>it. ref_attn M (it_tokens it) l)"
    unfolding batch_rows_def by (intro arg_cong [of _ _ concat] map_cong refl) simp
  have lens': "length kf' = slots" "length vf' = slots" using wk wv lens by (simp_all add: written_def)
  have "cache_shape M slots c'"
    unfolding cache_shape_def list_all_length
  proof (intro conjI allI impI)
    show "length (kv_data c') = length (model_layers M)"
      using shape by (simp add: cache_shape_def c'_def set_flat_def)
    fix n assume "n < length (kv_data c')"
    then have "n < length (kv_data c)" by (simp add: c'_def set_flat_def)
    then show "length (fst (kv_data c' ! n)) = slots" "length (snd (kv_data c' ! n)) = slots"
      using shape lens' c'l by (cases "n = l"; simp add: cache_shape_def list_all_length)+
  qed
  moreover have "only_written (all_writes bs items) c c'"
    using wk wv kv lc by (auto simp: only_written_def c'_def set_flat_def written_def nth_list_update)
  moreover have "self_attention M ?W l (naive_fn M junk (items_meta bs items)) (batch_positions items)
        (map (rms_norm (ops M) (input_layernorm ?W)) (ref_rows M items l)) c
      = Inr (c', batch_rows items (\<lambda>it p. linear (o_proj ?W) (concat (ref_attn M (it_tokens it) l p))))"
    unfolding self_attention_def rows rbind_simps qkv naive_fn_def call out c'_def [symmetric] prod.case
    unfolding map_batch_rows ..
  ultimately show ?thesis using new c'l(2) by blast
qed

section \<open>All layers\<close>

text \<open>What holds after the first \<open>l\<close> layers of a step.\<close>

definition layers_done ::
  "('a::field) model \<Rightarrow> nat \<Rightarrow> nat \<Rightarrow> batch_item list \<Rightarrow> 'a kv_cache \<Rightarrow> nat \<Rightarrow> 'a kv_cache \<Rightarrow> bool" where
  "layers_done M bs slots items c0 l c \<longleftrightarrow>
     cache_shape M slots c \<and> only_written (all_writes bs items) c0 c \<and>
     (\<forall>l' < length (model_layers M). \<forall>it \<in> set items.
        holds_layer M bs c l' it (if l' < l then it_end it else it_start it))"

lemma decoder_layer_items:
  assumes ok: "model_ok M" "l < length (model_layers M)"
    and pos: "\<And>it. it \<in> set items \<Longrightarrow> it_end it \<le> max_positions M"
    and lay: "layout_ok bs slots items" and d: "layers_done M bs slots items c0 l c"
  shows "\<exists>c'. decoder_layer M (naive_fn M junk (items_meta bs items)) (batch_positions items) (c, ref_rows M items l) l
      = Inr (c', ref_rows M items (Suc l)) \<and> layers_done M bs slots items c0 (Suc l) c'"
proof -
  let ?W = "model_layers M ! l"
  have shape: "cache_shape M slots c" and ow: "only_written (all_writes bs items) c0 c"
    and held: "\<And>l' it. l' < length (model_layers M) \<Longrightarrow> it \<in> set items \<Longrightarrow>
        holds_layer M bs c l' it (if l' < l then it_end it else it_start it)"
    using d by (simp_all add: layers_done_def)
  have "holds_layer M bs c l it (it_start it)" if "it \<in> set items" for it
    using held [OF ok(2) that] by simp
  from self_attention_items [OF ok pos lay shape this, where junk = junk] obtain c' where
    att: "self_attention M ?W l (naive_fn M junk (items_meta bs items)) (batch_positions items)
        (map (rms_norm (ops M) (input_layernorm ?W)) (ref_rows M items l)) c
      = Inr (c', batch_rows items (\<lambda>it p. linear (o_proj ?W) (concat (ref_attn M (it_tokens it) l p))))"
    and c': "cache_shape M slots c'" "only_written (all_writes bs items) c c'"
      "\<forall>it \<in> set items. holds_layer M bs c' l it (it_end it)" "\<forall>l'. l' \<noteq> l \<longrightarrow> kv_data c' ! l' = kv_data c ! l'"
    by blast
  have "map (\<lambda>x. vec_add x (mlp M ?W (rms_norm (ops M) (post_attention_layernorm ?W) x)))
      (map2 vec_add (ref_rows M items l)
        (batch_rows items (\<lambda>it p. linear (o_proj ?W) (concat (ref_attn M (it_tokens it) l p)))))
    = ref_rows M items (Suc l)"
    unfolding ref_rows_def map2_batch_rows map_batch_rows ref_hidden_Suc ref_attn_def layer_out_def Let_def ..
  then have run: "decoder_layer M (naive_fn M junk (items_meta bs items)) (batch_positions items) (c, ref_rows M items l) l
      = Inr (c', ref_rows M items (Suc l))"
    using att by (simp add: decoder_layer_def Let_def)
  have "holds_layer M bs c' l' it (if l' < Suc l then it_end it else it_start it)"
    if l': "l' < length (model_layers M)" and it: "it \<in> set items" for l' it
  proof (cases "l' = l")
    case False
    have "holds_layer M bs c' l' it n = holds_layer M bs c l' it n" for n
      using False c'(4) by (simp add: holds_layer_def)
    with held [OF l' it] False show ?thesis by (simp add: less_Suc_eq)
  qed (use c'(3) it in simp)
  then have "layers_done M bs slots items c0 (Suc l) c'"
    using c'(1) only_written_trans [OF ow c'(2)] by (simp add: layers_done_def)
  with run show ?thesis by blast
qed

lemma layers_loop:
  assumes ok: "model_ok M" and pos: "\<And>it. it \<in> set items \<Longrightarrow> it_end it \<le> max_positions M"
    and lay: "layout_ok bs slots items" and d: "layers_done M bs slots items c0 0 c0"
    and l: "l \<le> length (model_layers M)"
  shows "\<exists>c. foldM (decoder_layer M (naive_fn M junk (items_meta bs items)) (batch_positions items))
        (c0, ref_rows M items 0) [0..<l] = Inr (c, ref_rows M items l) \<and> layers_done M bs slots items c0 l c"
  using l
proof (induction l)
  case 0
  then show ?case using d by simp
next
  case (Suc l)
  then obtain c where c: "foldM (decoder_layer M (naive_fn M junk (items_meta bs items)) (batch_positions items))
        (c0, ref_rows M items 0) [0..<l] = Inr (c, ref_rows M items l)" "layers_done M bs slots items c0 l c" by auto
  have "l < length (model_layers M)" using Suc.prems by simp
  from decoder_layer_items [OF ok this pos lay c(2), where junk = junk] c(1) show ?case
    by (auto simp: foldM_append)
qed

definition final_rows :: "('a::field) model \<Rightarrow> batch_item list \<Rightarrow> 'a list list" where
  "final_rows M items = batch_rows items (\<lambda>it p.
     rms_norm (ops M) (final_norm M) (ref_hidden M (it_tokens it) (length (model_layers M)) p))"

definition batch_ids :: "batch_item list \<Rightarrow> int list" where
  "batch_ids items = batch_rows items (\<lambda>it p. it_tokens it ! p)"

lemma forward_items:
  assumes ok: "model_ok M" and toks: "\<And>it. it \<in> set items \<Longrightarrow> tokens_ok M (it_tokens it)"
    and lay: "layout_ok bs slots items" and shape: "cache_shape M slots c"
    and held: "\<And>it. it \<in> set items \<Longrightarrow> holds M bs c it (it_start it)"
  shows "\<exists>c'. qwen_forward M (naive_fn M junk (items_meta bs items)) (batch_ids items) (batch_positions items) c
      = Inr (c', final_rows M items) \<and> cache_shape M slots c' \<and> only_written (all_writes bs items) c c' \<and>
     (\<forall>it \<in> set items. holds M bs c' it (it_end it))"
proof -
  note L = layout_okD [OF lay]
  have pos: "it_end it \<le> max_positions M" if "it \<in> set items" for it
    using L(5) [OF that] toks [OF that] by (simp add: tokens_ok_def)
  have emb: "mapM (embed M) (batch_ids items) = Inr (ref_rows M items 0)"
    unfolding batch_ids_def ref_rows_def
  proof (rule mapM_batch_rows)
    fix it p assume it: "it \<in> set items" and p: "it_start it \<le> p" "p < it_end it"
    then have "p < length (it_tokens it)" using L(5) [OF it] by simp
    then have "0 \<le> it_tokens it ! p \<and> nat (it_tokens it ! p) < length (embed_tokens M)"
      using toks [OF it] by (simp add: tokens_ok_def list_all_length)
    then show "embed M (it_tokens it ! p) = Inr (ref_hidden M (it_tokens it) 0 p)"
      by (simp add: embed_def)
  qed
  have d: "layers_done M bs slots items c 0 c"
    using shape held by (simp add: layers_done_def holds_def)
  from layers_loop [OF ok pos lay d order.refl, where junk = junk] obtain c' where
    c': "foldM (decoder_layer M (naive_fn M junk (items_meta bs items)) (batch_positions items)) (c, ref_rows M items 0)
        [0..<length (model_layers M)] = Inr (c', ref_rows M items (length (model_layers M)))"
      "layers_done M bs slots items c (length (model_layers M)) c'" by blast
  have "map (rms_norm (ops M) (final_norm M)) (ref_rows M items (length (model_layers M))) = final_rows M items"
    by (simp add: ref_rows_def final_rows_def map_batch_rows)
  then have "qwen_forward M (naive_fn M junk (items_meta bs items)) (batch_ids items) (batch_positions items) c
      = Inr (c', final_rows M items)"
    using emb c'(1) by (simp add: qwen_forward_def)
  then show ?thesis using c'(2) by (intro exI [of _ c']) (simp add: layers_done_def holds_def)
qed

section \<open>The contiguous backend\<close>

lemma mapM_map_ok: "(\<And>x. x \<in> set xs \<Longrightarrow> f (g x) = Inr (h x)) \<Longrightarrow> mapM f (map g xs) = Inr (map h xs)"
  by (induction xs) simp_all

definition contiguous_fn :: "('a::field) model \<Rightarrow> ('a, 'a contiguous) attention_fn" where
  "contiguous_fn M layer q k v st = contiguous_call (attend_fn (ops M)) st layer q k v"

text \<open>The cache of one sequence, with \<open>n l\<close> positions computed in layer \<open>l\<close>.\<close>

definition contiguous_entry :: "('a::field) model \<Rightarrow> int list \<Rightarrow> nat \<Rightarrow> nat \<Rightarrow> ('a row list \<times> 'a row list) option" where
  "contiguous_entry M toks l n =
     (if n = 0 then None else Some (map (ref_k M toks l) [0..<n], map (ref_v M toks l) [0..<n]))"

definition contiguous_at :: "('a::field) model \<Rightarrow> int list \<Rightarrow> (nat \<Rightarrow> nat) \<Rightarrow> 'a contiguous" where
  "contiguous_at M toks n = map (\<lambda>l. contiguous_entry M toks l (n l)) [0..<length (model_layers M)]"

definition whole_item :: "int list \<Rightarrow> nat \<Rightarrow> nat \<Rightarrow> batch_item" where
  "whole_item toks c e = \<lparr>it_tokens = toks, it_start = c, it_new = e - c, it_table = [0..<e]\<rparr>"

lemma single_rows:
  assumes "c \<le> e"
  shows "batch_rows [whole_item toks c e] g = map (g (whole_item toks c e)) [c..<e]"
  using assms by (simp add: batch_rows_def whole_item_def it_end_def)

lemma upt_split: "c \<le> e \<Longrightarrow> [0..<e] = [0..<c] @ [c..<e]"
  using upt_add_eq_append [of 0 c "e - c"] by simp

lemma contiguous_call_ref:
  assumes ok: "model_ok M" "l < length (model_layers M)" and ce: "c < e" "e \<le> max_positions M" and n: "n l = c"
  shows "contiguous_call (attend_fn (ops M)) (contiguous_at M toks n) l (map (ref_q M toks l) [c..<e])
      (map (ref_k M toks l) [c..<e]) (map (ref_v M toks l) [c..<e])
    = Inr (contiguous_at M toks (n(l := e)), map (ref_attn M toks l) [c..<e])"
proof -
  let ?it = "whole_item toks c e"
  have it: "it_end ?it = e" "it_start ?it = c" "it_tokens ?it = toks" "it_new ?it = e - c"
    using ce by (simp_all add: whole_item_def it_end_def)
  have slot: "it_slot 1 ?it p = p" if "p < e" for p using that by (simp add: it_slot_def slot_at_def whole_item_def)
  have held: "held_rows 1 ?it (map f [0..<e]) = map f [0..<e]" for f :: "nat \<Rightarrow> 'a row"
    unfolding held_rows_def it by (rule map_cong) (simp_all add: slot [unfolded One_nat_def])
  have att: "causal_attention (attend_fn (ops M)) (map (ref_q M toks l) [c..<e])
      (map (ref_k M toks l) [0..<e]) (map (ref_v M toks l) [0..<e]) = map (ref_attn M toks l) [c..<e]"
    using item_attention_ref [of M l ?it 1 "map (ref_k M toks l) [0..<e]" "map (ref_v M toks l) [0..<e]"]
      ok ce held by (simp add: item_attention_def it)
  have get: "list_get (contiguous_at M toks n) l = Inr (contiguous_entry M toks l c)"
    using ok(2) n by (simp add: contiguous_at_def)
  have join: "map f [0..<c] @ map f [c..<e] = map f [0..<e]" for f :: "nat \<Rightarrow> 'a row"
    using ce by (simp add: upt_split [of c e])
  have upd: "(contiguous_at M toks n)[l := Some (map (ref_k M toks l) [0..<e], map (ref_v M toks l) [0..<e])]
      = contiguous_at M toks (n(l := e))"
    using ce by (intro nth_equalityI) (auto simp: contiguous_at_def contiguous_entry_def nth_list_update)
  show ?thesis
    unfolding contiguous_call_def get rbind_simps
    using att upd join ce by (cases "c = 0") (simp_all add: contiguous_entry_def Let_def)
qed

lemma contiguous_layer:
  assumes ok: "model_ok M" "l < length (model_layers M)" and ce: "c < e" "e \<le> max_positions M" and n: "n l = c"
  shows "decoder_layer M (contiguous_fn M) [c..<e] (contiguous_at M toks n, map (ref_hidden M toks l) [c..<e]) l
    = Inr (contiguous_at M toks (n(l := e)), map (ref_hidden M toks (Suc l)) [c..<e])"
proof -
  let ?W = "model_layers M ! l"
  have rows: "mapM (\<lambda>(p, x). qkv_row M ?W p x)
      (zip [c..<e] (map (rms_norm (ops M) (input_layernorm ?W)) (map (ref_hidden M toks l) [c..<e])))
    = Inr (map (\<lambda>p. qkv_of M l p (ref_hidden M toks l p)) [c..<e])"
  proof -
    have "zip ps (map f ps) = map (\<lambda>p. (p, f p)) ps" for f :: "nat \<Rightarrow> 'a list" and ps
      by (induction ps) simp_all
    moreover have "mapM (\<lambda>(p, x). qkv_row M ?W p x) (map (\<lambda>p. (p, rms_norm (ops M) (input_layernorm ?W) (ref_hidden M toks l p))) ps)
        = Inr (map (\<lambda>p. qkv_of M l p (ref_hidden M toks l p)) ps)" if "\<forall>p \<in> set ps. p < max_positions M" for ps
      using that qkv_row_ok(1) [OF ok] by (induction ps) simp_all
    ultimately show ?thesis using ce by (simp add: comp_def)
  qed
  have parts: "map fst (map (\<lambda>p. qkv_of M l p (ref_hidden M toks l p)) [c..<e]) = map (ref_q M toks l) [c..<e]"
    "map (fst \<circ> snd) (map (\<lambda>p. qkv_of M l p (ref_hidden M toks l p)) [c..<e]) = map (ref_k M toks l) [c..<e]"
    "map (snd \<circ> snd) (map (\<lambda>p. qkv_of M l p (ref_hidden M toks l p)) [c..<e]) = map (ref_v M toks l) [c..<e]"
    by (simp_all add: ref_q_def ref_k_def ref_v_def)
  have att: "self_attention M ?W l (contiguous_fn M) [c..<e]
        (map (rms_norm (ops M) (input_layernorm ?W)) (map (ref_hidden M toks l) [c..<e])) (contiguous_at M toks n)
    = Inr (contiguous_at M toks (n(l := e)), map (\<lambda>p. linear (o_proj ?W) (concat (ref_attn M toks l p))) [c..<e])"
    unfolding self_attention_def rows rbind_simps parts contiguous_fn_def contiguous_call_ref [where n = n, OF ok ce n] prod.case
    by (simp add: comp_def)
  have "map2 vec_add (map f ps) (map g ps) = map (\<lambda>p. vec_add (f p) (g p)) ps" for f g :: "nat \<Rightarrow> 'a list" and ps
    by (induction ps) simp_all
  then show ?thesis
    unfolding decoder_layer_def prod.case Let_def att rbind_simps
    by (simp add: ref_hidden_Suc layer_out_def Let_def ref_attn_def del: upt_Suc)
qed

lemma contiguous_forward:
  assumes ok: "model_ok M" and toks: "tokens_ok M toks" and ce: "c < e" "e \<le> length toks"
  shows "qwen_forward M (contiguous_fn M) (map ((!) toks) [c..<e]) [c..<e] (contiguous_at M toks (\<lambda>_. c))
    = Inr (contiguous_at M toks (\<lambda>_. e),
        map (\<lambda>p. rms_norm (ops M) (final_norm M) (ref_hidden M toks (length (model_layers M)) p)) [c..<e])"
proof -
  let ?N = "length (model_layers M)"
  have e: "e \<le> max_positions M" using toks ce by (simp add: tokens_ok_def)
  have emb: "mapM (embed M) (map ((!) toks) ps) = Inr (map (ref_hidden M toks 0) ps)" if "\<forall>p \<in> set ps. p < length toks" for ps
  proof (rule mapM_map_ok)
    fix p assume "p \<in> set ps"
    then have "0 \<le> toks ! p \<and> nat (toks ! p) < length (embed_tokens M)"
      using that toks by (simp add: tokens_ok_def list_all_length)
    then show "embed M (toks ! p) = Inr (ref_hidden M toks 0 p)" by (simp add: embed_def)
  qed
  have loop: "foldM (decoder_layer M (contiguous_fn M) [c..<e]) (contiguous_at M toks (\<lambda>_. c), map (ref_hidden M toks 0) [c..<e]) [0..<l]
      = Inr (contiguous_at M toks (\<lambda>l'. if l' < l then e else c), map (ref_hidden M toks l) [c..<e])" if "l \<le> ?N" for l
    using that
  proof (induction l)
    case (Suc l)
    have "(\<lambda>l'. if l' < l then e else c)(l := e) = (\<lambda>l'. if l' < Suc l then e else c)" by auto
    then show ?case
      using Suc contiguous_layer [OF ok _ ce(1) e, of l "\<lambda>l'. if l' < l then e else c" toks] by (simp add: foldM_append)
  qed simp
  have "contiguous_at M toks (\<lambda>l'. if l' < ?N then e else c) = contiguous_at M toks (\<lambda>_. e)"
    by (simp add: contiguous_at_def)
  then show ?thesis
    using emb [of "[c..<e]"] loop [OF order.refl] ce by (simp add: qwen_forward_def comp_def)
qed

lemma contiguous_start: "contiguous_at M toks (\<lambda>_. 0) = init_contiguous (length (model_layers M))"
  by (rule nth_equalityI) (simp_all add: contiguous_at_def contiguous_entry_def init_contiguous_def)

end
