(* ===== verification/Cuda_Graphs.thy ===== *)
theory Cuda_Graphs
  imports Runner_Prepare Qwen3 Config
begin

text \<open>
  \<open>engine/core/cuda_graphs.py\<close>: the bucketed batch sizes, when a batch may be replayed from a captured
  graph, the padded input buffers, and the replay. Replaying a graph runs the captured forward pass on
  the current contents of its buffers, so the model of a replay is the forward pass itself.
\<close>

definition bucket_sizes :: "int list" where
  "bucket_sizes = [1, 2, 4, 8, 16, 24, 32, 48, 64, 96, 128, 160, 192, 224, 256, 320, 384, 448, 512]"

definition graph_buckets :: "int \<Rightarrow> int list" where
  "graph_buckets max_seqs = filter (\<lambda>b. b < max_seqs) bucket_sizes @ [max_seqs]"

definition max_pages :: "engine_config \<Rightarrow> int" where
  "max_pages c = last (graph_buckets (cfg_max_num_seqs c)) * ceil_div (the (cfg_max_model_len c)) (nat (cfg_block_size c))"

definition can_run :: "int list \<Rightarrow> scheduled_batch \<Rightarrow> bool" where
  "can_run buckets b \<longleftrightarrow>
     int (length (b_seqs b)) \<le> last buckets \<and> list_all (\<lambda>n. n = 1) (num_new_tokens b) \<and>
     list_all (\<lambda>d. d) (do_sample b)"

text \<open>\<open>next(b for b in buckets if b >= n)\<close>\<close>

definition pick_bucket :: "int list \<Rightarrow> int \<Rightarrow> int result" where
  "pick_bucket buckets n =
     (case List.find (\<lambda>b. b \<ge> n) buckets of None \<Rightarrow> Inl StopIteration | Some b \<Rightarrow> Inr b)"

record graph_inputs =
  gi_ids :: "int list"
  gi_positions :: "nat list"
  gi_slots :: "nat list"
  gi_tables :: "nat list list"
  gi_kv_lens :: "nat list"

definition graph_row :: "nat \<Rightarrow> sequence \<Rightarrow> (int \<times> nat \<times> nat \<times> nat list) result" where
  "graph_row bs q =
     (let pos = nat (num_computed_tokens q) in
      rbind (list_get (token_ids q) pos) (\<lambda>t.
      rbind (slot_of bs (block_table q) pos) (\<lambda>slot. Inr (t, pos, slot, trim_table bs q (pos + 1)))))"

definition graph_pad :: "nat \<Rightarrow> nat \<Rightarrow> nat \<Rightarrow> (int \<times> nat \<times> nat \<times> nat list) list \<Rightarrow> graph_inputs" where
  "graph_pad bs scratch sz rows =
     (let k = sz - length rows in
      \<lparr>gi_ids = map fst rows @ replicate k 0,
       gi_positions = map (fst \<circ> snd) rows @ replicate k 0,
       gi_slots = map (fst \<circ> snd \<circ> snd) rows @ replicate k (scratch * bs),
       gi_tables = map (snd \<circ> snd \<circ> snd) rows @ replicate k [scratch],
       gi_kv_lens = map (\<lambda>row. fst (snd row) + 1) rows @ replicate k 1\<rparr>)"

definition graph_prepare :: "nat \<Rightarrow> nat \<Rightarrow> nat \<Rightarrow> seq_store \<Rightarrow> scheduled_batch \<Rightarrow> graph_inputs result" where
  "graph_prepare bs scratch sz st b =
     rbind (mapM (\<lambda>r. graph_row bs (st r)) (b_seqs b)) (\<lambda>rows. Inr (graph_pad bs scratch sz rows))"

text \<open>
  \<open>_GraphDecodeAttention\<close>: write the new K and V, then the planned decode kernel. \<open>krn\<close> is the
  FlashInfer wrapper's \<open>run\<close>.
\<close>

type_synonym 'a kernel = "flash_plan \<Rightarrow> 'a row list \<Rightarrow> ('a row list list \<times> 'a row list list) \<Rightarrow> 'a row list"

definition slots_meta :: "nat list \<Rightarrow> attention_metadata" where
  "slots_meta slots =
     \<lparr>query_lens = [], kv_lens = [], query_start = [0], slot_mapping = slots, kv_slots = None,
      kv_start = None, block_tables = None\<rparr>"

definition graph_attention :: "'a kernel \<Rightarrow> page_index \<Rightarrow> nat list \<Rightarrow> ('a, 'a kv_cache) attention_fn" where
  "graph_attention krn pidx slots layer q k v c =
     flash_call krn (slots_meta slots) \<lparr>decode_only = True, qo_indptr = None, pages_plan = pidx\<rparr> layer q k v c"

definition graph_run ::
  "('a::field) model \<Rightarrow> 'a kernel \<Rightarrow> int list \<Rightarrow> seq_store \<Rightarrow> scheduled_batch \<Rightarrow> 'a kv_cache
     \<Rightarrow> ('a kv_cache \<times> 'a list list) result" where
  "graph_run M krn buckets st b c =
     (let n = length (b_seqs b); bs = kv_block_size c in
      rbind (pick_bucket buckets (int n)) (\<lambda>sz.
      rbind (graph_prepare bs (scratch_block c) (nat sz) st b) (\<lambda>gi.
      let pidx = paged_kv_index (gi_tables gi) (gi_kv_lens gi) bs in
      rbind (qwen_forward M (graph_attention krn pidx (gi_slots gi)) (gi_ids gi) (gi_positions gi) c) (\<lambda>(c', out).
        Inr (c', compute_logits M (take n out))))))"

end
