(* ===== verification/Model_Runner.thy ===== *)
theory Model_Runner
  imports Cuda_Graphs
begin

text \<open>
  \<open>engine/core/model_runner.py\<close>: \<open>execute\<close> with its swaps, backends and early returns, and the sizing
  of the cache. A swap moves whole pages of every layer between the device cache and the host cache.
\<close>

section \<open>Swapping\<close>

type_synonym 'a host_pages = "('a row list list \<times> 'a row list list) list"

record 'a device =
  dev_cache :: "'a kv_cache"
  host_cache :: "'a host_pages option"

definition copy_pages :: "'p list \<Rightarrow> nat list \<Rightarrow> 'p list \<Rightarrow> nat list \<Rightarrow> 'p list result" where
  "copy_pages src src_ids dst dst_ids = rbind (index_select src src_ids) (index_copy dst dst_ids)"

definition swap_out_layer ::
  "nat \<Rightarrow> (nat \<times> nat) list \<Rightarrow> ('a row list \<times> 'a row list) \<times> ('a row list list \<times> 'a row list list)
     \<Rightarrow> ('a row list list \<times> 'a row list list) result" where
  "swap_out_layer bs pairs x = (case x of ((k, v), (hk, hv)) \<Rightarrow>
     rbind (copy_pages (pages_of bs k) (map fst pairs) hk (map snd pairs)) (\<lambda>hk'.
     rbind (copy_pages (pages_of bs v) (map fst pairs) hv (map snd pairs)) (\<lambda>hv'. Inr (hk', hv'))))"

definition run_swap_out :: "'a device \<Rightarrow> (nat \<times> nat) list \<Rightarrow> 'a device result" where
  "run_swap_out d pairs =
     (case host_cache d of
        None \<Rightarrow> Inl TypeError
      | Some host \<Rightarrow>
          rbind (mapM (swap_out_layer (kv_block_size (dev_cache d)) pairs) (zip (kv_data (dev_cache d)) host)) (\<lambda>host'.
            Inr (d\<lparr>host_cache := Some host'\<rparr>)))"

definition swap_in_layer ::
  "nat \<Rightarrow> (nat \<times> nat) list \<Rightarrow> ('a row list \<times> 'a row list) \<times> ('a row list list \<times> 'a row list list)
     \<Rightarrow> ('a row list \<times> 'a row list) result" where
  "swap_in_layer bs pairs x = (case x of ((k, v), (hk, hv)) \<Rightarrow>
     rbind (copy_pages hk (map fst pairs) (pages_of bs k) (map snd pairs)) (\<lambda>k'.
     rbind (copy_pages hv (map fst pairs) (pages_of bs v) (map snd pairs)) (\<lambda>v'. Inr (concat k', concat v'))))"

definition run_swap_in :: "'a device \<Rightarrow> (nat \<times> nat) list \<Rightarrow> 'a device result" where
  "run_swap_in d pairs =
     (case host_cache d of
        None \<Rightarrow> Inl TypeError
      | Some host \<Rightarrow>
          rbind (mapM (swap_in_layer (kv_block_size (dev_cache d)) pairs) (zip (kv_data (dev_cache d)) host)) (\<lambda>data.
            Inr (d\<lparr>dev_cache := (dev_cache d)\<lparr>kv_data := data\<rparr>\<rparr>)))"

section \<open>One step\<close>

record 'a runner =
  run_model :: "'a model"
  naive_backend :: bool
  flash_kernel :: "'a kernel"
  graph_sizes :: "int list option"
  empty_row :: "nat \<Rightarrow> 'a row"

definition runner_attention ::
  "'a runner \<Rightarrow> attention_metadata \<Rightarrow> flash_plan option \<Rightarrow> ('a, 'a kv_cache) attention_fn" where
  "runner_attention R m plan layer q k v c =
     (case plan of
        None \<Rightarrow> naive_call (attend_fn (ops (run_model R))) (empty_row R) m layer q k v c
      | Some p \<Rightarrow> flash_call (flash_kernel R) m p layer q k v c)"

text \<open>\<open>backend.begin_step\<close>: the naive backend keeps the metadata, FlashInfer plans.\<close>

definition begin_step :: "'a runner \<Rightarrow> attention_metadata \<Rightarrow> nat \<Rightarrow> flash_plan option result" where
  "begin_step R m bs =
     (if naive_backend R then Inr None else rbind (flash_begin_step m bs) (\<lambda>p. Inr (Some p)))"

definition run_forward ::
  "('a::field) runner \<Rightarrow> seq_store \<Rightarrow> scheduled_batch \<Rightarrow> 'a kv_cache
     \<Rightarrow> ('a kv_cache \<times> 'a list list option) result" where
  "run_forward R st b c =
     rbind (prepare (kv_block_size c) (naive_backend R) st b) (\<lambda>(ids, positions, rows, m).
     rbind (begin_step R m (kv_block_size c)) (\<lambda>plan.
     rbind (qwen_forward (run_model R) (runner_attention R m plan) ids positions c) (\<lambda>(c', hidden).
       if \<not> list_ex (\<lambda>d. d) (do_sample b) then Inr (c', None)
       else rbind (index_select hidden rows) (\<lambda>last. Inr (c', Some (compute_logits (run_model R) last))))))"

definition execute ::
  "('a::field) runner \<Rightarrow> 'a device \<Rightarrow> seq_store \<Rightarrow> scheduled_batch \<Rightarrow> ('a device \<times> 'a list list option) result" where
  "execute R d0 st b =
     rbind (if swap_out b \<noteq> [] then run_swap_out d0 (swap_out b) else Inr d0) (\<lambda>d1.
     rbind (if swap_in b \<noteq> [] then run_swap_in d1 (swap_in b) else Inr d1) (\<lambda>d.
       if b_seqs b = [] then Inr (d, None)
       else if (case graph_sizes R of None \<Rightarrow> False | Some sizes \<Rightarrow> can_run sizes b) then
         rbind (graph_run (run_model R) (flash_kernel R) (the (graph_sizes R)) st b (dev_cache d)) (\<lambda>(c, logits).
           Inr (d\<lparr>dev_cache := c\<rparr>, Some logits))
       else
         rbind (run_forward R st b (dev_cache d)) (\<lambda>(c, logits). Inr (d\<lparr>dev_cache := c\<rparr>, logits))))"

section \<open>Sizing\<close>

text \<open>The prompt lengths of the profiling batch: \<open>num_dummy\<close> equal parts, the rest on the last.\<close>

definition profile_lens :: "int \<Rightarrow> int \<Rightarrow> int list" where
  "profile_lens n_tokens n_seqs =
     (let num_dummy = min n_seqs 16;
          lens = replicate (nat num_dummy) (n_tokens div num_dummy)
      in lens[nat num_dummy - 1 := last lens + (n_tokens - sum_list lens)])"

text \<open>
  What is left for the cache, from the measured quantities: the device's free and total bytes, torch's
  peak and reserved bytes. \<open>total * gpu_memory_utilization\<close> and the subtractions are float operations.
\<close>

definition reserved_later :: "engine_config \<Rightarrow> int" where
  "reserved_later c =
     (if cfg_attention_backend c = ''flashinfer'' then 256 * 1024 * 1024 else 0)
     + (if cfg_cuda_graphs c then 512 * 2 ^ 20 else 0)"

definition kv_budget :: "(rat \<Rightarrow> rat) \<Rightarrow> engine_config \<Rightarrow> rat \<Rightarrow> int \<Rightarrow> int \<Rightarrow> int \<Rightarrow> int \<Rightarrow> rat" where
  "kv_budget rnd c util free total_mem peak reserved =
     (let non_torch = (total_mem - free) - reserved
      in rnd (rnd (rnd (rnd (of_int total_mem * util) - of_int peak) - of_int non_torch) - of_int (reserved_later c)))"

definition profile_blocks :: "(rat \<Rightarrow> rat) \<Rightarrow> engine_config \<Rightarrow> rat \<Rightarrow> int \<Rightarrow> int \<Rightarrow> int \<Rightarrow> int \<Rightarrow> nat \<Rightarrow> int result" where
  "profile_blocks rnd c util free total_mem peak reserved block_bytes =
     (let num_blocks = \<lfloor>kv_budget rnd c util free total_mem peak reserved / of_nat block_bytes\<rfloor>
      in if num_blocks < 1 then Inl (RuntimeError ''no GPU memory left for the KV cache'') else Inr num_blocks)"

end
