(* ===== verification/Runner_Ok.thy ===== *)
theory Runner_Ok
  imports Paged_Forward Model_Runner Scheduler_Check
begin

text \<open>
  The model runner on batches the scheduler produces: \<open>prepare\<close> raises nothing and lays the batch out as
  the forward pass expects, and the logits it returns are those of the reference semantics.
\<close>

section \<open>Preparing a scheduled batch\<close>

definition item_of :: "sequence \<Rightarrow> int \<Rightarrow> batch_item" where
  "item_of q n =
     \<lparr>it_tokens = token_ids q, it_start = nat (num_computed_tokens q), it_new = nat n, it_table = block_table q\<rparr>"

definition items_of :: "seq_store \<Rightarrow> (sref \<Rightarrow> int) \<Rightarrow> sref list \<Rightarrow> batch_item list" where
  "items_of st p rs = map (\<lambda>r. item_of (st r) (p r)) rs"

definition ready :: "nat \<Rightarrow> sequence \<Rightarrow> int \<Rightarrow> bool" where
  "ready bs q n \<longleftrightarrow>
     0 < bs \<and> 0 \<le> num_computed_tokens q \<and> 1 \<le> n \<and> num_computed_tokens q + n \<le> num_tokens q \<and>
     int (length (block_table q)) = ceil_div (num_computed_tokens q + n) bs"

lemma item_of_fields:
  assumes "ready bs q n"
  shows "int (it_end (item_of q n)) = num_computed_tokens q + n" "1 \<le> it_new (item_of q n)"
    "it_end (item_of q n) \<le> length (token_ids q)" "it_end (item_of q n) \<le> length (block_table q) * bs"
    "it_start (item_of q n) = nat (num_computed_tokens q)" "it_tokens (item_of q n) = token_ids q"
    "it_table (item_of q n) = block_table q" "it_new (item_of q n) = nat n"
proof -
  note R = assms [unfolded ready_def]
  show e: "int (it_end (item_of q n)) = num_computed_tokens q + n"
    using R by (simp add: it_end_def item_of_def)
  then show "it_end (item_of q n) \<le> length (token_ids q)"
    using R by (simp add: num_tokens_def)
  have "num_computed_tokens q + n \<le> int (length (block_table q)) * int bs"
    using R ceil_div_le_iff [of bs "num_computed_tokens q + n" "int (length (block_table q))"] by simp
  then have "int (it_end (item_of q n)) \<le> int (length (block_table q) * bs)" using e by simp
  then show "it_end (item_of q n) \<le> length (block_table q) * bs" by linarith
  show "1 \<le> it_new (item_of q n)" using R by (simp add: item_of_def nat_le_iff le_nat_iff)
qed (simp_all add: item_of_def)

lemma trim_table_ready:
  assumes "ready bs q n"
  shows "trim_table bs q (it_end (item_of q n)) = block_table q"
proof -
  have "ceil_div (int (it_end (item_of q n))) bs = int (length (block_table q))"
    using item_of_fields(1) [OF assms] assms by (simp add: ready_def)
  then show ?thesis by (simp add: trim_table_def py_prefix_nonneg)
qed

lemma prepare_seq_ready:
  assumes "ready bs q n"
  defines "it \<equiv> item_of q n"
  shows "prepare_seq bs q (nat n) = Inr \<lparr>ps_ids = map (\<lambda>p. token_ids q ! p) [it_start it..<it_end it],
      ps_positions = [it_start it..<it_end it], ps_slots = write_slots bs it, ps_table = block_table q, ps_kv_len = it_end it\<rparr>"
proof -
  note F = item_of_fields [OF assms(1), folded it_def]
  have bs: "0 < bs" using assms(1) by (simp add: ready_def)
  have e: "it_end it = it_start it + nat n" by (simp add: it_end_def F(8))
  have "py_slice (token_ids q) (it_start it) (it_end it) = map (\<lambda>p. token_ids q ! p) [it_start it..<it_end it]"
    using F(3) by (intro nth_equalityI) (simp_all add: py_slice_def)
  moreover have "length (map (\<lambda>p. token_ids q ! p) [it_start it..<it_end it]) = nat n" by (simp add: e)
  moreover have "mapM (slot_of bs (block_table q)) [it_start it..<it_end it] = Inr (write_slots bs it)"
    unfolding write_slots_def by (rule mapM_ok) (use bs F(4) in \<open>simp add: slot_of_ok it_slot_def F(7)\<close>)
  moreover have "trim_table bs q (it_start it + nat n) = block_table q"
    using trim_table_ready [OF assms(1), folded it_def] by (simp only: e)
  ultimately show ?thesis
    unfolding prepare_seq_def Let_def F(5) [symmetric] e [symmetric] by (simp add: np_fill_def)
qed

lemma mapM_zip_map:
  "(\<And>x. x \<in> set xs \<Longrightarrow> f (x, g x) = Inr (h x)) \<Longrightarrow> mapM f (zip xs (map g xs)) = Inr (map h xs)"
  by (induction xs) simp_all

lemma prepare_ready:
  assumes rdy: "\<And>r. r \<in> set (b_seqs b) \<Longrightarrow> ready bs (st r) (p r)" and n: "num_new_tokens b = map p (b_seqs b)"
  defines "items \<equiv> items_of st p (b_seqs b)"
  shows "prepare bs True st b = Inr (batch_ids items, batch_positions items,
      logits_indices (offsets 0 (map it_new items)) (do_sample b), items_meta bs items)"
proof -
  define ps where "ps = (\<lambda>r. let it = item_of (st r) (p r) in
      \<lparr>ps_ids = map (\<lambda>p. token_ids (st r) ! p) [it_start it..<it_end it], ps_positions = [it_start it..<it_end it],
       ps_slots = write_slots bs it, ps_table = block_table (st r), ps_kv_len = it_end it\<rparr>)"
  have seqs: "prepare_seqs bs st b = Inr (map ps (b_seqs b))"
    unfolding prepare_seqs_def n
    by (rule mapM_zip_map) (use prepare_seq_ready [OF rdy] in \<open>simp add: ps_def Let_def\<close>)
  have slots: "cached_slots bs (block_table (st r)) (it_end (item_of (st r) (p r)))
      = map (it_slot bs (item_of (st r) (p r))) [0..<it_end (item_of (st r) (p r))]" if "r \<in> set (b_seqs b)" for r
    using cached_slots_eq [OF item_of_fields(4) [OF rdy [OF that]]] item_of_fields(7) [OF rdy [OF that]]
    by (simp add: it_slot_def)
  have all_slots: "map (\<lambda>r. cached_slots bs (block_table (st r)) (it_end (item_of (st r) (p r)))) (b_seqs b)
      = map (\<lambda>r. map (it_slot bs (item_of (st r) (p r))) [0..<it_end (item_of (st r) (p r))]) (b_seqs b)"
    by (rule map_cong [OF refl slots])
  have lens: "map (\<lambda>r. nat (p r)) (b_seqs b) = map it_new items"
    by (simp add: items_def items_of_def item_of_def)
  have sel: "it_tokens (item_of q k) = token_ids q" "it_table (item_of q k) = block_table q" for q k
    by (simp_all add: item_of_def)
  show ?thesis
    unfolding prepare_def seqs rbind_simps Let_def
    using all_slots lens
    by (simp add: n comp_def ps_def Let_def items_meta_def all_writes_def items_def items_of_def batch_ids_def
        batch_positions_def batch_rows_def sel cong: map_cong)
qed

section \<open>Distinct slots\<close>

text \<open>A page a batch writes is at one place of one table only.\<close>

definition writes_private :: "nat \<Rightarrow> batch_item list \<Rightarrow> bool" where
  "writes_private bs items \<longleftrightarrow>
     (\<forall>i < length items. \<forall>k. it_start (items ! i) div bs \<le> k \<and> k < length (it_table (items ! i)) \<longrightarrow>
        (\<forall>j < length items. \<forall>k' < length (it_table (items ! j)).
           it_table (items ! i) ! k = it_table (items ! j) ! k' \<longrightarrow> i = j \<and> k = k'))"

lemma layout_from_private:
  assumes priv: "writes_private bs items" and bs: "0 < bs"
    and it: "\<And>it. it \<in> set items \<Longrightarrow> 1 \<le> it_new it \<and> it_end it \<le> length (it_table it) * bs \<and>
        it_end it \<le> length (it_tokens it) \<and> (\<forall>b \<in> set (it_table it). b < blocks)"
  shows "layout_ok bs (blocks * bs) items"
proof -
  have len: "p div bs < length (it_table (items ! i))" if "i < length items" "p < it_end (items ! i)" for i p
    using it [of "items ! i"] that bs by (simp add: less_mult_imp_div_less)
  have clash: "i = j \<and> p = q"
    if i: "i < length items" "it_start (items ! i) \<le> p" "p < it_end (items ! i)"
      and j: "j < length items" "q < it_end (items ! j)"
      and eq: "it_slot bs (items ! i) p = it_slot bs (items ! j) q" for i j p q
  proof -
    note S = slot_at_inj [OF bs eq [unfolded it_slot_def]]
    have pd: "it_start (items ! i) div bs \<le> p div bs" using i(2) by (rule div_le_mono)
    have "i = j \<and> p div bs = q div bs"
      using priv i(1) j(1) pd len [OF i(1,3)] len [OF j] S(1) unfolding writes_private_def by blast
    then show ?thesis using S(2) by (metis mod_mult_div_eq)
  qed
  have d: "distinct (concat (map (write_slots bs) (take n items)))" if "n \<le> length items" for n
    using that
  proof (induction n)
    case (Suc n)
    then have n: "n < length items" by simp
    have "distinct (write_slots bs (items ! n))"
      unfolding write_slots_def by (auto simp: distinct_map inj_on_def dest!: clash [OF n _ _ n] clash [OF n])
    moreover have "set (write_slots bs (items ! n)) \<inter> set (concat (map (write_slots bs) (take n items))) = {}"
    proof -
      have False if x: "x \<in> set (write_slots bs (items ! n))" "x \<in> set (write_slots bs it)" "it \<in> set (take n items)" for x it
      proof -
        from that(3) obtain m where m: "m < n" "it = items ! m" using n by (auto simp: in_set_conv_nth)
        from x(1) obtain p where p: "it_start (items ! n) \<le> p" "p < it_end (items ! n)" "x = it_slot bs (items ! n) p"
          by (auto simp: write_slots_def)
        from x(2) m(2) obtain q where q: "q < it_end (items ! m)" "x = it_slot bs (items ! m) q"
          by (auto simp: write_slots_def)
        have "m < length items" using m(1) n by simp
        from clash [OF n p(1,2) this q(1)] p(3) q(2) m(1) show False by simp
      qed
      then show ?thesis by auto
    qed
    moreover have "take (Suc n) items = take n items @ [items ! n]" using n by (rule take_Suc_conv_app_nth)
    ultimately show ?case using Suc by auto
  qed simp
  have reads: "it_slot bs it q \<notin> set (all_writes bs items)" if "it \<in> set items" "q < it_start it" for it q
  proof
    assume "it_slot bs it q \<in> set (all_writes bs items)"
    then obtain it' p where w: "it' \<in> set items" "it_start it' \<le> p" "p < it_end it'" "it_slot bs it q = it_slot bs it' p"
      by (auto simp: all_writes_def write_slots_def)
    from that(1) w(1) obtain i j where ij: "i < length items" "items ! i = it'" "j < length items" "items ! j = it"
      by (metis in_set_conv_nth)
    have "q < it_end it" using that(2) by (simp add: it_end_def)
    with clash [of i p j q] ij w have "i = j \<and> p = q" by simp
    with ij w(2) that(2) show False by simp
  qed
  have bound: "it_slot bs it' q < blocks * bs" if "it' \<in> set items" "q < it_end it'" for it' q
    unfolding it_slot_def by (rule slot_at_bound [OF bs]) (use it [OF that(1)] that(2) in auto)
  show ?thesis
    using d [OF order.refl] bs it reads bound by (simp add: layout_ok_def all_writes_def)
qed

end
