(* ===== verification/Runner_Step.thy ===== *)
theory Runner_Step
  imports Runner_Ok
begin

text \<open>
  One step of the model runner on a batch of the scheduler, with the naive paged backend: it raises
  nothing, its logits are those of the reference semantics for the whole token list of every sampling
  sequence, and it extends what the cache holds of every sequence of the batch.
\<close>

section \<open>The scheduler's invariant provides the layout\<close>

definition batch_items_of :: "scheduler \<Rightarrow> (sref \<Rightarrow> int) \<Rightarrow> scheduled_batch \<Rightarrow> batch_item list" where
  "batch_items_of s p b = items_of (store s) p (b_seqs b)"

lemma batch_ready:
  assumes inv: "sinv X s p []" and ok: "batch_ok s p b" and bs: "0 < sch_block_size s" and r: "r \<in> set (b_seqs b)"
  shows "ready (sch_block_size s) (store s r) (p r)"
proof -
  have "running_ok (chunked s) (sch_block_size s) (p r) (store s r)"
    using seqs_invD(1) [OF sinvD(3) [OF inv]] batch_okD(2) [OF ok] r by blast
  then show ?thesis
    using bs batch_okD(3) [OF ok r] by (simp add: running_ok_def ready_def)
qed

lemma count_page_le:
  assumes "r \<in> set rs" and "r' \<in> set rs" and "r \<noteq> r'"
  shows "count (mset (f (st r))) i + count (mset (f (st r'))) i \<le> count (pages f st rs) i"
proof -
  have "pages f st rs = mset (f (st r)) + pages f st (remove1 r rs)" by (rule pages_remove1 [OF assms(1)])
  moreover have "r' \<in> set (remove1 r rs)" using assms(2,3) by simp
  then have "pages f st (remove1 r rs) = mset (f (st r')) + pages f st (remove1 r' (remove1 r rs))"
    by (rule pages_remove1)
  ultimately show ?thesis by simp
qed

text \<open>A page of one's own is at one place of one running table.\<close>

lemma own_page_place:
  assumes inv: "sinv X s p []" and r: "r \<in> set (running s)" and k: "num_registered_blocks (store s r) \<le> k" "k < length (block_table (store s r))"
  shows "block_hash (bm s) ! (block_table (store s r) ! k) = None"
    and "r' \<in> set (running s) \<Longrightarrow> k' < length (block_table (store s r')) \<Longrightarrow>
      block_table (store s r) ! k = block_table (store s r') ! k' \<Longrightarrow> r = r' \<and> k = k'"
proof -
  let ?g = "block_table (store s r) ! k" and ?M = "pages block_table (store s) (running s)"
  have own: "own_pages (bm s) ?M (store s r)" using cache_invD(1) [OF sinvD(7) [OF inv], of r] r by simp
  note O = own_pagesD [OF own k]
  show "block_hash (bm s) ! ?g = None" by (rule O(2))
  assume r': "r' \<in> set (running s)" "k' < length (block_table (store s r'))" "?g = block_table (store s r') ! k'"
  have eq: "r' = r"
  proof (rule ccontr)
    assume ne: "r' \<noteq> r"
    have "?g \<in> set (block_table (store s r'))" using r'(2) by (simp add: r'(3))
    moreover have "?g \<in> set (block_table (store s r))" using k(2) by simp
    ultimately have "count ?M ?g \<noteq> 1"
      using pages_twice [of "running s" r r' ?g block_table "store s"] sinv_distinct [OF inv] r r'(1) ne by auto
    then show False using O(1) by simp
  qed
  have "?M = mset (block_table (store s r)) + pages block_table (store s) (remove1 r (running s))" by (rule pages_remove1 [OF r])
  then have "count (mset (block_table (store s r)) + pages block_table (store s) (remove1 r (running s))) ?g = 1"
    using O(1) by simp
  from count_once(2) [OF this k(2), of k'] r'(2,3) eq show "r = r' \<and> k = k'" by simp
qed

text \<open>The pages from the next token's on are one's own.\<close>

lemma write_page:
  assumes inv: "sinv X s p []" and bs: "0 < sch_block_size s" and r: "r \<in> set (running s)"
    and k: "nat (num_computed_tokens (store s r)) div sch_block_size s \<le> k" "k < length (block_table (store s r))"
  shows "num_registered_blocks (store s r) \<le> k"
proof -
  have b: "block_size (bm s) = sch_block_size s" using sinvD(5) [OF inv] by (simp add: conf_ok_def)
  have own: "own_pages (bm s) (pages block_table (store s) (running s)) (store s r)"
    using cache_invD(1) [OF sinvD(7) [OF inv], of r] r by simp
  show ?thesis by (rule own_pages_write [OF own _ k(2)]) (use b k(1) bs in simp_all)
qed

lemma tables_bounded:
  assumes inv: "sinv X s p []" and "r \<in> set (running s)" and "i \<in> set (block_table (store s r))"
  shows "i < num_blocks (bm s)"
proof -
  have "set_mset (pages block_table (store s) (running s)) \<subseteq> {..<num_blocks (bm s)}"
    using sinvD(1) [OF inv] by (simp add: pages_inv_def bm_inv_def refs_ok_def)
  with pages_member [OF assms(2), of block_table "store s"] assms(3) show ?thesis by auto
qed

text \<open>So what a batch writes it writes to private pages, with prefix caching or without.\<close>

lemma writes_private_batch:
  assumes inv: "sinv X s p []" and ok: "batch_ok s p b" and bs: "0 < sch_block_size s"
  shows "writes_private (sch_block_size s) (batch_items_of s p b)"
  unfolding writes_private_def
proof (intro allI impI)
  fix i k j k'
  let ?r = "b_seqs b ! i" and ?r' = "b_seqs b ! j"
  assume "i < length (batch_items_of s p b)"
    and k: "it_start (batch_items_of s p b ! i) div sch_block_size s \<le> k \<and> k < length (it_table (batch_items_of s p b ! i))"
    and "j < length (batch_items_of s p b)" and k': "k' < length (it_table (batch_items_of s p b ! j))"
    and eq: "it_table (batch_items_of s p b ! i) ! k = it_table (batch_items_of s p b ! j) ! k'"
  then have i: "i < length (b_seqs b)" and j: "j < length (b_seqs b)" by (simp_all add: batch_items_of_def items_of_def)
  have it: "batch_items_of s p b ! i = item_of (store s ?r) (p ?r)" "batch_items_of s p b ! j = item_of (store s ?r') (p ?r')"
    using i j by (simp_all add: batch_items_of_def items_of_def)
  have run: "?r \<in> set (running s)" "?r' \<in> set (running s)" using batch_okD(2) [OF ok] i j nth_mem by blast+
  have kk: "nat (num_computed_tokens (store s ?r)) div sch_block_size s \<le> k" "k < length (block_table (store s ?r))"
    using k by (simp_all add: it item_of_def)
  have "?r = ?r' \<and> k = k'"
    by (rule own_page_place(2) [OF inv run(1) write_page [OF inv bs run(1) kk] kk(2) run(2)])
      (use k' eq in \<open>simp_all add: it item_of_def\<close>)
  then show "i = j \<and> k = k'" using batch_okD(1) [OF ok] i j by (simp add: nth_eq_iff_index_eq)
qed

lemma batch_layout:
  assumes inv: "sinv X s p []" and ok: "batch_ok s p b" and bs: "0 < sch_block_size s"
  shows "layout_ok (sch_block_size s) (Suc (num_blocks (bm s)) * sch_block_size s) (batch_items_of s p b)"
proof (rule layout_from_private [OF writes_private_batch [OF inv ok bs] bs])
  fix it assume "it \<in> set (batch_items_of s p b)"
  then obtain r where r: "r \<in> set (b_seqs b)" "it = item_of (store s r) (p r)"
    by (auto simp: batch_items_of_def items_of_def)
  have run: "r \<in> set (running s)" using batch_okD(2) [OF ok] r(1) by blast
  have "\<forall>i \<in> set (it_table it). i < Suc (num_blocks (bm s))"
    using tables_bounded [OF inv run] by (auto simp: r(2) item_of_def less_SucI)
  then show "1 \<le> it_new it \<and> it_end it \<le> length (it_table it) * sch_block_size s \<and>
      it_end it \<le> length (it_tokens it) \<and> (\<forall>b \<in> set (it_table it). b < Suc (num_blocks (bm s)))"
    using item_of_fields [OF batch_ready [OF inv ok bs r(1)]] by (simp add: r(2))
qed

section \<open>The rows that are sampled\<close>

lemma last_row:
  assumes "i < length xs" and len: "\<And>x. x \<in> set xs \<Longrightarrow> length (f x) = n x" and "0 < n (xs ! i)"
  shows "offsets 0 (map n xs) ! Suc i - 1 < length (concat (map f xs))"
    and "concat (map f xs) ! (offsets 0 (map n xs) ! Suc i - 1) = last (f (xs ! i))"
proof -
  let ?lo = "offsets 0 (map n xs) ! i" and ?hi = "offsets 0 (map n xs) ! Suc i"
  have hi: "?hi = ?lo + n (xs ! i)" using assms(1) by (simp add: nth_offsets take_Suc_conv_app_nth)
  have "?hi = sum_list (map n (take (Suc i) xs))" using assms(1) by (simp add: nth_offsets take_map)
  moreover have "sum_list (map n xs) = sum_list (map n (take (Suc i) xs)) + sum_list (map n (drop (Suc i) xs))"
    by (metis append_take_drop_id map_append sum_list_append)
  moreover have total: "length (concat (map f xs)) = sum_list (map n xs)" by (rule length_concat_map [OF len])
  ultimately have le: "?hi \<le> length (concat (map f xs))" by simp
  with hi assms(3) show bound: "?hi - 1 < length (concat (map f xs))" by simp
  have slice: "py_slice (concat (map f xs)) ?lo ?hi = f (xs ! i)"
    by (rule slice_concat_map [OF assms(1) len])
  have ne: "f (xs ! i) \<noteq> []" using len [of "xs ! i"] assms(1,3) by auto
  have "last (f (xs ! i)) = f (xs ! i) ! (n (xs ! i) - 1)"
    using ne len [of "xs ! i"] assms(1) by (simp add: last_conv_nth)
  also have "\<dots> = concat (map f xs) ! (?lo + (n (xs ! i) - 1))"
    unfolding slice [symmetric] using hi assms(3) le by (simp add: py_slice_def)
  finally show "concat (map f xs) ! (?hi - 1) = last (f (xs ! i))" using hi assms(3) by simp
qed

lemma sampled_rows:
  assumes len: "\<And>x. x \<in> set xs \<Longrightarrow> length (f x) = n x \<and> 0 < n x"
  shows "index_select (concat (map f xs)) (logits_indices (offsets 0 (map n xs)) (map d xs))
    = Inr (map (\<lambda>x. last (f x)) (filter d xs))"
proof -
  have row: "offsets 0 (map n xs) ! Suc i - 1 < length (concat (map f xs))"
    "concat (map f xs) ! (offsets 0 (map n xs) ! Suc i - 1) = last (f (xs ! i))" if "i < length xs" for i
    using last_row [where f = f and n = n, OF that] len nth_mem [OF that] by auto
  have pick: "map (\<lambda>i. last (f (xs ! i))) (filter (\<lambda>i. map d xs ! i) [0..<length xs]) = map (\<lambda>x. last (f x)) (filter d xs)"
  proof -
    have "filter (\<lambda>i. map d xs ! i) [0..<length xs] = filter (d \<circ> (!) xs) [0..<length xs]"
      by (rule filter_cong) simp_all
    then have "map (\<lambda>i. last (f (xs ! i))) (filter (\<lambda>i. map d xs ! i) [0..<length xs])
        = map (\<lambda>x. last (f x)) (map ((!) xs) (filter (d \<circ> (!) xs) [0..<length xs]))" by simp
    also have "map ((!) xs) (filter (d \<circ> (!) xs) [0..<length xs]) = filter d (map ((!) xs) [0..<length xs])"
      by (rule filter_map [symmetric])
    finally show ?thesis by (simp add: map_nth)
  qed
  have "index_select (concat (map f xs)) (logits_indices (offsets 0 (map n xs)) (map d xs))
    = Inr (map ((!) (concat (map f xs))) (logits_indices (offsets 0 (map n xs)) (map d xs)))"
    by (rule index_select_ok) (use row(1) in \<open>auto simp: logits_indices_def\<close>)
  also have "map ((!) (concat (map f xs))) (logits_indices (offsets 0 (map n xs)) (map d xs))
    = map (\<lambda>i. last (f (xs ! i))) (filter (\<lambda>i. map d xs ! i) [0..<length xs])"
    using row(2) by (simp add: logits_indices_def)
  finally show ?thesis unfolding pick .
qed

section \<open>The step\<close>

definition device_ok :: "('a::field) model \<Rightarrow> scheduler \<Rightarrow> 'a kv_cache \<Rightarrow> bool" where
  "device_ok M s c \<longleftrightarrow>
     kv_block_size c = sch_block_size s \<and> 0 < sch_block_size s \<and> scratch_block c = num_blocks (bm s) \<and>
     cache_shape M (Suc (num_blocks (bm s)) * sch_block_size s) c"

definition seq_held :: "('a::field) model \<Rightarrow> 'a kv_cache \<Rightarrow> sequence \<Rightarrow> int \<Rightarrow> bool" where
  "seq_held M c q n \<longleftrightarrow> holds M (kv_block_size c) c (item_of q 0) (nat n)"

lemma holds_item: "holds M bs c (item_of q n) k = holds M bs c (item_of q 0) k"
  by (simp add: holds_def holds_layer_def it_slot_def item_of_def)

lemma ref_logits_last:
  assumes "it_end it = length (it_tokens it)" and "it_start it < it_end it"
  shows "compute_logits M [last (map (\<lambda>p. rms_norm (ops M) (final_norm M)
      (ref_hidden M (it_tokens it) (length (model_layers M)) p)) [it_start it..<it_end it])] = [ref_logits M (it_tokens it)]"
proof -
  have "last (map f [a..<b]) = f (b - 1)" if "a < b" for f :: "nat \<Rightarrow> 'a list" and a b
    using that by (subst last_map) simp_all
  from this [OF assms(2)] show ?thesis by (simp add: compute_logits_def ref_logits_def assms(1))
qed

lemma run_forward_ok:
  assumes inv: "sinv X s p []" and ok: "batch_ok s p b"
    and R: "naive_backend R" "model_ok (run_model R)" and dev: "device_ok (run_model R) s c"
    and toks: "\<And>r. r \<in> set (b_seqs b) \<Longrightarrow> tokens_ok (run_model R) (token_ids (store s r))"
    and held: "\<And>r. r \<in> set (b_seqs b) \<Longrightarrow> seq_held (run_model R) c (store s r) (num_computed_tokens (store s r))"
  shows "\<exists>c'. run_forward R (store s) b c = Inr (c',
        if filter (samples (store s) p) (b_seqs b) = [] then None
        else Some (map (\<lambda>r. ref_logits (run_model R) (token_ids (store s r))) (filter (samples (store s) p) (b_seqs b)))) \<and>
     device_ok (run_model R) s c' \<and> only_written (all_writes (sch_block_size s) (batch_items_of s p b)) c c' \<and>
     (\<forall>r \<in> set (b_seqs b). seq_held (run_model R) c' (store s r) (num_computed_tokens (store s r) + p r))"
proof -
  let ?M = "run_model R" and ?bs = "sch_block_size s" and ?items = "batch_items_of s p b"
  let ?smp = "samples (store s) p"
  have bs: "kv_block_size c = ?bs" "0 < ?bs" using dev by (simp_all add: device_ok_def)
  note B = batch_okD [OF ok]
  have rdy: "ready ?bs (store s r) (p r)" if "r \<in> set (b_seqs b)" for r
    by (rule batch_ready [OF inv ok bs(2) that])
  have lay: "layout_ok ?bs (Suc (num_blocks (bm s)) * ?bs) ?items" by (rule batch_layout [OF inv ok bs(2)])
  have item: "\<exists>r \<in> set (b_seqs b). it = item_of (store s r) (p r)" if "it \<in> set ?items" for it
    using that by (auto simp: batch_items_of_def items_of_def)
  have prep: "prepare ?bs True (store s) b = Inr (batch_ids ?items, batch_positions ?items,
      logits_indices (offsets 0 (map it_new ?items)) (do_sample b), items_meta ?bs ?items)"
    unfolding batch_items_of_def by (rule prepare_ready [OF rdy B(5)])
  have it_toks: "tokens_ok ?M (it_tokens it)" if "it \<in> set ?items" for it
    using item [OF that] toks by (auto simp: item_of_def)
  have it_held: "holds ?M ?bs c it (it_start it)" if it: "it \<in> set ?items" for it
  proof -
    obtain r where r: "r \<in> set (b_seqs b)" "it = item_of (store s r) (p r)" using item [OF it] by blast
    have "it_start it = nat (num_computed_tokens (store s r))" by (simp add: r(2) item_of_def)
    then show ?thesis using held [OF r(1)] by (simp add: r(2) holds_item [where n = "p r"] seq_held_def bs(1))
  qed
  have shape: "cache_shape ?M (Suc (num_blocks (bm s)) * ?bs) c" using dev by (simp add: device_ok_def)
  have fn: "runner_attention R m None = naive_fn ?M (empty_row R) m" for m
    by (intro ext) (simp add: runner_attention_def naive_fn_def)
  from forward_items [OF R(2) it_toks lay shape it_held, where junk = "empty_row R"] obtain c' where
    fwd: "qwen_forward ?M (naive_fn ?M (empty_row R) (items_meta ?bs ?items)) (batch_ids ?items) (batch_positions ?items) c
      = Inr (c', final_rows ?M ?items)"
    and c': "cache_shape ?M (Suc (num_blocks (bm s)) * ?bs) c'" "only_written (all_writes ?bs ?items) c c'"
      "\<forall>it \<in> set ?items. holds ?M ?bs c' it (it_end it)" by blast
  define row where "row = (\<lambda>r. let it = item_of (store s r) (p r) in map (\<lambda>p. rms_norm (ops ?M) (final_norm ?M)
      (ref_hidden ?M (it_tokens it) (length (model_layers ?M)) p)) [it_start it..<it_end it])"
  have fin: "final_rows ?M ?items = concat (map row (b_seqs b))"
    by (simp add: final_rows_def batch_rows_def batch_items_of_def items_of_def row_def Let_def comp_def)
  have lens: "map it_new ?items = map (\<lambda>r. nat (p r)) (b_seqs b)"
    by (simp add: batch_items_of_def items_of_def item_of_def)
  have rows: "index_select (final_rows ?M ?items) (logits_indices (offsets 0 (map it_new ?items)) (do_sample b))
      = Inr (map (\<lambda>r. last (row r)) (filter ?smp (b_seqs b)))"
    unfolding fin lens B(7)
    by (rule sampled_rows) (use B(3) in \<open>force simp: row_def Let_def it_end_def item_of_def\<close>)
  have last: "compute_logits ?M [last (row r)] = [ref_logits ?M (token_ids (store s r))]"
    if r: "r \<in> set (b_seqs b)" "?smp r" for r
  proof -
    note F = item_of_fields [OF rdy [OF r(1)]]
    have "int (it_end (item_of (store s r) (p r))) = int (length (token_ids (store s r)))"
      using F(1) r(2) by (simp add: samples_def num_tokens_def)
    then have e: "it_end (item_of (store s r) (p r)) = length (it_tokens (item_of (store s r) (p r)))"
      by (simp add: F(6))
    have "it_start (item_of (store s r) (p r)) < it_end (item_of (store s r) (p r))"
      using F(2) by (simp add: it_end_def)
    from ref_logits_last [OF e this, of ?M] show ?thesis by (simp add: row_def Let_def F(6))
  qed
  have logits: "compute_logits ?M (map (\<lambda>r. last (row r)) rs) = map (\<lambda>r. ref_logits ?M (token_ids (store s r))) rs"
    if "\<forall>r \<in> set rs. r \<in> set (b_seqs b) \<and> ?smp r" for rs
    using that last by (induction rs) (simp_all add: compute_logits_def)
  have any: "list_ex (\<lambda>d. d) (do_sample b) \<longleftrightarrow> filter ?smp (b_seqs b) \<noteq> []"
    by (simp add: B(7) list_ex_iff filter_empty_conv)
  have res: "run_forward R (store s) b c = Inr (c',
        if filter ?smp (b_seqs b) = [] then None
        else Some (map (\<lambda>r. ref_logits ?M (token_ids (store s r))) (filter ?smp (b_seqs b))))"
    using prep fwd rows any R(1) logits [of "filter ?smp (b_seqs b)"]
    by (simp add: run_forward_def bs(1) begin_step_def fn)
  have same: "kv_block_size c' = kv_block_size c" "scratch_block c' = scratch_block c"
  proof -
    have eq: "c' = c\<lparr>kv_data := kv_data c'\<rparr>" using c'(2) by (simp add: only_written_def)
    show "kv_block_size c' = kv_block_size c" by (subst eq) simp
    show "scratch_block c' = scratch_block c" by (subst eq) simp
  qed
  have "seq_held ?M c' (store s r) (num_computed_tokens (store s r) + p r)" if r: "r \<in> set (b_seqs b)" for r
  proof -
    let ?it = "item_of (store s r) (p r)"
    have "?it \<in> set ?items" using r by (simp add: batch_items_of_def items_of_def)
    then have "holds ?M ?bs c' ?it (it_end ?it)" using c'(3) by blast
    moreover have "it_end ?it = nat (num_computed_tokens (store s r) + p r)"
      using item_of_fields(1) [OF rdy [OF r]] by simp
    ultimately show ?thesis by (simp add: seq_held_def same bs(1) holds_item [where n = "p r"])
  qed
  with res c'(1,2) dev same show ?thesis by (intro exI [of _ c']) (simp add: device_ok_def)
qed

end
