(* ===== verification/Eviction_Flow.thy ===== *)
theory Eviction_Flow
  imports Scheduler_Check
begin

text \<open>
  Where the computed keys and values of a sequence are after an iteration: in the pages its table
  already had, or at the other end of the page copies the batch lists. The lists hold no other copies.
  Every lemma reads off the code what a successful call did.
\<close>

section \<open>Allocator calls\<close>

lemma free_seq_result: "free_seq b q = Inr (b', q') \<Longrightarrow> q' = q\<lparr>block_table := [], num_registered_blocks := 0\<rparr>"
  by (auto simp: free_seq_def result_simps)

lemma grow_result: "append_slots b q n = Inr (b', q') \<Longrightarrow> \<exists>ys. q' = q\<lparr>block_table := block_table q @ ys\<rparr>"
  by (auto simp: append_slots_def grow_def result_simps)

lemma swap_out_loop_result:
  assumes "foldM swap_out_one (b, q, prs) blks = Inr (b', q', prs')"
  shows "\<exists>cs. length cs = length blks \<and> q' = q\<lparr>cpu_block_table := cpu_block_table q @ cs\<rparr> \<and> prs' = prs @ zip blks cs"
  using assms
proof (induction blks arbitrary: b q prs)
  case (Cons blk blks)
  from Cons.prems obtain st where one: "swap_out_one (b, q, prs) blk = Inr st" and
    rest: "foldM swap_out_one st blks = Inr (b', q', prs')" by (auto simp: result_simps)
  from one obtain b1 c where "st = (b1, q\<lparr>cpu_block_table := cpu_block_table q @ [c]\<rparr>, prs @ [(blk, c)])"
    by (auto simp: swap_out_one_def result_simps)
  with rest have l: "foldM swap_out_one (b1, q\<lparr>cpu_block_table := cpu_block_table q @ [c]\<rparr>, prs @ [(blk, c)]) blks
      = Inr (b', q', prs')" by simp
  from Cons.IH [OF l] obtain cs where "length cs = length blks"
    "q' = q\<lparr>cpu_block_table := cpu_block_table q @ c # cs\<rparr>" "prs' = prs @ zip (blk # blks) (c # cs)" by auto
  then show ?case by (intro exI [of _ "c # cs"]) simp
qed simp

lemma swap_out_seq_result:
  assumes "swap_out_seq b q = Inr (b', q', prs)"
  shows "\<exists>cs. length cs = length (block_table q) \<and> prs = zip (block_table q) cs \<and>
     q' = q\<lparr>cpu_block_table := cpu_block_table q @ cs, block_table := [], num_registered_blocks := 0\<rparr>"
proof -
  obtain b1 q1 where l: "foldM swap_out_one (b, q, []) (block_table q) = Inr (b1, q1, prs)" and
    f: "free_seq b1 q1 = Inr (b', q')"
    using assms by (auto simp: swap_out_seq_def result_simps)
  from swap_out_loop_result [OF l] free_seq_result [OF f] show ?thesis by auto
qed

lemma swap_in_loop_result:
  assumes "foldM swap_in_one (b, t, prs) cs = Inr (b', t', prs')"
  shows "\<exists>blks. length blks = length cs \<and> t' = t @ blks \<and> prs' = prs @ zip cs blks"
  using assms
proof (induction cs arbitrary: b t prs)
  case (Cons c cs)
  from Cons.prems obtain st where one: "swap_in_one (b, t, prs) c = Inr st" and
    rest: "foldM swap_in_one st cs = Inr (b', t', prs')" by (auto simp: result_simps)
  from one obtain b1 blk where "st = (b1, t @ [blk], prs @ [(c, blk)])"
    by (auto simp: swap_in_one_def result_simps)
  with rest have l: "foldM swap_in_one (b1, t @ [blk], prs @ [(c, blk)]) cs = Inr (b', t', prs')" by simp
  from Cons.IH [OF l] obtain blks where "length blks = length cs" "t' = t @ blk # blks"
    "prs' = prs @ zip (c # cs) (blk # blks)" by auto
  then show ?case by (intro exI [of _ "blk # blks"]) simp
qed simp

lemma swap_in_seq_result:
  assumes "swap_in_seq b q = Inr (b', q', prs)"
  shows "\<exists>blks. length blks = length (cpu_block_table q) \<and> prs = zip (cpu_block_table q) blks \<and>
     q' = q\<lparr>block_table := blks, cpu_block_table := [], num_registered_blocks := 0\<rparr>"
proof -
  have "block_table q = []" using assms by (auto simp: swap_in_seq_def result_simps)
  then obtain t where l: "foldM swap_in_one (b, [], []) (cpu_block_table q) = Inr (b', t, prs)" and
    q: "q' = q\<lparr>block_table := t, cpu_block_table := [], num_registered_blocks := 0\<rparr>"
    using assms by (auto simp: swap_in_seq_def result_simps)
  from swap_in_loop_result [OF l] q show ?thesis by auto
qed

lemma sched_fail_store:
  assumes "sched_fail s r m = Inr s'"
  shows "x \<noteq> r \<Longrightarrow> store s' x = store s x"
  using assms by (auto simp: sched_fail_def result_simps Let_def set_seq_def split: prod.splits)

section \<open>Evictions\<close>

text \<open>\<open>vs\<close> are the sequences swapped out on the way from \<open>s\<close>, \<open>b\<close> to \<open>s'\<close>, \<open>b'\<close>.\<close>

definition pairs_out :: "scheduler \<Rightarrow> scheduler \<Rightarrow> sref \<Rightarrow> (nat \<times> nat) set" where
  "pairs_out s s' r = set (zip (block_table (store s r)) (cpu_block_table (store s' r)))"

definition evicted :: "scheduler \<Rightarrow> scheduled_batch \<Rightarrow> scheduler \<Rightarrow> scheduled_batch \<Rightarrow> sref list \<Rightarrow> bool" where
  "evicted s b s' b' vs \<longleftrightarrow>
     swapped s' = vs @ swapped s \<and> swap_in b' = swap_in b \<and>
     set (swap_out b') = set (swap_out b) \<union> (\<Union>r \<in> set vs. pairs_out s s' r) \<and>
     (\<forall>r \<in> set vs. num_computed_tokens (store s' r) = num_computed_tokens (store s r) \<and>
        length (cpu_block_table (store s' r)) = length (block_table (store s r)))"

lemma evicted_refl [simp]: "swapped s' = swapped s \<Longrightarrow> swap_in b' = swap_in b \<Longrightarrow> swap_out b' = swap_out b \<Longrightarrow> evicted s b s' b' []"
  by (simp add: evicted_def)

lemma evicted_trans:
  assumes a: "evicted s b s1 b1 vs" and c: "evicted s1 b1 s2 b2 ws"
    and "\<And>r. r \<in> set vs \<Longrightarrow> store s2 r = store s1 r" and "\<And>r. r \<in> set ws \<Longrightarrow> store s1 r = store s r"
  shows "evicted s b s2 b2 (ws @ vs)"
proof -
  have "pairs_out s s2 r = pairs_out s s1 r" if "r \<in> set vs" for r
    using assms(3) [OF that] by (simp add: pairs_out_def)
  moreover have "pairs_out s s2 r = pairs_out s1 s2 r" if "r \<in> set ws" for r
    using assms(4) [OF that] by (simp add: pairs_out_def)
  ultimately show ?thesis
    using a c assms(3,4) by (auto simp: evicted_def)
qed

lemma preempt_flow:
  assumes p: "preempt s r b = Inr (s', b')" and "cpu_block_table (store s r) = []"
  shows "running s' = running s" "\<And>x. x \<noteq> r \<Longrightarrow> store s' x = store s x"
    and "\<exists>vs. evicted s b s' b' vs \<and> (vs = [] \<or> vs = [r])"
proof -
  show "running s' = running s" by (rule preempt_running [OF p])
  show "store s' x = store s x" if "x \<noteq> r" for x
    using p that by (auto simp: preempt_def result_simps Let_def set_seq_def split: if_splits)
  define q where "q = (store s r)\<lparr>seq_num_preemptions := seq_num_preemptions (store s r) + 1, status := PREEMPTED\<rparr>"
  show "\<exists>vs. evicted s b s' b' vs \<and> (vs = [] \<or> vs = [r])"
  proof (cases "preemption_mode s = ''swap'' \<and> can_swap_out (bm s) q")
    case True
    then obtain bm' q' prs where sw: "swap_out_seq (bm s) q = Inr (bm', q', prs)" and
      s': "store s' r = q'" "swapped s' = r # swapped s" "swap_out b' = swap_out b @ prs" "swap_in b' = swap_in b"
      using p by (auto simp: preempt_def result_simps Let_def set_seq_def q_def)
    from swap_out_seq_result [OF sw] obtain cs where "length cs = length (block_table q)" "prs = zip (block_table q) cs"
      "q' = q\<lparr>cpu_block_table := cpu_block_table q @ cs, block_table := [], num_registered_blocks := 0\<rparr>" by blast
    with s' assms(2) have "evicted s b s' b' [r]"
      by (simp add: evicted_def pairs_out_def q_def)
    then show ?thesis by (intro exI [of _ "[r]"]) simp
  next
    case False
    then have "swapped s' = swapped s" "swap_out b' = swap_out b" "swap_in b' = swap_in b"
      using p by (auto simp: preempt_def result_simps Let_def set_seq_def q_def)
    then show ?thesis by (intro exI [of _ "[]"]) simp
  qed
qed

section \<open>The running queue\<close>

text \<open>Sequences from position \<open>i\<close> on are as they were, or evicted from the end.\<close>

definition shrunk :: "nat \<Rightarrow> scheduler \<Rightarrow> scheduled_batch \<Rightarrow> scheduler \<Rightarrow> scheduled_batch \<Rightarrow> bool" where
  "shrunk i s b s' b' \<longleftrightarrow>
     (\<exists>k \<ge> i. running s' = take k (running s)) \<and> (\<forall>x \<in> set (running s'). store s' x = store s x) \<and>
     (\<forall>x \<in> set (swapped s). store s' x = store s x) \<and>
     (\<exists>vs. evicted s b s' b' vs \<and> set vs \<subseteq> set (drop i (running s)))"

definition queues_distinct :: "scheduler \<Rightarrow> bool" where
  "queues_distinct s \<longleftrightarrow> distinct (running s @ swapped s) \<and> (\<forall>r \<in> set (running s). cpu_block_table (store s r) = [])"

lemma shrunk_refl: "i \<le> length (running s) \<Longrightarrow> shrunk i s b s b"
  by (auto simp: shrunk_def intro!: exI [of _ "length (running s)"] exI [of _ "[]"])

lemma shrunk_trans:
  assumes a: "shrunk i s b s1 b1" and c: "shrunk i s1 b1 s2 b2"
  shows "shrunk i s b s2 b2"
proof -
  obtain k vs where 1: "k \<ge> i" "running s1 = take k (running s)" "evicted s b s1 b1 vs" "set vs \<subseteq> set (drop i (running s))"
      "\<forall>x \<in> set (running s1). store s1 x = store s x" "\<forall>x \<in> set (swapped s). store s1 x = store s x"
    using a by (auto simp: shrunk_def)
  obtain l ws where 2: "l \<ge> i" "running s2 = take l (running s1)" "evicted s1 b1 s2 b2 ws" "set ws \<subseteq> set (drop i (running s1))"
      "\<forall>x \<in> set (running s2). store s2 x = store s1 x" "\<forall>x \<in> set (swapped s1). store s2 x = store s1 x"
    using c by (auto simp: shrunk_def)
  have sw: "swapped s1 = vs @ swapped s" using 1(3) by (simp add: evicted_def)
  have sub: "set (running s2) \<subseteq> set (running s1)" unfolding 2(2) by (rule set_take_subset)
  have "set (drop i (running s1)) \<subseteq> set (drop i (running s))"
    unfolding 1(2) drop_take by (rule set_take_subset)
  then have ws: "set ws \<subseteq> set (drop i (running s))" using 2(4) by blast
  have "set ws \<subseteq> set (running s1)" by (rule subset_trans [OF 2(4) set_drop_subset])
  then have "evicted s b s2 b2 (ws @ vs)"
    by (intro evicted_trans [OF 1(3) 2(3)]) (use 1(5) 2(6) sw in auto)
  moreover have "set (ws @ vs) \<subseteq> set (drop i (running s))" using ws 1(4) by simp
  moreover have "\<exists>k \<ge> i. running s2 = take k (running s)"
    using 1(1,2) 2(1,2) by (intro exI [of _ "min l k"]) simp
  moreover have "\<forall>x \<in> set (running s2). store s2 x = store s x" using 1(5) 2(5) sub by fastforce
  moreover have "\<forall>x \<in> set (swapped s). store s2 x = store s x" using 1(6) 2(6) sw by simp
  ultimately show ?thesis unfolding shrunk_def by blast
qed

lemma shrunk_mono: "shrunk j s b s' b' \<Longrightarrow> i \<le> j \<Longrightarrow> shrunk i s b s' b'"
  unfolding shrunk_def by (meson le_trans set_drop_subset_set_drop subset_trans)

lemma evict_last:
  assumes p: "preempt (s\<lparr>running := rs\<rparr>) v b = Inr (s1, b1)" and run: "running s = rs @ [v]" and q: "queues_distinct s"
  shows "queues_distinct s1" "shrunk (length rs) s b s1 b1" "running s1 = rs"
proof -
  have cpu: "cpu_block_table (store (s\<lparr>running := rs\<rparr>) v) = []" using q run by (simp add: queues_distinct_def)
  note P = preempt_flow [OF p cpu]
  show r1: "running s1 = rs" using P(1) by simp
  obtain vs where "evicted (s\<lparr>running := rs\<rparr>) b s1 b1 vs" and vs: "vs = [] \<or> vs = [v]" using P(3) by blast
  then have ev: "evicted s b s1 b1 vs" by (simp add: evicted_def pairs_out_def)
  have d: "distinct (rs @ v # swapped s)" using q run by (simp add: queues_distinct_def)
  have st: "store s1 x = store s x" if "x \<noteq> v" for x using P(2) [OF that] by simp
  have same: "\<forall>x \<in> set rs. store s1 x = store s x" "\<forall>x \<in> set (swapped s). store s1 x = store s x"
  proof -
    have "v \<notin> set rs" "v \<notin> set (swapped s)" using d by auto
    then show "\<forall>x \<in> set rs. store s1 x = store s x" "\<forall>x \<in> set (swapped s). store s1 x = store s x"
      using st by metis+
  qed
  have "swapped s1 = vs @ swapped s" using ev by (simp add: evicted_def)
  then have "distinct (running s1 @ swapped s1)" using d vs r1 by auto
  then show "queues_distinct s1" using q run r1 same by (simp add: queues_distinct_def)
  have "set vs \<subseteq> set (drop (length rs) (running s))" using vs run by auto
  moreover have "\<exists>k \<ge> length rs. running s1 = take k (running s)"
    using r1 run by (intro exI [of _ "length rs"]) simp
  ultimately show "shrunk (length rs) s b s1 b1" using ev same r1 unfolding shrunk_def by blast
qed

lemma make_room_flow:
  assumes "make_room r n i s b = Inr (fits, s', b')" and "i < length (running s)" and "running s ! i = r"
    and "queues_distinct s"
  shows "shrunk i s b s' b' \<and> queues_distinct s' \<and> (fits \<longrightarrow> i < length (running s'))"
  using assms
proof (induction r n i s b rule: make_room.induct)
  case (1 r n i s b)
  show ?case
  proof (cases "can_append (bm s) (store s r) n")
    case True
    then have "s' = s" "b' = b" using "1.prems"(1) by (simp_all add: make_room.simps)
    then show ?thesis using "1.prems"(2,4) shrunk_refl by simp
  next
    case no: False
    have ne: "running s \<noteq> []" using "1.prems"(2) by auto
    then have split: "running s = butlast (running s) @ [last (running s)]" by simp
    show ?thesis
    proof (cases "i < length (running s) - 1")
      case True
      obtain s1 b1 where p: "preempt (s\<lparr>running := butlast (running s)\<rparr>) (last (running s)) b = Inr (s1, b1)"
        and m: "make_room r n i s1 b1 = Inr (fits, s', b')"
        using no True "1.prems"(1) by (subst (asm) make_room.simps) (auto simp: result_simps)
      note E = evict_last [OF p split "1.prems"(4)]
      have "i < length (running s1)" "running s1 ! i = r"
        using E(3) True "1.prems"(3) by (simp_all add: nth_butlast)
      from "1.IH" [OF no True p refl m this E(1)] show ?thesis
        using shrunk_trans [OF shrunk_mono [OF E(2), of i]] True by simp
    next
      case False
      then have i: "Suc i = length (running s)" using "1.prems"(2) by linarith
      define rs where "rs = take i (running s)"
      have run: "running s = rs @ [r]" unfolding rs_def
        using "1.prems"(2,3) i by (metis lessI take_Suc_conv_app_nth take_all_iff order_refl)
      have s0: "s\<lparr>running := take i (running s) @ drop (Suc i) (running s)\<rparr> = s\<lparr>running := rs\<rparr>"
        using i by (simp add: rs_def)
      have len: "length rs = i" using i by (simp add: rs_def)
      have unfold: "make_room r n i s b =
          (if i = 0 then rbind (sched_fail (s\<lparr>running := rs\<rparr>) r (exhausted_message (s\<lparr>running := rs\<rparr>) r)) (\<lambda>s1. Inr (False, s1, b))
           else rbind (preempt (s\<lparr>running := rs\<rparr>) r b) (\<lambda>(s1, b1). Inr (False, s1, b1)))"
        unfolding s0 [symmetric] using no False "1.prems"(2) by (subst make_room.simps) (simp only: Let_def if_False not_le [symmetric])
      show ?thesis
      proof (cases "i = 0")
        case True
        obtain m where f: "sched_fail (s\<lparr>running := rs\<rparr>) r m = Inr s'" "\<not> fits" "b' = b"
          using True "1.prems"(1) unfolding unfold by (auto simp: result_simps)
        note F = sched_fail_queues [OF f(1)] and G = sched_fail_store [OF f(1)]
        have "rs = []" using len True by simp
        moreover have "r \<notin> set (swapped s)" using "1.prems"(4) run by (simp add: queues_distinct_def)
        then have "\<forall>x \<in> set (swapped s). store s' x = store s x" using G by fastforce
        ultimately have "shrunk i s b s' b'"
          unfolding shrunk_def using F G True f(3) by (auto intro!: exI [of _ "[]"] exI [of _ 0])
        moreover have "queues_distinct s'"
          using "1.prems"(4) F \<open>rs = []\<close> by (simp add: queues_distinct_def)
        ultimately show ?thesis using f(2) by simp
      next
        case pos: False
        then have p: "preempt (s\<lparr>running := rs\<rparr>) r b = Inr (s', b')" and nf: "\<not> fits"
          using "1.prems"(1) unfolding unfold by (auto simp: result_simps)
        from evict_last [OF p run "1.prems"(4)] nf len show ?thesis by simp
      qed
    qed
  qed
qed

definition grown :: "nat \<Rightarrow> scheduler \<Rightarrow> scheduled_batch \<Rightarrow> scheduler \<Rightarrow> scheduled_batch \<Rightarrow> bool" where
  "grown i s b s' b' \<longleftrightarrow>
     (\<exists>k. running s' = take k (running s)) \<and>
     (\<forall>x \<in> set (running s'). \<exists>ys. store s' x = (store s x)\<lparr>block_table := block_table (store s x) @ ys\<rparr>) \<and>
     (\<forall>x \<in> set (swapped s). store s' x = store s x) \<and>
     (\<exists>vs. evicted s b s' b' vs \<and> set vs \<subseteq> set (drop i (running s)))"

lemma grown_refl: "grown i s b s b"
  unfolding grown_def
proof (intro conjI ballI)
  show "\<exists>k. running s = take k (running s)" by (rule exI [of _ "length (running s)"]) simp
  show "\<exists>ys. store s x = (store s x)\<lparr>block_table := block_table (store s x) @ ys\<rparr>" for x
    by (rule exI [of _ "[]"]) simp
  show "\<exists>vs. evicted s b s b vs \<and> set vs \<subseteq> set (drop i (running s))" by (rule exI [of _ "[]"]) simp
qed simp

lemma grown_mono: "grown j s b s' b' \<Longrightarrow> i \<le> j \<Longrightarrow> grown i s b s' b'"
  unfolding grown_def by (meson set_drop_subset_set_drop subset_trans)

lemma grown_after_shrunk:
  assumes a: "shrunk i s b s1 b1" and c: "grown i s1 b1 s2 b2"
  shows "grown i s b s2 b2"
proof -
  obtain k vs where 1: "running s1 = take k (running s)" "evicted s b s1 b1 vs" "set vs \<subseteq> set (drop i (running s))"
      "\<forall>x \<in> set (running s1). store s1 x = store s x" "\<forall>x \<in> set (swapped s). store s1 x = store s x"
    using a by (auto simp: shrunk_def)
  obtain l ws where 2: "running s2 = take l (running s1)" "evicted s1 b1 s2 b2 ws" "set ws \<subseteq> set (drop i (running s1))"
      "\<forall>x \<in> set (running s2). \<exists>ys. store s2 x = (store s1 x)\<lparr>block_table := block_table (store s1 x) @ ys\<rparr>"
      "\<forall>x \<in> set (swapped s1). store s2 x = store s1 x"
    using c by (auto simp: grown_def)
  have sw: "swapped s1 = vs @ swapped s" using 1(2) by (simp add: evicted_def)
  have sub: "set (running s2) \<subseteq> set (running s1)" unfolding 2(1) by (rule set_take_subset)
  have "set (drop i (running s1)) \<subseteq> set (drop i (running s))"
    unfolding 1(1) drop_take by (rule set_take_subset)
  then have ws: "set ws \<subseteq> set (drop i (running s))" using 2(3) by blast
  have "set ws \<subseteq> set (running s1)" by (rule subset_trans [OF 2(3) set_drop_subset])
  then have ev: "evicted s b s2 b2 (ws @ vs)"
    by (intro evicted_trans [OF 1(2) 2(2)]) (use 1(4) 2(5) sw in auto)
  have "\<exists>k. running s2 = take k (running s)" using 1(1) 2(1) by (intro exI [of _ "min l k"]) simp
  moreover have "\<exists>ys. store s2 x = (store s x)\<lparr>block_table := block_table (store s x) @ ys\<rparr>" if "x \<in> set (running s2)" for x
  proof -
    have "store s1 x = store s x" using that sub 1(4) by blast
    then show ?thesis using 2(4) that by fastforce
  qed
  moreover have "\<forall>x \<in> set (swapped s). store s2 x = store s x" using 1(5) 2(5) sw by simp
  moreover have "set (ws @ vs) \<subseteq> set (drop i (running s))" using ws 1(3) by simp
  ultimately show ?thesis using ev unfolding grown_def by blast
qed

text \<open>The step itself: the table of position \<open>i\<close> grows, later positions follow.\<close>

lemma grown_step:
  assumes d: "queues_distinct s" and i: "i < length (running s)" "r = running s ! i"
    and q: "q = (store s r)\<lparr>block_table := block_table (store s r) @ ys\<rparr>"
    and same: "running s2 = running s" "swapped s2 = swapped s" "store s2 = (store s)(r := q)"
      "swap_out b2 = swap_out b" "swap_in b2 = swap_in b"
    and g: "grown (Suc i) s2 b2 s' b'"
  shows "grown i s b s' b'"
proof -
  obtain l ws where 2: "running s' = take l (running s2)" "evicted s2 b2 s' b' ws" "set ws \<subseteq> set (drop (Suc i) (running s2))"
      "\<forall>x \<in> set (running s'). \<exists>ys. store s' x = (store s2 x)\<lparr>block_table := block_table (store s2 x) @ ys\<rparr>"
      "\<forall>x \<in> set (swapped s2). store s' x = store s2 x"
    using g by (auto simp: grown_def)
  have dr: "distinct (running s)" and dis: "set (running s) \<inter> set (swapped s) = {}"
    using d by (simp_all add: queues_distinct_def)
  have r: "r \<in> set (running s)" using i by simp
  then have rs: "r \<notin> set (swapped s)" using dis by blast
  have tl: "drop i (running s) = r # drop (Suc i) (running s)" using i by (simp add: Cons_nth_drop_Suc)
  then have rd: "r \<notin> set (drop (Suc i) (running s))" using distinct_drop [OF dr, of i] by simp
  have ws: "set ws \<subseteq> set (drop (Suc i) (running s))" using 2(3) same(1) by simp
  have "store s2 x = store s x" if "x \<in> set ws" for x using that ws rd same(3) by auto
  then have ev: "evicted s b s' b' ws"
    using 2(2) same by (auto simp: evicted_def pairs_out_def)
  moreover have "set ws \<subseteq> set (drop i (running s))" using ws tl by auto
  moreover have "\<exists>ys. store s' x = (store s x)\<lparr>block_table := block_table (store s x) @ ys\<rparr>" if x: "x \<in> set (running s')" for x
  proof -
    obtain zs where z: "store s' x = (store s2 x)\<lparr>block_table := block_table (store s2 x) @ zs\<rparr>" using 2(4) x by blast
    show ?thesis
    proof (cases "x = r")
      case True
      then show ?thesis using z same(3) q by (intro exI [of _ "ys @ zs"]) simp
    next
      case False
      then show ?thesis using z same(3) by (intro exI [of _ zs]) simp
    qed
  qed
  moreover have "store s' x = store s x" if "x \<in> set (swapped s)" for x
  proof -
    have "x \<noteq> r" using that rs by blast
    then show ?thesis using 2(5) same that by simp
  qed
  moreover have "\<exists>k. running s' = take k (running s)" using 2(1) same(1) by auto
  ultimately show ?thesis unfolding grown_def by blast
qed

lemma running_loop_flow:
  assumes "running_loop plan i s b = Inr (s', b')" and "queues_distinct s"
  shows "grown i s b s' b'"
  using assms
proof (induction plan i s b rule: running_loop.induct)
  case (1 plan i s b)
  show ?case
  proof (cases "i < length (running s)")
    case False
    then have "s' = s" "b' = b" using "1.prems"(1) by (simp_all add: running_loop.simps)
    then show ?thesis by (simp add: grown_refl)
  next
    case i: True
    define r where "r = running s ! i"
    obtain n where n: "map_of plan r = Some n"
      using i "1.prems"(1) by (subst (asm) running_loop.simps) (auto simp: r_def [symmetric] split: option.splits)
    show ?thesis
    proof (cases "n = 0")
      case True
      then have l: "running_loop plan (Suc i) s b = Inr (s', b')"
        using i n "1.prems"(1) by (subst (asm) running_loop.simps) (simp add: r_def [symmetric])
      have "grown (Suc i) s b s' b'"
        by (rule "1.IH"(1) [OF i r_def n True l "1.prems"(2)])
      then show ?thesis by (rule grown_mono) simp
    next
      case False
      then obtain fits s1 b1 where m: "make_room r n i s b = Inr (fits, s1, b1)"
        using i n "1.prems"(1) by (subst (asm) running_loop.simps) (auto simp: r_def [symmetric] result_simps)
      note M = make_room_flow [OF m i r_def [symmetric] "1.prems"(2)]
      have unfold: "running_loop plan i s b = (if fits then
            rbind (append_slots (bm s1) (store s1 r) n) (\<lambda>(bm', q').
              running_loop plan (Suc i) ((set_seq s1 r q')\<lparr>bm := bm'\<rparr>) (batch_add b1 r q' n))
          else running_loop plan i s1 b1)"
        using i n False m by (subst running_loop.simps) (simp add: r_def [symmetric])
      have "grown i s1 b1 s' b'"
      proof (cases fits)
        case fits: False
        then have l: "running_loop plan i s1 b1 = Inr (s', b')" using "1.prems"(1) unfold by simp
        show ?thesis
          by (rule "1.IH"(3) [OF i r_def n False m refl refl fits l]) (use M in simp)
      next
        case fits: True
        then obtain bm' q' where a: "append_slots (bm s1) (store s1 r) n = Inr (bm', q')" and
          l: "running_loop plan (Suc i) ((set_seq s1 r q')\<lparr>bm := bm'\<rparr>) (batch_add b1 r q' n) = Inr (s', b')"
          using "1.prems"(1) unfold by (auto simp: result_simps)
        obtain ys where q: "q' = (store s1 r)\<lparr>block_table := block_table (store s1 r) @ ys\<rparr>" using grow_result [OF a] by blast
        have q1: "queues_distinct s1" and i1: "i < length (running s1)" using M fits by simp_all
        have r1: "r = running s1 ! i" using M i1 by (auto simp: shrunk_def r_def)
        have "queues_distinct ((set_seq s1 r q')\<lparr>bm := bm'\<rparr>)"
          using q1 q by (simp add: queues_distinct_def set_seq_def)
        from "1.IH"(2) [OF i r_def n False m refl refl fits a refl l this]
        have "grown (Suc i) ((set_seq s1 r q')\<lparr>bm := bm'\<rparr>) (batch_add b1 r q' n) s' b'" .
        from grown_step [OF q1 i1 r1 q _ _ _ _ _ this] show ?thesis
          by (simp add: set_seq_def batch_add_def)
      qed
      then show ?thesis using grown_after_shrunk M by blast
    qed
  qed
qed

end
