(* ===== verification/Page_Flow.thy ===== *)
theory Page_Flow
  imports Eviction_Flow
begin

text \<open>The second half of the flow of pages: sequences swapped back in, and the whole iteration.\<close>

section \<open>Returning sequences\<close>

definition pairs_in :: "scheduler \<Rightarrow> scheduler \<Rightarrow> sref \<Rightarrow> (nat \<times> nat) set" where
  "pairs_in s s' r = set (zip (cpu_block_table (store s r)) (block_table (store s' r)))"

definition brought :: "scheduler \<Rightarrow> scheduled_batch \<Rightarrow> scheduler \<Rightarrow> scheduled_batch \<Rightarrow> sref list \<Rightarrow> bool" where
  "brought s b s' b' new \<longleftrightarrow>
     running s' = running s @ new \<and> set new \<subseteq> set (swapped s) \<and> set (swapped s') \<subseteq> set (swapped s) \<and>
     swap_out b' = swap_out b \<and> (\<forall>x \<in> set (running s) \<union> set (swapped s'). store s' x = store s x) \<and>
     set (swap_in b') = set (swap_in b) \<union> (\<Union>r \<in> set new. pairs_in s s' r) \<and>
     (\<forall>r \<in> set new. num_computed_tokens (store s' r) = num_computed_tokens (store s r) \<and>
        length (cpu_block_table (store s r)) \<le> length (block_table (store s' r)) \<and>
        num_registered_blocks (store s' r) = 0)"

lemma brought_refl [simp]: "brought s b s b []"
  by (simp add: brought_def)

lemma brought_after:
  assumes c: "brought s1 b s' b' new" and "running s1 = running s" and "set (swapped s1) \<subseteq> set (swapped s)"
    and same: "\<And>x. x \<in> set (running s) \<union> set (swapped s1) \<Longrightarrow> store s1 x = store s x"
  shows "brought s b s' b' new"
proof -
  have "pairs_in s s' r = pairs_in s1 s' r" if "r \<in> set new" for r
    using that c same by (auto simp: pairs_in_def brought_def)
  then have "(\<Union>r \<in> set new. pairs_in s s' r) = (\<Union>r \<in> set new. pairs_in s1 s' r)" by simp
  moreover have "store s' x = store s x" if "x \<in> set (running s) \<union> set (swapped s')" for x
  proof -
    have "store s' x = store s1 x" using that c assms(2) by (auto simp: brought_def)
    moreover have "x \<in> set (running s) \<union> set (swapped s1)" using that c by (auto simp: brought_def)
    ultimately show ?thesis using same by simp
  qed
  moreover have "store s1 r = store s r" if "r \<in> set new" for r
    by (rule same) (use that c in \<open>auto simp: brought_def\<close>)
  ultimately show ?thesis using c assms(2,3) by (auto simp: brought_def)
qed

lemma brought_step:
  assumes c: "brought s1 b1 s' b' new" and "running s1 = running s @ [r]" and "swapped s = r # swapped s1"
    and d: "distinct (running s @ swapped s)"
    and same: "\<And>x. x \<noteq> r \<Longrightarrow> store s1 x = store s x"
    and r: "num_computed_tokens (store s1 r) = num_computed_tokens (store s r)"
      "block_table (store s1 r) = blks @ ys" "length blks = length (cpu_block_table (store s r))"
      "num_registered_blocks (store s1 r) = 0"
    and b: "swap_in b1 = swap_in b @ zip (cpu_block_table (store s r)) blks" "swap_out b1 = swap_out b"
  shows "brought s b s' b' (r # new)"
proof -
  have r': "store s' r = store s1 r" using c assms(2) by (simp add: brought_def)
  have nr: "r \<notin> set new" "r \<notin> set (swapped s')" using c d assms(3) by (auto simp: brought_def)
  have "pairs_in s s' x = pairs_in s1 s' x" if "x \<in> set new" for x
  proof -
    have "x \<noteq> r" using that nr by blast
    then show ?thesis using same by (simp add: pairs_in_def)
  qed
  moreover have "pairs_in s s' r = set (zip (cpu_block_table (store s r)) blks)"
    using r r' by (simp add: pairs_in_def zip_append2)
  moreover have "store s' x = store s x" if "x \<in> set (running s) \<union> set (swapped s')" for x
  proof -
    have "x \<noteq> r" using that nr d assms(3) by auto
    moreover have "store s' x = store s1 x" using that c assms(2) by (auto simp: brought_def)
    ultimately show ?thesis using same by simp
  qed
  moreover have "num_computed_tokens (store s' x) = num_computed_tokens (store s x) \<and>
      length (cpu_block_table (store s x)) \<le> length (block_table (store s' x)) \<and>
      num_registered_blocks (store s' x) = 0" if "x \<in> set (r # new)" for x
  proof (cases "x = r")
    case False
    then have "x \<in> set new" using that by simp
    then show ?thesis using c same [OF False] by (auto simp: brought_def)
  qed (use r r' in simp)
  ultimately show ?thesis
    using c assms(2,3) b unfolding brought_def by auto
qed

lemma swap_in_loop_flow:
  assumes "swap_in_loop s b budget = Inr (s', b')" and "distinct (running s @ swapped s)"
  shows "\<exists>new. brought s b s' b' new"
  using assms
proof (induction s b budget rule: swap_in_loop.induct)
  case (1 s b budget)
  show ?case
  proof (cases "swapped s \<noteq> [] \<and> int (length (running s)) < max_num_seqs s")
    case False
    then have "s' = s" "b' = b" using "1.prems"(1) by (subst (asm) swap_in_loop.simps; auto)+
    then show ?thesis using brought_refl by blast
  next
    case True
    define r where "r = hd (swapped s)"
    define n where "n = (case budget of None \<Rightarrow> num_uncomputed_tokens (store s r)
                 | Some k \<Rightarrow> min (num_uncomputed_tokens (store s r)) k)"
    define s0 where "s0 = s\<lparr>swapped := tl (swapped s)\<rparr>"
    have sw: "swapped s = r # swapped s0" using True by (simp add: r_def s0_def)
    have st0: "running s0 = running s" "store s0 = store s" by (simp_all add: s0_def)
    have unfold: "swap_in_loop s b budget =
        (if n \<le> 0 then Inr (s, b)
         else if \<not> can_swap_in (bm s) (store s r) n (running s \<noteq> []) then
           (if running s = [] then
              rbind (sched_fail s0 r (exhausted_message s0 r)) (\<lambda>s1. swap_in_loop s1 b budget)
            else Inr (s, b))
         else rbind (swap_in_seq (bm s0) (store s0 r)) (\<lambda>(b1, q1, pairs).
              rbind (append_slots b1 q1 n) (\<lambda>(b2, q2).
                swap_in_loop ((set_seq s0 r (q2\<lparr>status := RUNNING\<rparr>))\<lparr>bm := b2, running := running s0 @ [r]\<rparr>)
                  (batch_add (b\<lparr>swap_in := swap_in b @ pairs\<rparr>) r (q2\<lparr>status := RUNNING\<rparr>) n)
                  (map_option (\<lambda>k. k - n) budget))))"
      unfolding swap_in_loop.simps [of s b budget] Let_def r_def [symmetric] n_def [symmetric] s0_def [symmetric]
      using True by (simp only: if_True simp_thms not_False_eq_True)
    consider "n \<le> 0" | "\<not> n \<le> 0" "\<not> can_swap_in (bm s) (store s r) n (running s \<noteq> [])" "running s \<noteq> []"
      | "\<not> n \<le> 0" "\<not> can_swap_in (bm s) (store s r) n (running s \<noteq> [])" "running s = []"
      | "\<not> n \<le> 0" "can_swap_in (bm s) (store s r) n (running s \<noteq> [])" by blast
    then show ?thesis
    proof cases
      case 1
      then have "s' = s" "b' = b" using "1.prems"(1) unfold by simp_all
      then show ?thesis using brought_refl by blast
    next
      case 2
      then have "s' = s" "b' = b" using "1.prems"(1) unfold by simp_all
      then show ?thesis using brought_refl by blast
    next
      case 3
      then obtain s1 where f: "sched_fail s0 r (exhausted_message s0 r) = Inr s1" and
        l: "swap_in_loop s1 b budget = Inr (s', b')"
        using "1.prems"(1) unfold by (auto simp: result_simps)
      note F = sched_fail_queues [OF f]
      have "distinct (running s1 @ swapped s1)" using F "1.prems"(2) sw st0 by simp
      from "1.IH"(1) [OF True r_def n_def 3(1,2,3) s0_def f l this]
      obtain new where "brought s1 b s' b' new" ..
      moreover have "store s1 x = store s x" if "x \<in> set (running s) \<union> set (swapped s1)" for x
      proof -
        have "x \<noteq> r" using that F "1.prems"(2) sw st0 3(3) by auto
        then show ?thesis using sched_fail_store [OF f] by (simp add: st0)
      qed
      moreover have "running s1 = running s" "set (swapped s1) \<subseteq> set (swapped s)" using F sw st0 by auto
      ultimately have "brought s b s' b' new" by (intro brought_after [of s1 b s' b' new s]) blast+
      then show ?thesis ..
    next
      case 4
      obtain b1 q1 prs b2 q2 where 1: "swap_in_seq (bm s0) (store s0 r) = Inr (b1, q1, prs)"
        and 2: "append_slots b1 q1 n = Inr (b2, q2)" and
        l: "swap_in_loop ((set_seq s0 r (q2\<lparr>status := RUNNING\<rparr>))\<lparr>bm := b2, running := running s0 @ [r]\<rparr>)
              (batch_add (b\<lparr>swap_in := swap_in b @ prs\<rparr>) r (q2\<lparr>status := RUNNING\<rparr>) n)
              (map_option (\<lambda>k. k - n) budget) = Inr (s', b')"
        using "1.prems"(1) unfold 4 by (auto simp: result_simps)
      define s1 where "s1 = (set_seq s0 r (q2\<lparr>status := RUNNING\<rparr>))\<lparr>bm := b2, running := running s0 @ [r]\<rparr>"
      define b3 where "b3 = batch_add (b\<lparr>swap_in := swap_in b @ prs\<rparr>) r (q2\<lparr>status := RUNNING\<rparr>) n"
      have f1: "running s1 = running s @ [r]" "swapped s1 = swapped s0" "store s1 = (store s)(r := q2\<lparr>status := RUNNING\<rparr>)"
        by (simp_all add: s1_def st0 set_seq_def)
      have "distinct (running s1 @ swapped s1)" using f1 "1.prems"(2) sw by auto
      moreover have "\<not> \<not> can_swap_in (bm s) (store s r) n (running s \<noteq> [])" using 4(2) by simp
      ultimately obtain new where br: "brought s1 b3 s' b' new"
        using "1.IH"(2) [OF True r_def n_def 4(1) _ s0_def 1 refl refl 2 refl refl s1_def] l
        unfolding s1_def [symmetric] b3_def [symmetric] by blast
      obtain blks where q1: "length blks = length (cpu_block_table (store s0 r))" "prs = zip (cpu_block_table (store s0 r)) blks"
        "q1 = (store s0 r)\<lparr>block_table := blks, cpu_block_table := [], num_registered_blocks := 0\<rparr>"
        using swap_in_seq_result [OF 1] by blast
      obtain ys where q2: "q2 = q1\<lparr>block_table := block_table q1 @ ys\<rparr>" using grow_result [OF 2] by blast
      have "brought s b s' b' (r # new)"
        by (rule brought_step [OF br f1(1) _ "1.prems"(2), of blks ys])
          (use f1 sw q1 q2 st0 in \<open>simp_all add: b3_def batch_add_def\<close>)
      then show ?thesis ..
    qed
  qed
qed

section \<open>One iteration\<close>

text \<open>
  A sequence running after an iteration starts from the pages the prefix cache held for it (none without
  prefix caching), or was running and kept its pages at the front of its table, or came back from the host
  into fresh pages; one swapped out was so before, or its pages are listed for copying. No copy serves
  anything else.
\<close>

definition run_kept :: "externals \<Rightarrow> scheduler \<Rightarrow> scheduler \<Rightarrow> scheduled_batch \<Rightarrow> sref \<Rightarrow> bool" where
  "run_kept X s s' b r \<longleftrightarrow>
     cache_hits X (bm s) (store s' r) \<or>
     num_computed_tokens (store s' r) = num_computed_tokens (store s r) \<and>
     (r \<in> set (running s) \<and> (\<exists>ys. block_table (store s' r) = block_table (store s r) @ ys) \<or>
      r \<in> set (swapped s) \<and> length (cpu_block_table (store s r)) \<le> length (block_table (store s' r)) \<and>
        pairs_in s s' r \<subseteq> set (swap_in b) \<and> num_registered_blocks (store s' r) = 0)"

definition host_kept :: "scheduler \<Rightarrow> scheduler \<Rightarrow> scheduled_batch \<Rightarrow> sref \<Rightarrow> bool" where
  "host_kept s s' b r \<longleftrightarrow>
     r \<in> set (swapped s) \<and> store s' r = store s r \<or>
     r \<in> set (running s) \<and> num_computed_tokens (store s' r) = num_computed_tokens (store s r) \<and>
       length (cpu_block_table (store s' r)) = length (block_table (store s r)) \<and> pairs_out s s' r \<subseteq> set (swap_out b)"

definition returned :: "scheduler \<Rightarrow> scheduler \<Rightarrow> sref set" where
  "returned s s' = {r \<in> set (swapped s) \<inter> set (running s'). num_registered_blocks (store s' r) = 0}"

definition flows :: "externals \<Rightarrow> scheduler \<Rightarrow> scheduler \<Rightarrow> scheduled_batch \<Rightarrow> bool" where
  "flows X s s' b \<longleftrightarrow>
     (\<forall>r \<in> set (running s'). run_kept X s s' b r) \<and> (\<forall>r \<in> set (swapped s'). host_kept s s' b r) \<and>
     set (swap_out b) \<subseteq> (\<Union>r \<in> set (running s) \<inter> set (swapped s'). pairs_out s s' r) \<and>
     set (swap_in b) \<subseteq> (\<Union>r \<in> returned s s'. pairs_in s s' r)"

lemma flows_running:
  assumes g: "grown 0 s b s' b'" and b: "swap_out b = []" "swap_in b = []"
  shows "flows X s s' b'"
proof -
  obtain k vs where 1: "running s' = take k (running s)" "evicted s b s' b' vs" "set vs \<subseteq> set (running s)"
      "\<forall>x \<in> set (running s'). \<exists>ys. store s' x = (store s x)\<lparr>block_table := block_table (store s x) @ ys\<rparr>"
      "\<forall>x \<in> set (swapped s). store s' x = store s x"
    using g by (auto simp: grown_def)
  have sub: "set (running s') \<subseteq> set (running s)" unfolding 1(1) by (rule set_take_subset)
  have "run_kept X s s' b' r" if r: "r \<in> set (running s')" for r
  proof -
    obtain ys where "store s' r = (store s r)\<lparr>block_table := block_table (store s r) @ ys\<rparr>" using 1(4) r by blast
    with r sub show ?thesis by (auto simp: run_kept_def)
  qed
  moreover have "host_kept s s' b' r" if "r \<in> set (swapped s')" for r
    using that 1(2,3,5) by (auto simp: host_kept_def evicted_def)
  ultimately show ?thesis using 1(2,3) b by (auto simp: flows_def evicted_def)
qed

lemma flows_brought:
  assumes f: "flows X s s1 b1" and c: "brought s1 b1 s' b' new"
    and same: "swapped s1 = swapped s" "\<forall>x \<in> set (swapped s). store s1 x = store s x" and out: "swap_out b1 = []"
  shows "flows X s s' b'"
proof -
  have B: "running s' = running s1 @ new" "set new \<subseteq> set (swapped s)" "set (swapped s') \<subseteq> set (swapped s)"
      "swap_out b' = []" "set (swap_in b') = set (swap_in b1) \<union> (\<Union>r \<in> set new. pairs_in s1 s' r)"
    and st: "\<And>x. x \<in> set (running s1) \<union> set (swapped s') \<Longrightarrow> store s' x = store s1 x"
    and new: "\<And>r. r \<in> set new \<Longrightarrow> num_computed_tokens (store s' r) = num_computed_tokens (store s1 r) \<and>
        length (cpu_block_table (store s1 r)) \<le> length (block_table (store s' r)) \<and>
        num_registered_blocks (store s' r) = 0"
    using c same(1) out by (auto simp: brought_def)
  have pin: "pairs_in s s' r = pairs_in s1 s' r" if "r \<in> set new" for r
    using that B(2) same(2) by (auto simp: pairs_in_def)
  have old: "pairs_in s s' r = pairs_in s s1 r" if "r \<in> set (running s1)" for r
    using st that by (simp add: pairs_in_def)
  have "run_kept X s s' b' r" if r: "r \<in> set (running s')" for r
  proof (cases "r \<in> set (running s1)")
    case True
    then have k: "run_kept X s s1 b1 r" using f by (simp add: flows_def)
    have eq: "store s' r = store s1 r" using st True by simp
    have "set (swap_in b1) \<subseteq> set (swap_in b')" using B(5) by blast
    with k eq old [OF True] show ?thesis unfolding run_kept_def eq by blast
  next
    case False
    then have n: "r \<in> set new" using r B(1) by simp
    then have "r \<in> set (swapped s)" using B(2) by blast
    moreover have "store s1 r = store s r" using same(2) \<open>r \<in> set (swapped s)\<close> by blast
    moreover have "pairs_in s s' r \<subseteq> set (swap_in b')" using pin [OF n] n B(5) by blast
    ultimately show ?thesis using new [OF n] by (simp add: run_kept_def)
  qed
  moreover have "host_kept s s' b' r" if "r \<in> set (swapped s')" for r
    using that B(3) st same(2) by (auto simp: host_kept_def)
  moreover have "set (swap_in b') \<subseteq> (\<Union>r \<in> returned s s'. pairs_in s s' r)"
  proof -
    have "set (swap_in b1) \<subseteq> (\<Union>r \<in> returned s s1. pairs_in s s1 r)" using f by (simp add: flows_def)
    also have "\<dots> \<subseteq> (\<Union>r \<in> returned s s'. pairs_in s s' r)" using old st B(1) by (auto simp: returned_def)
    finally have "set (swap_in b1) \<subseteq> (\<Union>r \<in> returned s s'. pairs_in s s' r)" .
    moreover have "set new \<subseteq> returned s s'" using B(1,2) new by (auto simp: returned_def)
    ultimately show ?thesis using B(5) pin by auto
  qed
  ultimately show ?thesis using B(4) by (simp add: flows_def)
qed

lemma flows_cong:
  assumes "running s1 = running s" and "swapped s1 = swapped s"
    and same: "\<And>x. x \<in> set (running s) \<union> set (swapped s) \<Longrightarrow> store s1 x = store s x" and f: "flows X s1 s' b"
    and fr: "sched_frame s s1"
  shows "flows X s s' b"
proof -
  have "pairs_in s s' r = pairs_in s1 s' r" if "r \<in> set (swapped s)" for r using that same by (simp add: pairs_in_def)
  moreover have "pairs_out s s' r = pairs_out s1 s' r" if "r \<in> set (running s)" for r using that same by (simp add: pairs_out_def)
  moreover have "run_kept X s s' b r" if "run_kept X s1 s' b r" for r
    using that cache_hits_frame [of "bm s" "bm s1" X "store s' r"] fr unfolding run_kept_def assms(1,2)
    using same by (auto simp: pairs_in_def sched_frame_def conf_same_def)
  moreover have "host_kept s s' b r = host_kept s1 s' b r" for r
    unfolding host_kept_def assms(1,2) using same by (auto simp: pairs_out_def)
  moreover have "returned s s' = returned s1 s'" by (simp add: returned_def assms(2))
  moreover have "\<And>r. r \<in> returned s s' \<Longrightarrow> r \<in> set (swapped s)" by (simp add: returned_def)
  ultimately show ?thesis using f assms(1,2) by (auto simp: flows_def)
qed

lemma flows_admitted:
  assumes f: "flows X s s1 b1" and run: "running s' = running s1 @ new" and sw: "swapped s' = swapped s1"
    and same: "\<And>x. x \<in> set (running s1) \<union> set (swapped s1) \<Longrightarrow> store s' x = store s1 x"
    and hits: "\<forall>r \<in> set new. cache_hits X (bm s) (store s' r)"
    and b: "swap_out b' = swap_out b1" "swap_in b' = swap_in b1"
  shows "flows X s s' b'"
proof -
  have pin: "pairs_in s s' r = pairs_in s s1 r" if "r \<in> set (running s1)" for r
    using that same by (simp add: pairs_in_def)
  have pout: "pairs_out s s' r = pairs_out s s1 r" if "r \<in> set (swapped s1)" for r
    using that same by (simp add: pairs_out_def)
  have "run_kept X s s' b' r" if r: "r \<in> set (running s')" for r
  proof (cases "r \<in> set (running s1)")
    case True
    then have "run_kept X s s1 b1 r" using f by (simp add: flows_def)
    with same True b pin show ?thesis by (simp add: run_kept_def)
  qed (use r run hits in \<open>simp add: run_kept_def\<close>)
  moreover have "host_kept s s' b' r" if r: "r \<in> set (swapped s')" for r
  proof -
    have "host_kept s s1 b1 r" using f r sw by (simp add: flows_def)
    with same r b pout sw show ?thesis by (simp add: host_kept_def)
  qed
  moreover have "set (swap_out b') \<subseteq> (\<Union>r \<in> set (running s) \<inter> set (swapped s'). pairs_out s s' r)"
    using f pout unfolding flows_def b(1) sw by auto
  moreover have "set (swap_in b') \<subseteq> (\<Union>r \<in> returned s s'. pairs_in s s' r)"
  proof -
    have "(\<Union>r \<in> returned s s1. pairs_in s s1 r) \<subseteq> (\<Union>r \<in> returned s s'. pairs_in s s' r)"
      using pin run same by (auto simp: returned_def)
    then show ?thesis using f unfolding flows_def b(2) by blast
  qed
  ultimately show ?thesis by (simp add: flows_def)
qed

lemma queues_distinct_inv:
  assumes inv: "sinv X s p []"
  shows "queues_distinct s"
proof -
  have "cpu_block_table (store s r) = []" if "r \<in> set (running s)" for r
    using seqs_invD(1) [OF sinvD(3) [OF inv] that] by (simp add: running_ok_def)
  then show ?thesis using sinv_distinct [OF inv] by (auto simp: queues_distinct_def)
qed

text \<open>An admission round: what it appends starts from the cache, nothing else that holds pages is touched.\<close>

lemma admit_flow:
  assumes inv: "sinv X s p []" and ok: "batch_ok s p b"
    and a: "admit_loop X s b budget = Inr (s', b')"
  obtains new p' where "running s' = running s @ new" "swapped s' = swapped s" "b_seqs b' = b_seqs b @ new"
    "swap_out b' = swap_out b" "swap_in b' = swap_in b" "\<forall>r \<in> set new. cache_hits X (bm s) (store s' r)"
    "\<And>x. x \<in> set (running s) \<union> set (swapped s) \<Longrightarrow> store s' x = store s x"
    "sinv X s' p' []" "batch_ok s' p' b'" "new = [] \<Longrightarrow> b_seqs b = [] \<Longrightarrow> p' = (\<lambda>_. 0)" "sched_frame s s'"
proof -
  obtain p' new where A: "admits X s p b budget s' p' b' new"
    using admit_loop_ok [OF inv ok, of budget] a by auto
  then have j: "joined X s p b s' p' b' new" and m: "settled s s'" "from_cache X s s' new"
      "swapped s' = swapped s" "swap_in b' = swap_in b" by (simp_all add: admits_def)
  note J = joinedD [OF j]
  have "store s' x = store s x" if "x \<in> set (running s) \<union> set (swapped s)" for x
  proof -
    have "x \<notin> set (admission_order s)"
      using that sinv_distinct [OF inv] by (auto simp: admission_order_def)
    then show ?thesis using m(1) by (simp add: settled_def)
  qed
  moreover have "p' = (\<lambda>_. 0)" if "new = []" "b_seqs b = []"
  proof -
    have "b_seqs b' = []" using J(5) that by simp
    then show ?thesis using batch_okD(4) [OF J(2)] by auto
  qed
  ultimately show ?thesis
    using that [of new p'] J m by (simp add: from_cache_def)
qed

lemma schedule_running_flow:
  assumes inv: "sinv X s (\<lambda>_. 0) []" and ok: "batch_ok s (\<lambda>_. 0) b" "b_seqs b = []" "swap_out b = []" "swap_in b = []"
    and r: "schedule_running s b = Inr (s', b')"
  obtains p' where "flows X s s' b'" "sinv X s' p' []" "batch_ok s' p' b'"
    "num_preempted b' = num_preempted b \<Longrightarrow> swap_out b' = [] \<and> swapped s' = swapped s \<and> (\<forall>x \<in> set (swapped s). store s' x = store s x)"
    "sched_frame s s'"
proof -
  obtain p' where w: "walked X (plan_running_tokens s) s b s' p' b'"
    using schedule_running_ok [OF inv ok(1,2)] r by auto
  note W = walkedD [OF w]
  have g: "grown 0 s b s' b'"
    using running_loop_flow [OF _ queues_distinct_inv [OF inv]] r by (simp add: schedule_running_def)
  then have "\<forall>x \<in> set (swapped s). store s' x = store s x" by (simp add: grown_def)
  then show ?thesis
    using that [of p'] flows_running [OF g ok(3,4)] W ok(3) by simp
qed

lemma swap_in_flow:
  assumes inv: "sinv X s1 p1 []" and f: "flows X s s1 b1" and out: "swap_out b1 = []" and sw: "swapped s1 = swapped s"
    and same: "\<forall>x \<in> set (swapped s). store s1 x = store s x" and l: "swap_in_loop s1 b1 budget = Inr (s', b')"
  shows "flows X s s' b'"
proof -
  have "distinct (running s1 @ swapped s1)" using queues_distinct_inv [OF inv] by (simp add: queues_distinct_def)
  then obtain new where "brought s1 b1 s' b' new" using swap_in_loop_flow [OF l] by blast
  from flows_brought [OF f this sw same out] show ?thesis .
qed

lemma schedule_flow:
  assumes inv: "sinv X s (\<lambda>_. 0) []" and r: "schedule X s = Inr (s', b)"
  shows "flows X s s' b"
proof -
  have e: "batch_ok s (\<lambda>_. 0) empty_batch" "b_seqs empty_batch = []" "swap_in empty_batch = []"
      "swap_out empty_batch = []" "num_preempted empty_batch = 0"
    by (simp_all add: empty_batch_def batch_ok_def)
  show ?thesis
  proof (cases "chunked s")
    case ch: True
    then have sc: "schedule_chunked X s empty_batch = Inr (s', b)" using r by (auto simp: schedule_def result_simps)
    then obtain s1 b1 where 1: "schedule_running s empty_batch = Inr (s1, b1)" by (auto simp: schedule_chunked_def result_simps)
    from schedule_running_flow [OF inv e(1,2,4,3) 1] obtain p1 where
      F: "flows X s s1 b1" "sinv X s1 p1 []" "batch_ok s1 p1 b1" and
      quiet: "num_preempted b1 = 0 \<Longrightarrow> swap_out b1 = [] \<and> swapped s1 = swapped s \<and> (\<forall>x \<in> set (swapped s). store s1 x = store s x)"
      and fr1: "sched_frame s s1" unfolding e(5) by blast
    show ?thesis
    proof (cases "num_preempted b1 = 0")
      case False
      then show ?thesis using sc 1 F(1) by (simp add: schedule_chunked_def)
    next
      case True
      then obtain s2 b2 where 2: "swap_in_loop s1 b1 (Some (max_batch_tokens s1 - batch_num_tokens b1)) = Inr (s2, b2)"
        and 3: "(if swapped s2 = [] then admit_loop X s2 b2 (max_batch_tokens s2 - batch_num_tokens b2)
              else Inr (s2, b2)) = Inr (s', b)"
        using sc 1 by (auto simp: schedule_chunked_def result_simps)
      note Q = quiet [OF True]
      have f2: "flows X s s2 b2" by (rule swap_in_flow [OF F(2,1) _ _ _ 2]) (use Q in simp_all)
      have "chunked s1" using ch 1 schedule_running_ok [OF inv e(1,2)] by (auto dest!: walkedD(3) simp: sched_frame_def conf_same_def)
      then obtain p2 new2 where j: "joined X s1 p1 b1 s2 p2 b2 new2"
        using swap_in_loop_ok [OF F(2,3), of "Some (max_batch_tokens s1 - batch_num_tokens b1)"] 2 by auto
      note J = joinedD [OF j]
      have fr2: "sched_frame s s2" by (rule sched_frame_trans [OF fr1 J(3)])
      show ?thesis
      proof (cases "swapped s2 = []")
        case True
        then have a: "admit_loop X s2 b2 (max_batch_tokens s2 - batch_num_tokens b2) = Inr (s', b)" using 3 by simp
        obtain new where "running s' = running s2 @ new" "swapped s' = swapped s2" "swap_out b = swap_out b2"
          "swap_in b = swap_in b2" "\<forall>r \<in> set new. cache_hits X (bm s2) (store s' r)"
          "\<And>x. x \<in> set (running s2) \<union> set (swapped s2) \<Longrightarrow> store s' x = store s2 x"
          using admit_flow [OF J(1,2) a] by metis
        note N = this
        have "\<forall>r \<in> set new. cache_hits X (bm s) (store s' r)"
          using from_cache_frame [OF fr2, of X s' new] N(5) by (simp add: from_cache_def)
        from flows_admitted [OF f2 N(1,2) N(6) this N(3,4)] show ?thesis by simp
      qed (use 3 f2 in simp)
    qed
  next
    case nch: False
    then have sc: "schedule_prefill_priority X s empty_batch = Inr (s', b)" using r by (auto simp: schedule_def result_simps)
    obtain s1 b1 where 1: "(if swapped s = [] then admit_loop X s empty_batch (max_batch_tokens s) else Inr (s, empty_batch)) = Inr (s1, b1)"
      and 2: "(if swapped s = [] \<and> b_seqs b1 \<noteq> [] then Inr (s1, b1) else rbind (schedule_running s1 b1) (\<lambda>(s2, b2).
              if num_preempted b2 = 0 then swap_in_loop s2 b2 None else Inr (s2, b2))) = Inr (s', b)"
      using sc by (auto simp: schedule_prefill_priority_def result_simps)
    obtain new p1 where A: "running s1 = running s @ new" "swapped s1 = swapped s" "b_seqs b1 = new"
        "swap_out b1 = []" "swap_in b1 = []" "\<forall>r \<in> set new. cache_hits X (bm s) (store s1 r)"
        "\<And>x. x \<in> set (running s) \<union> set (swapped s) \<Longrightarrow> store s1 x = store s x"
        "sinv X s1 p1 []" "batch_ok s1 p1 b1" "new = [] \<Longrightarrow> p1 = (\<lambda>_. 0)" "sched_frame s s1"
    proof (cases "swapped s = []")
      case True
      then have a: "admit_loop X s empty_batch (max_batch_tokens s) = Inr (s1, b1)" using 1 by simp
      show ?thesis
      proof (rule admit_flow [OF inv e(1) a])
        fix new p'
        assume h: "running s1 = running s @ new" "swapped s1 = swapped s" "b_seqs b1 = b_seqs empty_batch @ new"
          "swap_out b1 = swap_out empty_batch" "swap_in b1 = swap_in empty_batch"
          "\<forall>r \<in> set new. cache_hits X (bm s) (store s1 r)"
          "\<And>x. x \<in> set (running s) \<union> set (swapped s) \<Longrightarrow> store s1 x = store s x"
          "sinv X s1 p' []" "batch_ok s1 p' b1" "new = [] \<Longrightarrow> b_seqs empty_batch = [] \<Longrightarrow> p' = (\<lambda>_. 0)" "sched_frame s s1"
        show ?thesis
          by (rule that [of new p', OF h(1,2) _ _ _ h(6,7,8,9) _ h(11)]) (use h(3,4,5,10) e in simp_all)
      qed
    next
      case False
      then have "s1 = s" "b1 = empty_batch" using 1 by simp_all
      then show ?thesis using that [of "[]" "\<lambda>_. 0"] inv e by simp
    qed
    have base: "flows X s s1 b1"
      unfolding flows_def run_kept_def host_kept_def using A by auto
    show ?thesis
    proof (cases "swapped s = [] \<and> b_seqs b1 \<noteq> []")
      case True
      then show ?thesis using 2 base by simp
    next
      case no: False
      then have n: "new = []" using A(1,3) 1 e(2) by (cases "swapped s = []") auto
      then have z: "p1 = (\<lambda>_. 0)" using A(10) by simp
      obtain s2 b2 where 3: "schedule_running s1 b1 = Inr (s2, b2)" and
        4: "(if num_preempted b2 = 0 then swap_in_loop s2 b2 None else Inr (s2, b2)) = Inr (s', b)"
        using 2 no by (auto simp: result_simps split: if_splits)
      have b1: "b_seqs b1 = []" using A(3) n by simp
      have np: "num_preempted b1 = 0"
      proof (cases "swapped s = []")
        case True
        then obtain p' new' where "admits X s (\<lambda>_. 0) empty_batch (max_batch_tokens s) s1 p' b1 new'"
          using admit_loop_ok [OF inv e(1), of "max_batch_tokens s"] 1 by auto
        then show ?thesis using e(5) by (simp add: admits_def joined_def)
      qed (use 1 e(5) in auto)
      have inv1: "sinv X s1 (\<lambda>_. 0) []" "batch_ok s1 (\<lambda>_. 0) b1" using A(8,9) z by simp_all
      from schedule_running_flow [OF inv1 b1 A(4,5) 3] obtain p2 where
        F: "flows X s1 s2 b2" "sinv X s2 p2 []" and
        quiet: "num_preempted b2 = 0 \<Longrightarrow> swap_out b2 = [] \<and> swapped s2 = swapped s1 \<and> (\<forall>x \<in> set (swapped s1). store s2 x = store s1 x)"
        unfolding np by blast
      have "flows X s1 s' b"
      proof (cases "num_preempted b2 = 0")
        case True
        then have l: "swap_in_loop s2 b2 None = Inr (s', b)" using 4 by simp
        show ?thesis by (rule swap_in_flow [OF F(2,1) _ _ _ l]) (use quiet [OF True] in simp_all)
      qed (use 4 F(1) in simp)
      from flows_cong [OF _ A(2) A(7) this A(11)] A(1) n show ?thesis by simp
    qed
  qed
qed

end
