(* ===== verification/Swap_Copy.thy ===== *)
theory Swap_Copy
  imports Model_Runner Index_Lemmas
begin

text \<open>
  What the page copies of a step do: a swap-out leaves the device cache alone and every listed host page
  equal to its device page; a swap-in the reverse; pages not listed keep their rows.
\<close>

section \<open>Scattering\<close>

text \<open>A scatter whose repeated destinations agree.\<close>

lemma foldM_list_set_agree:
  assumes "\<forall>(i, v) \<in> set ps. i < length xs" and "\<And>i v w. (i, v) \<in> set ps \<Longrightarrow> (i, w) \<in> set ps \<Longrightarrow> v = w"
  shows "\<exists>ys. foldM (\<lambda>ys (i, v). list_set ys i v) xs ps = Inr ys \<and> length ys = length xs \<and>
     (\<forall>(i, v) \<in> set ps. ys ! i = v) \<and> (\<forall>i. i \<notin> fst ` set ps \<longrightarrow> ys ! i = xs ! i)"
  using assms
proof (induction ps arbitrary: xs)
  case (Cons p ps)
  obtain i v where p: "p = (i, v)" by (cases p)
  have i: "i < length xs" using Cons.prems(1) p by simp
  have "\<exists>ys. foldM (\<lambda>ys (i, v). list_set ys i v) (xs[i := v]) ps = Inr ys \<and> length ys = length (xs[i := v]) \<and>
     (\<forall>(i, v) \<in> set ps. ys ! i = v) \<and> (\<forall>j. j \<notin> fst ` set ps \<longrightarrow> ys ! j = xs[i := v] ! j)"
    by (rule Cons.IH) (use Cons.prems in \<open>auto\<close>)
  then obtain ys where ys: "foldM (\<lambda>ys (i, v). list_set ys i v) (xs[i := v]) ps = Inr ys" "length ys = length xs"
     "\<forall>(i, v) \<in> set ps. ys ! i = v" "\<forall>j. j \<notin> fst ` set ps \<longrightarrow> ys ! j = xs[i := v] ! j" by auto
  have "ys ! i = v"
  proof (cases "i \<in> fst ` set ps")
    case True
    then obtain w where w: "(i, w) \<in> set ps" by auto
    then have "v = w" using Cons.prems(2) [of i v w] p by simp
    with w ys(3) show ?thesis by auto
  qed (use ys(4) i in simp)
  then show ?case using ys i p by (auto simp: list_set_def intro!: exI [of _ ys])
qed simp

definition single_source :: "('i \<times> 'j) list \<Rightarrow> bool" where
  "single_source ps \<longleftrightarrow> (\<forall>a a' j. (a, j) \<in> set ps \<longrightarrow> (a', j) \<in> set ps \<longrightarrow> a = a')"

lemma copy_pages_ok:
  assumes src: "\<forall>(i, j) \<in> set prs. i < length xs \<and> j < length ys"
    and agree: "single_source prs"
  shows "\<exists>zs. copy_pages xs (map fst prs) ys (map snd prs) = Inr zs \<and> length zs = length ys \<and>
     (\<forall>(i, j) \<in> set prs. zs ! j = xs ! i) \<and> (\<forall>j. j \<notin> snd ` set prs \<longrightarrow> zs ! j = ys ! j)"
proof -
  have sel: "index_select xs (map fst prs) = Inr (map (\<lambda>p. xs ! fst p) prs)"
    using src by (subst index_select_ok) auto
  have zip: "zip (map snd prs) (map (\<lambda>p. xs ! fst p) prs) = map (\<lambda>p. (snd p, xs ! fst p)) prs"
    by (induction prs) simp_all
  have "\<exists>zs. foldM (\<lambda>ys (i, v). list_set ys i v) ys (map (\<lambda>p. (snd p, xs ! fst p)) prs) = Inr zs \<and> length zs = length ys \<and>
     (\<forall>(i, v) \<in> set (map (\<lambda>p. (snd p, xs ! fst p)) prs). zs ! i = v) \<and>
     (\<forall>i. i \<notin> fst ` set (map (\<lambda>p. (snd p, xs ! fst p)) prs) \<longrightarrow> zs ! i = ys ! i)"
  proof (rule foldM_list_set_agree)
    show "\<forall>(i, v) \<in> set (map (\<lambda>p. (snd p, xs ! fst p)) prs). i < length ys" using src by auto
    show "v = w" if "(j, v) \<in> set (map (\<lambda>p. (snd p, xs ! fst p)) prs)" "(j, w) \<in> set (map (\<lambda>p. (snd p, xs ! fst p)) prs)" for j v w
    proof -
      from that obtain a b where "(a, j) \<in> set prs" "v = xs ! a" "(b, j) \<in> set prs" "w = xs ! b" by auto
      with agree [unfolded single_source_def, rule_format, of a j b] show ?thesis by simp
    qed
  qed
  then show ?thesis
    unfolding copy_pages_def sel rbind_simps index_copy_def by (simp add: zip image_image) (auto simp: split_beta)
qed

section \<open>Pages\<close>

lemma length_pages_of [simp]: "length (pages_of bs xs) = length xs div bs" by (simp add: pages_of_def)

lemma nth_pages_of:
  assumes "i < length xs div bs" and "k < bs"
  shows "pages_of bs xs ! i ! k = xs ! (i * bs + k)" and "length (pages_of bs xs ! i) = bs"
proof -
  have "Suc i * bs \<le> length xs div bs * bs" using assms(1) by (intro mult_le_mono1) simp
  also have "\<dots> \<le> length xs" by simp
  finally have "i * bs + bs \<le> length xs" by simp
  then show "pages_of bs xs ! i ! k = xs ! (i * bs + k)" "length (pages_of bs xs ! i) = bs"
    using assms by (simp_all add: pages_of_def py_slice_def)
qed

lemma nth_concat_pages:
  assumes "\<forall>p \<in> set ps. length p = bs" and "i < length ps" and "k < bs"
  shows "concat ps ! (i * bs + k) = ps ! i ! k" and "length (concat ps) = length ps * bs"
proof -
  show "length (concat ps) = length ps * bs"
    using assms(1) by (induction ps) simp_all
  show "concat ps ! (i * bs + k) = ps ! i ! k"
    using assms
  proof (induction ps arbitrary: i)
    case (Cons p ps)
    then show ?case by (cases i) (simp_all add: nth_append)
  qed simp
qed

section \<open>A layer\<close>

text \<open>Row \<open>k\<close> of page \<open>i\<close>, on the device and on the host.\<close>

definition dev_row :: "'a kv_cache \<Rightarrow> nat \<Rightarrow> nat \<Rightarrow> nat \<Rightarrow> 'a row \<times> 'a row" where
  "dev_row c l i k = (fst (kv_data c ! l) ! (i * kv_block_size c + k), snd (kv_data c ! l) ! (i * kv_block_size c + k))"

definition host_row :: "'a host_pages \<Rightarrow> nat \<Rightarrow> nat \<Rightarrow> nat \<Rightarrow> 'a row \<times> 'a row" where
  "host_row h l i k = (fst (h ! l) ! i ! k, snd (h ! l) ! i ! k)"

text \<open>\<open>layers\<close> layers of \<open>n\<close> device pages and \<open>m\<close> host pages of \<open>bs\<close> rows.\<close>

definition dev_shape :: "nat \<Rightarrow> nat \<Rightarrow> 'a kv_cache \<Rightarrow> bool" where
  "dev_shape layers n c \<longleftrightarrow> length (kv_data c) = layers \<and> 0 < kv_block_size c \<and>
     (\<forall>kv \<in> set (kv_data c). length (fst kv) = n * kv_block_size c \<and> length (snd kv) = n * kv_block_size c)"

definition host_shape :: "nat \<Rightarrow> nat \<Rightarrow> nat \<Rightarrow> 'a host_pages \<Rightarrow> bool" where
  "host_shape layers m bs h \<longleftrightarrow> length h = layers \<and>
     (\<forall>kv \<in> set h. length (fst kv) = m \<and> length (snd kv) = m \<and>
        (\<forall>p \<in> set (fst kv). length p = bs) \<and> (\<forall>p \<in> set (snd kv). length p = bs))"

lemma mapM_zip_nth:
  assumes "length xs = length ys"
    and step: "\<And>l. l < length xs \<Longrightarrow> \<exists>z. f (xs ! l, ys ! l) = Inr z \<and> Q l z"
  shows "\<exists>zs. mapM f (zip xs ys) = Inr zs \<and> length zs = length xs \<and> (\<forall>l < length xs. Q l (zs ! l))"
  using assms
proof (induction xs ys arbitrary: Q rule: list_induct2)
  case (Cons x xs y ys)
  from Cons.prems [of 0] obtain z where z: "f (x, y) = Inr z" "Q 0 z" by auto
  have "\<exists>zs. mapM f (zip xs ys) = Inr zs \<and> length zs = length xs \<and> (\<forall>l < length xs. Q (Suc l) (zs ! l))"
    by (rule Cons.IH) (use Cons.prems [of "Suc _"] in fastforce)
  then obtain zs where zs: "mapM f (zip xs ys) = Inr zs" "length zs = length xs" "\<forall>l < length xs. Q (Suc l) (zs ! l)"
    by blast
  have "\<forall>l < length (x # xs). Q l ((z # zs) ! l)" using z zs(3) by (simp add: All_less_Suc2)
  then show ?case using z(1) zs(1,2) by (intro exI [of _ "z # zs"]) simp
qed simp

section \<open>Swapping out\<close>

lemma run_swap_out_ok:
  assumes dev: "dev_shape layers n (dev_cache d)" and host: "host_cache d = Some h" "host_shape layers m (kv_block_size (dev_cache d)) h"
    and prs: "\<forall>(g, c) \<in> set prs. g < n \<and> c < m" and agree: "single_source prs"
  shows "\<exists>h'. run_swap_out d prs = Inr (d\<lparr>host_cache := Some h'\<rparr>) \<and> host_shape layers m (kv_block_size (dev_cache d)) h' \<and>
     (\<forall>l < layers. \<forall>k < kv_block_size (dev_cache d).
        (\<forall>(g, c) \<in> set prs. host_row h' l c k = dev_row (dev_cache d) l g k) \<and>
        (\<forall>c < m. c \<notin> snd ` set prs \<longrightarrow> host_row h' l c k = host_row h l c k))"
proof -
  let ?c = "dev_cache d" and ?bs = "kv_block_size (dev_cache d)"
  define Q where "Q = (\<lambda>l kv. length (fst kv) = m \<and> length (snd kv) = m \<and>
      (\<forall>(g, c) \<in> set prs. fst kv ! c = pages_of ?bs (fst (kv_data ?c ! l)) ! g \<and> snd kv ! c = pages_of ?bs (snd (kv_data ?c ! l)) ! g) \<and>
      (\<forall>c. c \<notin> snd ` set prs \<longrightarrow> fst kv ! c = fst (h ! l) ! c \<and> snd kv ! c = snd (h ! l) ! c))"
  have step: "\<exists>kv. swap_out_layer ?bs prs (kv_data ?c ! l, h ! l) = Inr kv \<and> Q l kv" if l: "l < layers" for l
  proof -
    have d: "length (fst (kv_data ?c ! l)) = n * ?bs" "length (snd (kv_data ?c ! l)) = n * ?bs" "0 < ?bs"
      using dev l nth_mem [of l "kv_data ?c"] by (auto simp: dev_shape_def)
    have hs: "length (fst (h ! l)) = m" "length (snd (h ! l)) = m"
      using host(2) l nth_mem [of l h] by (auto simp: host_shape_def)
    obtain hk where "copy_pages (pages_of ?bs (fst (kv_data ?c ! l))) (map fst prs) (fst (h ! l)) (map snd prs) = Inr hk"
      "length hk = m" "\<forall>(g, c) \<in> set prs. hk ! c = pages_of ?bs (fst (kv_data ?c ! l)) ! g"
      "\<forall>c. c \<notin> snd ` set prs \<longrightarrow> hk ! c = fst (h ! l) ! c"
      using copy_pages_ok [of prs "pages_of ?bs (fst (kv_data ?c ! l))" "fst (h ! l)"] prs agree d hs by auto
    moreover obtain hv where "copy_pages (pages_of ?bs (snd (kv_data ?c ! l))) (map fst prs) (snd (h ! l)) (map snd prs) = Inr hv"
      "length hv = m" "\<forall>(g, c) \<in> set prs. hv ! c = pages_of ?bs (snd (kv_data ?c ! l)) ! g"
      "\<forall>c. c \<notin> snd ` set prs \<longrightarrow> hv ! c = snd (h ! l) ! c"
      using copy_pages_ok [of prs "pages_of ?bs (snd (kv_data ?c ! l))" "snd (h ! l)"] prs agree d hs by auto
    ultimately show ?thesis
      by (intro exI [of _ "(hk, hv)"]) (auto simp: swap_out_layer_def Q_def split_beta)
  qed
  have lens: "length (kv_data ?c) = layers" "length h = layers" using dev host(2) by (simp_all add: dev_shape_def host_shape_def)
  obtain h' where h': "mapM (swap_out_layer ?bs prs) (zip (kv_data ?c) h) = Inr h'" "length h' = layers"
      "\<forall>l < layers. Q l (h' ! l)"
    using mapM_zip_nth [of "kv_data ?c" h "swap_out_layer ?bs prs" Q] step lens by auto
  have page: "length (pages_of ?bs (f (kv_data ?c ! l)) ! g) = ?bs"
      "k < ?bs \<Longrightarrow> pages_of ?bs (f (kv_data ?c ! l)) ! g ! k = f (kv_data ?c ! l) ! (g * ?bs + k)"
    if "l < layers" "g < n" "f = fst \<or> f = snd" for l g k f
    using nth_pages_of [of g "f (kv_data ?c ! l)" ?bs k] nth_pages_of(2) [of g "f (kv_data ?c ! l)" ?bs 0]
      dev that nth_mem [of l "kv_data ?c"] by (auto simp: dev_shape_def)
  have "host_shape layers m ?bs h'"
    unfolding host_shape_def
  proof (intro conjI ballI)
    fix kv assume "kv \<in> set h'"
    then obtain l where l: "l < layers" "kv = h' ! l" using h'(2) by (auto simp: in_set_conv_nth)
    then have q: "Q l kv" using h'(3) by simp
    then show "length (fst kv) = m" "length (snd kv) = m" by (simp_all add: Q_def)
    have "h ! l \<in> set h" using host(2) l(1) by (simp add: host_shape_def)
    then have hl: "length (fst (h ! l)) = m" "length (snd (h ! l)) = m"
        "\<forall>p \<in> set (fst (h ! l)). length p = ?bs" "\<forall>p \<in> set (snd (h ! l)). length p = ?bs"
      using host(2) unfolding host_shape_def by blast+
    have old: "length (f (h ! l) ! c) = ?bs" if c: "c < m" "f = fst \<or> f = snd" for c f
      using c(2)
    proof
      assume "f = fst"
      then show ?thesis using hl(1,3) c(1) nth_mem by fastforce
    next
      assume "f = snd"
      then show ?thesis using hl(2,4) c(1) nth_mem by fastforce
    qed
    have "length (f kv ! c) = ?bs" if c: "c < m" "f = fst \<or> f = snd" for c f
    proof (cases "c \<in> snd ` set prs")
      case True
      then obtain g where "(g, c) \<in> set prs" by auto
      with q prs page(1) [OF l(1), of g] c(2) show ?thesis by (fastforce simp: Q_def)
    next
      case False
      with q old [OF c] c(2) show ?thesis by (auto simp: Q_def)
    qed
    then show "length p = ?bs" if "p \<in> set (fst kv)" for p using that q by (auto simp: Q_def in_set_conv_nth)
    show "length p = ?bs" if "p \<in> set (snd kv)" for p
      using that q \<open>\<And>f c. c < m \<Longrightarrow> f = fst \<or> f = snd \<Longrightarrow> length (f kv ! c) = ?bs\<close> by (auto simp: Q_def in_set_conv_nth)
  qed (rule h'(2))
  moreover have "run_swap_out d prs = Inr (d\<lparr>host_cache := Some h'\<rparr>)"
    using host(1) h'(1) by (simp add: run_swap_out_def)
  moreover have "host_row h' l c k = dev_row ?c l g k" if "l < layers" "k < ?bs" "(g, c) \<in> set prs" for l k g c
    using h'(3) that prs page(2) [OF that(1), of g] by (fastforce simp: Q_def host_row_def dev_row_def)
  moreover have "host_row h' l c k = host_row h l c k" if "l < layers" "c \<notin> snd ` set prs" for l k c
    using h'(3) that by (simp add: Q_def host_row_def)
  ultimately show ?thesis by blast
qed

section \<open>Swapping in\<close>

lemma host_shapeD:
  assumes "host_shape layers m bs h" and "l < layers"
  shows "length (fst (h ! l)) = m" "length (snd (h ! l)) = m"
    and "c < m \<Longrightarrow> length (fst (h ! l) ! c) = bs" "c < m \<Longrightarrow> length (snd (h ! l) ! c) = bs"
proof -
  have "h ! l \<in> set h" using assms by (simp add: host_shape_def)
  then have hl: "length (fst (h ! l)) = m" "length (snd (h ! l)) = m"
      "\<forall>p \<in> set (fst (h ! l)). length p = bs" "\<forall>p \<in> set (snd (h ! l)). length p = bs"
    using assms(1) unfolding host_shape_def by blast+
  then show "length (fst (h ! l)) = m" "length (snd (h ! l)) = m"
    "c < m \<Longrightarrow> length (fst (h ! l) ! c) = bs" "c < m \<Longrightarrow> length (snd (h ! l) ! c) = bs"
    using nth_mem by fastforce+
qed

lemma dev_shapeD:
  assumes "dev_shape layers n c" and "l < layers"
  shows "length (fst (kv_data c ! l)) = n * kv_block_size c" "length (snd (kv_data c ! l)) = n * kv_block_size c"
  using assms nth_mem [of l "kv_data c"] by (auto simp: dev_shape_def)

text \<open>One of the two halves of a layer.\<close>

lemma copy_in_half:
  assumes bs: "0 < bs" and k: "length k = n * bs" and h: "length h = m" "\<And>c. c < m \<Longrightarrow> length (h ! c) = bs"
    and prs: "\<forall>(c, g) \<in> set prs. c < m \<and> g < n" and agree: "single_source prs"
  shows "\<exists>ps. copy_pages h (map fst prs) (pages_of bs k) (map snd prs) = Inr ps \<and> length (concat ps) = n * bs \<and>
     (\<forall>j < bs. (\<forall>(c, g) \<in> set prs. concat ps ! (g * bs + j) = h ! c ! j) \<and>
        (\<forall>g < n. g \<notin> snd ` set prs \<longrightarrow> concat ps ! (g * bs + j) = k ! (g * bs + j)))"
proof -
  have n: "length k div bs = n" using k bs by simp
  obtain ps where ps: "copy_pages h (map fst prs) (pages_of bs k) (map snd prs) = Inr ps" "length ps = n"
      "\<forall>(c, g) \<in> set prs. ps ! g = h ! c" "\<forall>g. g \<notin> snd ` set prs \<longrightarrow> ps ! g = pages_of bs k ! g"
    using copy_pages_ok [of prs h "pages_of bs k"] prs agree h(1) n by auto
  have page: "length (ps ! g) = bs" if "g < n" for g
  proof (cases "g \<in> snd ` set prs")
    case True
    then obtain c where c: "(c, g) \<in> set prs" by auto
    then have "ps ! g = h ! c" "c < m" using ps(3) prs by auto
    then show ?thesis using h(2) by simp
  next
    case False
    then have "ps ! g = pages_of bs k ! g" using ps(4) by blast
    then show ?thesis using nth_pages_of(2) [of g k bs 0] that n bs by simp
  qed
  then have all: "\<forall>p \<in> set ps. length p = bs" using ps(2) by (metis in_set_conv_nth)
  have row: "concat ps ! (g * bs + j) = ps ! g ! j" if "g < n" "j < bs" for g j
    by (rule nth_concat_pages(1) [OF all]) (use that ps(2) in simp_all)
  have "length (concat ps) = n * bs" 
  proof (cases n)
    case 0
    then show ?thesis using ps(2) by simp
  next
    case (Suc m')
    then show ?thesis using nth_concat_pages(2) [OF all, of 0 0] ps(2) bs by simp
  qed
  moreover have "concat ps ! (g * bs + j) = h ! c ! j" if "(c, g) \<in> set prs" "j < bs" for c g j
    using row [of g j] that prs ps(3) by fastforce
  moreover have "concat ps ! (g * bs + j) = k ! (g * bs + j)" if "g < n" "g \<notin> snd ` set prs" "j < bs" for g j
    using row [of g j] that ps(4) nth_pages_of(1) [of g k bs j] n by simp
  ultimately show ?thesis using ps(1) by blast
qed

lemma run_swap_in_ok:
  assumes dev: "dev_shape layers n (dev_cache d)" and host: "host_cache d = Some h" "host_shape layers m (kv_block_size (dev_cache d)) h"
    and prs: "\<forall>(c, g) \<in> set prs. c < m \<and> g < n" and agree: "single_source prs"
  shows "\<exists>data. run_swap_in d prs = Inr (d\<lparr>dev_cache := (dev_cache d)\<lparr>kv_data := data\<rparr>\<rparr>) \<and>
     dev_shape layers n ((dev_cache d)\<lparr>kv_data := data\<rparr>) \<and>
     (\<forall>l < layers. \<forall>k < kv_block_size (dev_cache d).
        (\<forall>(c, g) \<in> set prs. dev_row ((dev_cache d)\<lparr>kv_data := data\<rparr>) l g k = host_row h l c k) \<and>
        (\<forall>g < n. g \<notin> snd ` set prs \<longrightarrow> dev_row ((dev_cache d)\<lparr>kv_data := data\<rparr>) l g k = dev_row (dev_cache d) l g k))"
proof -
  let ?c = "dev_cache d" and ?bs = "kv_block_size (dev_cache d)"
  define half where "half = (\<lambda>k' k hk. length k' = n * ?bs \<and>
     (\<forall>j < ?bs. (\<forall>(c, g) \<in> set prs. k' ! (g * ?bs + j) = (hk :: 'a row list list) ! c ! j) \<and>
        (\<forall>g < n. g \<notin> snd ` set prs \<longrightarrow> k' ! (g * ?bs + j) = (k :: 'a row list) ! (g * ?bs + j))))"
  define Q where "Q = (\<lambda>l kv. half (fst kv) (fst (kv_data ?c ! l)) (fst (h ! l)) \<and> half (snd kv) (snd (kv_data ?c ! l)) (snd (h ! l)))"
  have bs: "0 < ?bs" using dev by (simp add: dev_shape_def)
  have step: "\<exists>kv. swap_in_layer ?bs prs (kv_data ?c ! l, h ! l) = Inr kv \<and> Q l kv" if l: "l < layers" for l
  proof -
    note H = host_shapeD [OF host(2) l] and D = dev_shapeD [OF dev l]
    have c1: "\<exists>ks. copy_pages (fst (h ! l)) (map fst prs) (pages_of ?bs (fst (kv_data ?c ! l))) (map snd prs) = Inr ks \<and>
        half (concat ks) (fst (kv_data ?c ! l)) (fst (h ! l))"
      unfolding half_def by (rule copy_in_half) (fact bs D(1) H(1) prs agree | erule H(3))+
    have c2: "\<exists>vs. copy_pages (snd (h ! l)) (map fst prs) (pages_of ?bs (snd (kv_data ?c ! l))) (map snd prs) = Inr vs \<and>
        half (concat vs) (snd (kv_data ?c ! l)) (snd (h ! l))"
      unfolding half_def by (rule copy_in_half) (fact bs D(2) H(2) prs agree | erule H(4))+
    obtain ks where "copy_pages (fst (h ! l)) (map fst prs) (pages_of ?bs (fst (kv_data ?c ! l))) (map snd prs) = Inr ks"
      "half (concat ks) (fst (kv_data ?c ! l)) (fst (h ! l))"
      using c1 by blast
    moreover obtain vs where "copy_pages (snd (h ! l)) (map fst prs) (pages_of ?bs (snd (kv_data ?c ! l))) (map snd prs) = Inr vs"
      "half (concat vs) (snd (kv_data ?c ! l)) (snd (h ! l))"
      using c2 by blast
    ultimately show ?thesis
      by (intro exI [of _ "(concat ks, concat vs)"]) (simp add: swap_in_layer_def Q_def split_beta)
  qed
  have lens: "length (kv_data ?c) = layers" "length h = layers" using dev host(2) by (simp_all add: dev_shape_def host_shape_def)
  obtain data where data: "mapM (swap_in_layer ?bs prs) (zip (kv_data ?c) h) = Inr data" "length data = layers"
      "\<forall>l < layers. Q l (data ! l)"
    using mapM_zip_nth [of "kv_data ?c" h "swap_in_layer ?bs prs" Q] step lens by auto
  have "run_swap_in d prs = Inr (d\<lparr>dev_cache := ?c\<lparr>kv_data := data\<rparr>\<rparr>)"
    using host(1) data(1) by (simp add: run_swap_in_def)
  moreover have "dev_shape layers n (?c\<lparr>kv_data := data\<rparr>)"
  proof -
    have "length (fst kv) = n * ?bs \<and> length (snd kv) = n * ?bs" if "kv \<in> set data" for kv
      using that data(2,3) by (metis (no_types, lifting) Q_def half_def in_set_conv_nth)
    then show ?thesis using data(2) bs by (simp add: dev_shape_def)
  qed
  moreover have "dev_row (?c\<lparr>kv_data := data\<rparr>) l g k = host_row h l c k"
    if "l < layers" "k < ?bs" "(c, g) \<in> set prs" for l k c g
    using data(3) that by (fastforce simp: Q_def half_def dev_row_def host_row_def)
  moreover have "dev_row (?c\<lparr>kv_data := data\<rparr>) l g k = dev_row ?c l g k"
    if "l < layers" "k < ?bs" "g < n" "g \<notin> snd ` set prs" for l k g
    using data(3) that by (simp add: Q_def half_def dev_row_def)
  ultimately show ?thesis by blast
qed

end
