(* ===== verification/Sampler.thy ===== *)
theory Sampler
  imports Seq_State Attention
begin

text \<open>
  The tensor half of \<open>engine/core/sampler.py\<close>: \<open>Sampler.prepare\<close>, \<open>Sampler.__call__\<close> and
  \<open>top_p_filter\<close>, row by row. The numbers of a row are exact; a row of NaNs, which a division by zero
  leaves, is \<open>None\<close>. The rounding to float32, the softmax at a temperature, torch's sort (whose order among
  equal values is unspecified) and the draws of \<open>torch.multinomial\<close> are parameters; its precondition, and
  the errors it raises when a row does not meet it, are written out.
\<close>

section \<open>What torch provides\<close>

text \<open>
  \<open>to_float32 x\<close> is the entry \<open>torch.tensor([x], dtype=torch.float32)\<close> holds; \<open>softmax_at t row\<close> is
  \<open>softmax(row / t)\<close>, \<open>None\<close> when that is a row of NaNs; \<open>sort_order row\<close> the indices
  \<open>sort(descending=True)\<close> returns; \<open>manual_seed\<close> the generator's first state; \<open>multinomial g rows\<close> the
  draws for rows that are distributions, one index per row, and the generator's next state.
\<close>

record 'a torch =
  to_float32 :: "pyfloat \<Rightarrow> pyfloat"
  softmax_at :: "pyfloat \<Rightarrow> 'a list \<Rightarrow> 'a list option"
  sort_order :: "'a list \<Rightarrow> nat list"
  manual_seed :: "int \<Rightarrow> nat"
  multinomial :: "nat \<Rightarrow> 'a list list \<Rightarrow> nat list \<times> nat"

definition descending_order :: "'a::linorder list \<Rightarrow> nat list \<Rightarrow> bool" where
  "descending_order xs os \<longleftrightarrow> mset os = mset [0..<length xs] \<and> sorted_wrt (\<ge>) (map ((!) xs) os)"

section \<open>Parameters of a batch\<close>

record sampling_tensors =
  temperatures :: "pyfloat list option"
  top_ps :: "pyfloat list option"
  greedy :: "bool list option"
  all_greedy :: bool

text \<open>The tensors hold float32 values; the tests are made on the Python floats.\<close>

definition sampler_prepare :: "'a torch \<Rightarrow> sampling_params list \<Rightarrow> sampling_tensors" where
  "sampler_prepare T ps =
     (if list_all (\<lambda>p. py_eq (temperature p) 0) ps
      then \<lparr>temperatures = None, top_ps = None, greedy = None, all_greedy = True\<rparr>
      else \<lparr>temperatures = Some (map (\<lambda>p. to_float32 T (if 0 < temperature p then temperature p else 1)) ps),
            top_ps = (if list_ex (\<lambda>p. top_p p < 1) ps then Some (map (\<lambda>p. to_float32 T (top_p p)) ps) else None),
            greedy = Some (map (\<lambda>p. py_eq (temperature p) 0) ps), all_greedy = False\<rparr>)"

section \<open>Sampling\<close>

text \<open>\<open>argmax\<close> of a row: the first index of its maximum; an empty row is an error.\<close>

fun argmax_from :: "('a::linorder) \<Rightarrow> nat \<Rightarrow> nat \<Rightarrow> 'a list \<Rightarrow> nat" where
  "argmax_from best i k [] = i"
| "argmax_from best i k (x # xs) = (if best < x then argmax_from x k (Suc k) xs else argmax_from best i (Suc k) xs)"

definition argmax :: "('a::linorder) list \<Rightarrow> nat result" where
  "argmax row = (case row of [] \<Rightarrow> Inl IndexError | x # xs \<Rightarrow> Inr (argmax_from x 0 1 xs))"

text \<open>\<open>m > p\<close> for a number of the tensor and a Python float.\<close>

fun exceeds :: "('a::linordered_field) \<Rightarrow> pyfloat \<Rightarrow> bool" where
  "exceeds m (PyFin q) = (m > of_rat q)"
| "exceeds m PyNegInf = True"
| "exceeds m PyInf = False"
| "exceeds m PyNaN = False"

definition cumsum :: "('a::ab_group_add) list \<Rightarrow> 'a list" where
  "cumsum xs = map (\<lambda>i. sum_list (take (Suc i) xs)) [0..<length xs]"

definition scatter :: "nat \<Rightarrow> nat list \<Rightarrow> 'a::zero list \<Rightarrow> 'a list" where
  "scatter n idx src = foldl (\<lambda>ys (i, v). ys[i := v]) (replicate n 0) (zip idx src)"

text \<open>\<open>top_p_filter\<close> of one row: dividing by a sum of zero leaves a row of NaNs.\<close>

definition top_p_row :: "('a::linordered_field) torch \<Rightarrow> pyfloat \<Rightarrow> 'a list \<Rightarrow> 'a list option" where
  "top_p_row T tp probs =
     (let order = sort_order T probs;
          sorted_probs = map ((!) probs) order;
          mass_before = map2 (-) (cumsum sorted_probs) sorted_probs;
          masked = map2 (\<lambda>m x. if exceeds m tp then 0 else x) mass_before sorted_probs;
          filtered = scatter (length probs) order masked
      in if sum_list filtered = 0 then None else Some (map (\<lambda>x. x / sum_list filtered) filtered))"

text \<open>
  \<open>torch.multinomial(probs, 1)\<close>: every row has to hold finite, non-negative numbers of a positive sum, and
  the call raises before it draws when one does not. (Its limit of \<open>2 ^ 24\<close> categories is above any vocabulary.)
\<close>

definition nan_error :: py_error where
  "nan_error = RuntimeError ''probability tensor contains either `inf`, `nan` or element < 0''"

definition zero_sum_error :: py_error where
  "zero_sum_error = RuntimeError ''invalid multinomial distribution (sum of probabilities <= 0)''"

definition multinomial_call ::
  "('a::linordered_field) torch \<Rightarrow> nat \<Rightarrow> 'a list option list \<Rightarrow> (nat list \<times> nat) result" where
  "multinomial_call T g probs =
     (if list_ex (\<lambda>row. case row of None \<Rightarrow> True | Some xs \<Rightarrow> list_ex (\<lambda>x. x < 0) xs) probs then Inl nan_error
      else if list_ex (\<lambda>row. sum_list (the row) \<le> 0) probs then Inl zero_sum_error
      else Inr (multinomial T g (map the probs)))"

definition sampler_call ::
  "('a::linordered_field) torch \<Rightarrow> nat \<Rightarrow> 'a list list \<Rightarrow> sampling_tensors \<Rightarrow> (int list \<times> nat) result" where
  "sampler_call T g logits t =
     (if all_greedy t then rbind (mapM argmax logits) (\<lambda>is. Inr (map int is, g))
      else
        let probs0 = map2 (softmax_at T) (the (temperatures t)) logits;
            probs = (case top_ps t of None \<Rightarrow> probs0
                     | Some tps \<Rightarrow> map2 (\<lambda>tp row. Option.bind row (top_p_row T tp)) tps probs0)
        in rbind (multinomial_call T g probs) (\<lambda>(sampled, g').
           rbind (mapM argmax logits) (\<lambda>is.
             Inr (map int (map2 (\<lambda>c (a, b). if c then a else b) (the (greedy t)) (zip is sampled)), g'))))"

section \<open>Greedy rows\<close>

lemma argmax_from_spec:
  assumes "i < k" and "row ! i = best" and "\<And>j. j < k \<Longrightarrow> row ! j \<le> best" and "\<And>j. j < i \<Longrightarrow> row ! j < best"
    and "drop k row = xs" and "k \<le> length row"
  shows "argmax_from best i k xs < length row \<and> (\<forall>j < length row. row ! j \<le> row ! argmax_from best i k xs) \<and>
    (\<forall>j < argmax_from best i k xs. row ! j < row ! argmax_from best i k xs)"
  using assms
proof (induction best i k xs rule: argmax_from.induct)
  case (1 best i k)
  then show ?case by auto
next
  case (2 best i k x xs)
  have "drop k row \<noteq> []" using 2(7) by simp
  then have k: "k < length row" by simp
  have x: "row ! k = x" using 2(7) by (rule nth_via_drop)
  have xs: "drop (Suc k) row = xs" using 2(7) by (metis drop_Suc list.sel(3) tl_drop)
  show ?case
  proof (cases "best < x")
    case True
    have lt: "row ! j < x" if "j < k" for j using 2(5) [OF that] True by simp
    have "row ! j \<le> x" if "j < Suc k" for j
      using lt [of j] that x by (cases "j = k") simp_all
    from 2(1) [OF True lessI x this lt xs] k True show ?thesis by simp
  next
    case False
    have "row ! j \<le> best" if "j < Suc k" for j
      using 2(5) [of j] that x False by (cases "j = k") simp_all
    from 2(2) [OF False less_SucI [OF 2(3)] 2(4) this 2(6) xs] k False show ?thesis by simp
  qed
qed

lemma argmax_spec:
  assumes "row \<noteq> []"
  shows "\<exists>i. argmax row = Inr i \<and> i < length row \<and> (\<forall>j < length row. row ! j \<le> row ! i) \<and> (\<forall>j < i. row ! j < row ! i)"
proof -
  obtain x xs where row: "row = x # xs" using assms by (cases row) auto
  have "argmax_from x 0 1 xs < length row \<and> (\<forall>j < length row. row ! j \<le> row ! argmax_from x 0 1 xs) \<and>
    (\<forall>j < argmax_from x 0 1 xs. row ! j < row ! argmax_from x 0 1 xs)"
    by (rule argmax_from_spec) (use row in auto)
  with row show ?thesis by (simp add: argmax_def)
qed

section \<open>The nucleus\<close>

lemma foldl_update:
  assumes "length idx = length src" and "distinct idx" and "\<forall>i \<in> set idx. i < length ys"
  defines "zs \<equiv> foldl (\<lambda>ys (i, v). ys[i := v]) ys (zip idx src)"
  shows "length zs = length ys \<and> map ((!) zs) idx = src \<and> (\<forall>i. i \<notin> set idx \<longrightarrow> zs ! i = ys ! i)"
  using assms(1-3) unfolding zs_def
proof (induction idx src arbitrary: ys rule: list_induct2)
  case (Cons i idx v src)
  then have "length (foldl (\<lambda>ys (i, v). ys[i := v]) (ys[i := v]) (zip idx src)) = length (ys[i := v]) \<and>
      map ((!) (foldl (\<lambda>ys (i, v). ys[i := v]) (ys[i := v]) (zip idx src))) idx = src \<and>
      (\<forall>j. j \<notin> set idx \<longrightarrow> foldl (\<lambda>ys (i, v). ys[i := v]) (ys[i := v]) (zip idx src) ! j = ys[i := v] ! j)"
    by (intro Cons.IH) simp_all
  with Cons.prems show ?case by (simp add: nth_list_update)
qed simp

lemma map_nth_order: "mset os = mset [0..<length xs] \<Longrightarrow> mset (map ((!) xs) os) = mset xs"
  by (metis map_nth mset_map)

lemma mass_before_eq: "map2 (-) (cumsum xs) xs = map (\<lambda>i. sum_list (take i xs)) [0..<length xs]"
  by (rule nth_equalityI) (simp_all add: cumsum_def take_Suc_conv_app_nth)

lemma sum_take_mono:
  assumes "\<forall>x \<in> set xs. (0::'a::linordered_field) \<le> x" and "i \<le> j"
  shows "sum_list (take i xs) \<le> sum_list (take j xs)"
proof -
  have "take j xs = take i xs @ take (j - i) (drop i xs)"
    using assms(2) by (metis le_add_diff_inverse take_add)
  moreover have "0 \<le> sum_list (take (j - i) (drop i xs))"
    by (rule sum_list_nonneg) (meson assms(1) in_set_dropD in_set_takeD)
  ultimately show ?thesis by simp
qed

text \<open>How many tokens, in descending order, the filter keeps.\<close>

definition nucleus_size :: "pyfloat \<Rightarrow> ('a::linordered_field) list \<Rightarrow> nat" where
  "nucleus_size tp xs = length (takeWhile (\<lambda>i. \<not> exceeds (sum_list (take i xs)) tp) [0..<length xs])"

lemma nucleus_kept:
  assumes nn: "\<forall>x \<in> set xs. 0 \<le> x" and tp: "tp = PyFin q" and i: "i < length xs"
  shows "exceeds (sum_list (take i xs)) tp \<longleftrightarrow> nucleus_size tp xs \<le> i"
proof -
  let ?P = "\<lambda>i. \<not> exceeds (sum_list (take i xs)) tp" and ?K = "nucleus_size tp xs"
  have le: "?K \<le> length xs"
    unfolding nucleus_size_def using length_takeWhile_le [of ?P "[0..<length xs]"] by simp
  show ?thesis
  proof (cases "i < ?K")
    case True
    then have "takeWhile ?P [0..<length xs] ! i \<in> set (takeWhile ?P [0..<length xs])"
      unfolding nucleus_size_def by (rule nth_mem)
    moreover have "takeWhile ?P [0..<length xs] ! i = i"
      using True i by (simp add: takeWhile_nth nucleus_size_def)
    ultimately have "?P i" using set_takeWhileD by fastforce
    with True show ?thesis by simp
  next
    case False
    then have K: "?K < length xs" using i by simp
    then have "\<not> ?P ([0..<length xs] ! ?K)"
      unfolding nucleus_size_def by (intro nth_length_takeWhile) simp
    then have "of_rat q < sum_list (take ?K xs)" using K tp by simp
    also have "\<dots> \<le> sum_list (take i xs)" by (rule sum_take_mono [OF nn]) (use False in simp)
    finally show ?thesis using False tp by simp
  qed
qed

lemma nucleus_mass:
  assumes nn: "\<forall>x \<in> set xs. 0 \<le> x" and tp: "tp = PyFin q" "0 < q" and total: "of_rat q \<le> sum_list xs"
  shows "1 \<le> nucleus_size tp xs" "nucleus_size tp xs \<le> length xs"
    and "of_rat q \<le> sum_list (take (nucleus_size tp xs) xs)"
    and "sum_list (take (nucleus_size tp xs - 1) xs) \<le> of_rat q"
proof -
  let ?K = "nucleus_size tp xs"
  show le: "?K \<le> length xs"
    unfolding nucleus_size_def
    using length_takeWhile_le [of "\<lambda>i. \<not> exceeds (sum_list (take i xs)) tp" "[0..<length xs]"] by simp
  have ne: "0 < length xs" using total tp(2) by (cases xs) auto
  have "\<not> exceeds (sum_list (take 0 xs)) tp" using tp by simp
  then show one: "1 \<le> ?K" using nucleus_kept [OF nn tp(1) ne] by simp
  show "of_rat q \<le> sum_list (take ?K xs)"
  proof (cases "?K = length xs")
    case False
    then have "exceeds (sum_list (take ?K xs)) tp" using nucleus_kept [OF nn tp(1), of ?K] le by simp
    then show ?thesis using tp(1) by simp
  qed (use total in simp)
  have "\<not> exceeds (sum_list (take (?K - 1) xs)) tp" using nucleus_kept [OF nn tp(1), of "?K - 1"] le one by simp
  then show "sum_list (take (?K - 1) xs) \<le> of_rat q" using tp(1) by simp
qed

text \<open>The first token is always kept.\<close>

lemma nucleus_mass_pos:
  assumes nn: "\<forall>x \<in> set xs. 0 \<le> x" and tp: "tp = PyFin q" "0 \<le> q" and first: "xs \<noteq> []" "0 < hd xs"
  shows "0 < sum_list (take (nucleus_size tp xs) xs)"
proof -
  have "\<not> exceeds (sum_list (take 0 xs)) tp" using tp by simp
  then have K: "0 < nucleus_size tp xs" using nucleus_kept [OF nn tp(1), of 0] first(1) by simp
  have "0 < sum_list (take 1 xs)" using first by (cases xs) simp_all
  also have "\<dots> \<le> sum_list (take (nucleus_size tp xs) xs)" by (rule sum_take_mono [OF nn]) (use K in simp)
  finally show ?thesis .
qed

lemma sorted_first:
  fixes row :: "'a::linordered_field list"
  assumes ord: "descending_order row os" and nn: "\<forall>x \<in> set row. 0 \<le> x" and total: "0 < sum_list row"
  shows "map ((!) row) os \<noteq> []" "0 < hd (map ((!) row) os)"
proof -
  define xs where "xs = map ((!) row) os"
  have m: "mset xs = mset row" and desc: "sorted_wrt (\<ge>) xs"
    using ord map_nth_order [of os row] by (simp_all add: descending_order_def xs_def)
  have "sum_mset (mset xs) = sum_mset (mset row)" using m by simp
  then have sum: "0 < sum_list xs" using total by (simp add: sum_mset_sum_list)
  then show ne: "map ((!) row) os \<noteq> []" unfolding xs_def [symmetric] by auto
  have le: "x \<le> hd xs" if "x \<in> set xs" for x using desc that by (cases xs) auto
  show "0 < hd (map ((!) row) os)"
    unfolding xs_def [symmetric]
  proof (rule ccontr)
    assume "\<not> 0 < hd xs"
    then have "\<forall>x \<in> set xs. x \<le> 0" using le by fastforce
    then have "sum_list xs \<le> 0" by (induction xs) (simp_all add: add_nonpos_nonpos)
    then show False using sum by simp
  qed
qed

lemma top_p_row_eq:
  assumes ord: "descending_order row (sort_order T row)" and nn: "\<forall>x \<in> set row. 0 \<le> x" and tp: "tp = PyFin q" "0 \<le> q"
    and total: "0 < sum_list row"
  defines "os \<equiv> sort_order T row"
  defines "K \<equiv> nucleus_size tp (map ((!) row) os)"
  shows "top_p_row T tp row = Some (map (\<lambda>i. (if i \<in> set (take K os) then row ! i else 0)
      / sum_list (take K (map ((!) row) os))) [0..<length row])"
    and "0 < sum_list (take K (map ((!) row) os))"
proof -
  let ?n = "length row"
  define sp where "sp = map ((!) row) os"
  have perm: "mset os = mset [0..<?n]" using ord by (simp add: descending_order_def os_def)
  then have len: "length os = ?n" and dist: "distinct os" and elems: "set os = {..<?n}"
    by (metis length_upt minus_nat.diff_0 size_mset, metis distinct_upt mset_eq_imp_distinct_iff,
        metis atLeast_upt mset_eq_setD)
  have nn': "\<forall>x \<in> set sp. 0 \<le> x" using nn elems by (auto simp: sp_def)
  define masked where "masked = map2 (\<lambda>m x. if exceeds m tp then 0 else x) (map2 (-) (cumsum sp) sp) sp"
  have masked: "masked = map (\<lambda>k. if k < K then sp ! k else 0) [0..<?n]"
    unfolding masked_def mass_before_eq
    by (rule nth_equalityI) (use nucleus_kept [OF nn' tp(1)] len in \<open>auto simp: sp_def K_def\<close>)
  define zs where "zs = scatter ?n os masked"
  have zs: "length zs = ?n" "map ((!) zs) os = masked"
    using foldl_update [of os masked "replicate ?n 0"] dist elems len masked
    by (simp_all add: zs_def scatter_def)
  have entry: "zs ! i = (if i \<in> set (take K os) then row ! i else 0)" if i: "i < ?n" for i
  proof -
    have "i \<in> set os" using i elems by simp
    then obtain k where k: "k < ?n" "os ! k = i" using len by (metis in_set_conv_nth)
    have "zs ! i = masked ! k" using zs(2) k len by (metis nth_map)
    also have "\<dots> = (if k < K then row ! i else 0)" using k len by (simp add: masked sp_def)
    also have "k < K \<longleftrightarrow> i \<in> set (take K os)"
    proof
      assume "k < K"
      then show "i \<in> set (take K os)" using k len by (auto simp: in_set_conv_nth)
    next
      assume "i \<in> set (take K os)"
      then obtain j where "j < K" "j < length os" "os ! j = i" by (auto simp: in_set_conv_nth)
      then show "k < K" using k len dist by (metis nth_eq_iff_index_eq)
    qed
    finally show ?thesis .
  qed
  have "mset zs = mset (map ((!) zs) os)" using map_nth_order [of os zs] perm zs(1) by simp
  then have "sum_list zs = sum_list masked" unfolding zs(2) by (metis sum_mset_sum_list)
  also have "masked = take K sp @ replicate (?n - K) 0"
    unfolding masked by (rule nth_equalityI) (use len in \<open>auto simp: sp_def nth_append min_def\<close>)
  then have "sum_list masked = sum_list (take K sp)" by (simp add: sum_list_replicate)
  finally have sum: "sum_list zs = sum_list (take K sp)" .
  note first = sorted_first [OF ord nn total, folded os_def, folded sp_def]
  have pos: "0 < sum_list (take K sp)"
    unfolding K_def sp_def [symmetric] by (rule nucleus_mass_pos [OF nn' tp first])
  then show "0 < sum_list (take K (map ((!) row) os))" by (simp add: sp_def)
  have zs_eq: "zs = map (\<lambda>i. if i \<in> set (take K os) then row ! i else 0) [0..<?n]"
    by (rule nth_equalityI) (use zs(1) entry in simp_all)
  have "top_p_row T tp row = Some (map (\<lambda>x. x / sum_list (take K sp)) zs)"
    unfolding top_p_row_def Let_def os_def [symmetric] sp_def [symmetric] masked_def [symmetric] zs_def [symmetric]
    using sum pos by simp
  then show "top_p_row T tp row = Some (map (\<lambda>i. (if i \<in> set (take K os) then row ! i else 0)
      / sum_list (take K (map ((!) row) os))) [0..<length row])"
    unfolding zs_eq by (simp add: sp_def comp_def)
qed

text \<open>The filtered row is a distribution again.\<close>

lemma top_p_row_ok:
  assumes ord: "descending_order row (sort_order T row)" and nn: "\<forall>x \<in> set row. 0 \<le> x" and tp: "tp = PyFin q" "0 \<le> q"
    and total: "0 < sum_list row"
  obtains xs where "top_p_row T tp row = Some xs" "length xs = length row" "\<forall>x \<in> set xs. 0 \<le> x" "0 < sum_list xs"
proof -
  define filtered where "filtered = scatter (length row) (sort_order T row) (map2 (\<lambda>m x. if exceeds m tp then 0 else x)
    (map2 (-) (cumsum (map ((!) row) (sort_order T row))) (map ((!) row) (sort_order T row))) (map ((!) row) (sort_order T row)))"
  note E = top_p_row_eq [OF ord nn tp total]
  let ?S = "sum_list (take (nucleus_size tp (map ((!) row) (sort_order T row))) (map ((!) row) (sort_order T row)))"
  let ?xs = "map (\<lambda>i. (if i \<in> set (take (nucleus_size tp (map ((!) row) (sort_order T row))) (sort_order T row)) then row ! i else 0) / ?S)
    [0..<length row]"
  have some: "top_p_row T tp row = (if sum_list filtered = 0 then None else Some (map (\<lambda>x. x / sum_list filtered) filtered))"
    unfolding top_p_row_def Let_def filtered_def [symmetric] ..
  then have nz: "sum_list filtered \<noteq> 0" and xs: "?xs = map (\<lambda>x. x / sum_list filtered) filtered" using E(1) by (auto split: if_splits)
  have "sum_list (map (\<lambda>x. x / c) ys) = sum_list ys / c" for c :: 'a and ys
    by (induction ys) (simp_all add: add_divide_distrib)
  then have "sum_list ?xs = 1" unfolding xs using nz by simp
  moreover have "\<forall>x \<in> set ?xs. 0 \<le> x" using nn E(2) by auto
  ultimately show ?thesis by (intro that [OF E(1)]) simp_all
qed

end
