(* ===== verification/Greedy_Ref.thy ===== *)
theory Greedy_Ref
  imports Paged_Forward Sampler
begin

text \<open>
  \<open>greedy_generate_contiguous\<close> of \<open>engine/model/attention.py\<close>: greedy decoding of one sequence with the
  contiguous cache, the reference the engine is measured against.
\<close>

section \<open>The function\<close>

fun greedy_loop ::
  "('a::linordered_field) model \<Rightarrow> int list \<Rightarrow> nat \<Rightarrow> nat \<Rightarrow> nat \<Rightarrow> 'a contiguous \<Rightarrow> int list \<Rightarrow> nat list
     \<Rightarrow> (int list \<times> 'a list list) result" where
  "greedy_loop M stop_ids n 0 i attn ids positions = Inr ([], [])"
| "greedy_loop M stop_ids n (Suc k) i attn ids positions =
     rbind (qwen_forward M (contiguous_fn M) ids positions attn) (\<lambda>(attn', hidden).
     rbind (list_get (compute_logits M (drop (length hidden - 1) hidden)) 0) (\<lambda>logits.
     rbind (argmax logits) (\<lambda>best.
       let token = int best in
       if token \<in> set stop_ids then Inr ([token], [logits])
       else rbind (greedy_loop M stop_ids n k (Suc i) attn' [token] [n + i]) (\<lambda>(tokens, step_logits).
              Inr (token # tokens, logits # step_logits)))))"

definition greedy_generate_contiguous ::
  "('a::linordered_field) model \<Rightarrow> int list \<Rightarrow> int \<Rightarrow> int list \<Rightarrow> (int list \<times> 'a list list) result" where
  "greedy_generate_contiguous M prompt max_new stop_ids =
     greedy_loop M stop_ids (length prompt) (nat max_new) 0 (init_contiguous (length (model_layers M))) prompt [0..<length prompt]"

section \<open>What it returns\<close>

text \<open>The weights have the shapes of the configuration, and the positions cover the longest sequence.\<close>

definition model_fits :: "('a::field) model \<Rightarrow> int \<Rightarrow> int \<Rightarrow> bool" where
  "model_fits M V L \<longleftrightarrow> model_ok M \<and> 0 < V \<and> length (embed_tokens M) = nat V \<and>
     length (case lm_head M of None \<Rightarrow> embed_tokens M | Some w \<Rightarrow> w) = nat V \<and> L \<le> int (max_positions M)"

definition in_vocab :: "int \<Rightarrow> int list \<Rightarrow> bool" where
  "in_vocab V ts \<longleftrightarrow> list_all (\<lambda>t. 0 \<le> t \<and> t < V) ts"

lemma ref_logits_length:
  "model_fits M V L \<Longrightarrow> length (ref_logits M ts) = nat V"
  by (auto simp: model_fits_def ref_logits_def linear_def split: option.splits)

lemma in_vocab_tokens_ok:
  "model_fits M V L \<Longrightarrow> in_vocab V ts \<Longrightarrow> int (length ts) \<le> L \<Longrightarrow> tokens_ok M ts"
  by (auto simp: model_fits_def in_vocab_def tokens_ok_def list_all_iff)

text \<open>Every token is the reference's argmax after the ones before it.\<close>

definition follows :: "('a::linordered_field) model \<Rightarrow> int list \<Rightarrow> int list \<Rightarrow> bool" where
  "follows M prompt out \<longleftrightarrow>
     (\<forall>i < length out. 0 \<le> out ! i \<and> argmax (ref_logits M (prompt @ take i out)) = Inr (nat (out ! i)))"

lemma follows_Nil [simp]: "follows M prompt []"
  by (simp add: follows_def)

lemma follows_Cons:
  "follows M prompt (t # out) \<longleftrightarrow> 0 \<le> t \<and> argmax (ref_logits M prompt) = Inr (nat t) \<and> follows M (prompt @ [t]) out"
  by (auto simp: follows_def less_Suc_eq_0_disj)

text \<open>Two such lists agree as far as both go.\<close>

lemma follows_unique:
  "follows M prompt xs \<Longrightarrow> follows M prompt ys \<Longrightarrow> length xs \<le> length ys \<Longrightarrow> xs = take (length xs) ys"
proof (induction xs arbitrary: prompt ys)
  case (Cons x xs)
  then obtain y zs where ys: "ys = y # zs" by (cases ys) auto
  have "x = y" using Cons.prems(1,2) by (auto simp: ys follows_Cons)
  have "xs = take (length xs) zs"
    by (rule Cons.IH [of "prompt @ [x]"]) (use Cons.prems \<open>x = y\<close> in \<open>simp_all add: ys follows_Cons\<close>)
  then show ?case using \<open>x = y\<close> by (simp add: ys)
qed simp

definition stops :: "int list \<Rightarrow> nat \<Rightarrow> int list \<Rightarrow> bool" where
  "stops stop_ids k out \<longleftrightarrow> length out \<le> k \<and> (\<forall>t \<in> set (butlast out). t \<notin> set stop_ids) \<and>
     (length out < k \<longrightarrow> out \<noteq> [] \<and> last out \<in> set stop_ids)"

lemma contiguous_extend:
  assumes "m \<le> length toks"
  shows "contiguous_at M (toks @ [t]) (\<lambda>_. m) = contiguous_at M toks (\<lambda>_. m)"
proof -
  have "(toks @ [t]) ! j = toks ! j" if "j < m" for j using that assms by (simp add: nth_append)
  then have "ref_k M (toks @ [t]) l p = ref_k M toks l p" "ref_v M (toks @ [t]) l p = ref_v M toks l p" if "p < m" for l p
    using that ref_kv_cong [of p "toks @ [t]" toks M l] by simp_all
  then show ?thesis by (auto simp: contiguous_at_def contiguous_entry_def)
qed

lemma last_logits:
  assumes "c < length ts"
  shows "list_get (compute_logits M (let h = map (\<lambda>p. rms_norm (ops M) (final_norm M)
      (ref_hidden M ts (length (model_layers M)) p)) [c..<length ts] in drop (length h - 1) h)) 0 = Inr (ref_logits M ts)"
proof -
  have "drop (length (map f [c..<n]) - 1) (map f [c..<n]) = [f (n - 1)]" if "c < n" for f :: "nat \<Rightarrow> 'a list" and n
    using that by (cases n) (simp_all add: drop_map Suc_diff_le)
  from this [OF assms] show ?thesis by (simp add: Let_def compute_logits_def ref_logits_def)
qed

lemma greedy_loop_ok:
  assumes fit: "model_fits M V L" and "in_vocab V ts" and "c < length ts" and "int (length ts + k) \<le> L" and "n + i = length ts"
  shows "\<exists>out. greedy_loop M stop_ids n k i (contiguous_at M ts (\<lambda>_. c)) (map ((!) ts) [c..<length ts]) [c..<length ts]
      = Inr (out, map (\<lambda>j. ref_logits M (ts @ take j out)) [0..<length out]) \<and> follows M ts out \<and> stops stop_ids k out"
  using assms(2-)
proof (induction k arbitrary: ts c i)
  case 0
  then show ?case by (intro exI [of _ "[]"]) (simp add: stops_def)
next
  case (Suc k)
  let ?m = "length ts"
  have "model_ok M" and toks: "tokens_ok M ts"
    using fit in_vocab_tokens_ok [OF fit Suc.prems(1)] Suc.prems(3) by (simp_all add: model_fits_def)
  then have fwd: "qwen_forward M (contiguous_fn M) (map ((!) ts) [c..<?m]) [c..<?m] (contiguous_at M ts (\<lambda>_. c))
    = Inr (contiguous_at M ts (\<lambda>_. ?m),
        map (\<lambda>p. rms_norm (ops M) (final_norm M) (ref_hidden M ts (length (model_layers M)) p)) [c..<?m])"
    using contiguous_forward [OF _ _ Suc.prems(2)] by blast
  have "ref_logits M ts \<noteq> []" using ref_logits_length [OF fit, of ts] fit by (auto simp: model_fits_def)
  then obtain best where best: "argmax (ref_logits M ts) = Inr best" "best < length (ref_logits M ts)"
    using argmax_spec by blast
  let ?t = "int best"
  have voc: "in_vocab V (ts @ [?t])"
    using Suc.prems(1) best(2) fit ref_logits_length [OF fit, of ts] by (simp add: in_vocab_def model_fits_def)
  have unfold: "greedy_loop M stop_ids n (Suc k) i (contiguous_at M ts (\<lambda>_. c)) (map ((!) ts) [c..<?m]) [c..<?m]
    = (if ?t \<in> set stop_ids then Inr ([?t], [ref_logits M ts])
       else rbind (greedy_loop M stop_ids n k (Suc i) (contiguous_at M ts (\<lambda>_. ?m)) [?t] [?m])
         (\<lambda>(tokens, step_logits). Inr (?t # tokens, ref_logits M ts # step_logits)))"
    unfolding greedy_loop.simps(2) fwd rbind_simps prod.case last_logits [OF Suc.prems(2), unfolded Let_def] best(1)
    by (simp add: Suc.prems(4) Let_def)
  show ?case
  proof (cases "?t \<in> set stop_ids")
    case True
    then show ?thesis unfolding unfold using best(1)
      by (intro exI [of _ "[?t]"]) (simp add: follows_Cons stops_def)
  next
    case False
    have ids: "map ((!) (ts @ [?t])) [?m..<length (ts @ [?t])] = [?t]" "[?m..<length (ts @ [?t])] = [?m]" by simp_all
    have "\<exists>out. greedy_loop M stop_ids n k (Suc i) (contiguous_at M (ts @ [?t]) (\<lambda>_. ?m))
        (map ((!) (ts @ [?t])) [?m..<length (ts @ [?t])]) [?m..<length (ts @ [?t])]
      = Inr (out, map (\<lambda>j. ref_logits M ((ts @ [?t]) @ take j out)) [0..<length out]) \<and>
        follows M (ts @ [?t]) out \<and> stops stop_ids k out"
      by (rule Suc.IH [OF voc]) (use Suc.prems(3,4) in simp_all)
    then obtain out where out: "greedy_loop M stop_ids n k (Suc i) (contiguous_at M ts (\<lambda>_. ?m)) [?t] [?m]
      = Inr (out, map (\<lambda>j. ref_logits M (ts @ ?t # take j out)) [0..<length out])"
      "follows M (ts @ [?t]) out" "stops stop_ids k out"
      unfolding ids contiguous_extend [OF order.refl] by auto
    have "ref_logits M ts # map (\<lambda>j. ref_logits M (ts @ ?t # take j out)) [0..<length out]
        = map (\<lambda>j. ref_logits M (ts @ take j (?t # out))) [0..<length (?t # out)]"
      by (simp add: map_upt_Suc del: upt_Suc)
    moreover have "stops stop_ids (Suc k) (?t # out)" using out(3) False by (auto simp: stops_def)
    moreover have "follows M ts (?t # out)" using out(2) best(1) by (simp add: follows_Cons)
    ultimately show ?thesis
      unfolding unfold using False out(1) by (intro exI [of _ "?t # out"]) simp
  qed
qed

lemma greedy_generate_ok:
  assumes fit: "model_fits M V L" and voc: "in_vocab V prompt" and ne: "prompt \<noteq> []" and k: "0 \<le> k" and room: "int (length prompt) + k \<le> L"
  shows "\<exists>out. greedy_generate_contiguous M prompt k stop_ids
      = Inr (out, map (\<lambda>j. ref_logits M (prompt @ take j out)) [0..<length out]) \<and> follows M prompt out \<and> stops stop_ids (nat k) out"
proof -
  have "map ((!) prompt) [0..<length prompt] = prompt" by (rule map_nth)
  then show ?thesis
    using greedy_loop_ok [OF fit voc, of 0 "nat k" "length prompt" 0 stop_ids] ne k room
    unfolding greedy_generate_contiguous_def contiguous_start by simp
qed

end
