(* ===== verification/Cache_Mem.thy ===== *)
theory Cache_Mem
  imports Runner_Step Page_Flow Swap_Copy Greedy_Ref Prefix_Cache
begin

text \<open>
  What the prefix cache stands for in the device's memory: a page with a digest holds the reference keys
  and values of the tokens the digest was computed from. So a sequence admitted on hits starts with the
  right memory, and its table lists no page twice. Both rest on the digests being apart: no SHA-256
  collision among the prefixes the engine can be asked for. Without prefix caching nothing is assumed.
\<close>

section \<open>Definitions\<close>

lemma seq_held_rows:
  "seq_held M c q n \<longleftrightarrow> (\<forall>l < length (model_layers M). \<forall>p < nat n.
     dev_row c l (block_table q ! (p div kv_block_size c)) (p mod kv_block_size c)
       = (ref_k M (token_ids q) l p, ref_v M (token_ids q) l p))"
  by (simp add: seq_held_def holds_def holds_layer_def it_slot_def slot_at_def item_of_def dev_row_def)

text \<open>The token lists a request of the engine can have.\<close>

definition vocab_lists :: "int \<Rightarrow> int \<Rightarrow> int list set" where
  "vocab_lists V L = {ts. in_vocab V ts \<and> int (length ts) \<le> L}"

definition digests_apart :: "externals \<Rightarrow> int \<Rightarrow> scheduler \<Rightarrow> bool" where
  "digests_apart X V s \<longleftrightarrow>
     (enable_prefix_caching (bm s) \<longrightarrow> collision_free X (block_size (bm s)) (vocab_lists V (max_model_len s)))"

lemma digests_apart_same: "conf_same s s' \<Longrightarrow> digests_apart X V s' = digests_apart X V s"
  by (simp add: digests_apart_def conf_same_def bm_static_def)

definition page_named ::
  "externals \<Rightarrow> nat \<Rightarrow> int list set \<Rightarrow> ('a::field) model \<Rightarrow> 'a kv_cache \<Rightarrow> nat \<Rightarrow> bytes \<Rightarrow> bool" where
  "page_named X bs T M c g h \<longleftrightarrow> (\<exists>ts \<in> T. \<exists>i. Suc i * bs \<le> length ts \<and>
     h = block_digest X bs ts (block_chain X bs ts i) \<and>
     (\<forall>l < length (model_layers M). \<forall>k < bs. dev_row c l g k = (ref_k M ts l (i * bs + k), ref_v M ts l (i * bs + k))))"

definition cache_held :: "externals \<Rightarrow> ('a::field) model \<Rightarrow> int \<Rightarrow> scheduler \<Rightarrow> 'a kv_cache \<Rightarrow> bool" where
  "cache_held X M V s c \<longleftrightarrow> (\<forall>g < num_blocks (bm s). \<forall>h. block_hash (bm s) ! g = Some h \<longrightarrow>
     page_named X (block_size (bm s)) (vocab_lists V (max_model_len s)) M c g h)"

lemma page_named_cong:
  assumes "page_named X bs T M c g h" and "\<And>l k. l < length (model_layers M) \<Longrightarrow> k < bs \<Longrightarrow> dev_row c' l g k = dev_row c l g k"
  shows "page_named X bs T M c' g h"
proof -
  obtain ts i where t: "ts \<in> T" "Suc i * bs \<le> length ts" "h = block_digest X bs ts (block_chain X bs ts i)"
    "\<forall>l < length (model_layers M). \<forall>k < bs. dev_row c l g k = (ref_k M ts l (i * bs + k), ref_v M ts l (i * bs + k))"
    using assms(1) unfolding page_named_def by blast
  have "\<forall>l < length (model_layers M). \<forall>k < bs. dev_row c' l g k = (ref_k M ts l (i * bs + k), ref_v M ts l (i * bs + k))"
    using t(4) assms(2) by simp
  with t(1-3) show ?thesis unfolding page_named_def by blast
qed

lemma cache_held_forgets:
  assumes ch: "cache_held X M V s c" and cf: "conf_same s s'" and f: "forgets (bm s) (bm s')"
  shows "cache_held X M V s' c"
proof -
  have same: "num_blocks (bm s') = num_blocks (bm s)" "block_size (bm s') = block_size (bm s)" "max_model_len s' = max_model_len s"
    using cf by (simp_all add: conf_same_def bm_static_def)
  show ?thesis
    unfolding cache_held_def same
  proof (intro allI impI)
    fix g h assume g: "g < num_blocks (bm s)" "block_hash (bm s') ! g = Some h"
    then have "block_hash (bm s) ! g = Some h" using f by (simp add: forgets_def)
    then show "page_named X (block_size (bm s)) (vocab_lists V (max_model_len s)) M c g h"
      using ch g(1) unfolding cache_held_def by blast
  qed
qed

section \<open>Hits\<close>

lemma same_prefix_nth:
  assumes "take n ts = take n ts'" and "j < n" "n \<le> length ts" "n \<le> length ts'"
  shows "ts ! j = ts' ! j"
proof -
  have "take n ts ! j = take n ts' ! j" using assms(1) by simp
  then show ?thesis using assms(2) by simp
qed

lemma hit_rows:
  assumes cf: "collision_free X bs T" and ts: "ts \<in> T" "Suc k * bs \<le> length ts"
    and g: "page_named X bs T M c g (block_digest X bs ts (block_chain X bs ts k))"
    and l: "l < length (model_layers M)" and j: "j < bs"
  shows "dev_row c l g j = (ref_k M ts l (k * bs + j), ref_v M ts l (k * bs + j))"
proof -
  obtain us i where u: "us \<in> T" "Suc i * bs \<le> length us"
    "block_digest X bs ts (block_chain X bs ts k) = block_digest X bs us (block_chain X bs us i)"
    "\<forall>l < length (model_layers M). \<forall>j < bs. dev_row c l g j = (ref_k M us l (i * bs + j), ref_v M us l (i * bs + j))"
    using g unfolding page_named_def by blast
  note E = block_digest_inj [OF cf ts(1) u(1) ts(2) u(2,3)]
  have i: "i = k" using E by simp
  have "us ! q = ts ! q" if "q \<le> k * bs + j" for q
    by (rule same_prefix_nth [of "Suc k * bs"]) (use E i that j ts(2) u(2) in auto)
  then have "ref_k M us l (k * bs + j) = ref_k M ts l (k * bs + j)" "ref_v M us l (k * bs + j) = ref_v M ts l (k * bs + j)"
    by (rule ref_kv_cong(1), simp, rule ref_kv_cong(2)) simp
  then show ?thesis using u(4) l j i by simp
qed

lemma cache_hitsD:
  assumes "cache_hits X b q"
  shows "num_computed_tokens q = int (num_registered_blocks q * block_size b)"
    "num_registered_blocks q \<le> length (block_table q)" "\<not> enable_prefix_caching b \<Longrightarrow> num_registered_blocks q = 0"
    "k < num_registered_blocks q \<Longrightarrow> Suc k * block_size b \<le> length (token_ids q)"
    "k < num_registered_blocks q \<Longrightarrow> block_table q ! k < num_blocks b"
    "k < num_registered_blocks q \<Longrightarrow> block_hash b ! (block_table q ! k)
       = Some (block_digest X (block_size b) (token_ids q) (block_chain X (block_size b) (token_ids q) k))"
  using assms unfolding cache_hits_def by blast+

lemma hits_apart:
  assumes "digests_apart X V s" and "cache_hits X (bm s) q" and "0 < num_registered_blocks q"
  shows "collision_free X (block_size (bm s)) (vocab_lists V (max_model_len s))"
  using assms cache_hitsD(3) [OF assms(2)] unfolding digests_apart_def by auto

lemma hits_held:
  assumes da: "digests_apart X V s" and ch: "cache_held X M V s c" and hits: "cache_hits X (bm s) q"
    and voc: "token_ids q \<in> vocab_lists V (max_model_len s)" and bs: "kv_block_size c = block_size (bm s)" "0 < block_size (bm s)"
  shows "seq_held M c q (num_computed_tokens q)"
  unfolding seq_held_rows bs(1)
proof (intro allI impI)
  let ?bs = "block_size (bm s)"
  note H = cache_hitsD [OF hits]
  fix l x assume l: "l < length (model_layers M)" and "x < nat (num_computed_tokens q)"
  then have "int x < int (num_registered_blocks q * ?bs)" using H(1) by linarith
  then have x: "x < num_registered_blocks q * ?bs" by (simp only: of_nat_less_iff)
  let ?k = "x div ?bs" and ?j = "x mod ?bs"
  have k: "?k < num_registered_blocks q" using x by (simp add: less_mult_imp_div_less)
  have "page_named X ?bs (vocab_lists V (max_model_len s)) M c (block_table q ! ?k)
      (block_digest X ?bs (token_ids q) (block_chain X ?bs (token_ids q) ?k))"
    using ch H(5,6) [OF k] unfolding cache_held_def by blast
  from hit_rows [OF hits_apart [OF da hits] voc H(4) [OF k] this l, of ?j] k bs(2)
  show "dev_row c l (block_table q ! (x div ?bs)) (x mod ?bs) = (ref_k M (token_ids q) l x, ref_v M (token_ids q) l x)"
    by simp
qed

section \<open>No table lists a page twice\<close>

lemma hits_distinct:
  assumes da: "digests_apart X V s" and hits: "cache_hits X (bm s) q" and voc: "token_ids q \<in> vocab_lists V (max_model_len s)"
  shows "distinct (take (num_registered_blocks q) (block_table q))"
proof -
  note H = cache_hitsD [OF hits]
  have "j = k" if jk: "j < num_registered_blocks q" "k < num_registered_blocks q" "block_table q ! j = block_table q ! k" for j k
  proof -
    have cf: "collision_free X (block_size (bm s)) (vocab_lists V (max_model_len s))"
      by (rule hits_apart [OF da hits]) (use jk(1) in simp)
    have "block_digest X (block_size (bm s)) (token_ids q) (block_chain X (block_size (bm s)) (token_ids q) j)
        = block_digest X (block_size (bm s)) (token_ids q) (block_chain X (block_size (bm s)) (token_ids q) k)"
      using H(6) [OF jk(1)] H(6) [OF jk(2)] jk(3) by simp
    then show ?thesis using block_digest_inj [OF cf voc voc H(4) [OF jk(1)] H(4) [OF jk(2)]] by blast
  qed
  then show ?thesis using H(2) by (auto simp: distinct_conv_nth)
qed

lemma own_distinct:
  assumes inv: "sinv X s p []" and r: "r \<in> set (running s)"
    and n: "num_registered_blocks (store s r) \<le> n" "distinct (take n (block_table (store s r)))"
  shows "distinct (block_table (store s r))"
proof -
  let ?t = "block_table (store s r)"
  have "j = k" if jk: "j \<le> k" "k < length ?t" "?t ! j = ?t ! k" for j k
  proof (cases "num_registered_blocks (store s r) \<le> k")
    case True
    from own_page_place(2) [OF inv r True jk(2) r, of j] jk show ?thesis by simp
  next
    case False
    then have "k < length (take n ?t)" "take n ?t ! j = take n ?t ! k" using n(1) jk by simp_all
    then show ?thesis using n(2) jk(1) nth_eq_iff_index_eq [of "take n ?t" j k] by simp
  qed
  then show ?thesis unfolding distinct_conv_nth by (metis nat_le_linear)
qed

lemma registered_bound:
  assumes inv: "sinv X s p []" and r: "r \<in> set (running s)" and n: "num_computed_tokens (store s r) \<le> int (n * sch_block_size s)"
    and ne: "block_table (store s r) \<noteq> []"
  shows "num_registered_blocks (store s r) \<le> n"
proof -
  have bs: "block_size (bm s) = sch_block_size s" "0 < sch_block_size s"
    using sinvD(5) [OF inv] sinv_bs_pos [OF inv] by (simp_all add: conf_ok_def)
  have "own_pages (bm s) (pages block_table (store s) (running s)) (store s r)"
    using cache_invD(1) [OF sinvD(7) [OF inv], of r] r by simp
  then have "num_registered_blocks (store s r) * sch_block_size s \<le> nat (num_computed_tokens (store s r))"
    using ne bs(1) by (simp add: own_pages_def)
  also have "\<dots> \<le> n * sch_block_size s" using n by linarith
  finally have "num_registered_blocks (store s r) * sch_block_size s \<le> n * sch_block_size s" .
  then show ?thesis using bs(2) by simp
qed

lemma tables_distinct_scheduled:
  assumes inv: "sinv X s (\<lambda>_. 0) []" and inv': "sinv X s' p []" and cf: "conf_same s s'" and f: "flows X s s' b"
    and da: "digests_apart X V s" and td: "tables_distinct s"
    and voc: "\<forall>r \<in> set (running s'). token_ids (store s' r) \<in> vocab_lists V (max_model_len s)"
  shows "tables_distinct s'"
  unfolding tables_distinct_def
proof
  fix r assume r: "r \<in> set (running s')"
  have bs: "sch_block_size s' = sch_block_size s" "block_size (bm s) = sch_block_size s"
    using cf sinvD(5) [OF inv] by (simp_all add: conf_same_def conf_ok_def)
  show "distinct (block_table (store s' r))"
  proof (cases "block_table (store s' r) = []")
    case False
    have "run_kept X s s' b r" using f r by (simp add: flows_def)
    then consider "cache_hits X (bm s) (store s' r)"
      | ys where "num_computed_tokens (store s' r) = num_computed_tokens (store s r)" "r \<in> set (running s)"
        "block_table (store s' r) = block_table (store s r) @ ys"
      | "num_registered_blocks (store s' r) = 0"
      unfolding run_kept_def by (elim disjE conjE exE) blast+
    then show ?thesis
    proof cases
      case 1
      show ?thesis by (rule own_distinct [OF inv' r order_refl hits_distinct [OF da 1]]) (use voc r in blast)
    next
      case 2
      let ?n = "length (block_table (store s r))"
      have "running_ok (chunked s) (sch_block_size s) 0 (store s r)" using seqs_invD(1) [OF sinvD(3) [OF inv] 2(2)] .
      then have "int ?n = ceil_div (num_computed_tokens (store s r)) (sch_block_size s)" by (simp add: running_ok_def)
      then have "num_computed_tokens (store s r) \<le> int (?n * sch_block_size s)"
        using ceil_div_le_iff [of "sch_block_size s" "num_computed_tokens (store s r)" "int ?n"] sinv_bs_pos [OF inv] by simp
      then have n: "num_computed_tokens (store s' r) \<le> int (?n * sch_block_size s')" using 2(1) bs by simp
      have "distinct (take ?n (block_table (store s' r)))" using td 2(2,3) by (simp add: tables_distinct_def)
      then show ?thesis by (rule own_distinct [OF inv' r registered_bound [OF inv' r n False]])
    next
      case 3
      then show ?thesis using own_distinct [OF inv' r, of 0] by simp
    qed
  qed simp
qed

end
