(* ===== verification/Engine_Mem.thy ===== *)
theory Engine_Mem
  imports Cache_Mem
begin

text \<open>
  What the caches hold between two steps: for every running sequence the device pages of its table hold
  the reference keys and values of its computed tokens, for every swapped one the host pages do. The
  page copies of a scheduled batch keep this true of the queues after scheduling.
\<close>

section \<open>Memory\<close>

definition host_held :: "('a::field) model \<Rightarrow> nat \<Rightarrow> 'a host_pages \<Rightarrow> sequence \<Rightarrow> int \<Rightarrow> bool" where
  "host_held M bs h q n \<longleftrightarrow> (\<forall>l < length (model_layers M). \<forall>p < nat n.
     host_row h l (cpu_block_table q ! (p div bs)) (p mod bs) = (ref_k M (token_ids q) l p, ref_v M (token_ids q) l p))"

definition host_mem :: "('a::field) model \<Rightarrow> scheduler \<Rightarrow> 'a host_pages option \<Rightarrow> bool" where
  "host_mem M s hc \<longleftrightarrow>
     (case hc of
        None \<Rightarrow> num_cpu_blocks (bm s) = 0
      | Some h \<Rightarrow> host_shape (length (model_layers M)) (num_cpu_blocks (bm s)) (sch_block_size s) h \<and>
          (\<forall>r \<in> set (swapped s). host_held M (sch_block_size s) h (store s r) (num_computed_tokens (store s r))))"

definition mem_ok :: "('a::field) model \<Rightarrow> scheduler \<Rightarrow> 'a device \<Rightarrow> bool" where
  "mem_ok M s d \<longleftrightarrow>
     device_ok M s (dev_cache d) \<and> host_mem M s (host_cache d) \<and>
     (\<forall>r \<in> set (running s). seq_held M (dev_cache d) (store s r) (num_computed_tokens (store s r)))"

lemma device_ok_shape:
  "device_ok M s c \<longleftrightarrow> kv_block_size c = sch_block_size s \<and> scratch_block c = num_blocks (bm s) \<and>
     dev_shape (length (model_layers M)) (Suc (num_blocks (bm s))) c"
  by (auto simp: device_ok_def dev_shape_def cache_shape_def list_all_iff)

lemma device_ok_frame: "conf_same s s' \<Longrightarrow> device_ok M s' c = device_ok M s c"
  by (simp add: device_ok_def conf_same_def bm_static_def)

section \<open>Host pages are not shared\<close>

lemma host_pages_count:
  assumes inv: "sinv X s p []"
  shows "count (pages cpu_block_table (store s) (swapped s)) i \<le> 1"
    and "i \<in># pages cpu_block_table (store s) (swapped s) \<Longrightarrow> i < num_cpu_blocks (bm s)"
proof -
  have eq: "mset (cpu_free (bm s)) + pages cpu_block_table (store s) (swapped s) = mset [0..<num_cpu_blocks (bm s)]"
    using sinvD(1) [OF inv] by (simp add: pages_inv_def bm_inv_def host_ok_def)
  have "count (mset [0..<num_cpu_blocks (bm s)]) i \<le> 1"
    using distinct_count_atmost_1 [of "[0..<num_cpu_blocks (bm s)]"] by simp
  then show "count (pages cpu_block_table (store s) (swapped s)) i \<le> 1"
    unfolding eq [symmetric] by simp
  assume "i \<in># pages cpu_block_table (store s) (swapped s)"
  then have "i \<in># mset [0..<num_cpu_blocks (bm s)]" unfolding eq [symmetric] by simp
  then show "i < num_cpu_blocks (bm s)" by simp
qed

lemma single_page:
  assumes one: "\<And>i. count (pages f st rs) i \<le> 1" and r: "r \<in> set rs" "r' \<in> set rs"
    and k: "k < length (f (st r))" "k' < length (f (st r'))" and eq: "f (st r) ! k = f (st r') ! k'"
  shows "r = r' \<and> k = k'"
proof -
  let ?i = "f (st r) ! k"
  have mem: "?i \<in> set (f (st r))" "?i \<in> set (f (st r'))" using k eq nth_mem by metis+
  have "r = r'"
  proof (rule ccontr)
    assume "r \<noteq> r'"
    from count_page_le [OF r this, of f st ?i] one [of ?i]
    have "count (mset (f (st r))) ?i + count (mset (f (st r'))) ?i \<le> 1" by linarith
    moreover have "0 < count (mset (f (st r))) ?i" "0 < count (mset (f (st r'))) ?i"
      using mem by (simp_all only: count_greater_zero_iff set_mset_mset)
    ultimately show False by linarith
  qed
  moreover have "distinct (f (st r))"
    unfolding distinct_count_atmost_1
  proof
    fix i
    have "count (mset (f (st r))) i \<le> 1"
      using one [of i] pages_remove1 [OF r(1), of f st] by simp
    then show "count (mset (f (st r))) i = (if i \<in> set (f (st r)) then 1 else 0)"
      by (metis One_nat_def count_eq_zero_iff le_Suc_eq le_zero_eq set_mset_mset)
  qed
  ultimately show ?thesis using k eq by (simp add: nth_eq_iff_index_eq)
qed

section \<open>The copies of a batch\<close>

text \<open>Sources and destinations of the listed copies.\<close>

lemma swap_out_pairs:
  assumes f: "flows X s s' b" and gc: "(g, c) \<in> set (swap_out b)"
  obtains r k where "r \<in> set (running s)" "r \<in> set (swapped s')" "k < length (block_table (store s r))"
    "k < length (cpu_block_table (store s' r))" "g = block_table (store s r) ! k" "c = cpu_block_table (store s' r) ! k"
proof -
  obtain r where r: "r \<in> set (running s)" "r \<in> set (swapped s')" "(g, c) \<in> pairs_out s s' r"
    using f gc unfolding flows_def by auto
  then obtain k where "k < length (block_table (store s r))" "k < length (cpu_block_table (store s' r))"
    "g = block_table (store s r) ! k" "c = cpu_block_table (store s' r) ! k"
    by (auto simp: pairs_out_def in_set_zip)
  with r that show ?thesis by blast
qed

lemma swap_in_pairs:
  assumes f: "flows X s s' b" and cg: "(c, g) \<in> set (swap_in b)"
  obtains r k where "r \<in> set (swapped s)" "r \<in> set (running s')" "k < length (cpu_block_table (store s r))"
    "k < length (block_table (store s' r))" "c = cpu_block_table (store s r) ! k" "g = block_table (store s' r) ! k"
    "num_registered_blocks (store s' r) = 0"
proof -
  obtain r where r: "r \<in> set (swapped s)" "r \<in> set (running s')" "(c, g) \<in> pairs_in s s' r"
      "num_registered_blocks (store s' r) = 0"
    using f cg unfolding flows_def returned_def by auto
  then obtain k where "k < length (cpu_block_table (store s r))" "k < length (block_table (store s' r))"
    "c = cpu_block_table (store s r) ! k" "g = block_table (store s' r) ! k"
    by (auto simp: pairs_in_def in_set_zip)
  with r that show ?thesis by blast
qed

text \<open>\<open>ModelRunner.execute\<close> up to the forward pass.\<close>

definition run_swaps :: "'a device \<Rightarrow> scheduled_batch \<Rightarrow> 'a device result" where
  "run_swaps d0 b =
     rbind (if swap_out b \<noteq> [] then run_swap_out d0 (swap_out b) else Inr d0) (\<lambda>d1.
       if swap_in b \<noteq> [] then run_swap_in d1 (swap_in b) else Inr d1)"

lemma table_index:
  assumes "int (length t) = ceil_div n bs" and "0 < bs" and "p < nat n"
  shows "p div bs < length t"
proof -
  have "n \<le> int (length t) * int bs" using assms(1,2) ceil_div_le_iff [of bs n "int (length t)"] by simp
  then have "int p < int (length t * bs)" using assms(3) by simp
  then have "p < length t * bs" by linarith
  then show ?thesis using assms(2) by (simp add: less_mult_imp_div_less)
qed

definition host_of :: "'a device \<Rightarrow> 'a host_pages" where
  "host_of d = (case host_cache d of None \<Rightarrow> [] | Some h \<Rightarrow> h)"

text \<open>Rows after the copies: a listed destination has its source's rows, everything else is as it was.\<close>

definition copied :: "nat \<Rightarrow> nat \<Rightarrow> nat \<Rightarrow> nat \<Rightarrow> scheduled_batch \<Rightarrow> 'a device \<Rightarrow> 'a device \<Rightarrow> bool" where
  "copied layers n m bs b d d' \<longleftrightarrow>
     (\<exists>data. dev_cache d' = (dev_cache d)\<lparr>kv_data := data\<rparr>) \<and> dev_shape layers n (dev_cache d') \<and>
     (host_cache d = None \<longrightarrow> host_cache d' = None) \<and>
     (host_cache d \<noteq> None \<longrightarrow> host_cache d' \<noteq> None \<and> host_shape layers m bs (host_of d')) \<and>
     (\<forall>l < layers. \<forall>k < bs.
        (\<forall>(c, g) \<in> set (swap_in b). dev_row (dev_cache d') l g k = host_row (host_of d) l c k) \<and>
        (\<forall>g < n. g \<notin> snd ` set (swap_in b) \<longrightarrow> dev_row (dev_cache d') l g k = dev_row (dev_cache d) l g k) \<and>
        (\<forall>(g, c) \<in> set (swap_out b). host_row (host_of d') l c k = dev_row (dev_cache d) l g k) \<and>
        (\<forall>c < m. c \<notin> snd ` set (swap_out b) \<longrightarrow> host_row (host_of d') l c k = host_row (host_of d) l c k))"

lemma run_swaps_copied:
  assumes dev: "dev_shape layers n (dev_cache d)" and bs: "kv_block_size (dev_cache d) = bs"
    and host: "host_cache d \<noteq> None \<Longrightarrow> host_shape layers m bs (host_of d)"
    and have_host: "swap_out b \<noteq> [] \<or> swap_in b \<noteq> [] \<Longrightarrow> host_cache d \<noteq> None"
    and one: "swap_out b = [] \<or> swap_in b = []"
    and out: "\<forall>(g, c) \<in> set (swap_out b). g < n \<and> c < m" "single_source (swap_out b)"
    and ins: "\<forall>(c, g) \<in> set (swap_in b). c < m \<and> g < n" "single_source (swap_in b)"
  shows "\<exists>d'. run_swaps d b = Inr d' \<and> copied layers n m bs b d d'"
proof -
  have same: "(dev_cache d)\<lparr>kv_data := kv_data (dev_cache d)\<rparr> = dev_cache d" by simp
  consider "swap_out b = []" "swap_in b = []" | "swap_out b \<noteq> []" "swap_in b = []" | "swap_out b = []" "swap_in b \<noteq> []"
    using one by blast
  then show ?thesis
  proof cases
    case 1
    then have "copied layers n m bs b d d" using dev host same by (auto simp: copied_def intro!: exI [of _ "kv_data (dev_cache d)"])
    then show ?thesis using 1 by (intro exI [of _ d]) (simp add: run_swaps_def)
  next
    case 2
    then obtain h where h: "host_cache d = Some h" using have_host by auto
    then have hs: "host_shape layers m (kv_block_size (dev_cache d)) h" and ho: "host_of d = h"
      using host bs by (simp_all add: host_of_def)
    obtain h' where r: "run_swap_out d (swap_out b) = Inr (d\<lparr>host_cache := Some h'\<rparr>)" "host_shape layers m bs h'"
      "\<forall>l < layers. \<forall>k < bs. (\<forall>(g, c) \<in> set (swap_out b). host_row h' l c k = dev_row (dev_cache d) l g k) \<and>
        (\<forall>c < m. c \<notin> snd ` set (swap_out b) \<longrightarrow> host_row h' l c k = host_row h l c k)"
      using run_swap_out_ok [OF dev h hs out] unfolding bs by blast
    have "copied layers n m bs b d (d\<lparr>host_cache := Some h'\<rparr>)"
      unfolding copied_def using r(2,3) 2 h ho dev same
      by (auto simp: host_of_def intro!: exI [of _ "kv_data (dev_cache d)"])
    then show ?thesis using r(1) 2 by (intro exI [of _ "d\<lparr>host_cache := Some h'\<rparr>"]) (simp add: run_swaps_def)
  next
    case 3
    then obtain h where h: "host_cache d = Some h" using have_host by auto
    then have hs: "host_shape layers m (kv_block_size (dev_cache d)) h" and ho: "host_of d = h"
      using host bs by (simp_all add: host_of_def)
    obtain data where r: "run_swap_in d (swap_in b) = Inr (d\<lparr>dev_cache := (dev_cache d)\<lparr>kv_data := data\<rparr>\<rparr>)"
      "dev_shape layers n ((dev_cache d)\<lparr>kv_data := data\<rparr>)"
      "\<forall>l < layers. \<forall>k < bs. (\<forall>(c, g) \<in> set (swap_in b). dev_row ((dev_cache d)\<lparr>kv_data := data\<rparr>) l g k = host_row h l c k) \<and>
        (\<forall>g < n. g \<notin> snd ` set (swap_in b) \<longrightarrow> dev_row ((dev_cache d)\<lparr>kv_data := data\<rparr>) l g k = dev_row (dev_cache d) l g k)"
      using run_swap_in_ok [OF dev h hs ins] unfolding bs by blast
    have "copied layers n m bs b d (d\<lparr>dev_cache := (dev_cache d)\<lparr>kv_data := data\<rparr>\<rparr>)"
      unfolding copied_def using r(2,3) 3 h ho hs bs by (auto simp: host_of_def)
    then show ?thesis using r(1) 3
      by (intro exI [of _ "d\<lparr>dev_cache := (dev_cache d)\<lparr>kv_data := data\<rparr>\<rparr>"]) (simp add: run_swaps_def)
  qed
qed

section \<open>Scheduling keeps the memory\<close>

lemma run_swaps_ok:
  assumes inv: "sinv X s (\<lambda>_. 0) []" and sched: "scheduled X s s' p b" and f: "flows X s s' b" and mem: "mem_ok M s d"
    and da: "digests_apart X V s" and ch: "cache_held X M V s (dev_cache d)"
    and voc: "\<forall>r \<in> set (running s'). token_ids (store s' r) \<in> vocab_lists V (max_model_len s)"
  shows "\<exists>d'. run_swaps d b = Inr d' \<and> mem_ok M s' d' \<and> cache_held X M V s' (dev_cache d')"
proof -
  let ?L = "length (model_layers M)" and ?n = "Suc (num_blocks (bm s))" and ?m = "num_cpu_blocks (bm s)" and ?bs = "sch_block_size s"
  have inv': "sinv X s' p []" and fr: "sched_frame s s'" and one: "swap_out b = [] \<or> swap_in b = []"
    using sched by (simp_all add: scheduled_def)
  have cf: "conf_same s s'" and gen: "gen_same (store s r) (store s' r)" for r using fr by (simp_all add: sched_frame_def)
  have same: "num_blocks (bm s') = num_blocks (bm s)" "num_cpu_blocks (bm s') = ?m" "sch_block_size s' = ?bs"
      "block_size (bm s') = block_size (bm s)" "max_model_len s' = max_model_len s" "block_size (bm s) = ?bs"
    using cf sinvD(5) [OF inv] by (simp_all add: conf_same_def bm_static_def conf_ok_def)
  have toks: "token_ids (store s' r) = token_ids (store s r)" for r using gen by (simp add: gen_same_def)
  note hc = host_pages_count [OF inv] and hc' = host_pages_count [OF inv', unfolded same]
  have dev: "dev_shape ?L ?n (dev_cache d)" "kv_block_size (dev_cache d) = ?bs" "scratch_block (dev_cache d) = num_blocks (bm s)"
    using mem by (simp_all add: mem_ok_def device_ok_shape)
  have bs: "0 < ?bs" using dev(1,2) by (simp add: dev_shape_def)
  have host: "host_shape ?L ?m ?bs (host_of d)" "\<forall>r \<in> set (swapped s). host_held M ?bs (host_of d) (store s r) (num_computed_tokens (store s r))"
    if "host_cache d \<noteq> None"
    using that mem by (auto simp: mem_ok_def host_mem_def host_of_def split: option.splits)
  have nohost: "?m = 0" if "host_cache d = None" using that mem by (simp add: mem_ok_def host_mem_def)
  have cpu: "c < ?m" if "r \<in> set (swapped s)" "c \<in> set (cpu_block_table (store s r))" for r c
    using hc(2) pages_member [OF that(1), of cpu_block_table "store s"] that(2) by auto
  have cpu': "c < ?m" if "r \<in> set (swapped s')" "c \<in> set (cpu_block_table (store s' r))" for r c
    using hc'(2) pages_member [OF that(1), of cpu_block_table "store s'"] that(2) by auto
  have gpu: "g < num_blocks (bm s)" if "r \<in> set (running s)" "g \<in> set (block_table (store s r))" for r g
    by (rule tables_bounded [OF inv that])
  have gpu': "g < num_blocks (bm s)" if "r \<in> set (running s')" "g \<in> set (block_table (store s' r))" for r g
    using tables_bounded [OF inv' that] same by simp
  have dest: "block_hash (bm s') ! g = None \<and> (\<forall>x \<in> set (running s'). \<forall>k < length (block_table (store s' x)).
      g = block_table (store s' x) ! k \<longrightarrow> x \<in> set (swapped s) \<and> num_registered_blocks (store s' x) = 0)"
    if g: "g \<in> snd ` set (swap_in b)" for g
  proof -
    from g obtain c where cg: "(c, g) \<in> set (swap_in b)" by auto
    from swap_in_pairs [OF f cg] obtain r k where 1: "r \<in> set (swapped s)" "r \<in> set (running s')"
      "k < length (block_table (store s' r))" "g = block_table (store s' r) ! k" "num_registered_blocks (store s' r) = 0" by metis
    have n: "num_registered_blocks (store s' r) \<le> k" by (simp add: 1(5))
    note P = own_page_place [OF inv' 1(2) n 1(3)]
    show ?thesis using P(1) P(2) 1(1,4,5) by metis
  qed
  have outs: "\<forall>(g, c) \<in> set (swap_out b). g < ?n \<and> c < ?m"
  proof (clarify, rule conjI)
    fix g c assume "(g, c) \<in> set (swap_out b)"
    from swap_out_pairs [OF f this] obtain r k where "r \<in> set (running s)" "r \<in> set (swapped s')"
      "k < length (block_table (store s r))" "k < length (cpu_block_table (store s' r))"
      "g = block_table (store s r) ! k" "c = cpu_block_table (store s' r) ! k" .
    then show "g < ?n" "c < ?m" using gpu [of r g] cpu' [of r c] by (simp_all add: less_SucI)
  qed
  have ins: "\<forall>(c, g) \<in> set (swap_in b). c < ?m \<and> g < ?n"
  proof (clarify, rule conjI)
    fix c g assume "(c, g) \<in> set (swap_in b)"
    from swap_in_pairs [OF f this] obtain r k where "r \<in> set (swapped s)" "r \<in> set (running s')"
      "k < length (cpu_block_table (store s r))" "k < length (block_table (store s' r))"
      "c = cpu_block_table (store s r) ! k" "g = block_table (store s' r) ! k" .
    then show "c < ?m" "g < ?n" using gpu' [of r g] cpu [of r c] by (simp_all add: less_SucI)
  qed
  have out_fun: "single_source (swap_out b)"
    unfolding single_source_def
  proof (intro allI impI)
    fix g g' c assume gc: "(g, c) \<in> set (swap_out b)" "(g', c) \<in> set (swap_out b)"
    obtain r k where 1: "r \<in> set (swapped s')" "k < length (cpu_block_table (store s' r))"
      "g = block_table (store s r) ! k" "c = cpu_block_table (store s' r) ! k" using swap_out_pairs [OF f gc(1)] by metis
    obtain r' k' where 2: "r' \<in> set (swapped s')" "k' < length (cpu_block_table (store s' r'))"
      "g' = block_table (store s r') ! k'" "c = cpu_block_table (store s' r') ! k'" using swap_out_pairs [OF f gc(2)] by metis
    have "r = r' \<and> k = k'" by (rule single_page [OF hc'(1) 1(1) 2(1) 1(2) 2(2)]) (use 1(4) 2(4) in simp)
    then show "g = g'" using 1(3) 2(3) by simp
  qed
  have in_fun: "single_source (swap_in b)"
    unfolding single_source_def
  proof (intro allI impI)
    fix c c' g assume cg: "(c, g) \<in> set (swap_in b)" "(c', g) \<in> set (swap_in b)"
    obtain r k where 1: "r \<in> set (running s')" "k < length (block_table (store s' r))"
      "c = cpu_block_table (store s r) ! k" "g = block_table (store s' r) ! k" using swap_in_pairs [OF f cg(1)] by metis
    obtain r' k' where 2: "r' \<in> set (running s')" "k' < length (block_table (store s' r'))"
      "c' = cpu_block_table (store s r') ! k'" "g = block_table (store s' r') ! k'" "num_registered_blocks (store s' r') = 0"
      using swap_in_pairs [OF f cg(2)] by metis
    have n: "num_registered_blocks (store s' r') \<le> k'" by (simp add: 2(5))
    have "r' = r \<and> k' = k" by (rule own_page_place(2) [OF inv' 2(1) n 2(2) 1(1,2)]) (use 1(4) 2(4) in simp)
    then show "c = c'" using 1(3) 2(3) by simp
  qed
  have have_host: "host_cache d \<noteq> None" if "swap_out b \<noteq> [] \<or> swap_in b \<noteq> []"
  proof
    assume "host_cache d = None"
    then have "?m = 0" by (rule nohost)
    with outs ins that show False by (cases "swap_out b"; cases "swap_in b") auto
  qed
  obtain d' where d': "run_swaps d b = Inr d'" "copied ?L ?n ?m ?bs b d d'"
    using run_swaps_copied [OF dev(1,2) host(1) have_host one outs out_fun ins in_fun] by blast
  have rows: "(c, g) \<in> set (swap_in b) \<Longrightarrow> dev_row (dev_cache d') l g k = host_row (host_of d) l c k"
      "g < ?n \<Longrightarrow> g \<notin> snd ` set (swap_in b) \<Longrightarrow> dev_row (dev_cache d') l g k = dev_row (dev_cache d) l g k"
      "(g, c) \<in> set (swap_out b) \<Longrightarrow> host_row (host_of d') l c k = dev_row (dev_cache d) l g k"
      "c < ?m \<Longrightarrow> c \<notin> snd ` set (swap_out b) \<Longrightarrow> host_row (host_of d') l c k = host_row (host_of d) l c k"
    if "l < ?L" "k < ?bs" for l k c g
    using d'(2) that unfolding copied_def by blast+
  have bs': "kv_block_size (dev_cache d') = ?bs" "scratch_block (dev_cache d') = num_blocks (bm s)"
      "dev_shape ?L ?n (dev_cache d')"
    using d'(2) dev(2,3) by (auto simp: copied_def)
  have run_ok: "int (length (block_table (store s r))) = ceil_div (num_computed_tokens (store s r)) ?bs" if "r \<in> set (running s)" for r
    using seqs_invD(1) [OF sinvD(3) [OF inv] that] by (simp add: running_ok_def)
  have sw_ok: "int (length (cpu_block_table (store s r))) = ceil_div (num_computed_tokens (store s r)) ?bs" if "r \<in> set (swapped s)" for r
    using seqs_invD(2) [OF sinvD(3) [OF inv] that] by (simp add: swapped_ok_def)
  have held: "dev_row (dev_cache d) l (block_table (store s r) ! (q div ?bs)) (q mod ?bs)
      = (ref_k M (token_ids (store s r)) l q, ref_v M (token_ids (store s r)) l q)"
    if "r \<in> set (running s)" "l < ?L" "q < nat (num_computed_tokens (store s r))" for r l q
    using mem that dev(2) by (simp add: mem_ok_def seq_held_rows)
  have hheld: "host_row (host_of d) l (cpu_block_table (store s r) ! (q div ?bs)) (q mod ?bs)
      = (ref_k M (token_ids (store s r)) l q, ref_v M (token_ids (store s r)) l q)"
    if "host_cache d \<noteq> None" "r \<in> set (swapped s)" "l < ?L" "q < nat (num_computed_tokens (store s r))" for r l q
    using host(2) that by (simp add: host_held_def)
  have some_host: "host_cache d \<noteq> None" if r: "r \<in> set (swapped s)" for r
  proof
    assume "host_cache d = None"
    then have "?m = 0" by (rule nohost)
    moreover have "cpu_block_table (store s r) \<noteq> []"
      using seqs_invD(2) [OF sinvD(3) [OF inv] r] by (simp add: swapped_ok_def)
    ultimately show False using cpu [OF r] by (metis less_nat_zero_code list.set_intros(1) neq_Nil_conv)
  qed
  have "seq_held M (dev_cache d') (store s' r) (num_computed_tokens (store s' r))" if r: "r \<in> set (running s')" for r
    unfolding seq_held_rows bs' toks
  proof (intro allI impI)
    fix l q assume l: "l < ?L" and q: "q < nat (num_computed_tokens (store s' r))"
    let ?k = "q div ?bs" and ?j = "q mod ?bs"
    have j: "?j < ?bs" using bs by simp
    have "run_kept X s s' b r" using f r by (simp add: flows_def)
    then consider (hit) "cache_hits X (bm s) (store s' r)"
      | (run) ys where "num_computed_tokens (store s' r) = num_computed_tokens (store s r)" "r \<in> set (running s)"
        "block_table (store s' r) = block_table (store s r) @ ys"
      | (home) "num_computed_tokens (store s' r) = num_computed_tokens (store s r)" "r \<in> set (swapped s)"
        "length (cpu_block_table (store s r)) \<le> length (block_table (store s' r))" "pairs_in s s' r \<subseteq> set (swap_in b)"
      unfolding run_kept_def by (elim disjE conjE exE) blast+
    then show "dev_row (dev_cache d') l (block_table (store s' r) ! ?k) ?j = (ref_k M (token_ids (store s r)) l q, ref_v M (token_ids (store s r)) l q)"
    proof cases
      case hit
      note H = cache_hitsD [OF hit]
      let ?g = "block_table (store s' r) ! ?k"
      have "token_ids (store s' r) \<in> vocab_lists V (max_model_len s)" using voc r by blast
      from hits_held [OF da ch hit this] dev(2) same(6) bs
      have h: "seq_held M (dev_cache d) (store s' r) (num_computed_tokens (store s' r))" by simp
      have "int q < int (num_registered_blocks (store s' r) * ?bs)" using H(1) q unfolding same(6) by linarith
      then have "q < num_registered_blocks (store s' r) * ?bs" by (simp only: of_nat_less_iff)
      then have k: "?k < num_registered_blocks (store s' r)" by (simp add: less_mult_imp_div_less)
      have "?g \<notin> snd ` set (swap_in b)"
      proof
        assume "?g \<in> snd ` set (swap_in b)"
        from conjunct2 [OF dest [OF this]] have "num_registered_blocks (store s' r) = 0" using r k H(2) by (metis less_le_trans)
        then show False using k by simp
      qed
      moreover have "?g < ?n" using H(5) [OF k] by simp
      ultimately have "dev_row (dev_cache d') l ?g ?j = dev_row (dev_cache d) l ?g ?j" by (intro rows(2) [OF l j])
      then show ?thesis using h l q toks by (simp add: seq_held_rows dev(2))
    next
      case run
      note comp = run(1) and t = run(3)
      have a: "r \<in> set (running s)" by (rule run(2))
      have len: "?k < length (block_table (store s r))" using table_index [OF run_ok [OF a] bs] q comp by simp
      let ?g = "block_table (store s r) ! ?k"
      have nth: "block_table (store s' r) ! ?k = ?g" using t len by (simp add: nth_append)
      have "?g < ?n" using gpu [of r ?g] a len by (simp add: less_SucI)
      moreover have "?g \<notin> snd ` set (swap_in b)"
      proof
        assume "?g \<in> snd ` set (swap_in b)"
        then have "r \<in> set (swapped s)" using dest [of ?g] r nth len t by (metis length_append trans_less_add1)
        then show False using queues_distinct_inv [OF inv] a by (auto simp: queues_distinct_def)
      qed
      ultimately have "dev_row (dev_cache d') l ?g ?j = dev_row (dev_cache d) l ?g ?j" by (rule rows(2) [OF l j])
      then show ?thesis using held [OF _ l, of r q] a q comp nth by simp
    next
      case home
      note comp = home(1) and a = home(2-4)
      have len: "?k < length (cpu_block_table (store s r))" using table_index [OF sw_ok [OF home(2)] bs] q comp by simp
      then have "(cpu_block_table (store s r) ! ?k, block_table (store s' r) ! ?k) \<in> pairs_in s s' r"
        using a by (auto simp: pairs_in_def in_set_zip)
      then have "(cpu_block_table (store s r) ! ?k, block_table (store s' r) ! ?k) \<in> set (swap_in b)" using a by blast
      then have "dev_row (dev_cache d') l (block_table (store s' r) ! ?k) ?j = host_row (host_of d) l (cpu_block_table (store s r) ! ?k) ?j"
        by (rule rows(1) [OF l j])
      then show ?thesis using hheld [OF some_host, of r r l q] a l q comp by simp
    qed
  qed
  moreover have "host_held M ?bs (host_of d') (store s' r) (num_computed_tokens (store s' r))" if r: "r \<in> set (swapped s')" for r
    unfolding host_held_def toks
  proof (intro allI impI)
    fix l q assume l: "l < ?L" and q: "q < nat (num_computed_tokens (store s' r))"
    let ?k = "q div ?bs" and ?j = "q mod ?bs"
    have j: "?j < ?bs" using bs by simp
    have "host_kept s s' b r" using f r by (simp add: flows_def)
    then show "host_row (host_of d') l (cpu_block_table (store s' r) ! ?k) ?j = (ref_k M (token_ids (store s r)) l q, ref_v M (token_ids (store s r)) l q)"
      unfolding host_kept_def
    proof
      assume a: "r \<in> set (swapped s) \<and> store s' r = store s r"
      then have len: "?k < length (cpu_block_table (store s r))" using table_index [OF sw_ok bs] q by simp
      let ?c = "cpu_block_table (store s r) ! ?k"
      have "?c < ?m" using cpu [of r ?c] a len by simp
      moreover have "?c \<notin> snd ` set (swap_out b)"
      proof
        assume "?c \<in> snd ` set (swap_out b)"
        then obtain g where "(g, ?c) \<in> set (swap_out b)" by auto
        from swap_out_pairs [OF f this] obtain r2 k2 where 2: "r2 \<in> set (running s)" "r2 \<in> set (swapped s')"
          "k2 < length (cpu_block_table (store s' r2))" "?c = cpu_block_table (store s' r2) ! k2" by metis
        have "r = r2" using single_page [OF hc'(1) r 2(2) _ 2(3), of ?k] 2(4) len a by simp
        moreover have "r \<notin> set (running s)"
          using queues_distinct_inv [OF inv] a by (auto simp: queues_distinct_def)
        ultimately show False using 2(1) by simp
      qed
      ultimately have "host_row (host_of d') l ?c ?j = host_row (host_of d) l ?c ?j" by (rule rows(4) [OF l j])
      then show ?thesis using hheld [OF some_host, of r r l q] a l q by simp
    next
      assume a: "r \<in> set (running s) \<and> num_computed_tokens (store s' r) = num_computed_tokens (store s r) \<and>
        length (cpu_block_table (store s' r)) = length (block_table (store s r)) \<and> pairs_out s s' r \<subseteq> set (swap_out b)"
      then have len: "?k < length (block_table (store s r))" using table_index [OF run_ok bs] q by simp
      then have "(block_table (store s r) ! ?k, cpu_block_table (store s' r) ! ?k) \<in> pairs_out s s' r"
        using a by (auto simp: pairs_out_def in_set_zip)
      then have "(block_table (store s r) ! ?k, cpu_block_table (store s' r) ! ?k) \<in> set (swap_out b)" using a by blast
      then have "host_row (host_of d') l (cpu_block_table (store s' r) ! ?k) ?j = dev_row (dev_cache d) l (block_table (store s r) ! ?k) ?j"
        by (rule rows(3) [OF l j])
      then show ?thesis using held [OF _ l, of r q] a q by simp
    qed
  qed
  moreover have "host_mem M s' (host_cache d')"
  proof (cases "host_cache d")
    case None
    then show ?thesis using d'(2) nohost same by (simp add: copied_def host_mem_def)
  next
    case (Some h)
    then obtain h' where "host_cache d' = Some h'" "host_shape ?L ?m ?bs h'"
      using d'(2) by (auto simp: copied_def host_of_def)
    then show ?thesis using calculation(2) same by (simp add: host_mem_def host_of_def)
  qed
  moreover have "device_ok M s' (dev_cache d')" using bs' same by (simp add: device_ok_shape)
  moreover have "cache_held X M V s' (dev_cache d')"
    unfolding cache_held_def same
  proof (intro allI impI)
    fix g h assume g: "g < num_blocks (bm s)" and h: "block_hash (bm s') ! g = Some h"
    have "forgets (bm s) (bm s')" using fr by (simp add: sched_frame_def)
    then have "block_hash (bm s) ! g = Some h" using g h by (simp add: forgets_def)
    then have "page_named X ?bs (vocab_lists V (max_model_len s)) M (dev_cache d) g h"
      using ch g unfolding cache_held_def same by blast
    then show "page_named X ?bs (vocab_lists V (max_model_len s)) M (dev_cache d') g h"
    proof (rule page_named_cong)
      fix l k assume "l < ?L" "k < ?bs"
      moreover have "g \<notin> snd ` set (swap_in b)" using dest [of g] h by auto
      ultimately show "dev_row (dev_cache d') l g k = dev_row (dev_cache d) l g k" using rows(2) [of l k g] g by simp
    qed
  qed
  ultimately show ?thesis using d'(1) by (intro exI [of _ d']) (simp add: mem_ok_def)
qed

end
