(* ===== verification/Engine.thy ===== *)
theory Engine
  imports Scheduler_Check Model_Runner Sampler
begin

text \<open>
  \<open>engine/core/engine.py\<close>: the constructor, \<open>step\<close>, the requests a client makes, and \<open>generate\<close>. The
  clock readings are arguments; logging, the CSV step log and \<open>logits_hook\<close> have no effect on the state.
\<close>

section \<open>State\<close>

record 'a engine =
  eng_config :: engine_config
  eng_runner :: "'a runner"
  eng_device :: "'a device"
  eng_sched :: scheduler
  eng_vocab :: int
  has_tokenizer :: bool
  eng_rng :: nat
  eng_steps :: int
  eng_generated :: int
  next_seq_id :: int
  next_ref :: sref

section \<open>Construction\<close>

text \<open>\<open>int(x)\<close> of a Python float.\<close>

fun int_of_pyfloat :: "pyfloat \<Rightarrow> int result" where
  "int_of_pyfloat (PyFin q) = Inr (py_int_of_float q)"
| "int_of_pyfloat PyNaN = Inl (ValueError ''cannot convert float NaN to integer'')"
| "int_of_pyfloat PyInf = Inl OverflowError"
| "int_of_pyfloat PyNegInf = Inl OverflowError"

text \<open>The operand of an \<open>int(x * n)\<close> that must be finite.\<close>

fun finite_float :: "pyfloat \<Rightarrow> rat result" where
  "finite_float (PyFin q) = Inr q"
| "finite_float PyNaN = Inl (ValueError ''cannot convert float NaN to integer'')"
| "finite_float PyInf = Inl OverflowError"
| "finite_float PyNegInf = Inl OverflowError"

text \<open>Multiplication by a positive integer.\<close>

fun fl_scale :: "externals \<Rightarrow> pyfloat \<Rightarrow> int \<Rightarrow> pyfloat" where
  "fl_scale X (PyFin q) n = PyFin (fl_round X (q * of_int n))"
| "fl_scale X v n = v"

definition host_blocks :: "externals \<Rightarrow> engine_config \<Rightarrow> nat \<Rightarrow> int result" where
  "host_blocks X c block_bytes =
     (if cfg_preemption_mode c = ''swap''
      then rbind (int_of_pyfloat (fl_scale X (cfg_swap_space_gb c) (2 ^ 30))) (\<lambda>bytes. floor_div bytes (int block_bytes))
      else Inr 0)"

text \<open>\<open>profile_num_blocks\<close>; the measured quantities are the free, total, peak and reserved bytes.\<close>

definition measured_blocks ::
  "externals \<Rightarrow> engine_config \<Rightarrow> nat \<Rightarrow> int \<times> int \<times> int \<times> int \<Rightarrow> int result" where
  "measured_blocks X c block_bytes measured =
     (case measured of (free, total_mem, peak, reserved) \<Rightarrow>
      rbind (finite_float (cfg_gpu_memory_utilization c)) (\<lambda>util.
        profile_blocks (fl_round X) c util free total_mem peak reserved block_bytes))"

text \<open>\<open>num_blocks or profile_num_blocks(..)\<close>.\<close>

definition device_blocks ::
  "externals \<Rightarrow> engine_config \<Rightarrow> nat \<Rightarrow> int \<times> int \<times> int \<times> int \<Rightarrow> int result" where
  "device_blocks X c block_bytes measured =
     (case cfg_num_blocks c of
        Some n \<Rightarrow> if n \<noteq> 0 then Inr n else measured_blocks X c block_bytes measured
      | None \<Rightarrow> measured_blocks X c block_bytes measured)"

definition init_host :: "nat \<Rightarrow> nat \<Rightarrow> nat \<Rightarrow> nat \<Rightarrow> nat \<Rightarrow> ('a::zero) host_pages" where
  "init_host layers blocks bs kv_heads hd_dim =
     (let zeros = replicate blocks (replicate bs (replicate kv_heads (replicate hd_dim 0)))
      in replicate layers (zeros, zeros))"

definition init_runner :: "engine_config \<Rightarrow> 'a model \<Rightarrow> 'a kernel \<Rightarrow> (nat \<Rightarrow> 'a row) \<Rightarrow> 'a runner" where
  "init_runner c M krn junk =
     \<lparr>run_model = M, naive_backend = (cfg_attention_backend c \<noteq> ''flashinfer''), flash_kernel = krn,
      graph_sizes = (if cfg_cuda_graphs c then Some (graph_buckets (cfg_max_num_seqs c)) else None),
      empty_row = junk\<rparr>"

definition init_device :: "model_config \<Rightarrow> nat \<Rightarrow> nat \<Rightarrow> nat \<Rightarrow> ('a::zero) device" where
  "init_device mc bs blocks host =
     (let layers = nat (num_hidden_layers mc); kv = nat (num_key_value_heads mc); hd_dim = nat (head_dim mc)
      in \<lparr>dev_cache = init_kv_cache layers blocks bs kv hd_dim,
          host_cache = (if 0 < host then Some (init_host layers host bs kv hd_dim) else None)\<rparr>)"

definition init_engine ::
  "externals \<Rightarrow> 'a torch \<Rightarrow> bool \<Rightarrow> int \<times> int \<times> int \<times> int \<Rightarrow> nat \<Rightarrow> engine_config \<Rightarrow> model_config \<Rightarrow> 'a model
     \<Rightarrow> bool \<Rightarrow> 'a kernel \<Rightarrow> (nat \<Rightarrow> 'a row) \<Rightarrow> ('a::zero) engine result" where
  "init_engine X T cuda measured itemsize c0 mc M tok krn junk =
     rbind (resolve cuda (max_position_embeddings mc) c0) (\<lambda>c.
     let bs = nat (cfg_block_size c);
         block_bytes = bytes_per_block (nat (num_hidden_layers mc)) bs (nat (num_key_value_heads mc)) (nat (head_dim mc)) itemsize in
     rbind (device_blocks X c block_bytes measured) (\<lambda>blocks.
     rbind (host_blocks X c block_bytes) (\<lambda>host.
     rbind (finite_float (cfg_watermark c)) (\<lambda>w.
     let bm0 = init_block_manager X (nat blocks) bs (cfg_enable_prefix_caching c) (nat host) w in
       Inr \<lparr>eng_config = c, eng_runner = init_runner c M krn junk, eng_device = init_device mc bs (nat blocks) (nat host),
            eng_sched = init_scheduler c bm0 (eos_token_ids mc), eng_vocab = mc_vocab_size mc, has_tokenizer = tok,
            eng_rng = manual_seed T (cfg_seed c), eng_steps = 0, eng_generated = 0, next_seq_id = 0, next_ref = 0\<rparr>))))"

section \<open>The loop\<close>

definition batch_params :: "seq_store \<Rightarrow> scheduled_batch \<Rightarrow> sampling_params list" where
  "batch_params st b = map (\<lambda>(r, _). sampling_params_of (st r)) (filter snd (zip (b_seqs b) (do_sample b)))"

definition after_step :: "'a engine \<Rightarrow> int \<Rightarrow> 'a engine result" where
  "after_step e sampled =
     (let e' = e\<lparr>eng_steps := eng_steps e + 1, eng_generated := eng_generated e + sampled\<rparr>
      in rbind (if cfg_debug_invariants (eng_config e') then sched_check (eng_sched e') else Inr ()) (\<lambda>_. Inr e'))"

definition eng_step ::
  "externals \<Rightarrow> 'a torch \<Rightarrow> rat \<Rightarrow> ('a::linordered_field) engine \<Rightarrow> ('a engine \<times> request_output list) result" where
  "eng_step X T now e =
     rbind (schedule X (eng_sched e)) (\<lambda>(s, b).
     if batch_is_empty b then
       (let (s', outs) = take_outputs s in
        if outs = [] \<and> has_work s'
        then Inl (RuntimeError (''scheduler made no progress with work pending: '' @ describe s'))
        else Inr (e\<lparr>eng_sched := s'\<rparr>, outs))
     else
       let sampling = sampler_prepare T (batch_params (store s) b) in
       rbind (execute (eng_runner e) (eng_device e) (store s) b) (\<lambda>(d, logits).
       rbind (case logits of None \<Rightarrow> Inr ([], eng_rng e) | Some l \<Rightarrow> sampler_call T (eng_rng e) l sampling) (\<lambda>(tokens, g).
       rbind (sched_update X now s b tokens) (\<lambda>(s', outs).
       rbind (after_step (e\<lparr>eng_sched := s', eng_device := d, eng_rng := g\<rparr>) (int (length tokens))) (\<lambda>e'.
         Inr (e', outs))))))"

text \<open>
  What a step leaves of the engine when the sampler raises: the scheduler has scheduled the batch, the
  forward pass has written its keys and values, and the generator has not drawn. \<open>None\<close> when the sampler
  did not raise.
\<close>

definition sampler_failure :: "externals \<Rightarrow> 'a torch \<Rightarrow> ('a::linordered_field) engine \<Rightarrow> 'a engine option" where
  "sampler_failure X T e =
     (case schedule X (eng_sched e) of
        Inl _ \<Rightarrow> None
      | Inr (s, b) \<Rightarrow>
          if batch_is_empty b then None else
          (case execute (eng_runner e) (eng_device e) (store s) b of
             Inr (d, Some l) \<Rightarrow>
               (case sampler_call T (eng_rng e) l (sampler_prepare T (batch_params (store s) b)) of
                  Inl _ \<Rightarrow> Some (e\<lparr>eng_sched := s, eng_device := d\<rparr>)
                | Inr _ \<Rightarrow> None)
           | _ \<Rightarrow> None))"

section \<open>Requests\<close>

definition validate :: "'a engine \<Rightarrow> sequence \<Rightarrow> unit result" where
  "validate e q =
     (let n = num_prompt_tokens q; max_toks = max_tokens (sampling_params_of q);
          len = the (cfg_max_model_len (eng_config e)) in
      if n = 0 then Inl (ValueError ''the prompt is empty'')
      else if n + max_toks > len then
        Inl (ValueError (''prompt ('' @ show_int n @ '' tokens) plus max_tokens ('' @ show_int max_toks @
               '') exceeds max_model_len ('' @ show_int len @ '')''))
      else if Min (set (prompt_token_ids q)) < 0 \<or> Max (set (prompt_token_ids q)) \<ge> eng_vocab e then
        Inl (ValueError (''prompt token ids must be in [0, '' @ show_int (eng_vocab e) @ '')''))
      else Inr ())"

text \<open>With the engine the call leaves, whether it raises or returns.\<close>

definition add_request :: "externals \<Rightarrow> 'a engine \<Rightarrow> sref \<Rightarrow> unit result \<times> 'a engine" where
  "add_request X e r =
     (let q = store (eng_sched e) r in
      case validate e q of
        Inl err \<Rightarrow> (Inl err, e)
      | Inr _ \<Rightarrow>
          let q' = (if detokenizer q = None \<and> has_tokenizer e then q\<lparr>detokenizer := Some init_detok\<rparr> else q);
              e1 = e\<lparr>eng_sched := set_seq (eng_sched e) r q'\<rparr> in
          (case sched_add X (eng_sched e1) r of
             Inl err \<Rightarrow> (Inl err, e1)
           | Inr s \<Rightarrow> (Inr (), e1\<lparr>eng_sched := s\<rparr>)))"

definition eng_abort :: "'a engine \<Rightarrow> int \<Rightarrow> 'a engine result" where
  "eng_abort e sid = rbind (sched_abort (eng_sched e) sid) (\<lambda>(s, _). Inr (e\<lparr>eng_sched := s\<rparr>))"

definition eng_has_work :: "'a engine \<Rightarrow> bool" where
  "eng_has_work e = has_work (eng_sched e)"

definition new_seq_id :: "'a engine \<Rightarrow> int \<times> 'a engine" where
  "new_seq_id e = (next_seq_id e, e\<lparr>next_seq_id := next_seq_id e + 1\<rparr>)"

text \<open>A \<open>Sequence\<close> object is created at an address nothing else has.\<close>

definition place_seq :: "sequence \<Rightarrow> 'a engine \<Rightarrow> sref \<times> 'a engine" where
  "place_seq q e = (let r = next_ref e in (r, e\<lparr>next_ref := Suc r, eng_sched := set_seq (eng_sched e) r q\<rparr>))"

text \<open>\<open>Sequence(self.new_seq_id(), ..)\<close>.\<close>

definition new_request :: "rat \<Rightarrow> int list \<Rightarrow> sampling_params \<Rightarrow> rat option \<Rightarrow> 'a engine \<Rightarrow> sref \<times> 'a engine" where
  "new_request arrival prompt params prio e =
     (case new_seq_id e of (i, e1) \<Rightarrow> place_seq (new_sequence i prompt params arrival prio) e1)"

section \<open>Offline generation\<close>

fun new_requests :: "rat list \<Rightarrow> int list list \<Rightarrow> sampling_params list \<Rightarrow> 'a engine \<Rightarrow> sref list \<times> 'a engine" where
  "new_requests (t # ts) (p # ps) (sp # sps) e =
     (let (r, e1) = new_request t p sp None e; (rs, e2) = new_requests ts ps sps e1 in (r # rs, e2))"
| "new_requests _ _ _ e = ([], e)"

partial_function (option) run_loop ::
  "externals \<Rightarrow> 'a torch \<Rightarrow> (nat \<Rightarrow> rat) \<Rightarrow> nat \<Rightarrow> ('a::linordered_field) engine \<Rightarrow> 'a engine result option" where
  "run_loop X T clock k e =
     (if \<not> eng_has_work e then Some (Inr e)
      else (case eng_step X T (clock k) e of
              Inl err \<Rightarrow> Some (Inl err)
            | Inr (e', _) \<Rightarrow> run_loop X T clock (Suc k) e'))"

fun add_requests :: "externals \<Rightarrow> 'a engine \<Rightarrow> sref list \<Rightarrow> unit result \<times> 'a engine" where
  "add_requests X e [] = (Inr (), e)"
| "add_requests X e (r # rs) =
     (case add_request X e r of
        (Inl err, e1) \<Rightarrow> (Inl err, e1)
      | (Inr _, e1) \<Rightarrow> add_requests X e1 rs)"

definition generate ::
  "externals \<Rightarrow> 'a torch \<Rightarrow> (nat \<Rightarrow> rat) \<Rightarrow> rat list \<Rightarrow> ('a::linordered_field) engine \<Rightarrow> int list list
     \<Rightarrow> sampling_params list \<Rightarrow> ('a engine \<times> sref list) result option" where
  "generate X T clock arrivals e prompts params =
     (case new_requests arrivals prompts params e of (rs, e1) \<Rightarrow>
      (case add_requests X e1 rs of
         (Inl err, _) \<Rightarrow> Some (Inl err)
       | (Inr _, e2) \<Rightarrow> map_option (\<lambda>res. rbind res (\<lambda>e3. Inr (e3, rs))) (run_loop X T clock 0 e2)))"

section \<open>Statistics\<close>

record engine_stats =
  st_num_steps :: int
  st_num_generated_tokens :: int
  st_num_running :: int
  st_num_waiting :: int
  st_num_preempted_waiting :: int
  st_num_swapped :: int
  st_num_blocks :: int
  st_num_free_blocks :: int
  st_num_cached_free_blocks :: int
  st_kv_usage :: rat
  st_num_cpu_blocks :: int
  st_num_free_cpu_blocks :: int
  st_block_size :: int
  st_total_preemptions :: int
  st_total_swap_outs :: int
  st_total_aborted :: int
  st_total_failed :: int
  st_prefix_cache_hit_rate :: rat

definition stats :: "externals \<Rightarrow> 'a engine \<Rightarrow> engine_stats result" where
  "stats X e =
     (let s = eng_sched e; b = bm s in
      if num_blocks b = 0 then Inl ZeroDivisionError else
      Inr \<lparr>st_num_steps = eng_steps e, st_num_generated_tokens = eng_generated e,
        st_num_running = int (length (running s)), st_num_waiting = wq_len (waiting s),
        st_num_preempted_waiting = int (length (preempted s)), st_num_swapped = int (length (swapped s)),
        st_num_blocks = int (num_blocks b), st_num_free_blocks = num_free_blocks b,
        st_num_cached_free_blocks = int (length (evictable b)),
        st_kv_usage = fl_round X (of_int (num_used_blocks b) / of_nat (num_blocks b)),
        st_num_cpu_blocks = int (num_cpu_blocks b), st_num_free_cpu_blocks = int (length (cpu_free b)),
        st_block_size = int (block_size b), st_total_preemptions = num_preemptions s,
        st_total_swap_outs = num_swap_outs s, st_total_aborted = num_aborted s, st_total_failed = num_failed s,
        st_prefix_cache_hit_rate =
          (if prefix_query_tokens b \<noteq> 0
           then fl_round X (of_int (prefix_hit_tokens b) / of_int (prefix_query_tokens b)) else 0)\<rparr>)"

end
