(* ===== verification/Engine_Step.thy ===== *)
theory Engine_Step
  imports Engine_Mem Engine
begin

text \<open>
  One step of the engine: what \<open>update\<close> leaves of tables and queues, what the sampler returns, and the
  invariant of the engine every step keeps.
\<close>

section \<open>Tables and queues after an update\<close>

definition tables_kept :: "scheduler \<Rightarrow> scheduler \<Rightarrow> bool" where
  "tables_kept s s' \<longleftrightarrow>
     swapped s' = swapped s \<and> preempted s' = preempted s \<and> waiting s' = waiting s \<and>
     (\<forall>x. block_table (store s' x) = block_table (store s x) \<or> status (store s' x) = FINISHED) \<and>
     (\<forall>x. status (store s x) = FINISHED \<longrightarrow> status (store s' x) = FINISHED)"

lemma tables_kept_refl [simp]: "tables_kept s s" by (simp add: tables_kept_def)

lemma tables_kept_trans: "tables_kept a b \<Longrightarrow> tables_kept b c \<Longrightarrow> tables_kept a c"
  unfolding tables_kept_def by metis

lemma tables_kept_set:
  "block_table q = block_table (store s r) \<or> status q = FINISHED \<Longrightarrow> (status (store s r) = FINISHED \<longrightarrow> status q = FINISHED) \<Longrightarrow>
     swapped s' = swapped s \<Longrightarrow> preempted s' = preempted s \<Longrightarrow> waiting s' = waiting s \<Longrightarrow> store s' = (store s)(r := q) \<Longrightarrow>
     tables_kept s s'"
  by (simp add: tables_kept_def)

lemma cache_full_blocks_frame:
  assumes "cache_full_blocks X b q = Inr (b', q')"
  shows "block_table q' = block_table q" "status q' = status q"
proof -
  have e: "block_table (extend_hashes X b q k) = block_table q" "status (extend_hashes X b q k) = status q" for k
    using extend_hashes_frame [of X b q k] by (metis sequence.select_convs(7) sequence.surjective sequence.update_convs(14),
        metis sequence.select_convs(8) sequence.surjective sequence.update_convs(14))
  show "block_table q' = block_table q" "status q' = status q"
    using assms e by (auto simp: cache_full_blocks_def Let_def result_simps split: if_splits)
qed

lemma update_one_frame:
  assumes "update_one X now (s, outs, toks, any) (r, n, smp) = Inr (s', rest)"
  shows "tables_kept s s'"
proof -
  obtain bm' q2 where c: "cache_full_blocks X (bm s) ((store s r)\<lparr>num_computed_tokens := num_computed_tokens (store s r) + n\<rparr>) = Inr (bm', q2)"
    using assms by (auto simp: update_one_def Let_def result_simps)
  note C = cache_full_blocks_frame [OF c]
  define s1 where "s1 = (set_seq s r q2)\<lparr>bm := bm'\<rparr>"
  have s1: "swapped s1 = swapped s" "preempted s1 = preempted s" "waiting s1 = waiting s" "store s1 = (store s)(r := q2)"
    by (simp_all add: s1_def set_seq_def)
  show ?thesis
  proof (cases smp)
    case False
    then have "s' = s1" using assms c by (simp add: update_one_def s1_def)
    then show ?thesis using C s1 by (intro tables_kept_set [of q2 s r]) simp_all
  next
    case True
    then obtain t ts where t: "toks = t # ts"
      using assms c by (cases toks) (auto simp: update_one_def Let_def)
    obtain q3 tx fin where a: "append_token X q2 t (eos_ids s1) (max_model_len s1) = (q3, tx, fin)"
      by (cases "append_token X q2 t (eos_ids s1) (max_model_len s1)") auto
    define q4 where "q4 = (if first_token_time q3 = None then q3\<lparr>first_token_time := Some now\<rparr> else q3)"
    have q3: "block_table q3 = block_table q2" "status q3 = status q2"
      using append_token_text_only [OF a] by (auto simp: text_only_def seq_append_token_def)
    then have q4: "block_table q4 = block_table (store s r)" "status q4 = status (store s r)"
      using C by (simp_all add: q4_def)
    show ?thesis
    proof (cases fin)
      case None
      then have "s' = set_seq s1 r q4" using assms c True t a by (simp add: update_one_def s1_def q4_def Let_def)
      then show ?thesis using q4 s1 by (intro tables_kept_set [of q4 s r]) (simp_all add: set_seq_def)
    next
      case (Some reason)
      then have "finish_seq s1 r q4 reason = Inr s'"
        using assms c True t a by (auto simp: update_one_def s1_def q4_def Let_def result_simps)
      then obtain bm2 q5 where f: "free_seq (bm s1) (q4\<lparr>status := FINISHED, finish_reason := Some reason\<rparr>) = Inr (bm2, q5)"
        and s': "s' = (set_seq s1 r q5)\<lparr>bm := bm2, seqs := AList.delete (seq_id q5) (seqs s1)\<rparr>"
        by (auto simp: finish_seq_def Let_def result_simps)
      have "status q5 = FINISHED" using free_seq_result [OF f] by simp
      then show ?thesis using s1 s' by (intro tables_kept_set [of q5 s r]) (simp_all add: set_seq_def)
    qed
  qed
qed

lemma update_loop_frame:
  assumes "foldM (update_one X now) (s, outs, toks, any) items = Inr (s', rest)"
  shows "tables_kept s s'"
  using assms
proof (induction items arbitrary: s outs toks any)
  case (Cons it items)
  obtain r n smp where it: "it = (r, n, smp)" by (cases it) auto
  from Cons.prems obtain st where one: "update_one X now (s, outs, toks, any) it = Inr st"
    and l: "foldM (update_one X now) st items = Inr (s', rest)" by (auto simp: result_simps)
  obtain s1 outs1 toks1 any1 where st: "st = (s1, outs1, toks1, any1)" by (cases st) auto
  have "tables_kept s s1" using one unfolding it st by (rule update_one_frame)
  moreover have "tables_kept s1 s'" using l unfolding st by (rule Cons.IH)
  ultimately show ?case by (rule tables_kept_trans)
qed simp

lemma sched_update_frame:
  assumes "sched_update X now s b toks = Inr (s', os)"
  shows "tables_kept s s'"
proof -
  obtain s1 outs ts any where
    l: "foldM (update_one X now) (s\<lparr>outputs := []\<rparr>, outputs s, toks, False) (zip (b_seqs b) (zip (num_new_tokens b) (do_sample b)))
      = Inr (s1, outs, ts, any)"
    and s': "s' = s1 \<or> s' = s1\<lparr>running := filter (\<lambda>r. status (store s1 r) = RUNNING) (running s1)\<rparr>"
    using assms by (auto simp: sched_update_def take_outputs_def result_simps split: if_splits)
  have "tables_kept (s\<lparr>outputs := []\<rparr>) s1" by (rule update_loop_frame [OF l])
  then show ?thesis using s' by (auto simp: tables_kept_def)
qed

section \<open>Dealing the sampled tokens\<close>

lemma dealt_map:
  assumes "distinct rs"
  shows "dealt smp rs (map g (filter smp rs)) r = (if r \<in> set rs \<and> smp r then [g r] else [])"
  using assms by (induction rs) auto

lemma as_map:
  assumes "length toks = length rs" and "distinct rs"
  obtains g where "toks = map g rs"
proof
  show "toks = map (\<lambda>r. the (map_of (zip rs toks) r)) rs"
    using assms by (intro nth_equalityI) (simp_all add: map_of_zip_nth)
qed

section \<open>The sampler\<close>

text \<open>
  What the engine relies on of torch, as it is documented. Rounding to float32 is monotone and keeps 0 and 1;
  softmax keeps the row's length and gives a distribution unless the divided row is not finite, which dividing
  by a number from 1 on cannot cause; the sort is a descending permutation; \<open>multinomial\<close>, for rows that
  meet its precondition, draws an index of each row.
\<close>

definition distribution :: "('a::linordered_field) list \<Rightarrow> bool" where
  "distribution xs \<longleftrightarrow> (\<forall>x \<in> set xs. 0 \<le> x) \<and> 0 < sum_list xs"

definition torch_ok :: "('a::linordered_field) torch \<Rightarrow> bool" where
  "torch_ok T \<longleftrightarrow>
     (\<forall>x y. x \<le> y \<longrightarrow> to_float32 T x \<le> to_float32 T y) \<and> to_float32 T 0 = 0 \<and> to_float32 T 1 = 1 \<and>
     (\<forall>t row xs. softmax_at T t row = Some xs \<longrightarrow> length xs = length row \<and> (row \<noteq> [] \<longrightarrow> distribution xs)) \<and>
     (\<forall>t row. 1 \<le> t \<longrightarrow> softmax_at T t row \<noteq> None) \<and>
     (\<forall>row. descending_order row (sort_order T row)) \<and>
     (\<forall>g rows. (\<forall>row \<in> set rows. distribution row) \<longrightarrow> list_all2 (\<lambda>i row. i < length row) (fst (multinomial T g rows)) rows)"

lemma torch_okD:
  assumes "torch_ok T"
  shows "x \<le> y \<Longrightarrow> to_float32 T x \<le> to_float32 T y" "to_float32 T 0 = 0" "to_float32 T 1 = 1"
    and "softmax_at T t row = Some xs \<Longrightarrow> length xs = length row" "softmax_at T t row = Some xs \<Longrightarrow> row \<noteq> [] \<Longrightarrow> distribution xs"
    and "1 \<le> t \<Longrightarrow> softmax_at T t row \<noteq> None" "descending_order row (sort_order T row)"
    and "\<forall>row \<in> set rows. distribution row \<Longrightarrow> list_all2 (\<lambda>i row. i < length row) (fst (multinomial T g rows)) rows"
  using assms by (simp_all add: torch_ok_def)

text \<open>A row that a temperature divides beyond what is finite: the request is sampled, and softmax gives NaNs.\<close>

definition nan_row :: "'a torch \<Rightarrow> sampling_params \<Rightarrow> 'a list \<Rightarrow> bool" where
  "nan_row T p row \<longleftrightarrow> 0 < temperature p \<and> softmax_at T (to_float32 T (temperature p)) row = None"

text \<open>It takes a temperature below 1.\<close>

lemma nan_row_cold:
  assumes T: "torch_ok T" and n: "nan_row T p row"
  shows "0 < temperature p" "temperature p < 1"
proof -
  show p: "0 < temperature p" using n by (simp add: nan_row_def)
  have "\<not> 1 \<le> temperature p"
  proof
    assume "1 \<le> temperature p"
    then have "1 \<le> to_float32 T (temperature p)" using torch_okD(1) [OF T, of 1] torch_okD(3) [OF T] by simp
    then have "softmax_at T (to_float32 T (temperature p)) row \<noteq> None" by (rule torch_okD(6) [OF T])
    then show False using n by (simp add: nan_row_def)
  qed
  then show "temperature p < 1"
    using p pyfloat_trichotomy [of "temperature p" 1] by (cases "temperature p") (auto simp: pyfloat_defs)
qed

text \<open>The rounded \<open>top_p\<close> of a validated request is a number from 0 on.\<close>

lemma top_p_rounded:
  assumes T: "torch_ok T" and p: "sampling_params_post_init p = Inr p"
  obtains q where "to_float32 T (top_p p) = PyFin q" "0 \<le> q"
proof -
  have b: "0 \<le> top_p p" "top_p p \<le> 1" using p by (auto simp: sampling_params_post_init_def less_eq_pyfloat_def split: if_splits)
  have "0 \<le> to_float32 T (top_p p)" "to_float32 T (top_p p) \<le> 1"
    using torch_okD(1) [OF T b(1)] torch_okD(1) [OF T b(2)] torch_okD(2,3) [OF T] by simp_all
  then show ?thesis
    by (cases "to_float32 T (top_p p)") (auto simp: pyfloat_defs intro: that)
qed

lemma length_scatter [simp]: "length (scatter n idx src) = n"
proof -
  have "length (foldl (\<lambda>ys (i, v). ys[i := v]) xs ps) = length xs" for xs :: "'a list" and ps
    by (induction ps arbitrary: xs) (simp_all add: split_beta)
  then show ?thesis by (simp add: scatter_def)
qed

lemma mapM_argmax:
  assumes "\<forall>row \<in> set rows. row \<noteq> []"
  shows "\<exists>is. mapM argmax rows = Inr is \<and> list_all2 (\<lambda>i row. i < length row \<and> argmax row = Inr i) is rows"
  using assms
proof (induction rows)
  case (Cons row rows)
  then obtain "is" where "mapM argmax rows = Inr is" "list_all2 (\<lambda>i row. i < length row \<and> argmax row = Inr i) is rows" by auto
  moreover obtain i where "argmax row = Inr i" "i < length row" using argmax_spec [of row] Cons.prems by auto
  ultimately show ?case by (intro exI [of _ "i # is"]) simp
qed simp

text \<open>The rows \<open>multinomial\<close> gets.\<close>

definition sampler_probs :: "('a::linordered_field) torch \<Rightarrow> sampling_params list \<Rightarrow> 'a list list \<Rightarrow> 'a list option list" where
  "sampler_probs T ps rows =
     (let t = sampler_prepare T ps; probs0 = map2 (softmax_at T) (the (temperatures t)) rows
      in case top_ps t of None \<Rightarrow> probs0 | Some tps \<Rightarrow> map2 (\<lambda>tp row. Option.bind row (top_p_row T tp)) tps probs0)"

lemma sampler_probs_ok:
  assumes T: "torch_ok T" and len: "length ps = length rows" and i: "i < length rows" "rows ! i \<noteq> []"
    and valid: "sampling_params_post_init (ps ! i) = Inr (ps ! i)" and some: "\<not> list_all (\<lambda>p. py_eq (temperature p) 0) ps"
  shows "length (sampler_probs T ps rows) = length rows"
    and "if nan_row T (ps ! i) (rows ! i) then sampler_probs T ps rows ! i = None
      else \<exists>xs. sampler_probs T ps rows ! i = Some xs \<and> length xs = length (rows ! i) \<and> distribution xs"
proof -
  let ?p = "ps ! i" and ?row = "rows ! i"
  let ?t = "to_float32 T (if 0 < temperature ?p then temperature ?p else 1)"
  let ?S = "sampler_probs T ps rows"
  show "length ?S = length rows"
    using some len by (simp add: sampler_probs_def sampler_prepare_def Let_def split: option.split)
  have at: "?S ! i = softmax_at T ?t ?row \<or> ?S ! i = Option.bind (softmax_at T ?t ?row) (top_p_row T (to_float32 T (top_p ?p)))"
    using some len i(1) by (auto simp: sampler_probs_def sampler_prepare_def Let_def split: option.split)
  show "if nan_row T ?p ?row then ?S ! i = None else \<exists>xs. ?S ! i = Some xs \<and> length xs = length ?row \<and> distribution xs"
  proof (cases "nan_row T ?p ?row")
    case True
    then show ?thesis using at by (auto simp: nan_row_def)
  next
    case False
    have "softmax_at T ?t ?row \<noteq> None"
      using False torch_okD(6) [OF T, of 1] torch_okD(3) [OF T] by (auto simp: nan_row_def pyfloat_defs)
    then obtain xs where xs: "softmax_at T ?t ?row = Some xs" by auto
    have d: "length xs = length ?row" "distribution xs" using torch_okD(4,5) [OF T xs] i(2) by simp_all
    obtain q where q: "to_float32 T (top_p ?p) = PyFin q" "0 \<le> q" by (rule top_p_rounded [OF T valid])
    obtain ys where ys: "top_p_row T (to_float32 T (top_p ?p)) xs = Some ys" "length ys = length xs" "\<forall>y \<in> set ys. 0 \<le> y" "0 < sum_list ys"
      by (rule top_p_row_ok [OF torch_okD(7) [OF T] _ q, of xs]) (use d(2) in \<open>simp_all add: distribution_def\<close>)
    show ?thesis using at False xs ys d by (auto simp: distribution_def)
  qed
qed

text \<open>
  A token for every row, in range, the row's argmax where the request is greedy; or the error of
  \<open>multinomial\<close>, exactly when some row is one of NaNs.
\<close>

definition drawn :: "sampling_params list \<Rightarrow> ('a::linordered_field) list list \<Rightarrow> int list \<Rightarrow> bool" where
  "drawn ps rows toks \<longleftrightarrow> length toks = length rows \<and>
     (\<forall>i < length rows. 0 \<le> toks ! i \<and> nat (toks ! i) < length (rows ! i) \<and>
        (py_eq (temperature (ps ! i)) 0 \<longrightarrow> argmax (rows ! i) = Inr (nat (toks ! i))))"

lemma multinomial_call_ok:
  assumes T: "torch_ok T" and len: "length probs = length rows"
    and rows: "\<And>i. i < length rows \<Longrightarrow> if bad i then probs ! i = None
      else \<exists>xs. probs ! i = Some xs \<and> length xs = length (rows ! i) \<and> distribution xs"
  shows "if \<exists>i < length rows. bad i then multinomial_call T g probs = Inl nan_error
    else \<exists>sampled g'. multinomial_call T g probs = Inr (sampled, g') \<and> list_all2 (\<lambda>k row. k < length row) sampled rows"
proof (cases "\<exists>i < length rows. bad i")
  case True
  then obtain i where i: "i < length probs" "probs ! i = None" using rows len by auto
  then have "None \<in> set probs" by (metis nth_mem)
  then have "list_ex (\<lambda>row. case row of None \<Rightarrow> True | Some xs \<Rightarrow> list_ex (\<lambda>x. x < 0) xs) probs" by (force simp: list_ex_iff)
  then show ?thesis using True by (simp add: multinomial_call_def)
next
  case False
  then have r: "\<exists>xs. probs ! i = Some xs \<and> length xs = length (rows ! i) \<and> distribution xs" if "i < length rows" for i
    using rows [OF that] that by auto
  have all: "\<exists>xs. row = Some xs \<and> distribution xs" if "row \<in> set probs" for row using r that len by (metis in_set_conv_nth)
  then have dist: "\<forall>row \<in> set (map the probs). distribution row" by fastforce
  have "\<not> list_ex (\<lambda>row. case row of None \<Rightarrow> True | Some xs \<Rightarrow> list_ex (\<lambda>x. x < 0) xs) probs"
    using all by (fastforce simp: list_ex_iff distribution_def)
  moreover have "\<not> list_ex (\<lambda>row. sum_list (the row) \<le> 0) probs" using all by (fastforce simp: list_ex_iff distribution_def)
  ultimately have call: "multinomial_call T g probs = Inr (multinomial T g (map the probs))" by (simp add: multinomial_call_def)
  have m: "list_all2 (\<lambda>i row. i < length row) (fst (multinomial T g (map the probs))) (map the probs)" by (rule torch_okD(8) [OF T dist])
  have "list_all2 (\<lambda>k row. k < length row) (fst (multinomial T g (map the probs))) rows"
    unfolding list_all2_conv_all_nth
  proof (intro conjI allI impI)
    show l: "length (fst (multinomial T g (map the probs))) = length rows" using list_all2_lengthD [OF m] len by simp
    fix i assume i: "i < length (fst (multinomial T g (map the probs)))"
    then have "fst (multinomial T g (map the probs)) ! i < length (map the probs ! i)" by (rule list_all2_nthD [OF m])
    moreover have "i < length rows" using i l by simp
    ultimately show "fst (multinomial T g (map the probs)) ! i < length (rows ! i)" using r [of i] len by auto
  qed
  then show ?thesis using False call by (cases "multinomial T g (map the probs)") auto
qed

lemma sampler_ok:
  assumes T: "torch_ok T" and len: "length ps = length rows" and ne: "\<forall>row \<in> set rows. row \<noteq> []"
    and valid: "\<forall>p \<in> set ps. sampling_params_post_init p = Inr p"
  shows "if \<exists>i < length rows. nan_row T (ps ! i) (rows ! i) then sampler_call T g rows (sampler_prepare T ps) = Inl nan_error
    else \<exists>toks g'. sampler_call T g rows (sampler_prepare T ps) = Inr (toks, g') \<and> drawn ps rows toks"
proof -
  obtain "is" where m: "mapM argmax rows = Inr is" and am: "list_all2 (\<lambda>i row. i < length row \<and> argmax row = Inr i) is rows"
    using mapM_argmax [OF ne] by blast
  have li: "length is = length rows" using am by (rule list_all2_lengthD)
  have ai: "is ! i < length (rows ! i) \<and> argmax (rows ! i) = Inr (is ! i)" if "i < length rows" for i
    using list_all2_nthD2 [OF am that] by simp
  show ?thesis
  proof (cases "list_all (\<lambda>p. py_eq (temperature p) 0) ps")
    case True
    then have "temperature (ps ! i) = 0" if "i < length rows" for i using that len by (auto simp: list_all_length py_eq_def)
    then have none: "\<not> (\<exists>i < length rows. nan_row T (ps ! i) (rows ! i))" by (auto simp: nan_row_def pyfloat_defs)
    have "sampler_call T g rows (sampler_prepare T ps) = Inr (map int is, g)"
      using m True by (simp add: sampler_call_def sampler_prepare_def)
    moreover have "drawn ps rows (map int is)" using li ai by (simp add: drawn_def)
    ultimately show ?thesis using none by auto
  next
    case False
    let ?t = "sampler_prepare T ps"
    have P: "length (sampler_probs T ps rows) = length rows"
      using False len by (simp add: sampler_probs_def sampler_prepare_def Let_def split: option.split)
    have row: "if nan_row T (ps ! i) (rows ! i) then sampler_probs T ps rows ! i = None
        else \<exists>xs. sampler_probs T ps rows ! i = Some xs \<and> length xs = length (rows ! i) \<and> distribution xs" if i: "i < length rows" for i
      by (rule sampler_probs_ok(2) [OF T len i _ _ False]) (use ne valid len i in auto)
    have call: "sampler_call T g rows ?t = rbind (multinomial_call T g (sampler_probs T ps rows)) (\<lambda>(sampled, g').
        Inr (map int (map2 (\<lambda>c (a, b). if c then a else b) (the (greedy ?t)) (zip is sampled)), g'))"
      unfolding sampler_call_def Let_def sampler_probs_def m rbind_simps using False by (simp add: sampler_prepare_def)
    note M = multinomial_call_ok [OF T P row, of g]
    show ?thesis
    proof (cases "\<exists>i < length rows. nan_row T (ps ! i) (rows ! i)")
      case True
      then show ?thesis using M by (simp add: call)
    next
      case fine: False
      then obtain sampled g' where sg: "multinomial_call T g (sampler_probs T ps rows) = Inr (sampled, g')"
        and s: "list_all2 (\<lambda>k row. k < length row) sampled rows" using M unfolding if_not_P [OF fine] by blast
      have ls: "length sampled = length rows" by (rule list_all2_lengthD [OF s])
      define toks where "toks = map int (map2 (\<lambda>c (a, b). if c then a else b) (the (greedy ?t)) (zip is sampled))"
      have "sampler_call T g rows ?t = Inr (toks, g')" unfolding call sg toks_def by simp
      moreover have "length toks = length rows" using False len li ls by (simp add: toks_def sampler_prepare_def)
      moreover have "toks ! i = int (if py_eq (temperature (ps ! i)) 0 then is ! i else sampled ! i)" if "i < length rows" for i
        using False len li ls that by (simp add: toks_def sampler_prepare_def)
      ultimately show ?thesis using ai list_all2_nthD2 [OF s] fine by (auto simp: drawn_def)
    qed
  qed
qed

end
