(* ===== verification/Engine_Inv.thy ===== *)
theory Engine_Inv
  imports Engine_Step Greedy_Ref
begin

text \<open>
  The invariant of the engine between two calls: the scheduler's invariant, a memory that holds the
  reference keys and values of every computed token, and for every request a token list in the
  vocabulary whose greedy tokens are the reference's argmax. It is stated for the naive backend; with prefix
  caching, for digests without a collision, and then every page with a digest holds what the digest names.
\<close>

section \<open>Definitions\<close>

definition greedy_ok :: "('a::linordered_field) model \<Rightarrow> sequence \<Rightarrow> bool" where
  "greedy_ok M q \<longleftrightarrow> tokens_consistent q \<and>
     (output_token_ids q \<noteq> [] \<longrightarrow> num_output_tokens q \<le> max_tokens (sampling_params_of q)) \<and>
     (py_eq (temperature (sampling_params_of q)) 0 \<longrightarrow> follows M (prompt_token_ids q) (output_token_ids q))"

definition eng_conf :: "externals \<Rightarrow> ('a::field) engine \<Rightarrow> bool" where
  "eng_conf X e \<longleftrightarrow> naive_backend (eng_runner e) \<and> graph_sizes (eng_runner e) = None \<and>
     model_fits (run_model (eng_runner e)) (eng_vocab e) (max_model_len (eng_sched e)) \<and>
     cfg_max_model_len (eng_config e) = Some (max_model_len (eng_sched e)) \<and>
     digests_apart X (eng_vocab e) (eng_sched e)"

abbreviation valid_params :: "sampling_params \<Rightarrow> bool" where
  "valid_params params \<equiv> sampling_params_post_init params = Inr params"

definition requests_ok :: "('a::linordered_field) model \<Rightarrow> int \<Rightarrow> scheduler \<Rightarrow> bool" where
  "requests_ok M V s \<longleftrightarrow> (\<forall>r. greedy_ok M (store s r)) \<and> (\<forall>r \<in> set (queue_list s []). in_vocab V (token_ids (store s r)) \<and> valid_params (sampling_params_of (store s r)))"

text \<open>\<open>p r\<close> tokens of \<open>r\<close> are scheduled and not yet processed: none between two calls, those of the batch
  after a step that raised.\<close>

definition eng_ok_at :: "externals \<Rightarrow> (sref \<Rightarrow> int) \<Rightarrow> ('a::linordered_field) engine \<Rightarrow> bool" where
  "eng_ok_at X p e \<longleftrightarrow> eng_conf X e \<and> sinv X (eng_sched e) p [] \<and>
     mem_ok (run_model (eng_runner e)) (eng_sched e) (eng_device e) \<and>
     cache_held X (run_model (eng_runner e)) (eng_vocab e) (eng_sched e) (dev_cache (eng_device e)) \<and>
     tables_distinct (eng_sched e) \<and>
     requests_ok (run_model (eng_runner e)) (eng_vocab e) (eng_sched e)"

abbreviation eng_ok :: "externals \<Rightarrow> ('a::linordered_field) engine \<Rightarrow> bool" where
  "eng_ok X e \<equiv> eng_ok_at X (\<lambda>_. 0) e"

lemma queued_vocab:
  assumes req: "requests_ok M V s" and inv: "sinv X s p []" and r: "r \<in> set (queue_list s [])"
  shows "token_ids (store s r) \<in> vocab_lists V (max_model_len s)"
proof -
  have "live_ok (max_model_len s) (store s r)" by (rule sinv_live [OF inv r])
  then have "int (length (token_ids (store s r))) \<le> max_model_len s"
    by (simp add: live_ok_def tokens_consistent_def num_prompt_tokens_def num_output_tokens_def)
  then show ?thesis using req r by (simp add: vocab_lists_def requests_ok_def)
qed

lemma running_vocab:
  assumes "requests_ok M V s" and "sinv X s p []"
  shows "\<forall>r \<in> set (running s). token_ids (store s r) \<in> vocab_lists V (max_model_len s)"
  using queued_vocab [OF assms] by (simp add: queue_list_def)

section \<open>Queues only shrink\<close>

lemma queue_subset:
  assumes inv: "sinv X s p []" and inv': "sinv X s' p' []" and cf: "conf_same s s'"
  shows "set (queue_list s' []) \<subseteq> set (queue_list s [])"
proof
  fix r assume "r \<in> set (queue_list s' [])"
  then have "map_of (seqs s') (seq_id (store s' r)) = Some r"
    using queues_invD(4) [OF sinvD(2) [OF inv']] by blast
  then have "(seq_id (store s' r), r) \<in> set (seqs s)"
    using cf map_of_SomeD unfolding conf_same_def by fast
  moreover have "distinct (map fst (seqs s))"
    using queues_invD(3) [OF sinvD(2) [OF inv]] by (simp add: dict_wf_def)
  ultimately have "map_of (seqs s) (seq_id (store s' r)) = Some r" by (rule map_of_is_SomeI [rotated])
  then show "r \<in> set (queue_list s [])" using queues_invD(4) [OF sinvD(2) [OF inv]] by blast
qed

lemma has_work_queue: "sinv X s p [] \<Longrightarrow> has_work s \<longleftrightarrow> queue_list s [] \<noteq> []"
  by (auto simp: has_work_iff queue_list_def admission_order_def)

lemma idle_stays_idle:
  assumes "sinv X s p []" and "sinv X s' p' []" and "conf_same s s'" and "\<not> has_work s"
  shows "\<not> has_work s'"
  using queue_subset [OF assms(1-3)] assms(4) has_work_queue [OF assms(1)] has_work_queue [OF assms(2)] by auto

section \<open>The batch's rows and parameters\<close>

lemma batch_params_ok:
  assumes "batch_ok s p b"
  shows "batch_params (store s) b = map (\<lambda>r. sampling_params_of (store s r)) (filter (samples (store s) p) (b_seqs b))"
proof -
  have "map f (filter snd (zip rs (map g rs))) = map (f \<circ> (\<lambda>r. (r, g r))) (filter g rs)"
    for f :: "sref \<times> bool \<Rightarrow> sampling_params" and g rs
    by (induction rs) simp_all
  then show ?thesis unfolding batch_params_def batch_okD(7) [OF assms] by (simp add: comp_def)
qed

lemma live_tokens_ok:
  assumes fit: "model_fits M V (max_model_len s)" and inv: "sinv X s p []" and r: "r \<in> set (queue_list s [])"
    and voc: "in_vocab V (token_ids (store s r))"
  shows "tokens_ok M (token_ids (store s r))"
proof -
  have "live_ok (max_model_len s) (store s r)" by (rule live_invD [OF sinvD(4) [OF inv] r])
  then have "int (length (token_ids (store s r))) \<le> max_model_len s"
    by (simp add: live_ok_def tokens_consistent_def num_prompt_tokens_def num_output_tokens_def)
  then have "length (token_ids (store s r)) \<le> max_positions M" using fit by (simp add: model_fits_def)
  moreover have "list_all (\<lambda>t. 0 \<le> t \<and> nat t < length (embed_tokens M)) (token_ids (store s r))"
    using voc fit by (auto simp: in_vocab_def model_fits_def list_all_iff)
  ultimately show ?thesis by (simp add: tokens_ok_def)
qed

section \<open>The forward pass leaves the other sequences alone\<close>

lemma running_pages:
  assumes inv: "sinv X s p []" and bs: "0 < sch_block_size s" and r: "r \<in> set (running s)"
    and q: "q < nat (num_computed_tokens (store s r) + p r)"
  shows "q div sch_block_size s < length (block_table (store s r))"
proof -
  have "running_ok (chunked s) (sch_block_size s) (p r) (store s r)" by (rule seqs_invD(1) [OF sinvD(3) [OF inv] r])
  then have "int (length (block_table (store s r))) = ceil_div (num_computed_tokens (store s r) + p r) (sch_block_size s)"
    by (simp add: running_ok_def)
  then show ?thesis using bs q by (rule table_index)
qed

text \<open>A slot the batch writes lies on a page of one of its sequences' own.\<close>

lemma written_page:
  assumes inv: "sinv X s p []" and ok: "batch_ok s p b" and bs: "0 < sch_block_size s"
    and x: "x \<in> set (all_writes (sch_block_size s) (batch_items_of s p b))"
  obtains r q where "r \<in> set (b_seqs b)" "r \<in> set (running s)" "x = slot_at (sch_block_size s) (block_table (store s r)) q"
    "num_registered_blocks (store s r) \<le> q div sch_block_size s" "q div sch_block_size s < length (block_table (store s r))"
proof -
  let ?bs = "sch_block_size s"
  obtain r q where r: "r \<in> set (b_seqs b)" and q: "nat (num_computed_tokens (store s r)) \<le> q"
    "q < nat (num_computed_tokens (store s r)) + nat (p r)" and slot: "x = slot_at ?bs (block_table (store s r)) q"
    using x
    by (auto simp: all_writes_def batch_items_of_def items_of_def write_slots_def it_slot_def it_end_def item_of_def)
  have run: "r \<in> set (running s)" using batch_okD(2) [OF ok] r by blast
  have "0 \<le> num_computed_tokens (store s r)" "0 \<le> p r"
    using seqs_invD(1) [OF sinvD(3) [OF inv] run] by (simp_all add: running_ok_def)
  then have "q < nat (num_computed_tokens (store s r) + p r)" using q(2) by (simp add: nat_add_distrib)
  then have len: "q div ?bs < length (block_table (store s r))" by (rule running_pages [OF inv bs run])
  have "nat (num_computed_tokens (store s r)) div ?bs \<le> q div ?bs" using q(1) by (rule div_le_mono)
  from write_page [OF inv bs run this len] show ?thesis using that r run slot len by blast
qed

lemma other_slots:
  assumes inv: "sinv X s p []" and ok: "batch_ok s p b" and bs: "0 < sch_block_size s"
    and r: "r \<in> set (running s)" "r \<notin> set (b_seqs b)" and q: "q < nat (num_computed_tokens (store s r))"
  shows "slot_at (sch_block_size s) (block_table (store s r)) q \<notin> set (all_writes (sch_block_size s) (batch_items_of s p b))"
proof
  let ?bs = "sch_block_size s"
  assume "slot_at ?bs (block_table (store s r)) q \<in> set (all_writes ?bs (batch_items_of s p b))"
  then obtain r' q' where r': "r' \<in> set (b_seqs b)" "r' \<in> set (running s)"
    and eq: "slot_at ?bs (block_table (store s r)) q = slot_at ?bs (block_table (store s r')) q'"
    and k: "num_registered_blocks (store s r') \<le> q' div ?bs" "q' div ?bs < length (block_table (store s r'))"
    using written_page [OF inv ok bs] by metis
  have pr: "p r = 0" by (rule batch_okD(4) [OF ok r(2)])
  have "q div ?bs < length (block_table (store s r))" using running_pages [OF inv bs r(1)] q pr by simp
  from own_page_place(2) [OF inv r'(2) k r(1) this] slot_at_inj(1) [OF bs eq] have "r' = r" by simp
  then show False using r(2) r'(1) by simp
qed

text \<open>A page with a digest is not written.\<close>

lemma named_slots:
  assumes inv: "sinv X s p []" and ok: "batch_ok s p b" and bs: "0 < sch_block_size s"
    and g: "block_hash (bm s) ! g = Some h" and k: "k < sch_block_size s"
  shows "g * sch_block_size s + k \<notin> set (all_writes (sch_block_size s) (batch_items_of s p b))"
proof
  let ?bs = "sch_block_size s"
  assume "g * ?bs + k \<in> set (all_writes ?bs (batch_items_of s p b))"
  then obtain r q where r: "r \<in> set (running s)" "g * ?bs + k = slot_at ?bs (block_table (store s r)) q"
    "num_registered_blocks (store s r) \<le> q div ?bs" "q div ?bs < length (block_table (store s r))"
    using written_page [OF inv ok bs] by metis
  have "slot_at ?bs [g] k = slot_at ?bs (block_table (store s r)) q" using r(2) k by (simp add: slot_at_def)
  from slot_at_inj(1) [OF bs this] k have "g = block_table (store s r) ! (q div ?bs)" by simp
  then show False using own_page_place(1) [OF inv r(1,3,4)] g by simp
qed

lemma held_untouched:
  assumes ow: "only_written W c c'" and held: "seq_held M c q n" and layers: "length (kv_data c) = length (model_layers M)"
    and out: "\<And>x. x < nat n \<Longrightarrow> slot_at (kv_block_size c) (block_table q) x \<notin> set W"
  shows "seq_held M c' q n"
proof -
  have "c' = c\<lparr>kv_data := kv_data c'\<rparr>" using ow by (simp add: only_written_def)
  then have "kv_block_size c' = kv_block_size (c\<lparr>kv_data := kv_data c'\<rparr>)" by (rule arg_cong)
  then have bs: "kv_block_size c' = kv_block_size c" by simp
  have "fst (kv_data c' ! l) ! x = fst (kv_data c ! l) ! x \<and> snd (kv_data c' ! l) ! x = snd (kv_data c ! l) ! x"
    if "l < length (model_layers M)" "x \<notin> set W" for l x
    using ow that layers by (simp add: only_written_def)
  with held out show ?thesis
    by (simp add: seq_held_def bs holds_def holds_layer_def it_slot_def item_of_def)
qed

lemma forward_memory:
  assumes inv: "sinv X s p []" and ok: "batch_ok s p b"
    and dev: "device_ok M s c" and ow: "only_written (all_writes (sch_block_size s) (batch_items_of s p b)) c c'"
    and held: "\<forall>r \<in> set (running s). seq_held M c (store s r) (num_computed_tokens (store s r))"
    and new: "\<forall>r \<in> set (b_seqs b). seq_held M c' (store s r) (num_computed_tokens (store s r) + p r)"
    and r: "r \<in> set (running s)"
  shows "seq_held M c' (store s r) (num_computed_tokens (store s r) + p r)"
proof (cases "r \<in> set (b_seqs b)")
  case False
  have bs: "kv_block_size c = sch_block_size s" "0 < sch_block_size s" "length (kv_data c) = length (model_layers M)"
    using dev by (simp_all add: device_ok_def cache_shape_def)
  have "seq_held M c' (store s r) (num_computed_tokens (store s r))"
    by (rule held_untouched [OF ow]) (use held r bs other_slots [OF inv ok bs(2) r False] in simp_all)
  then show ?thesis by (simp add: batch_okD(4) [OF ok False])
qed (use new in simp)

lemma forward_cache:
  assumes inv: "sinv X s p []" and ok: "batch_ok s p b"
    and dev: "device_ok M s c" and ow: "only_written (all_writes (sch_block_size s) (batch_items_of s p b)) c c'"
    and ch: "cache_held X M V s c"
  shows "cache_held X M V s c'"
  unfolding cache_held_def
proof (intro allI impI)
  fix g h assume g: "g < num_blocks (bm s)" and h: "block_hash (bm s) ! g = Some h"
  have bs: "kv_block_size c = sch_block_size s" "0 < sch_block_size s" "length (kv_data c) = length (model_layers M)"
    using dev by (simp_all add: device_ok_def cache_shape_def)
  have same: "block_size (bm s) = sch_block_size s" using sinvD(5) [OF inv] by (simp add: conf_ok_def)
  have "c' = c\<lparr>kv_data := kv_data c'\<rparr>" using ow by (simp add: only_written_def)
  then have "kv_block_size c' = kv_block_size (c\<lparr>kv_data := kv_data c'\<rparr>)" by (rule arg_cong)
  then have bs': "kv_block_size c' = kv_block_size c" by simp
  show "page_named X (block_size (bm s)) (vocab_lists V (max_model_len s)) M c' g h"
  proof (rule page_named_cong)
    show "page_named X (block_size (bm s)) (vocab_lists V (max_model_len s)) M c g h"
      using ch g h unfolding cache_held_def by blast
    fix l k assume l: "l < length (model_layers M)" and k: "k < block_size (bm s)"
    have "g * sch_block_size s + k \<notin> set (all_writes (sch_block_size s) (batch_items_of s p b))"
      by (rule named_slots [OF inv ok bs(2) h]) (use k same in simp)
    then show "dev_row c' l g k = dev_row c l g k"
      using ow l bs by (simp add: only_written_def dev_row_def bs')
  qed
qed

end
