(* ===== verification/Engine_Loop.thy ===== *)
theory Engine_Loop
  imports Engine_Inv
begin

text \<open>
  Every step of the engine keeps the invariant: scheduling, the page copies, the forward pass, the sampler,
  the update and the debug check, composed as \<open>LLMEngine.step\<close> composes them. It returns unless the
  sampler raises, for a request whose temperature divides its logits beyond the finite numbers.
\<close>

section \<open>Executing a batch\<close>

definition forwarded :: "('a::field) model \<Rightarrow> scheduler \<Rightarrow> (sref \<Rightarrow> int) \<Rightarrow> 'a device \<Rightarrow> bool" where
  "forwarded M s p d \<longleftrightarrow>
     device_ok M s (dev_cache d) \<and> host_mem M s (host_cache d) \<and>
     (\<forall>r \<in> set (running s). seq_held M (dev_cache d) (store s r) (num_computed_tokens (store s r) + p r))"

lemma execute_ok:
  assumes R: "naive_backend R" "graph_sizes R = None" "model_ok (run_model R)"
    and inv: "sinv X s p []" and ok: "batch_ok s p b"
    and sw: "run_swaps d0 b = Inr d1" "mem_ok (run_model R) s d1" and ch: "cache_held X (run_model R) V s (dev_cache d1)"
    and toks: "\<forall>r \<in> set (b_seqs b). tokens_ok (run_model R) (token_ids (store s r))"
  shows "\<exists>d. execute R d0 (store s) b = Inr (d,
        if filter (samples (store s) p) (b_seqs b) = [] then None
        else Some (map (\<lambda>r. ref_logits (run_model R) (token_ids (store s r))) (filter (samples (store s) p) (b_seqs b)))) \<and>
     forwarded (run_model R) s p d \<and> cache_held X (run_model R) V s (dev_cache d)"
proof -
  let ?M = "run_model R"
  have ex: "execute R d0 (store s) b = (if b_seqs b = [] then Inr (d1, None)
      else rbind (run_forward R (store s) b (dev_cache d1)) (\<lambda>(c, logits). Inr (d1\<lparr>dev_cache := c\<rparr>, logits)))"
  proof -
    have "execute R d0 (store s) b = rbind (run_swaps d0 b) (\<lambda>d. if b_seqs b = [] then Inr (d, None)
      else rbind (run_forward R (store s) b (dev_cache d)) (\<lambda>(c, logits). Inr (d\<lparr>dev_cache := c\<rparr>, logits)))"
      unfolding execute_def run_swaps_def R(2)
      by (cases "if swap_out b \<noteq> [] then run_swap_out d0 (swap_out b) else Inr d0") simp_all
    then show ?thesis using sw(1) by simp
  qed
  note mem = sw(2) [unfolded mem_ok_def]
  show ?thesis
  proof (cases "b_seqs b = []")
    case True
    have "p r = 0" for r using batch_okD(4) [OF ok] True by simp
    then have "forwarded ?M s p d1" using mem by (simp add: forwarded_def)
    then show ?thesis using ex True ch by (intro exI [of _ d1]) simp
  next
    case False
    have dev: "device_ok ?M s (dev_cache d1)" using mem by simp
    have held: "seq_held ?M (dev_cache d1) (store s r) (num_computed_tokens (store s r))" if "r \<in> set (b_seqs b)" for r
      using mem batch_okD(2) [OF ok] that by blast
    obtain c' where f: "run_forward R (store s) b (dev_cache d1) = Inr (c',
        if filter (samples (store s) p) (b_seqs b) = [] then None
        else Some (map (\<lambda>r. ref_logits ?M (token_ids (store s r))) (filter (samples (store s) p) (b_seqs b))))"
      and c': "device_ok ?M s c'" "only_written (all_writes (sch_block_size s) (batch_items_of s p b)) (dev_cache d1) c'"
        "\<forall>r \<in> set (b_seqs b). seq_held ?M c' (store s r) (num_computed_tokens (store s r) + p r)"
      using run_forward_ok [OF inv ok R(1,3) dev _ held] toks by blast
    have "\<forall>r \<in> set (running s). seq_held ?M c' (store s r) (num_computed_tokens (store s r) + p r)"
      using forward_memory [OF inv ok dev c'(2) _ c'(3)] mem by blast
    then have "forwarded ?M s p (d1\<lparr>dev_cache := c'\<rparr>)" using mem c'(1) by (simp add: forwarded_def)
    moreover have "cache_held X ?M V s c'" by (rule forward_cache [OF inv ok dev c'(2) ch])
    ultimately show ?thesis using ex f False by (intro exI [of _ "d1\<lparr>dev_cache := c'\<rparr>"]) simp
  qed
qed

section \<open>Sampling\<close>

definition sample_rows :: "('a::field) model \<Rightarrow> scheduler \<Rightarrow> sref list \<Rightarrow> 'a list list option" where
  "sample_rows M s rs = (if rs = [] then None else Some (map (\<lambda>r. ref_logits M (token_ids (store s r))) rs))"

text \<open>The token drawn for one sequence.\<close>

definition token_ok :: "('a::linordered_field) model \<Rightarrow> int \<Rightarrow> sequence \<Rightarrow> int \<Rightarrow> bool" where
  "token_ok M V q t \<longleftrightarrow> 0 \<le> t \<and> t < V \<and>
     (py_eq (temperature (sampling_params_of q)) 0 \<longrightarrow> argmax (ref_logits M (token_ids q)) = Inr (nat t))"

definition draw :: "('a::linordered_field) torch \<Rightarrow> nat \<Rightarrow> sampling_tensors \<Rightarrow> 'a list list option \<Rightarrow> (int list \<times> nat) result" where
  "draw T g tensors logits = (case logits of None \<Rightarrow> Inr ([], g) | Some l \<Rightarrow> sampler_call T g l tensors)"

text \<open>The logits of a sequence overflow at its temperature.\<close>

definition nan_logits :: "'a torch \<Rightarrow> ('a::field) model \<Rightarrow> sequence \<Rightarrow> bool" where
  "nan_logits T M q \<longleftrightarrow> nan_row T (sampling_params_of q) (ref_logits M (token_ids q))"

lemma draw_ok:
  assumes fit: "model_fits M V L" and T: "torch_ok T" and dist: "distinct rs"
    and valid: "\<forall>r \<in> set rs. valid_params (sampling_params_of (store s r))"
  shows "if \<exists>r \<in> set rs. nan_logits T M (store s r)
    then draw T g (sampler_prepare T (map (\<lambda>r. sampling_params_of (store s r)) rs)) (sample_rows M s rs) = Inl nan_error
    else \<exists>f g'. draw T g (sampler_prepare T (map (\<lambda>r. sampling_params_of (store s r)) rs)) (sample_rows M s rs) = Inr (map f rs, g') \<and>
     (\<forall>r \<in> set rs. token_ok M V (store s r) (f r))"
proof (cases "rs = []")
  case False
  let ?rows = "map (\<lambda>r. ref_logits M (token_ids (store s r))) rs" and ?ps = "map (\<lambda>r. sampling_params_of (store s r)) rs"
  have V: "0 < V" using fit by (simp add: model_fits_def)
  have len: "length (ref_logits M ts) = nat V" for ts by (rule ref_logits_length [OF fit])
  have ne: "\<forall>row \<in> set ?rows. row \<noteq> []" using len V by (metis (no_types, lifting) imageE length_0_conv list.set_map zero_less_nat_eq less_numeral_extra(3))
  have draw: "draw T g t (sample_rows M s rs) = sampler_call T g ?rows t" for t using False by (simp add: draw_def sample_rows_def)
  have bad: "(\<exists>i < length ?rows. nan_row T (?ps ! i) (?rows ! i)) \<longleftrightarrow> (\<exists>r \<in> set rs. nan_logits T M (store s r))"
    unfolding set_conv_nth by (auto simp: nan_logits_def)
  have "length ?ps = length ?rows" "\<forall>p \<in> set ?ps. valid_params p" using valid by simp_all
  note S = sampler_ok [OF T this(1) ne this(2), of g, unfolded bad]
  show ?thesis
  proof (cases "\<exists>r \<in> set rs. nan_logits T M (store s r)")
    case True
    then show ?thesis using S unfolding draw by simp
  next
    case fine: False
    obtain toks g' where t: "sampler_call T g ?rows (sampler_prepare T ?ps) = Inr (toks, g')" "drawn ?ps ?rows toks"
      using S unfolding if_not_P [OF fine] by blast
    obtain f where f: "toks = map f rs" using as_map [OF _ dist, of toks] t(2) by (auto simp: drawn_def)
    have "token_ok M V (store s r) (f r)" if "r \<in> set rs" for r
    proof -
      obtain i where i: "i < length rs" "rs ! i = r" using \<open>r \<in> set rs\<close> by (auto simp: in_set_conv_nth)
      then show ?thesis using t(2) len V by (auto simp: token_ok_def drawn_def f)
    qed
    then show ?thesis using t(1) f unfolding if_not_P [OF fine] draw by blast
  qed
qed (simp add: draw_def sample_rows_def)

section \<open>After the update\<close>

lemma held_extended:
  assumes held: "seq_held M c q n" and table: "block_table q' = block_table q"
    and toks: "token_ids q' = token_ids q @ new" and n: "n \<le> int (length (token_ids q))"
  shows "seq_held M c q' n"
proof -
  have kv: "ref_k M (token_ids q') l x = ref_k M (token_ids q) l x" "ref_v M (token_ids q') l x = ref_v M (token_ids q) l x"
    if "x < nat n" for l x
  proof -
    have same: "token_ids q' ! j = token_ids q ! j" if "j \<le> x" for j
    proof -
      have "j < length (token_ids q)" using that \<open>x < nat n\<close> n by linarith
      then show ?thesis by (simp add: toks nth_append)
    qed
    show "ref_k M (token_ids q') l x = ref_k M (token_ids q) l x" by (rule ref_kv_cong(1)) (rule same)
    show "ref_v M (token_ids q') l x = ref_v M (token_ids q) l x" by (rule ref_kv_cong(2)) (rule same)
  qed
  show ?thesis using held kv by (simp add: seq_held_rows table)
qed

text \<open>From a scheduled batch to the queues after the update; \<open>new r\<close> is what \<open>r\<close> was dealt.\<close>

definition advanced_by :: "scheduler \<Rightarrow> scheduler \<Rightarrow> (sref \<Rightarrow> int) \<Rightarrow> scheduled_batch \<Rightarrow> (sref \<Rightarrow> int list) \<Rightarrow> bool" where
  "advanced_by s s' p b new \<longleftrightarrow>
     conf_same s s' \<and> tables_kept s s' \<and> outputs s' = [] \<and>
     running s' = filter (\<lambda>r. status (store s' r) = RUNNING) (running s) \<and>
     (\<forall>x. x \<notin> set (b_seqs b) \<longrightarrow> store s' x = store s x) \<and>
     (\<forall>r \<in> set (b_seqs b). advanced s s' r (p r) (new r))"

lemma update_memory:
  assumes inv: "sinv X s p []" and ok: "batch_ok s p b" and mem: "forwarded M s p d"
    and upd: "advanced_by s s' p b new"
  shows "mem_ok M s' d"
proof -
  have cf: "conf_same s s'" and kept: "tables_kept s s'"
    and run: "running s' = filter (\<lambda>r. status (store s' r) = RUNNING) (running s)"
    and others: "\<forall>x. x \<notin> set (b_seqs b) \<longrightarrow> store s' x = store s x"
    and adv: "\<forall>r \<in> set (b_seqs b). advanced s s' r (p r) (new r)"
    using upd by (simp_all add: advanced_by_def)
  have "seq_held M (dev_cache d) (store s' r) (num_computed_tokens (store s' r))" if r: "r \<in> set (running s')" for r
  proof (cases "r \<in> set (b_seqs b)")
    case True
    have r0: "r \<in> set (running s)" "status (store s' r) = RUNNING" using r run by auto
    have h: "seq_held M (dev_cache d) (store s r) (num_computed_tokens (store s r) + p r)"
      using mem r0(1) by (simp add: forwarded_def)
    have A: "num_computed_tokens (store s' r) = num_computed_tokens (store s r) + p r"
      "token_ids (store s' r) = token_ids (store s r) @ new r"
      using adv True by (simp_all add: advanced_def)
    have "num_computed_tokens (store s r) + p r \<le> int (length (token_ids (store s r)))"
      using seqs_invD(1) [OF sinvD(3) [OF inv] r0(1)] by (simp add: running_ok_def num_tokens_def)
    moreover have "block_table (store s' r) = block_table (store s r)"
      using kept r0(2) by (auto simp: tables_kept_def)
    ultimately show ?thesis unfolding A(1) using held_extended [OF h _ A(2)] by blast
  next
    case False
    then show ?thesis using mem r run others batch_okD(4) [OF ok False] by (auto simp: forwarded_def)
  qed
  moreover have "device_ok M s' (dev_cache d)" unfolding device_ok_frame [OF cf] using mem by (simp add: forwarded_def)
  moreover have "host_mem M s' (host_cache d)"
  proof -
    have "store s' r = store s r" if "r \<in> set (swapped s)" for r
    proof -
      have "r \<notin> set (running s)"
        using that queues_invD(2) [OF sinvD(2) [OF inv]] by (auto simp: queue_list_def)
      then show ?thesis using others batch_okD(2) [OF ok] by blast
    qed
    moreover have "swapped s' = swapped s" using kept by (simp add: tables_kept_def)
    moreover have "num_cpu_blocks (bm s') = num_cpu_blocks (bm s)" "sch_block_size s' = sch_block_size s"
      using cf by (simp_all add: conf_same_def bm_static_def)
    ultimately show ?thesis using mem by (auto simp: forwarded_def host_mem_def split: option.splits)
  qed
  ultimately show ?thesis by (simp add: mem_ok_def)
qed

text \<open>The pages published in the update hold what their digests name.\<close>

lemma update_cache:
  assumes inv: "sinv X s p []" and ok: "batch_ok s p b" and mem: "forwarded M s p d" and ch: "cache_held X M V s (dev_cache d)"
    and named: "pages_named X s s' p (b_seqs b)" and cf: "conf_same s s'"
    and voc: "\<forall>r \<in> set (running s). token_ids (store s r) \<in> vocab_lists V (max_model_len s)"
  shows "cache_held X M V s' (dev_cache d)"
  unfolding cache_held_def
proof (intro allI impI)
  let ?bs = "block_size (bm s)" and ?T = "vocab_lists V (max_model_len s)"
  have same: "num_blocks (bm s') = num_blocks (bm s)" "block_size (bm s') = ?bs" "max_model_len s' = max_model_len s"
    using cf by (simp_all add: conf_same_def bm_static_def)
  have bs: "kv_block_size (dev_cache d) = ?bs" "0 < ?bs"
    using mem sinvD(5) [OF inv] by (simp_all add: forwarded_def device_ok_def conf_ok_def)
  fix g h assume "g < num_blocks (bm s')" and h: "block_hash (bm s') ! g = Some h"
  then have g: "g < num_blocks (bm s)" by (simp add: same)
  show "page_named X (block_size (bm s')) (vocab_lists V (max_model_len s')) M (dev_cache d) g h"
    unfolding same
  proof (cases "block_hash (bm s) ! g = Some h")
    case True
    then show "page_named X ?bs ?T M (dev_cache d) g h" using ch g unfolding cache_held_def by blast
  next
    case False
    then obtain r j where r: "r \<in> set (b_seqs b)" and j: "Suc j * ?bs \<le> nat (num_computed_tokens (store s r) + p r)"
      "g = block_table (store s r) ! j" "h = block_digest X ?bs (token_ids (store s r)) (block_chain X ?bs (token_ids (store s r)) j)"
      using named g h unfolding pages_named_def by blast
    have run: "r \<in> set (running s)" using batch_okD(2) [OF ok] r by blast
    let ?q = "store s r"
    have "num_computed_tokens ?q + p r \<le> int (length (token_ids ?q))"
      using seqs_invD(1) [OF sinvD(3) [OF inv] run] by (simp add: running_ok_def num_tokens_def)
    then have len: "Suc j * ?bs \<le> length (token_ids ?q)" using j(1) by linarith
    have "dev_row (dev_cache d) l g k = (ref_k M (token_ids ?q) l (j * ?bs + k), ref_v M (token_ids ?q) l (j * ?bs + k))"
      if l: "l < length (model_layers M)" and k: "k < ?bs" for l k
    proof -
      have "seq_held M (dev_cache d) ?q (num_computed_tokens ?q + p r)" using mem run by (simp add: forwarded_def)
      moreover have "j * ?bs + k < nat (num_computed_tokens ?q + p r)" using j(1) k by simp
      ultimately have "dev_row (dev_cache d) l (block_table ?q ! ((j * ?bs + k) div ?bs)) ((j * ?bs + k) mod ?bs)
          = (ref_k M (token_ids ?q) l (j * ?bs + k), ref_v M (token_ids ?q) l (j * ?bs + k))"
        using l unfolding seq_held_rows bs(1) by blast
      then show ?thesis using k j(2) by simp
    qed
    then show "page_named X ?bs ?T M (dev_cache d) g h"
      unfolding page_named_def using voc run len j(3) by blast
  qed
qed

lemma tables_distinct_advanced:
  assumes td: "tables_distinct s" and upd: "advanced_by s s' p b new"
  shows "tables_distinct s'"
  unfolding tables_distinct_def
proof
  fix r assume "r \<in> set (running s')"
  then have r: "r \<in> set (running s)" "status (store s' r) = RUNNING" using upd by (auto simp: advanced_by_def)
  have "tables_kept s s'" using upd by (simp add: advanced_by_def)
  then have "block_table (store s' r) = block_table (store s r)" using r(2) by (auto simp: tables_kept_def)
  then show "distinct (block_table (store s' r))" using td r(1) by (simp add: tables_distinct_def)
qed

text \<open>The requests.\<close>

lemma greedy_advanced:
  assumes g: "greedy_ok M (store s r)" and live: "live_ok L (store s r)" and a: "advanced s s' r n new" and new: "new = [] \<or> (\<exists>t. new = [t] \<and> token_ok M V (store s r) t)"
  shows "greedy_ok M (store s' r)"
proof -
  let ?q = "store s r" and ?q' = "store s' r"
  have A: "token_ids ?q' = token_ids ?q @ new" "output_token_ids ?q' = output_token_ids ?q @ new"
      "prompt_token_ids ?q' = prompt_token_ids ?q" "sampling_params_of ?q' = sampling_params_of ?q"
    using a by (simp_all add: advanced_def seq_static_def)
  have tc: "token_ids ?q = prompt_token_ids ?q @ output_token_ids ?q" using g by (simp add: greedy_ok_def tokens_consistent_def)
  from new show ?thesis
  proof (elim disjE exE conjE)
    assume "new = []"
    then show ?thesis using g A by (simp add: greedy_ok_def tokens_consistent_def num_output_tokens_def)
  next
    fix t assume t: "new = [t]" "token_ok M V ?q t"
    have "num_output_tokens ?q' \<le> max_tokens (sampling_params_of ?q')"
      using live A t(1) by (simp add: live_ok_def num_output_tokens_def)
    then show ?thesis
      using g A tc t(2) unfolding t(1) greedy_ok_def tokens_consistent_def token_ok_def
      by (simp add: follows_def nth_append less_Suc_eq)
  qed
qed

lemma requests_advanced:
  assumes ok: "requests_ok M V s" and inv: "sinv X s p []" and inv': "sinv X s' (\<lambda>_. 0) []" and upd: "advanced_by s s' p b new" and ok_b: "batch_ok s p b"
    and new: "\<forall>r \<in> set (b_seqs b). new r = [] \<or> (\<exists>t. new r = [t] \<and> token_ok M V (store s r) t)"
  shows "requests_ok M V s'"
proof -
  have U: "conf_same s s'" "\<forall>x. x \<notin> set (b_seqs b) \<longrightarrow> store s' x = store s x"
      "\<forall>r \<in> set (b_seqs b). advanced s s' r (p r) (new r)"
    using upd by (simp_all add: advanced_by_def)
  have "greedy_ok M (store s' r)" for r
  proof (cases "r \<in> set (b_seqs b)")
    case True
    then have "r \<in> set (queue_list s [])" using batch_okD(2) [OF ok_b] by (auto simp: queue_list_def)
    then have "live_ok (max_model_len s) (store s r)" by (rule sinv_live [OF inv])
    then show ?thesis using greedy_advanced [of M s r "max_model_len s" s' "p r" "new r" V] ok U(3) new True by (simp add: requests_ok_def)
  qed (use ok U(2) in \<open>simp add: requests_ok_def\<close>)
  moreover have "in_vocab V (token_ids (store s' r)) \<and> valid_params (sampling_params_of (store s' r))"
    if r: "r \<in> set (queue_list s' [])" for r
  proof -
    have voc: "in_vocab V (token_ids (store s r))" "valid_params (sampling_params_of (store s r))"
      using ok queue_subset [OF inv inv' U(1)] r by (auto simp: requests_ok_def)
    show ?thesis
    proof (cases "r \<in> set (b_seqs b)")
      case True
      then have "token_ids (store s' r) = token_ids (store s r) @ new r" "sampling_params_of (store s' r) = sampling_params_of (store s r)"
        using U(3) by (simp_all add: advanced_def)
      moreover have "in_vocab V (new r)" using new True by (auto simp: in_vocab_def token_ok_def)
      ultimately show ?thesis using voc by (simp add: in_vocab_def)
    qed (use voc U(2) in simp)
  qed
  ultimately show ?thesis by (simp add: requests_ok_def)
qed

lemma requests_scheduled:
  assumes ok: "requests_ok M V s" and inv: "sinv X s p []" and inv': "sinv X s' p' []" and fr: "sched_frame s s'"
  shows "requests_ok M V s'"
proof -
  have gen: "gen_same (store s r) (store s' r)" and cf: "conf_same s s'" for r using fr by (simp_all add: sched_frame_def)
  have "greedy_ok M (store s' r)" for r
    using ok gen [of r]
    by (simp add: requests_ok_def greedy_ok_def gen_same_def seq_static_def tokens_consistent_def num_output_tokens_def)
  moreover have "in_vocab V (token_ids (store s' r)) \<and> valid_params (sampling_params_of (store s' r))"
    if "r \<in> set (queue_list s' [])" for r
    using ok queue_subset [OF inv inv' cf] gen [of r] that by (auto simp: requests_ok_def gen_same_def)
  ultimately show ?thesis by (simp add: requests_ok_def)
qed

section \<open>The step\<close>

definition eng_static :: "'a engine \<Rightarrow> 'a engine \<Rightarrow> bool" where
  "eng_static e e' \<longleftrightarrow> eng_config e' = eng_config e \<and> eng_runner e' = eng_runner e \<and> eng_vocab e' = eng_vocab e \<and>
     has_tokenizer e' = has_tokenizer e \<and> next_seq_id e' = next_seq_id e \<and> next_ref e' = next_ref e"

lemma eng_conf_static:
  "eng_conf X e \<Longrightarrow> eng_static e e' \<Longrightarrow> conf_same (eng_sched e) (eng_sched e') \<Longrightarrow> eng_conf X e'"
  by (simp add: eng_conf_def eng_static_def digests_apart_same) (simp add: conf_same_def)

text \<open>The whole iteration: what was scheduled, what it advanced.\<close>

definition stepped :: "externals \<Rightarrow> ('a::linordered_field) engine \<Rightarrow> 'a engine \<Rightarrow> (sref \<Rightarrow> int) \<Rightarrow> scheduled_batch \<Rightarrow> bool" where
  "stepped X e e' p b \<longleftrightarrow>
     (\<exists>s new. schedule X (eng_sched e) = Inr (s, b) \<and> scheduled X (eng_sched e) s p b \<and>
        advanced_by s (eng_sched e') p b new \<and>
        (\<forall>r \<in> set (b_seqs b). if samples (store s) p r
           then \<exists>t. new r = [t] \<and> token_ok (run_model (eng_runner e)) (eng_vocab e) (store s r) t else new r = [])) \<and>
     eng_static e e'"

lemma advanced_by_idle:
  assumes inv: "sinv X s p []" and b: "b_seqs b = []"
  shows "advanced_by s (s\<lparr>outputs := []\<rparr>) p b new"
proof -
  have "filter (\<lambda>r. status (store s r) = RUNNING) (running s) = running s"
    using seqs_invD(1) [OF sinvD(3) [OF inv]] by (simp add: filter_id_conv running_ok_def)
  then show ?thesis using b by (simp add: advanced_by_def conf_same_def tables_kept_def)
qed

lemma after_step_ok:
  assumes inv: "sinv X (eng_sched e) (\<lambda>_. 0) []" and td: "tables_distinct (eng_sched e)"
  shows "after_step e n = Inr (e\<lparr>eng_steps := eng_steps e + 1, eng_generated := eng_generated e + n\<rparr>)"
proof -
  have "sched_check (eng_sched e) = Inr ()"
    by (rule sched_check_ok [OF inv td])
  then show ?thesis by (simp add: after_step_def Let_def)
qed

text \<open>The part of \<open>step\<close> after \<open>schedule\<close>, for a batch that is not empty.\<close>

definition run_batch ::
  "externals \<Rightarrow> 'a torch \<Rightarrow> rat \<Rightarrow> ('a::linordered_field) engine \<Rightarrow> scheduler \<Rightarrow> scheduled_batch \<Rightarrow> ('a engine \<times> request_output list) result" where
  "run_batch X T now e s b =
     rbind (execute (eng_runner e) (eng_device e) (store s) b) (\<lambda>(d, logits).
     rbind (draw T (eng_rng e) (sampler_prepare T (batch_params (store s) b)) logits) (\<lambda>(tokens, g).
     rbind (sched_update X now s b tokens) (\<lambda>(s', outs).
     rbind (after_step (e\<lparr>eng_sched := s', eng_device := d, eng_rng := g\<rparr>) (int (length tokens))) (\<lambda>e'.
       Inr (e', outs)))))"

lemma eng_step_split:
  "eng_step X T now e =
     rbind (schedule X (eng_sched e)) (\<lambda>(s, b).
       if batch_is_empty b then
         (let (s', outs) = take_outputs s in
          if outs = [] \<and> has_work s'
          then Inl (RuntimeError (''scheduler made no progress with work pending: '' @ describe s'))
          else Inr (e\<lparr>eng_sched := s'\<rparr>, outs))
       else run_batch X T now e s b)"
  by (simp only: eng_step_def run_batch_def draw_def Let_def)

lemma batch_tokens_ok:
  assumes "model_fits M V (max_model_len s)" and "sinv X s p []" and "batch_ok s p b" and "requests_ok M V s"
  shows "\<forall>r \<in> set (b_seqs b). tokens_ok M (token_ids (store s r))"
proof
  fix r assume "r \<in> set (b_seqs b)"
  then have q: "r \<in> set (queue_list s [])" using batch_okD(2) [OF assms(3)] by (auto simp: queue_list_def)
  show "tokens_ok M (token_ids (store s r))"
    by (rule live_tokens_ok [OF assms(1,2) q]) (use assms(4) q in \<open>simp add: requests_ok_def\<close>)
qed

lemma forwarded_mem:
  assumes inv: "sinv X s p []" and ok: "batch_ok s p b" and fw: "forwarded M s p d"
  shows "mem_ok M s d"
proof -
  have "seq_held M (dev_cache d) (store s r) (num_computed_tokens (store s r))" if r: "r \<in> set (running s)" for r
  proof -
    have "0 \<le> p r" using batch_okD(3,4) [OF ok, of r] by (cases "r \<in> set (b_seqs b)") auto
    then have le: "nat (num_computed_tokens (store s r)) \<le> nat (num_computed_tokens (store s r) + p r)" by simp
    have "seq_held M (dev_cache d) (store s r) (num_computed_tokens (store s r) + p r)" using fw r by (simp add: forwarded_def)
    then show ?thesis unfolding seq_held_rows using order_less_le_trans [OF _ le] by blast
  qed
  then show ?thesis using fw by (simp add: mem_ok_def forwarded_def)
qed

text \<open>What is left when the sampler raises.\<close>

definition batch_raised ::
  "externals \<Rightarrow> 'a torch \<Rightarrow> ('a::linordered_field) engine \<Rightarrow> scheduler \<Rightarrow> scheduled_batch \<Rightarrow> 'a device \<Rightarrow> bool" where
  "batch_raised X T e s b d \<longleftrightarrow>
     (\<exists>l. execute (eng_runner e) (eng_device e) (store s) b = Inr (d, Some l) \<and>
        sampler_call T (eng_rng e) l (sampler_prepare T (batch_params (store s) b)) = Inl nan_error) \<and>
     mem_ok (run_model (eng_runner e)) s d \<and> cache_held X (run_model (eng_runner e)) (eng_vocab e) s (dev_cache d)"

lemma run_batch_ok:
  assumes V: "V = eng_vocab e" and fit: "model_fits (run_model (eng_runner e)) V (max_model_len s)" and T: "torch_ok T"
    and R: "naive_backend (eng_runner e)" "graph_sizes (eng_runner e) = None"
    and ch: "cache_held X (run_model (eng_runner e)) V s (dev_cache d1)" and td: "tables_distinct s"
    and inv: "sinv X s p []" and ok: "batch_ok s p b"
    and sw: "run_swaps (eng_device e) b = Inr d1" "mem_ok (run_model (eng_runner e)) s d1"
    and req: "requests_ok (run_model (eng_runner e)) V s"
  shows "if \<exists>r \<in> set (b_seqs b). samples (store s) p r \<and> nan_logits T (run_model (eng_runner e)) (store s r)
   then run_batch X T now e s b = Inl nan_error \<and> (\<exists>d. batch_raised X T e s b d)
   else \<exists>e' outs new. run_batch X T now e s b = Inr (e', outs) \<and> eng_static e e' \<and>
     sinv X (eng_sched e') (\<lambda>_. 0) [] \<and> advanced_by s (eng_sched e') p b new \<and>
     mem_ok (run_model (eng_runner e)) (eng_sched e') (eng_device e') \<and>
     cache_held X (run_model (eng_runner e)) V (eng_sched e') (dev_cache (eng_device e')) \<and> tables_distinct (eng_sched e') \<and>
     (\<forall>r \<in> set (b_seqs b). if samples (store s) p r
        then \<exists>t. new r = [t] \<and> token_ok (run_model (eng_runner e)) V (store s r) t else new r = [])"
proof -
  let ?R = "eng_runner e" and ?M = "run_model (eng_runner e)" and ?smp = "samples (store s) p"
  define rs where "rs = filter ?smp (b_seqs b)"
  note B = batch_okD [OF ok]
  have dist: "distinct rs" using B(1) by (simp add: rs_def)
  have M: "model_ok ?M" using fit by (simp add: model_fits_def)
  note toks = batch_tokens_ok [OF fit inv ok req]
  obtain d where ex: "execute ?R (eng_device e) (store s) b = Inr (d, sample_rows ?M s rs)" and fw: "forwarded ?M s p d"
      and ch1: "cache_held X ?M V s (dev_cache d)"
    using execute_ok [OF R M inv ok sw ch toks] unfolding sample_rows_def rs_def by blast
  have valid: "\<forall>r \<in> set rs. valid_params (sampling_params_of (store s r))"
  proof
    fix r assume "r \<in> set rs"
    then have "r \<in> set (queue_list s [])" using B(2) by (auto simp: rs_def queue_list_def)
    then show "valid_params (sampling_params_of (store s r))" using req by (simp add: requests_ok_def)
  qed
  note D = draw_ok [OF fit T dist valid, of "eng_rng e", folded batch_params_ok [OF ok, folded rs_def]]
  have bad: "(\<exists>r \<in> set (b_seqs b). ?smp r \<and> nan_logits T ?M (store s r)) \<longleftrightarrow> (\<exists>r \<in> set rs. nan_logits T ?M (store s r))"
    by (auto simp: rs_def)
  show ?thesis
  proof (cases "\<exists>r \<in> set rs. nan_logits T ?M (store s r)")
    case True
    then have dr: "draw T (eng_rng e) (sampler_prepare T (batch_params (store s) b)) (sample_rows ?M s rs) = Inl nan_error" using D by simp
    then obtain l where "sample_rows ?M s rs = Some l" "sampler_call T (eng_rng e) l (sampler_prepare T (batch_params (store s) b)) = Inl nan_error"
      by (cases "sample_rows ?M s rs") (simp_all add: draw_def)
    then have "batch_raised X T e s b d"
      using ex ch1 forwarded_mem [OF inv ok fw] by (simp add: batch_raised_def V)
    moreover have "run_batch X T now e s b = Inl nan_error" using ex dr by (simp add: run_batch_def)
    ultimately show ?thesis using True unfolding bad by auto
  next
    case fine: False
    obtain f g' where dr: "draw T (eng_rng e) (sampler_prepare T (batch_params (store s) b)) (sample_rows ?M s rs) = Inr (map f rs, g')"
      and tok: "\<forall>r \<in> set rs. token_ok ?M V (store s r) (f r)"
      using D unfolding if_not_P [OF fine] by blast
    have enough: "length (filter (\<lambda>d. d) (do_sample b)) \<le> length (map f rs)"
      by (simp add: B(7) rs_def filter_map comp_def)
    obtain s' os where up: "sched_update X now s b (map f rs) = Inr (s', outputs s @ os)"
      and u: "sinv X s' (\<lambda>_. 0) []" "outputs s' = []" "conf_same s s'"
        "running s' = filter (\<lambda>r. status (store s' r) = RUNNING) (running s)"
        "\<forall>x. x \<notin> set (b_seqs b) \<longrightarrow> store s' x = store s x"
        "\<forall>r \<in> set (b_seqs b). advanced s s' r (p r) (dealt ?smp (b_seqs b) (map f rs) r)"
        "pages_named X s s' p (b_seqs b)"
      using sched_update_ok [OF inv ok enough, of now] by blast
    define new where "new = dealt ?smp (b_seqs b) (map f rs)"
    have new: "new r = (if r \<in> set (b_seqs b) \<and> ?smp r then [f r] else [])" for r
      unfolding new_def rs_def by (rule dealt_map [OF B(1)])
    have adv: "advanced_by s s' p b new"
      using u sched_update_frame [OF up] by (simp add: advanced_by_def new_def)
    define e1 where "e1 = e\<lparr>eng_sched := s', eng_device := d, eng_rng := g'\<rparr>"
    define e' where "e' = e1\<lparr>eng_steps := eng_steps e1 + 1, eng_generated := eng_generated e1 + int (length (map f rs))\<rparr>"
    have td': "tables_distinct s'" by (rule tables_distinct_advanced [OF td adv])
    have "after_step e1 (int (length (map f rs))) = Inr e'"
      unfolding e'_def by (rule after_step_ok) (use u(1) td' in \<open>simp_all add: e1_def\<close>)
    then have "run_batch X T now e s b = Inr (e', outputs s @ os)"
      using ex dr up by (simp add: run_batch_def e1_def)
    moreover have "mem_ok ?M s' d" by (rule update_memory [OF inv ok fw adv])
    moreover have "cache_held X ?M V s' (dev_cache d)"
      by (rule update_cache [OF inv ok fw ch1 u(7,3) running_vocab [OF req inv]])
    moreover have "\<forall>r \<in> set (b_seqs b). if ?smp r then \<exists>t. new r = [t] \<and> token_ok ?M V (store s r) t else new r = []"
      using tok by (simp add: new rs_def)
    ultimately show ?thesis
      unfolding bad if_not_P [OF fine]
      using u(1) adv td' by (intro exI [of _ e'] exI [of _ "outputs s @ os"] exI [of _ new]) (simp add: e'_def e1_def eng_static_def)
  qed
qed

text \<open>
  The only way a step fails: the sampler raises for a queued request whose logits overflow at its temperature,
  and what it leaves still holds every request and its memory.
\<close>

definition step_raised :: "externals \<Rightarrow> 'a torch \<Rightarrow> rat \<Rightarrow> ('a::linordered_field) engine \<Rightarrow> bool" where
  "step_raised X T now e \<longleftrightarrow> eng_step X T now e = Inl nan_error \<and>
     (\<exists>r \<in> set (queue_list (eng_sched e) []). nan_logits T (run_model (eng_runner e)) (store (eng_sched e) r)) \<and>
     (\<exists>e2 p. sampler_failure X T e = Some e2 \<and> eng_ok_at X p e2 \<and> eng_static e e2 \<and> sched_frame (eng_sched e) (eng_sched e2))"

lemma batch_raised_step:
  assumes ok: "eng_ok X e" and sch: "schedule X (eng_sched e) = Inr (s, b)" and sd: "scheduled X (eng_sched e) s p b"
    and ne: "\<not> batch_is_empty b" and td: "tables_distinct s" and req: "requests_ok (run_model (eng_runner e)) (eng_vocab e) s"
    and run: "run_batch X T now e s b = Inl nan_error" and left: "batch_raised X T e s b d"
    and r: "r \<in> set (b_seqs b)" "nan_logits T (run_model (eng_runner e)) (store s r)"
  shows "step_raised X T now e"
proof -
  have inv: "sinv X (eng_sched e) (\<lambda>_. 0) []" and conf: "eng_conf X e" using ok by (simp_all add: eng_ok_at_def)
  have S: "sinv X s p []" "batch_ok s p b" "sched_frame (eng_sched e) s" using sd by (simp_all add: scheduled_def)
  have cf: "conf_same (eng_sched e) s" and gen: "gen_same (store (eng_sched e) r) (store s r)" using S(3) by (simp_all add: sched_frame_def)
  define e2 where "e2 = e\<lparr>eng_sched := s, eng_device := d\<rparr>"
  have "sampler_failure X T e = Some e2"
    using sch ne left by (auto simp: sampler_failure_def batch_raised_def e2_def)
  moreover have st: "eng_static e e2" by (simp add: eng_static_def e2_def)
  moreover have "eng_conf X e2" by (rule eng_conf_static [OF conf st]) (simp add: e2_def cf)
  then have "eng_ok_at X p e2"
    using S(1) td req left by (simp add: eng_ok_at_def batch_raised_def e2_def)
  moreover have "r \<in> set (queue_list (eng_sched e) [])"
    using queue_subset [OF inv S(1) cf] batch_okD(2) [OF S(2)] r(1) by (auto simp: queue_list_def)
  moreover have "nan_logits T (run_model (eng_runner e)) (store (eng_sched e) r)"
    using r(2) gen by (simp add: nan_logits_def gen_same_def)
  moreover have "eng_step X T now e = Inl nan_error" using sch ne run by (simp add: eng_step_split)
  moreover have "sched_frame (eng_sched e) (eng_sched e2)" using S(3) by (simp add: e2_def)
  ultimately show ?thesis unfolding step_raised_def by blast
qed

lemma eng_step_ok:
  assumes ok: "eng_ok X e" and T: "torch_ok T"
  shows "(\<exists>e' outs p b. eng_step X T now e = Inr (e', outs) \<and> eng_ok X e' \<and> stepped X e e' p b) \<or> step_raised X T now e"
proof -
  let ?s = "eng_sched e" and ?M = "run_model (eng_runner e)"
  note E = ok [unfolded eng_ok_at_def]
  have conf: "eng_conf X e" and inv: "sinv X ?s (\<lambda>_. 0) []" using E by blast+
  have da: "digests_apart X (eng_vocab e) ?s" and fit0: "model_fits ?M (eng_vocab e) (max_model_len ?s)"
    and R: "naive_backend (eng_runner e)" "graph_sizes (eng_runner e) = None"
    using conf by (simp_all add: eng_conf_def)
  obtain s b p where sch: "schedule X ?s = Inr (s, b)" and sd: "scheduled X ?s s p b"
    using schedule_ok [OF inv] by blast
  have S: "sinv X s p []" "batch_ok s p b" "sched_frame ?s s" using sd by (simp_all add: scheduled_def)
  have cf: "conf_same ?s s" using S(3) by (simp add: sched_frame_def)
  have fit: "model_fits ?M (eng_vocab e) (max_model_len s)" and len: "max_model_len s = max_model_len ?s"
    using fit0 cf by (simp_all add: conf_same_def)
  have req: "requests_ok ?M (eng_vocab e) s" by (rule requests_scheduled [OF _ inv S(1,3)]) (use E in blast)
  note flow = schedule_flow [OF inv sch] and voc = running_vocab [OF req S(1), unfolded len]
  obtain d1 where sw: "run_swaps (eng_device e) b = Inr d1" "mem_ok ?M s d1" and ch: "cache_held X ?M (eng_vocab e) s (dev_cache d1)"
    using run_swaps_ok [OF inv sd flow _ da _ voc] E by blast
  have td: "tables_distinct s" by (rule tables_distinct_scheduled [OF inv S(1) cf flow da _ voc]) (use E in blast)
  show ?thesis
  proof (cases "batch_is_empty b")
    case True
    then have b: "b_seqs b = []" "swap_out b = []" "swap_in b = []" by (simp_all add: batch_is_empty_def)
    define s' where "s' = s\<lparr>outputs := []\<rparr>"
    have "p = (\<lambda>_. 0)" using batch_okD(4) [OF S(2)] b(1) by auto
    then have inv': "sinv X s' (\<lambda>_. 0) []" using S(1) by (simp add: s'_def)
    have adv: "advanced_by s s' p b new" for new unfolding s'_def by (rule advanced_by_idle [OF S(1) b(1)])
    then have cf': "conf_same s s'" by (simp add: advanced_by_def)
    have prog: "\<not> (outputs s = [] \<and> has_work s')"
    proof
      assume a: "outputs s = [] \<and> has_work s'"
      have "has_work ?s" using idle_stays_idle [OF inv inv' conf_same_trans [OF cf cf']] a by blast
      then show False using sd b(1) a by (auto simp: scheduled_def grew_def)
    qed
    define e' where "e' = e\<lparr>eng_sched := s'\<rparr>"
    have "eng_step X T now e = Inr (e', outputs s)"
      using sch True prog by (simp add: eng_step_split take_outputs_def s'_def e'_def)
    moreover have st: "eng_static e e'" by (simp add: eng_static_def e'_def)
    moreover have "requests_ok ?M (eng_vocab e) s'" by (rule requests_advanced [OF req S(1) inv' adv S(2)]) (simp add: b(1))
    moreover have "d1 = eng_device e" using sw(1) b by (simp add: run_swaps_def)
    then have "mem_ok ?M s' (eng_device e)" using sw(2) by (simp add: s'_def mem_ok_def device_ok_def host_mem_def cong: option.case_cong)
    moreover have "cache_held X ?M (eng_vocab e) s' (dev_cache (eng_device e))" using ch \<open>d1 = eng_device e\<close>
      by (simp add: s'_def cache_held_def)
    moreover have "tables_distinct s'" using td by (simp add: s'_def tables_distinct_def)
    moreover have "eng_conf X e'" by (rule eng_conf_static [OF conf st]) (use conf_same_trans [OF cf cf'] in \<open>simp add: e'_def\<close>)
    moreover have "stepped X e e' p b"
      unfolding stepped_def using sch sd adv [of "\<lambda>_. []"] st b(1) by (auto simp: e'_def)
    ultimately show ?thesis
      using inv' by (intro disjI1 exI [of _ e'] exI [of _ "outputs s"] exI [of _ p] exI [of _ b]) (simp add: eng_ok_at_def e'_def s'_def)
  next
    case False
    note RB = run_batch_ok [OF refl fit T R ch td S(1,2) sw req, of now]
    show ?thesis
    proof (cases "\<exists>r \<in> set (b_seqs b). samples (store s) p r \<and> nan_logits T ?M (store s r)")
      case True
      then have "run_batch X T now e s b = Inl nan_error \<and> (\<exists>d. batch_raised X T e s b d)" using RB by (simp only: if_True)
      then show ?thesis using True batch_raised_step [OF ok sch sd False td req] by blast
    next
      case fine: False
      obtain e' outs new where r: "run_batch X T now e s b = Inr (e', outs)" "eng_static e e'"
        "sinv X (eng_sched e') (\<lambda>_. 0) []" "advanced_by s (eng_sched e') p b new"
        "mem_ok ?M (eng_sched e') (eng_device e')"
        "cache_held X ?M (eng_vocab e) (eng_sched e') (dev_cache (eng_device e'))" "tables_distinct (eng_sched e')"
        "\<forall>r \<in> set (b_seqs b). if samples (store s) p r
          then \<exists>t. new r = [t] \<and> token_ok ?M (eng_vocab e) (store s r) t else new r = []"
        using RB unfolding if_not_P [OF fine] by blast
      have "eng_step X T now e = Inr (e', outs)" using sch False r(1) by (simp add: eng_step_split)
      moreover have "requests_ok ?M (eng_vocab e) (eng_sched e')"
        by (rule requests_advanced [OF req S(1) r(3,4) S(2)]) (use r(8) in \<open>metis\<close>)
      moreover have "eng_conf X e'"
        by (rule eng_conf_static [OF conf r(2)]) (use conf_same_trans [OF cf] r(4) in \<open>simp add: advanced_by_def\<close>)
      moreover have "stepped X e e' p b"
        unfolding stepped_def using sch sd r(2,4,8) by blast
      ultimately show ?thesis
        using r(2-7) by (intro disjI1 exI [of _ e'] exI [of _ outs] exI [of _ p] exI [of _ b])
          (simp add: eng_ok_at_def eng_static_def advanced_by_def)
    qed
  qed
qed

end
