(* ===== verification/Engine_Requests.thy ===== *)
theory Engine_Requests
  imports Engine_Loop
begin

text \<open>
  The requests of a client: a new sequence is validated and queued or rejected, an abort withdraws one;
  both keep the engine's invariant. Sequence numbers and addresses are never used twice.
\<close>

section \<open>Numbers and addresses\<close>

definition numbered :: "'a engine \<Rightarrow> bool" where
  "numbered e \<longleftrightarrow>
     (\<forall>r \<in> set (queue_list (eng_sched e) []) \<union> snd ` set (heap (waiting (eng_sched e))). r < next_ref e) \<and>
     (\<forall>r \<in> set (queue_list (eng_sched e) []). seq_id (store (eng_sched e) r) < next_seq_id e)"

definition served_at :: "externals \<Rightarrow> (sref \<Rightarrow> int) \<Rightarrow> ('a::linordered_field) engine \<Rightarrow> bool" where
  "served_at X p e \<longleftrightarrow> eng_ok_at X p e \<and> numbered e"

abbreviation served :: "externals \<Rightarrow> ('a::linordered_field) engine \<Rightarrow> bool" where
  "served X e \<equiv> served_at X (\<lambda>_. 0) e"

lemma numbered_frame:
  assumes num: "numbered e" and inv: "sinv X (eng_sched e) p []" and inv': "sinv X (eng_sched e') p' []"
    and cf: "conf_same (eng_sched e) (eng_sched e')" and next_: "next_ref e' = next_ref e" "next_seq_id e' = next_seq_id e"
    and ids: "\<And>r. seq_id (store (eng_sched e') r) = seq_id (store (eng_sched e) r)"
  shows "numbered e'"
proof -
  have "snd ` set (heap (waiting (eng_sched e'))) \<subseteq> snd ` set (heap (waiting (eng_sched e)))"
    using cf by (simp add: conf_same_def)
  then show ?thesis
    using num queue_subset [OF inv inv' cf] unfolding numbered_def next_ ids by blast
qed

lemma advanced_by_static:
  "advanced_by s s' p b new \<Longrightarrow> seq_static (store s r) (store s' r)"
  by (cases "r \<in> set (b_seqs b)") (auto simp: advanced_by_def advanced_def seq_static_def)

lemma stepped_frame:
  assumes "stepped X e e' p b"
  shows "conf_same (eng_sched e) (eng_sched e')" "seq_static (store (eng_sched e) r) (store (eng_sched e') r)"
    and "eng_static e e'"
proof -
  obtain s new where S: "scheduled X (eng_sched e) s p b" "advanced_by s (eng_sched e') p b new"
    using assms by (auto simp: stepped_def)
  have fr: "conf_same (eng_sched e) s" "gen_same (store (eng_sched e) r) (store s r)" for r
    using S(1) by (simp_all add: scheduled_def sched_frame_def)
  show "conf_same (eng_sched e) (eng_sched e')"
    using conf_same_trans [OF fr(1)] S(2) by (simp add: advanced_by_def)
  show "seq_static (store (eng_sched e) r) (store (eng_sched e') r)"
    using gen_same_static [OF fr(2)] advanced_by_static [OF S(2), of r] by (simp add: seq_static_def)
  show "eng_static e e'" using assms by (simp add: stepped_def)
qed

lemma served_step:
  assumes ok: "served X e" and T: "torch_ok T"
  shows "(\<exists>e' outs p b. eng_step X T now e = Inr (e', outs) \<and> served X e' \<and> stepped X e e' p b) \<or> step_raised X T now e"
proof -
  have "served X e'" if st: "eng_ok X e'" "stepped X e e' p b" for e' p b
  proof -
    have "numbered e'"
      by (rule numbered_frame [of e X "\<lambda>_. 0" e' "\<lambda>_. 0"])
        (use ok st(1) stepped_frame [OF st(2)] in \<open>simp_all add: served_at_def eng_ok_at_def eng_static_def seq_static_def\<close>)
    then show ?thesis using st(1) by (simp add: served_at_def)
  qed
  then show ?thesis using eng_step_ok [OF _ T, of X e now] ok unfolding served_at_def by blast
qed

text \<open>What a step that raised leaves.\<close>

lemma raised_left:
  assumes ok: "served X e" and raised: "step_raised X T now e"
  obtains e2 p where "sampler_failure X T e = Some e2" "served_at X p e2" "eng_static e e2" "sched_frame (eng_sched e) (eng_sched e2)"
proof -
  obtain e2 p where e2: "sampler_failure X T e = Some e2" "eng_ok_at X p e2" "eng_static e e2" "sched_frame (eng_sched e) (eng_sched e2)"
    using raised by (auto simp: step_raised_def)
  have "numbered e2"
    by (rule numbered_frame [of e X "\<lambda>_. 0" e2 p])
      (use ok e2 in \<open>simp_all add: served_at_def eng_ok_at_def eng_static_def sched_frame_def gen_same_def seq_static_def\<close>)
  then show ?thesis using that e2 by (simp add: served_at_def)
qed

section \<open>A new sequence\<close>

lemma pending_heap: "set (pending st w) \<subseteq> snd ` set (heap w)"
  by (auto simp: pending_def)

text \<open>Writing a sequence nothing refers to.\<close>

lemma sinv_fresh_store:
  assumes inv: "sinv X s p []" and r: "r \<notin> set (queue_list s [])" "r \<notin> snd ` set (heap (waiting s))"
  shows "sinv X (set_seq s r q) p [] \<and> queue_list (set_seq s r q) [] = queue_list s []"
proof -
  let ?s = "set_seq s r q"
  note D = sinvD [OF inv]
  note Q = queues_invD [OF D(2)]
  have other: "x \<in> snd ` set (heap (waiting s)) \<Longrightarrow> store ?s x = store s x" for x using r(2) by (auto simp: set_seq_def)
  have live: "is_live (store ?s) (live (waiting s)) e = is_live (store s) (live (waiting s)) e" if "e \<in> set (heap (waiting s))" for e
    using other that by (simp add: is_live_def)
  have pend: "pending (store ?s) (waiting ?s) = pending (store s) (waiting s)"
    using live by (simp add: pending_def set_seq_def cong: filter_cong)
  then have ql: "queue_list ?s [] = queue_list s []" by (simp add: queue_list_def set_seq_def)
  have st: "store ?s x = store s x" if "x \<in> set (queue_list s [])" for x using that r(1) by (auto simp: set_seq_def)
  have "wq_inv X (store ?s) (waiting ?s)"
  proof -
    have "seq_id (store ?s x) = i \<and> x \<in> snd ` set (heap (waiting s))" if "map_of (live (waiting s)) i = Some x" for i x
      using wq_invD(6) [OF Q(1) that] other by metis
    then show ?thesis
      using Q(1) other unfolding wq_inv_def by (auto simp: set_seq_def)
  qed
  moreover have "map_of (seqs ?s) i = Some x \<longleftrightarrow> x \<in> set (queue_list ?s []) \<and> seq_id (store ?s x) = i" for i x
    using Q(4) [of i x] r(1) unfolding ql by (cases "x = r") (auto simp: set_seq_def)
  ultimately have "queues_inv X ?s []"
    using Q(2,3) unfolding queues_inv_def ql by (simp add: set_seq_def)
  moreover have "pages_inv ?s []"
    using D(1) r(1) by (simp add: pages_inv_def set_seq_def queue_list_def)
  moreover have "seqs_inv ?s p"
    unfolding seqs_inv_def pend using D(3) st by (simp add: seqs_inv_def set_seq_def queue_list_def)
  moreover have "live_inv ?s []"
    unfolding live_inv_def ql using D(4) st by (simp add: live_inv_def set_seq_def)
  moreover have "conf_ok ?s" "int (length (running ?s)) \<le> max_num_seqs ?s"
    using D(5,6) by (simp_all add: conf_ok_def set_seq_def)
  moreover have "cache_inv X ?s []"
  proof -
    have run: "running ?s = running s" "bm ?s = bm s" by (simp_all add: set_seq_def)
    have "r \<notin> set (running s)" using r(1) by (simp add: queue_list_def)
    then have "pages block_table (store ?s) (running s) = pages block_table (store s) (running s)" by (simp add: set_seq_def)
    moreover have "store ?s x = store s x" if "x \<in> set (running s)" for x by (rule st) (use that in \<open>simp add: queue_list_def\<close>)
    ultimately show ?thesis using D(7) st unfolding cache_inv_def ql run by simp
  qed
  ultimately show ?thesis using ql by (simp add: sinv_def)
qed

lemma mem_ok_fresh:
  assumes "mem_ok M s d" and "running s' = running s" "swapped s' = swapped s" "sch_block_size s' = sch_block_size s"
    and "bm s' = bm s" and "\<And>x. x \<in> set (queue_list s []) \<Longrightarrow> store s' x = store s x"
  shows "mem_ok M s' d"
  using assms by (simp add: mem_ok_def device_ok_def host_mem_def queue_list_def cong: option.case_cong)

lemma cache_held_fresh: "bm s' = bm s \<Longrightarrow> max_model_len s' = max_model_len s \<Longrightarrow> cache_held X M V s' c = cache_held X M V s c"
  by (simp add: cache_held_def)

lemma tables_distinct_fresh:
  "tables_distinct s \<Longrightarrow> set (running s') \<subseteq> set (running s) \<Longrightarrow>
     (\<And>x. x \<in> set (running s') \<Longrightarrow> store s' x = store s x) \<Longrightarrow> tables_distinct s'"
  by (auto simp: tables_distinct_def)

text \<open>The client's two calls, \<open>Sequence(engine.new_seq_id(), ..)\<close> and \<open>add_request\<close>.\<close>

lemma sched_add_fields:
  "sched_add X s r = Inr s' \<Longrightarrow> sch_block_size s' = sch_block_size s \<and> outputs s' = outputs s"
  by (auto simp: sched_add_def Let_def set_seq_def split: if_splits)

text \<open>\<open>validate\<close> accepts exactly the requests that can be served.\<close>

lemma validate_iff:
  assumes "cfg_max_model_len (eng_config e) = Some L"
  shows "validate e q = Inr () \<longleftrightarrow> prompt_token_ids q \<noteq> [] \<and>
     num_prompt_tokens q + max_tokens (sampling_params_of q) \<le> L \<and> in_vocab (eng_vocab e) (prompt_token_ids q)"
    and "validate e q = Inr () \<or> (\<exists>msg. validate e q = Inl (ValueError msg))"
proof -
  have "Min A < 0 \<or> Max A \<ge> V \<longleftrightarrow> (\<exists>t \<in> A. t < 0 \<or> V \<le> t)" if "A \<noteq> {}" "finite A" for A and V :: int
    using that by (simp add: Min_less_iff Max_ge_iff) blast
  moreover have "(\<exists>t \<in> A. t < 0 \<or> V \<le> t) \<longleftrightarrow> \<not> (\<forall>t \<in> A. 0 \<le> t \<and> t < V)" for A and V :: int by (metis not_le)
  ultimately have "Min A < 0 \<or> Max A \<ge> V \<longleftrightarrow> \<not> (\<forall>t \<in> A. 0 \<le> t \<and> t < V)" if "A \<noteq> {}" "finite A" for A and V :: int
    using that by simp
  from this [of "set (prompt_token_ids q)" "eng_vocab e"]
  show "validate e q = Inr () \<longleftrightarrow> prompt_token_ids q \<noteq> [] \<and>
     num_prompt_tokens q + max_tokens (sampling_params_of q) \<le> L \<and> in_vocab (eng_vocab e) (prompt_token_ids q)"
    using assms by (auto simp: validate_def Let_def num_prompt_tokens_def in_vocab_def list_all_iff)
  show "validate e q = Inr () \<or> (\<exists>msg. validate e q = Inl (ValueError msg))"
    by (simp add: validate_def Let_def)
qed

text \<open>A sequence made with \<open>new_seq_id\<close> and not yet added.\<close>

definition created :: "'a engine \<Rightarrow> sref \<Rightarrow> int list \<Rightarrow> sampling_params \<Rightarrow> bool" where
  "created e r prompt params \<longleftrightarrow>
     (let s = eng_sched e in
      r \<notin> set (queue_list s []) \<and> r \<notin> snd ` set (heap (waiting s)) \<and> r < next_ref e \<and>
      seq_id (store s r) < next_seq_id e \<and> map_of (seqs s) (seq_id (store s r)) = None \<and>
      (\<exists>i t prio. store s r = new_sequence i prompt params t prio))"

lemma place_seq_ok:
  assumes ok: "served X e" and q_def: "q = new_sequence sid prompt params arrival prio" and sid: "sid < next_seq_id e"
    and free: "map_of (seqs (eng_sched e)) sid = None" and new: "place_seq q e = (r, e1)"
  shows "served X e1" and "created e1 r prompt params" and "created e x pr sp \<Longrightarrow> created e1 x pr sp"
    and "r \<notin> snd ` set (seqs (eng_sched e))" and "\<And>x. x \<noteq> r \<Longrightarrow> store (eng_sched e1) x = store (eng_sched e) x"
    and "eng_sched e1 = set_seq (eng_sched e) r q" and "queue_list (eng_sched e1) [] = queue_list (eng_sched e) []"
proof -
  let ?s = "eng_sched e"
  have r_def: "r = next_ref e" and e1: "e1 = e\<lparr>next_ref := Suc r, eng_sched := set_seq ?s r q\<rparr>"
    using new by (auto simp: place_seq_def Let_def)
  have num: "numbered e" and eo: "eng_ok X e" using ok by (simp_all add: served_at_def)
  have inv: "sinv X ?s (\<lambda>_. 0) []" using eo by (simp add: eng_ok_at_def)
  have r: "r \<notin> set (queue_list ?s [])" "r \<notin> snd ` set (heap (waiting ?s))"
    using num by (auto simp: numbered_def r_def)
  note F = sinv_fresh_store [OF inv r, of q]
  have same: "store (set_seq ?s r q) x = store ?s x" if "x \<in> set (queue_list ?s [])" for x
    using that r(1) by (auto simp: set_seq_def)
  show "eng_sched e1 = set_seq ?s r q" by (simp add: e1)
  show "queue_list (eng_sched e1) [] = queue_list ?s []" using F by (simp add: e1)
  show "x \<noteq> r \<Longrightarrow> store (eng_sched e1) x = store ?s x" for x by (simp add: e1 set_seq_def)
  note Q = queues_invD [OF sinvD(2) [OF inv]]
  show "r \<notin> snd ` set (seqs ?s)"
  proof
    assume "r \<in> snd ` set (seqs ?s)"
    then obtain i where "(i, r) \<in> set (seqs ?s)" by auto
    then have "map_of (seqs ?s) i = Some r" using Q(3) by (intro map_of_is_SomeI) (simp_all add: dict_wf_def)
    then show False using Q(4) r(1) by blast
  qed
  have "seq_id q = sid" by (simp add: q_def new_sequence_def)
  then show "created e1 r prompt params"
    using r F sid free by (simp add: created_def e1) (auto simp: set_seq_def q_def)
  show "created e1 x pr sp" if "created e x pr sp"
  proof -
    have "x \<noteq> r" using that by (auto simp: created_def Let_def r_def)
    then show ?thesis using that F by (simp add: created_def Let_def e1) (auto simp: set_seq_def r_def)
  qed
  have "mem_ok (run_model (eng_runner e)) (set_seq ?s r q) (eng_device e)"
    by (rule mem_ok_fresh [of _ ?s, OF _ _ _ _ _ same]) (use eo in \<open>simp_all add: eng_ok_at_def set_seq_def\<close>)
  moreover have "greedy_ok M q" for M :: "'a model"
    by (simp add: greedy_ok_def q_def new_sequence_def tokens_consistent_def)
  then have "requests_ok (run_model (eng_runner e)) (eng_vocab e) (set_seq ?s r q)"
    using eo F same unfolding requests_ok_def eng_ok_at_def by (simp add: set_seq_def)
  moreover have "eng_conf X e1" using eo by (simp add: eng_ok_at_def eng_conf_def digests_apart_def e1 set_seq_def)
  moreover have "cache_held X (run_model (eng_runner e)) (eng_vocab e) (set_seq ?s r q) (dev_cache (eng_device e))"
    by (subst cache_held_fresh [of _ ?s]) (use eo in \<open>simp_all add: eng_ok_at_def set_seq_def\<close>)
  moreover have "tables_distinct (set_seq ?s r q)"
  proof (rule tables_distinct_fresh)
    show "tables_distinct ?s" using eo by (simp add: eng_ok_at_def)
    fix x assume "x \<in> set (running (set_seq ?s r q))"
    then show "store (set_seq ?s r q) x = store ?s x" by (intro same) (simp add: queue_list_def set_seq_def)
  qed (simp add: set_seq_def)
  ultimately have "eng_ok X e1" using F eo by (simp add: eng_ok_at_def e1)
  moreover have "numbered e1"
  proof -
    have "eng_sched e1 = set_seq ?s r q" "next_ref e1 = Suc (next_ref e)" "next_seq_id e1 = next_seq_id e"
      "waiting (set_seq ?s r q) = waiting ?s" by (simp_all add: e1 r_def set_seq_def)
    with num F same show ?thesis unfolding numbered_def by (auto simp: less_Suc_eq)
  qed
  ultimately show "served X e1" by (simp add: served_at_def)
qed

lemma next_id_free:
  assumes "served X e" and "next_seq_id e \<le> sid"
  shows "map_of (seqs (eng_sched e)) sid = None"
proof (cases "map_of (seqs (eng_sched e)) sid")
  case (Some x)
  have "sinv X (eng_sched e) (\<lambda>_. 0) []" using assms(1) by (simp add: served_at_def eng_ok_at_def)
  then have "x \<in> set (queue_list (eng_sched e) []) \<and> seq_id (store (eng_sched e) x) = sid"
    using queues_invD(4) [OF sinvD(2)] Some by blast
  then show ?thesis using assms by (auto simp: served_at_def numbered_def)
qed

lemma served_next_id: "served X e \<Longrightarrow> next_seq_id e \<le> k \<Longrightarrow> served X (e\<lparr>next_seq_id := k\<rparr>)"
  by (auto simp: served_at_def eng_ok_at_def eng_conf_def numbered_def)

lemma created_next_id: "created e x pr sp \<Longrightarrow> next_seq_id e \<le> k \<Longrightarrow> created (e\<lparr>next_seq_id := k\<rparr>) x pr sp"
  by (auto simp: created_def Let_def)

lemma new_request_ok:
  assumes ok: "served X e" and new: "new_request arrival prompt params prio e = (r, e1)"
  shows "served X e1" and "created e1 r prompt params" and "created e x pr sp \<Longrightarrow> created e1 x pr sp"
    and "r \<notin> snd ` set (seqs (eng_sched e))" and "\<And>x. x \<noteq> r \<Longrightarrow> store (eng_sched e1) x = store (eng_sched e) x"
    and "eng_sched e1 = set_seq (eng_sched e) r (new_sequence (next_seq_id e) prompt params arrival prio)"
    and "queue_list (eng_sched e1) [] = queue_list (eng_sched e) []"
proof -
  let ?e = "e\<lparr>next_seq_id := next_seq_id e + 1\<rparr>" and ?q = "new_sequence (next_seq_id e) prompt params arrival prio"
  have p: "place_seq ?q ?e = (r, e1)" using new by (simp add: new_request_def new_seq_id_def)
  have e: "served X ?e" "next_seq_id e < next_seq_id ?e" "map_of (seqs (eng_sched ?e)) (next_seq_id e) = None"
    using served_next_id [OF ok, of "next_seq_id e + 1"] next_id_free [OF ok, of "next_seq_id e"] by simp_all
  note P = place_seq_ok [OF e(1) refl e(2,3) p]
  show "served X e1" "created e1 r prompt params" by (rule P(1), rule P(2))
  show "created e x pr sp \<Longrightarrow> created e1 x pr sp" using P(3) created_next_id [of e x pr sp "next_seq_id e + 1"] by simp
  show "r \<notin> snd ` set (seqs (eng_sched e))" "\<And>x. x \<noteq> r \<Longrightarrow> store (eng_sched e1) x = store (eng_sched e) x"
    "eng_sched e1 = set_seq (eng_sched e) r ?q" "queue_list (eng_sched e1) [] = queue_list (eng_sched e) []"
    using P(4-7) by simp_all
qed

section \<open>Adding it\<close>

lemma post_init_tokens: "valid_params params \<Longrightarrow> 1 \<le> max_tokens params"
  by (simp add: sampling_params_post_init_def split: if_splits)

lemma add_request_ok:
  assumes ok: "served X e" and new: "created e r prompt params" and valid: "valid_params params"
    and val: "validate e (store (eng_sched e) r) = Inr ()"
  shows "\<exists>e' dt. add_request X e r = (Inr (), e') \<and> served X e' \<and>
     pending (store (eng_sched e')) (waiting (eng_sched e')) = enqueued X (eng_sched e) r \<and>
     running (eng_sched e') = running (eng_sched e) \<and> swapped (eng_sched e') = swapped (eng_sched e) \<and>
     preempted (eng_sched e') = preempted (eng_sched e) \<and> eng_static e e' \<and>
     store (eng_sched e') = (store (eng_sched e))(r := (store (eng_sched e) r)\<lparr>detokenizer := dt, status := WAITING\<rparr>) \<and>
     map_of (seqs (eng_sched e')) = (map_of (seqs (eng_sched e)))(seq_id (store (eng_sched e) r) \<mapsto> r) \<and>
     snd ` set (heap (waiting (eng_sched e'))) = insert r (snd ` set (heap (waiting (eng_sched e))))"
proof -
  let ?s = "eng_sched e" and ?q = "store (eng_sched e) r"
  have num: "numbered e" and eo: "eng_ok X e" using ok by (simp_all add: served_at_def)
  have inv: "sinv X ?s (\<lambda>_. 0) []" and conf: "eng_conf X e" using eo by (simp_all add: eng_ok_at_def)
  obtain i t prio where q: "?q = new_sequence i prompt params t prio" using new by (auto simp: created_def Let_def)
  have r: "r \<notin> set (queue_list ?s [])" "r \<notin> snd ` set (heap (waiting ?s))" "r < next_ref e" "seq_id ?q < next_seq_id e"
    "map_of (seqs ?s) (seq_id ?q) = None"
    using new by (simp_all add: created_def Let_def)
  have L: "cfg_max_model_len (eng_config e) = Some (max_model_len ?s)" using conf by (simp add: eng_conf_def)
  have V: "prompt \<noteq> []" "int (length prompt) + max_tokens params \<le> max_model_len ?s" "in_vocab (eng_vocab e) prompt"
    using val unfolding validate_iff [OF L] by (simp_all add: q new_sequence_def num_prompt_tokens_def)
  define dt where "dt = (if detokenizer ?q = None \<and> has_tokenizer e then Some init_detok else detokenizer ?q)"
  define q' where "q' = ?q\<lparr>detokenizer := dt\<rparr>"
  have q': "(if detokenizer ?q = None \<and> has_tokenizer e then ?q\<lparr>detokenizer := Some init_detok\<rparr> else ?q) = q'"
    by (simp add: q'_def dt_def)
  define s1 where "s1 = set_seq ?s r q'"
  have F: "sinv X s1 (\<lambda>_. 0) []" "queue_list s1 [] = queue_list ?s []"
    using sinv_fresh_store [OF inv r(1,2), of q'] by (simp_all add: s1_def)
  have s1: "store s1 = (store ?s)(r := q')" "waiting s1 = waiting ?s" "seqs s1 = seqs ?s" "running s1 = running ?s"
      "swapped s1 = swapped ?s" "preempted s1 = preempted ?s" "bm s1 = bm ?s" "max_model_len s1 = max_model_len ?s"
      "outputs s1 = outputs ?s" "sch_block_size s1 = sch_block_size ?s"
    by (simp_all add: s1_def set_seq_def)
  have "addable s1 r"
    using r(2) V(1,2) post_init_tokens [OF valid]
    by (simp add: addable_def s1 q'_def q live_ok_def new_sequence_def tokens_consistent_def num_prompt_tokens_def num_output_tokens_def)
  moreover have "map_of (seqs s1) (seq_id (store s1 r)) = None" using r(5) by (simp add: s1 q'_def)
  ultimately obtain s2 where a: "sched_add X s1 r = Inr s2" "sinv X s2 (\<lambda>_. 0) []"
      "pending (store s2) (waiting s2) = enqueued X s1 r" "running s2 = running s1" "swapped s2 = swapped s1"
      "preempted s2 = preempted s1" "outputs s2 = outputs s1" "store s2 = (store s1)(r := (store s1 r)\<lparr>status := WAITING\<rparr>)"
      "bm s2 = bm s1" "snd ` set (heap (waiting s2)) = insert r (snd ` set (heap (waiting s1)))"
      "map_of (seqs s2) = (map_of (seqs s1))(seq_id (store s1 r) \<mapsto> r)" "max_model_len s2 = max_model_len s1"
    using sched_add_ok [OF F(1)] by blast
  define e' where "e' = e\<lparr>eng_sched := s2\<rparr>"
  have run: "add_request X e r = (Inr (), e')"
    unfolding add_request_def Let_def val q' using a(1) by (simp add: s1_def e'_def)
  have st: "store s2 = (store ?s)(r := ?q\<lparr>detokenizer := dt, status := WAITING\<rparr>)"
    unfolding a(8) s1 by (simp add: q'_def)
  have pend1: "pending (store s1) (waiting s1) = pending (store ?s) (waiting ?s)"
    using F(2) by (simp add: queue_list_def s1)
  have "seq_static ?q q'" by (simp add: seq_static_def q'_def)
  then have "queue_key X (waiting s1) (store s1 x) = queue_key X (waiting ?s) (store ?s x)" for x
    using queue_key_static by (simp add: s1)
  then have enq: "enqueued X s1 r = enqueued X ?s r" unfolding enqueued_def pend1 by (simp add: Let_def)
  have ql: "set (queue_list s2 []) = insert r (set (queue_list ?s []))"
    unfolding queue_list_def a(3-6) enq s1 by (simp add: enqueued_def Let_def set_take_drop [simplified])
  have same: "store s2 x = store ?s x" if "x \<in> set (queue_list ?s [])" for x
    using that r(1) by (auto simp: st)
  have "mem_ok (run_model (eng_runner e)) s2 (eng_device e)"
    by (rule mem_ok_fresh [of _ ?s, OF _ _ _ _ _ same])
      (use eo sched_add_fields [OF a(1)] in \<open>simp_all add: eng_ok_at_def a(4-9) s1\<close>)
  moreover have "requests_ok (run_model (eng_runner e)) (eng_vocab e) s2"
  proof -
    have "greedy_ok (run_model (eng_runner e)) (store s2 x)" for x
      using eo by (simp add: eng_ok_at_def requests_ok_def st) (simp add: greedy_ok_def tokens_consistent_def num_output_tokens_def)
    moreover have "in_vocab (eng_vocab e) (token_ids (store s2 r))" "valid_params (sampling_params_of (store s2 r))"
      using V(3) valid by (simp_all add: st q new_sequence_def)
    ultimately show ?thesis
      using eo same unfolding requests_ok_def ql eng_ok_at_def by simp
  qed
  moreover have "eng_conf X e'" using conf by (simp add: eng_conf_def digests_apart_def e'_def a(9,12) s1)
  moreover have "cache_held X (run_model (eng_runner e)) (eng_vocab e) s2 (dev_cache (eng_device e))"
    by (subst cache_held_fresh [of _ ?s]) (use eo in \<open>simp_all add: eng_ok_at_def a(9,12) s1\<close>)
  moreover have "tables_distinct s2"
  proof (rule tables_distinct_fresh)
    show "tables_distinct ?s" using eo by (simp add: eng_ok_at_def)
    show run2: "set (running s2) \<subseteq> set (running ?s)" by (simp add: a(4) s1)
    fix x assume "x \<in> set (running s2)"
    then show "store s2 x = store ?s x" using run2 by (intro same) (auto simp: queue_list_def)
  qed
  ultimately have "eng_ok X e'" using a(2,7) eo by (simp add: eng_ok_at_def e'_def s1)
  moreover have "numbered e'"
    using num r(3,4) same unfolding numbered_def by (simp add: e'_def ql a(10) s1) (simp add: st)
  ultimately have "served X e'" by (simp add: served_at_def)
  then show ?thesis
    using run a(3,4,5,6,10,11) st enq
    by (intro exI [of _ e'] exI [of _ dt]) (simp add: e'_def s1 eng_static_def q'_def)
qed

lemma add_request_reject:
  "validate e (store (eng_sched e) r) = Inl err \<Longrightarrow> add_request X e r = (Inl err, e)"
  by (simp add: add_request_def)

section \<open>Withdrawing it\<close>

lemma eng_abort_ok:
  assumes ok: "served_at X p e"
  shows "\<exists>e'. eng_abort e sid = Inr e' \<and> served_at X p e' \<and> eng_static e e' \<and> map_of (seqs (eng_sched e')) sid = None"
proof (cases "map_of (seqs (eng_sched e)) sid")
  case None
  then show ?thesis using ok sched_abort_unknown [OF None] by (simp add: eng_abort_def eng_static_def)
next
  case (Some r)
  let ?s = "eng_sched e"
  have num: "numbered e" and eo: "eng_ok_at X p e" using ok by (simp_all add: served_at_def)
  have inv: "sinv X ?s p []" using eo by (simp add: eng_ok_at_def)
  obtain s' where a: "sched_abort ?s sid = Inr (s', True)" "sinv X s' p []" "withdrawn ?s s' r"
    using sched_abort_ok [OF inv Some] by blast
  note W = a(3) [unfolded withdrawn_def]
  have id: "seq_id (store ?s r) = sid" using queues_invD(4) [OF sinvD(2) [OF inv]] Some by blast
  have fr: "sched_frame ?s s'" and cf: "conf_same ?s s'" using W by (simp_all add: sched_frame_def)
  define e' where "e' = e\<lparr>eng_sched := s'\<rparr>"
  have st: "eng_static e e'" by (simp add: e'_def eng_static_def)
  have "r \<notin> set (remove1 r (running ?s))" "r \<notin> set (remove1 r (swapped ?s))"
    using queues_invD(2) [OF sinvD(2) [OF inv]] by (simp_all add: queue_list_def)
  then have same: "x \<in> set (running s') \<union> set (swapped s') \<Longrightarrow> store s' x = store ?s x" for x using W by auto
  have sub: "set (running s') \<subseteq> set (running ?s)" "set (swapped s') \<subseteq> set (swapped ?s)"
    using W by (simp_all add: set_remove1_subset)
  have "mem_ok (run_model (eng_runner e)) s' (eng_device e)"
  proof -
    have "device_ok M s' c = device_ok M ?s c" for M :: "'a model" and c by (rule device_ok_frame [OF cf])
    moreover have "num_cpu_blocks (bm s') = num_cpu_blocks (bm ?s)" "sch_block_size s' = sch_block_size ?s"
      using cf by (simp_all add: conf_same_def bm_static_def)
    moreover have "mem_ok (run_model (eng_runner e)) ?s (eng_device e)" using eo by (simp add: eng_ok_at_def)
    ultimately show ?thesis
      using sub same unfolding mem_ok_def host_mem_def by (auto split: option.splits)
  qed
  moreover have "requests_ok (run_model (eng_runner e)) (eng_vocab e) s'"
    by (rule requests_scheduled [OF _ inv a(2) fr]) (use eo in \<open>simp add: eng_ok_at_def\<close>)
  moreover have "eng_conf X e'" by (rule eng_conf_static [OF _ st]) (use eo cf in \<open>simp_all add: eng_ok_at_def e'_def\<close>)
  moreover have "cache_held X (run_model (eng_runner e)) (eng_vocab e) s' (dev_cache (eng_device e))"
    by (rule cache_held_forgets [OF _ cf]) (use eo fr in \<open>simp_all add: eng_ok_at_def sched_frame_def\<close>)
  moreover have "tables_distinct s'"
    by (rule tables_distinct_fresh [of ?s]) (use eo sub same in \<open>simp_all add: eng_ok_at_def\<close>)
  ultimately have "eng_ok_at X p e'" using a(2) W eo by (simp add: eng_ok_at_def e'_def)
  moreover have "numbered e'"
    by (rule numbered_frame [OF num inv]) (use a(2) cf fr in \<open>simp_all add: e'_def sched_frame_def gen_same_def seq_static_def\<close>)
  ultimately have "served_at X p e'" by (simp add: served_at_def)
  moreover have "map_of (seqs s') sid = None" using W id by simp
  ultimately show ?thesis using a(1) st by (intro exI [of _ e']) (simp add: eng_abort_def e'_def)
qed

end
