(* ===== verification/Engine_Start.thy ===== *)
theory Engine_Start
  imports Engine_Requests Config_Props
begin

text \<open>
  A constructed engine satisfies the invariant, and every state a client can drive it to does: any
  interleaving of steps, accepted and rejected requests and aborts.
\<close>

section \<open>Construction\<close>

definition model_matches :: "model_config \<Rightarrow> ('a::field) model \<Rightarrow> bool" where
  "model_matches mc M \<longleftrightarrow> length (model_layers M) = nat (num_hidden_layers mc) \<and>
     model_fits M (mc_vocab_size mc) (max_position_embeddings mc)"

text \<open>
  With prefix caching: SHA-256 has no collision among the prefixes of the prompts and outputs the engine can
  hold, token lists over the model's vocabulary of at most \<open>max_model_len\<close> tokens.
\<close>

definition prefixes_apart :: "externals \<Rightarrow> 'a engine \<Rightarrow> bool" where
  "prefixes_apart X e \<longleftrightarrow> (cfg_enable_prefix_caching (eng_config e) \<longrightarrow>
     collision_free X (nat (cfg_block_size (eng_config e))) (vocab_lists (eng_vocab e) (the (cfg_max_model_len (eng_config e)))))"

text \<open>Rounding to a float keeps the sign.\<close>

definition rounds_nonneg :: "externals \<Rightarrow> bool" where
  "rounds_nonneg X \<longleftrightarrow> (\<forall>x. 0 \<le> x \<longrightarrow> 0 \<le> fl_round X x)"

lemma init_cache_shapes:
  "cache_shape M (Suc blocks * bs) (init_kv_cache (length (model_layers M)) blocks bs kv hd_dim)"
  "host_shape layers m bs (init_host layers m bs kv hd_dim)"
  by (auto simp: cache_shape_def init_kv_cache_def host_shape_def init_host_def Let_def list_all_iff)

lemma init_fields [simp]:
  "kv_block_size (init_kv_cache l k n kv hd_dim) = n" "scratch_block (init_kv_cache l k n kv hd_dim) = k"
  "num_blocks (init_block_manager X n bs pc m w) = n" "num_cpu_blocks (init_block_manager X n bs pc m w) = m"
  "enable_prefix_caching (init_block_manager X n bs pc m w) = pc"
  "bm (init_scheduler c b eos) = b" "sch_block_size (init_scheduler c b eos) = nat (cfg_block_size c)"
  "running (init_scheduler c b eos) = []" "swapped (init_scheduler c b eos) = []" "outputs (init_scheduler c b eos) = []"
  "max_model_len (init_scheduler c b eos) = the (cfg_max_model_len c)"
  by (simp_all add: init_kv_cache_def Let_def init_block_manager_def init_scheduler_def)

lemma init_engine_ok:
  assumes ok: "init_engine X T cuda measured itemsize c0 mc M tok krn junk = Inr e"
    and valid: "config_post_init c0 = Inr c0" and matches: "model_matches mc M" and rnd: "rounds_nonneg X"
    and apart: "prefixes_apart X e" and naive: "cfg_attention_backend (eng_config e) \<noteq> ''flashinfer''"
  shows "served X e"
proof -
  obtain c where res: "resolve cuda (max_position_embeddings mc) c0 = Inr c"
    using ok by (auto simp: init_engine_def result_simps)
  define bytes where "bytes = bytes_per_block (nat (num_hidden_layers mc)) (nat (cfg_block_size c))
    (nat (num_key_value_heads mc)) (nat (head_dim mc)) itemsize"
  note R = resolve_Inr [OF res]
  have fields: "cfg_block_size c = cfg_block_size c0" "cfg_max_num_seqs c = cfg_max_num_seqs c0"
      "cfg_watermark c = cfg_watermark c0" "cfg_max_batch_tokens c0 \<le> cfg_max_batch_tokens c"
    using R(6) by (simp_all add: resolve_auto_fields resolve_auto_def Let_def)
  obtain blocks host w where b: "device_blocks X c bytes measured = Inr blocks" "host_blocks X c bytes = Inr host"
      "finite_float (cfg_watermark c) = Inr w"
    and e: "e = \<lparr>eng_config = c, eng_runner = init_runner c M krn junk,
       eng_device = init_device mc (nat (cfg_block_size c)) (nat blocks) (nat host),
       eng_sched = init_scheduler c (init_block_manager X (nat blocks) (nat (cfg_block_size c)) (cfg_enable_prefix_caching c) (nat host) w) (eos_token_ids mc),
       eng_vocab = mc_vocab_size mc, has_tokenizer = tok,
       eng_rng = manual_seed T (cfg_seed c), eng_steps = 0, eng_generated = 0, next_seq_id = 0, next_ref = 0\<rparr>"
    using ok unfolding init_engine_def res bytes_def by (auto simp: result_simps Let_def)
  have v: "list_all fst (post_init_checks c0)" using valid by (simp add: config_valid_iff [symmetric] config_valid_def)
  have v': "0 < cfg_block_size c0" "0 < cfg_max_num_seqs c0" "0 < cfg_max_batch_tokens c0" "0 \<le> cfg_watermark c0"
    using v by (simp_all add: post_init_checks_def)
  have w: "0 \<le> w" using b(3) v'(4) fields(3) by (cases "cfg_watermark c0") (auto simp: zero_pyfloat_def)
  obtain L where L: "cfg_max_model_len c = Some L" "L \<le> max_position_embeddings mc"
    and mb: "if cfg_enable_chunked_prefill c then cfg_max_num_seqs c \<le> cfg_max_batch_tokens c else L \<le> cfg_max_batch_tokens c"
    and ng: "cfg_attention_backend c \<noteq> ''flashinfer'' \<longrightarrow> \<not> cfg_cuda_graphs c"
    using R resolve_auto_fields [of cuda c0] by auto
  let ?b = "init_block_manager X (nat blocks) (nat (cfg_block_size c)) (cfg_enable_prefix_caching c) (nat host) w"
  let ?s = "init_scheduler c ?b (eos_token_ids mc)"
  have b0: "bm_inv ?b {#} {#}" using v'(1) fields(1) by (simp add: bm_inv_init)
  have b1: "block_size ?b = nat (cfg_block_size c)" "0 \<le> watermark_blocks ?b"
    using rnd w by (simp_all add: init_block_manager_def rounds_nonneg_def py_int_of_float_def)
  have pos: "0 < cfg_max_num_seqs c" "0 < cfg_max_batch_tokens c" using v' fields by simp_all
  have room: "if cfg_enable_chunked_prefill c then cfg_max_num_seqs c \<le> cfg_max_batch_tokens c
      else the (cfg_max_model_len c) \<le> cfg_max_batch_tokens c" using mb unfolding L(1) by simp
  have "sinv X (?s\<lparr>store := store ?s\<rparr>) (\<lambda>_. 0) []" by (rule init_scheduler_inv [OF b0 b1 pos room])
  then have inv: "sinv X ?s (\<lambda>_. 0) []" by simp
  have s: "running ?s = []" "swapped ?s = []" "outputs ?s = []" "queue_list ?s [] = []" "waiting ?s = init_wait_queue (cfg_admission_policy c) (cfg_aging_rate c)"
      "sch_block_size ?s = nat (cfg_block_size c)" "max_model_len ?s = L" "bm ?s = ?b"
    by (simp_all add: init_scheduler_def queue_list_def L(1))
  have "mem_ok M ?s (init_device mc (nat (cfg_block_size c)) (nat blocks) (nat host))"
  proof -
    have "cache_shape M (Suc (nat blocks) * nat (cfg_block_size c)) (init_kv_cache (nat (num_hidden_layers mc)) (nat blocks)
        (nat (cfg_block_size c)) kv hd_dim)" for kv hd_dim
      using init_cache_shapes(1) [of M] matches by (simp add: model_matches_def)
    moreover have "0 < cfg_block_size c" using v'(1) fields(1) by simp
    moreover have "length (model_layers M) = nat (num_hidden_layers mc)" using matches by (simp add: model_matches_def)
    ultimately show ?thesis
      by (simp add: mem_ok_def device_ok_def host_mem_def s init_device_def Let_def init_cache_shapes(2))
  qed
  moreover have "requests_ok M (mc_vocab_size mc) ?s"
    by (simp add: requests_ok_def s) (simp add: init_scheduler_def greedy_ok_def new_sequence_def tokens_consistent_def)
  moreover have "eng_conf X e"
    using naive ng matches L apart
    by (simp add: e eng_conf_def init_runner_def s model_matches_def model_fits_def digests_apart_def prefixes_apart_def init_block_manager_def)
  moreover have "cache_held X M (mc_vocab_size mc) ?s c'" for c'
    by (simp add: cache_held_def s) (simp add: init_block_manager_def)
  moreover have "tables_distinct ?s" by (simp add: tables_distinct_def s)
  ultimately have "eng_ok X e" using inv s by (simp add: eng_ok_at_def e init_runner_def)
  moreover have "numbered e" by (simp add: numbered_def e s init_wait_queue_def)
  ultimately show ?thesis by (simp add: served_at_def)
qed

section \<open>Reachable states\<close>

inductive reachable ::
  "externals \<Rightarrow> 'a torch \<Rightarrow> ('a::linordered_field) engine \<Rightarrow> 'a engine \<Rightarrow> bool"
  for X :: externals and T :: "'a torch" and e0 :: "'a engine" where
  start: "reachable X T e0 e0"
| step: "reachable X T e0 e \<Longrightarrow> eng_step X T now e = Inr (e', outs) \<Longrightarrow> reachable X T e0 e'"
| accept: "reachable X T e0 e \<Longrightarrow> sampling_params_post_init params = Inr params \<Longrightarrow>
     new_request arrival prompt params prio e = (r, e1) \<Longrightarrow> add_request X e1 r = (Inr (), e') \<Longrightarrow> reachable X T e0 e'"
| reject: "reachable X T e0 e \<Longrightarrow> sampling_params_post_init params = Inr params \<Longrightarrow>
     new_request arrival prompt params prio e = (r, e1) \<Longrightarrow> add_request X e1 r = (Inl err, e') \<Longrightarrow> reachable X T e0 e'"
| abort: "reachable X T e0 e \<Longrightarrow> eng_abort e sid = Inr e' \<Longrightarrow> reachable X T e0 e'"

inductive_cases reachableE: "reachable X T e0 e"

lemma reachable_served:
  assumes "reachable X T e0 e" and "served X e0" and T: "torch_ok T"
  shows "served X e"
  using assms(1,2)
proof (induction rule: reachable.induct)
  case (step e now e' outs)
  then show ?case using served_step [OF _ T, of X e now] by (auto simp: step_raised_def)
next
  case (accept e params arrival prompt prio r e1 e')
  note N = new_request_ok [OF accept.IH [OF accept.prems] accept.hyps(3)]
  have "validate e1 (store (eng_sched e1) r) = Inr ()"
    using accept.hyps(4) by (cases "validate e1 (store (eng_sched e1) r)") (simp_all add: add_request_def Let_def)
  from add_request_ok [OF N(1,2) accept.hyps(2) this] accept.hyps(4) show ?case by auto
next
  case (reject e params arrival prompt prio r e1 err e')
  note N = new_request_ok [OF reject.IH [OF reject.prems] reject.hyps(3)]
  show ?case
  proof (cases "validate e1 (store (eng_sched e1) r)")
    case (Inl err')
    then show ?thesis using add_request_reject [OF Inl, of X] reject.hyps(4) N(1) by simp
  next
    case (Inr u)
    then have "validate e1 (store (eng_sched e1) r) = Inr ()" by simp
    from add_request_ok [OF N(1,2) reject.hyps(2) this] reject.hyps(4) show ?thesis by auto
  qed
next
  case (abort e sid e')
  then show ?case using eng_abort_ok [of X "\<lambda>_. 0" e sid] by auto
qed

end
