(* ===== verification/Schedule_Order.thy ===== *)
theory Schedule_Order
  imports Engine_Start
begin

text \<open>
  What one iteration does to the running queue: a prefix of it survives with its computed tokens, and
  sequences join behind it only when nobody was evicted or failed.
\<close>

section \<open>Nobody leaves quietly\<close>

text \<open>A smaller running queue shows in the batch's counter or in the outputs.\<close>

definition quiet :: "scheduler \<Rightarrow> scheduled_batch \<Rightarrow> scheduler \<Rightarrow> scheduled_batch \<Rightarrow> bool" where
  "quiet s b s' b' \<longleftrightarrow> num_preempted b' = num_preempted b \<and> length (outputs s') = length (outputs s)"

definition louder :: "scheduler \<Rightarrow> scheduled_batch \<Rightarrow> scheduler \<Rightarrow> scheduled_batch \<Rightarrow> bool" where
  "louder s b s' b' \<longleftrightarrow> num_preempted b \<le> num_preempted b' \<and> length (outputs s) \<le> length (outputs s')"

lemma louder_trans: "louder s b s1 b1 \<Longrightarrow> louder s1 b1 s' b' \<Longrightarrow> louder s b s' b'"
  by (simp add: louder_def)

lemma quiet_split: "louder s b s1 b1 \<Longrightarrow> louder s1 b1 s' b' \<Longrightarrow> quiet s b s' b' \<Longrightarrow> quiet s b s1 b1 \<and> quiet s1 b1 s' b'"
  by (simp add: louder_def quiet_def)

lemma preempt_counts: "preempt s r b = Inr (s', b') \<Longrightarrow> num_preempted b' = num_preempted b + 1 \<and> outputs s' = outputs s"
  by (auto simp: preempt_def result_simps Let_def set_seq_def split: if_splits)

lemma sched_fail_counts: "sched_fail s r m = Inr s' \<Longrightarrow> length (outputs s') = Suc (length (outputs s))"
  by (auto simp: sched_fail_def result_simps Let_def set_seq_def split: prod.splits)

lemma make_room_counts:
  assumes "make_room r n i s b = Inr (fits, s', b')"
  shows "louder s b s' b' \<and> (quiet s b s' b' \<longrightarrow> fits \<and> s' = s)"
  using assms
proof (induction r n i s b rule: make_room.induct)
  case (1 r n i s b)
  show ?case
  proof (cases "can_append (bm s) (store s r) n")
    case True
    with "1.prems" show ?thesis by (simp add: make_room.simps louder_def)
  next
    case no: False
    show ?thesis
    proof (cases "i < length (running s) - 1")
      case True
      with no "1.prems" obtain s1 b1 where
        p: "preempt (s\<lparr>running := butlast (running s)\<rparr>) (last (running s)) b = Inr (s1, b1)" and
        m: "make_room r n i s1 b1 = Inr (fits, s', b')"
        by (subst (asm) make_room.simps) (auto simp: result_simps)
      from preempt_counts [OF p] "1.IH" [OF no True p refl m] show ?thesis by (simp add: louder_def quiet_def)
    next
      case False
      with no "1.prems" have i: "i < length (running s)"
        by (subst (asm) make_room.simps) (simp split: if_splits)
      let ?s0 = "s\<lparr>running := take i (running s) @ drop (Suc i) (running s)\<rparr>"
      from False no i "1.prems" have "louder s b s' b' \<and> \<not> quiet s b s' b'"
        by (subst (asm) make_room.simps)
          (cases "i = 0"; auto simp: result_simps Let_def louder_def quiet_def dest: preempt_counts sched_fail_counts)
      then show ?thesis by simp
    qed
  qed
qed

lemma running_loop_counts:
  assumes "running_loop plan i s b = Inr (s', b')"
  shows "louder s b s' b' \<and> (quiet s b s' b' \<longrightarrow> running s' = running s)"
  using assms
proof (induction plan i s b rule: running_loop.induct)
  case (1 plan i s b)
  show ?case
  proof (cases "i < length (running s)")
    case False
    with "1.prems" show ?thesis by (simp add: running_loop.simps louder_def)
  next
    case i: True
    define r where "r = running s ! i"
    obtain n where n: "map_of plan r = Some n"
      using "1.prems" i by (cases "map_of plan r") (simp_all add: running_loop.simps [of plan i s b] r_def)
    show ?thesis
    proof (cases "n = 0")
      case True
      with "1.prems" i n have "running_loop plan (Suc i) s b = Inr (s', b')"
        by (simp add: running_loop.simps [of plan i s b] r_def)
      from "1.IH"(1) [OF i r_def n True this] show ?thesis .
    next
      case nz: False
      with "1.prems" i n obtain fits s1 b1 where m: "make_room r n i s b = Inr (fits, s1, b1)" and
        rest: "(if fits then rbind (append_slots (bm s1) (store s1 r) n) (\<lambda>(bm', q').
             running_loop plan (Suc i) ((set_seq s1 r q')\<lparr>bm := bm'\<rparr>) (batch_add b1 r q' n))
           else running_loop plan i s1 b1) = Inr (s', b')"
        unfolding running_loop.simps [of plan i s b] Let_def r_def [symmetric] by (auto simp: result_simps)
      note M = make_room_counts [OF m]
      show ?thesis
      proof (cases fits)
        case False
        then have l: "running_loop plan i s1 b1 = Inr (s', b')" using rest by simp
        note I = "1.IH"(3) [OF i r_def n nz m refl refl False l]
        show ?thesis using M I quiet_split [of s b s1 b1 s' b'] louder_trans [of s b s1 b1 s' b'] by auto
      next
        case True
        then obtain bm' q' where a: "append_slots (bm s1) (store s1 r) n = Inr (bm', q')" and
          l: "running_loop plan (Suc i) ((set_seq s1 r q')\<lparr>bm := bm'\<rparr>) (batch_add b1 r q' n) = Inr (s', b')"
          using rest by (auto simp: result_simps)
        let ?s2 = "(set_seq s1 r q')\<lparr>bm := bm'\<rparr>" and ?b2 = "batch_add b1 r q' n"
        have same: "num_preempted ?b2 = num_preempted b1" "outputs ?s2 = outputs s1" "running ?s2 = running s1"
          by (simp_all add: batch_add_def set_seq_def)
        note I = "1.IH"(2) [OF i r_def n nz m refl refl True a refl l]
        show ?thesis using M I same by (auto simp: louder_def quiet_def)
      qed
    qed
  qed
qed

section \<open>The running queue after a chunked iteration\<close>

definition queue_flow :: "scheduler \<Rightarrow> scheduler \<Rightarrow> bool" where
  "queue_flow s s' \<longleftrightarrow> (\<exists>k new. running s' = take k (running s) @ new \<and>
     (\<forall>x \<in> set (take k (running s)). num_computed_tokens (store s' x) = num_computed_tokens (store s x)) \<and>
     (new \<noteq> [] \<and> outputs s' = outputs s \<longrightarrow> length (running s) \<le> k))"

lemma schedule_queue_flow:
  assumes inv: "sinv X s (\<lambda>_. 0) []" and ch: "chunked s" and r: "schedule X s = Inr (s', b)"
  shows "queue_flow s s'"
proof -
  have e: "batch_ok s (\<lambda>_. 0) empty_batch" "b_seqs empty_batch = []" "num_preempted empty_batch = 0"
    by (simp_all add: empty_batch_def batch_ok_def)
  have sc: "schedule_chunked X s empty_batch = Inr (s', b)" using r ch by (auto simp: schedule_def result_simps)
  then obtain s1 b1 where 1: "schedule_running s empty_batch = Inr (s1, b1)" by (auto simp: schedule_chunked_def result_simps)
  then obtain p1 where w: "walked X (plan_running_tokens s) s empty_batch s1 p1 b1"
    using schedule_running_ok [OF inv e(1,2)] by auto
  note W = walkedD [OF w]
  have g: "grown 0 s empty_batch s1 b1"
    using running_loop_flow [OF _ queues_distinct_inv [OF inv]] 1 by (simp add: schedule_running_def)
  obtain k where k: "running s1 = take k (running s)" using g by (auto simp: grown_def)
  have comp: "num_computed_tokens (store s1 x) = num_computed_tokens (store s x)" if "x \<in> set (running s1)" for x
    using g that by (auto simp: grown_def)
  have cnt: "quiet s empty_batch s1 b1 \<Longrightarrow> running s1 = running s"
    using running_loop_counts [of "plan_running_tokens s" 0 s empty_batch s1 b1] 1 by (simp add: schedule_running_def)
  show ?thesis
  proof (cases "num_preempted b1 = 0")
    case False
    then have "s' = s1" using sc 1 by (simp add: schedule_chunked_def)
    then show ?thesis unfolding queue_flow_def using k comp by (intro exI [of _ k] exI [of _ "[]"]) simp
  next
    case True
    then obtain s2 b2 where 2: "swap_in_loop s1 b1 (Some (max_batch_tokens s1 - batch_num_tokens b1)) = Inr (s2, b2)"
      and 3: "(if swapped s2 = [] then admit_loop X s2 b2 (max_batch_tokens s2 - batch_num_tokens b2)
            else Inr (s2, b2)) = Inr (s', b)"
      using sc 1 by (auto simp: schedule_chunked_def result_simps)
    have "distinct (running s1 @ swapped s1)" using queues_distinct_inv [OF W(1)] by (simp add: queues_distinct_def)
    then obtain new1 where br: "brought s1 b1 s2 b2 new1" using swap_in_loop_flow [OF 2] by blast
    have "chunked s1" using ch W(3) by (simp add: sched_frame_def conf_same_def)
    then obtain p2 new2 where j: "joined X s1 p1 b1 s2 p2 b2 new2"
      using swap_in_loop_ok [OF W(1,2), of "Some (max_batch_tokens s1 - batch_num_tokens b1)"] 2 by auto
    note J = joinedD [OF j]
    obtain new where n: "running s' = running s2 @ new" "\<forall>x \<in> set (running s2). store s' x = store s2 x"
      "length (outputs s2) \<le> length (outputs s')"
    proof (cases "swapped s2 = []")
      case sw: True
      then obtain p' new' where A: "admits X s2 p2 b2 (max_batch_tokens s2 - batch_num_tokens b2) s' p' b new'"
        using admit_loop_ok [OF J(1,2), of "max_batch_tokens s2 - batch_num_tokens b2"] 3 by auto
      then have j': "joined X s2 p2 b2 s' p' b new'" and st: "settled s2 s'" by (simp_all add: admits_def)
      note J' = joinedD [OF j']
      have "store s' x = store s2 x" if "x \<in> set (running s2)" for x
      proof -
        have "x \<notin> set (admission_order s2)"
          using that sinv_distinct [OF J(1)] by (auto simp: admission_order_def)
        then show ?thesis using st by (simp add: settled_def)
      qed
      moreover have "length (outputs s2) \<le> length (outputs s')" using J' by (auto simp: grew_def)
      ultimately show ?thesis using that [of new'] J' by blast
    qed (use 3 that [of "[]"] in simp)
    have run: "running s' = take k (running s) @ (new1 @ new)" using n(1) br k by (simp add: brought_def)
    moreover have "num_computed_tokens (store s' x) = num_computed_tokens (store s x)" if "x \<in> set (take k (running s))" for x
      using that n(2) br comp [of x] k by (simp add: brought_def)
    moreover have "length (running s) \<le> k" if "outputs s' = outputs s"
    proof -
      have "length (outputs s1) \<le> length (outputs s2)" using J by (auto simp: grew_def)
      moreover have "length (outputs s) \<le> length (outputs s1)" using W by (auto simp: grew_def)
      ultimately have "length (outputs s1) = length (outputs s)" using n(3) that by simp
      then have "quiet s empty_batch s1 b1" using True e(3) by (simp add: quiet_def)
      from cnt [OF this] k show ?thesis by (metis length_take min.absorb_iff1 nle_le)
    qed
    ultimately show ?thesis unfolding queue_flow_def by (intro exI [of _ k] exI [of _ "new1 @ new"]) simp
  qed
qed

end
