(* ===== verification/Engine_Progress.thy ===== *)
theory Engine_Progress
  imports Schedule_Order
begin

text \<open>
  The engine finishes: every step with work pending decreases a lexicographic measure, so \<open>generate\<close>
  returns. The first component is the output still to be produced, which a failure or a sampled token
  lowers. When an iteration samples nothing, every batch is a chunk of a longer prompt, and the uncomputed
  tokens of the running queue, oldest first, decrease lexicographically: preemption takes the newest.
\<close>

section \<open>The measure\<close>

definition left_of :: "sequence \<Rightarrow> nat" where
  "left_of q = nat (1 + max_tokens (sampling_params_of q) - num_output_tokens q)"

definition work_left :: "scheduler \<Rightarrow> nat" where
  "work_left s = (\<Sum>r \<in> set (queue_list s []). left_of (store s r))"

definition backlog :: "scheduler \<Rightarrow> nat list" where
  "backlog s = map (\<lambda>i. if i < length (running s) then nat (num_uncomputed_tokens (store s (running s ! i)))
                       else Suc (nat (max_model_len s))) [0..<nat (max_num_seqs s)]"

definition progress_order :: "(scheduler \<times> scheduler) set" where
  "progress_order = inv_image (less_than <*lex*> lex less_than) (\<lambda>s. (work_left s, backlog s))"

lemma wf_progress: "wf progress_order"
  unfolding progress_order_def by (intro wf_inv_image wf_lex_prod wf_lex) simp_all

lemma lex_first:
  assumes "length xs = length ys" and "i < length xs" and "xs ! i < ys ! i" and "\<And>j. j < i \<Longrightarrow> xs ! j \<le> ys ! j"
  shows "(xs, ys) \<in> lex less_than"
proof -
  define k where "k = (LEAST j. xs ! j \<noteq> ys ! j)"
  have k: "xs ! k \<noteq> ys ! k" unfolding k_def by (rule LeastI [of _ i]) (use assms(3) in simp)
  have ki: "k \<le> i" unfolding k_def by (rule Least_le) (use assms(3) in simp)
  have same: "xs ! j = ys ! j" if "j < k" for j using not_less_Least [of j "\<lambda>j. xs ! j \<noteq> ys ! j"] that by (simp add: k_def)
  have len: "k < length xs" "k < length ys" using ki assms(1,2) by simp_all
  have "xs ! k < ys ! k" using k ki assms(3,4) by (cases "k = i") (auto simp: le_less)
  moreover have "xs = take k xs @ xs ! k # drop (Suc k) xs" by (rule id_take_nth_drop [OF len(1)])
  moreover have "take k xs = take k ys" by (rule nth_equalityI) (use len same in simp_all)
  then have "ys = take k xs @ ys ! k # drop (Suc k) ys" using id_take_nth_drop [OF len(2)] by simp
  ultimately show ?thesis
    unfolding lex_conv using assms(1) by (intro CollectI case_prodI conjI exI) (auto simp del: take_Suc)
qed

section \<open>Output still to come\<close>

lemma left_of_live: "live_ok L q \<Longrightarrow> 1 < left_of q"
  by (simp add: live_ok_def left_of_def)

lemma left_of_gen: "gen_same a b \<Longrightarrow> left_of b = left_of a"
  by (simp add: gen_same_def left_of_def num_output_tokens_def)

lemma sum_less_set:
  fixes f g :: "'b \<Rightarrow> nat"
  assumes "finite A" and "B \<subseteq> A" and "\<And>x. x \<in> B \<Longrightarrow> f x \<le> g x" and "x \<in> A" and "x \<notin> B \<and> 0 < g x \<or> x \<in> B \<and> f x < g x"
  shows "sum f B < sum g A"
proof -
  have fB: "finite B" using assms(1,2) finite_subset by blast
  have le: "sum f B \<le> sum g B" using assms(3) by (rule sum_mono)
  from assms(5) show ?thesis
  proof
    assume x: "x \<notin> B \<and> 0 < g x"
    have "sum g B < sum g (insert x B)" using x fB by simp
    also have "\<dots> \<le> sum g A" using assms(1,2,4) by (intro sum_mono2) auto
    finally show ?thesis using le by simp
  next
    assume x: "x \<in> B \<and> f x < g x"
    then have "sum f B < sum g B" using fB assms(3) by (intro sum_strict_mono_ex1) auto
    also have "\<dots> \<le> sum g A" using assms(1,2) by (intro sum_mono2) auto
    finally show ?thesis .
  qed
qed

lemma scheduled_work:
  assumes inv: "sinv X s p []" and inv': "sinv X s' p' []" and fr: "sched_frame s s'"
  shows "work_left s' \<le> work_left s" and "outputs s' \<noteq> outputs s \<Longrightarrow> work_left s' < work_left s"
proof -
  have cf: "conf_same s s'" and gen: "gen_same (store s r) (store s' r)" for r using fr by (simp_all add: sched_frame_def)
  have sub: "set (queue_list s' []) \<subseteq> set (queue_list s [])" by (rule queue_subset [OF inv inv' cf])
  have eq: "left_of (store s' r) = left_of (store s r)" for r by (rule left_of_gen [OF gen])
  show "work_left s' \<le> work_left s"
    unfolding work_left_def eq by (rule sum_mono2 [OF _ sub]) simp_all
  assume "outputs s' \<noteq> outputs s"
  then have "set (seqs s') \<noteq> set (seqs s)" "set (seqs s') \<subseteq> set (seqs s)" using fr by (simp_all add: sched_frame_def conf_same_def)
  then obtain i r where r: "(i, r) \<in> set (seqs s)" "(i, r) \<notin> set (seqs s')" by auto
  have "map_of (seqs s) i = Some r"
    using r(1) queues_invD(3) [OF sinvD(2) [OF inv]] by (intro map_of_is_SomeI) (simp_all add: dict_wf_def)
  then have q: "r \<in> set (queue_list s [])" "seq_id (store s r) = i"
    using queues_invD(4) [OF sinvD(2) [OF inv]] by blast+
  have "r \<notin> set (queue_list s' [])"
  proof
    assume "r \<in> set (queue_list s' [])"
    moreover have "seq_id (store s' r) = i" using gen [of r] q(2) by (simp add: gen_same_def seq_static_def)
    ultimately have "map_of (seqs s') i = Some r" using queues_invD(4) [OF sinvD(2) [OF inv']] by blast
    then show False using r(2) map_of_SomeD by fast
  qed
  moreover have "1 < left_of (store s r)" by (rule left_of_live [OF sinv_live [OF inv q(1)]])
  ultimately show "work_left s' < work_left s"
    unfolding work_left_def eq by (intro sum_less_set [OF _ sub _ q(1)]) simp_all
qed

lemma advanced_work:
  assumes inv: "sinv X s p []" and inv': "sinv X s' p' []" and upd: "advanced_by s s' p b new"
  shows "work_left s' \<le> work_left s"
    and "r \<in> set (b_seqs b) \<Longrightarrow> r \<in> set (queue_list s []) \<Longrightarrow> new r \<noteq> [] \<Longrightarrow> work_left s' < work_left s"
proof -
  have sub: "set (queue_list s' []) \<subseteq> set (queue_list s [])"
    by (rule queue_subset [OF inv inv']) (use upd in \<open>simp add: advanced_by_def\<close>)
  have le: "left_of (store s' x) \<le> left_of (store s x)" for x
  proof (cases "x \<in> set (b_seqs b)")
    case True
    then have "advanced s s' x (p x) (new x)" using upd by (simp add: advanced_by_def)
    then show ?thesis by (simp add: advanced_def left_of_def num_output_tokens_def)
  qed (use upd in \<open>simp add: advanced_by_def\<close>)
  have "work_left s' \<le> (\<Sum>r \<in> set (queue_list s' []). left_of (store s r))"
    unfolding work_left_def by (rule sum_mono) (rule le)
  also have "\<dots> \<le> work_left s" unfolding work_left_def by (rule sum_mono2 [OF _ sub]) simp_all
  finally show "work_left s' \<le> work_left s" .
  assume r: "r \<in> set (b_seqs b)" "r \<in> set (queue_list s [])" "new r \<noteq> []"
  have a: "advanced s s' r (p r) (new r)" using upd r(1) by (simp add: advanced_by_def)
  have l: "live_ok (max_model_len s) (store s r)" by (rule sinv_live [OF inv r(2)])
  have "left_of (store s' r) < left_of (store s r)"
    using a l r(3) by (cases "new r") (simp_all add: advanced_def live_ok_def left_of_def num_output_tokens_def)
  moreover have "1 < left_of (store s r)" by (rule left_of_live [OF l])
  ultimately show "work_left s' < work_left s"
    unfolding work_left_def by (intro sum_less_set [OF _ sub le r(2)]) auto
qed

section \<open>A step that samples nothing\<close>

lemma advanced_by_quiet:
  assumes inv: "sinv X s p []" and ok: "batch_ok s p b" and upd: "advanced_by s s' p b new" and none: "\<forall>r \<in> set (b_seqs b). new r = []"
  shows "running s' = running s" and "\<And>r. r \<in> set (running s) \<Longrightarrow> num_uncomputed_tokens (store s' r) = num_uncomputed_tokens (store s r) - p r"
proof -
  have U: "running s' = filter (\<lambda>r. status (store s' r) = RUNNING) (running s)"
      "\<forall>x. x \<notin> set (b_seqs b) \<longrightarrow> store s' x = store s x" "\<forall>r \<in> set (b_seqs b). advanced s s' r (p r) (new r)"
    using upd by (simp_all add: advanced_by_def)
  have "status (store s' r) = RUNNING" if "r \<in> set (running s)" for r
  proof (cases "r \<in> set (b_seqs b)")
    case True
    then show ?thesis using U(3) none by (simp add: advanced_def)
  next
    case False
    then show ?thesis using U(2) seqs_invD(1) [OF sinvD(3) [OF inv] that] by (simp add: running_ok_def)
  qed
  then show "running s' = running s" unfolding U(1) by (simp add: filter_id_conv)
  show "num_uncomputed_tokens (store s' r) = num_uncomputed_tokens (store s r) - p r" if "r \<in> set (running s)" for r
  proof (cases "r \<in> set (b_seqs b)")
    case True
    then show ?thesis using U(3) none by (simp add: advanced_def num_uncomputed_tokens_def num_tokens_def)
  qed (use U(2) batch_okD(4) [OF ok, of r] in simp)
qed

lemma backlog_nth:
  "i < nat (max_num_seqs s) \<Longrightarrow> backlog s ! i =
     (if i < length (running s) then nat (num_uncomputed_tokens (store s (running s ! i))) else Suc (nat (max_model_len s)))"
  by (simp add: backlog_def)

lemma quiet_decreases:
  assumes inv: "sinv X s (\<lambda>_. 0) []" and inv1: "sinv X s1 p []" and ok: "batch_ok s1 p b" and fr: "sched_frame s s1"
    and upd: "advanced_by s1 s' p b new" and none: "\<forall>r \<in> set (b_seqs b). new r = []"
    and q: "queue_flow s s1" and out: "outputs s1 = outputs s" and ne: "b_seqs b \<noteq> []"
  shows "(backlog s', backlog s) \<in> lex less_than"
proof -
  obtain k nw where k: "running s1 = take k (running s) @ nw"
    "\<forall>x \<in> set (take k (running s)). num_computed_tokens (store s1 x) = num_computed_tokens (store s x)"
    "nw \<noteq> [] \<Longrightarrow> length (running s) \<le> k"
    using q out by (auto simp: queue_flow_def)
  define m where "m = min k (length (running s))"
  have m: "running s1 = take m (running s) @ nw" "m \<le> length (running s)" "nw \<noteq> [] \<Longrightarrow> m = length (running s)"
    using k by (auto simp: m_def min_def)
  note A = advanced_by_quiet [OF inv1 ok upd none]
  have cf: "max_num_seqs s' = max_num_seqs s" "max_model_len s' = max_model_len s" "max_num_seqs s1 = max_num_seqs s" "max_model_len s1 = max_model_len s"
    using fr upd by (simp_all add: sched_frame_def advanced_by_def conf_same_def)
  have len: "int (length (running s1)) \<le> max_num_seqs s" "int (length (running s)) \<le> max_num_seqs s"
    using sinvD(6) [OF inv1] sinvD(6) [OF inv] cf by simp_all
  have lens: "length (backlog s') = length (backlog s)" "length (backlog s) = nat (max_num_seqs s)"
    by (simp_all add: backlog_def cf)
  have unc: "num_uncomputed_tokens (store s1 r) = num_uncomputed_tokens (store s r)" if "r \<in> set (take m (running s))" for r
    using that k(2) sched_frame_num [OF fr]
    by (simp add: m_def num_uncomputed_tokens_def num_tokens_def min_def split: if_splits)
  have old: "backlog s' ! i = nat (num_uncomputed_tokens (store s (running s ! i)) - p (running s ! i))" if "i < m" for i
  proof -
    have i: "running s1 ! i = running s ! i" "i < length (running s1)" "running s ! i \<in> set (take m (running s))"
      using that m by (auto simp: nth_append in_set_conv_nth)
    then have "running s ! i \<in> set (running s1)" using m(1) by simp
    then show ?thesis using i len(1) A unc by (simp add: backlog_nth cf)
  qed
  have p0: "0 \<le> p r" for r using batch_okD(3,4) [OF ok, of r] by (cases "r \<in> set (b_seqs b)") auto
  have le: "backlog s' ! i \<le> backlog s ! i" if "i < m" for i
    using old [OF that] that m(2) len(2) p0 [of "running s ! i"] by (simp add: backlog_nth)
  show ?thesis
  proof (cases "\<exists>r \<in> set (b_seqs b). r \<in> set (take m (running s))")
    case True
    then obtain i where i: "i < m" "running s ! i \<in> set (b_seqs b)" using m(2) by (auto simp: in_set_conv_nth)
    have r1: "running s ! i \<in> set (running s1)" using i(1) m by (auto simp: in_set_conv_nth nth_append)
    have "0 < num_uncomputed_tokens (store s (running s ! i))"
      using seqs_invD(1) [OF sinvD(3) [OF inv], of "running s ! i"] i(1) m(2)
      by (simp add: running_ok_def num_uncomputed_tokens_def num_tokens_def)
    then have "backlog s' ! i < backlog s ! i"
      using old [OF i(1)] i m(2) len(2) batch_okD(3) [OF ok i(2)] by (simp add: backlog_nth)
    moreover have "i < length (backlog s')" using i(1) m(2) len(2) lens by simp
    ultimately show ?thesis using le i(1) by (intro lex_first [OF lens(1)]) auto
  next
    case False
    then have "nw \<noteq> []" using ne batch_okD(2) [OF ok] m(1) by (cases "b_seqs b") auto
    then have ml: "m = length (running s)" and lt: "m < length (running s1)" using m by auto
    have "running s1 ! m \<in> set (running s1)" using lt by simp
    then have "live_ok (max_model_len s) (store s1 (running s1 ! m))"
      using sinv_live [OF inv1, of "running s1 ! m"] cf by (simp add: queue_list_def)
    moreover have "0 \<le> num_computed_tokens (store s1 (running s1 ! m))"
      using seqs_invD(1) [OF sinvD(3) [OF inv1] \<open>running s1 ! m \<in> set (running s1)\<close>] by (simp add: running_ok_def)
    ultimately have "num_uncomputed_tokens (store s1 (running s1 ! m)) \<le> max_model_len s"
      by (simp add: live_ok_def num_uncomputed_tokens_def num_tokens_def tokens_consistent_def num_prompt_tokens_def num_output_tokens_def)
    then have "backlog s' ! m < backlog s ! m"
      using lt len(1) ml A p0 [of "running s1 ! m"] \<open>running s1 ! m \<in> set (running s1)\<close> by (simp add: backlog_nth cf)
    moreover have "m < length (backlog s')" using lt len(1) lens by simp
    ultimately show ?thesis using le by (intro lex_first [OF lens(1)]) auto
  qed
qed

text \<open>Every step with work pending decreases the measure.\<close>

lemma step_decreases:
  assumes ok: "eng_ok X e" and ok': "eng_ok X e'" and st: "stepped X e e' p b" and work: "eng_has_work e"
  shows "(eng_sched e', eng_sched e) \<in> progress_order"
proof -
  let ?s = "eng_sched e" and ?s' = "eng_sched e'"
  have inv: "sinv X ?s (\<lambda>_. 0) []" and inv': "sinv X ?s' (\<lambda>_. 0) []" using ok ok' by (simp_all add: eng_ok_at_def)
  obtain s1 new where S: "schedule X ?s = Inr (s1, b)" "scheduled X ?s s1 p b" "advanced_by s1 ?s' p b new"
    and new: "\<forall>r \<in> set (b_seqs b). samples (store s1) p r \<longleftrightarrow> new r \<noteq> []"
    using st unfolding stepped_def by (metis (no_types, lifting) list.discI)
  have D: "sinv X s1 p []" "batch_ok s1 p b" "sched_frame ?s s1" "has_work ?s \<Longrightarrow> b_seqs b \<noteq> [] \<or> outputs s1 \<noteq> outputs ?s"
    using S(2) by (simp_all add: scheduled_def)
  note W = scheduled_work [OF inv D(1,3)] and V = advanced_work [OF D(1) inv' S(3)]
  consider "outputs s1 \<noteq> outputs ?s" | r where "r \<in> set (b_seqs b)" "new r \<noteq> []"
    | "outputs s1 = outputs ?s" "\<forall>r \<in> set (b_seqs b). new r = []" by blast
  then have "work_left ?s' < work_left ?s \<or> work_left ?s' \<le> work_left ?s \<and> (backlog ?s', backlog ?s) \<in> lex less_than"
  proof cases
    case 1
    then show ?thesis using W V(1) by simp
  next
    case 2
    have "r \<in> set (queue_list s1 [])" using batch_okD(2) [OF D(2)] 2(1) by (auto simp: queue_list_def)
    then show ?thesis using V(2) [OF 2(1) _ 2(2)] W(1) by simp
  next
    case 3
    have ne: "b_seqs b \<noteq> []" using D(4) 3(1) work by (simp add: eng_has_work_def)
    then obtain r where r: "r \<in> set (b_seqs b)" by (cases "b_seqs b") auto
    have ns: "\<not> samples (store s1) p r" using new 3(2) r by blast
    have "chunked s1"
    proof (rule ccontr)
      assume "\<not> chunked s1"
      moreover have "running_ok (chunked s1) (sch_block_size s1) (p r) (store s1 r)"
        using seqs_invD(1) [OF sinvD(3) [OF D(1)]] batch_okD(2) [OF D(2)] r by blast
      ultimately have "samples (store s1) p r" using batch_okD(3) [OF D(2) r] by (simp add: running_ok_def samples_def)
      then show False using ns by simp
    qed
    then have "chunked ?s" using D(3) by (simp add: sched_frame_def conf_same_def)
    then have "queue_flow ?s s1" by (rule schedule_queue_flow [OF inv _ S(1)])
    then have "(backlog ?s', backlog ?s) \<in> lex less_than"
      by (rule quiet_decreases [OF inv D(1,2,3) S(3) 3(2) _ 3(1) ne])
    then show ?thesis using W(1) V(1) by simp
  qed
  then show ?thesis by (auto simp: progress_order_def)
qed

end
