(* ===== verification/Generate_Ok.thy ===== *)
theory Generate_Ok
  imports Engine_Progress
begin

text \<open>
  \<open>LLMEngine.generate\<close>: requests are created, validated and queued, and the loop runs until nothing is
  pending. It always ends: every request it accepted is finished, unless the sampler raised for one whose
  temperature can overflow its logits.
\<close>

section \<open>The loop\<close>

text \<open>What a run never undoes.\<close>

definition ran :: "('a::linordered_field) engine \<Rightarrow> 'a engine \<Rightarrow> bool" where
  "ran e e' \<longleftrightarrow> eng_static e e' \<and> set (queue_list (eng_sched e') []) \<subseteq> set (queue_list (eng_sched e) []) \<and> drops_finished (eng_sched e) (eng_sched e') \<and>
     (\<forall>r. seq_static (store (eng_sched e) r) (store (eng_sched e') r) \<and>
        sampling_params_of (store (eng_sched e') r) = sampling_params_of (store (eng_sched e) r))"

lemma ran_refl: "ran e e"
  by (simp add: ran_def eng_static_def seq_static_def)

lemma ran_trans: "ran a b \<Longrightarrow> ran b c \<Longrightarrow> ran a c"
  unfolding ran_def by (auto simp: eng_static_def seq_static_def intro: drops_finished_trans)

lemma advanced_by_drops:
  assumes inv: "sinv X s p []" and inv': "sinv X s' p' []" and ok: "batch_ok s p b" and upd: "advanced_by s s' p b new"
  shows "drops_finished s s'"
proof -
  have U: "running s' = filter (\<lambda>r. status (store s' r) = RUNNING) (running s)"
      "\<And>x. x \<notin> set (b_seqs b) \<Longrightarrow> store s' x = store s x" "\<And>r. r \<in> set (b_seqs b) \<Longrightarrow> advanced s s' r (p r) (new r)"
      "swapped s' = swapped s" "preempted s' = preempted s" "waiting s' = waiting s"
    using upd by (simp_all add: advanced_by_def tables_kept_def)
  have run: "status (store s r) = RUNNING" if "r \<in> set (running s)" for r
    using seqs_invD(1) [OF sinvD(3) [OF inv] that] by (simp add: running_ok_def)
  note Q = queues_invD [OF sinvD(2) [OF inv]] and Q' = queues_invD [OF sinvD(2) [OF inv']]
  have pend: "pending (store s') (waiting s') = pending (store s) (waiting s)"
    unfolding U(6) by (rule wq_store_cong(2)) (rule advanced_by_static [OF upd])
  have "is_finished (store s' r)" if f: "is_finished (store s r)" for r
  proof -
    have "r \<notin> set (b_seqs b)" using f run [of r] batch_okD(2) [OF ok] by (auto simp: is_finished_def)
    then show ?thesis using f U(2) by simp
  qed
  moreover have "is_finished (store s' r)" if ir: "(i, r) \<in> set (seqs s)" "(i, r) \<notin> set (seqs s')" for i r
  proof -
    have "map_of (seqs s) i = Some r" using ir(1) Q(3) by (intro map_of_is_SomeI) (simp_all add: dict_wf_def)
    then have q: "r \<in> set (queue_list s [])" "seq_id (store s r) = i" using Q(4) by blast+
    have id: "seq_id (store s' r) = i" using advanced_by_static [OF upd, of r] q(2) by (simp add: seq_static_def)
    have "r \<notin> set (queue_list s' [])"
      using Q'(4) [of i r] ir(2) id map_of_SomeD by fast
    then have r: "r \<in> set (running s)" "status (store s' r) \<noteq> RUNNING"
      using q(1) U(1) by (auto simp: queue_list_def pend U(4,5))
    then have "r \<in> set (b_seqs b)" using run U(2) by metis
    from U(3) [OF this] r(2) show ?thesis by (auto simp: advanced_def is_finished_def)
  qed
  ultimately show ?thesis unfolding drops_finished_def by blast
qed

lemma stepped_ran:
  assumes ok: "eng_ok X e" and ok': "eng_ok X e'" and st: "stepped X e e' p b"
  shows "ran e e'"
proof -
  have inv: "sinv X (eng_sched e) (\<lambda>_. 0) []" and inv': "sinv X (eng_sched e') (\<lambda>_. 0) []" using ok ok' by (simp_all add: eng_ok_at_def)
  obtain s new where S: "scheduled X (eng_sched e) s p b" "advanced_by s (eng_sched e') p b new"
    using st by (auto simp: stepped_def)
  have D: "sinv X s p []" "batch_ok s p b" "drops_finished (eng_sched e) s" and gen: "gen_same (store (eng_sched e) r) (store s r)" for r
    using S(1) by (simp_all add: scheduled_def sched_frame_def)
  have "drops_finished (eng_sched e) (eng_sched e')"
    using D(3) advanced_by_drops [OF D(1) inv' D(2) S(2)] by (rule drops_finished_trans)
  moreover have "sampling_params_of (store (eng_sched e') r) = sampling_params_of (store (eng_sched e) r)" for r
  proof (cases "r \<in> set (b_seqs b)")
    case True
    then show ?thesis using S(2) gen [of r] by (simp add: advanced_by_def advanced_def gen_same_def)
  qed (use S(2) gen [of r] in \<open>simp add: advanced_by_def gen_same_def\<close>)
  ultimately show ?thesis using stepped_frame [OF st] queue_subset [OF inv inv' stepped_frame(1) [OF st]] by (simp add: ran_def)
qed

text \<open>No token list the engine can hold overflows at these parameters.\<close>

definition sampleable :: "'a torch \<Rightarrow> ('a::field) model \<Rightarrow> int \<Rightarrow> int \<Rightarrow> sampling_params \<Rightarrow> bool" where
  "sampleable T M V L params \<longleftrightarrow> (\<forall>ts \<in> vocab_lists V L. \<not> nan_row T params (ref_logits M ts))"

abbreviation cold_params :: "('a::linordered_field) torch \<Rightarrow> 'a engine \<Rightarrow> sampling_params \<Rightarrow> bool" where
  "cold_params T e params \<equiv> 0 < temperature params \<and> temperature params < 1 \<and>
     \<not> sampleable T (run_model (eng_runner e)) (eng_vocab e) (the (cfg_max_model_len (eng_config e))) params"

definition queued_params :: "'a engine \<Rightarrow> sampling_params set" where
  "queued_params e = (\<lambda>r. sampling_params_of (store (eng_sched e) r)) ` set (queue_list (eng_sched e) [])"

text \<open>The error of a run: that of the sampler, for a request queued from its start.\<close>

definition sampler_raises :: "('a::linordered_field) torch \<Rightarrow> 'a engine \<Rightarrow> py_error \<Rightarrow> bool" where
  "sampler_raises T e err \<longleftrightarrow> err = nan_error \<and> (\<exists>params \<in> queued_params e. cold_params T e params)"

lemma sampler_raises_ran: "ran e e1 \<Longrightarrow> sampler_raises T e1 err \<Longrightarrow> sampler_raises T e err"
  unfolding sampler_raises_def queued_params_def by (auto simp: ran_def eng_static_def)

lemma raised_raises:
  assumes ok: "served X e" and T: "torch_ok T" and raised: "step_raised X T now e"
  shows "eng_step X T now e = Inl nan_error" "sampler_raises T e nan_error"
proof -
  let ?s = "eng_sched e" and ?M = "run_model (eng_runner e)"
  have E: "sinv X ?s (\<lambda>_. 0) []" "requests_ok ?M (eng_vocab e) ?s" "eng_conf X e" using ok by (simp_all add: served_at_def eng_ok_at_def)
  obtain r where r: "r \<in> set (queue_list ?s [])" "nan_row T (sampling_params_of (store ?s r)) (ref_logits ?M (token_ids (store ?s r)))"
    using raised by (auto simp: step_raised_def nan_logits_def)
  have "token_ids (store ?s r) \<in> vocab_lists (eng_vocab e) (the (cfg_max_model_len (eng_config e)))"
    using queued_vocab [OF E(2,1) r(1)] E(3) by (simp add: eng_conf_def)
  then have "cold_params T e (sampling_params_of (store ?s r))" using r(2) nan_row_cold [OF T r(2)] unfolding sampleable_def by blast
  then show "sampler_raises T e nan_error" using r(1) unfolding sampler_raises_def queued_params_def by blast
  show "eng_step X T now e = Inl nan_error" using raised by (simp add: step_raised_def)
qed

text \<open>
  The contract of a draining loop: while the invariant holds and work is pending a step keeps it and decreases
  a well-founded order, or raises an error whose cause was there from the start.
\<close>

locale drain =
  fixes step_fn :: "nat \<Rightarrow> 'e \<Rightarrow> ('e \<times> 'o) result" and pending_work :: "'e \<Rightarrow> bool"
    and loop_fn :: "nat \<Rightarrow> 'e \<Rightarrow> 'e result option"
    and inv_of :: "'e \<Rightarrow> bool" and order :: "('e \<times> 'e) set" and kept :: "'e \<Rightarrow> 'e \<Rightarrow> bool" and raises :: "'e \<Rightarrow> py_error \<Rightarrow> bool"
  assumes loop_eq: "loop_fn k e = (if \<not> pending_work e then Some (Inr e)
        else (case step_fn k e of Inl err \<Rightarrow> Some (Inl err) | Inr (e', _) \<Rightarrow> loop_fn (Suc k) e'))"
    and wf_order: "wf order"
    and step_ok: "inv_of e \<Longrightarrow> pending_work e \<Longrightarrow>
        (\<exists>e' out. step_fn k e = Inr (e', out) \<and> inv_of e' \<and> (e', e) \<in> order \<and> kept e e') \<or>
        (\<exists>err. step_fn k e = Inl err \<and> raises e err)"
    and kept_refl: "kept e e"
    and kept_trans: "kept e e1 \<Longrightarrow> kept e1 e2 \<Longrightarrow> kept e e2"
    and raises_kept: "kept e e1 \<Longrightarrow> raises e1 err \<Longrightarrow> raises e err"
begin

lemma drains:
  "inv_of e \<Longrightarrow> (\<exists>e'. loop_fn k e = Some (Inr e') \<and> inv_of e' \<and> \<not> pending_work e' \<and> kept e e') \<or>
     (\<exists>err. loop_fn k e = Some (Inl err) \<and> raises e err)"
proof (induction e arbitrary: k rule: wf_induct_rule [OF wf_order])
  case (1 e)
  show ?case
  proof (cases "pending_work e")
    case False
    then show ?thesis using 1(2) kept_refl loop_eq [of k e] by simp
  next
    case True
    from step_ok [OF 1(2) True, of k] show ?thesis
    proof (elim disjE exE conjE)
      fix e1 out assume st: "step_fn k e = Inr (e1, out)" "inv_of e1" "(e1, e) \<in> order" "kept e e1"
      have l: "loop_fn k e = loop_fn (Suc k) e1" using loop_eq [of k e] True st(1) by simp
      show ?thesis unfolding l using 1(1) [OF st(3,2), of "Suc k"] kept_trans [OF st(4)] raises_kept [OF st(4)] by blast
    next
      fix err assume "step_fn k e = Inl err" "raises e err"
      then show ?thesis using loop_eq [of k e] True by simp
    qed
  qed
qed

text \<open>The loop ends.\<close>

lemma returns: "inv_of e \<Longrightarrow> loop_fn k e \<noteq> None"
  using drains by fastforce

end

interpretation engine_drain:
  drain "\<lambda>k. eng_step X T (clock k)" eng_has_work "run_loop X T clock" "\<lambda>e. served X e \<and> torch_ok T"
    "inv_image progress_order eng_sched" ran "sampler_raises T"
  for X T clock
proof
  show "run_loop X T clock k e = (if \<not> eng_has_work e then Some (Inr e)
      else (case eng_step X T (clock k) e of Inl err \<Rightarrow> Some (Inl err) | Inr (e', _) \<Rightarrow> run_loop X T clock (Suc k) e'))" for k e
    by (subst run_loop.simps) (simp split: sum.split)
  show "wf (inv_image progress_order eng_sched)" by (rule wf_inv_image [OF wf_progress])
  show "(\<exists>e' out. eng_step X T (clock k) e = Inr (e', out) \<and> (served X e' \<and> torch_ok T) \<and>
      (e', e) \<in> inv_image progress_order eng_sched \<and> ran e e') \<or> (\<exists>err. eng_step X T (clock k) e = Inl err \<and> sampler_raises T e err)"
    if "served X e \<and> torch_ok T" "eng_has_work e" for e k
  proof -
    have "(e1, e) \<in> inv_image progress_order eng_sched" "ran e e1" if st: "served X e1" "stepped X e e1 p b" for e1 p b
    proof -
      have ok: "eng_ok X e" "eng_ok X e1" using st(1) \<open>served X e \<and> torch_ok T\<close> by (simp_all add: served_at_def)
      show "(e1, e) \<in> inv_image progress_order eng_sched" "ran e e1"
        using step_decreases [OF ok st(2) \<open>eng_has_work e\<close>] stepped_ran [OF ok st(2)] by simp_all
    qed
    then show ?thesis using served_step [of X e T "clock k"] raised_raises [of X e T "clock k"] that by blast
  qed
qed (rule ran_refl, erule ran_trans, assumption, erule sampler_raises_ran, assumption)

lemma run_loop_ends:
  assumes "served X e" and "torch_ok T"
  shows "(\<exists>e'. run_loop X T clock k e = Some (Inr e') \<and> served X e' \<and> \<not> eng_has_work e' \<and> ran e e') \<or>
     (\<exists>err. run_loop X T clock k e = Some (Inl err) \<and> sampler_raises T e err)"
  using engine_drain.drains [of X e T clock k] assms by blast

lemma idle_finished:
  assumes ok: "served X e" and ok': "served X e'" and run: "ran e e'" and idle: "\<not> eng_has_work e'"
    and r: "r \<in> set (queue_list (eng_sched e) [])"
  shows "is_finished (store (eng_sched e') r)"
proof -
  have inv: "sinv X (eng_sched e) (\<lambda>_. 0) []" and inv': "sinv X (eng_sched e') (\<lambda>_. 0) []"
    using ok ok' by (simp_all add: served_at_def eng_ok_at_def)
  note Q = queues_invD [OF sinvD(2) [OF inv]] and Q' = queues_invD [OF sinvD(2) [OF inv']]
  have "queue_list (eng_sched e') [] = []" using idle has_work_queue [OF inv'] by (simp add: eng_has_work_def)
  then have none: "map_of (seqs (eng_sched e')) i = None" for i using Q'(4) [of i] by (cases "map_of (seqs (eng_sched e')) i") auto
  have "(i, r) \<notin> set (seqs (eng_sched e'))" for i using none [of i] by (auto simp: map_of_eq_None_iff intro: rev_image_eqI)
  moreover have "map_of (seqs (eng_sched e)) (seq_id (store (eng_sched e) r)) = Some r" using Q(4) r by blast
  ultimately show ?thesis using run map_of_SomeD unfolding ran_def drops_finished_def by fast
qed

section \<open>Queuing the requests\<close>

text \<open>The sequences of one call: pairwise different objects and numbers, none of them queued yet.\<close>

definition batch_created :: "'a engine \<Rightarrow> sref list \<Rightarrow> int list list \<Rightarrow> sampling_params list \<Rightarrow> bool" where
  "batch_created e rs ps sps \<longleftrightarrow>
     length rs = length ps \<and> length sps = length ps \<and> distinct rs \<and> distinct (map (\<lambda>r. seq_id (store (eng_sched e) r)) rs) \<and>
     (\<forall>i < length rs. created e (rs ! i) (ps ! i) (sps ! i))"

lemma batch_createdD: "batch_created e rs ps sps \<Longrightarrow> i < length rs \<Longrightarrow> created e (rs ! i) (ps ! i) (sps ! i)"
  by (simp add: batch_created_def)

definition same_config :: "'a engine \<Rightarrow> 'a engine \<Rightarrow> bool" where
  "same_config e e' \<longleftrightarrow> eng_config e' = eng_config e \<and> eng_runner e' = eng_runner e \<and> eng_vocab e' = eng_vocab e \<and>
     has_tokenizer e' = has_tokenizer e"

lemma new_request_config:
  "new_request t prompt params prio e = (r, e1) \<Longrightarrow> same_config e e1 \<and> next_seq_id e1 = next_seq_id e + 1 \<and> next_ref e1 = Suc (next_ref e) \<and>
     r = next_ref e \<and> seq_id (store (eng_sched e1) r) = next_seq_id e"
  by (auto simp: new_request_def new_seq_id_def place_seq_def Let_def same_config_def set_seq_def new_sequence_def)

lemma new_requests_ok:
  assumes "served X e" and "new_requests ts ps sps e = (rs, e1)" and "length sps = length ps" and "length ps \<le> length ts"
  shows "served X e1 \<and> batch_created e1 rs ps sps \<and> same_config e e1 \<and>
     (\<forall>x pr sp. created e x pr sp \<longrightarrow> created e1 x pr sp \<and> store (eng_sched e1) x = store (eng_sched e) x) \<and>
     (\<forall>r \<in> set rs. next_ref e \<le> r \<and> next_seq_id e \<le> seq_id (store (eng_sched e1) r)) \<and>
     queue_list (eng_sched e1) [] = queue_list (eng_sched e) [] \<and>
     (\<forall>r \<in> set (queue_list (eng_sched e) []). store (eng_sched e1) r = store (eng_sched e) r)"
  using assms
proof (induction ps arbitrary: ts sps e rs e1)
  case Nil
  then show ?case by (auto simp: batch_created_def same_config_def)
next
  case (Cons p ps)
  obtain t ts' sp sps' where l: "ts = t # ts'" "sps = sp # sps'" using Cons.prems(3,4) by (cases ts; cases sps) auto
  obtain r e0 where n: "new_request t p sp None e = (r, e0)" by (cases "new_request t p sp None e")
  obtain rs' where rest: "new_requests ts' ps sps' e0 = (rs', e1)" and rs: "rs = r # rs'"
    using Cons.prems(2) n by (auto simp: l split: prod.splits)
  note N = new_request_ok [OF Cons.prems(1) n] and C = new_request_config [OF n]
  have I: "served X e1 \<and> batch_created e1 rs' ps sps' \<and> same_config e0 e1 \<and>
     (\<forall>x pr sp. created e0 x pr sp \<longrightarrow> created e1 x pr sp \<and> store (eng_sched e1) x = store (eng_sched e0) x) \<and>
     (\<forall>r \<in> set rs'. next_ref e0 \<le> r \<and> next_seq_id e0 \<le> seq_id (store (eng_sched e1) r)) \<and>
     queue_list (eng_sched e1) [] = queue_list (eng_sched e0) [] \<and>
     (\<forall>r \<in> set (queue_list (eng_sched e0) []). store (eng_sched e1) r = store (eng_sched e0) r)"
    by (rule Cons.IH [OF N(1) rest]) (use Cons.prems(3,4) l in simp_all)
  then have r: "created e1 r p sp" "store (eng_sched e1) r = store (eng_sched e0) r" using N(2) by blast+
  have "batch_created e1 (r # rs') (p # ps) (sp # sps')"
    using I r C unfolding batch_created_def by (fastforce simp: less_Suc_eq_0_disj)
  moreover have "created e1 x pr sp \<and> store (eng_sched e1) x = store (eng_sched e) x" if x: "created e x pr sp" for x pr sp
  proof -
    have "x \<noteq> r" using x C by (auto simp: created_def Let_def)
    then have "store (eng_sched e0) x = store (eng_sched e) x" by (rule N(5))
    then show ?thesis using I N(3) [OF x] by simp
  qed
  moreover have "next_ref e \<le> x \<and> next_seq_id e \<le> seq_id (store (eng_sched e1) x)" if "x \<in> set rs" for x
    using that I C r(2) by (auto simp: rs)
  moreover have "store (eng_sched e1) x = store (eng_sched e) x" if x: "x \<in> set (queue_list (eng_sched e) [])" for x
  proof -
    have "x \<noteq> r" using x C Cons.prems(1) by (auto simp: served_at_def numbered_def)
    then have "store (eng_sched e0) x = store (eng_sched e) x" by (rule N(5))
    then show ?thesis using I x N(7) by simp
  qed
  ultimately show ?case using I C N(7) by (simp add: rs l same_config_def)
qed

text \<open>One by one, a request that passes \<open>validate\<close> is queued; the others stay as created.\<close>

lemma created_after:
  assumes new: "created e x pr sp" and ne: "x \<noteq> r" and id: "seq_id (store (eng_sched e) x) \<noteq> seq_id (store (eng_sched e) r)"
    and st: "store (eng_sched e') = (store (eng_sched e))(r := q)" and "eng_static e e'"
    and hp: "snd ` set (heap (waiting (eng_sched e'))) = insert r (snd ` set (heap (waiting (eng_sched e))))"
    and sq: "map_of (seqs (eng_sched e')) = (map_of (seqs (eng_sched e)))(seq_id (store (eng_sched e) r) \<mapsto> r)"
    and ql: "set (queue_list (eng_sched e') []) = insert r (set (queue_list (eng_sched e) []))"
  shows "created e' x pr sp"
  using assms by (simp add: created_def Let_def eng_static_def)

definition acceptable :: "'a engine \<Rightarrow> int list \<Rightarrow> sampling_params \<Rightarrow> bool" where
  "acceptable e prompt params \<longleftrightarrow> sampling_params_post_init params = Inr params \<and> prompt \<noteq> [] \<and>
     int (length prompt) + max_tokens params \<le> the (cfg_max_model_len (eng_config e)) \<and> in_vocab (eng_vocab e) prompt"

lemma acceptable_valid:
  assumes ok: "eng_ok X e" and "created e r prompt params" and "acceptable e prompt params"
  shows "validate e (store (eng_sched e) r) = Inr ()"
proof -
  have "cfg_max_model_len (eng_config e) = Some (max_model_len (eng_sched e))" using ok by (simp add: eng_ok_at_def eng_conf_def)
  from validate_iff(1) [OF this] assms(2,3) this show ?thesis
    by (auto simp: created_def Let_def acceptable_def new_sequence_def num_prompt_tokens_def)
qed

lemma add_all_ok:
  assumes "served X e" and "batch_created e rs ps sps" and "\<forall>i < length ps. acceptable e (ps ! i) (sps ! i)"
  shows "\<exists>e'. add_requests X e rs = (Inr (), e') \<and> served X e' \<and> eng_static e e' \<and>
     set (queue_list (eng_sched e') []) = set rs \<union> set (queue_list (eng_sched e) []) \<and>
     (\<forall>r. seq_static (store (eng_sched e) r) (store (eng_sched e') r) \<and>
        sampling_params_of (store (eng_sched e') r) = sampling_params_of (store (eng_sched e) r))"
  using assms
proof (induction rs arbitrary: e ps sps)
  case Nil
  then show ?case by (simp add: eng_static_def seq_static_def)
next
  case (Cons r rs)
  obtain p ps' sp sps' where l: "ps = p # ps'" "sps = sp # sps'"
    using Cons.prems(2) by (cases ps; cases sps) (auto simp: batch_created_def)
  have B: "created e r p sp" "distinct (r # rs)" "length rs = length ps'" "length sps' = length ps'"
    using Cons.prems(2) by (auto simp: batch_created_def l)
  have acc: "acceptable e p sp" using Cons.prems(3) by (auto simp: l)
  have eo: "eng_ok X e" using Cons.prems(1) by (simp add: served_at_def)
  have valid: "valid_params sp" using acc by (simp add: acceptable_def)
  obtain e1 dt where a: "add_request X e r = (Inr (), e1)" "served X e1"
      "pending (store (eng_sched e1)) (waiting (eng_sched e1)) = enqueued X (eng_sched e) r"
      "running (eng_sched e1) = running (eng_sched e)" "swapped (eng_sched e1) = swapped (eng_sched e)"
      "preempted (eng_sched e1) = preempted (eng_sched e)" "eng_static e e1"
      "store (eng_sched e1) = (store (eng_sched e))(r := (store (eng_sched e) r)\<lparr>detokenizer := dt, status := WAITING\<rparr>)"
      "map_of (seqs (eng_sched e1)) = (map_of (seqs (eng_sched e)))(seq_id (store (eng_sched e) r) \<mapsto> r)"
      "snd ` set (heap (waiting (eng_sched e1))) = insert r (snd ` set (heap (waiting (eng_sched e))))"
    using add_request_ok [OF Cons.prems(1) B(1) valid acceptable_valid [OF eo B(1) acc]] by blast
  have ql: "set (queue_list (eng_sched e1) []) = insert r (set (queue_list (eng_sched e) []))"
    unfolding queue_list_def a(3-6) by (simp add: enqueued_def Let_def set_take_drop [simplified])
  have st: "seq_static (store (eng_sched e) x) (store (eng_sched e1) x) \<and>
      sampling_params_of (store (eng_sched e1) x) = sampling_params_of (store (eng_sched e) x)" for x
    by (simp add: a(8) seq_static_def)
  have "batch_created e1 rs ps' sps'"
    unfolding batch_created_def
  proof (intro conjI allI impI)
    show "distinct (map (\<lambda>r. seq_id (store (eng_sched e1) r)) rs)"
      using Cons.prems(2) st by (simp add: batch_created_def seq_static_def)
    fix i assume i: "i < length rs"
    have "created e ((r # rs) ! Suc i) (ps ! Suc i) (sps ! Suc i)"
      using batch_createdD [OF Cons.prems(2), of "Suc i"] i by simp
    then have c: "created e (rs ! i) (ps' ! i) (sps' ! i)" by (simp add: l)
    have ne: "rs ! i \<noteq> r" using B(2) i by auto
    have "seq_id (store (eng_sched e) r) \<notin> set (map (\<lambda>r. seq_id (store (eng_sched e) r)) rs)"
      using Cons.prems(2) by (simp add: batch_created_def)
    moreover have "seq_id (store (eng_sched e) (rs ! i)) \<in> set (map (\<lambda>r. seq_id (store (eng_sched e) r)) rs)"
      using nth_mem [OF i] by simp
    ultimately have id: "seq_id (store (eng_sched e) (rs ! i)) \<noteq> seq_id (store (eng_sched e) r)" by metis
    show "created e1 (rs ! i) (ps' ! i) (sps' ! i)" by (rule created_after [OF c ne id a(8,7,10,9) ql])
  qed (use B in simp_all)
  moreover have "\<forall>i < length ps'. acceptable e1 (ps' ! i) (sps' ! i)"
    using Cons.prems(3) a(7) by (auto simp: l acceptable_def eng_static_def)
  ultimately obtain e' where e': "add_requests X e1 rs = (Inr (), e')" "served X e'" "eng_static e1 e'"
      "set (queue_list (eng_sched e') []) = set rs \<union> set (queue_list (eng_sched e1) [])"
      "\<forall>r. seq_static (store (eng_sched e1) r) (store (eng_sched e') r) \<and>
        sampling_params_of (store (eng_sched e') r) = sampling_params_of (store (eng_sched e1) r)"
    using Cons.IH [OF a(2)] by blast
  have "add_requests X e (r # rs) = (Inr (), e')" using a(1) e'(1) by simp
  moreover have "eng_static e e'" using a(7) e'(3) by (simp add: eng_static_def)
  ultimately show ?case
    using e'(2,4,5) st ql by (intro exI [of _ e']) (auto simp: seq_static_def)
qed

section \<open>The call\<close>

lemma generate_ok:
  assumes ok: "served X e" and T: "torch_ok T" and len: "length sps = length ps" "length ps \<le> length ts"
    and acc: "\<forall>i < length ps. acceptable e (ps ! i) (sps ! i)"
  shows "(\<exists>e' rs. generate X T clock ts e ps sps = Some (Inr (e', rs)) \<and> served X e' \<and> \<not> eng_has_work e' \<and>
     length rs = length ps \<and> distinct rs \<and>
     (\<forall>i < length ps. let q = store (eng_sched e') (rs ! i) in is_finished q \<and> prompt_token_ids q = ps ! i \<and>
        sampling_params_of q = sps ! i \<and> greedy_ok (run_model (eng_runner e)) q)) \<or>
     (generate X T clock ts e ps sps = Some (Inl nan_error) \<and> (\<exists>params \<in> set sps \<union> queued_params e. cold_params T e params))"
proof -
  obtain rs e1 where n: "new_requests ts ps sps e = (rs, e1)" by (cases "new_requests ts ps sps e")
  have N: "served X e1" "batch_created e1 rs ps sps" "same_config e e1"
      "set (queue_list (eng_sched e1) []) = set (queue_list (eng_sched e) [])"
      "\<And>r. r \<in> set (queue_list (eng_sched e) []) \<Longrightarrow> store (eng_sched e1) r = store (eng_sched e) r"
    using new_requests_ok [OF ok n len] by simp_all
  have "\<forall>i < length ps. acceptable e1 (ps ! i) (sps ! i)" using acc N(3) by (simp add: acceptable_def same_config_def)
  then obtain e2 where a: "add_requests X e1 rs = (Inr (), e2)" "served X e2" "eng_static e1 e2"
      "set (queue_list (eng_sched e2) []) = set rs \<union> set (queue_list (eng_sched e1) [])"
      "\<forall>r. seq_static (store (eng_sched e1) r) (store (eng_sched e2) r) \<and>
        sampling_params_of (store (eng_sched e2) r) = sampling_params_of (store (eng_sched e1) r)"
    using add_all_ok [OF N(1,2)] by blast
  have B: "length rs = length ps" "distinct rs" using N(2) by (simp_all add: batch_created_def)
  have q1: "prompt_token_ids (store (eng_sched e1) (rs ! i)) = ps ! i" "sampling_params_of (store (eng_sched e1) (rs ! i)) = sps ! i"
    if "i < length ps" for i
    using N(2) that B(1) by (auto simp: batch_created_def created_def Let_def new_sequence_def)
  from run_loop_ends [OF a(2) T, of clock 0] show ?thesis
  proof (elim disjE exE conjE)
    fix err assume l: "run_loop X T clock 0 e2 = Some (Inl err)" and err: "sampler_raises T e2 err"
    have conf: "eng_config e2 = eng_config e" "eng_runner e2 = eng_runner e" "eng_vocab e2 = eng_vocab e"
      using a(3) N(3) by (simp_all add: eng_static_def same_config_def)
    obtain params where p: "params \<in> queued_params e2" "cold_params T e params"
      using err unfolding sampler_raises_def conf by blast
    have "queued_params e2 \<subseteq> set sps \<union> queued_params e"
    proof
      fix x assume "x \<in> queued_params e2"
      then obtain r where r: "x = sampling_params_of (store (eng_sched e2) r)" "r \<in> set rs \<or> r \<in> set (queue_list (eng_sched e1) [])"
        unfolding queued_params_def a(4) by blast
      from r(2) show "x \<in> set sps \<union> queued_params e"
      proof
        assume "r \<in> set rs"
        then obtain i where "i < length ps" "r = rs ! i" unfolding in_set_conv_nth B(1) by blast
        then show ?thesis using q1(2) a(5) r(1) len(1) by simp
      next
        assume "r \<in> set (queue_list (eng_sched e1) [])"
        then show ?thesis using r(1) a(5) N(4,5) unfolding queued_params_def by simp
      qed
    qed
    moreover have "generate X T clock ts e ps sps = Some (Inl nan_error)"
      using n a(1) l err by (simp add: generate_def sampler_raises_def)
    ultimately show ?thesis using p by blast
  next
    fix e3 assume l: "run_loop X T clock 0 e2 = Some (Inr e3)" "served X e3" "\<not> eng_has_work e3" "ran e2 e3"
    have "let q = store (eng_sched e3) (rs ! i) in is_finished q \<and> prompt_token_ids q = ps ! i \<and>
          sampling_params_of q = sps ! i \<and> greedy_ok (run_model (eng_runner e)) q" if i: "i < length ps" for i
    proof -
      let ?r = "rs ! i"
      have "?r \<in> set (queue_list (eng_sched e2) [])" using a(4) i B(1) by simp
      then have "is_finished (store (eng_sched e3) ?r)" by (rule idle_finished [OF a(2) l(2,4,3)])
      moreover have "greedy_ok (run_model (eng_runner e3)) (store (eng_sched e3) ?r)"
        using l(2) by (simp add: served_at_def eng_ok_at_def requests_ok_def)
      moreover have "eng_runner e3 = eng_runner e" using l(4) a(3) N(3) by (simp add: ran_def eng_static_def same_config_def)
      ultimately show ?thesis
        using q1 [OF i] a(5) l(4) by (simp add: ran_def seq_static_def Let_def)
    qed
    moreover have "generate X T clock ts e ps sps = Some (Inr (e3, rs))"
      using n a(1) l(1) by (simp add: generate_def)
    ultimately show ?thesis using l(2,3) B by blast
  qed
qed

section \<open>Greedy requests\<close>

lemma greedy_reference:
  assumes fit: "model_fits M V L" and acc: "prompt \<noteq> []" "int (length prompt) + max_tokens params \<le> L" "in_vocab V prompt" "1 \<le> max_tokens params"
    and q: "greedy_ok M q" "prompt_token_ids q = prompt" "sampling_params_of q = params" and greedy: "py_eq (temperature params) 0"
  shows "\<exists>ref logits. greedy_generate_contiguous M prompt (max_tokens params) [] = Inr (ref, logits) \<and>
     int (length ref) = max_tokens params \<and> output_token_ids q = take (length (output_token_ids q)) ref"
proof -
  obtain ref where ref: "greedy_generate_contiguous M prompt (max_tokens params) []
      = Inr (ref, map (\<lambda>j. ref_logits M (prompt @ take j ref)) [0..<length ref])"
    "follows M prompt ref" "stops [] (nat (max_tokens params)) ref"
    using greedy_generate_ok [OF fit acc(3,1) _ acc(2), of "[]"] acc(4) by auto
  have len: "int (length ref) = max_tokens params" using ref(3) acc(4) by (auto simp: stops_def)
  have "follows M prompt (output_token_ids q)" using q greedy by (simp add: greedy_ok_def)
  moreover have "length (output_token_ids q) \<le> length ref"
    using q(1,3) len by (cases "output_token_ids q = []") (simp_all add: greedy_ok_def num_output_tokens_def)
  ultimately have "output_token_ids q = take (length (output_token_ids q)) ref"
    using follows_unique ref(2) by blast
  then show ?thesis using ref(1) len by blast
qed

end
