(* ===== verification/Engine_Examples.thy ===== *)
theory Engine_Examples
  imports Generate_Ok Examples
begin

text \<open>
  A small engine for the witnesses: one layer of one head over the rationals, ten tokens, eight pages of
  two tokens, and a torch over the rationals: float32 loses the numbers below its range, softmax gives positive
  logits twice the probability of the others and is not finite at temperature zero, and a draw is the first
  token of positive probability.
\<close>

definition ex_math :: "rat math" where
  "ex_math = \<lparr>rsqrt = (\<lambda>x. x), silu = (\<lambda>x. x), cosf = (\<lambda>_. 1), sinf = (\<lambda>_. 0), inv_freq = [1], norm_eps = 1,
     attend_fn = (\<lambda>q ks vs. last vs)\<rparr>"

definition ex_layer :: "rat layer_weights" where
  "ex_layer = \<lparr>qkv_proj = replicate 6 [1], o_proj = [[1, 0]], q_norm = [1, 1], k_norm = [1, 1],
     gate_up_proj = [[1], [1]], down_proj = [[1]], input_layernorm = [1], post_attention_layernorm = [1]\<rparr>"

definition ex_model :: "rat model" where
  "ex_model = \<lparr>embed_tokens = map (\<lambda>i. [of_nat i]) [0..<10], model_layers = [ex_layer], final_norm = [1], lm_head = None,
     n_heads = 1, n_kv_heads = 1, d_head = 2, d_inter = 1, max_positions = 16, ops = ex_math\<rparr>"

definition ex_model_config :: model_config where
  "ex_model_config = \<lparr>hidden_size = 1, intermediate_size = 1, num_hidden_layers = 1, num_attention_heads = 1,
     num_key_value_heads = 1, head_dim = 2, mc_vocab_size = 10, rope_theta = 1, rms_norm_eps = 1,
     max_position_embeddings = 16, tie_word_embeddings = True, eos_token_ids = [0]\<rparr>"

definition ex_order :: "rat list \<Rightarrow> nat list" where
  "ex_order row = sort_key (\<lambda>i. - (row ! i)) [0..<length row]"

definition ex_float32 :: "pyfloat \<Rightarrow> pyfloat" where
  "ex_float32 x = (case x of PyFin q \<Rightarrow> PyFin (if 0 < q \<and> q < 1 / 10 ^ 40 then 0 else q) | _ \<Rightarrow> x)"

definition normalised :: "rat list \<Rightarrow> rat list" where
  "normalised ws = map (\<lambda>w. w / sum_list ws) ws"

definition ex_weight :: "rat \<Rightarrow> rat" where
  "ex_weight x = (if 0 < x then 2 else 1)"

definition ex_softmax :: "pyfloat \<Rightarrow> rat list \<Rightarrow> rat list option" where
  "ex_softmax t row =
     (case t of
        PyFin q \<Rightarrow> if q \<le> 0 then None else Some (normalised (map (\<lambda>x. ex_weight (x / q)) row))
      | PyInf \<Rightarrow> Some (normalised (map (\<lambda>_. 1) row))
      | _ \<Rightarrow> None)"

definition ex_draw :: "rat list \<Rightarrow> nat" where
  "ex_draw row = length (takeWhile (\<lambda>x. x \<le> 0) row)"

definition ex_torch :: "rat torch" where
  "ex_torch = \<lparr>to_float32 = ex_float32, softmax_at = ex_softmax, sort_order = ex_order, manual_seed = nat,
     multinomial = (\<lambda>g rows. (map ex_draw rows, Suc g))\<rparr>"

definition ex_engine_config :: engine_config where
  "ex_engine_config = ex_config\<lparr>cfg_block_size := 2, cfg_debug_invariants := True\<rparr>"

definition ex_junk :: "nat \<Rightarrow> rat row" where
  "ex_junk _ = []"

definition ex_kernel :: "rat kernel" where
  "ex_kernel _ q _ = q"

definition ex_engine :: "rat engine" where
  "ex_engine = projr (init_engine ex_ext ex_torch False (0, 0, 0, 0) 4 ex_engine_config ex_model_config ex_model False ex_kernel ex_junk)"

lemma normalised_ok:
  assumes "\<forall>w \<in> set ws. 0 < w" and "ws \<noteq> []"
  shows "distribution (normalised ws)"
proof -
  have pos: "0 < sum_list ws" using assms
  proof (induction ws)
    case (Cons w ws)
    then show ?case by (cases "ws = []") (simp_all add: add_pos_pos)
  qed simp
  have "sum_list (map (\<lambda>w. w / c) xs) = sum_list xs / c" for c :: rat and xs
    by (induction xs) (simp_all add: add_divide_distrib)
  then have "sum_list (normalised ws) = 1" using pos by (simp add: normalised_def)
  then show ?thesis using assms(1) pos by (auto simp: distribution_def normalised_def less_imp_le)
qed

lemma ex_softmax_ok:
  assumes "ex_softmax t row = Some xs"
  shows "length xs = length row \<and> (row \<noteq> [] \<longrightarrow> distribution xs)"
proof -
  obtain f where f: "xs = normalised (map f row)" "\<forall>w \<in> set (map f row). 0 < w"
  proof (cases t)
    case (PyFin q)
    have "0 < ex_weight x" for x by (simp add: ex_weight_def)
    then show ?thesis using assms PyFin by (intro that [of "\<lambda>x. ex_weight (x / q)"]) (auto simp: ex_softmax_def split: if_splits)
  next
    case PyInf
    then show ?thesis using assms by (intro that [of "\<lambda>_. 1"]) (simp_all add: ex_softmax_def)
  qed (use assms in \<open>simp_all add: ex_softmax_def\<close>)
  then show ?thesis using normalised_ok [OF f(2)] by (simp add: normalised_def)
qed

lemma ex_draw_ok: "distribution row \<Longrightarrow> ex_draw row < length row"
proof (rule ccontr)
  assume d: "distribution row" and "\<not> ex_draw row < length row"
  then have "length (takeWhile (\<lambda>x. x \<le> 0) row) = length row"
    using length_takeWhile_le [of "\<lambda>x. x \<le> 0" row] by (simp add: ex_draw_def)
  then have "\<forall>x \<in> set row. x \<le> 0" by (metis set_takeWhileD takeWhile_eq_take take_all_iff order_refl)
  then have "sum_list row \<le> 0" by (induction row) (simp_all add: add_nonpos_nonpos)
  then show False using d by (simp add: distribution_def)
qed

lemma ex_order_ok: "descending_order row (ex_order row)"
proof -
  have "sorted (map (\<lambda>i. - (row ! i)) (ex_order row))" unfolding ex_order_def by (rule sorted_sort_key)
  then have "sorted_wrt (\<ge>) (map ((!) row) (ex_order row))" by (simp add: sorted_wrt_map)
  then show ?thesis by (simp add: descending_order_def ex_order_def)
qed

lemma ex_float32_mono: "x \<le> y \<Longrightarrow> ex_float32 x \<le> ex_float32 y"
  by (cases x; cases y) (auto simp: ex_float32_def less_eq_pyfloat_def)

lemma ex_torch_ok: "torch_ok ex_torch"
  unfolding torch_ok_def
proof (intro conjI allI impI)
  show "to_float32 ex_torch 0 = 0" "to_float32 ex_torch 1 = 1"
    by (simp_all add: ex_torch_def ex_float32_def zero_pyfloat_def one_pyfloat_def)
  show "to_float32 ex_torch x \<le> to_float32 ex_torch y" if "x \<le> y" for x y
    using ex_float32_mono [OF that] by (simp add: ex_torch_def)
  show "length xs = length row" "row \<noteq> [] \<Longrightarrow> distribution xs" if "softmax_at ex_torch t row = Some xs" for t row xs
    using ex_softmax_ok [of t row xs] that by (simp_all add: ex_torch_def)
  show "softmax_at ex_torch t row \<noteq> None" if "1 \<le> t" for t row
    using that by (cases t) (auto simp: ex_torch_def ex_softmax_def pyfloat_defs)
  show "descending_order row (sort_order ex_torch row)" for row using ex_order_ok by (simp add: ex_torch_def)
  show "list_all2 (\<lambda>i row. i < length row) (fst (multinomial ex_torch g rows)) rows" if "\<forall>row \<in> set rows. distribution row" for g rows
    using that ex_draw_ok by (simp add: ex_torch_def list_all2_map1 list_all2_same)
qed

lemma ex_model_matches: "model_matches ex_model_config ex_model"
  by (simp add: model_matches_def model_fits_def model_ok_def ex_model_config_def ex_model_def ex_layer_def)

lemma ex_rounds: "rounds_nonneg ex_ext"
  by (simp add: rounds_nonneg_def ex_ext_def)

lemma ex_init:
  "init_engine ex_ext ex_torch False (0, 0, 0, 0) 4 ex_engine_config ex_model_config ex_model False ex_kernel ex_junk = Inr ex_engine"
  "cfg_attention_backend (eng_config ex_engine) = ''naive''" "eng_vocab ex_engine = 10" "cfg_max_model_len (eng_config ex_engine) = Some 16"
  "eng_runner ex_engine = \<lparr>run_model = ex_model, naive_backend = True, flash_kernel = ex_kernel, graph_sizes = None, empty_row = ex_junk\<rparr>"
  "\<not> cfg_enable_prefix_caching (eng_config ex_engine)"
proof -
  have r: "resolve False 16 ex_engine_config = Inr (ex_resolved\<lparr>cfg_block_size := 2, cfg_debug_invariants := True,
      cfg_max_model_len := Some 16, cfg_max_batch_tokens := 2048\<rparr>)"
    by (simp add: resolve_def resolve_auto_def Let_def is_cuda_def starts_with_def ex_engine_config_def ex_config_def ex_resolved_def)
  note defs = init_engine_def ex_model_config_def r device_blocks_def host_blocks_def ex_resolved_def ex_config_def ex_engine_def init_runner_def Let_def
  show "init_engine ex_ext ex_torch False (0, 0, 0, 0) 4 ex_engine_config ex_model_config ex_model False ex_kernel ex_junk = Inr ex_engine"
    "cfg_attention_backend (eng_config ex_engine) = ''naive''" "eng_vocab ex_engine = 10" "cfg_max_model_len (eng_config ex_engine) = Some 16"
    "eng_runner ex_engine = \<lparr>run_model = ex_model, naive_backend = True, flash_kernel = ex_kernel, graph_sizes = None, empty_row = ex_junk\<rparr>"
    "\<not> cfg_enable_prefix_caching (eng_config ex_engine)"
    by (simp_all add: defs)
qed

lemma ex_valid: "config_post_init ex_engine_config = Inr ex_engine_config"
  by (simp add: config_valid_iff [unfolded config_valid_def] post_init_checks_def ex_engine_config_def ex_config_def)

lemma ex_apart: "prefixes_apart ex_ext ex_engine"
  by (simp add: prefixes_apart_def ex_init)

lemma ex_served: "served ex_ext ex_engine"
  by (rule init_engine_ok [OF ex_init(1) ex_valid ex_model_matches ex_rounds ex_apart]) (simp add: ex_init(2))

lemma ex_params_valid: "sampling_params_post_init ex_params = Inr ex_params"
  by (simp add: sampling_params_post_init_def ex_params_def pyfloat_defs)

lemma ex_acceptable: "acceptable ex_engine [1, 2, 3] ex_params"
  by (simp add: acceptable_def ex_params_valid ex_init in_vocab_def) (simp add: ex_params_def)

end
