(* ===== verification/Engine_Reach.thy ===== *)
theory Engine_Reach
  imports Engine_Examples
begin

text \<open>
  The engines the properties speak of, what holds in every state reachable from one, and the reachable
  states of two small engines on which they are instantiated: that of \<open>Engine_Examples\<close>, and the same with
  prefix caching on and a digest without collisions. The digest of a block is its whole prefix, one byte per
  token after the number of tokens, in 32 bytes. It shows that the hypothesis on SHA-256 can hold where pages
  are shared.
\<close>

section \<open>A digest without collisions\<close>

fun every4 :: "bytes \<Rightarrow> bytes" where
  "every4 (a # b # c # d # m) = a # every4 m"
| "every4 _ = []"

definition tok_digest :: "bytes \<Rightarrow> bytes" where
  "tok_digest m = take 32 (of_nat (length m) # m @ replicate 32 0)"

definition undigest :: "bytes \<Rightarrow> bytes" where
  "undigest m = take (unat (hd m)) (tl m)"

definition ex_cache_ext :: externals where
  "ex_cache_ext = ex_ext\<lparr>sha256 := (\<lambda>m. if length m < 32 then tok_digest (every4 m)
     else tok_digest (undigest (take 32 m) @ every4 (drop 32 m)))\<rparr>"

definition tok_bytes :: "int list \<Rightarrow> bytes" where
  "tok_bytes ts = map word_of_int ts"

lemma ex_cache_ext_fields [simp]:
  "uint32_bytes ex_cache_ext = uint32_bytes ex_ext"
  "sha256 ex_cache_ext m = (if length m < 32 then tok_digest (every4 m) else tok_digest (undigest (take 32 m) @ every4 (drop 32 m)))"
  by (simp_all add: ex_cache_ext_def)

lemma length_tok_digest [simp]: "length (tok_digest m) = 32"
  by (simp add: tok_digest_def)

lemma undigest_digest: "length m < 32 \<Longrightarrow> undigest (tok_digest m) = m"
  by (simp add: undigest_def tok_digest_def unat_of_nat take_Cons')

lemma every4_tokens: "every4 (uint32_bytes ex_ext ts) = tok_bytes ts"
  by (induction ts) (simp_all add: ex_ext_def tok_bytes_def)

lemma length_tokens: "length (uint32_bytes ex_ext ts) = 4 * length ts"
  by (induction ts) (simp_all add: ex_ext_def)

lemma tok_bytes_inj: "inj_on tok_bytes {ts. in_vocab 10 ts}"
proof (rule inj_onI)
  fix ts us assume "ts \<in> {ts. in_vocab 10 ts}" "us \<in> {ts. in_vocab 10 ts}" and eq: "tok_bytes ts = tok_bytes us"
  then have r: "map (take_bit 8) ts = ts" "map (take_bit 8) us = us"
    by (auto simp: in_vocab_def list_all_iff take_bit_eq_mod intro!: map_idI)
  have "map uint (tok_bytes ts) = map uint (tok_bytes us)" using eq by simp
  then show "ts = us" using r by (simp add: tok_bytes_def comp_def unsigned_of_int)
qed

abbreviation ex_lists :: "int list set" where
  "ex_lists \<equiv> vocab_lists 10 16"

lemma ex_lists_take: "ts \<in> ex_lists \<Longrightarrow> in_vocab 10 (take n (drop m ts)) \<and> length ts \<le> 16"
  by (auto simp: vocab_lists_def in_vocab_def list_all_iff dest!: in_set_takeD in_set_dropD)

lemma ex_lists_short: "ts \<in> ex_lists \<Longrightarrow> length (tok_bytes (take n ts)) < 32"
  by (auto simp: vocab_lists_def tok_bytes_def)

lemma ex_digest:
  assumes "ts \<in> ex_lists" and "Suc i * 2 \<le> length ts"
  shows "sha256 ex_cache_ext (digest_input ex_cache_ext 2 ts i) = tok_digest (tok_bytes (take (Suc i * 2) ts))"
  using assms(2)
proof (induction i)
  case 0
  then show ?case by (simp add: digest_input_def length_tokens every4_tokens)
next
  case (Suc i)
  then have ih: "block_digest ex_cache_ext 2 ts (block_chain ex_cache_ext 2 ts i) = tok_digest (tok_bytes (take (Suc i * 2) ts))"
    by (simp add: block_digest_input)
  note len = ex_lists_short [OF assms(1), of "Suc i * 2"]
  have "take (Suc i * 2) ts @ take 2 (drop (Suc i * 2) ts) = take (Suc (Suc i) * 2) ts"
    by (simp add: take_add [symmetric])
  then have cat: "tok_bytes (take (Suc i * 2) ts) @ tok_bytes (take 2 (drop (Suc i * 2) ts)) = tok_bytes (take (Suc (Suc i) * 2) ts)"
    by (simp only: tok_bytes_def map_append [symmetric])
  have "digest_input ex_cache_ext 2 ts (Suc i)
      = tok_digest (tok_bytes (take (Suc i * 2) ts)) @ uint32_bytes ex_ext (take 2 (drop (Suc i * 2) ts))"
    by (simp add: digest_input_def ih del: mult_Suc)
  then show ?case by (simp add: undigest_digest [OF len] every4_tokens cat del: mult_Suc)
qed

lemma tok_digest_inj: "tok_digest m = tok_digest m' \<Longrightarrow> length m < 32 \<Longrightarrow> length m' < 32 \<Longrightarrow> m = m'"
  by (metis undigest_digest)

lemma ex_digest_inputs:
  assumes ts: "ts \<in> ex_lists" "Suc i * 2 \<le> length ts" and us: "us \<in> ex_lists" "Suc j * 2 \<le> length us"
    and eq: "sha256 ex_cache_ext (digest_input ex_cache_ext 2 ts i) = sha256 ex_cache_ext (digest_input ex_cache_ext 2 us j)"
  shows "digest_input ex_cache_ext 2 ts i = digest_input ex_cache_ext 2 us j"
proof -
  have "tok_digest (tok_bytes (take (Suc i * 2) ts)) = tok_digest (tok_bytes (take (Suc j * 2) us))"
    using eq unfolding ex_digest [OF ts] ex_digest [OF us] .
  then have "tok_bytes (take (Suc i * 2) ts) = tok_bytes (take (Suc j * 2) us)"
    by (rule tok_digest_inj [OF _ ex_lists_short [OF ts(1)] ex_lists_short [OF us(1)]])
  moreover have "in_vocab 10 (take (Suc i * 2) ts)" "in_vocab 10 (take (Suc j * 2) us)"
    using ex_lists_take [OF ts(1), of _ 0] ex_lists_take [OF us(1), of _ 0] by (simp_all only: drop_0)
  ultimately have same: "take (Suc i * 2) ts = take (Suc j * 2) us" by (intro inj_onD [OF tok_bytes_inj]) simp_all
  then have "length (take (Suc i * 2) ts) = length (take (Suc j * 2) us)" by simp
  then have ij: "j = i" using ts(2) us(2) by simp
  have both: "take (i * 2 + 2) ts = take (i * 2 + 2) us" using same unfolding ij by (simp only: mult_Suc add.commute)
  then have "take (i * 2) (take (i * 2 + 2) ts) = take (i * 2) (take (i * 2 + 2) us)" by (rule arg_cong)
  then have "take (i * 2) ts = take (i * 2) us" by (simp only: take_take) simp
  then have "block_chain ex_cache_ext 2 ts i = block_chain ex_cache_ext 2 us i" by (rule block_chain_cong)
  then show ?thesis unfolding digest_input_def ij take_drop_cong [OF both] by (simp only:)
qed

lemma ex_cache_apart: "collision_free ex_cache_ext 2 ex_lists"
  unfolding collision_free_def encoders_ok_def
proof (intro conjI allI inj_onI)
  fix x y assume "x \<in> {take n (drop m ts) | n m ts. ts \<in> ex_lists}" "y \<in> {take n (drop m ts) | n m ts. ts \<in> ex_lists}"
    and eq: "uint32_bytes ex_cache_ext x = uint32_bytes ex_cache_ext y"
  then have "in_vocab 10 x" "in_vocab 10 y" using ex_lists_take by blast+
  moreover have "tok_bytes x = tok_bytes y" using eq every4_tokens [of x] every4_tokens [of y] by simp
  ultimately show "x = y" using inj_onD [OF tok_bytes_inj] by blast
next
  fix x y assume "x \<in> {digest_input ex_cache_ext 2 ts i | ts i. ts \<in> ex_lists \<and> Suc i * 2 \<le> length ts}"
    "y \<in> {digest_input ex_cache_ext 2 ts i | ts i. ts \<in> ex_lists \<and> Suc i * 2 \<le> length ts}"
    and eq: "sha256 ex_cache_ext x = sha256 ex_cache_ext y"
  then obtain ts i us j where "x = digest_input ex_cache_ext 2 ts i" "y = digest_input ex_cache_ext 2 us j"
    "ts \<in> ex_lists" "Suc i * 2 \<le> length ts" "us \<in> ex_lists" "Suc j * 2 \<le> length us" by blast
  then show "x = y" using eq ex_digest_inputs by blast
qed (simp_all add: length_tokens)

section \<open>An engine with prefix caching\<close>

definition ex_cache_config :: engine_config where
  "ex_cache_config = ex_engine_config\<lparr>cfg_enable_prefix_caching := True, cfg_debug_invariants := False\<rparr>"

definition ex_cache_engine :: "rat engine" where
  "ex_cache_engine = projr (init_engine ex_cache_ext ex_torch False (0, 0, 0, 0) 4 ex_cache_config ex_model_config ex_model False ex_kernel ex_junk)"

lemma ex_cache_init:
  "init_engine ex_cache_ext ex_torch False (0, 0, 0, 0) 4 ex_cache_config ex_model_config ex_model False ex_kernel ex_junk = Inr ex_cache_engine"
  "cfg_attention_backend (eng_config ex_cache_engine) = ''naive''" "eng_vocab ex_cache_engine = 10"
  "cfg_max_model_len (eng_config ex_cache_engine) = Some 16" "cfg_block_size (eng_config ex_cache_engine) = 2"
  "eng_runner ex_cache_engine = eng_runner ex_engine"
proof -
  have r: "resolve False 16 ex_cache_config = Inr (ex_resolved\<lparr>cfg_block_size := 2, cfg_debug_invariants := False,
      cfg_max_model_len := Some 16, cfg_max_batch_tokens := 2048, cfg_enable_prefix_caching := True\<rparr>)"
    by (simp add: resolve_def resolve_auto_def Let_def is_cuda_def starts_with_def ex_cache_config_def ex_engine_config_def
      ex_config_def ex_resolved_def)
  note defs = init_engine_def ex_model_config_def r device_blocks_def host_blocks_def ex_resolved_def ex_config_def
    ex_cache_engine_def init_runner_def Let_def ex_cache_ext_def ex_ext_def
  show "init_engine ex_cache_ext ex_torch False (0, 0, 0, 0) 4 ex_cache_config ex_model_config ex_model False ex_kernel ex_junk = Inr ex_cache_engine"
    "cfg_attention_backend (eng_config ex_cache_engine) = ''naive''" "eng_vocab ex_cache_engine = 10"
    "cfg_max_model_len (eng_config ex_cache_engine) = Some 16" "cfg_block_size (eng_config ex_cache_engine) = 2"
    "eng_runner ex_cache_engine = eng_runner ex_engine"
    by (simp_all add: defs ex_init(5)) (simp add: ex_kernel_def)?
qed

lemma ex_cache_valid: "config_post_init ex_cache_config = Inr ex_cache_config"
  by (simp add: config_valid_iff [unfolded config_valid_def] post_init_checks_def ex_cache_config_def ex_engine_config_def ex_config_def)

lemma ex_cache_rounds: "rounds_nonneg ex_cache_ext"
  by (simp add: rounds_nonneg_def ex_cache_ext_def ex_ext_def)

lemma ex_cache_prefixes: "prefixes_apart ex_cache_ext ex_cache_engine"
  by (simp add: prefixes_apart_def ex_cache_init ex_cache_apart)

definition ex_long_params :: sampling_params where
  "ex_long_params = ex_params\<lparr>max_tokens := 4\<rparr>"

lemma ex_long_valid: "sampling_params_post_init ex_long_params = Inr ex_long_params"
  by (simp add: sampling_params_post_init_def ex_long_params_def ex_params_def pyfloat_defs)

section \<open>Engines\<close>

text \<open>
  An engine \<open>init_engine\<close> returned for a valid configuration with the naive backend, a model of the configured
  shapes, a torch that satisfies its documentation and a rounding that keeps the sign. Prefix caching may be on or off;
  when it is on, SHA-256 has no collision among the prefixes the engine can hold.
\<close>

definition built :: "externals \<Rightarrow> ('a::linordered_field) torch \<Rightarrow> 'a engine \<Rightarrow> bool" where
  "built X T e0 \<longleftrightarrow> torch_ok T \<and> rounds_nonneg X \<and>
     (\<exists>cuda measured itemsize c0 mc M tok krn junk.
        init_engine X T cuda measured itemsize c0 mc M tok krn junk = Inr e0 \<and> config_post_init c0 = Inr c0 \<and>
        model_matches mc M \<and> prefixes_apart X e0 \<and> cfg_attention_backend (eng_config e0) \<noteq> ''flashinfer'')"

lemma built_served: "built X T e0 \<Longrightarrow> served X e0"
  unfolding built_def using init_engine_ok by blast

lemma built_reachable: "built X T e0 \<Longrightarrow> reachable X T e0 e \<Longrightarrow> served X e"
  using reachable_served built_served unfolding built_def by blast

lemma reachableD:
  assumes "built X T e0" and "reachable X T e0 e"
  shows "served X e" "eng_ok X e" "eng_conf X e" "sinv X (eng_sched e) (\<lambda>_. 0) []" "torch_ok T"
    "mem_ok (run_model (eng_runner e)) (eng_sched e) (eng_device e)"
    "cache_held X (run_model (eng_runner e)) (eng_vocab e) (eng_sched e) (dev_cache (eng_device e))" "tables_distinct (eng_sched e)"
    "requests_ok (run_model (eng_runner e)) (eng_vocab e) (eng_sched e)"
  using built_reachable [OF assms] assms(1) by (simp_all add: served_at_def eng_ok_at_def built_def)

text \<open>What a step of a reachable state can do.\<close>

lemma step_cases:
  assumes "built X T e0" and "reachable X T e0 e"
  shows "case eng_step X T now e of
      Inr (e', outs) \<Rightarrow> reachable X T e0 e'
    | Inl err \<Rightarrow> err = nan_error \<and>
       (\<exists>r \<in> set (queue_list (eng_sched e) []). let q = store (eng_sched e) r; temp = temperature (sampling_params_of q) in
          0 < temp \<and> temp < 1 \<and> softmax_at T (to_float32 T temp) (ref_logits (run_model (eng_runner e)) (token_ids q)) = None)"
proof -
  note D = reachableD [OF assms]
  from served_step [OF D(1,5), of now] show ?thesis
  proof (elim disjE exE conjE)
    fix e' outs p b assume "eng_step X T now e = Inr (e', outs)"
    then show ?thesis using reachable.step [OF assms(2)] by simp
  next
    assume "step_raised X T now e"
    then obtain r where r: "eng_step X T now e = Inl nan_error" "r \<in> set (queue_list (eng_sched e) [])"
        "nan_row T (sampling_params_of (store (eng_sched e) r)) (ref_logits (run_model (eng_runner e)) (token_ids (store (eng_sched e) r)))"
      by (auto simp: step_raised_def nan_logits_def)
    then show ?thesis using nan_row_cold [OF D(5) r(3)] by (auto simp: Let_def nan_row_def intro!: bexI [of _ r])
  qed
qed

lemma ex_built: "built ex_ext ex_torch ex_engine"
proof -
  have c: "cfg_attention_backend (eng_config ex_engine) \<noteq> ''flashinfer''" by (simp add: ex_init(2))
  show ?thesis unfolding built_def using ex_torch_ok ex_rounds ex_init(1) ex_valid ex_model_matches ex_apart c by blast
qed

text \<open>The requests and steps of the examples.\<close>

definition submitted :: "externals \<Rightarrow> int list \<Rightarrow> sampling_params \<Rightarrow> 'a engine \<Rightarrow> 'a engine" where
  "submitted X prompt params e = (case new_request 0 prompt params None e of (r, e1) \<Rightarrow> snd (add_request X e1 r))"

definition advanced :: "externals \<Rightarrow> ('a::linordered_field) torch \<Rightarrow> 'a engine \<Rightarrow> 'a engine" where
  "advanced X T e = fst (projr (eng_step X T 1 e))"

text \<open>With no temperature between 0 and 1 in the queues the steps return.\<close>

definition warm :: "sampling_params \<Rightarrow> bool" where
  "warm params \<longleftrightarrow> \<not> (0 < temperature params \<and> temperature params < 1)"

definition warm_reach :: "externals \<Rightarrow> ('a::linordered_field) torch \<Rightarrow> 'a engine \<Rightarrow> 'a engine \<Rightarrow> bool" where
  "warm_reach X T e0 e \<longleftrightarrow> built X T e0 \<and> reachable X T e0 e \<and> (\<forall>params \<in> queued_params e. warm params)"

lemma submitted_ok:
  assumes b: "built X T e0" "reachable X T e0 e" and acc: "acceptable e prompt params"
  shows "reachable X T e0 (submitted X prompt params e)" "queued_params (submitted X prompt params e) \<subseteq> insert params (queued_params e)"
    and "same_config e (submitted X prompt params e)"
proof -
  obtain r e1 where n: "new_request 0 prompt params None e = (r, e1)" by (cases "new_request 0 prompt params None e")
  note N = new_request_ok [OF reachableD(1) [OF b] n] and C = new_request_config [OF n]
  have v: "sampling_params_post_init params = Inr params" using acc by (simp add: acceptable_def)
  have "batch_created e1 [r] [prompt] [params]" using N(2) by (simp add: batch_created_def)
  moreover have "\<forall>i < length [prompt]. acceptable e1 ([prompt] ! i) ([params] ! i)" using acc C by (simp add: acceptable_def same_config_def)
  ultimately obtain e' where a: "add_requests X e1 [r] = (Inr (), e')" "eng_static e1 e'"
      "set (queue_list (eng_sched e') []) = set [r] \<union> set (queue_list (eng_sched e1) [])"
      "\<forall>r. seq_static (store (eng_sched e1) r) (store (eng_sched e') r) \<and>
        sampling_params_of (store (eng_sched e') r) = sampling_params_of (store (eng_sched e1) r)"
    using add_all_ok [OF N(1)] by blast
  have add: "add_request X e1 r = (Inr (), e')" using a(1) by (cases "add_request X e1 r") (auto split: sum.splits)
  then have sub: "submitted X prompt params e = e'" by (simp add: submitted_def n)
  show "reachable X T e0 (submitted X prompt params e)" unfolding sub by (rule reachable.accept [OF b(2) v n add])
  show "same_config e (submitted X prompt params e)" unfolding sub using C a(2) by (simp add: same_config_def eng_static_def)
  have num: "numbered e" using reachableD(1) [OF b] by (simp add: served_at_def)
  have "store (eng_sched e1) x = store (eng_sched e) x" if "x \<in> set (queue_list (eng_sched e) [])" for x
    by (rule N(5)) (use that num C in \<open>auto simp: numbered_def\<close>)
  moreover have "sampling_params_of (store (eng_sched e1) r) = params" using N(2) by (auto simp: created_def Let_def new_sequence_def)
  ultimately show "queued_params (submitted X prompt params e) \<subseteq> insert params (queued_params e)"
    unfolding sub queued_params_def a(3) N(7) using a(4) by auto
qed

lemma submitted_reach: "warm_reach X T e0 e \<Longrightarrow> acceptable e prompt params \<Longrightarrow> warm params \<Longrightarrow> warm_reach X T e0 (submitted X prompt params e)"
  using submitted_ok [of X T e0 e prompt params] by (auto simp: warm_reach_def)

lemma advanced_reach:
  assumes b: "warm_reach X T e0 e"
  shows "\<exists>outs. eng_step X T 1 e = Inr (advanced X T e, outs)" "warm_reach X T e0 (advanced X T e)" "same_config e (advanced X T e)"
proof -
  have R: "built X T e0" "reachable X T e0 e" and warm: "\<forall>params \<in> queued_params e. warm params"
    using b by (simp_all add: warm_reach_def)
  note D = reachableD [OF R]
  have "\<not> step_raised X T 1 e" using raised_raises(2) [OF D(1,5), of 1] warm by (auto simp: sampler_raises_def warm_def)
  then obtain e' outs p b where st: "eng_step X T 1 e = Inr (e', outs)" "served X e'" "stepped X e e' p b"
    using served_step [OF D(1,5), of 1] by blast
  have "ran e e'" by (rule stepped_ran [OF _ _ st(3)]) (use D(2) st(2) in \<open>simp_all add: served_at_def\<close>)
  then have "queued_params e' \<subseteq> queued_params e" "same_config e e'"
    unfolding queued_params_def by (auto simp: ran_def eng_static_def same_config_def)
  moreover have "advanced X T e = e'" using st(1) by (simp add: advanced_def)
  ultimately show "\<exists>outs. eng_step X T 1 e = Inr (advanced X T e, outs)" "warm_reach X T e0 (advanced X T e)" "same_config e (advanced X T e)"
    using reachable.step [OF R(2) st(1)] R(1) warm st(1) unfolding warm_reach_def by auto
qed

lemma acceptable_same: "same_config e e' \<Longrightarrow> acceptable e' prompt params = acceptable e prompt params"
  by (simp add: acceptable_def same_config_def)

lemma ex_warm: "warm ex_params" "warm ex_long_params"
  by (simp_all add: warm_def ex_params_def ex_long_params_def pyfloat_defs)

section \<open>Without prefix caching\<close>

lemma ex_reach: "reachable ex_ext ex_torch ex_engine ex_engine"
  by (rule reachable.start)

lemma init_engine_empty: "init_engine X T cuda measured itemsize c0 mc M tok krn junk = Inr e \<Longrightarrow> queue_list (eng_sched e) [] = []"
  by (auto simp: init_engine_def result_simps Let_def init_scheduler_def queue_list_def pending_def init_wait_queue_def split: if_splits)

lemma ex_empty: "queued_params ex_engine = {}"
  using init_engine_empty [OF ex_init(1)] by (simp add: queued_params_def)

lemma ex_warm_reach: "warm_reach ex_ext ex_torch ex_engine ex_engine"
  using ex_built ex_reach by (simp add: warm_reach_def ex_empty)

definition ex_request :: "rat engine" where
  "ex_request = submitted ex_ext [1, 2, 3] ex_params ex_engine"

lemma ex_request_scheduled:
  "case schedule ex_ext (eng_sched ex_request) of Inr (s, b) \<Rightarrow> b_seqs b = [0] \<and> do_sample b = [True] \<and> token_ids (store s 0) = [1, 2, 3] | _ \<Rightarrow> False"
  by code_simp

lemma ex_request_warm: "warm_reach ex_ext ex_torch ex_engine ex_request"
  unfolding ex_request_def by (rule submitted_reach [OF ex_warm_reach ex_acceptable ex_warm(1)])

lemma ex_request_reach: "reachable ex_ext ex_torch ex_engine ex_request"
  using ex_request_warm by (simp add: warm_reach_def)

lemma ex_request_config: "same_config ex_engine ex_request"
  unfolding ex_request_def by (rule submitted_ok(3) [OF ex_built ex_reach ex_acceptable])

definition ex_running :: "rat engine" where
  "ex_running = advanced ex_ext ex_torch ex_request"

lemma ex_running_state:
  "let s = eng_sched ex_running; q = store s 0 in
     running s = [0] \<and> num_computed_tokens q = 3 \<and> length (token_ids q) = 4 \<and> card (set (block_table q)) = 2"
  by code_simp

lemma ex_running_reach: "reachable ex_ext ex_torch ex_engine ex_running"
  using advanced_reach(2) [OF ex_request_warm] by (simp add: ex_running_def warm_reach_def)

definition ex_aborted :: "rat engine" where
  "ex_aborted = projr (eng_abort ex_running 0)"

lemma ex_aborted_reach: "reachable ex_ext ex_torch ex_engine ex_aborted"
proof -
  obtain e' where "eng_abort ex_running 0 = Inr e'" using eng_abort_ok [OF built_reachable [OF ex_built ex_running_reach]] by blast
  then show ?thesis using reachable.abort [OF ex_running_reach] by (simp add: ex_aborted_def)
qed

lemma ex_aborted_state: "(eng_has_work ex_aborted, num_blocks (bm (eng_sched ex_aborted))) = (False, 8)"
  by code_simp

section \<open>With sampling\<close>

text \<open>A batch with a greedy request and one that is sampled from a nucleus at temperature 2, and a request
  whose temperature float32 loses.\<close>

definition ex_warm_params :: sampling_params where
  "ex_warm_params = ex_params\<lparr>temperature := PyFin 2, top_p := PyFin (1 / 2)\<rparr>"

definition ex_cold_params :: sampling_params where
  "ex_cold_params = ex_params\<lparr>temperature := PyFin (1 / 10 ^ 50)\<rparr>"

lemma ex_sampled_valid: "valid_params ex_warm_params" "valid_params ex_cold_params"
  by (simp_all add: sampling_params_post_init_def ex_warm_params_def ex_cold_params_def ex_params_def pyfloat_defs)

lemma ex_sampled_warm: "warm ex_warm_params"
  by (simp add: warm_def ex_warm_params_def pyfloat_defs)

definition ex_mixed :: "rat engine" where
  "ex_mixed = submitted ex_ext [1] ex_warm_params (submitted ex_ext [1] ex_params ex_engine)"

definition ex_cold :: "rat engine" where
  "ex_cold = submitted ex_ext [1] ex_cold_params ex_engine"

lemma ex_request_scope: "eng_vocab ex_request = 10 \<and> cfg_max_model_len (eng_config ex_request) = Some 16"
  using ex_request_config by (simp add: same_config_def ex_init)

lemma ex_one_acceptable: "acceptable ex_engine [1] ex_params" "acceptable ex_engine [1] ex_warm_params" "acceptable ex_engine [1] ex_cold_params"
  by (simp_all add: acceptable_def ex_params_valid ex_sampled_valid ex_init in_vocab_def)
    (simp_all add: ex_params_def ex_warm_params_def ex_cold_params_def)

lemma ex_mixed_warm: "warm_reach ex_ext ex_torch ex_engine ex_mixed"
proof -
  have "warm_reach ex_ext ex_torch ex_engine (submitted ex_ext [1] ex_params ex_engine)"
    by (rule submitted_reach [OF ex_warm_reach ex_one_acceptable(1) ex_warm(1)])
  moreover have "acceptable (submitted ex_ext [1] ex_params ex_engine) [1] ex_warm_params"
    using acceptable_same [OF submitted_ok(3) [OF ex_built ex_reach ex_one_acceptable(1)]] ex_one_acceptable(2) by simp
  ultimately show ?thesis unfolding ex_mixed_def by (rule submitted_reach [OF _ _ ex_sampled_warm])
qed

lemma ex_mixed_reach: "reachable ex_ext ex_torch ex_engine ex_mixed"
  using ex_mixed_warm by (simp add: warm_reach_def)

lemma ex_cold_reach: "reachable ex_ext ex_torch ex_engine ex_cold"
  unfolding ex_cold_def by (rule submitted_ok(1) [OF ex_built ex_reach ex_one_acceptable(3)])

lemma ex_mixed_step:
  "case eng_step ex_ext ex_torch 1 ex_mixed of Inl _ \<Rightarrow> False | Inr (e, outs) \<Rightarrow> (eng_rng e, map out_seq_id outs) = (1, [0, 1])"
  by code_simp

lemma ex_mixed_rng: "eng_rng ex_mixed = 0"
  by code_simp

lemma ex_cold_raises: "case eng_step ex_ext ex_torch 1 ex_cold of Inl err \<Rightarrow> err = nan_error | Inr _ \<Rightarrow> False"
  by code_simp

text \<open>So a request that validation accepts can make the step of its whole batch raise.\<close>

lemma lost_temperature_raises:
  "0 < temperature ex_cold_params \<and> acceptable ex_engine [1] ex_cold_params \<and>
   reachable ex_ext ex_torch ex_engine (submitted ex_ext [1] ex_cold_params ex_engine) \<and>
   eng_step ex_ext ex_torch 1 (submitted ex_ext [1] ex_cold_params ex_engine) = Inl nan_error"
proof -
  have "eng_step ex_ext ex_torch 1 ex_cold = Inl nan_error" using ex_cold_raises by (auto split: sum.splits)
  moreover have "0 < temperature ex_cold_params" by (simp add: ex_cold_params_def pyfloat_defs)
  ultimately show ?thesis using ex_one_acceptable(3) ex_cold_reach unfolding ex_cold_def by blast
qed

section \<open>With prefix caching\<close>

text \<open>Two requests with the same prompt, the second submitted after the first one's prompt was computed:
  both tables start with the page of the two first tokens.\<close>

lemma ex_cache_built: "built ex_cache_ext ex_torch ex_cache_engine"
proof -
  have c: "cfg_attention_backend (eng_config ex_cache_engine) \<noteq> ''flashinfer''" by (simp add: ex_cache_init(2))
  show ?thesis unfolding built_def
    using ex_torch_ok ex_cache_rounds ex_cache_init(1) ex_cache_valid ex_model_matches ex_cache_prefixes c by blast
qed

lemma ex_cache_reach: "reachable ex_cache_ext ex_torch ex_cache_engine ex_cache_engine"
  by (rule reachable.start)

definition ex_first :: "rat engine" where
  "ex_first = advanced ex_cache_ext ex_torch (submitted ex_cache_ext [1, 2, 3] ex_long_params ex_cache_engine)"

definition ex_shared :: "rat engine" where
  "ex_shared = advanced ex_cache_ext ex_torch (submitted ex_cache_ext [1, 2, 3] ex_long_params ex_first)"

lemma ex_cache_acceptable: "acceptable ex_cache_engine [1, 2, 3] ex_long_params"
  by (simp add: acceptable_def ex_long_valid ex_cache_init in_vocab_def) (simp add: ex_long_params_def ex_params_def)

lemma ex_cache_warm: "warm_reach ex_cache_ext ex_torch ex_cache_engine ex_cache_engine"
  using ex_cache_built ex_cache_reach init_engine_empty [OF ex_cache_init(1)] by (simp add: warm_reach_def queued_params_def)

lemma ex_first_warm: "warm_reach ex_cache_ext ex_torch ex_cache_engine ex_first"
  unfolding ex_first_def by (rule advanced_reach(2) [OF submitted_reach [OF ex_cache_warm ex_cache_acceptable ex_warm(2)]])

lemma ex_first_reach: "reachable ex_cache_ext ex_torch ex_cache_engine ex_first"
  and ex_first_greedy: "params \<in> queued_params ex_first \<Longrightarrow> warm params"
  using ex_first_warm by (simp_all add: warm_reach_def)

lemma ex_first_acceptable: "acceptable ex_first [1, 2, 3] ex_long_params"
proof -
  have "same_config ex_cache_engine (submitted ex_cache_ext [1, 2, 3] ex_long_params ex_cache_engine)"
    by (rule submitted_ok(3) [OF ex_cache_built ex_cache_reach ex_cache_acceptable])
  moreover have "same_config (submitted ex_cache_ext [1, 2, 3] ex_long_params ex_cache_engine) ex_first"
    unfolding ex_first_def by (rule advanced_reach(3) [OF submitted_reach [OF ex_cache_warm ex_cache_acceptable ex_warm(2)]])
  ultimately show ?thesis using ex_cache_acceptable by (simp add: acceptable_same)
qed

lemma ex_shared_reach: "reachable ex_cache_ext ex_torch ex_cache_engine ex_shared"
  using advanced_reach(2) [OF submitted_reach [OF ex_first_warm ex_first_acceptable ex_warm(2)]]
  by (simp add: ex_shared_def warm_reach_def)

lemma ex_shared_state:
  "let s = eng_sched ex_shared; q = store s 1 in
     running s = [0, 1] \<and> num_computed_tokens q = 3 \<and> block_table (store s 0) ! 0 = block_table q ! 0 \<and> length (block_table q) = 2"
  by code_simp

end
