(* ===== verification/Engine_Props.thy ===== *)
theory Engine_Props
  imports Engine_Reach
begin

text \<open>
  What the whole engine guarantees, from its construction on: every state a client can reach steps or fails in
  the sampler for a reason a client gave, its memory holds the reference keys and values and loses no page, and
  \<open>generate\<close> returns what contiguous greedy decoding of each prompt alone returns.
\<close>

section \<open>Steps\<close>

text \<open>C3: a step fails for one reason only. In every state that construction, steps, accepted and rejected
  requests and aborts in any order lead to, with prefix caching or without, \<open>step\<close> returns, unless
  \<open>multinomial\<close> raises for a row of NaNs: a queued request whose temperature, positive and below 1, divides
  its own logits beyond the finite numbers. The scheduler places or refuses every request, the forward pass
  is well indexed, \<open>top_p_filter\<close> leaves every row a distribution, and when \<open>debug_invariants\<close> is set
  every assertion of the check passes.\<close>

theorem step_total:
  assumes "built X T e0" and "reachable X T e0 e"
  shows "case eng_step X T now e of
      Inr (e', outs) \<Rightarrow> reachable X T e0 e'
    | Inl err \<Rightarrow> err = nan_error \<and>
       (\<exists>r \<in> set (queue_list (eng_sched e) []). let q = store (eng_sched e) r; temp = temperature (sampling_params_of q) in
          0 < temp \<and> temp < 1 \<and> softmax_at T (to_float32 T temp) (ref_logits (run_model (eng_runner e)) (token_ids q)) = None)"
  by (rule step_cases [OF assms])

theorem step_total_witness:
  "(\<exists>e' outs. eng_step ex_ext ex_torch 1 ex_mixed = Inr (e', outs) \<and> reachable ex_ext ex_torch ex_engine e' \<and>
      eng_rng e' = Suc (eng_rng ex_mixed) \<and> map out_seq_id outs = [0, 1]) \<and>
   eng_step ex_ext ex_torch 1 ex_cold = Inl nan_error \<and> (\<exists>r \<in> set (queue_list (eng_sched ex_cold) []).
      0 < temperature (sampling_params_of (store (eng_sched ex_cold) r)) \<and> temperature (sampling_params_of (store (eng_sched ex_cold) r)) < 1)"
proof
  obtain e' outs where st: "eng_step ex_ext ex_torch 1 ex_mixed = Inr (e', outs)" "eng_rng e' = Suc (eng_rng ex_mixed)"
      "map out_seq_id outs = [0, 1]"
    using ex_mixed_step ex_mixed_rng by (auto split: sum.splits)
  then show "\<exists>e' outs. eng_step ex_ext ex_torch 1 ex_mixed = Inr (e', outs) \<and> reachable ex_ext ex_torch ex_engine e' \<and>
      eng_rng e' = Suc (eng_rng ex_mixed) \<and> map out_seq_id outs = [0, 1]"
    using step_total [OF ex_built ex_mixed_reach, of 1] by auto
  have "eng_step ex_ext ex_torch 1 ex_cold = Inl nan_error" using ex_cold_raises by (auto split: sum.splits)
  then show "eng_step ex_ext ex_torch 1 ex_cold = Inl nan_error \<and> (\<exists>r \<in> set (queue_list (eng_sched ex_cold) []).
      0 < temperature (sampling_params_of (store (eng_sched ex_cold) r)) \<and> temperature (sampling_params_of (store (eng_sched ex_cold) r)) < 1)"
    using step_total [OF ex_built ex_cold_reach, of 1] by (auto simp: Let_def)
qed

text \<open>C4: in every reachable state the paged memory represents the requests: for each running sequence
  the slots its block table names hold, in every layer, the keys and values a contiguous run over its
  own tokens computes, for all its computed tokens; for each swapped sequence the host pages do. With
  prefix caching, every page with a digest holds the keys and values of the tokens the digest was computed
  from, and no table lists a page twice. Paging, sharing of pages, preemption and the copies of a swap
  change nothing of it.\<close>

theorem memory_refines:
  assumes "built X T e0" and "reachable X T e0 e"
  shows "(\<forall>r \<in> set (running (eng_sched e)).
       seq_held (run_model (eng_runner e)) (dev_cache (eng_device e)) (store (eng_sched e) r) (num_computed_tokens (store (eng_sched e) r))) \<and>
     (\<forall>h. host_cache (eng_device e) = Some h \<longrightarrow> (\<forall>r \<in> set (swapped (eng_sched e)).
       host_held (run_model (eng_runner e)) (sch_block_size (eng_sched e)) h (store (eng_sched e) r) (num_computed_tokens (store (eng_sched e) r)))) \<and>
     cache_held X (run_model (eng_runner e)) (eng_vocab e) (eng_sched e) (dev_cache (eng_device e)) \<and> tables_distinct (eng_sched e)"
  using reachableD(6-8) [OF assms] by (simp add: mem_ok_def host_mem_def split: option.splits)

theorem memory_refines_witness:
  "seq_held (run_model (eng_runner ex_shared)) (dev_cache (eng_device ex_shared)) (store (eng_sched ex_shared) 1) 3 \<and>
   block_table (store (eng_sched ex_shared) 0) ! 0 = block_table (store (eng_sched ex_shared) 1) ! 0"
  using memory_refines [OF ex_cache_built ex_shared_reach] ex_shared_state by (simp add: Let_def)

text \<open>C5: the shapes of the device memory never change: whatever the engine does, every layer keeps
  one key and one value row per slot of the pool's pages and of the scratch page after them.\<close>

theorem memory_typed:
  assumes "built X T e0" and "reachable X T e0 e"
  shows "kv_block_size (dev_cache (eng_device e)) = sch_block_size (eng_sched e) \<and>
     scratch_block (dev_cache (eng_device e)) = num_blocks (bm (eng_sched e)) \<and>
     length (kv_data (dev_cache (eng_device e))) = length (model_layers (run_model (eng_runner e))) \<and>
     list_all (\<lambda>(k, v). length k = Suc (num_blocks (bm (eng_sched e))) * sch_block_size (eng_sched e) \<and> length v = length k)
       (kv_data (dev_cache (eng_device e)))"
  using reachableD(6) [OF assms]
  by (auto simp: mem_ok_def device_ok_def cache_shape_def list_all_iff)

theorem memory_typed_witness:
  "kv_block_size (dev_cache (eng_device ex_running)) = sch_block_size (eng_sched ex_running)"
  using memory_typed [OF ex_built ex_running_reach] by blast

text \<open>C30: no page leaks: in every reachable state, whatever was preempted, swapped, aborted, failed or
  finished on the way there, the used pages are counted by the tables of the running sequences, every host
  page is free or in the host table of exactly one swapped sequence, and when the engine is idle all pages
  of both pools are free.\<close>

theorem no_leak:
  assumes "built X T e0" and "reachable X T e0 e"
  shows "let s = eng_sched e; b = bm s in
     num_used_blocks b = int (card (\<Union>r \<in> set (running s). set (block_table (store s r)))) \<and>
     mset (cpu_free b) + mset (concat (map (\<lambda>r. cpu_block_table (store s r)) (swapped s))) = mset [0..<num_cpu_blocks b] \<and>
     (\<not> eng_has_work e \<longrightarrow> num_free_blocks b = int (num_blocks b) \<and> mset (cpu_free b) = mset [0..<num_cpu_blocks b])"
proof -
  let ?s = "eng_sched e" and ?b = "bm (eng_sched e)"
  have inv: "sinv X ?s (\<lambda>_. 0) []" by (rule reachableD(4) [OF assms])
  have "bm_inv ?b (pages block_table (store ?s) (running ?s)) (pages cpu_block_table (store ?s) (swapped ?s))"
    using sinvD(1) [OF inv] by (simp add: pages_inv_def)
  then have free: "num_free_blocks ?b = int (num_blocks ?b) - int (card (set_mset (pages block_table (store ?s) (running ?s))))"
    and host: "mset (cpu_free ?b) + pages cpu_block_table (store ?s) (swapped ?s) = mset [0..<num_cpu_blocks ?b]"
    by (rule bm_inv_num_free, simp add: bm_inv_def host_ok_def)
  have used: "set_mset (pages block_table (store ?s) (running ?s)) = (\<Union>r \<in> set (running ?s). set (block_table (store ?s r)))"
    by (simp add: pages_def)
  have "running ?s = [] \<and> swapped ?s = []" if "\<not> eng_has_work e"
    using that has_work_queue [OF inv] by (simp add: eng_has_work_def queue_list_def)
  then have "\<not> eng_has_work e \<longrightarrow> num_free_blocks ?b = int (num_blocks ?b) \<and> mset (cpu_free ?b) = mset [0..<num_cpu_blocks ?b]"
    using free host by auto
  moreover have "num_used_blocks ?b = int (card (\<Union>r \<in> set (running ?s). set (block_table (store ?s r))))"
    using free by (simp add: num_used_blocks_def used)
  ultimately show ?thesis using host unfolding Let_def pages_def by blast
qed

theorem no_leak_witness:
  "num_used_blocks (bm (eng_sched ex_running)) = int (card (set (block_table (store (eng_sched ex_running) 0)))) \<and>
   card (set (block_table (store (eng_sched ex_running) 0))) = 2 \<and> num_free_blocks (bm (eng_sched ex_aborted)) = 8"
proof (intro conjI)
  show "num_used_blocks (bm (eng_sched ex_running)) = int (card (set (block_table (store (eng_sched ex_running) 0))))"
    using no_leak [OF ex_built ex_running_reach] ex_running_state by (simp add: Let_def)
  show "card (set (block_table (store (eng_sched ex_running) 0))) = 2" using ex_running_state by (simp add: Let_def)
  show "num_free_blocks (bm (eng_sched ex_aborted)) = 8"
    using no_leak [OF ex_built ex_aborted_reach] ex_aborted_state by (simp add: Let_def)
qed

section \<open>Requests\<close>

text \<open>C6: \<open>add_request\<close> accepts exactly the requests that can be served: with validated parameters it
  succeeds if and only if the prompt is not empty, its tokens are in the vocabulary and the prompt with
  the requested tokens fits the model length, and then puts the request where the policy places it; any
  other request is refused with a \<open>ValueError\<close> by a call that changes nothing, so that all queues are as
  they were before the sequence was made, and no sequence but the new object was written.\<close>

theorem add_request_exact:
  assumes "built X T e0" and "reachable X T e0 e" and "sampling_params_post_init params = Inr params"
    and "new_request arrival prompt params prio e = (r, e1)"
  shows "(if acceptable e prompt params
      then \<exists>e'. add_request X e1 r = (Inr (), e') \<and> reachable X T e0 e' \<and>
             pending (store (eng_sched e')) (waiting (eng_sched e')) = enqueued X (eng_sched e1) r
      else \<exists>msg. add_request X e1 r = (Inl (ValueError msg), e1)) \<and>
     queue_list (eng_sched e1) [] = queue_list (eng_sched e) [] \<and> waiting (eng_sched e1) = waiting (eng_sched e) \<and>
     seqs (eng_sched e1) = seqs (eng_sched e) \<and> (\<forall>x. x \<noteq> r \<longrightarrow> store (eng_sched e1) x = store (eng_sched e) x)"
proof -
  note N = new_request_ok [OF reachableD(1) [OF assms(1,2)] assms(4)]
  have conf: "cfg_max_model_len (eng_config e1) = Some (max_model_len (eng_sched e1))" "eng_vocab e1 = eng_vocab e" "eng_config e1 = eng_config e"
    using N(1) new_request_config [OF assms(4)] by (simp_all add: served_at_def eng_ok_at_def eng_conf_def same_config_def)
  have q: "store (eng_sched e1) r = new_sequence (next_seq_id e) prompt params arrival prio" unfolding N(6) by (simp add: set_seq_def)
  have V: "validate e1 (store (eng_sched e1) r) = Inr () \<longleftrightarrow> acceptable e prompt params"
    unfolding validate_iff(1) [OF conf(1)] acceptable_def using assms(3) conf by (auto simp: q new_sequence_def num_prompt_tokens_def)
  have res: "if acceptable e prompt params
      then \<exists>e'. add_request X e1 r = (Inr (), e') \<and> reachable X T e0 e' \<and>
             pending (store (eng_sched e')) (waiting (eng_sched e')) = enqueued X (eng_sched e1) r
      else \<exists>msg. add_request X e1 r = (Inl (ValueError msg), e1)"
  proof (cases "acceptable e prompt params")
    case True
    then have "validate e1 (store (eng_sched e1) r) = Inr ()" using V by blast
    from add_request_ok [OF N(1,2) assms(3) this]
    show ?thesis using True reachable.accept [OF assms(2-4)] by auto
  next
    case False
    then obtain msg where "validate e1 (store (eng_sched e1) r) = Inl (ValueError msg)"
      using V validate_iff(2) [OF conf(1), of "store (eng_sched e1) r"] by blast
    from add_request_reject [OF this, of X] show ?thesis using False by auto
  qed
  moreover have "waiting (eng_sched e1) = waiting (eng_sched e)" "seqs (eng_sched e1) = seqs (eng_sched e)"
    unfolding N(6) by (simp_all add: set_seq_def)
  ultimately show ?thesis using N(5,7) by blast
qed

theorem add_request_exact_witness:
  "(\<exists>e'. add_request ex_ext (snd (new_request 0 [1, 2, 3] ex_params None ex_request)) (fst (new_request 0 [1, 2, 3] ex_params None ex_request))
      = (Inr (), e')) \<and>
   (\<exists>msg. add_request ex_ext (snd (new_request 0 [1, 12] ex_params None ex_request)) (fst (new_request 0 [1, 12] ex_params None ex_request))
      = (Inl (ValueError msg), snd (new_request 0 [1, 12] ex_params None ex_request)))"
proof
  have n: "new_request 0 p ex_params None ex_request = (fst (new_request 0 p ex_params None ex_request), snd (new_request 0 p ex_params None ex_request))" for p
    by simp
  note A = add_request_exact [OF ex_built ex_request_reach ex_params_valid n]
  have "acceptable ex_request [1, 2, 3] ex_params"
    using ex_request_scope by (simp add: acceptable_def ex_params_valid in_vocab_def) (simp add: ex_params_def)
  then show "\<exists>e'. add_request ex_ext (snd (new_request 0 [1, 2, 3] ex_params None ex_request)) (fst (new_request 0 [1, 2, 3] ex_params None ex_request))
      = (Inr (), e')"
    using A [of "[1, 2, 3]"] by auto
  have "\<not> acceptable ex_request [1, 12] ex_params" using ex_request_scope by (simp add: acceptable_def in_vocab_def)
  then show "\<exists>msg. add_request ex_ext (snd (new_request 0 [1, 12] ex_params None ex_request)) (fst (new_request 0 [1, 12] ex_params None ex_request))
      = (Inl (ValueError msg), snd (new_request 0 [1, 12] ex_params None ex_request))"
    using A [of "[1, 12]"] by simp
qed

section \<open>Generation\<close>

text \<open>C1: \<open>generate\<close> always ends: from any reachable state, with the requests already queued and any
  number of new ones that pass validation, the loop ends after finitely many steps; every new sequence is
  then finished, for its own prompt and parameters, with at most \<open>max_tokens\<close> output tokens, and the
  engine is idle. The one way it raises is the sampler's error, and then some request, new or queued
  before, has a temperature between 0 and 1 at which the logits of a token list the engine can hold overflow.\<close>

theorem generate_returns:
  assumes "built X T e0" and "reachable X T e0 e" and "length sps = length ps" and "length ps \<le> length ts"
    and "\<forall>i < length ps. acceptable e (ps ! i) (sps ! i)"
  shows "\<exists>res. generate X T clock ts e ps sps = Some res \<and>
     (case res of
        Inr (e', rs) \<Rightarrow> \<not> eng_has_work e' \<and> length rs = length ps \<and> distinct rs \<and>
          (\<forall>i < length ps. let q = store (eng_sched e') (rs ! i) in
             is_finished q \<and> prompt_token_ids q = ps ! i \<and> sampling_params_of q = sps ! i \<and> num_output_tokens q \<le> max_tokens (sps ! i))
      | Inl err \<Rightarrow> err = nan_error \<and>
          (\<exists>params \<in> set sps \<union> queued_params e. 0 < temperature params \<and> temperature params < 1 \<and>
             \<not> sampleable T (run_model (eng_runner e)) (eng_vocab e) (the (cfg_max_model_len (eng_config e))) params))"
proof -
  have few: "num_output_tokens q \<le> max_tokens (sps ! i)"
    if "i < length ps" "sampling_params_of q = sps ! i" "greedy_ok (run_model (eng_runner e)) q" for i q
  proof (cases "output_token_ids q = []")
    case True
    have "1 \<le> max_tokens (sps ! i)" using assms(5) that(1) post_init_tokens unfolding acceptable_def by blast
    then show ?thesis using True by (simp add: num_output_tokens_def)
  next
    case False
    then show ?thesis using that(2,3) by (simp add: greedy_ok_def)
  qed
  from generate_ok [OF reachableD(1,5) [OF assms(1,2)] assms(3-5), of clock] show ?thesis
  proof (elim disjE exE conjE)
    fix e' rs assume g: "generate X T clock ts e ps sps = Some (Inr (e', rs))" "\<not> eng_has_work e'" "length rs = length ps" "distinct rs"
      and q: "\<forall>i < length ps. let q = store (eng_sched e') (rs ! i) in is_finished q \<and> prompt_token_ids q = ps ! i \<and>
        sampling_params_of q = sps ! i \<and> greedy_ok (run_model (eng_runner e)) q"
    show ?thesis using few g q by (intro exI [of _ "Inr (e', rs)"]) (simp add: Let_def)
  qed simp
qed

lemma ex_all_acceptable:
  "\<forall>i < length [[1, 2, 3], [1, 2, 3]]. acceptable ex_engine ([[1, 2, 3], [1, 2, 3]] ! i) ([ex_params, ex_warm_params] ! i)"
proof -
  have "acceptable ex_engine [1, 2, 3] ex_warm_params"
    by (simp add: acceptable_def ex_sampled_valid(1) ex_init in_vocab_def) (simp add: ex_warm_params_def ex_params_def)
  then show ?thesis using ex_acceptable by (simp add: less_Suc_eq)
qed

theorem generate_returns_witness:
  "\<exists>e' rs. generate ex_ext ex_torch (\<lambda>_. 0) [0, 0] ex_engine [[1, 2, 3], [1, 2, 3]] [ex_params, ex_warm_params] = Some (Inr (e', rs)) \<and>
     length rs = 2 \<and> is_finished (store (eng_sched e') (rs ! 1)) \<and> sampling_params_of (store (eng_sched e') (rs ! 1)) = ex_warm_params"
proof -
  from generate_returns [OF ex_built ex_reach _ _ ex_all_acceptable, of "[0, 0]" "\<lambda>_. 0"] obtain res where
    g: "generate ex_ext ex_torch (\<lambda>_. 0) [0, 0] ex_engine [[1, 2, 3], [1, 2, 3]] [ex_params, ex_warm_params] = Some res"
    and res: "\<And>err. res = Inl err \<Longrightarrow> \<exists>params \<in> {ex_params, ex_warm_params}. 0 < temperature params \<and> temperature params < 1"
      "\<And>e' rs. res = Inr (e', rs) \<Longrightarrow> length rs = 2 \<and> is_finished (store (eng_sched e') (rs ! 1)) \<and>
         sampling_params_of (store (eng_sched e') (rs ! 1)) = ex_warm_params"
    by (fastforce simp: ex_empty Let_def)
  obtain e' rs where "res = Inr (e', rs)" using res(1) ex_warm(1) ex_sampled_warm by (cases res) (auto simp: warm_def)
  then show ?thesis using g res(2) by blast
qed

text \<open>C2: continuous batching, paging, prefix caching, chunked prefill, preemption and swapping are invisible: every
  greedy request of a \<open>generate\<close> call gets, token for token, the beginning of what
  \<open>greedy_generate_contiguous\<close>, the reference without any of them, computes for its prompt alone.\<close>

theorem generate_matches_reference:
  assumes "built X T e0" and "reachable X T e0 e" and "length sps = length ps" and "length ps \<le> length ts"
    and "\<forall>i < length ps. acceptable e (ps ! i) (sps ! i)" and "i < length ps" and "py_eq (temperature (sps ! i)) 0"
    and "generate X T clock ts e ps sps = Some (Inr (e', rs))"
  shows "\<exists>ref logits. greedy_generate_contiguous (run_model (eng_runner e)) (ps ! i) (max_tokens (sps ! i)) [] = Inr (ref, logits) \<and>
     int (length ref) = max_tokens (sps ! i) \<and>
     (let out = output_token_ids (store (eng_sched e') (rs ! i)) in out = take (length out) ref)"
proof -
  have q: "prompt_token_ids (store (eng_sched e') (rs ! i)) = ps ! i" "sampling_params_of (store (eng_sched e') (rs ! i)) = sps ! i"
      "greedy_ok (run_model (eng_runner e)) (store (eng_sched e') (rs ! i))"
    using generate_ok [OF reachableD(1,5) [OF assms(1,2)] assms(3-5), of clock] assms(6,8) by (auto simp: Let_def)
  have conf: "model_fits (run_model (eng_runner e)) (eng_vocab e) (the (cfg_max_model_len (eng_config e)))"
    using reachableD(3) [OF assms(1,2)] by (simp add: eng_conf_def)
  have "acceptable e (ps ! i) (sps ! i)" using assms(5,6) by blast
  then have acc: "ps ! i \<noteq> []" "int (length (ps ! i)) + max_tokens (sps ! i) \<le> the (cfg_max_model_len (eng_config e))"
      "in_vocab (eng_vocab e) (ps ! i)" "1 \<le> max_tokens (sps ! i)"
    using post_init_tokens by (simp_all add: acceptable_def)
  show ?thesis using greedy_reference [OF conf acc q(3,1,2) assms(7)] by (simp add: Let_def)
qed

theorem generate_matches_reference_witness:
  "\<exists>e' rs ref logits. generate ex_cache_ext ex_torch (\<lambda>_. 0) [0] ex_first [[1, 2, 3]] [ex_long_params] = Some (Inr (e', rs)) \<and>
     greedy_generate_contiguous (run_model (eng_runner ex_first)) [1, 2, 3] 4 [] = Inr (ref, logits) \<and> length ref = 4 \<and>
     (let out = output_token_ids (store (eng_sched e') (rs ! 0)) in out = take (length out) ref)"
proof -
  have acc: "\<forall>i < length [[1, 2, 3]]. acceptable ex_first ([[1, 2, 3]] ! i) ([ex_long_params] ! i)" using ex_first_acceptable by simp
  obtain e' rs where g: "generate ex_cache_ext ex_torch (\<lambda>_. 0) [0] ex_first [[1, 2, 3]] [ex_long_params] = Some (Inr (e', rs))"
    using generate_ok [OF reachableD(1,5) [OF ex_cache_built ex_first_reach] _ _ acc, of "[0]" "\<lambda>_. 0"] ex_first_greedy ex_warm(2)
    by (auto simp: warm_def)
  have p: "py_eq (temperature ([ex_long_params] ! 0)) 0" "max_tokens ([ex_long_params] ! 0) = 4"
    by (simp_all add: ex_long_params_def ex_params_def pyfloat_defs)
  show ?thesis
    using generate_matches_reference [OF ex_cache_built ex_first_reach _ _ acc _ p(1) g] g p(2) by auto
qed

section \<open>The forward pass\<close>

text \<open>C7: the runner computes what the model defines: for the batch scheduled in any reachable state,
  \<open>execute\<close> returns for every sequence that samples the logits of its last token in a contiguous run
  over its tokens, from prompts split into chunks and keys and values spread over pages.\<close>

theorem execute_matches_contiguous:
  assumes "built X T e0" and "reachable X T e0 e" and "schedule X (eng_sched e) = Inr (s, b)"
  shows "\<exists>d logits. execute (eng_runner e) (eng_device e) (store s) b = Inr (d, logits) \<and>
     (let rs = map fst (filter snd (zip (b_seqs b) (do_sample b))) in
      logits = (if rs = [] then None else Some (map (\<lambda>r. ref_logits (run_model (eng_runner e)) (token_ids (store s r))) rs)))"
proof -
  let ?R = "eng_runner e" and ?s = "eng_sched e" and ?M = "run_model (eng_runner e)"
  note D = reachableD [OF assms(1,2)]
  obtain p where sd: "scheduled X ?s s p b" using schedule_ok [OF D(4)] assms(3) by auto
  have S: "sinv X s p []" "batch_ok s p b" "sched_frame ?s s" using sd by (simp_all add: scheduled_def)
  have cf: "conf_same ?s s" using S(3) by (simp add: sched_frame_def)
  have da: "digests_apart X (eng_vocab e) ?s" and fit: "model_fits ?M (eng_vocab e) (max_model_len s)"
    and R: "naive_backend ?R" "graph_sizes ?R = None" "model_ok ?M" and len: "max_model_len s = max_model_len ?s"
    using D(3) cf by (simp_all add: eng_conf_def conf_same_def model_fits_def)
  have req: "requests_ok ?M (eng_vocab e) s" by (rule requests_scheduled [OF D(9,4) S(1,3)])
  obtain d1 where sw: "run_swaps (eng_device e) b = Inr d1" "mem_ok ?M s d1" and ch: "cache_held X ?M (eng_vocab e) s (dev_cache d1)"
    using run_swaps_ok [OF D(4) sd schedule_flow [OF D(4) assms(3)] D(6) da D(7) running_vocab [OF req S(1), unfolded len]] by blast
  obtain d where "execute ?R (eng_device e) (store s) b = Inr (d,
        if filter (samples (store s) p) (b_seqs b) = [] then None
        else Some (map (\<lambda>r. ref_logits ?M (token_ids (store s r))) (filter (samples (store s) p) (b_seqs b))))"
    using execute_ok [OF R S(1,2) sw ch batch_tokens_ok [OF fit S(1,2) req]] by blast
  moreover have "map fst (filter snd (zip rs (map g rs))) = filter g rs" for g and rs :: "sref list"
    by (induction rs) simp_all
  ultimately show ?thesis by (simp add: batch_okD(7) [OF S(2)] Let_def)
qed

theorem execute_matches_contiguous_witness:
  "\<exists>s b d. schedule ex_ext (eng_sched ex_request) = Inr (s, b) \<and> b_seqs b = [0] \<and>
     execute (eng_runner ex_request) (eng_device ex_request) (store s) b = Inr (d, Some [ref_logits (run_model (eng_runner ex_request)) [1, 2, 3]])"
proof -
  obtain s b where b: "schedule ex_ext (eng_sched ex_request) = Inr (s, b)" "b_seqs b = [0]" "do_sample b = [True]" "token_ids (store s 0) = [1, 2, 3]"
    using ex_request_scheduled by (auto split: sum.splits)
  show ?thesis using execute_matches_contiguous [OF ex_built ex_request_reach b(1)] b by auto
qed

text \<open>C8: the reference itself is right: \<open>greedy_generate_contiguous\<close> decodes at most the requested
  number of tokens, each the argmax of the logits of the whole sequence so far, computed with keys and
  values cached from the earlier iterations, and it ends early exactly at the first stop token.\<close>

theorem greedy_generate_spec:
  assumes "model_fits M V L" and "in_vocab V prompt" and "prompt \<noteq> []" and "0 \<le> k" and "int (length prompt) + k \<le> L"
  shows "\<exists>out. greedy_generate_contiguous M prompt k stop_ids = Inr (out, map (\<lambda>j. ref_logits M (prompt @ take j out)) [0..<length out]) \<and>
     int (length out) \<le> k \<and> (\<forall>i < length out. argmax (ref_logits M (prompt @ take i out)) = Inr (nat (out ! i))) \<and>
     (\<forall>t \<in> set (butlast out). t \<notin> set stop_ids) \<and> (int (length out) < k \<longrightarrow> out \<noteq> [] \<and> last out \<in> set stop_ids)"
proof -
  obtain out where o: "greedy_generate_contiguous M prompt k stop_ids = Inr (out, map (\<lambda>j. ref_logits M (prompt @ take j out)) [0..<length out])"
      "follows M prompt out" "stops stop_ids (nat k) out"
    using greedy_generate_ok [OF assms, of stop_ids] by blast
  have "int (length out) \<le> k" "int (length out) < k \<longrightarrow> length out < nat k" using o(3) assms(4) by (auto simp: stops_def)
  then show ?thesis using o by (intro exI [of _ out]) (simp add: follows_def stops_def)
qed

theorem greedy_generate_spec_witness:
  "\<exists>out. greedy_generate_contiguous ex_model [1, 2, 3] 2 [0] = Inr (out, map (\<lambda>j. ref_logits ex_model ([1, 2, 3] @ take j out)) [0..<length out]) \<and>
     int (length out) \<le> 2"
proof -
  have "model_fits ex_model 10 16" using ex_model_matches by (simp add: model_matches_def ex_model_config_def)
  from greedy_generate_spec [OF this, of "[1, 2, 3]" 2 "[0]"] show ?thesis by (auto simp: in_vocab_def)
qed

end
