(* ===== verification/Text_Lemmas.thy ===== *)
theory Text_Lemmas
  imports Sampler_Text
begin

text \<open>
  What the text of a request is while its tokens are appended: the detokenizer's stream against a full
  decode, the leftmost stop string, and the characters already sent.
\<close>

section \<open>Stop strings\<close>

definition occurs :: "ustr \<Rightarrow> ustr \<Rightarrow> nat \<Rightarrow> bool" where
  "occurs t sub i \<longleftrightarrow> i + length sub \<le> length t \<and> take (length sub) (drop i t) = sub"

definition clean :: "ustr list \<Rightarrow> ustr \<Rightarrow> bool" where
  "clean stops t \<longleftrightarrow> (\<forall>st \<in> set stops. \<forall>i. \<not> occurs t st i)"

lemma cleanD: "clean stops t \<Longrightarrow> st \<in> set stops \<Longrightarrow> \<not> occurs t st i"
  by (simp add: clean_def)

lemma occurs_take: "occurs (take k t) sub i \<longleftrightarrow> occurs t sub i \<and> i + length sub \<le> k"
  by (auto simp: occurs_def drop_take take_take min_def)

lemma clean_Nil [simp]: "clean [] t"
  by (simp add: clean_def)

lemma clean_take: "clean stops t \<Longrightarrow> clean stops (take k t)"
  by (simp add: clean_def occurs_take)

lemma occurs_iff:
  assumes s: "sub \<noteq> []"
  shows "take (length sub) (drop i t) = sub \<longleftrightarrow> occurs t sub i"
proof
  assume eq: "take (length sub) (drop i t) = sub"
  have "length (take (length sub) (drop i t)) = length sub" by (rule arg_cong [OF eq])
  moreover have "0 < length sub" using s by blast
  ultimately have "i + length sub \<le> length t" unfolding length_take length_drop by linarith
  then show "occurs t sub i" using eq by (simp only: occurs_def)
qed (simp add: occurs_def)

lemma find_first_from:
  "(List.find P [a..<b] = None \<longleftrightarrow> (\<forall>i. a \<le> i \<longrightarrow> i < b \<longrightarrow> \<not> P i)) \<and>
   (List.find P [a..<b] = Some k \<longrightarrow> a \<le> k \<and> k < b \<and> P k \<and> (\<forall>i. a \<le> i \<longrightarrow> i < k \<longrightarrow> \<not> P i))"
proof (intro conjI impI)
  assume "List.find P [a..<b] = Some k"
  then obtain m where m: "m < b - a" "P (a + m)" "k = a + m" "\<And>j. j < m \<Longrightarrow> \<not> P (a + j)"
    by (auto simp: find_Some_iff)
  have "\<not> P i" if "a \<le> i" "i < k" for i using m(4) [of "i - a"] that m(3) by simp
  then show "a \<le> k" "k < b" "P k" "\<forall>i. a \<le> i \<longrightarrow> i < k \<longrightarrow> \<not> P i" using m(1-3) by auto
qed (auto simp: find_None_iff)

text \<open>The occurrences \<open>find_stop\<close> looks at: those that end in the new text.\<close>

definition new_hit :: "ustr \<Rightarrow> nat \<Rightarrow> ustr \<Rightarrow> nat \<Rightarrow> bool" where
  "new_hit t prev st i \<longleftrightarrow> occurs t st i \<and> prev < i + length st"

lemma py_find_hits:
  assumes "st \<noteq> []"
  shows "py_find t st (nat (max 0 (int prev - int (length st) + 1))) = None \<longleftrightarrow> (\<forall>i. \<not> new_hit t prev st i)"
    and "py_find t st (nat (max 0 (int prev - int (length st) + 1))) = Some k \<Longrightarrow>
      new_hit t prev st k \<and> (\<forall>i. new_hit t prev st i \<longrightarrow> k \<le> i)"
proof -
  let ?a = "nat (max 0 (int prev - int (length st) + 1))"
  have hit: "new_hit t prev st i \<longleftrightarrow> ?a \<le> i \<and> i < Suc (length t) \<and> take (length st) (drop i t) = st" for i
    unfolding new_hit_def occurs_iff [OF assms] by (auto simp: occurs_def)
  note F = find_first_from [of "\<lambda>i. take (length st) (drop i t) = st" ?a "Suc (length t)"]
  show "py_find t st ?a = None \<longleftrightarrow> (\<forall>i. \<not> new_hit t prev st i)"
    using F unfolding py_find_def hit by blast
  assume "py_find t st ?a = Some k"
  with F [of k] have "?a \<le> k \<and> k < Suc (length t) \<and> take (length st) (drop k t) = st \<and>
      (\<forall>i. ?a \<le> i \<longrightarrow> i < k \<longrightarrow> take (length st) (drop i t) \<noteq> st)"
    unfolding py_find_def by blast
  then show "new_hit t prev st k \<and> (\<forall>i. new_hit t prev st i \<longrightarrow> k \<le> i)"
    unfolding hit by (meson not_le_imp_less)
qed

lemma find_stop_fold:
  assumes "\<forall>st \<in> set stops. st \<noteq> []" and "foldl (find_stop_one t prev) f stops = res"
  shows "(res = None \<longrightarrow> f = None \<and> (\<forall>st \<in> set stops. \<forall>i. \<not> new_hit t prev st i)) \<and>
    (\<forall>k. res = Some k \<longrightarrow> (f = Some k \<or> (\<exists>st \<in> set stops. new_hit t prev st k)) \<and>
       (\<forall>k'. f = Some k' \<longrightarrow> k \<le> k') \<and> (\<forall>st \<in> set stops. \<forall>i. new_hit t prev st i \<longrightarrow> k \<le> i))"
  using assms
proof (induction stops arbitrary: f)
  case (Cons st stops)
  let ?g = "find_stop_one t prev f st"
  have ne: "st \<noteq> []" "\<forall>st \<in> set stops. st \<noteq> []" using Cons.prems(1) by simp_all
  note IH = Cons.IH [OF ne(2), of ?g] Cons.prems(2)
  show ?case
  proof (cases "py_find t st (nat (max 0 (int prev - int (length st) + 1)))")
    case None
    then have "?g = f" "\<forall>i. \<not> new_hit t prev st i" using py_find_hits(1) [OF ne(1), of t prev] by (simp_all add: find_stop_one_def)
    then show ?thesis using IH by auto
  next
    case (Some j)
    note J = py_find_hits(2) [OF ne(1) Some]
    have g: "?g = (case f of None \<Rightarrow> Some j | Some k \<Rightarrow> if j < k then Some j else Some k)"
      by (simp add: find_stop_one_def Some)
    obtain m where m: "?g = Some m" "m \<le> j" "f = Some m \<or> m = j" "\<forall>k'. f = Some k' \<longrightarrow> m \<le> k'"
      using g by (cases f) (auto split: if_splits)
    have "res \<noteq> None" using IH m(1) by auto
    then obtain k where k: "res = Some k" by auto
    with IH m(1) have K: "m = k \<or> (\<exists>st \<in> set stops. new_hit t prev st k)" "k \<le> m"
      "\<forall>st \<in> set stops. \<forall>i. new_hit t prev st i \<longrightarrow> k \<le> i" by auto
    have "f = Some k \<or> (\<exists>st' \<in> set (st # stops). new_hit t prev st' k)" using K(1) m(3) J by auto
    moreover have "k \<le> i" if "new_hit t prev st i" for i using J that K(2) m(2) by fastforce
    moreover have "k \<le> k'" if "f = Some k'" for k' using m(4) that K(2) by fastforce
    ultimately show ?thesis using k K(3) by auto
  qed
qed auto

text \<open>On a text whose old part holds no stop string, \<open>find_stop\<close> is the leftmost occurrence of any.\<close>

lemma find_stop_None:
  assumes "\<forall>st \<in> set stops. st \<noteq> []" and "clean stops (take prev t)" and "find_stop t prev stops = None"
  shows "clean stops t"
proof -
  have "\<forall>st \<in> set stops. \<forall>i. \<not> new_hit t prev st i"
    using find_stop_fold [OF assms(1), of t prev None] assms(3) by (simp add: find_stop_def)
  then have "\<not> occurs t st i" if "st \<in> set stops" for st i
    using cleanD [OF assms(2) that, of i] that by (cases "prev < i + length st") (auto simp: occurs_take new_hit_def)
  then show ?thesis by (simp add: clean_def)
qed

lemma find_stop_Some:
  assumes "\<forall>st \<in> set stops. st \<noteq> []" and "clean stops (take prev t)" and "find_stop t prev stops = Some k"
  shows "\<exists>st \<in> set stops. occurs t st k \<and> prev < k + length st" and "st \<in> set stops \<Longrightarrow> occurs t st i \<Longrightarrow> k \<le> i"
    and "clean stops (take k t)"
proof -
  have "foldl (find_stop_one t prev) None stops = Some k" using assms(3) by (simp only: find_stop_def)
  note F = find_stop_fold [OF assms(1) this]
  have f: "\<exists>st \<in> set stops. new_hit t prev st k" using F by simp
  have f2: "\<forall>st \<in> set stops. \<forall>i. new_hit t prev st i \<longrightarrow> k \<le> i" using F by simp
  from f show "\<exists>st \<in> set stops. occurs t st k \<and> prev < k + length st" by (simp add: new_hit_def)
  have least: "k \<le> i" if st: "st \<in> set stops" and oc: "occurs t st i" for st i
  proof (cases "prev < i + length st")
    case True
    with f2 st oc show ?thesis by (simp add: new_hit_def)
  next
    case False
    then have "occurs (take prev t) st i" using oc by (simp add: occurs_take)
    with assms(2) st show ?thesis by (simp add: clean_def)
  qed
  then show "st \<in> set stops \<Longrightarrow> occurs t st i \<Longrightarrow> k \<le> i" .
  have "\<not> (occurs t st i \<and> i + length st \<le> k)" if "st \<in> set stops" for st i
  proof
    assume oc: "occurs t st i \<and> i + length st \<le> k"
    then have "k \<le> i" using least [OF that] by blast
    moreover have "0 < length st" using assms(1) that by blast
    ultimately show False using oc by linarith
  qed
  then show "clean stops (take k t)" by (simp add: clean_def occurs_take)
qed

lemma max_stop_len_ge: "st \<in> set stops \<Longrightarrow> length st \<le> max_stop_len stops"
  by (induction stops) (auto simp: max_stop_len_def)

end
