(* ===== verification/Text_Stream.thy ===== *)
theory Text_Stream
  imports Text_Lemmas
begin

text \<open>
  The stream of texts \<open>append_token\<close> returns while a request runs: nothing sent is taken back, nothing
  that belongs to a stop string is sent early, and a finished request has sent its whole text, which
  is what a single decode of its tokens gives.
\<close>

section \<open>The detokenizer\<close>

text \<open>
  Byte-level decoding: text that does not end in a replacement character ends at a character
  boundary, so what follows is decoded on its own.
\<close>

definition incremental :: "externals \<Rightarrow> bool" where
  "incremental X \<longleftrightarrow> decode X [] = [] \<and>
     (\<forall>a b. \<not> ends_with_fffd (decode X a) \<longrightarrow> decode X (a @ b) = decode X a @ decode X b)"

lemma incrementalD:
  "incremental X \<Longrightarrow> \<not> ends_with_fffd (decode X a) \<Longrightarrow> decode X (a @ b) = decode X a @ decode X b"
  "incremental X \<Longrightarrow> decode X [] = []"
  by (simp_all add: incremental_def)

definition detok_ok :: "externals \<Rightarrow> detok_state \<Rightarrow> ustr \<Rightarrow> bool" where
  "detok_ok X d t \<longleftrightarrow> prefix_offset d \<le> read_offset d \<and> read_offset d \<le> length (detok_ids d) \<and>
     t = decode X (take (read_offset d) (detok_ids d)) \<and> \<not> ends_with_fffd (decode X (take (read_offset d) (detok_ids d))) \<and>
     \<not> ends_with_fffd (decode X (take (prefix_offset d) (detok_ids d)))"

lemma detok_ok_init: "incremental X \<Longrightarrow> detok_ok X init_detok []"
  by (simp add: detok_ok_def init_detok_def incremental_def ends_with_fffd_def)

lemma ends_append: "\<not> ends_with_fffd (a @ b) \<Longrightarrow> \<not> ends_with_fffd b"
  by (auto simp: ends_with_fffd_def)

text \<open>The window's text starts with what was read before and continues with the rest.\<close>

lemma window:
  fixes more_ids :: "int list"
  assumes inc: "incremental X" and ok: "detok_ok X d t"
  defines "ids \<equiv> detok_ids d @ more_ids"
  shows "decode X ids = t @ decode X (drop (read_offset d) ids)"
    and "decode X (drop (prefix_offset d) ids) = decode X (slice ids (prefix_offset d) (read_offset d)) @ decode X (drop (read_offset d) ids)"
    and "\<exists>u. t = u @ decode X (slice ids (prefix_offset d) (read_offset d))"
proof -
  let ?p = "prefix_offset d" and ?r = "read_offset d"
  have pr: "?p \<le> ?r" "?r \<le> length (detok_ids d)" and t: "t = decode X (take ?r ids)" "\<not> ends_with_fffd t"
    and p: "\<not> ends_with_fffd (decode X (take ?p ids))"
    using ok by (simp_all add: detok_ok_def ids_def)
  have sl: "take ?r ids = take ?p ids @ slice ids ?p ?r"
    using pr by (simp add: slice_def) (metis append_take_drop_id min.absorb1 take_take)
  then have tt: "t = decode X (take ?p ids) @ decode X (slice ids ?p ?r)"
    unfolding t(1) using incrementalD(1) [OF inc p] by simp
  then show "\<exists>u. t = u @ decode X (slice ids ?p ?r)" by blast
  have "\<not> ends_with_fffd (decode X (slice ids ?p ?r))" using t(2) tt ends_append by metis
  moreover have "drop ?p ids = slice ids ?p ?r @ drop ?r ids"
    using pr by (simp add: slice_def) (metis append_take_drop_id drop_take le_add_diff_inverse2 drop_drop)
  ultimately show "decode X (drop ?p ids) = decode X (slice ids ?p ?r) @ decode X (drop ?r ids)"
    using incrementalD(1) [OF inc] by simp
  show "decode X ids = t @ decode X (drop ?r ids)"
    using incrementalD(1) [OF inc, of "take ?r ids" "drop ?r ids"] t by simp
qed

lemma detok_add_ok:
  assumes inc: "incremental X" and ok: "detok_ok X d t" and add: "detok_add X d token = (d', x)"
  shows "detok_ok X d' (t @ x)" and "detok_ids d' = detok_ids d @ [token]"
proof -
  let ?ids = "detok_ids d @ [token]"
  note W = window [OF inc ok, of "[token]"]
  show "detok_ids d' = ?ids" using add by (auto simp: detok_add_def Let_def split: if_splits)
  show "detok_ok X d' (t @ x)"
  proof (cases "x = [] \<and> d' = d\<lparr>detok_ids := ?ids\<rparr>")
    case True
    then show ?thesis using ok by (simp add: detok_ok_def)
  next
    case False
    then have d': "d' = d\<lparr>detok_ids := ?ids, prefix_offset := read_offset d, read_offset := length ?ids\<rparr>"
      and x: "x = decode X (drop (read_offset d) ?ids)"
      and nf: "\<not> ends_with_fffd (decode X (drop (prefix_offset d) ?ids))"
        "length (decode X (slice ?ids (prefix_offset d) (read_offset d))) < length (decode X (drop (prefix_offset d) ?ids))"
      using add W(2) by (auto simp: detok_add_def Let_def split: if_splits)
    have "x \<noteq> []" using nf(2) unfolding W(2) x by simp
    then have "\<not> ends_with_fffd (t @ x)" using nf(1) unfolding W(2) x by (simp add: ends_with_fffd_def)
    then show ?thesis using W(1) x ok by (simp add: detok_ok_def d')
  qed
qed

lemma detok_flush_ok:
  assumes "incremental X" and "detok_ok X d t" and "detok_flush X d = (d', x)"
  shows "t @ x = decode X (detok_ids d)"
  using window [OF assms(1,2), of "[]"] assms(3) by (auto simp: detok_flush_def Let_def)

section \<open>One token\<close>

definition stream_ok :: "sequence \<Rightarrow> bool" where
  "stream_ok q \<longleftrightarrow> (let stops = stop (sampling_params_of q) in
     (\<forall>st \<in> set stops. st \<noteq> []) \<and> clean stops (output_text q) \<and> num_emitted_chars q \<le> length (output_text q) \<and>
     length (output_text q) < num_emitted_chars q + max 1 (max_stop_len stops) \<and>
     (stops \<noteq> [] \<longrightarrow> num_emitted_chars q = 0 \<or> num_emitted_chars q + max_stop_len stops \<le> Suc (length (output_text q))))"

text \<open>The stages of \<open>append_token\<close>.\<close>

definition appended_text :: "externals \<Rightarrow> sequence \<Rightarrow> int \<Rightarrow> ustr" where
  "appended_text X q t = output_text q @ (case detokenizer q of None \<Rightarrow> [] | Some d \<Rightarrow> snd (detok_add X d t))"

definition appended_stop :: "externals \<Rightarrow> sequence \<Rightarrow> int \<Rightarrow> nat option" where
  "appended_stop X q t =
     (if stop (sampling_params_of q) \<noteq> []
      then find_stop (appended_text X q t) (length (output_text q)) (stop (sampling_params_of q)) else None)"

lemma append_token_stages:
  assumes "append_token X q t eos L = (q', text', fin)"
  defines "u \<equiv> appended_text X q t"
  shows "sampling_params_of q' = sampling_params_of q"
    and "text' = slice (output_text q') (num_emitted_chars q) (num_emitted_chars q')"
    and "appended_stop X q t = Some k \<Longrightarrow> fin = Some ''stop'' \<and> output_text q' = take k u"
    and "appended_stop X q t = None \<Longrightarrow> \<exists>y. output_text q' = u @ y \<and> (fin = None \<longrightarrow> y = []) \<and>
       (\<forall>d. fin \<noteq> None \<longrightarrow> detokenizer q = Some d \<longrightarrow> y = snd (detok_flush X (fst (detok_add X d t))))"
    and "detokenizer q = Some d \<Longrightarrow> fin = None \<Longrightarrow> detokenizer q' = Some (fst (detok_add X d t))"
    and "num_emitted_chars q' = (let stops = stop (sampling_params_of q);
        holdback = (if fin \<noteq> None \<or> stops = [] then 0 else int (max_stop_len stops) - 1)
      in nat (max (int (num_emitted_chars q)) (int (length (output_text q')) - holdback)))"
proof -
  have s2: "output_text (extend_text X t (seq_append_token q t)) = u"
    "sampling_params_of (extend_text X t (seq_append_token q t)) = sampling_params_of q"
    "num_emitted_chars (extend_text X t (seq_append_token q t)) = num_emitted_chars q"
    by (simp_all add: u_def appended_text_def extend_text_def seq_append_token_def split: option.split)
  have s1: "output_text (seq_append_token q t) = output_text q" by (simp add: seq_append_token_def)
  have cut: "sampling_params_of (cut_text k s) = sampling_params_of s" "num_emitted_chars (cut_text k s) = num_emitted_chars s"
      "sampling_params_of (flush_text X s) = sampling_params_of s" "num_emitted_chars (flush_text X s) = num_emitted_chars s" for k s
    by (simp_all add: cut_text_def flush_text_def split: option.split)
  note A = assms(1) [unfolded append_token_def Let_def s1 s2]
  show "sampling_params_of q' = sampling_params_of q"
    using A by (auto simp: cut s2)
  show "text' = slice (output_text q') (num_emitted_chars q) (num_emitted_chars q')"
    using A by (auto simp: cut s2)
  show "num_emitted_chars q' = (let stops = stop (sampling_params_of q);
        holdback = (if fin \<noteq> None \<or> stops = [] then 0 else int (max_stop_len stops) - 1)
      in nat (max (int (num_emitted_chars q)) (int (length (output_text q')) - holdback)))"
    using A by (auto simp: cut s2 emit_end_def Let_def)
  show "fin = Some ''stop'' \<and> output_text q' = take k u" if "appended_stop X q t = Some k"
    using A that by (auto simp: appended_stop_def u_def cut_text_def finish_of_def s2 split: if_splits)
  show "\<exists>y. output_text q' = u @ y \<and> (fin = None \<longrightarrow> y = []) \<and>
       (\<forall>d. fin \<noteq> None \<longrightarrow> detokenizer q = Some d \<longrightarrow> y = snd (detok_flush X (fst (detok_add X d t))))"
    if "appended_stop X q t = None"
  proof -
    have "(if stop (sampling_params_of q) \<noteq> [] then find_stop u (length (output_text q)) (stop (sampling_params_of q)) else None) = None"
      using that unfolding appended_stop_def u_def .
    note A' = A [unfolded this cut_text_def option.case]
    show ?thesis
      using A' by (auto simp: flush_text_def s2 split: option.splits if_splits) (auto simp: extend_text_def seq_append_token_def)
  qed
  show "detokenizer q' = Some (fst (detok_add X d t))" if "detokenizer q = Some d" "fin = None"
    using A that by (auto simp: cut_text_def extend_text_def seq_append_token_def finish_of_def split: option.splits if_splits)
qed

lemma slice_extends: "a \<le> b \<Longrightarrow> take b t = take a t @ slice t a b"
  by (simp add: slice_def) (metis append_take_drop_id min.absorb1 take_take)

lemma stream_step:
  assumes ok: "stream_ok q" and ap: "append_token X q t eos L = (q', text', fin)"
  shows "num_emitted_chars q \<le> num_emitted_chars q'" and "num_emitted_chars q' \<le> length (output_text q')"
    and "take (num_emitted_chars q') (output_text q') = take (num_emitted_chars q) (output_text q) @ text'"
    and "fin \<noteq> None \<Longrightarrow> num_emitted_chars q' = length (output_text q')"
    and "fin = None \<Longrightarrow> stream_ok q'"
    and "appended_stop X q t \<noteq> None \<Longrightarrow> clean (stop (sampling_params_of q)) (output_text q')"
proof -
  let ?stops = "stop (sampling_params_of q)" and ?u = "appended_text X q t" and ?n = "num_emitted_chars q"
  note S = append_token_stages [OF ap]
  have ne: "\<forall>st \<in> set ?stops. st \<noteq> []" and cl: "clean ?stops (output_text q)" and n: "?n \<le> length (output_text q)"
    and hold: "?stops \<noteq> [] \<Longrightarrow> ?n = 0 \<or> ?n + max_stop_len ?stops \<le> Suc (length (output_text q))"
    using ok unfolding stream_ok_def Let_def by simp_all
  obtain z where u: "?u = output_text q @ z" by (simp add: appended_text_def)
  have old: "clean ?stops (take (length (output_text q)) ?u)" using cl u by simp
  have kept: "?n \<le> length (output_text q') \<and> take ?n (output_text q') = take ?n (output_text q) \<and>
      (fin = None \<longrightarrow> output_text q' = ?u \<and> clean ?stops ?u) \<and>
      (appended_stop X q t \<noteq> None \<longrightarrow> clean ?stops (output_text q'))"
  proof (cases "appended_stop X q t")
    case (Some k)
    then have stops: "?stops \<noteq> []" "find_stop ?u (length (output_text q)) ?stops = Some k"
      by (simp_all add: appended_stop_def split: if_splits)
    note F = find_stop_Some [OF ne old stops(2)]
    obtain st where st: "st \<in> set ?stops" "occurs ?u st k" "length (output_text q) < k + length st" using F(1) by blast
    have "k \<le> length ?u" using st(2) by (simp add: occurs_def)
    moreover have "?n \<le> k" using hold [OF stops(1)] max_stop_len_ge [OF st(1)] st(3) by linarith
    ultimately show ?thesis using S(3) [OF Some] F(3) n u by (simp add: min_def)
  next
    case None
    have "clean ?stops ?u"
    proof (cases "?stops = []")
      case False
      with None have "find_stop ?u (length (output_text q)) ?stops = None" by (simp add: appended_stop_def)
      then show ?thesis by (rule find_stop_None [OF ne old])
    qed simp
    then show ?thesis using S(4) [OF None] None n u by auto
  qed
  note E = S(6) [unfolded Let_def]
  show le: "?n \<le> num_emitted_chars q'" unfolding E by simp
  have end_le: "num_emitted_chars q' \<le> length (output_text q')" and end_eq: "fin \<noteq> None \<Longrightarrow> num_emitted_chars q' = length (output_text q')"
  proof -
    have M: "1 \<le> max_stop_len ?stops" if "?stops \<noteq> []"
    proof -
      from that obtain st where st: "st \<in> set ?stops" by (cases ?stops) auto
      then have "0 < length st" using ne by blast
      with max_stop_len_ge [OF st] show ?thesis by linarith
    qed
    show "num_emitted_chars q' \<le> length (output_text q')" unfolding E using kept M by auto
    show "num_emitted_chars q' = length (output_text q')" if "fin \<noteq> None" unfolding E using kept that by auto
  qed
  show "num_emitted_chars q' \<le> length (output_text q')" by (rule end_le)
  show "num_emitted_chars q' = length (output_text q')" if "fin \<noteq> None" by (rule end_eq [OF that])
  show "take (num_emitted_chars q') (output_text q') = take ?n (output_text q) @ text'"
    unfolding S(2) slice_extends [OF le] using kept by simp
  show "clean ?stops (output_text q')" if "appended_stop X q t \<noteq> None" using kept that by blast
  show "stream_ok q'" if fin: "fin = None"
  proof -
    have o: "output_text q' = ?u" "clean ?stops ?u" using kept fin by auto
    have "num_emitted_chars q' = 0 \<or> num_emitted_chars q' + max_stop_len ?stops \<le> Suc (length (output_text q'))" if "?stops \<noteq> []"
    proof -
      have eq: "num_emitted_chars q' = nat (max (int ?n) (int (length (output_text q')) - (int (max_stop_len ?stops) - 1)))"
        unfolding E using fin that by simp
      have "?n = 0 \<or> int ?n \<le> int (length (output_text q')) - (int (max_stop_len ?stops) - 1)"
        using hold [OF that] o(1) u by auto
      then show ?thesis unfolding eq by linarith
    qed
    moreover have "length (output_text q') < num_emitted_chars q' + max 1 (max_stop_len ?stops)"
      unfolding E using fin by (simp add: max_stop_len_def) linarith
    ultimately show ?thesis using o ne end_le by (simp add: stream_ok_def Let_def S(1))
  qed
qed

section \<open>The whole stream\<close>

text \<open>\<open>append_token\<close> on one sampled token after the other, up to the one that ends the request.\<close>

fun append_all :: "externals \<Rightarrow> int list \<Rightarrow> int \<Rightarrow> sequence \<Rightarrow> int list \<Rightarrow> sequence \<times> ustr \<times> string option" where
  "append_all X eos L q [] = (q, [], None)"
| "append_all X eos L q (t # ts) =
     (case append_token X q t eos L of
        (q', text, Some fin) \<Rightarrow> (q', text, Some fin)
      | (q', text, None) \<Rightarrow> (case append_all X eos L q' ts of (q'', rest, fin) \<Rightarrow> (q'', text @ rest, fin)))"

lemma append_all_stream:
  assumes "append_all X eos L q ts = (q', text', fin)" and "stream_ok q"
  shows "num_emitted_chars q' \<le> length (output_text q') \<and>
    take (num_emitted_chars q') (output_text q') = take (num_emitted_chars q) (output_text q) @ text' \<and>
    (fin = None \<longrightarrow> stream_ok q') \<and> (fin \<noteq> None \<longrightarrow> num_emitted_chars q' = length (output_text q')) \<and>
    sampling_params_of q' = sampling_params_of q"
  using assms
proof (induction X eos L q ts arbitrary: q' text' fin rule: append_all.induct)
  case (1 X eos L q)
  then show ?case by (auto simp: stream_ok_def Let_def)
next
  case (2 X eos L q t ts)
  obtain q1 x f where a: "append_token X q t eos L = (q1, x, f)" by (cases "append_token X q t eos L") auto
  note T = stream_step [OF "2.prems"(2) a] and P = append_token_stages(1) [OF a]
  show ?case
  proof (cases f)
    case None
    obtain q2 rest f2 where r: "append_all X eos L q1 ts = (q2, rest, f2)" by (cases "append_all X eos L q1 ts") auto
    have "q' = q2" "text' = x @ rest" "fin = f2" using "2.prems"(1) a None r by simp_all
    then show ?thesis using "2.IH" [OF a [symmetric] refl None r T(5) [OF None]] T(3) P by simp
  next
    case (Some _)
    have q: "q' = q1" "text' = x" "fin = f" using "2.prems"(1) a Some by simp_all
    have "f \<noteq> None" using Some by simp
    then show ?thesis unfolding q using T(2-4) P by blast
  qed
qed

text \<open>Without stop strings the text is the decoded output, and the detokenizer holds every token.\<close>

lemma append_token_tokens:
  "append_token X q t eos L = (q', text', fin) \<Longrightarrow> output_token_ids q' = output_token_ids q @ [t]"
  using append_token_text_only [of X q t eos L q' text' fin] by (auto simp: text_only_def seq_append_token_def)

lemma append_all_decode:
  assumes "append_all X eos L q ts = (q', text', fin)" and "stop (sampling_params_of q) = []" and inc: "incremental X"
    and "detokenizer q = Some d" and "detok_ok X d (output_text q)" and "detok_ids d = output_token_ids q" and "fin \<noteq> None"
  shows "output_text q' = decode X (output_token_ids q')"
  using assms
proof (induction X eos L q ts arbitrary: d q' text' fin rule: append_all.induct)
  case (2 X eos L q t ts)
  obtain q1 x f where a: "append_token X q t eos L = (q1, x, f)" by (cases "append_token X q t eos L") auto
  obtain d1 y where add: "detok_add X d t = (d1, y)" by (cases "detok_add X d t")
  note D = detok_add_ok [OF "2.prems"(3,5) add] and S = append_token_stages [OF a] and O = append_token_tokens [OF a]
  have none: "appended_stop X q t = None" using "2.prems"(2) by (simp add: appended_stop_def)
  have u: "appended_text X q t = output_text q @ y" using "2.prems"(4) add by (simp add: appended_text_def)
  show ?case
  proof (cases f)
    case None
    obtain q2 rest f2 where r: "append_all X eos L q1 ts = (q2, rest, f2)" by (cases "append_all X eos L q1 ts") auto
    have q: "q' = q2" "fin = f2" using "2.prems"(1) a None r by simp_all
    have o: "output_text q1 = output_text q @ y" using S(4) [OF none] None u by auto
    have d: "detokenizer q1 = Some d1" using S(5) [OF "2.prems"(4) None] add by simp
    show ?thesis
      using "2.IH" [OF a [symmetric] refl None r, of d1] "2.prems" D q o d O S(1) by simp
  next
    case (Some _)
    have q: "q' = q1" using "2.prems"(1) a Some by simp
    obtain d2 z where fl: "detok_flush X d1 = (d2, z)" by (cases "detok_flush X d1")
    have "output_text q1 = output_text q @ y @ z" using S(4) [OF none] "2.prems"(4) Some u add fl by auto
    then show ?thesis using detok_flush_ok [OF "2.prems"(3) D(1) fl] D(2) "2.prems"(6) q O by simp
  qed
qed simp

end
