(* ===== verification/Text_Props.thy ===== *)
theory Text_Props
  imports Text_Stream Examples
begin

text \<open>
  The text a client receives: stop strings, the incremental stream, and its agreement with one decode
  of all output tokens.
\<close>

section \<open>A decoder with two-token characters\<close>

text \<open>Token 200 is the first half of a character, as the lead byte of a two-byte UTF-8 sequence is.\<close>

fun ex_decode :: "int list \<Rightarrow> ustr" where
  "ex_decode [] = []"
| "ex_decode [t] = (if t = 200 then [fffd] else [nat t])"
| "ex_decode (t # u # ts) = (if t = 200 then nat (200 + u) # ex_decode ts else nat t # ex_decode (u # ts))"

definition ex_text_ext :: externals where
  "ex_text_ext = ex_ext\<lparr>decode := ex_decode\<rparr>"

lemma ends_Cons: "xs \<noteq> [] \<Longrightarrow> ends_with_fffd (x # xs) = ends_with_fffd xs"
  by (simp add: ends_with_fffd_def)

lemma ex_decode_ne: "ts \<noteq> [] \<Longrightarrow> ex_decode ts \<noteq> []"
  by (cases ts rule: ex_decode.cases) auto

lemma ex_decode_append: "\<not> ends_with_fffd (ex_decode a) \<Longrightarrow> ex_decode (a @ b) = ex_decode a @ ex_decode b"
proof (induction a rule: ex_decode.induct)
  case (2 t)
  then show ?case by (cases b) (auto simp: ends_with_fffd_def split: if_splits)
next
  case (3 t u ts)
  show ?case
  proof (cases "t = 200")
    case True
    have "\<not> ends_with_fffd (ex_decode ts)"
    proof (cases "ts = []")
      case False
      then show ?thesis using 3(3) True ends_Cons [OF ex_decode_ne] by simp
    qed (simp add: ends_with_fffd_def)
    then show ?thesis using 3(1) True by simp
  next
    case False
    have "\<not> ends_with_fffd (ex_decode (u # ts))" using 3(3) False ends_Cons [OF ex_decode_ne, of "u # ts"] by simp
    then show ?thesis using 3(2) False by simp
  qed
qed simp

lemma ex_incremental: "incremental ex_text_ext"
  by (simp add: incremental_def ex_text_ext_def ex_decode_append)

definition ex_text_seq :: "ustr list \<Rightarrow> sequence" where
  "ex_text_seq stops = (new_sequence 0 [7] (ex_params\<lparr>stop := stops, max_tokens := 5\<rparr>) 0 None)\<lparr>detokenizer := Some init_detok\<rparr>"

definition ex_text_at :: "ustr list \<Rightarrow> int list \<Rightarrow> nat \<Rightarrow> nat \<Rightarrow> ustr \<Rightarrow> nat \<Rightarrow> sequence" where
  "ex_text_at stops toks a b t n = (ex_text_seq stops)\<lparr>token_ids := 7 # toks, output_token_ids := toks,
     detokenizer := Some \<lparr>detok_ids = toks, prefix_offset = a, read_offset = b\<rparr>, output_text := t, num_emitted_chars := n\<rparr>"

lemma ex_text_append:
  "seq_append_token (ex_text_at s toks a b t n) u
     = ex_text_at s (toks @ [u]) a b t n\<lparr>detokenizer := Some \<lparr>detok_ids = toks, prefix_offset = a, read_offset = b\<rparr>\<rparr>"
  by (simp add: seq_append_token_def ex_text_at_def)

lemma ex_text_fields [simp]:
  "output_text (ex_text_at s toks a b t n) = t" "num_emitted_chars (ex_text_at s toks a b t n) = n"
  "sampling_params_of (ex_text_at s toks a b t n) = ex_params\<lparr>stop := s, max_tokens := 5\<rparr>"
  "num_tokens (ex_text_at s toks a b t n) = 1 + int (length toks)" "num_output_tokens (ex_text_at s toks a b t n) = int (length toks)"
  "output_token_ids (ex_text_at s toks a b t n) = toks"
  by (simp_all add: ex_text_at_def ex_text_seq_def new_sequence_def num_tokens_def num_output_tokens_def)

lemma ex_text_updates [simp]:
  "ex_text_at s toks a b t n\<lparr>num_emitted_chars := m\<rparr> = ex_text_at s toks a b t m"
  "ex_text_at s toks a b t n\<lparr>output_text := t'\<rparr> = ex_text_at s toks a b t' n"
  "flush_text X (ex_text_at s toks a b t n)
     = ex_text_at s toks (length toks) (length toks) (t @ snd (detok_flush X \<lparr>detok_ids = toks, prefix_offset = a, read_offset = b\<rparr>)) n"
  by (simp_all add: ex_text_at_def flush_text_def detok_flush_def Let_def)

lemma ex_text_extend:
  "detok_add X \<lparr>detok_ids = toks, prefix_offset = a, read_offset = b\<rparr> u
     = (\<lparr>detok_ids = toks @ [u], prefix_offset = a', read_offset = b'\<rparr>, x) \<Longrightarrow>
   extend_text X u (seq_append_token (ex_text_at s toks a b t n) u) = ex_text_at s (toks @ [u]) a' b' (t @ x) n"
  by (simp add: extend_text_def ex_text_append) (simp add: ex_text_at_def)

lemma ex_text_run:
  assumes "detok_add X \<lparr>detok_ids = toks, prefix_offset = a, read_offset = b\<rparr> u
     = (\<lparr>detok_ids = toks @ [u], prefix_offset = a', read_offset = b'\<rparr>, x)"
    and "s \<noteq> [] \<longrightarrow> find_stop (t @ x) (length t) s = None"
    and "finish_of None u eos L (ex_text_at s (toks @ [u]) a' b' (t @ x) n) = None"
    and "emit_end None (ex_text_at s (toks @ [u]) a' b' (t @ x) n) = m"
  shows "append_token X (ex_text_at s toks a b t n) u eos L
     = (ex_text_at s (toks @ [u]) a' b' (t @ x) m, slice (t @ x) n m, None)"
  unfolding append_token_def Let_def ex_text_extend [OF assms(1)]
  using assms(2-4) by (cases "s = []") (auto simp: cut_text_def ex_text_append)

lemma ex_text_end:
  assumes "detok_add X \<lparr>detok_ids = toks, prefix_offset = a, read_offset = b\<rparr> u
     = (\<lparr>detok_ids = toks @ [u], prefix_offset = a', read_offset = b'\<rparr>, x)"
    and "finish_of None u eos L (ex_text_at [] (toks @ [u]) a' b' (t @ x) n) = Some f"
    and "snd (detok_flush X \<lparr>detok_ids = toks @ [u], prefix_offset = a', read_offset = b'\<rparr>) = y"
    and "n \<le> length (t @ x @ y)" and "k = Suc (length toks)" and "m = length (t @ x @ y)"
  shows "append_token X (ex_text_at [] toks a b t n) u eos L
     = (ex_text_at [] (toks @ [u]) k k (t @ x @ y) m, slice (t @ x @ y) n m, Some f)"
  unfolding append_token_def Let_def ex_text_extend [OF assms(1)]
  using assms(2-6) by (simp add: cut_text_def ex_text_append emit_end_def of_nat_add [symmetric] del: of_nat_add)

lemmas ex_text_eval = detok_add_def Let_def slice_def ends_with_fffd_def fffd_def find_stop_def find_stop_one_def
  py_find_def finish_of_def emit_end_def max_stop_len_def detok_flush_def ex_text_ext_def ex_params_def

lemma ex_text_seq_at: "ex_text_seq s = ex_text_at s [] 0 0 [] 0"
  by (simp add: ex_text_at_def ex_text_seq_def new_sequence_def init_detok_def)

lemma ex_stops:
  "append_token ex_text_ext (ex_text_at [[33, 33]] [] 0 0 [] 0) 200 [0] 100 = (ex_text_at [[33, 33]] [200] 0 0 [] 0, [], None)"
  "append_token ex_text_ext (ex_text_at [[33, 33]] [200] 0 0 [] 0) 33 [0] 100 = (ex_text_at [[33, 33]] [200, 33] 0 2 [233] 0, [], None)"
  "append_token ex_text_ext (ex_text_at [[33, 33]] [200, 33] 0 2 [233] 0) 33 [0] 100
     = (ex_text_at [[33, 33]] [200, 33, 33] 2 3 [233, 33] 1, [233], None)"
proof -
  show "append_token ex_text_ext (ex_text_at [[33, 33]] [] 0 0 [] 0) 200 [0] 100 = (ex_text_at [[33, 33]] [200] 0 0 [] 0, [], None)"
    by (subst ex_text_run [where x = "[]" and m = 0 and a' = 0 and b' = 0]; simp add: ex_text_eval upt_conv_Cons)
  show "append_token ex_text_ext (ex_text_at [[33, 33]] [200] 0 0 [] 0) 33 [0] 100 = (ex_text_at [[33, 33]] [200, 33] 0 2 [233] 0, [], None)"
    by (subst ex_text_run [where x = "[233]" and m = 0 and a' = 0 and b' = 2]; simp add: ex_text_eval upt_conv_Cons)
  show "append_token ex_text_ext (ex_text_at [[33, 33]] [200, 33] 0 2 [233] 0) 33 [0] 100
     = (ex_text_at [[33, 33]] [200, 33, 33] 2 3 [233, 33] 1, [233], None)"
    by (subst ex_text_run [where x = "[33]" and m = 1 and a' = 2 and b' = 3]; simp add: ex_text_eval upt_conv_Cons)
qed

lemma ex_plain:
  "append_token ex_text_ext (ex_text_at [] [] 0 0 [] 0) 200 [0] 100 = (ex_text_at [] [200] 0 0 [] 0, [], None)"
  "append_token ex_text_ext (ex_text_at [] [200] 0 0 [] 0) 33 [0] 100 = (ex_text_at [] [200, 33] 0 2 [233] 1, [233], None)"
  "append_token ex_text_ext (ex_text_at [] [200, 33] 0 2 [233] 1) 0 [0] 100 = (ex_text_at [] [200, 33, 0] 3 3 [233, 0] 2, [0], Some ''stop'')"
proof -
  show "append_token ex_text_ext (ex_text_at [] [] 0 0 [] 0) 200 [0] 100 = (ex_text_at [] [200] 0 0 [] 0, [], None)"
    by (subst ex_text_run [where x = "[]" and m = 0 and a' = 0 and b' = 0]; simp add: ex_text_eval)
  show "append_token ex_text_ext (ex_text_at [] [200] 0 0 [] 0) 33 [0] 100 = (ex_text_at [] [200, 33] 0 2 [233] 1, [233], None)"
    by (subst ex_text_run [where x = "[233]" and m = 1 and a' = 0 and b' = 2]; simp add: ex_text_eval)
  show "append_token ex_text_ext (ex_text_at [] [200, 33] 0 2 [233] 1) 0 [0] 100 = (ex_text_at [] [200, 33, 0] 3 3 [233, 0] 2, [0], Some ''stop'')"
    by (subst ex_text_end [where x = "[0]" and m = 2 and a' = 2 and b' = 3 and y = "[]" and f = "''stop''" and k = 3]; simp add: ex_text_eval)
qed

lemma ex_streamed:
  "append_all ex_text_ext [0] 100 (ex_text_seq [[33, 33]]) [200, 33, 33] = (ex_text_at [[33, 33]] [200, 33, 33] 2 3 [233, 33] 1, [233], None)"
  by (simp add: ex_text_seq_at ex_stops del: One_nat_def)

lemma ex_decoded:
  "append_all ex_text_ext [0] 100 (ex_text_seq []) [200, 33, 0] = (ex_text_at [] [200, 33, 0] 3 3 [233, 0] 2, [233, 0], Some ''stop'')"
  by (simp add: ex_text_seq_at ex_plain del: One_nat_def)

section \<open>Properties\<close>

text \<open>On a text whose earlier part holds no stop string, \<open>_find_stop\<close> searches only the end
  of the text and still finds the leftmost occurrence of any stop string, or none when there is none.\<close>

lemma find_stop_leftmost:
  assumes "\<forall>st \<in> set stops. st \<noteq> []" and "clean stops (take prev t)"
  shows "(find_stop t prev stops = None \<longleftrightarrow> clean stops t) \<and>
     (\<forall>k. find_stop t prev stops = Some k \<longrightarrow>
        (\<exists>st \<in> set stops. occurs t st k) \<and> (\<forall>st \<in> set stops. \<forall>i. occurs t st i \<longrightarrow> k \<le> i))"
proof (cases "find_stop t prev stops")
  case None
  then show ?thesis using find_stop_None [OF assms None] by simp
next
  case (Some k)
  note F = find_stop_Some [OF assms Some]
  then have "\<not> clean stops t" by (auto simp: clean_def)
  then show ?thesis using Some F(1,2) by auto
qed

text \<open>C19: whatever tokens are sampled, the texts returned for a request add up to a prefix of its
  output text that is never taken back: while it runs the text holds no stop string and at most the
  length of the longest stop string less one is held back; when it ends everything has been sent.\<close>

theorem streamed_text:
  assumes "sampling_params_post_init params = Inr params"
    and "append_all X eos L ((new_sequence i prompt params arrival prio)\<lparr>detokenizer := d\<rparr>) ts = (q, text', fin)"
  shows "text' = take (num_emitted_chars q) (output_text q) \<and>
     (fin \<noteq> None \<longrightarrow> text' = output_text q) \<and>
     (fin = None \<longrightarrow> clean (stop params) (output_text q) \<and> length (output_text q) < length text' + max 1 (max_stop_len (stop params)))"
proof -
  let ?q = "(new_sequence i prompt params arrival prio)\<lparr>detokenizer := d\<rparr>"
  have ne: "\<forall>st \<in> set (stop params). st \<noteq> []"
    using assms(1) by (auto simp: sampling_params_post_init_def list_ex_iff split: if_splits)
  then have "\<not> occurs [] st i" if "st \<in> set (stop params)" for st i using that by (auto simp: occurs_def)
  then have ok: "stream_ok ?q" using ne by (simp add: stream_ok_def new_sequence_def clean_def)
  note S = append_all_stream [OF assms(2) ok]
  have t: "take (num_emitted_chars q) (output_text q) = text'" "sampling_params_of q = params" "num_emitted_chars q \<le> length (output_text q)"
    using S by (simp_all add: new_sequence_def)
  have run: "stream_ok q" if "fin = None" using S that by blast
  have done': "num_emitted_chars q = length (output_text q)" if "fin \<noteq> None" using S that by blast
  have "clean (stop params) (output_text q) \<and> length (output_text q) < length text' + max 1 (max_stop_len (stop params))" if "fin = None"
    using run [OF that] t(3) unfolding t(1) [symmetric] by (simp add: stream_ok_def Let_def t(2) min_def)
  moreover have "text' = output_text q" if "fin \<noteq> None" using done' [OF that] t(1) by simp
  ultimately show ?thesis using t(1) [symmetric] by blast
qed

theorem streamed_text_witness:
  "output_text (fst (append_all ex_text_ext [0] 100 (ex_text_seq [[33, 33]]) [200, 33, 33])) = [233, 33] \<and>
   [233] = take 1 [233, 33::nat] \<and> clean [[33, 33]] [233, 33]"
proof -
  have p: "sampling_params_post_init (ex_params\<lparr>stop := [[33, 33]], max_tokens := 5\<rparr>) = Inr (ex_params\<lparr>stop := [[33, 33]], max_tokens := 5\<rparr>)"
    by (simp add: sampling_params_post_init_def ex_params_def pyfloat_defs)
  show ?thesis
    using streamed_text [OF p ex_streamed [unfolded ex_text_seq_def]] ex_streamed by simp
qed

text \<open>C20: for a byte-level tokenizer the text of a finished request without stop strings is what
  one decode of all its output tokens gives, although it was sent token by token with only a small
  window decoded each time.\<close>

theorem text_is_decode:
  assumes "incremental X" and "stop params = []"
    and "append_all X eos L ((new_sequence i prompt params arrival prio)\<lparr>detokenizer := Some init_detok\<rparr>) ts = (q, text', Some fin)"
  shows "text' = decode X (output_token_ids q) \<and> output_text q = text'"
proof -
  let ?q = "(new_sequence i prompt params arrival prio)\<lparr>detokenizer := Some init_detok\<rparr>"
  have ok: "stream_ok ?q" using assms(2) by (simp add: stream_ok_def new_sequence_def)
  have "detok_ok X init_detok (output_text ?q)" using detok_ok_init [OF assms(1)] by (simp add: new_sequence_def)
  moreover have "stop (sampling_params_of ?q) = []" using assms(2) by (simp add: new_sequence_def)
  ultimately have "output_text q = decode X (output_token_ids q)"
    using append_all_decode [OF assms(3) _ assms(1), of init_detok] by (simp add: new_sequence_def init_detok_def)
  moreover have "text' = output_text q"
  proof -
    note S = append_all_stream [OF assms(3) ok]
    have "take (num_emitted_chars q) (output_text q) = take (num_emitted_chars ?q) (output_text ?q) @ text'" using S by blast
    then have "take (num_emitted_chars q) (output_text q) = text'" by (simp add: new_sequence_def)
    moreover have "num_emitted_chars q = length (output_text q)" using S by blast
    ultimately show ?thesis by simp
  qed
  ultimately show ?thesis by simp
qed

theorem text_is_decode_witness:
  "[233, 0] = decode ex_text_ext [200, 33, 0] \<and>
   output_text (fst (append_all ex_text_ext [0] 100 (ex_text_seq []) [200, 33, 0])) = [233, 0]"
  using text_is_decode [OF ex_incremental _ ex_decoded [unfolded ex_text_seq_def]] ex_decoded by simp

end
