(* ===== verification/Plan_Lemmas.thy ===== *)
theory Plan_Lemmas
  imports Model_Runner Index_Lemmas
begin

text \<open>
  The arithmetic around a step: the 32-bit page index a FlashInfer plan is built from, the padded buffers
  of a captured graph, and the prompt lengths of the profiling batch.
\<close>

section \<open>The page index\<close>

lemma sint_word: "0 \<le> x \<Longrightarrow> x < 2 ^ 31 \<Longrightarrow> sint (word_of_int x :: 32 word) = x"
  by (simp add: signed_of_int signed_take_bit_int_eq_self)

lemma sint_nat: "k < 2 ^ 31 \<Longrightarrow> sint (of_nat k :: 32 word) = int k"
  using sint_word [of "int k"] by simp

lemma offsets_le: "x \<in> set (offsets a ns) \<Longrightarrow> x \<le> a + sum_list ns"
  by (induction ns arbitrary: a) fastforce+

text \<open>What a kernel reads back: row \<open>i\<close>'s pages and the number of positions they hold.\<close>

definition index_pages :: "page_index \<Rightarrow> nat \<Rightarrow> nat list" where
  "index_pages p i = map (nat \<circ> sint) (py_slice (indices p) (nat (sint (indptr p ! i))) (nat (sint (indptr p ! Suc i))))"

definition index_len :: "page_index \<Rightarrow> nat \<Rightarrow> nat \<Rightarrow> int" where
  "index_len p bs i = (int (length (index_pages p i)) - 1) * int bs + sint (last_page_len p ! i)"

lemma index_pages_ok:
  assumes small: "sum_list (map length tables) < 2 ^ 31" "\<forall>t \<in> set tables. \<forall>b \<in> set t. b < 2 ^ 31" and i: "i < length tables"
  shows "index_pages (paged_kv_index tables lens bs) i = tables ! i"
proof -
  let ?o = "offsets 0 (map length tables)"
  have len: "length ?o = Suc (length tables)" by simp
  have o: "nat (sint (map of_nat ?o ! j :: 32 word)) = ?o ! j" if "j < length ?o" for j
  proof -
    have "?o ! j \<le> sum_list (map length tables)" using offsets_le [of "?o ! j" 0] nth_mem [OF that] by simp
    then have "?o ! j < 2 ^ 31" using small(1) by linarith
    from sint_nat [OF this] show ?thesis using that by simp
  qed
  have "py_slice (map of_nat (concat tables)) (?o ! i) (?o ! Suc i) = (map of_nat (py_slice (concat tables) (?o ! i) (?o ! Suc i)) :: 32 word list)"
    by (simp add: py_slice_def take_map drop_map)
  also have "py_slice (concat tables) (?o ! i) (?o ! Suc i) = tables ! i"
    using slice_concat_map [where f = "\<lambda>t. t" and n = length and xs = tables, OF i] by simp
  finally have s: "py_slice (map of_nat (concat tables)) (?o ! i) (?o ! Suc i) = (map of_nat (tables ! i) :: 32 word list)" .
  have "nat (sint (of_nat b :: 32 word)) = b" if "b \<in> set (tables ! i)" for b
  proof -
    have "b < 2 ^ 31" using that small(2) nth_mem [OF i] by blast
    from sint_nat [OF this] show ?thesis by simp
  qed
  then have "map (nat \<circ> sint) (map of_nat (tables ! i) :: 32 word list) = tables ! i"
    by (simp add: map_idI)
  then show ?thesis
    using o [of i] o [of "Suc i"] len i s by (simp add: index_pages_def paged_kv_index_def)
qed

lemma index_len_ok:
  assumes small: "sum_list (map length tables) < 2 ^ 31" "\<forall>t \<in> set tables. \<forall>b \<in> set t. b < 2 ^ 31" "int bs < 2 ^ 31"
    and i: "i < length tables" and len: "length lens = length tables" and bs: "0 < bs" and pos: "0 < lens ! i"
    and pages: "int (length (tables ! i)) = ceil_div (int (lens ! i)) bs"
  shows "index_len (paged_kv_index tables lens bs) bs i = int (lens ! i)"
    and "1 \<le> sint (last_page_len (paged_kv_index tables lens bs) ! i)" "sint (last_page_len (paged_kv_index tables lens bs) ! i) \<le> int bs"
proof -
  let ?n = "int (lens ! i)" and ?t = "int (length (tables ! i))"
  have up: "?n \<le> ?t * int bs" using pages ceil_div_le_iff [OF bs, of ?n ?t] by simp
  have lo: "(?t - 1) * int bs < ?n" using pages ceil_div_le_iff [OF bs, of ?n "?t - 1"] by simp
  have r: "1 \<le> ?n - (?t - 1) * int bs" "?n - (?t - 1) * int bs \<le> int bs" using up lo by (simp_all add: left_diff_distrib)
  have w: "sint (last_page_len (paged_kv_index tables lens bs) ! i) = ?n - (?t - 1) * int bs"
  proof -
    have "last_page_len (paged_kv_index tables lens bs) ! i = word_of_int (?n - (?t - 1) * int bs)"
      using i len by (simp add: paged_kv_index_def)
    moreover have "?n - (?t - 1) * int bs < 2 ^ 31" using r(2) small(3) by linarith
    ultimately show ?thesis using r(1) sint_word [of "?n - (?t - 1) * int bs"] by simp
  qed
  show "index_len (paged_kv_index tables lens bs) bs i = ?n"
    unfolding index_len_def index_pages_ok [OF small(1,2) i] w by simp
  show "1 \<le> sint (last_page_len (paged_kv_index tables lens bs) ! i)" "sint (last_page_len (paged_kv_index tables lens bs) ! i) \<le> int bs"
    unfolding w by (rule r)+
qed

section \<open>Buckets and padding\<close>

lemma last_buckets [simp]: "last (graph_buckets m) = m"
  by (simp add: graph_buckets_def)

lemma sorted_buckets: "sorted (graph_buckets m)"
proof -
  have "sorted bucket_sizes" by (simp add: bucket_sizes_def)
  then have "sorted (filter (\<lambda>b. b < m) bucket_sizes)" by (rule sorted_wrt_filter)
  then show ?thesis by (auto simp: graph_buckets_def sorted_append)
qed

lemma find_least:
  "sorted xs \<Longrightarrow> x \<in> set xs \<Longrightarrow> P x \<Longrightarrow> \<exists>y. List.find P xs = Some y \<and> y \<in> set xs \<and> P y \<and> (\<forall>z \<in> set xs. P z \<longrightarrow> y \<le> z)"
  by (induction xs) auto

lemma pick_bucket_ok:
  assumes "n \<le> m"
  shows "\<exists>sz. pick_bucket (graph_buckets m) n = Inr sz \<and> n \<le> sz \<and> sz \<le> m \<and> sz \<in> set (graph_buckets m) \<and>
     (\<forall>k \<in> set (graph_buckets m). n \<le> k \<longrightarrow> sz \<le> k)"
proof -
  have m: "m \<in> set (graph_buckets m)" by (simp add: graph_buckets_def)
  obtain sz where "List.find (\<lambda>b. b \<ge> n) (graph_buckets m) = Some sz" "sz \<in> set (graph_buckets m)" "n \<le> sz"
    "\<forall>k \<in> set (graph_buckets m). n \<le> k \<longrightarrow> sz \<le> k"
    using find_least [OF sorted_buckets m, of "\<lambda>b. b \<ge> n"] assms by auto
  then show ?thesis using m assms by (intro exI [of _ sz]) (simp add: pick_bucket_def)
qed

definition decodes :: "nat \<Rightarrow> nat \<Rightarrow> sequence \<Rightarrow> bool" where
  "decodes bs L q \<longleftrightarrow> 0 \<le> num_computed_tokens q \<and> num_computed_tokens q < num_tokens q \<and> num_computed_tokens q < int L \<and>
     ceil_div (num_computed_tokens q + 1) bs \<le> int (length (block_table q))"

lemma graph_row_ok:
  assumes bs: "0 < bs" and d: "decodes bs L q"
  shows "\<exists>t slot table. graph_row bs q = Inr (t, nat (num_computed_tokens q), slot, table) \<and>
     slot = slot_at bs (block_table q) (nat (num_computed_tokens q)) \<and>
     1 \<le> length table \<and> int (length table) \<le> ceil_div (int L) bs"
proof -
  let ?p = "nat (num_computed_tokens q)"
  have p: "?p < length (token_ids q)" "?p < L" using d unfolding decodes_def num_tokens_def by linarith+
  have "int (?p + 1) \<le> int (length (block_table q)) * int bs"
    using d ceil_div_le_iff [OF bs, of "num_computed_tokens q + 1" "int (length (block_table q))"] by (simp add: decodes_def)
  then have pt: "?p < length (block_table q) * bs" by (metis Suc_eq_plus1 Suc_le_lessD of_nat_le_iff of_nat_mult)
  define c where "c = ceil_div (int (?p + 1)) bs"
  have "int (?p + 1) = num_computed_tokens q + 1" using d by (simp add: decodes_def)
  then have c: "c \<le> int (length (block_table q))" using d by (simp only: c_def decodes_def)
  have "0 < int (?p + 1)" by simp
  from ceil_div_pos [OF bs this] have one: "1 \<le> c" unfolding c_def by linarith
  then have tt: "length (trim_table bs q (?p + 1)) = nat (ceil_div (int (?p + 1)) bs)"
    using c unfolding trim_table_def c_def [symmetric] by (simp add: py_prefix_nonneg)
  have "1 \<le> ceil_div (int (?p + 1)) bs" using one by (simp only: c_def)
  moreover have "ceil_div (int (?p + 1)) bs \<le> ceil_div (int L) bs" by (rule ceil_div_mono) (use p(2) bs in linarith)+
  ultimately show ?thesis
    using p(1) slot_of_ok [OF bs pt] tt by (simp add: graph_row_def Let_def list_get_def)
qed

text \<open>Padding rows read and write the scratch page only, and the index fits the captured buffers.\<close>

lemma graph_prepare_ok:
  assumes bs: "0 < bs" and L: "0 < L" and d: "\<forall>r \<in> set (b_seqs b). decodes bs L (st r)" and n: "length (b_seqs b) \<le> sz"
  shows "\<exists>gi. graph_prepare bs scratch sz st b = Inr gi \<and>
     length (gi_ids gi) = sz \<and> length (gi_positions gi) = sz \<and> length (gi_slots gi) = sz \<and> length (gi_tables gi) = sz \<and>
     (\<forall>i < length (b_seqs b). gi_slots gi ! i
        = slot_at bs (block_table (st (b_seqs b ! i))) (nat (num_computed_tokens (st (b_seqs b ! i))))) \<and>
     (\<forall>i < sz. length (b_seqs b) \<le> i \<longrightarrow> gi_slots gi ! i = scratch * bs \<and> gi_tables gi ! i = [scratch] \<and> gi_kv_lens gi ! i = 1) \<and>
     int (sum_list (map length (gi_tables gi))) \<le> int sz * ceil_div (int L) bs"
proof -
  define row_ok where "row_ok = (\<lambda>r (row :: int \<times> nat \<times> nat \<times> nat list).
     fst (snd (snd row)) = slot_at bs (block_table (st r)) (nat (num_computed_tokens (st r))) \<and>
     int (length (snd (snd (snd row)))) \<le> ceil_div (int L) bs)"
  have rows: "\<exists>rows. mapM (\<lambda>r. graph_row bs (st r)) rs = Inr rows \<and> list_all2 row_ok rs rows"
    if "\<forall>r \<in> set rs. decodes bs L (st r)" for rs
    using that
  proof (induction rs)
    case (Cons r rs)
    then obtain rows where "mapM (\<lambda>r. graph_row bs (st r)) rs = Inr rows" "list_all2 row_ok rs rows" by auto
    moreover obtain t slot table where "graph_row bs (st r) = Inr (t, nat (num_computed_tokens (st r)), slot, table)"
      "slot = slot_at bs (block_table (st r)) (nat (num_computed_tokens (st r)))" "int (length table) \<le> ceil_div (int L) bs"
      using graph_row_ok [OF bs, of L "st r"] Cons.prems by auto
    ultimately show ?case
      by (intro exI [of _ "(t, nat (num_computed_tokens (st r)), slot, table) # rows"]) (simp add: row_ok_def)
  qed simp
  from rows [OF d] obtain rows where m: "mapM (\<lambda>r. graph_row bs (st r)) (b_seqs b) = Inr rows" and all: "list_all2 row_ok (b_seqs b) rows"
    by blast
  have len: "length rows = length (b_seqs b)" using list_all2_lengthD [OF all] by simp
  define gi where "gi = graph_pad bs scratch sz rows"
  have k: "length rows \<le> sz" using n len by simp
  have one: "1 \<le> ceil_div (int L) bs" using ceil_div_pos [OF bs, of "int L"] L by simp
  define tables where "tables = map (snd \<circ> snd \<circ> snd) rows"
  define pad where "pad = sz - length rows"
  define c where "c = ceil_div (int L) bs"
  have real: "int (sum_list (map length tables)) \<le> int (length rows) * c"
    unfolding tables_def c_def using all
  proof (induction rule: list_all2_induct)
    case (Cons r rs row rows)
    then show ?case by (simp add: row_ok_def left_diff_distrib algebra_simps)
  qed simp
  have "gi_tables gi = tables @ replicate pad [scratch]"
    by (simp add: gi_def graph_pad_def Let_def tables_def pad_def)
  then have total: "int (sum_list (map length (gi_tables gi))) = int (sum_list (map length tables)) + int pad"
    by (simp add: sum_list_replicate)
  have "int pad \<le> int pad * c" using one mult_left_mono [of 1 c "int pad"] by (simp add: c_def)
  moreover have "int sz * c = int (length rows) * c + int pad * c"
    using k by (simp add: pad_def of_nat_diff distrib_right [symmetric])
  ultimately have pages: "int (sum_list (map length (gi_tables gi))) \<le> int sz * ceil_div (int L) bs"
    using real unfolding total c_def [symmetric] by linarith
  have "gi_slots gi ! i = slot_at bs (block_table (st (b_seqs b ! i))) (nat (num_computed_tokens (st (b_seqs b ! i))))"
    if "i < length (b_seqs b)" for i
    using list_all2_nthD [OF all that] that len by (simp add: gi_def graph_pad_def Let_def nth_append row_ok_def)
  moreover have "gi_slots gi ! i = scratch * bs \<and> gi_tables gi ! i = [scratch] \<and> gi_kv_lens gi ! i = 1"
    if "i < sz" "length (b_seqs b) \<le> i" for i
    using that len by (simp add: gi_def graph_pad_def Let_def nth_append)
  moreover have "graph_prepare bs scratch sz st b = Inr gi" using m by (simp add: graph_prepare_def gi_def)
  moreover have "length (gi_ids gi) = sz" "length (gi_positions gi) = sz" "length (gi_slots gi) = sz" "length (gi_tables gi) = sz"
    using k by (simp_all add: gi_def graph_pad_def Let_def)
  ultimately show ?thesis using pages by blast
qed

section \<open>The profiling batch\<close>

lemma profile_lens_ok:
  assumes "1 \<le> k" and "k \<le> n"
  shows "sum_list (profile_lens n k) = n" and "\<forall>x \<in> set (profile_lens n k). 1 \<le> x" and "length (profile_lens n k) \<le> 16"
proof -
  define d where "d = nat (min k 16)"
  define q where "q = n div min k 16"
  have d: "0 < d" "int d = min k 16" "d \<le> 16" using assms(1) by (simp_all add: d_def)
  have q: "1 \<le> q" "int d * q \<le> n"
  proof -
    have "0 < min k 16" "min k 16 \<le> n" using assms by simp_all
    then show "1 \<le> q" unfolding q_def by (simp add: pos_imp_zdiv_pos_iff int_one_le_iff_zero_less)
    show "int d * q \<le> n" unfolding d(2) q_def using \<open>0 < min k 16\<close> by (metis mult.commute pos_mod_sign minus_mod_eq_mult_div diff_le_eq le_add_same_cancel1)
  qed
  have p: "profile_lens n k = (replicate d q)[d - 1 := q + (n - int d * q)]"
  proof -
    have "sum_list (replicate d q) = int d * q" by (simp add: sum_list_replicate)
    moreover have "last (replicate d q) = q" using d(1) by simp
    ultimately show ?thesis by (simp only: profile_lens_def Let_def d_def [symmetric] q_def [symmetric])
  qed
  have r: "(replicate d q)[d - 1 := x] = replicate (d - 1) q @ [x]" for x
    using d(1) by (cases d) (simp_all add: replicate_append_same [symmetric] list_update_append)
  have "int (d - 1) = int d - 1" using d(1) by simp
  then show "sum_list (profile_lens n k) = n" unfolding p r by (simp add: sum_list_replicate algebra_simps)
  show "\<forall>x \<in> set (profile_lens n k). 1 \<le> x" unfolding p r using q by auto
  show "length (profile_lens n k) \<le> 16" unfolding p using d(3) by simp
qed

end
