(* ===== verification/Runner_Props.thy ===== *)
theory Runner_Props
  imports Plan_Lemmas Engine_Step Examples
begin

text \<open>
  The tensors around a step: the 32-bit page index of a FlashInfer plan, the padded buffers of a CUDA
  graph, the profiling batch, and the two sampling rules.
\<close>

text \<open>C35: the page index of \<open>paged_kv_index\<close> round-trips through its 32-bit integers: while the pages
  in use and their numbers stay below \<open>2 ^ 31\<close>, what a kernel reads back for a row, the slice of
  \<open>indices\<close> between two \<open>indptr\<close> entries and the length computed from \<open>last_page_len\<close>, is the row's
  block table and its number of positions, with a last page neither empty nor over-full.\<close>

theorem page_index_round_trip:
  assumes "sum_list (map length tables) < 2 ^ 31" and "\<forall>t \<in> set tables. \<forall>b \<in> set t. b < 2 ^ 31" and "int bs < 2 ^ 31"
    and "i < length tables" and "length lens = length tables" and "0 < bs" and "0 < lens ! i"
    and "int (length (tables ! i)) = ceil_div (int (lens ! i)) bs"
  shows "index_pages (paged_kv_index tables lens bs) i = tables ! i \<and>
     index_len (paged_kv_index tables lens bs) bs i = int (lens ! i) \<and>
     1 \<le> sint (last_page_len (paged_kv_index tables lens bs) ! i) \<and>
     sint (last_page_len (paged_kv_index tables lens bs) ! i) \<le> int bs"
  using index_pages_ok [OF assms(1,2,4)] index_len_ok [OF assms] by blast

theorem page_index_round_trip_witness:
  "index_pages (paged_kv_index [[7, 2], [5]] [3, 2] 2) 0 = [7, 2] \<and> index_len (paged_kv_index [[7, 2], [5]] [3, 2] 2) 2 0 = 3"
  using page_index_round_trip [of "[[7, 2], [5]]" 2 0 "[3, 2]"] by (simp add: ceil_div_def)





text \<open>The profiling batch has exactly the number of tokens of a full step: its at most sixteen
  prompts are not empty and add up to \<open>max_batch_tokens\<close>, the remainder of the division included.\<close>

lemma profile_batch_full:
  assumes "1 \<le> num_seqs" and "num_seqs \<le> tokens"
  shows "sum_list (profile_lens tokens num_seqs) = tokens \<and> (\<forall>x \<in> set (profile_lens tokens num_seqs). 1 \<le> x) \<and>
     length (profile_lens tokens num_seqs) \<le> 16"
  using profile_lens_ok [OF assms] by blast

text \<open>Every row of the sampler's output is a token of that row, and a greedy row gets the first
  index of its largest logit even when other rows of the batch are sampled; the sampler raises exactly when a
  row overflows at its temperature.\<close>

lemma sampler_greedy_rows:
  assumes "torch_ok T" and "length ps = length rows" and "\<forall>row \<in> set rows. row \<noteq> []"
    and "\<forall>p \<in> set ps. sampling_params_post_init p = Inr p"
  shows "if \<exists>i < length rows. nan_row T (ps ! i) (rows ! i) then sampler_call T g rows (sampler_prepare T ps) = Inl nan_error
    else \<exists>toks g'. sampler_call T g rows (sampler_prepare T ps) = Inr (toks, g') \<and> length toks = length rows \<and>
     (\<forall>i < length rows. 0 \<le> toks ! i \<and> nat (toks ! i) < length (rows ! i) \<and>
        (py_eq (temperature (ps ! i)) 0 \<longrightarrow> (\<forall>j < length (rows ! i). rows ! i ! j \<le> rows ! i ! nat (toks ! i)) \<and>
           (\<forall>j < nat (toks ! i). rows ! i ! j < rows ! i ! nat (toks ! i))))"
proof (cases "\<exists>i < length rows. nan_row T (ps ! i) (rows ! i)")
  case True
  then show ?thesis using sampler_ok [OF assms, of g] by (simp only: if_True)
next
  case False
  obtain toks g' where t: "sampler_call T g rows (sampler_prepare T ps) = Inr (toks, g')" "drawn ps rows toks"
    using sampler_ok [OF assms, of g] unfolding if_not_P [OF False] by blast
  have "(\<forall>j < length row. row ! j \<le> row ! k) \<and> (\<forall>j < k. row ! j < row ! k)" if "row \<in> set rows" "argmax row = Inr k" for row k
    using argmax_spec [of row] assms(3) that by auto
  then show ?thesis using t unfolding if_not_P [OF False] by (intro exI [of _ toks] exI [of _ g']) (simp add: drawn_def)
qed

definition ex_small_torch :: "rat torch" where
  "ex_small_torch = \<lparr>to_float32 = (\<lambda>x. x), softmax_at = (\<lambda>_ row. Some row),
     sort_order = (\<lambda>row. sort_key (\<lambda>i. - (row ! i)) [0..<length row]), manual_seed = nat,
     multinomial = (\<lambda>g rows. (map (\<lambda>_. 0) rows, Suc g))\<rparr>"

definition ex_row :: "rat list" where
  "ex_row = [1 / 4, 1 / 2, 1 / 4]"

text \<open>C34: \<open>top_p_filter\<close> keeps a nucleus: with the row sorted in descending order, the kept tokens are its
  first \<open>K\<close>, their mass reaches \<open>top_p\<close>, without the last of them it does not exceed \<open>top_p\<close>, and the result
  is the row restricted to them and divided by that mass, never a row of NaNs.\<close>

theorem top_p_nucleus:
  fixes row :: "'a::linordered_field list"
  assumes "descending_order row (sort_order T row)" and "\<forall>x \<in> set row. 0 \<le> x" and "0 < q" and "of_rat q \<le> sum_list row"
  shows "\<exists>K. 1 \<le> K \<and> K \<le> length row \<and>
     (let kept = take K (sort_order T row); mass = sum_list (map ((!) row) kept) in
        of_rat q \<le> mass \<and> sum_list (map ((!) row) (butlast kept)) \<le> of_rat q \<and>
        top_p_row T (PyFin q) row = Some (map (\<lambda>i. (if i \<in> set kept then row ! i else 0) / mass) [0..<length row]))"
proof -
  let ?os = "sort_order T row"
  define xs where "xs = map ((!) row) ?os"
  define K where "K = nucleus_size (PyFin q) xs"
  have perm: "mset ?os = mset [0..<length row]" using assms(1) by (simp add: descending_order_def)
  have len: "length ?os = length row" using arg_cong [OF perm, of size] by simp
  have mx: "mset xs = mset row" unfolding xs_def by (rule map_nth_order [OF perm])
  have nn: "\<forall>x \<in> set xs. 0 \<le> x" using assms(2) mset_eq_setD [OF mx] by simp
  have "sum_list xs = sum_list row" using mx by (metis sum_mset_sum_list)
  then have total: "of_rat q \<le> sum_list xs" using assms(4) by simp
  note N = nucleus_mass [OF nn refl assms(3) total, folded K_def]
  have lx: "length xs = length row" using len by (simp add: xs_def)
  have kept: "map ((!) row) (take K ?os) = take K xs" by (simp add: xs_def take_map)
  moreover have "map ((!) row) (butlast (take K ?os)) = take (K - 1) xs"
    using N(2) lx by (simp add: xs_def take_map [symmetric] map_butlast butlast_take)
  moreover have "(0::'a) < of_rat q" using assms(3) by simp
  then have "0 < sum_list row" using assms(4) by linarith
  then have "top_p_row T (PyFin q) row = Some (map (\<lambda>i. (if i \<in> set (take K ?os) then row ! i else 0) / sum_list (take K xs)) [0..<length row])"
    using top_p_row_eq(1) [OF assms(1,2) refl, of q] assms(3) by (simp add: K_def xs_def)
  ultimately show ?thesis using N lx by (intro exI [of _ K]) (simp add: Let_def)
qed

theorem top_p_nucleus_witness:
  "\<exists>K. 1 \<le> K \<and> K \<le> 3 \<and> 3 / 4 \<le> sum_list (map ((!) ex_row) (take K (sort_order ex_small_torch ex_row)))"
proof -
  have "descending_order ex_row (sort_order ex_small_torch ex_row)" "\<forall>x \<in> set ex_row. 0 \<le> x" "of_rat (3 / 4) \<le> sum_list ex_row"
    by (simp_all add: descending_order_def ex_small_torch_def ex_row_def upt_rec of_rat_divide)
  from top_p_nucleus [OF this(1,2) _ this(3)] obtain K where "1 \<le> K" "K \<le> length ex_row"
    "of_rat (3 / 4) \<le> sum_list (map ((!) ex_row) (take K (sort_order ex_small_torch ex_row)))"
    by (auto simp: Let_def)
  then show ?thesis by (intro exI [of _ K]) (simp add: ex_row_def of_rat_divide)
qed

end
