(* ===== verification/Protocol.thy ===== *)
theory Protocol
  imports Engine
begin

text \<open>
  \<open>engine/api/protocol.py\<close> and the synchronous part of the completions handler of
  \<open>engine/api/server.py\<close>: what a request is, what the server refuses, the token ids of its prompt, and
  the checks before a sequence is handed to the engine. Parsing the JSON body is pydantic's.
\<close>

section \<open>Requests\<close>

text \<open>\<open>str | list[int] | list[str] | list[list[int]]\<close> and \<open>str | list[str] | None\<close>.\<close>

datatype prompt_field = PromptText ustr | PromptIds "int list" | PromptTexts "ustr list" | PromptIdLists "int list list"

datatype stop_field = StopText ustr | StopTexts "ustr list"

text \<open>\<open>rq_include_usage\<close> is \<open>stream_options\<close>; \<open>user\<close> is accepted and never read.\<close>

record completion_request =
  rq_model :: string
  rq_prompt :: prompt_field
  rq_max_tokens :: "int option"
  rq_temperature :: pyfloat
  rq_top_p :: pyfloat
  rq_stop :: "stop_field option"
  rq_stream :: bool
  rq_include_usage :: "bool option"
  rq_n :: int
  rq_logprobs :: "int option"
  rq_echo :: bool
  rq_seed :: "int option"
  rq_top_k :: "int option"
  rq_presence_penalty :: "pyfloat option"
  rq_frequency_penalty :: "pyfloat option"
  rq_repetition_penalty :: "pyfloat option"
  rq_ignore_eos :: bool
  rq_priority :: "rat option"

text \<open>The truth value of \<open>float | None\<close>: NaN is true.\<close>

fun float_truthy :: "pyfloat option \<Rightarrow> bool" where
  "float_truthy None = False"
| "float_truthy (Some x) = (\<not> py_eq x 0)"

definition unsupported :: "completion_request \<Rightarrow> string option" where
  "unsupported req =
     (if rq_n req \<noteq> 1 then Some ''n > 1 is not supported''
      else if rq_logprobs req \<noteq> None then Some ''logprobs are not supported''
      else if rq_echo req then Some ''echo is not supported''
      else if rq_seed req \<noteq> None then Some ''per-request seeds are not supported''
      else if rq_top_k req \<notin> {None, Some 0, Some (- 1)} then Some ''top_k is not supported''
      else if float_truthy (rq_presence_penalty req) \<or> float_truthy (rq_frequency_penalty req)
      then Some ''presence and frequency penalties are not supported''
      else if (case rq_repetition_penalty req of None \<Rightarrow> False | Some x \<Rightarrow> \<not> py_eq x 1)
      then Some ''repetition_penalty is not supported''
      else None)"

definition stop_strings :: "completion_request \<Rightarrow> ustr list" where
  "stop_strings req = (case rq_stop req of None \<Rightarrow> [] | Some (StopText s) \<Rightarrow> [s] | Some (StopTexts ss) \<Rightarrow> ss)"

section \<open>Prompts\<close>

text \<open>\<open>tok\<close> is \<open>tokenizer(prompt).input_ids\<close>. A list of one string or of one id list stands for its element.\<close>

function prompt_ids :: "(ustr \<Rightarrow> int list) \<Rightarrow> prompt_field \<Rightarrow> int list result" where
  "prompt_ids tok (PromptText t) = Inr (tok t)"
| "prompt_ids tok (PromptTexts [t]) = prompt_ids tok (PromptText t)"
| "prompt_ids tok (PromptIdLists [ts]) = prompt_ids tok (PromptIds ts)"
| "prompt_ids tok (PromptIds ts) = Inr ts"
| "prompt_ids tok (PromptTexts []) = Inr []"
| "prompt_ids tok (PromptIdLists []) = Inr []"
| "prompt_ids tok (PromptTexts (t # u # ps)) = Inl (ValueError ''batched prompts are not supported: send one prompt per request'')"
| "prompt_ids tok (PromptIdLists (ts # us # ps)) = Inl (ValueError ''batched prompts are not supported: send one prompt per request'')"
  by pat_completeness auto
termination
  by (relation "measure (\<lambda>(tok, p). case p of PromptTexts _ \<Rightarrow> 1 | PromptIdLists _ \<Rightarrow> 1 | _ \<Rightarrow> 0)") simp_all

section \<open>The handler up to the engine\<close>

record error_response =
  er_status :: int
  er_message :: string
  er_type :: string

definition error_reply :: "int \<Rightarrow> string \<Rightarrow> string \<Rightarrow> error_response" where
  "error_reply code message kind = \<lparr>er_status = code, er_message = message, er_type = kind\<rparr>"

definition bad_request :: "string \<Rightarrow> error_response" where
  "bad_request message = error_reply 400 message ''invalid_request_error''"

text \<open>\<open>max_tokens\<close> defaults to what the prompt leaves of the model length.\<close>

definition request_params :: "'a engine \<Rightarrow> completion_request \<Rightarrow> int list \<Rightarrow> sampling_params result" where
  "request_params e req ts =
     sampling_params_post_init \<lparr>temperature = rq_temperature req, top_p = rq_top_p req,
       max_tokens = (case rq_max_tokens req of Some k \<Rightarrow> k | None \<Rightarrow> the (cfg_max_model_len (eng_config e)) - int (length ts)),
       stop = stop_strings req, ignore_eos = rq_ignore_eos req\<rparr>"

text \<open>The body of the \<open>try\<close>: the sequence, made with a fresh number, and the engine after that.\<close>

definition build_sequence ::
  "(ustr \<Rightarrow> int list) \<Rightarrow> rat \<Rightarrow> completion_request \<Rightarrow> 'a engine \<Rightarrow> sequence result \<times> 'a engine" where
  "build_sequence tok arrival req e =
     (case rbind (prompt_ids tok (rq_prompt req)) (\<lambda>ts. rbind (request_params e req ts) (\<lambda>params. Inr (ts, params))) of
        Inl err \<Rightarrow> (Inl err, e)
      | Inr (ts, params) \<Rightarrow>
          (case new_seq_id e of (i, e1) \<Rightarrow>
             let q = new_sequence i ts params arrival (rq_priority req)
             in (rbind (validate e1 q) (\<lambda>_. Inr q), e1)))"

text \<open>
  The refusals are replies, an exception other than \<open>ValueError\<close> is not caught. \<open>repr_of\<close> is Python's
  \<open>repr\<close> of a string.
\<close>

definition completions_start ::
  "(ustr \<Rightarrow> int list) \<Rightarrow> (string \<Rightarrow> string) \<Rightarrow> string \<Rightarrow> rat \<Rightarrow> completion_request \<Rightarrow> 'a engine
     \<Rightarrow> (error_response + sequence) result \<times> 'a engine" where
  "completions_start tok repr_of served_name arrival req e =
     (case unsupported req of
        Some reason \<Rightarrow> (Inr (Inl (bad_request reason)), e)
      | None \<Rightarrow>
          if rq_model req \<noteq> served_name \<and> rq_model req \<noteq> cfg_model (eng_config e)
          then (Inr (Inl (error_reply 404 (''model '' @ repr_of (rq_model req) @ '' is not served here; this server serves '' @
                  repr_of served_name) ''not_found_error'')), e)
          else (case build_sequence tok arrival req e of
                  (Inr q, e1) \<Rightarrow> (Inr (Inr q), e1)
                | (Inl (ValueError message), e1) \<Rightarrow> (Inr (Inl (bad_request message)), e1)
                | (Inl err, e1) \<Rightarrow> (Inl err, e1)))"

section \<open>Answers\<close>

text \<open>What \<open>_stream\<close> sends for the outputs its generator yields: the payloads of its events.\<close>

datatype sse_event =
    ChunkEvent ustr "string option"
  | ErrorEvent string
  | UsageEvent int int int
  | DoneEvent

fun stream_loop :: "int \<Rightarrow> request_output list \<Rightarrow> sse_event list \<times> int" where
  "stream_loop num_output [] = ([], num_output)"
| "stream_loop num_output (out # outs) =
     (case out_error out of
        Some message \<Rightarrow> ([ErrorEvent message], num_output)
      | None \<Rightarrow> (case stream_loop (out_num_output_tokens out) outs of
                   (events, k) \<Rightarrow> (ChunkEvent (out_text out) (out_finish_reason out) # events, k)))"

definition stream_events :: "bool \<Rightarrow> sequence \<Rightarrow> request_output list \<Rightarrow> sse_event list" where
  "stream_events include_usage q outs =
     (case stream_loop 0 outs of (events, num_output) \<Rightarrow>
        events @
        (if include_usage then [UsageEvent (num_prompt_tokens q) num_output (num_prompt_tokens q + num_output)] else []) @
        [DoneEvent])"

text \<open>
  What the non-streaming handler returns: an error reply, or text, finish reason and usage. The identifier
  of the response, its creation time and the model's name are left out.
\<close>

record completion =
  cm_text :: ustr
  cm_finish_reason :: "string option"
  cm_prompt_tokens :: int
  cm_completion_tokens :: int
  cm_total_tokens :: int

fun collect_loop :: "ustr \<Rightarrow> string option \<Rightarrow> int \<Rightarrow> request_output list \<Rightarrow> error_response + ustr \<times> string option \<times> int" where
  "collect_loop txt reason num_output [] = Inr (txt, reason, num_output)"
| "collect_loop txt reason num_output (out # outs) =
     (case out_error out of
        Some message \<Rightarrow> Inl (error_reply 500 message ''server_error'')
      | None \<Rightarrow> collect_loop (txt @ out_text out) (out_finish_reason out) (out_num_output_tokens out) outs)"

definition collect_reply :: "int list \<Rightarrow> request_output list \<Rightarrow> error_response + completion" where
  "collect_reply ts outs =
     (case collect_loop [] None 0 outs of
        Inl err \<Rightarrow> Inl err
      | Inr (txt, reason, k) \<Rightarrow>
          Inr \<lparr>cm_text = txt, cm_finish_reason = reason, cm_prompt_tokens = int (length ts), cm_completion_tokens = k,
               cm_total_tokens = int (length ts) + k\<rparr>)"

end
