(* ===== verification/Server.thy ===== *)
theory Server
  imports Protocol
begin

text \<open>
  \<open>engine/api/server.py\<close>: \<open>AsyncEngine\<close>, the bridge between the handlers and the engine. All tasks
  share one event loop, so what runs between two suspensions is one operation here. A queue is the list
  of the outputs put into it and not yet taken; the dictionary of queues is an association list.
\<close>

section \<open>State\<close>

text \<open>\<open>asleep\<close>: the engine loop is suspended in \<open>has_new_work.wait()\<close>.\<close>

record 'a async_engine =
  inner :: "'a engine"
  output_queues :: "(int \<times> request_output list) list"
  has_new_work :: bool
  asleep :: bool

definition init_async :: "'a engine \<Rightarrow> 'a async_engine" where
  "init_async e = \<lparr>inner = e, output_queues = [], has_new_work = False, asleep = False\<rparr>"

text \<open>\<open>queue.put_nowait(out)\<close> on the queue registered for a number, if there is one.\<close>

definition put_output :: "int \<Rightarrow> request_output \<Rightarrow> 'a async_engine \<Rightarrow> 'a async_engine" where
  "put_output sid out A =
     (case map_of (output_queues A) sid of
        None \<Rightarrow> A
      | Some queue \<Rightarrow> A\<lparr>output_queues := AList.update sid (queue @ [out]) (output_queues A)\<rparr>)"

definition final_output :: "int \<Rightarrow> string \<Rightarrow> string option \<Rightarrow> request_output" where
  "final_output sid reason err =
     \<lparr>out_seq_id = sid, out_token_ids = [], out_text = [], finished = True, out_finish_reason = Some reason,
      out_num_prompt_tokens = 0, out_num_output_tokens = 0, out_error = err\<rparr>"

section \<open>The engine loop\<close>

definition fail_one :: "string \<Rightarrow> 'a async_engine \<Rightarrow> int \<Rightarrow> 'a async_engine result" where
  "fail_one message A sid =
     rbind (eng_abort (inner A) sid) (\<lambda>e. Inr (put_output sid (final_output sid ''error'' (Some message)) (A\<lparr>inner := e\<rparr>)))"

definition fail_all :: "string \<Rightarrow> 'a async_engine \<Rightarrow> 'a async_engine result" where
  "fail_all message A = foldM (fail_one message) A (map fst (output_queues A))"

definition deliver :: "'a async_engine \<Rightarrow> request_output list \<Rightarrow> 'a async_engine" where
  "deliver A outs = foldl (\<lambda>A out. put_output (out_seq_id out) out A) A outs"

text \<open>
  One pass of \<open>run_loop\<close> until the task is suspended or starts over: it falls asleep when there is
  nothing to do, and otherwise steps. \<open>repr_err\<close> is the text of an exception; what a step leaves of the
  engine when it raises is \<open>sampler_failure\<close> if the sampler raised, and the parameter \<open>torn\<close> for an error
  anywhere else, which no state of the server reaches.
\<close>

definition loop_step ::
  "externals \<Rightarrow> 'a torch \<Rightarrow> ('a engine \<Rightarrow> py_error \<Rightarrow> 'a engine) \<Rightarrow> (py_error \<Rightarrow> string) \<Rightarrow> rat \<Rightarrow> ('a::linordered_field) async_engine
     \<Rightarrow> 'a async_engine result" where
  "loop_step X T torn repr_err now A =
     (case eng_step X T now (inner A) of
        Inl err \<Rightarrow> fail_all (''engine error: '' @ repr_err err)
          (A\<lparr>inner := (case sampler_failure X T (inner A) of Some e \<Rightarrow> e | None \<Rightarrow> torn (inner A) err)\<rparr>)
      | Inr (e, outs) \<Rightarrow> Inr (deliver (A\<lparr>inner := e\<rparr>) outs))"

definition loop_turn ::
  "externals \<Rightarrow> 'a torch \<Rightarrow> ('a engine \<Rightarrow> py_error \<Rightarrow> 'a engine) \<Rightarrow> (py_error \<Rightarrow> string) \<Rightarrow> rat \<Rightarrow> ('a::linordered_field) async_engine
     \<Rightarrow> 'a async_engine result" where
  "loop_turn X T torn repr_err now A =
     (if asleep A then
        (if has_new_work A then loop_step X T torn repr_err now (A\<lparr>asleep := False, has_new_work := False\<rparr>) else Inr A)
      else if eng_has_work (inner A) then loop_step X T torn repr_err now A
      else if has_new_work A then loop_step X T torn repr_err now (A\<lparr>has_new_work := False\<rparr>)
      else Inr (A\<lparr>asleep := True\<rparr>))"

section \<open>A request's task\<close>

text \<open>
  \<open>generate\<close> up to its first \<open>queue.get()\<close>: an exception of \<open>add_request\<close> leaves the queue registered.
  The sequence object reaches the engine only here.
\<close>

definition begin_request :: "externals \<Rightarrow> sequence \<Rightarrow> 'a async_engine \<Rightarrow> py_error option \<times> 'a async_engine" where
  "begin_request X q A =
     (let A1 = A\<lparr>output_queues := AList.update (seq_id q) [] (output_queues A)\<rparr>
      in case place_seq q (inner A1) of (r, e1) \<Rightarrow>
           (case add_request X e1 r of
              (Inl err, e2) \<Rightarrow> (Some err, A1\<lparr>inner := e2\<rparr>)
            | (Inr _, e2) \<Rightarrow> (None, A1\<lparr>inner := e2, has_new_work := True\<rparr>)))"

text \<open>\<open>queue.get()\<close>; on an empty queue the task waits.\<close>

definition take_output :: "int \<Rightarrow> 'a async_engine \<Rightarrow> (request_output \<times> 'a async_engine) option" where
  "take_output sid A =
     (case map_of (output_queues A) sid of
        Some (out # rest) \<Rightarrow> Some (out, A\<lparr>output_queues := AList.update sid rest (output_queues A)\<rparr>)
      | _ \<Rightarrow> None)"

text \<open>The \<open>finally\<close> clause of \<open>generate\<close>.\<close>

definition close_request :: "int \<Rightarrow> 'a async_engine \<Rightarrow> 'a async_engine result" where
  "close_request sid A =
     rbind (eng_abort (inner A) sid) (\<lambda>e. Inr (A\<lparr>inner := e, output_queues := AList.delete sid (output_queues A)\<rparr>))"

text \<open>A disconnect reported from outside the task.\<close>

definition abort_request :: "int \<Rightarrow> 'a async_engine \<Rightarrow> 'a async_engine result" where
  "abort_request sid A =
     rbind (eng_abort (inner A) sid) (\<lambda>e. Inr (put_output sid (final_output sid ''abort'' None) (A\<lparr>inner := e\<rparr>)))"

end
