(* ===== verification/Drop_Reports.thy ===== *)
theory Drop_Reports
  imports Engine
begin

text \<open>
  A request leaves the scheduler's dictionary during a step only together with an output that says it is
  finished: nobody who waits for a request is left without an answer.
\<close>

section \<open>Reports\<close>

definition ids :: "scheduler \<Rightarrow> int set" where
  "ids s = fst ` set (seqs s)"

definition answered :: "request_output list \<Rightarrow> int set" where
  "answered os = out_seq_id ` {out \<in> set os. finished out}"

lemma answered_simps [simp]:
  "answered [] = {}" "answered (xs @ ys) = answered xs \<union> answered ys"
  "answered [out] = (if finished out then {out_seq_id out} else {})"
  by (auto simp: answered_def)

definition reported :: "scheduler \<Rightarrow> scheduler \<Rightarrow> bool" where
  "reported s s' \<longleftrightarrow> (\<exists>os. outputs s' = outputs s @ os \<and> ids s \<subseteq> ids s' \<union> answered os)"

lemma reportedI: "outputs s' = outputs s @ os \<Longrightarrow> ids s \<subseteq> ids s' \<union> answered os \<Longrightarrow> reported s s'"
  unfolding reported_def by blast

lemma reported_same: "seqs s' = seqs s \<Longrightarrow> outputs s' = outputs s \<Longrightarrow> reported s s'"
  by (rule reportedI [of _ _ "[]"]) (simp_all add: ids_def)

lemma reported_refl [simp]: "reported s s"
  by (rule reported_same) simp_all

lemma reported_trans:
  assumes "reported a b" and "reported b c"
  shows "reported a c"
proof -
  obtain os ps where "outputs b = outputs a @ os" "ids a \<subseteq> ids b \<union> answered os" "outputs c = outputs b @ ps" "ids b \<subseteq> ids c \<union> answered ps"
    using assms unfolding reported_def by blast
  then show ?thesis by (intro reportedI [of c a "os @ ps"]) auto
qed

lemma reported_cong: "seqs s = seqs a \<Longrightarrow> outputs s = outputs a \<Longrightarrow> reported a s' \<Longrightarrow> reported s s'"
  using reported_trans [OF reported_same [of a s]] by simp

lemma ids_delete: "ids s \<subseteq> fst ` set (AList.delete k (seqs s)) \<union> {k}"
  by (auto simp: ids_def AList.delete_eq image_iff)

section \<open>Scheduling\<close>

lemma preempt_silent: "preempt s r b = Inr (s', b') \<Longrightarrow> seqs s' = seqs s \<and> outputs s' = outputs s"
  by (auto simp: preempt_def result_simps Let_def set_seq_def split: if_splits)

lemma sched_fail_reported:
  assumes "sched_fail s r m = Inr s'"
  shows "reported s s'"
proof -
  obtain i out where s': "seqs s' = AList.delete i (seqs s)" "outputs s' = outputs s @ [out]" "finished out" "out_seq_id out = i"
    using assms by (auto simp: sched_fail_def result_simps Let_def set_seq_def split: prod.splits)
  then show ?thesis using ids_delete [of s i] by (intro reportedI [of _ _ "[out]"]) (simp_all add: ids_def)
qed

lemma admit_candidate_silent: "admit_candidate s = (s', c) \<Longrightarrow> seqs s' = seqs s \<and> outputs s' = outputs s"
  by (auto simp: admit_candidate_def split: list.splits prod.splits)

lemma pop_waiting_silent: "pop_waiting s r = Inr s' \<Longrightarrow> seqs s' = seqs s \<and> outputs s' = outputs s"
  by (auto simp: pop_waiting_def result_simps split: if_splits)

lemma make_room_reported:
  assumes "make_room r n i s b = Inr (fits, s', b')"
  shows "reported s s'"
  using assms
proof (induction r n i s b rule: make_room.induct)
  case (1 r n i s b)
  show ?case
  proof (cases "can_append (bm s) (store s r) n")
    case True
    with "1.prems" show ?thesis by (simp add: make_room.simps)
  next
    case no: False
    show ?thesis
    proof (cases "i < length (running s) - 1")
      case True
      with no "1.prems" obtain s1 b1 where
        p: "preempt (s\<lparr>running := butlast (running s)\<rparr>) (last (running s)) b = Inr (s1, b1)" and
        m: "make_room r n i s1 b1 = Inr (fits, s', b')"
        by (subst (asm) make_room.simps) (auto simp: result_simps)
      show ?thesis using reported_cong [OF _ _ "1.IH" [OF no True p refl m]] preempt_silent [OF p] by simp
    next
      case False
      with no "1.prems" have i: "i < length (running s)"
        by (subst (asm) make_room.simps) (simp split: if_splits)
      let ?s0 = "s\<lparr>running := take i (running s) @ drop (Suc i) (running s)\<rparr>"
      have "reported ?s0 s'"
        using "1.prems" False no i
        by (subst (asm) make_room.simps)
          (cases "i = 0"; auto simp: result_simps Let_def dest!: preempt_silent sched_fail_reported intro: reported_same)
      then show ?thesis by (rule reported_cong [rotated 2]) simp_all
    qed
  qed
qed

lemma running_loop_reported:
  assumes "running_loop plan i s b = Inr (s', b')"
  shows "reported s s'"
  using assms
proof (induction plan i s b rule: running_loop.induct)
  case (1 plan i s b)
  show ?case
  proof (cases "i < length (running s)")
    case False
    with "1.prems" show ?thesis by (simp add: running_loop.simps)
  next
    case i: True
    define r where "r = running s ! i"
    obtain n where n: "map_of plan r = Some n"
      using "1.prems" i by (cases "map_of plan r") (simp_all add: running_loop.simps [of plan i s b] r_def)
    show ?thesis
    proof (cases "n = 0")
      case True
      with "1.prems" i n have "running_loop plan (Suc i) s b = Inr (s', b')"
        by (simp add: running_loop.simps [of plan i s b] r_def)
      from "1.IH"(1) [OF i r_def n True this] show ?thesis .
    next
      case nz: False
      with "1.prems" i n obtain fits s1 b1 where m: "make_room r n i s b = Inr (fits, s1, b1)" and
        rest: "(if fits then rbind (append_slots (bm s1) (store s1 r) n) (\<lambda>(bm', q').
             running_loop plan (Suc i) ((set_seq s1 r q')\<lparr>bm := bm'\<rparr>) (batch_add b1 r q' n))
           else running_loop plan i s1 b1) = Inr (s', b')"
        unfolding running_loop.simps [of plan i s b] Let_def r_def [symmetric] by (auto simp: result_simps)
      note M = make_room_reported [OF m]
      show ?thesis
      proof (cases fits)
        case False
        then have l: "running_loop plan i s1 b1 = Inr (s', b')" using rest by simp
        show ?thesis by (rule reported_trans [OF M "1.IH"(3) [OF i r_def n nz m refl refl False l]])
      next
        case True
        then obtain bm' q' where a: "append_slots (bm s1) (store s1 r) n = Inr (bm', q')" and
          l: "running_loop plan (Suc i) ((set_seq s1 r q')\<lparr>bm := bm'\<rparr>) (batch_add b1 r q' n) = Inr (s', b')"
          using rest by (auto simp: result_simps)
        show ?thesis
          by (rule reported_trans [OF M], rule reported_cong [OF _ _ "1.IH"(2) [OF i r_def n nz m refl refl True a refl l]])
            (simp_all add: set_seq_def)
      qed
    qed
  qed
qed

lemma swap_in_loop_reported:
  assumes "swap_in_loop s b budget = Inr (s', b')"
  shows "reported s s'"
  using assms
proof (induction s b budget rule: swap_in_loop.induct)
  case (1 s b budget)
  show ?case
  proof (cases "swapped s \<noteq> [] \<and> int (length (running s)) < max_num_seqs s")
    case False
    with "1.prems" show ?thesis by (simp add: swap_in_loop.simps)
  next
    case go: True
    define r where "r = hd (swapped s)"
    define n where "n = (case budget of None \<Rightarrow> num_uncomputed_tokens (store s r) | Some k \<Rightarrow> min (num_uncomputed_tokens (store s r)) k)"
    define s0 where "s0 = s\<lparr>swapped := tl (swapped s)\<rparr>"
    have s0: "seqs s0 = seqs s" "outputs s0 = outputs s" by (simp_all add: s0_def)
    note U = "1.prems" [unfolded swap_in_loop.simps [of s b budget] Let_def, folded r_def, folded n_def, folded s0_def]
    note IH = "1.IH" [OF go r_def n_def]
    show ?thesis
    proof (cases "n \<le> 0")
      case True
      with U go show ?thesis by simp
    next
      case n: False
      show ?thesis
      proof (cases "can_swap_in (bm s) (store s r) n (running s \<noteq> [])")
        case no: False
        show ?thesis
        proof (cases "running s = []")
          case True
          with U go n no obtain s1 where f: "sched_fail s0 r (exhausted_message s0 r) = Inr s1" "swap_in_loop s1 b budget = Inr (s', b')"
            by (auto simp: result_simps)
          have "reported s0 s'"
            using reported_trans [OF sched_fail_reported [OF f(1)] IH(1) [OF n no True s0_def f]] .
          then show ?thesis by (rule reported_cong [OF s0 [symmetric]])
        qed (use U go n no in simp)
      next
        case yes: True
        with U go n obtain b1 q1 pairs b2 q2 where a: "swap_in_seq (bm s0) (store s0 r) = Inr (b1, q1, pairs)" "append_slots b1 q1 n = Inr (b2, q2)"
          and l: "swap_in_loop ((set_seq s0 r (q2\<lparr>status := RUNNING\<rparr>))\<lparr>bm := b2, running := running s0 @ [r]\<rparr>)
            (batch_add (b\<lparr>swap_in := swap_in b @ pairs\<rparr>) r (q2\<lparr>status := RUNNING\<rparr>) n) (map_option (\<lambda>k. k - n) budget) = Inr (s', b')"
          by (auto simp: result_simps)
        have yes': "\<not> \<not> can_swap_in (bm s) (store s r) n (running s \<noteq> [])" using yes by simp
        show ?thesis
          by (rule reported_cong [OF _ _ IH(2) [OF n yes' s0_def a(1) refl refl a(2) refl refl refl l]]) (simp_all add: s0_def set_seq_def)
      qed
    qed
  qed
qed

lemma admit_loop_reported:
  assumes "admit_loop X s b budget = Inr (s', b')"
  shows "reported s s'"
  using assms
proof (induction X s b budget rule: admit_loop.induct)
  case (1 X s b budget)
  obtain s0 cand where c: "admit_candidate s = (s0, cand)" by (cases "admit_candidate s")
  note C = admit_candidate_silent [OF c]
  show ?case
  proof (cases "0 < budget \<and> int (length (running s)) < max_num_seqs s")
    case False
    with "1.prems" show ?thesis by (simp add: admit_loop.simps)
  next
    case go: True
    show ?thesis
    proof (cases cand)
      case None
      with "1.prems" go c C show ?thesis by (auto simp: admit_loop.simps intro: reported_same)
    next
      case (Some r)
      note IH = "1.IH" [OF go c [symmetric] Some]
      have "reported s0 s'"
      proof (cases "blocks_for (bm s0) (num_tokens (store s0 r)) > int (num_blocks (bm s0))")
        case True
        with "1.prems" go c Some obtain s1 s2 where p: "pop_waiting s0 r = Inr s1" "sched_fail s1 r (exhausted_message s1 r) = Inr s2"
          "admit_loop X s2 b budget = Inr (s', b')"
          by (auto simp: admit_loop.simps [of X s b budget] result_simps)
        show ?thesis
          using reported_cong [OF _ _ reported_trans [OF sched_fail_reported [OF p(2)] IH(1) [OF True p]]] pop_waiting_silent [OF p(1)]
          by simp
      next
        case fits: False
        obtain q cached where k: "cached_prefix X (bm s0) (store s0 r) = (q, cached)" by (cases "cached_prefix X (bm s0) (store s0 r)")
        define s1 where "s1 = set_seq s0 r q"
        define remaining where "remaining = num_tokens q - int (length cached) * int (sch_block_size s1)"
        define n where "n = (if chunked s1 then min remaining budget else remaining)"
        have s1: "seqs s1 = seqs s0" "outputs s1 = outputs s0" by (simp_all add: s1_def set_seq_def)
        note U = "1.prems" [unfolded admit_loop.simps [of X s b budget] Let_def, unfolded c prod.case Some option.case k, folded s1_def,
            folded remaining_def, folded n_def]
        show ?thesis
        proof (cases "n > budget")
          case True
          with U go fits s1 show ?thesis by (auto intro: reported_same)
        next
          case n: False
          with U go fits obtain ok where ok: "can_allocate (bm s1) q n cached (running s1 \<noteq> []) = Inr ok"
            and rest: "(if \<not> ok then Inr (s1, b) else rbind (pop_waiting s1 r) (\<lambda>s2.
                      rbind (allocate (bm s2) (store s2 r) n cached) (\<lambda>(bm', q').
                        admit_loop X ((set_seq s2 r (q'\<lparr>status := RUNNING\<rparr>))\<lparr>bm := bm', running := running s2 @ [r]\<rparr>)
                          (batch_add b r (q'\<lparr>status := RUNNING\<rparr>) n) (budget - n)))) = Inr (s', b')"
            by (auto simp: result_simps)
          show ?thesis
          proof (cases ok)
            case False
            with rest s1 show ?thesis by (auto intro: reported_same)
          next
            case True
            with rest obtain s2 bm' q' where p: "pop_waiting s1 r = Inr s2" "allocate (bm s2) (store s2 r) n cached = Inr (bm', q')"
              and l: "admit_loop X ((set_seq s2 r (q'\<lparr>status := RUNNING\<rparr>))\<lparr>bm := bm', running := running s2 @ [r]\<rparr>)
                          (batch_add b r (q'\<lparr>status := RUNNING\<rparr>) n) (budget - n) = Inr (s', b')"
              by (auto simp: result_simps)
            have t: "\<not> \<not> ok" using True by simp
            note I = IH(2) [OF fits k [symmetric] s1_def remaining_def n_def n ok t p(1) p(2) refl refl refl l]
            show ?thesis
              by (rule reported_cong [OF _ _ I]) (use s1 pop_waiting_silent [OF p(1)] in \<open>simp_all add: set_seq_def\<close>)
          qed
        qed
      qed
      then show ?thesis by (rule reported_cong [rotated 2]) (use C in simp_all)
    qed
  qed
qed

lemma schedule_reported:
  assumes "schedule X s = Inr (s', b)"
  shows "reported s s'"
proof -
  have running: "schedule_running s b = Inr (s', b') \<Longrightarrow> reported s s'" for s b s' b'
    unfolding schedule_running_def by (rule running_loop_reported)
  have "schedule_chunked X s b0 = Inr (s', b) \<Longrightarrow> reported s s'" for b0
    by (auto simp: schedule_chunked_def result_simps split: if_splits
        dest!: running swap_in_loop_reported admit_loop_reported intro: reported_trans)
  moreover have "schedule_prefill_priority X s b0 = Inr (s', b) \<Longrightarrow> reported s s'" for b0
    by (auto simp: schedule_prefill_priority_def result_simps split: if_splits
        dest!: running swap_in_loop_reported admit_loop_reported intro: reported_trans)
  ultimately show ?thesis using assms by (auto simp: schedule_def result_simps split: if_splits)
qed

section \<open>The update and the step\<close>

lemma update_one_reported:
  assumes "update_one X now (s, outs, toks, f) item = Inr (s', outs', toks', f')"
  shows "\<exists>os. outs' = outs @ os \<and> ids s \<subseteq> ids s' \<union> answered os"
proof -
  obtain r n smp where item: "item = (r, n, smp)" by (cases item)
  define q1 where "q1 = (store s r)\<lparr>num_computed_tokens := num_computed_tokens (store s r) + n\<rparr>"
  obtain bm' q2 where c: "cache_full_blocks X (bm s) q1 = Inr (bm', q2)"
    using assms by (auto simp: update_one_def item Let_def result_simps q1_def)
  define s1 where "s1 = (set_seq s r q2)\<lparr>bm := bm'\<rparr>"
  have s1: "ids s1 = ids s" by (simp add: s1_def set_seq_def ids_def)
  note U = assms [unfolded update_one_def item prod.case Let_def, folded q1_def, unfolded c rbind_simps prod.case, folded s1_def]
  show ?thesis
  proof (cases "\<not> smp")
    case True
    then show ?thesis using U s1 by auto
  next
    case smp: False
    obtain t ts where toks: "toks = t # ts" using U smp by (cases toks) auto
    obtain q3 tx fin where a: "append_token X q2 t (eos_ids s1) (max_model_len s1) = (q3, tx, fin)"
      by (cases "append_token X q2 t (eos_ids s1) (max_model_len s1)") auto
    define q4 where "q4 = (if first_token_time q3 = None then q3\<lparr>first_token_time := Some now\<rparr> else q3)"
    note U' = U [unfolded toks list.case a prod.case, folded q4_def]
    show ?thesis
    proof (cases fin)
      case None
      then show ?thesis using U' smp s1 by (auto simp: set_seq_def ids_def)
    next
      case (Some reason)
      then obtain s2 where f: "finish_seq s1 r q4 reason = Inr s2" "s' = s2"
        and o: "outs' = outs @ [\<lparr>out_seq_id = seq_id q4, out_token_ids = [t], out_text = tx,
                          finished = True, out_finish_reason = Some reason,
                          out_num_prompt_tokens = num_prompt_tokens q4,
                          out_num_output_tokens = num_output_tokens q4, out_error = None\<rparr>]"
        using U' smp by (auto simp: result_simps)
      have "seqs s2 = AList.delete (seq_id q4) (seqs s1)"
        using f(1) by (auto simp: finish_seq_def free_seq_def Let_def result_simps set_seq_def)
      then have "ids s1 \<subseteq> ids s2 \<union> {seq_id q4}" using ids_delete [of s1 "seq_id q4"] by (simp add: ids_def)
      then show ?thesis using s1 f(2) o by auto
    qed
  qed
qed

lemma update_fold_reported:
  assumes "foldM (update_one X now) (s, outs, toks, f) items = Inr (s', outs', toks', f')"
  shows "\<exists>os. outs' = outs @ os \<and> ids s \<subseteq> ids s' \<union> answered os"
  using assms
proof (induction items arbitrary: s outs toks f)
  case (Cons item items)
  obtain s1 outs1 toks1 f1 where 1: "update_one X now (s, outs, toks, f) item = Inr (s1, outs1, toks1, f1)"
      "foldM (update_one X now) (s1, outs1, toks1, f1) items = Inr (s', outs', toks', f')"
    using Cons.prems by (auto simp: result_simps)
  obtain os ps where "outs1 = outs @ os" "ids s \<subseteq> ids s1 \<union> answered os" "outs' = outs1 @ ps" "ids s1 \<subseteq> ids s' \<union> answered ps"
    using update_one_reported [OF 1(1)] Cons.IH [OF 1(2)] by blast
  then show ?case by (intro exI [of _ "os @ ps"]) auto
qed simp

lemma sched_update_reported:
  assumes "sched_update X now s b toks = Inr (s', outs)"
  shows "\<exists>os. outs = outputs s @ os \<and> ids s \<subseteq> ids s' \<union> answered os"
proof -
  obtain s1 rest f where "foldM (update_one X now) (s\<lparr>outputs := []\<rparr>, outputs s, toks, False)
      (zip (b_seqs b) (zip (num_new_tokens b) (do_sample b))) = Inr (s1, outs, rest, f)" "ids s' = ids s1"
    using assms by (auto simp: sched_update_def take_outputs_def result_simps ids_def split: if_splits)
  from update_fold_reported [OF this(1)] this(2) show ?thesis by (simp add: ids_def)
qed

lemma step_reported:
  assumes "eng_step X T now e = Inr (e', outs)"
  shows "ids (eng_sched e) \<subseteq> ids (eng_sched e') \<union> answered outs"
proof -
  obtain s b where sch: "schedule X (eng_sched e) = Inr (s, b)"
    using assms by (auto simp: eng_step_def result_simps)
  have R: "ids (eng_sched e) \<subseteq> ids s \<union> answered (outputs s)"
    using schedule_reported [OF sch] by (auto simp: reported_def)
  show ?thesis
  proof (cases "batch_is_empty b")
    case True
    then have "outs = outputs s" "ids (eng_sched e') = ids s"
      using assms sch by (auto simp: eng_step_def take_outputs_def ids_def split: if_splits)
    then show ?thesis using R by simp
  next
    case False
    then obtain tokens s' where u: "sched_update X now s b tokens = Inr (s', outs)" "ids (eng_sched e') = ids s'"
      using assms sch by (auto simp: eng_step_def Let_def result_simps after_step_def)
    obtain os where os: "outs = outputs s @ os" "ids s \<subseteq> ids s' \<union> answered os" using sched_update_reported [OF u(1)] by blast
    have "answered outs = answered (outputs s) \<union> answered os" unfolding os(1) by simp
    with R os(2) show ?thesis unfolding u(2) by blast
  qed
qed

section \<open>The other operations\<close>

lemma ids_dom: "ids s = dom (map_of (seqs s))"
  by (simp add: ids_def dom_map_of_conv_image_fst)

lemma sched_abort_ids:
  assumes "sched_abort s sid = Inr (s', found)"
  shows "ids s' = ids s - {sid}"
proof (cases "map_of (seqs s) sid")
  case None
  then show ?thesis using assms by (auto simp: sched_abort_def ids_dom)
next
  case (Some r)
  then have "seqs s' = AList.delete sid (seqs s)"
    using assms by (cases "free_cpu (bm s) (store s r)") (auto simp: sched_abort_def Let_def result_simps set_seq_def split: if_splits)
  then show ?thesis by (auto simp: ids_dom delete_conv')
qed

lemma eng_abort_ids: "eng_abort e sid = Inr e' \<Longrightarrow> ids (eng_sched e') = ids (eng_sched e) - {sid}"
  using sched_abort_ids by (auto simp: eng_abort_def result_simps)

end
