(* ===== verification/Server_Inv.thy ===== *)
theory Server_Inv
  imports Server Drop_Reports Engine_Start
begin

text \<open>
  The server as a state machine: the engine loop, the tasks of the requests and disconnects take turns
  in any order. The invariant: every task that waits has its request in the engine or its last output in
  its queue, and the engine works only for tasks that wait.
\<close>

section \<open>The tasks around the engine\<close>

text \<open>
  A request is created by the handler, then its generator runs and listens to its queue; after the last
  output the consumer lets it close.
\<close>

datatype phase = Created sequence | Listening | Closing | Closed

record 'a server =
  bridge :: "'a async_engine"
  clients :: "int \<Rightarrow> phase option"
  received :: "int \<Rightarrow> request_output list"

definition init_server :: "'a engine \<Rightarrow> 'a server" where
  "init_server e = \<lparr>bridge = init_async e, clients = (\<lambda>_. None), received = (\<lambda>_. [])\<rparr>"

definition set_inner :: "'a server \<Rightarrow> 'a engine \<Rightarrow> 'a server" where
  "set_inner S e = S\<lparr>bridge := (bridge S)\<lparr>inner := e\<rparr>\<rparr>"

definition set_client :: "'a server \<Rightarrow> int \<Rightarrow> phase \<Rightarrow> 'a async_engine \<Rightarrow> 'a server" where
  "set_client S sid ph A = S\<lparr>bridge := A, clients := (clients S)(sid \<mapsto> ph)\<rparr>"

definition note_output :: "'a server \<Rightarrow> int \<Rightarrow> request_output \<Rightarrow> 'a server" where
  "note_output S sid out = S\<lparr>received := (received S)(sid := received S sid @ [out])\<rparr>"

inductive server_step ::
  "externals \<Rightarrow> 'a torch \<Rightarrow> ('a engine \<Rightarrow> py_error \<Rightarrow> 'a engine) \<Rightarrow> (py_error \<Rightarrow> string)
     \<Rightarrow> ('a::linordered_field) server \<Rightarrow> 'a server \<Rightarrow> bool"
  for X :: externals and T :: "'a torch" and torn :: "'a engine \<Rightarrow> py_error \<Rightarrow> 'a engine" and repr_err :: "py_error \<Rightarrow> string" where
  turn: "loop_turn X T torn repr_err now (bridge S) = Inr A \<Longrightarrow> server_step X T torn repr_err S (S\<lparr>bridge := A\<rparr>)"
| refuse: "completions_start tok repr_of name arrival req (inner (bridge S)) = (Inr (Inl reply), e) \<Longrightarrow>
     server_step X T torn repr_err S (set_inner S e)"
| crash: "completions_start tok repr_of name arrival req (inner (bridge S)) = (Inl err, e) \<Longrightarrow>
     server_step X T torn repr_err S (set_inner S e)"
| accept: "completions_start tok repr_of name arrival req (inner (bridge S)) = (Inr (Inr q), e) \<Longrightarrow>
     server_step X T torn repr_err S (set_client S (seq_id q) (Created q) ((bridge S)\<lparr>inner := e\<rparr>))"
| start: "clients S sid = Some (Created q) \<Longrightarrow> begin_request X q (bridge S) = (None, A) \<Longrightarrow>
     server_step X T torn repr_err S (set_client S sid Listening A)"
| start_fails: "clients S sid = Some (Created q) \<Longrightarrow> begin_request X q (bridge S) = (Some err, A) \<Longrightarrow>
     server_step X T torn repr_err S (set_client S sid Closed A)"
| forget: "clients S sid = Some (Created q) \<Longrightarrow> server_step X T torn repr_err S (set_client S sid Closed (bridge S))"
| receive: "clients S sid = Some Listening \<Longrightarrow> take_output sid (bridge S) = Some (out, A) \<Longrightarrow>
     server_step X T torn repr_err S
       (note_output (set_client S sid (if finished out \<or> out_error out \<noteq> None then Closing else Listening) A) sid out)"
| cancel: "clients S sid = Some Listening \<Longrightarrow> close_request sid (bridge S) = Inr A \<Longrightarrow>
     server_step X T torn repr_err S (set_client S sid Closed A)"
| finish: "clients S sid = Some Closing \<Longrightarrow> close_request sid (bridge S) = Inr A \<Longrightarrow>
     server_step X T torn repr_err S (set_client S sid Closed A)"
| disconnect: "clients S sid \<noteq> None \<Longrightarrow> abort_request sid (bridge S) = Inr A \<Longrightarrow>
     server_step X T torn repr_err S (S\<lparr>bridge := A\<rparr>)"

inductive_cases server_stepE: "server_step X T torn repr_err S S'"

section \<open>Queues\<close>

lemma put_output_fields [simp]:
  "inner (put_output sid out A) = inner A" "has_new_work (put_output sid out A) = has_new_work A" "asleep (put_output sid out A) = asleep A"
  by (simp_all add: put_output_def split: option.split)

lemma put_output_queues:
  "map_of (output_queues (put_output sid out A)) i
     = map_option (\<lambda>q. if i = sid then q @ [out] else q) (map_of (output_queues A) i)"
  by (cases "map_of (output_queues A) sid"; cases "map_of (output_queues A) i") (auto simp: put_output_def update_conv')

lemma put_output_wf: "dict_wf (output_queues A) \<Longrightarrow> dict_wf (output_queues (put_output sid out A))"
  by (simp add: put_output_def split: option.split)

lemma deliver_Cons: "deliver A (out # outs) = deliver (put_output (out_seq_id out) out A) outs"
  by (simp add: deliver_def)

lemma deliver_fields [simp]:
  "inner (deliver A outs) = inner A" "has_new_work (deliver A outs) = has_new_work A" "asleep (deliver A outs) = asleep A"
proof -
  have "inner (deliver A outs) = inner A \<and> has_new_work (deliver A outs) = has_new_work A \<and> asleep (deliver A outs) = asleep A"
    by (induction outs arbitrary: A) (simp add: deliver_def, simp add: deliver_Cons)
  then show "inner (deliver A outs) = inner A" "has_new_work (deliver A outs) = has_new_work A" "asleep (deliver A outs) = asleep A"
    by simp_all
qed

lemma deliver_wf: "dict_wf (output_queues A) \<Longrightarrow> dict_wf (output_queues (deliver A outs))"
  by (induction outs arbitrary: A) (simp add: deliver_def, simp add: deliver_Cons put_output_wf)

text \<open>Every queue gets the outputs with its number, in order.\<close>

lemma deliver_queues:
  "map_of (output_queues (deliver A outs)) i
     = map_option (\<lambda>q. q @ filter (\<lambda>out. out_seq_id out = i) outs) (map_of (output_queues A) i)"
proof (induction outs arbitrary: A)
  case Nil
  then show ?case by (simp add: deliver_def option.map_ident)
next
  case (Cons out outs)
  show ?case
    unfolding deliver_Cons Cons.IH put_output_queues option.map_comp
    by (rule arg_cong2 [where f = map_option]) (auto simp: fun_eq_iff)
qed

section \<open>The invariant\<close>

definition client_ok :: "'a async_engine \<Rightarrow> int \<Rightarrow> phase option \<Rightarrow> bool" where
  "client_ok A sid ph \<longleftrightarrow>
     (map_of (output_queues A) sid \<noteq> None \<longleftrightarrow> ph = Some Listening \<or> ph = Some Closing) \<and>
     (ph = Some Listening \<longrightarrow> sid \<in> ids (eng_sched (inner A)) \<or> (\<exists>out \<in> set (the (map_of (output_queues A) sid)). finished out)) \<and>
     (ph \<noteq> None \<longrightarrow> sid < next_seq_id (inner A)) \<and>
     (\<forall>q. ph = Some (Created q) \<longrightarrow> (\<exists>ts params t prio. q = new_sequence sid ts params t prio \<and> valid_params params) \<and>
        validate (inner A) q = Inr ())"

definition server_ok :: "externals \<Rightarrow> ('a::linordered_field) server \<Rightarrow> bool" where
  "server_ok X S \<longleftrightarrow>
     (let A = bridge S in
      served X (inner A) \<and> dict_wf (output_queues A) \<and> ids (eng_sched (inner A)) \<subseteq> dom (map_of (output_queues A)) \<and>
      (asleep A \<longrightarrow> has_new_work A \<or> \<not> eng_has_work (inner A)) \<and> (\<forall>sid. client_ok A sid (clients S sid)))"

lemma has_work_ids:
  assumes "served_at X p e"
  shows "eng_has_work e \<longleftrightarrow> ids (eng_sched e) \<noteq> {}"
proof -
  have inv: "sinv X (eng_sched e) p []" using assms by (simp add: served_at_def eng_ok_at_def)
  have Q: "map_of (seqs (eng_sched e)) i = Some r \<longleftrightarrow> r \<in> set (queue_list (eng_sched e) []) \<and> seq_id (store (eng_sched e) r) = i" for i r
    using queues_invD(4) [OF sinvD(2) [OF inv]] by blast
  have "queue_list (eng_sched e) [] \<noteq> [] \<longleftrightarrow> ids (eng_sched e) \<noteq> {}"
  proof
    assume "queue_list (eng_sched e) [] \<noteq> []"
    then obtain r where "r \<in> set (queue_list (eng_sched e) [])" by (cases "queue_list (eng_sched e) []") auto
    then have "map_of (seqs (eng_sched e)) (seq_id (store (eng_sched e) r)) = Some r" using Q by blast
    then show "ids (eng_sched e) \<noteq> {}" unfolding ids_dom by blast
  next
    assume "ids (eng_sched e) \<noteq> {}"
    then obtain i r where "map_of (seqs (eng_sched e)) i = Some r" unfolding ids_dom by blast
    then have "r \<in> set (queue_list (eng_sched e) [])" using Q by blast
    then show "queue_list (eng_sched e) [] \<noteq> []" by auto
  qed
  then show ?thesis using has_work_queue [OF inv] by (simp add: eng_has_work_def)
qed

section \<open>The engine's operations on the invariant\<close>

lemma validate_static: "eng_config e' = eng_config e \<Longrightarrow> eng_vocab e' = eng_vocab e \<Longrightarrow> validate e' q = validate e q"
  by (simp only: validate_def)

text \<open>A client is fine after the bridge changed under it, when its queue and its request are.\<close>

lemma client_ok_frame:
  assumes "client_ok A sid ph"
    and "map_of (output_queues A') sid = None \<longleftrightarrow> map_of (output_queues A) sid = None"
    and "eng_config (inner A') = eng_config (inner A)" "eng_vocab (inner A') = eng_vocab (inner A)"
      "next_seq_id (inner A) \<le> next_seq_id (inner A')"
    and "ph = Some Listening \<Longrightarrow> sid \<in> ids (eng_sched (inner A')) \<or> (\<exists>out \<in> set (the (map_of (output_queues A') sid)). finished out)"
  shows "client_ok A' sid ph"
  using assms validate_static [of "inner A'" "inner A"] by (auto simp: client_ok_def)

lemma client_okD:
  assumes "client_ok A sid ph"
  shows "map_of (output_queues A) sid \<noteq> None \<longleftrightarrow> ph = Some Listening \<or> ph = Some Closing"
    and "ph = Some Listening \<Longrightarrow> sid \<in> ids (eng_sched (inner A)) \<or> (\<exists>out \<in> set (the (map_of (output_queues A) sid)). finished out)"
    and "ph \<noteq> None \<Longrightarrow> sid < next_seq_id (inner A)"
  using assms by (simp_all add: client_ok_def)

lemma server_okD:
  assumes "server_ok X S"
  shows "served X (inner (bridge S))" "dict_wf (output_queues (bridge S))"
    "ids (eng_sched (inner (bridge S))) \<subseteq> dom (map_of (output_queues (bridge S)))"
    "asleep (bridge S) \<Longrightarrow> has_new_work (bridge S) \<or> \<not> eng_has_work (inner (bridge S))" "client_ok (bridge S) sid (clients S sid)"
  using assms by (simp_all add: server_ok_def Let_def)

lemma server_okI:
  assumes "served X (inner (bridge S))" "dict_wf (output_queues (bridge S))"
    "ids (eng_sched (inner (bridge S))) \<subseteq> dom (map_of (output_queues (bridge S)))"
    "asleep (bridge S) \<Longrightarrow> has_new_work (bridge S) \<or> \<not> eng_has_work (inner (bridge S))"
    "\<And>sid. client_ok (bridge S) sid (clients S sid)"
  shows "server_ok X S"
  using assms by (simp add: server_ok_def Let_def)

text \<open>An abort from inside or outside frees the request; it never raises.\<close>

lemma abort_fields:
  assumes "served_at X p e"
  shows "\<exists>e'. eng_abort e sid = Inr e' \<and> served_at X p e' \<and> eng_static e e' \<and> ids (eng_sched e') = ids (eng_sched e) - {sid}"
proof -
  obtain e' where "eng_abort e sid = Inr e'" "served_at X p e'" "eng_static e e'" using eng_abort_ok [OF assms] by blast
  with eng_abort_ids show ?thesis by blast
qed

text \<open>
  \<open>_fail_all\<close> on what a step left that raised: it aborts every request that has a queue, so that no request is
  left and the engine is whole again, and every queue gets a last output.
\<close>

lemma empty_served:
  assumes ok: "served_at X p e" and none: "ids (eng_sched e) = {}"
  shows "served X e"
proof -
  have inv: "sinv X (eng_sched e) p []" using ok by (simp add: served_at_def eng_ok_at_def)
  have "\<not> eng_has_work e" using has_work_ids [OF ok] none by simp
  then have "queue_list (eng_sched e) [] = []" using has_work_queue [OF inv] by (simp add: eng_has_work_def)
  then have "running (eng_sched e) = []" "swapped (eng_sched e) = []" "preempted (eng_sched e) = []"
      "pending (store (eng_sched e)) (waiting (eng_sched e)) = []"
    by (simp_all add: queue_list_def)
  then have "seqs_inv (eng_sched e) (\<lambda>_. 0)" by (simp add: seqs_inv_def)
  then have "sinv X (eng_sched e) (\<lambda>_. 0) []" using inv by (simp add: sinv_def)
  then show ?thesis using ok by (simp add: served_at_def eng_ok_at_def)
qed

definition failed_queues :: "string \<Rightarrow> int list \<Rightarrow> 'a async_engine \<Rightarrow> 'a async_engine \<Rightarrow> bool" where
  "failed_queues message sids A A' \<longleftrightarrow>
     (\<forall>i. map_of (output_queues A') i = map_option
        (\<lambda>q. if i \<in> set sids then q @ [final_output i ''error'' (Some message)] else q) (map_of (output_queues A) i)) \<and>
     has_new_work A' = has_new_work A \<and> asleep A' = asleep A"

lemma fail_fold_ok:
  assumes "served_at X p (inner A)" and "dict_wf (output_queues A)" and "distinct sids"
  shows "\<exists>A'. foldM (fail_one message) A sids = Inr A' \<and> served_at X p (inner A') \<and> dict_wf (output_queues A') \<and>
     eng_static (inner A) (inner A') \<and> ids (eng_sched (inner A')) = ids (eng_sched (inner A)) - set sids \<and> failed_queues message sids A A'"
  using assms
proof (induction sids arbitrary: A)
  case Nil
  then show ?case by (simp add: failed_queues_def eng_static_def option.map_ident)
next
  case (Cons sid sids)
  obtain e1 where a: "eng_abort (inner A) sid = Inr e1" "served_at X p e1" "eng_static (inner A) e1"
      "ids (eng_sched e1) = ids (eng_sched (inner A)) - {sid}"
    using abort_fields [OF Cons.prems(1)] by blast
  define A1 where "A1 = put_output sid (final_output sid ''error'' (Some message)) (A\<lparr>inner := e1\<rparr>)"
  have one: "fail_one message A sid = Inr A1" using a(1) by (simp add: fail_one_def A1_def)
  have F: "inner A1 = e1" "has_new_work A1 = has_new_work A" "asleep A1 = asleep A" by (simp_all add: A1_def)
  have wf: "dict_wf (output_queues A1)" unfolding A1_def by (rule put_output_wf) (simp add: Cons.prems(2))
  have q: "map_of (output_queues A1) i = map_option (\<lambda>q. if i = sid then q @ [final_output sid ''error'' (Some message)] else q)
      (map_of (output_queues A) i)" for i
    by (simp add: A1_def put_output_queues)
  have "served_at X p (inner A1)" "distinct sids" using a(2) F Cons.prems(3) by simp_all
  from Cons.IH [OF this(1) wf this(2)] obtain A' where I: "foldM (fail_one message) A1 sids = Inr A'" "served_at X p (inner A')"
      "dict_wf (output_queues A')" "eng_static (inner A1) (inner A')"
      "ids (eng_sched (inner A')) = ids (eng_sched (inner A1)) - set sids" "failed_queues message sids A1 A'"
    by blast
  have "failed_queues message (sid # sids) A A'"
    using I(6) F Cons.prems(3) by (auto simp: failed_queues_def q option.map_comp comp_def intro!: map_option_cong)
  moreover have "eng_static (inner A) (inner A')" using a(3) I(4) F by (simp add: eng_static_def)
  moreover have "ids (eng_sched (inner A')) = ids (eng_sched (inner A)) - set (sid # sids)" using I(5) a(4) F by auto
  moreover have "foldM (fail_one message) A (sid # sids) = Inr A'" using one I(1) by simp
  ultimately show ?case using I(2,3) by blast
qed

lemma fail_all_ok:
  assumes ok: "served_at X p (inner A)" and wf: "dict_wf (output_queues A)"
    and sub: "ids (eng_sched (inner A)) \<subseteq> dom (map_of (output_queues A))"
  shows "\<exists>A'. fail_all message A = Inr A' \<and> served X (inner A') \<and> dict_wf (output_queues A') \<and> eng_static (inner A) (inner A') \<and>
     ids (eng_sched (inner A')) = {} \<and> has_new_work A' = has_new_work A \<and> asleep A' = asleep A \<and>
     (\<forall>i. map_of (output_queues A') i = map_option (\<lambda>q. q @ [final_output i ''error'' (Some message)]) (map_of (output_queues A) i))"
proof -
  have "distinct (map fst (output_queues A))" using wf by (simp add: dict_wf_def)
  from fail_fold_ok [OF ok wf this, of message] obtain A' where A': "fail_all message A = Inr A'" "served_at X p (inner A')"
      "dict_wf (output_queues A')" "eng_static (inner A) (inner A')"
      "ids (eng_sched (inner A')) = ids (eng_sched (inner A)) - set (map fst (output_queues A))"
      "failed_queues message (map fst (output_queues A)) A A'"
    unfolding fail_all_def by blast
  have d: "set (map fst (output_queues A)) = dom (map_of (output_queues A))" by (simp add: dom_map_of_conv_image_fst)
  then have e: "ids (eng_sched (inner A')) = {}" using A'(5) sub by auto
  moreover have "map_of (output_queues A') i = map_option (\<lambda>q. q @ [final_output i ''error'' (Some message)]) (map_of (output_queues A) i)" for i
    using A'(6) unfolding failed_queues_def d by (cases "map_of (output_queues A) i") (auto simp: dom_def)
  ultimately show ?thesis
    using A' empty_served [OF A'(2) e] by (intro exI [of _ A']) (simp add: failed_queues_def)
qed

text \<open>The engine loop: a step and the delivery of its outputs, each appended to the queue of its request.\<close>

definition queues_grew :: "'a async_engine \<Rightarrow> 'a async_engine \<Rightarrow> (int \<Rightarrow> request_output list) \<Rightarrow> bool" where
  "queues_grew A A' new \<longleftrightarrow> (\<forall>i. map_of (output_queues A') i = map_option (\<lambda>q. q @ new i) (map_of (output_queues A) i))"

text \<open>A turn of the loop keeps the invariant when every request it drops gets a last output.\<close>

lemma server_ok_delivered:
  assumes S: "server_ok X S" and served: "served X (inner A)" and wf: "dict_wf (output_queues A)" and awake: "\<not> asleep A"
    and stat: "eng_static (inner (bridge S)) (inner A)" and sub: "ids (eng_sched (inner A)) \<subseteq> ids (eng_sched (inner (bridge S)))"
    and q: "queues_grew (bridge S) A new"
    and last: "\<And>i. i \<in> ids (eng_sched (inner (bridge S))) \<Longrightarrow> i \<in> ids (eng_sched (inner A)) \<or> (\<exists>out \<in> set (new i). finished out)"
  shows "server_ok X (S\<lparr>bridge := A\<rparr>)"
proof (rule server_okI)
  note D = server_okD [OF S]
  show "served X (inner (bridge (S\<lparr>bridge := A\<rparr>)))" "dict_wf (output_queues (bridge (S\<lparr>bridge := A\<rparr>)))" using served wf by simp_all
  have "dom (map_of (output_queues A)) = dom (map_of (output_queues (bridge S)))" using q by (auto simp: queues_grew_def dom_def)
  then show "ids (eng_sched (inner (bridge (S\<lparr>bridge := A\<rparr>)))) \<subseteq> dom (map_of (output_queues (bridge (S\<lparr>bridge := A\<rparr>))))"
    using D(3) sub by auto
  show "asleep (bridge (S\<lparr>bridge := A\<rparr>)) \<Longrightarrow> has_new_work (bridge (S\<lparr>bridge := A\<rparr>)) \<or> \<not> eng_has_work (inner (bridge (S\<lparr>bridge := A\<rparr>)))"
    using awake by simp
  fix sid
  note C = client_okD [OF D(5) [of sid]]
  have "client_ok A sid (clients S sid)"
  proof (rule client_ok_frame [OF D(5)])
    assume l: "clients S sid = Some Listening"
    then obtain queue where queue: "map_of (output_queues (bridge S)) sid = Some queue" using C(1) by auto
    then have qa: "map_of (output_queues A) sid = Some (queue @ new sid)" using q by (simp add: queues_grew_def)
    from C(2) [OF l] show "sid \<in> ids (eng_sched (inner A)) \<or> (\<exists>out \<in> set (the (map_of (output_queues A) sid)). finished out)"
      using last [of sid] unfolding qa queue by auto
  qed (use stat q in \<open>simp_all add: eng_static_def queues_grew_def\<close>)
  then show "client_ok (bridge (S\<lparr>bridge := A\<rparr>)) sid (clients (S\<lparr>bridge := A\<rparr>) sid)" by simp
qed

text \<open>One pass of the loop: the step's outputs are delivered, or everybody is told of its error.\<close>

lemma loop_step_ok:
  assumes S: "server_ok X S" and T: "torch_ok T" and A0: "inner A0 = inner (bridge S)" "output_queues A0 = output_queues (bridge S)" "\<not> asleep A0"
  shows "\<exists>A. loop_step X T torn repr_err now A0 = Inr A \<and> server_ok X (S\<lparr>bridge := A\<rparr>) \<and>
     ((\<exists>e' outs p b. eng_step X T now (inner (bridge S)) = Inr (e', outs) \<and> stepped X (inner (bridge S)) e' p b \<and> inner A = e') \<or>
      \<not> eng_has_work (inner A))"
proof -
  let ?e = "inner (bridge S)"
  note D = server_okD [OF S]
  from served_step [OF D(1) T, of now] show ?thesis
  proof (elim disjE exE conjE)
    fix e' outs p b assume st: "eng_step X T now ?e = Inr (e', outs)" "served X e'" "stepped X ?e e' p b"
    define A where "A = deliver (A0\<lparr>inner := e'\<rparr>) outs"
    have run: "loop_step X T torn repr_err now A0 = Inr A" using st(1) A0(1) by (simp add: loop_step_def A_def)
    have F: "inner A = e'" "\<not> asleep A" using A0(3) by (simp_all add: A_def)
    have stat: "eng_static ?e e'" and cf: "conf_same (eng_sched ?e) (eng_sched e')" using stepped_frame [OF st(3)] by blast+
    have "server_ok X (S\<lparr>bridge := A\<rparr>)"
    proof (rule server_ok_delivered [OF S])
      show "dict_wf (output_queues A)" using deliver_wf [of "A0\<lparr>inner := e'\<rparr>" outs] D(2) A0(2) by (simp add: A_def)
      show "ids (eng_sched (inner A)) \<subseteq> ids (eng_sched ?e)" using cf F by (auto simp: conf_same_def ids_def)
      show "queues_grew (bridge S) A (\<lambda>i. filter (\<lambda>out. out_seq_id out = i) outs)"
        unfolding queues_grew_def A_def deliver_queues by (simp add: A0(2))
      fix i assume "i \<in> ids (eng_sched ?e)"
      then have "i \<in> ids (eng_sched e') \<or> i \<in> answered outs" using step_reported [OF st(1)] by blast
      then show "i \<in> ids (eng_sched (inner A)) \<or> (\<exists>out \<in> set (filter (\<lambda>out. out_seq_id out = i) outs). finished out)"
        using F by (auto simp: answered_def)
    qed (use st(2) F stat in simp_all)
    then show ?thesis using run st(1,3) F(1) by (intro exI [of _ A]) auto
  next
    assume raised: "step_raised X T now ?e"
    obtain e2 p where e2: "sampler_failure X T ?e = Some e2" "served_at X p e2" "eng_static ?e e2" "sched_frame (eng_sched ?e) (eng_sched e2)"
      by (rule raised_left [OF D(1) raised])
    have err: "eng_step X T now ?e = Inl nan_error" using raised by (simp add: step_raised_def)
    have "conf_same (eng_sched ?e) (eng_sched e2)" using e2(4) by (simp add: sched_frame_def)
    then have sub: "ids (eng_sched e2) \<subseteq> ids (eng_sched ?e)" by (auto simp: conf_same_def ids_def)
    let ?A0 = "A0\<lparr>inner := e2\<rparr>"
    have "served_at X p (inner ?A0)" "dict_wf (output_queues ?A0)" "ids (eng_sched (inner ?A0)) \<subseteq> dom (map_of (output_queues ?A0))"
      using e2(2) D(2,3) A0(2) sub by simp_all
    from fail_all_ok [OF this, of "''engine error: '' @ repr_err nan_error"] obtain A where A:
        "fail_all (''engine error: '' @ repr_err nan_error) ?A0 = Inr A" "served X (inner A)" "dict_wf (output_queues A)"
        "eng_static e2 (inner A)" "ids (eng_sched (inner A)) = {}" "asleep A = asleep A0"
        "\<And>i. map_of (output_queues A) i = map_option (\<lambda>q. q @ [final_output i ''error'' (Some (''engine error: '' @ repr_err nan_error))])
           (map_of (output_queues A0) i)"
      by auto
    have run: "loop_step X T torn repr_err now A0 = Inr A" using err e2(1) A(1) A0(1) by (simp add: loop_step_def)
    have "server_ok X (S\<lparr>bridge := A\<rparr>)"
    proof (rule server_ok_delivered [OF S A(2,3)])
      show "queues_grew (bridge S) A (\<lambda>i. [final_output i ''error'' (Some (''engine error: '' @ repr_err nan_error))])"
        unfolding queues_grew_def A(7) A0(2) by simp
    qed (use A(4-6) A0(3) e2(3) in \<open>simp_all add: eng_static_def final_output_def\<close>)
    moreover have "\<not> eng_has_work (inner A)" using has_work_ids [OF A(2)] A(5) by simp
    ultimately show ?thesis using run by blast
  qed
qed

lemma loop_turn_ok:
  assumes S: "server_ok X S" and T: "torch_ok T"
  shows "\<exists>A. loop_turn X T torn repr_err now (bridge S) = Inr A \<and> server_ok X (S\<lparr>bridge := A\<rparr>) \<and>
     (eng_has_work (inner (bridge S)) \<longrightarrow>
       (\<exists>e' outs p b. eng_step X T now (inner (bridge S)) = Inr (e', outs) \<and> stepped X (inner (bridge S)) e' p b \<and> inner A = e') \<or>
       \<not> eng_has_work (inner A))"
proof -
  note D = server_okD [OF S]
  let ?A = "bridge S"
  note L = loop_step_ok [OF S T, of _ torn repr_err now]
  consider (wake) "asleep ?A" "has_new_work ?A" | (stay) "asleep ?A" "\<not> has_new_work ?A" | (work) "\<not> asleep ?A" "eng_has_work (inner ?A)"
    | (idle) "\<not> asleep ?A" "\<not> eng_has_work (inner ?A)" "has_new_work ?A"
    | (sleep) "\<not> asleep ?A" "\<not> eng_has_work (inner ?A)" "\<not> has_new_work ?A" by blast
  then show ?thesis
  proof cases
    case wake
    then have t: "loop_turn X T torn repr_err now ?A = loop_step X T torn repr_err now (?A\<lparr>asleep := False, has_new_work := False\<rparr>)"
      by (simp add: loop_turn_def)
    show ?thesis unfolding t using L [of "?A\<lparr>asleep := False, has_new_work := False\<rparr>"] by auto
  next
    case stay
    then have "loop_turn X T torn repr_err now ?A = Inr ?A" by (simp add: loop_turn_def)
    then show ?thesis using S D(4) stay by auto
  next
    case work
    then have t: "loop_turn X T torn repr_err now ?A = loop_step X T torn repr_err now ?A" by (simp add: loop_turn_def)
    show ?thesis unfolding t using L [of ?A] work by auto
  next
    case idle
    then have t: "loop_turn X T torn repr_err now ?A = loop_step X T torn repr_err now (?A\<lparr>has_new_work := False\<rparr>)" by (simp add: loop_turn_def)
    show ?thesis unfolding t using L [of "?A\<lparr>has_new_work := False\<rparr>"] idle by auto
  next
    case sleep
    then have t: "loop_turn X T torn repr_err now ?A = Inr (?A\<lparr>asleep := True\<rparr>)" by (simp add: loop_turn_def)
    have "server_ok X (S\<lparr>bridge := ?A\<lparr>asleep := True\<rparr>\<rparr>)"
    proof (rule server_okI)
      fix sid
      show "client_ok (bridge (S\<lparr>bridge := ?A\<lparr>asleep := True\<rparr>\<rparr>)) sid (clients (S\<lparr>bridge := ?A\<lparr>asleep := True\<rparr>\<rparr>) sid)"
        using D(5) [of sid] unfolding client_ok_def by simp
    qed (use D sleep in simp_all)
    then show ?thesis using t sleep by simp
  qed
qed

section \<open>Requests and their ends\<close>

text \<open>A request that was only looked at changes nothing but the next number.\<close>

lemma completions_start_result:
  assumes "completions_start tok repr_of name arrival req e = (res, e1)"
  shows "(e1 = e \<or> e1 = e\<lparr>next_seq_id := next_seq_id e + 1\<rparr>) \<and>
    (\<forall>q. res = Inr (Inr q) \<longrightarrow> e1 = e\<lparr>next_seq_id := next_seq_id e + 1\<rparr> \<and> validate e1 q = Inr () \<and>
       (\<exists>ts params. q = new_sequence (next_seq_id e) ts params arrival (rq_priority req) \<and> sampling_params_post_init params = Inr params))"
proof -
  have post: "sampling_params_post_init p = Inr p' \<Longrightarrow> sampling_params_post_init p' = Inr p'" for p p'
    by (simp add: sampling_params_post_init_def split: if_splits)
  show ?thesis
    using assms
    by (auto simp: completions_start_def build_sequence_def new_seq_id_def Let_def result_simps request_params_def
        split: option.splits if_splits sum.splits prod.splits py_error.splits) (blast dest: post)+
qed

lemma queue_new_id:
  assumes "server_ok X S" and "next_seq_id (inner (bridge S)) \<le> sid"
  shows "clients S sid = None" "map_of (output_queues (bridge S)) sid = None"
proof -
  note C = client_okD [OF server_okD(5) [OF assms(1), of sid]]
  show c: "clients S sid = None" using C(3) assms(2) by (cases "clients S sid") simp_all
  show "map_of (output_queues (bridge S)) sid = None" using C(1) c by (cases "map_of (output_queues (bridge S)) sid") simp_all
qed

lemma set_inner_ok:
  assumes S: "server_ok X S" and e: "e = inner (bridge S) \<or> e = (inner (bridge S))\<lparr>next_seq_id := next_seq_id (inner (bridge S)) + 1\<rparr>"
  shows "server_ok X (set_inner S e)"
proof (rule server_okI)
  note D = server_okD [OF S]
  have e': "eng_sched e = eng_sched (inner (bridge S))" "eng_config e = eng_config (inner (bridge S))" "eng_vocab e = eng_vocab (inner (bridge S))"
      "next_seq_id (inner (bridge S)) \<le> next_seq_id e"
    using e by auto
  show "served X (inner (bridge (set_inner S e)))"
    using e D(1) served_next_id [OF D(1), of "next_seq_id (inner (bridge S)) + 1"] by (auto simp: set_inner_def)
  show "asleep (bridge (set_inner S e)) \<Longrightarrow> has_new_work (bridge (set_inner S e)) \<or> \<not> eng_has_work (inner (bridge (set_inner S e)))"
    using D(4) by (simp add: set_inner_def eng_has_work_def e')
  fix sid
  show "client_ok (bridge (set_inner S e)) sid (clients (set_inner S e) sid)"
    unfolding set_inner_def using client_okD(2) [OF D(5) [of sid]]
    by (simp, intro client_ok_frame [OF D(5)]) (simp_all add: e')
qed (use server_okD(2,3) [OF S] e in \<open>auto simp: set_inner_def\<close>)

lemma accept_ok:
  assumes S: "server_ok X S" and start: "completions_start tok repr_of name arrival req (inner (bridge S)) = (Inr (Inr q), e)"
  shows "server_ok X (set_client S (seq_id q) (Created q) ((bridge S)\<lparr>inner := e\<rparr>))"
proof -
  let ?n = "next_seq_id (inner (bridge S))"
  have e: "e = (inner (bridge S))\<lparr>next_seq_id := ?n + 1\<rparr>" and val: "validate e q = Inr ()"
    using completions_start_result [OF start] by blast+
  obtain ts params where q: "q = new_sequence ?n ts params arrival (rq_priority req)" and post: "sampling_params_post_init params = Inr params"
    using completions_start_result [OF start] by blast
  have id: "seq_id q = ?n" by (simp add: q new_sequence_def)
  have S1: "server_ok X (set_inner S e)" by (rule set_inner_ok [OF S]) (simp add: e)
  note D = server_okD [OF S1]
  show ?thesis
  proof (rule server_okI)
    fix sid
    show "client_ok (bridge (set_client S (seq_id q) (Created q) ((bridge S)\<lparr>inner := e\<rparr>))) sid
        (clients (set_client S (seq_id q) (Created q) ((bridge S)\<lparr>inner := e\<rparr>)) sid)"
    proof (cases "sid = ?n")
      case True
      show ?thesis
        using queue_new_id [OF S, of ?n] post val q True by (auto simp: client_ok_def set_client_def id e)
    next
      case False
      then show ?thesis using D(5) [of sid] by (simp add: set_client_def set_inner_def id)
    qed
  qed (use D(1-4) in \<open>simp_all add: set_client_def set_inner_def\<close>)
qed

lemma start_ok:
  assumes S: "server_ok X S" and c: "clients S sid = Some (Created q)"
  shows "\<exists>A. begin_request X q (bridge S) = (None, A) \<and> server_ok X (set_client S sid Listening A) \<and>
     sid \<in> ids (eng_sched (inner A)) \<and> map_of (output_queues A) sid = Some []"
proof -
  let ?A = "bridge S" and ?e = "inner (bridge S)"
  note D = server_okD [OF S] and C = client_okD [OF server_okD(5) [OF S, of sid]]
  obtain ts params t prio where q: "q = new_sequence sid ts params t prio" and mx: "valid_params params"
    and val: "validate ?e q = Inr ()"
    using D(5) [of sid] c unfolding client_ok_def by blast
  have id: "seq_id q = sid" by (simp add: q new_sequence_def)
  have "map_of (output_queues ?A) sid = None" using C(1) c by (cases "map_of (output_queues ?A) sid") simp_all
  then have free: "map_of (seqs (eng_sched ?e)) sid = None" using D(3) by (auto simp: ids_dom)
  have lt: "sid < next_seq_id ?e" using C(3) c by simp
  obtain r e1 where pl: "place_seq q ?e = (r, e1)" by (cases "place_seq q ?e")
  note P = place_seq_ok [OF D(1) q lt free pl]
  have e1: "eng_config e1 = eng_config ?e" "eng_vocab e1 = eng_vocab ?e" "next_seq_id e1 = next_seq_id ?e"
    using pl by (auto simp: place_seq_def Let_def)
  have st: "store (eng_sched e1) r = q" unfolding P(6) by (simp add: set_seq_def)
  have "validate e1 (store (eng_sched e1) r) = Inr ()" unfolding st using val validate_static [of e1 ?e q] e1 by simp
  from add_request_ok [OF P(1,2) mx this] obtain e2 where a: "add_request X e1 r = (Inr (), e2)" "served X e2" "eng_static e1 e2"
      "map_of (seqs (eng_sched e2)) = (map_of (seqs (eng_sched e1)))(sid \<mapsto> r)"
    unfolding st id by blast
  define A where "A = ?A\<lparr>output_queues := AList.update sid [] (output_queues ?A), inner := e2, has_new_work := True\<rparr>"
  have run: "begin_request X q ?A = (None, A)"
    using pl a(1) by (simp add: begin_request_def Let_def id A_def)
  have "seqs (eng_sched e1) = seqs (eng_sched ?e)" unfolding P(6) by (simp add: set_seq_def)
  then have i2: "ids (eng_sched e2) = insert sid (ids (eng_sched ?e))" unfolding ids_dom a(4) by auto
  have qs: "map_of (output_queues A) = (map_of (output_queues ?A))(sid \<mapsto> [])" by (simp add: A_def update_conv')
  have "server_ok X (set_client S sid Listening A)"
  proof (rule server_okI)
    show "ids (eng_sched (inner (bridge (set_client S sid Listening A)))) \<subseteq> dom (map_of (output_queues (bridge (set_client S sid Listening A))))"
      using D(3) i2 by (auto simp: set_client_def qs) (auto simp: A_def)
    fix i
    show "client_ok (bridge (set_client S sid Listening A)) i (clients (set_client S sid Listening A) i)"
    proof (cases "i = sid")
      case True
      then show ?thesis using lt i2 a(3) e1 by (simp add: client_ok_def set_client_def qs) (simp add: A_def eng_static_def)
    next
      case False
      have "client_ok A i (clients S i)"
        by (rule client_ok_frame [OF D(5)])
          (use False client_okD(2) [OF D(5) [of i]] i2 a(3) e1 qs in \<open>auto simp: A_def eng_static_def\<close>)
      then show ?thesis using False by (simp add: set_client_def)
    qed
  qed (use a(2) D(2) in \<open>simp_all add: set_client_def A_def\<close>)
  then show ?thesis using run i2 qs by (intro exI [of _ A]) (simp add: A_def)
qed

lemma close_ok:
  assumes S: "server_ok X S" and c: "clients S sid = Some Listening \<or> clients S sid = Some Closing"
  shows "\<exists>A. close_request sid (bridge S) = Inr A \<and> server_ok X (set_client S sid Closed A)"
proof -
  let ?A = "bridge S" and ?e = "inner (bridge S)"
  note D = server_okD [OF S] and C = client_okD [OF server_okD(5) [OF S, of sid]]
  obtain e' where a: "eng_abort ?e sid = Inr e'" "served X e'" "eng_static ?e e'" "ids (eng_sched e') = ids (eng_sched ?e) - {sid}"
    using abort_fields [OF D(1)] by blast
  define A where "A = ?A\<lparr>inner := e', output_queues := AList.delete sid (output_queues ?A)\<rparr>"
  have qs: "map_of (output_queues A) = (map_of (output_queues ?A))(sid := None)" by (simp add: A_def delete_conv')
  have "server_ok X (set_client S sid Closed A)"
  proof (rule server_okI)
    show "ids (eng_sched (inner (bridge (set_client S sid Closed A)))) \<subseteq> dom (map_of (output_queues (bridge (set_client S sid Closed A))))"
      using D(3) a(4) by (auto simp: set_client_def qs) (auto simp: A_def)
    show "asleep (bridge (set_client S sid Closed A)) \<Longrightarrow> has_new_work (bridge (set_client S sid Closed A)) \<or>
        \<not> eng_has_work (inner (bridge (set_client S sid Closed A)))"
      using D(4) a(4) has_work_ids [OF D(1)] has_work_ids [OF a(2)] by (auto simp: set_client_def A_def)
    fix i
    show "client_ok (bridge (set_client S sid Closed A)) i (clients (set_client S sid Closed A) i)"
    proof (cases "i = sid")
      case True
      then show ?thesis using C(3) c a(3) by (auto simp: client_ok_def set_client_def qs) (auto simp: A_def eng_static_def)
    next
      case False
      have "client_ok A i (clients S i)"
        by (rule client_ok_frame [OF D(5)])
          (use False client_okD(2) [OF D(5) [of i]] a(3,4) qs in \<open>auto simp: A_def eng_static_def\<close>)
      then show ?thesis using False by (simp add: set_client_def)
    qed
  qed (use a(2) D(2) in \<open>simp_all add: set_client_def A_def\<close>)
  then show ?thesis using a(1) by (intro exI [of _ A]) (simp add: close_request_def A_def)
qed

lemma disconnect_ok:
  assumes S: "server_ok X S"
  shows "\<exists>A. abort_request sid (bridge S) = Inr A \<and> server_ok X (S\<lparr>bridge := A\<rparr>) \<and> sid \<notin> ids (eng_sched (inner A)) \<and>
     (map_of (output_queues (bridge S)) sid \<noteq> None \<longrightarrow> (\<exists>out \<in> set (the (map_of (output_queues A) sid)). finished out))"
proof -
  let ?A = "bridge S" and ?e = "inner (bridge S)"
  note D = server_okD [OF S]
  obtain e' where a: "eng_abort ?e sid = Inr e'" "served X e'" "eng_static ?e e'" "ids (eng_sched e') = ids (eng_sched ?e) - {sid}"
    using abort_fields [OF D(1)] by blast
  let ?out = "final_output sid ''abort'' None"
  define A where "A = put_output sid ?out (?A\<lparr>inner := e'\<rparr>)"
  have F: "inner A = e'" "has_new_work A = has_new_work ?A" "asleep A = asleep ?A" by (simp_all add: A_def)
  have qs: "map_of (output_queues A) i = map_option (\<lambda>q. if i = sid then q @ [?out] else q) (map_of (output_queues ?A) i)" for i
    unfolding A_def put_output_queues by simp
  have "server_ok X (S\<lparr>bridge := A\<rparr>)"
  proof (rule server_okI)
    have "dom (map_of (output_queues A)) = dom (map_of (output_queues ?A))" by (auto simp: qs dom_def)
    then show "ids (eng_sched (inner (bridge (S\<lparr>bridge := A\<rparr>)))) \<subseteq> dom (map_of (output_queues (bridge (S\<lparr>bridge := A\<rparr>))))"
      using D(3) a(4) F by auto
    show "asleep (bridge (S\<lparr>bridge := A\<rparr>)) \<Longrightarrow> has_new_work (bridge (S\<lparr>bridge := A\<rparr>)) \<or> \<not> eng_has_work (inner (bridge (S\<lparr>bridge := A\<rparr>)))"
      using D(4) a(4) has_work_ids [OF D(1)] has_work_ids [OF a(2)] F by auto
    fix i
    have "client_ok A i (clients S i)"
    proof (rule client_ok_frame [OF D(5)])
      assume l: "clients S i = Some Listening"
      note C = client_okD [OF D(5) [of i]]
      obtain queue where queue: "map_of (output_queues ?A) i = Some queue" using C(1) l by auto
      have "i \<in> ids (eng_sched ?e) \<or> (\<exists>out \<in> set queue. finished out)" using C(2) [OF l] queue by simp
      then show "i \<in> ids (eng_sched (inner A)) \<or> (\<exists>out \<in> set (the (map_of (output_queues A) i)). finished out)"
        using F a(4) by (auto simp: qs queue final_output_def)
    qed (use a(3) F qs in \<open>simp_all add: eng_static_def\<close>)
    then show "client_ok (bridge (S\<lparr>bridge := A\<rparr>)) i (clients (S\<lparr>bridge := A\<rparr>) i)" by simp
  next
    show "dict_wf (output_queues (bridge (S\<lparr>bridge := A\<rparr>)))" using D(2) put_output_wf [of "?A\<lparr>inner := e'\<rparr>"] by (simp add: A_def)
  qed (use a(2) F in simp_all)
  moreover have "\<exists>out \<in> set (the (map_of (output_queues A) sid)). finished out" if "map_of (output_queues ?A) sid \<noteq> None"
    using that by (auto simp: qs final_output_def)
  ultimately show ?thesis using a(1,4) F by (intro exI [of _ A]) (simp add: abort_request_def A_def)
qed

lemma receive_ok:
  assumes S: "server_ok X S" and c: "clients S sid = Some Listening" and take: "take_output sid (bridge S) = Some (out, A)"
  shows "server_ok X (note_output (set_client S sid (if finished out \<or> out_error out \<noteq> None then Closing else Listening) A) sid out)"
proof -
  let ?A = "bridge S"
  note D = server_okD [OF S] and C = client_okD [OF server_okD(5) [OF S, of sid]]
  obtain rest where queue: "map_of (output_queues ?A) sid = Some (out # rest)"
    and A: "A = ?A\<lparr>output_queues := AList.update sid rest (output_queues ?A)\<rparr>"
    using take by (auto simp: take_output_def split: option.splits list.splits)
  have qs: "map_of (output_queues A) = (map_of (output_queues ?A))(sid \<mapsto> rest)" by (simp add: A update_conv')
  have F: "inner A = inner ?A" "has_new_work A = has_new_work ?A" "asleep A = asleep ?A" by (simp_all add: A)
  let ?ph = "if finished out \<or> out_error out \<noteq> None then Closing else Listening"
  let ?S = "note_output (set_client S sid ?ph A) sid out"
  have B: "bridge ?S = A" "clients ?S i = (if i = sid then Some ?ph else clients S i)" for i
    by (simp_all add: note_output_def set_client_def)
  show ?thesis
  proof (rule server_okI, unfold B(1) F)
    show "served X (inner ?A)" by (rule D(1))
    show "dict_wf (output_queues A)" using D(2) by (simp add: A)
    show "ids (eng_sched (inner ?A)) \<subseteq> dom (map_of (output_queues A))" using D(3) queue by (auto simp: qs)
    show "asleep ?A \<Longrightarrow> has_new_work ?A \<or> \<not> eng_has_work (inner ?A)" by (rule D(4))
    fix i
    show "client_ok A i (clients ?S i)"
    proof (cases "i = sid")
      case True
      have "sid \<in> ids (eng_sched (inner ?A)) \<or> (\<exists>o' \<in> set rest. finished o')" if "\<not> finished out"
        using C(2) [OF c] that queue by auto
      then show ?thesis using C(3) c F unfolding B(2) True by (auto simp: client_ok_def qs)
    next
      case False
      have "client_ok A i (clients S i)"
        by (rule client_ok_frame [OF D(5)]) (use False client_okD(2) [OF D(5) [of i]] F qs in auto)
      then show ?thesis unfolding B(2) using False by simp
    qed
  qed
qed

lemma forget_ok:
  assumes S: "server_ok X S" and c: "clients S sid = Some (Created q)"
  shows "server_ok X (set_client S sid Closed (bridge S))"
proof (rule server_okI)
  note D = server_okD [OF S] and C = client_okD [OF server_okD(5) [OF S, of sid]]
  fix i
  show "client_ok (bridge (set_client S sid Closed (bridge S))) i (clients (set_client S sid Closed (bridge S)) i)"
  proof (cases "i = sid")
    case True
    then show ?thesis using C(1,3) c by (auto simp: client_ok_def set_client_def)
  next
    case False
    then show ?thesis using D(5) [of i] by (simp add: set_client_def)
  qed
qed (use server_okD [OF S] in \<open>simp_all add: set_client_def\<close>)

section \<open>Reachable servers\<close>

lemma server_step_ok:
  assumes "server_step X T torn repr_err S S'" and "server_ok X S" and T: "torch_ok T"
  shows "server_ok X S'"
  using assms(1,2)
proof (cases rule: server_step.cases)
  case (turn now A)
  then show ?thesis using loop_turn_ok [OF assms(2) T, of torn repr_err now] by auto
next
  case (refuse tok repr_of name arrival req reply e)
  show ?thesis unfolding refuse(1) by (rule set_inner_ok [OF assms(2) conjunct1 [OF completions_start_result [OF refuse(2)]]])
next
  case (crash tok repr_of name arrival req err e)
  show ?thesis unfolding crash(1) by (rule set_inner_ok [OF assms(2) conjunct1 [OF completions_start_result [OF crash(2)]]])
next
  case (accept tok repr_of name arrival req q e)
  then show ?thesis using accept_ok [OF assms(2)] by blast
next
  case (start sid q A)
  then show ?thesis using start_ok [OF assms(2), of sid q] by auto
next
  case (start_fails sid q err A)
  then show ?thesis using start_ok [OF assms(2), of sid q] by auto
next
  case (forget sid q)
  then show ?thesis using forget_ok [OF assms(2)] by blast
next
  case (receive sid out A)
  then show ?thesis using receive_ok [OF assms(2)] by blast
next
  case (cancel sid A)
  then show ?thesis using close_ok [OF assms(2), of sid] by auto
next
  case (finish sid A)
  then show ?thesis using close_ok [OF assms(2), of sid] by auto
next
  case (disconnect sid A)
  then show ?thesis using disconnect_ok [OF assms(2), of sid] by auto
qed

lemma init_server_ok:
  assumes "served X e" and "ids (eng_sched e) = {}"
  shows "server_ok X (init_server e)"
  using assms by (simp add: server_ok_def init_server_def init_async_def Let_def client_ok_def)

end
