(* ===== verification/Server_Live.thy ===== *)
theory Server_Live
  imports Server_Inv Generate_Ok
begin

text \<open>
  The engine loop alone answers everybody: left to itself it runs out of work after finitely many turns,
  and then every waiting task has its last output.
\<close>

fun turns ::
  "externals \<Rightarrow> 'a torch \<Rightarrow> ('a engine \<Rightarrow> py_error \<Rightarrow> 'a engine) \<Rightarrow> (py_error \<Rightarrow> string) \<Rightarrow> (nat \<Rightarrow> rat) \<Rightarrow> nat \<Rightarrow> nat
     \<Rightarrow> ('a::linordered_field) async_engine \<Rightarrow> 'a async_engine result" where
  "turns X T torn repr_err clock k 0 A = Inr A"
| "turns X T torn repr_err clock k (Suc n) A = rbind (loop_turn X T torn repr_err (clock k) A) (turns X T torn repr_err clock (Suc k) n)"

lemma turn_decreases:
  assumes S: "server_ok X S" and T: "torch_ok T" and work: "eng_has_work (inner (bridge S))"
  shows "\<exists>A. loop_turn X T torn repr_err now (bridge S) = Inr A \<and> server_ok X (S\<lparr>bridge := A\<rparr>) \<and>
     ((eng_sched (inner A), eng_sched (inner (bridge S))) \<in> progress_order \<or> \<not> eng_has_work (inner A))"
proof -
  let ?e = "inner (bridge S)"
  obtain A where A: "loop_turn X T torn repr_err now (bridge S) = Inr A" "server_ok X (S\<lparr>bridge := A\<rparr>)"
    "(\<exists>p b. stepped X ?e (inner A) p b) \<or> \<not> eng_has_work (inner A)"
    using loop_turn_ok [OF S T, of torn repr_err now] work by blast
  have "eng_ok X ?e" "eng_ok X (inner A)" using server_okD(1) [OF S] server_okD(1) [OF A(2)] by (simp_all add: served_at_def)
  then have "stepped X ?e (inner A) p b \<Longrightarrow> (eng_sched (inner A), eng_sched ?e) \<in> progress_order" for p b
    using step_decreases work by blast
  then show ?thesis using A by blast
qed

lemma turns_drain:
  assumes "server_ok X S" and T: "torch_ok T"
  shows "\<exists>n A. turns X T torn repr_err clock k n (bridge S) = Inr A \<and> server_ok X (S\<lparr>bridge := A\<rparr>) \<and> \<not> eng_has_work (inner A)"
  using assms(1)
proof (induction "eng_sched (inner (bridge S))" arbitrary: S k rule: wf_induct_rule [OF wf_progress])
  case 1
  show ?case
  proof (cases "eng_has_work (inner (bridge S))")
    case False
    then show ?thesis using 1(2) by (intro exI [of _ 0] exI [of _ "bridge S"]) simp
  next
    case True
    obtain A1 where turn: "loop_turn X T torn repr_err (clock k) (bridge S) = Inr A1" and ok: "server_ok X (S\<lparr>bridge := A1\<rparr>)"
      and next_: "(eng_sched (inner A1), eng_sched (inner (bridge S))) \<in> progress_order \<or> \<not> eng_has_work (inner A1)"
      using turn_decreases [OF 1(2) T True] by blast
    let ?S1 = "S\<lparr>bridge := A1\<rparr>"
    from next_ show ?thesis
    proof
      assume "\<not> eng_has_work (inner A1)"
      then show ?thesis using turn ok by (intro exI [of _ "Suc 0"] exI [of _ A1]) simp
    next
      assume "(eng_sched (inner A1), eng_sched (inner (bridge S))) \<in> progress_order"
      then have "(eng_sched (inner (bridge ?S1)), eng_sched (inner (bridge S))) \<in> progress_order" by simp
      from 1(1) [OF this ok, of "Suc k"] obtain n A where
        "turns X T torn repr_err clock (Suc k) n A1 = Inr A" "server_ok X (?S1\<lparr>bridge := A\<rparr>)" "\<not> eng_has_work (inner A)" by auto
      then show ?thesis using turn by (intro exI [of _ "Suc n"] exI [of _ A]) simp
    qed
  qed
qed

lemma idle_answered:
  assumes S: "server_ok X S" and idle: "\<not> eng_has_work (inner (bridge S))" and l: "clients S sid = Some Listening"
  shows "\<exists>queue. map_of (output_queues (bridge S)) sid = Some queue \<and> (\<exists>out \<in> set queue. finished out)"
proof -
  note D = server_okD [OF S] and C = client_okD [OF server_okD(5) [OF S, of sid]]
  have "ids (eng_sched (inner (bridge S))) = {}" using has_work_ids [OF D(1)] idle by simp
  then have "\<exists>out \<in> set (the (map_of (output_queues (bridge S)) sid)). finished out" using C(2) [OF l] by simp
  moreover obtain queue where "map_of (output_queues (bridge S)) sid = Some queue" using C(1) l by auto
  ultimately show ?thesis by simp
qed

lemma server_reach_ok:
  assumes "(server_step X T torn repr_err)\<^sup>*\<^sup>* S0 S" and "server_ok X S0" and "torch_ok T"
  shows "server_ok X S"
  using assms(1)
proof (induction rule: rtranclp_induct)
  case (step S S')
  then show ?case using server_step_ok assms(3) by blast
qed (rule assms(2))

section \<open>Answers\<close>

lemma stream_loop_ok:
  "\<forall>out \<in> set outs. out_error out = None \<Longrightarrow>
     stream_loop k outs = (map (\<lambda>out. ChunkEvent (out_text out) (out_finish_reason out)) outs,
       if outs = [] then k else out_num_output_tokens (last outs))"
  by (induction outs arbitrary: k) simp_all

lemma collect_loop_ok:
  "\<forall>out \<in> set outs. out_error out = None \<Longrightarrow>
     collect_loop t reason k outs = Inr (t @ concat (map out_text outs),
       if outs = [] then reason else out_finish_reason (last outs), if outs = [] then k else out_num_output_tokens (last outs))"
  by (induction outs arbitrary: t reason k) simp_all

lemma stream_loop_error:
  "\<forall>out \<in> set outs. out_error out = None \<Longrightarrow> out_error bad = Some message \<Longrightarrow>
     stream_loop k (outs @ bad # rest) = (map (\<lambda>out. ChunkEvent (out_text out) (out_finish_reason out)) outs @ [ErrorEvent message],
       if outs = [] then k else out_num_output_tokens (last outs))"
  by (induction outs arbitrary: k) simp_all

lemma collect_loop_error:
  "\<forall>out \<in> set outs. out_error out = None \<Longrightarrow> out_error bad = Some message \<Longrightarrow>
     collect_loop t reason k (outs @ bad # rest) = Inl (error_reply 500 message ''server_error'')"
  by (induction outs arbitrary: t reason k) simp_all

end
