(* ===== verification/Server_Props.thy ===== *)
theory Server_Props
  imports Server_Live Engine_Props
begin

text \<open>
  What the server guarantees to its clients, for every interleaving of the engine loop with the tasks of
  the requests and with disconnects.
\<close>

section \<open>Servers\<close>

text \<open>A state some interleaving leads to, from the start of the application on.\<close>

definition serving ::
  "externals \<Rightarrow> ('a::linordered_field) torch \<Rightarrow> ('a engine \<Rightarrow> py_error \<Rightarrow> 'a engine) \<Rightarrow> (py_error \<Rightarrow> string) \<Rightarrow> 'a server \<Rightarrow> bool" where
  "serving X T torn repr_err S \<longleftrightarrow> (\<exists>e0. built X T e0 \<and> (server_step X T torn repr_err)\<^sup>*\<^sup>* (init_server e0) S)"

lemma init_engine_ids:
  assumes "init_engine X T cuda measured itemsize c0 mc M tok krn junk = Inr e0"
  shows "ids (eng_sched e0) = {}"
  using assms by (auto simp: init_engine_def result_simps Let_def init_scheduler_def ids_def split: if_splits)

lemma serving_ok:
  assumes "serving X T torn repr_err S"
  shows "server_ok X S" "torch_ok T"
proof -
  obtain e0 where e0: "built X T e0" and reach: "(server_step X T torn repr_err)\<^sup>*\<^sup>* (init_server e0) S"
    using assms unfolding serving_def by blast
  show T: "torch_ok T" using e0 by (simp add: built_def)
  have "ids (eng_sched e0) = {}" using e0 init_engine_ids unfolding built_def by blast
  then show "server_ok X S" using server_reach_ok [OF reach init_server_ok T] built_served [OF e0] by blast
qed

lemma serving_step: "serving X T torn repr_err S \<Longrightarrow> server_step X T torn repr_err S S' \<Longrightarrow> serving X T torn repr_err S'"
  unfolding serving_def by (meson rtranclp.rtrancl_into_rtrancl)

section \<open>An example\<close>

definition ex_body :: completion_request where
  "ex_body = \<lparr>rq_model = ''m'', rq_prompt = PromptIdLists [[1, 2, 3]], rq_max_tokens = Some 2, rq_temperature = 0, rq_top_p = 1,
     rq_stop = None, rq_stream = False, rq_include_usage = None, rq_n = 1, rq_logprobs = None, rq_echo = False, rq_seed = None,
     rq_top_k = None, rq_presence_penalty = Some 0, rq_frequency_penalty = None, rq_repetition_penalty = Some 1,
     rq_ignore_eos = False, rq_priority = None\<rparr>"

definition ex_start :: "(error_response + sequence) result \<times> rat engine" where
  "ex_start = completions_start (\<lambda>_. []) id ''m'' 0 ex_body ex_engine"

definition ex_admitted :: sequence where
  "ex_admitted = projr (projr (fst ex_start))"

definition ex_idle :: "rat server" where
  "ex_idle = init_server ex_engine"

definition ex_created :: "rat server" where
  "ex_created = set_client ex_idle 0 (Created ex_admitted) ((bridge ex_idle)\<lparr>inner := snd ex_start\<rparr>)"

definition ex_listening :: "rat server" where
  "ex_listening = set_client ex_created 0 Listening (snd (begin_request ex_ext ex_admitted (bridge ex_created)))"

lemma ex_start_state:
  "case fst ex_start of Inr (Inr q) \<Rightarrow> seq_id q = 0 \<and> token_ids q = [1, 2, 3] | _ \<Rightarrow> False"
  by code_simp

lemma ex_start_ok: "completions_start (\<lambda>_. []) id ''m'' 0 ex_body ex_engine = (Inr (Inr ex_admitted), snd ex_start)" "seq_id ex_admitted = 0"
proof -
  obtain q where "fst ex_start = Inr (Inr q)" "seq_id q = 0" using ex_start_state by (auto split: sum.splits)
  then have "fst ex_start = Inr (Inr ex_admitted)" "seq_id ex_admitted = 0" by (simp_all add: ex_admitted_def)
  then show "completions_start (\<lambda>_. []) id ''m'' 0 ex_body ex_engine = (Inr (Inr ex_admitted), snd ex_start)" "seq_id ex_admitted = 0"
    by (simp_all add: ex_start_def prod_eq_iff)
qed

abbreviation ex_serving :: "rat server \<Rightarrow> bool" where
  "ex_serving \<equiv> serving ex_ext ex_torch (\<lambda>e _. e) (\<lambda>_. ''err'')"

lemma ex_idle_serving: "ex_serving ex_idle"
  unfolding serving_def ex_idle_def using ex_built by blast

lemma ex_created_serving: "ex_serving ex_created" "clients ex_created 0 = Some (Created ex_admitted)"
proof -
  have "completions_start (\<lambda>_. []) id ''m'' 0 ex_body (inner (bridge ex_idle)) = (Inr (Inr ex_admitted), snd ex_start)"
    using ex_start_ok(1) by (simp add: ex_idle_def init_server_def init_async_def)
  from serving_step [OF ex_idle_serving server_step.accept [OF this]] show "ex_serving ex_created"
    unfolding ex_created_def ex_start_ok(2) .
  show "clients ex_created 0 = Some (Created ex_admitted)" by (simp add: ex_created_def set_client_def)
qed

lemma ex_listening_serving: "ex_serving ex_listening" "clients ex_listening 0 = Some Listening"
proof -
  obtain A where A: "begin_request ex_ext ex_admitted (bridge ex_created) = (None, A)"
    using start_ok [OF serving_ok(1) [OF ex_created_serving(1)] ex_created_serving(2)] by blast
  from serving_step [OF ex_created_serving(1) server_step.start [OF ex_created_serving(2) A]] show "ex_serving ex_listening"
    by (simp add: ex_listening_def A)
  show "clients ex_listening 0 = Some Listening" by (simp add: ex_listening_def set_client_def)
qed

section \<open>The handler\<close>

text \<open>The prompt and parameters of a request the engine can serve.\<close>

definition servable :: "'a engine \<Rightarrow> (ustr \<Rightarrow> int list) \<Rightarrow> completion_request \<Rightarrow> int list \<Rightarrow> sampling_params \<Rightarrow> bool" where
  "servable e tok req ts params \<longleftrightarrow>
     prompt_ids tok (rq_prompt req) = Inr ts \<and> request_params e req ts = Inr params \<and> acceptable e ts params"

lemma prompt_ids_error: "prompt_ids tok p = Inl err \<Longrightarrow> \<exists>msg. err = ValueError msg"
  by (induction tok p rule: prompt_ids.induct) auto

lemma request_params_error: "request_params e req ts = Inl err \<Longrightarrow> \<exists>msg. err = ValueError msg"
  by (auto simp: request_params_def sampling_params_post_init_def split: if_splits)

lemma request_params_valid: "request_params e req ts = Inr params \<Longrightarrow> sampling_params_post_init params = Inr params"
  by (auto simp: request_params_def sampling_params_post_init_def split: if_splits)

lemma validate_new:
  assumes "cfg_max_model_len (eng_config e) = Some L" and "sampling_params_post_init params = Inr params"
  shows "validate (e\<lparr>next_seq_id := k\<rparr>) (new_sequence i ts params t prio) = Inr () \<longleftrightarrow> acceptable e ts params"
    and "validate (e\<lparr>next_seq_id := k\<rparr>) (new_sequence i ts params t prio) = Inr () \<or>
      (\<exists>msg. validate (e\<lparr>next_seq_id := k\<rparr>) (new_sequence i ts params t prio) = Inl (ValueError msg))"
  using validate_iff [of "e\<lparr>next_seq_id := k\<rparr>" L "new_sequence i ts params t prio"] assms
  by (auto simp: acceptable_def new_sequence_def num_prompt_tokens_def)

lemma build_accepts:
  assumes "cfg_max_model_len (eng_config e) = Some L" and "servable e tok req ts params"
  shows "build_sequence tok arrival req e
    = (Inr (new_sequence (next_seq_id e) ts params arrival (rq_priority req)), e\<lparr>next_seq_id := next_seq_id e + 1\<rparr>)"
proof -
  have s: "prompt_ids tok (rq_prompt req) = Inr ts" "request_params e req ts = Inr params" "acceptable e ts params"
    using assms(2) by (simp_all add: servable_def)
  have "validate (e\<lparr>next_seq_id := next_seq_id e + 1\<rparr>) (new_sequence (next_seq_id e) ts params arrival (rq_priority req)) = Inr ()"
    using validate_new(1) [OF assms(1) request_params_valid [OF s(2)]] s(3) by blast
  then show ?thesis using s by (simp add: build_sequence_def new_seq_id_def Let_def)
qed

lemma build_refuses:
  assumes "cfg_max_model_len (eng_config e) = Some L" and "\<nexists>ts params. servable e tok req ts params"
  shows "\<exists>msg e1. build_sequence tok arrival req e = (Inl (ValueError msg), e1) \<and> (e1 = e \<or> e1 = e\<lparr>next_seq_id := next_seq_id e + 1\<rparr>)"
proof (cases "prompt_ids tok (rq_prompt req)")
  case (Inl err)
  then show ?thesis using prompt_ids_error [OF Inl] by (auto simp: build_sequence_def)
next
  case ts: (Inr ts)
  show ?thesis
  proof (cases "request_params e req ts")
    case (Inl err)
    then show ?thesis using ts request_params_error [OF Inl] by (auto simp: build_sequence_def)
  next
    case (Inr params)
    have "\<not> acceptable e ts params" using assms(2) ts Inr unfolding servable_def by blast
    then obtain msg where "validate (e\<lparr>next_seq_id := next_seq_id e + 1\<rparr>)
        (new_sequence (next_seq_id e) ts params arrival (rq_priority req)) = Inl (ValueError msg)"
      using validate_new [OF assms(1) request_params_valid [OF Inr]] by blast
    then show ?thesis using ts Inr by (simp add: build_sequence_def new_seq_id_def Let_def)
  qed
qed

text \<open>C9: the completions handler refuses exactly what cannot be served, and never raises: a request
  with an unsupported option, another model's name, a batched prompt, invalid sampling parameters or a
  prompt the engine cannot hold gets a 400 or 404 reply and leaves the engine as it was but for a used
  number; every other request becomes a sequence with the next number, its prompt and its parameters.\<close>

theorem handler_exact:
  assumes "serving X T torn repr_err S" and "e = inner (bridge S)"
  shows "if unsupported req = None \<and> (rq_model req = name \<or> rq_model req = cfg_model (eng_config e)) \<and> (\<exists>ts params. servable e tok req ts params)
    then \<exists>ts params. servable e tok req ts params \<and> completions_start tok repr_of name arrival req e
       = (Inr (Inr (new_sequence (next_seq_id e) ts params arrival (rq_priority req))), e\<lparr>next_seq_id := next_seq_id e + 1\<rparr>)
    else \<exists>reply e1. completions_start tok repr_of name arrival req e = (Inr (Inl reply), e1) \<and> er_status reply \<in> {400, 404} \<and>
       (e1 = e \<or> e1 = e\<lparr>next_seq_id := next_seq_id e + 1\<rparr>)"
proof -
  have "eng_conf X e" using server_okD(1) [OF serving_ok(1) [OF assms(1)]] by (simp add: served_at_def eng_ok_at_def assms(2))
  then obtain L where L: "cfg_max_model_len (eng_config e) = Some L" by (auto simp: eng_conf_def)
  show ?thesis
  proof (cases "unsupported req = None \<and> (rq_model req = name \<or> rq_model req = cfg_model (eng_config e))")
    case False
    then show ?thesis
      by (cases "unsupported req") (auto simp: completions_start_def bad_request_def error_reply_def)
  next
    case known: True
    show ?thesis
    proof (cases "\<exists>ts params. servable e tok req ts params")
      case True
      then obtain ts params where "servable e tok req ts params" by blast
      then show ?thesis using known build_accepts [OF L] by (auto simp: completions_start_def)
    next
      case False
      from build_refuses [OF L this] obtain msg e1 where "build_sequence tok arrival req e = (Inl (ValueError msg), e1)"
        "e1 = e \<or> e1 = e\<lparr>next_seq_id := next_seq_id e + 1\<rparr>" by blast
      then show ?thesis using known False by (auto simp: completions_start_def bad_request_def error_reply_def)
    qed
  qed
qed

theorem handler_exact_witness:
  "\<exists>ts params. servable ex_engine (\<lambda>_. []) ex_body ts params \<and> completions_start (\<lambda>_. []) id ''m'' 0 ex_body ex_engine
     = (Inr (Inr (new_sequence (next_seq_id ex_engine) ts params 0 None)), ex_engine\<lparr>next_seq_id := next_seq_id ex_engine + 1\<rparr>)"
proof -
  have e: "ex_engine = inner (bridge ex_idle)" by (simp add: ex_idle_def init_server_def init_async_def)
  have "fst (completions_start (\<lambda>_. []) id ''m'' 0 ex_body ex_engine) = Inr (Inr ex_admitted)" using ex_start_ok(1) by simp
  moreover have "rq_priority ex_body = None" by (simp add: ex_body_def)
  ultimately show ?thesis
    using handler_exact [OF ex_idle_serving e, of ex_body "''m''" "\<lambda>_. []" id 0] by (auto split: if_splits)
qed

section \<open>Nobody is stranded\<close>

text \<open>C10: no client is stranded and no work is lost: whatever the order of engine steps, requests and
  disconnects, a task that waits on its queue has its request in the scheduler or a last output in the
  queue, and the engine loop sleeps only when there is nothing to do or its flag is already set.\<close>

theorem nobody_stranded:
  assumes "serving X T torn repr_err S"
  shows "(\<forall>sid. clients S sid = Some Listening \<longrightarrow> sid \<in> ids (eng_sched (inner (bridge S))) \<or>
        (\<exists>queue out. map_of (output_queues (bridge S)) sid = Some queue \<and> out \<in> set queue \<and> finished out)) \<and>
     (asleep (bridge S) \<longrightarrow> has_new_work (bridge S) \<or> \<not> eng_has_work (inner (bridge S)))"
proof -
  note D = server_okD [OF serving_ok(1) [OF assms]]
  have "sid \<in> ids (eng_sched (inner (bridge S))) \<or>
      (\<exists>queue out. map_of (output_queues (bridge S)) sid = Some queue \<and> out \<in> set queue \<and> finished out)"
    if "clients S sid = Some Listening" for sid
    using client_okD(1,2) [OF D(5) [of sid]] that by (cases "map_of (output_queues (bridge S)) sid") auto
  then show ?thesis using D(4) by blast
qed

theorem nobody_stranded_witness:
  "0 \<in> ids (eng_sched (inner (bridge ex_listening))) \<or>
   (\<exists>queue out. map_of (output_queues (bridge ex_listening)) 0 = Some queue \<and> out \<in> set queue \<and> finished out)"
  using nobody_stranded [OF ex_listening_serving(1)] ex_listening_serving(2) by blast

text \<open>C11: the engine loop answers everybody: from any state of the server, the loop's own turns, with
  no help from the tasks, return without an error and after finitely many of them every waiting client
  has a last output in its queue.\<close>

theorem everybody_answered:
  assumes "serving X T torn repr_err S"
  shows "\<exists>n A. turns X T torn repr_err clock 0 n (bridge S) = Inr A \<and> \<not> eng_has_work (inner A) \<and>
     (\<forall>sid. clients S sid = Some Listening \<longrightarrow> (\<exists>queue out. map_of (output_queues A) sid = Some queue \<and> out \<in> set queue \<and> finished out))"
proof -
  obtain n A where A: "turns X T torn repr_err clock 0 n (bridge S) = Inr A" "server_ok X (S\<lparr>bridge := A\<rparr>)" "\<not> eng_has_work (inner A)"
    using turns_drain [OF serving_ok [OF assms]] by blast
  have "\<exists>queue out. map_of (output_queues A) sid = Some queue \<and> out \<in> set queue \<and> finished out" if "clients S sid = Some Listening" for sid
    using idle_answered [OF A(2), of sid] A(3) that by auto
  then show ?thesis using A by blast
qed

theorem everybody_answered_witness:
  "\<exists>n A queue out. turns ex_ext ex_torch (\<lambda>e _. e) (\<lambda>_. ''err'') (\<lambda>_. 0) 0 n (bridge ex_listening) = Inr A \<and>
     map_of (output_queues A) 0 = Some queue \<and> out \<in> set queue \<and> finished out"
  using everybody_answered [OF ex_listening_serving(1), of "\<lambda>_. 0"] ex_listening_serving(2) by blast

text \<open>A disconnect that comes before the task has started changes nothing: the task, unless it is
  cancelled, still brings its request to the engine.\<close>

lemma early_disconnect_lost:
  assumes "serving X T torn repr_err S" and "clients S sid = Some (Created q)" and "abort_request sid (bridge S) = Inr A"
  shows "eng_sched (inner A) = eng_sched (inner (bridge S))" "output_queues A = output_queues (bridge S)"
    "\<exists>A'. begin_request X q A = (None, A') \<and> sid \<in> ids (eng_sched (inner A'))"
proof -
  note D = server_okD [OF serving_ok(1) [OF assms(1)]]
  have none: "map_of (output_queues (bridge S)) sid = None" using client_okD(1) [OF D(5) [of sid]] assms(2) by auto
  then have "map_of (seqs (eng_sched (inner (bridge S)))) sid = None" using D(3) unfolding ids_dom by auto
  then have A: "A = put_output sid (final_output sid ''abort'' None) ((bridge S)\<lparr>inner := (inner (bridge S))\<lparr>eng_sched := eng_sched (inner (bridge S))\<rparr>\<rparr>)"
    using assms(3) by (simp add: abort_request_def eng_abort_def sched_abort_def)
  show "eng_sched (inner A) = eng_sched (inner (bridge S))" "output_queues A = output_queues (bridge S)"
    using none by (simp_all add: A put_output_def)
  have disc: "serving X T torn repr_err (S\<lparr>bridge := A\<rparr>)"
    by (rule serving_step [OF assms(1) server_step.disconnect [OF _ assms(3)]]) (simp add: assms(2))
  show "\<exists>A'. begin_request X q A = (None, A') \<and> sid \<in> ids (eng_sched (inner A'))"
    using start_ok [OF serving_ok(1) [OF disc], of sid q] assms(2) by auto
qed

text \<open>C12: the engine works for nobody whose task has ended: every request in the scheduler belongs to a
  task that listens to its queue or is about to close it, and that queue is registered; a task that finished,
  was cancelled or failed has no queue. A disconnect never raises: once the task has brought its request to
  the engine it removes the request at once, without waiting for the task, whose queue gets a last output;
  before that it changes neither the scheduler nor the queues, and the request still reaches the engine when
  its task starts.\<close>

theorem no_orphans:
  assumes "serving X T torn repr_err S"
  shows "(\<forall>sid. sid \<in> ids (eng_sched (inner (bridge S))) \<longrightarrow>
       (clients S sid = Some Listening \<or> clients S sid = Some Closing) \<and> (\<exists>queue. map_of (output_queues (bridge S)) sid = Some queue)) \<and>
     (\<forall>sid. clients S sid = Some Closed \<longrightarrow> map_of (output_queues (bridge S)) sid = None) \<and>
     (\<forall>sid. \<exists>A. abort_request sid (bridge S) = Inr A \<and> sid \<notin> ids (eng_sched (inner A)) \<and>
        (clients S sid = Some Listening \<or> clients S sid = Some Closing \<longrightarrow>
           (\<exists>queue. map_of (output_queues (bridge S)) sid = Some queue \<and>
              map_of (output_queues A) sid = Some (queue @ [final_output sid ''abort'' None]))) \<and>
        (\<forall>q. clients S sid = Some (Created q) \<longrightarrow>
           eng_sched (inner A) = eng_sched (inner (bridge S)) \<and> output_queues A = output_queues (bridge S) \<and>
           (\<exists>A'. begin_request X q A = (None, A') \<and> sid \<in> ids (eng_sched (inner A')))))"
proof -
  note D = server_okD [OF serving_ok(1) [OF assms]]
  have "(clients S sid = Some Listening \<or> clients S sid = Some Closing) \<and> (\<exists>queue. map_of (output_queues (bridge S)) sid = Some queue)"
    if "sid \<in> ids (eng_sched (inner (bridge S)))" for sid
    using client_okD(1) [OF D(5) [of sid]] D(3) that by blast
  moreover have "map_of (output_queues (bridge S)) sid = None" if "clients S sid = Some Closed" for sid
    using client_okD(1) [OF D(5) [of sid]] that by auto
  moreover have "\<exists>A. abort_request sid (bridge S) = Inr A \<and> sid \<notin> ids (eng_sched (inner A)) \<and>
        (clients S sid = Some Listening \<or> clients S sid = Some Closing \<longrightarrow>
           (\<exists>queue. map_of (output_queues (bridge S)) sid = Some queue \<and>
              map_of (output_queues A) sid = Some (queue @ [final_output sid ''abort'' None]))) \<and>
        (\<forall>q. clients S sid = Some (Created q) \<longrightarrow>
           eng_sched (inner A) = eng_sched (inner (bridge S)) \<and> output_queues A = output_queues (bridge S) \<and>
           (\<exists>A'. begin_request X q A = (None, A') \<and> sid \<in> ids (eng_sched (inner A'))))" for sid
  proof -
    obtain A where A: "abort_request sid (bridge S) = Inr A" "sid \<notin> ids (eng_sched (inner A))"
      using disconnect_ok [OF serving_ok(1) [OF assms], of sid] by blast
    have "map_of (output_queues A) sid = Some (queue @ [final_output sid ''abort'' None])"
      if "map_of (output_queues (bridge S)) sid = Some queue" for queue
      using A(1) that by (auto simp: abort_request_def result_simps put_output_queues)
    moreover have "\<exists>queue. map_of (output_queues (bridge S)) sid = Some queue"
      if "clients S sid = Some Listening \<or> clients S sid = Some Closing"
      using client_okD(1) [OF D(5) [of sid]] that by blast
    ultimately show ?thesis using A early_disconnect_lost [OF assms _ A(1)] by blast
  qed
  ultimately show ?thesis by blast
qed

theorem no_orphans_witness:
  "(\<exists>A. abort_request 0 (bridge ex_listening) = Inr A \<and> 0 \<notin> ids (eng_sched (inner A)) \<and>
     (\<exists>queue. map_of (output_queues A) 0 = Some (queue @ [final_output 0 ''abort'' None]))) \<and>
   (\<exists>A A'. abort_request 0 (bridge ex_created) = Inr A \<and> begin_request ex_ext ex_admitted A = (None, A') \<and> 0 \<in> ids (eng_sched (inner A')))"
proof
  show "\<exists>A. abort_request 0 (bridge ex_listening) = Inr A \<and> 0 \<notin> ids (eng_sched (inner A)) \<and>
     (\<exists>queue. map_of (output_queues A) 0 = Some (queue @ [final_output 0 ''abort'' None]))"
    using no_orphans [OF ex_listening_serving(1)] ex_listening_serving(2) by blast
  show "\<exists>A A'. abort_request 0 (bridge ex_created) = Inr A \<and> begin_request ex_ext ex_admitted A = (None, A') \<and> 0 \<in> ids (eng_sched (inner A'))"
    using no_orphans [OF ex_created_serving(1)] ex_created_serving(2) by blast
qed

text \<open>C13: what the handler accepted, the engine takes: when the task of an accepted request starts,
  however many requests, steps and disconnects came in between, \<open>generate\<close> registers an empty queue,
  \<open>add_request\<close> raises nothing, the request is in the scheduler and the loop is woken.\<close>

theorem accepted_runs:
  assumes "serving X T torn repr_err S" and "clients S sid = Some (Created q)"
  shows "\<exists>A. begin_request X q (bridge S) = (None, A) \<and> sid \<in> ids (eng_sched (inner A)) \<and> map_of (output_queues A) sid = Some [] \<and>
     has_new_work A"
proof -
  obtain A where A: "begin_request X q (bridge S) = (None, A)" "sid \<in> ids (eng_sched (inner A))" "map_of (output_queues A) sid = Some []"
    using start_ok [OF serving_ok(1) [OF assms(1)] assms(2)] by blast
  moreover have "has_new_work A" using A(1) by (auto simp: begin_request_def Let_def split: prod.splits sum.splits)
  ultimately show ?thesis by blast
qed

theorem accepted_runs_witness:
  "\<exists>A. begin_request ex_ext ex_admitted (bridge ex_created) = (None, A) \<and> 0 \<in> ids (eng_sched (inner A)) \<and> has_new_work A"
  using accepted_runs [OF ex_created_serving] by blast

section \<open>Answers\<close>




end
