(* ===== verification/Loader.thy ===== *)
theory Loader
  imports Qwen3 "HOL-Library.AList"
begin

text \<open>
  \<open>engine/model/loader.py\<close>: the configuration with its end tokens, and the strict loading of a
  checkpoint, which must have every tensor the model needs and no other. The files are given as
  dictionaries from names to tensors, in the order of their sorted paths; a tensor is its shape and its
  values in row-major order.
\<close>

section \<open>The configuration\<close>

text \<open>\<open>tuple(dict.fromkeys(xs))\<close>: every element where it first occurs.\<close>

fun from_keys :: "int list \<Rightarrow> int list" where
  "from_keys [] = []"
| "from_keys (x # xs) = x # filter (\<lambda>y. y \<noteq> x) (from_keys xs)"

text \<open>\<open>gen\<close>: the contents of \<open>generation_config.json\<close>, if there is one.\<close>

definition load_config :: "json_obj \<Rightarrow> json_obj option \<Rightarrow> model_config result" where
  "load_config config gen =
     rbind (from_hf_dict config) (\<lambda>cfg.
     case gen of
       None \<Rightarrow> Inr cfg
     | Some g \<Rightarrow>
         if json_get g ''eos_token_id'' JNull = JNull then Inr cfg
         else rbind (eos_of (json_get g ''eos_token_id'' JNull)) (\<lambda>extra.
           Inr (cfg\<lparr>eos_token_ids := from_keys (eos_token_ids cfg @ extra)\<rparr>)))"

section \<open>Tensors\<close>

record 'a tensor =
  t_shape :: "nat list"
  t_data :: "'a list"

type_synonym 'a tensors = "(string \<times> 'a tensor) list"

definition tensor_ok :: "'a tensor \<Rightarrow> bool" where
  "tensor_ok t \<longleftrightarrow> length (t_data t) = prod_list (t_shape t)"

text \<open>\<open>torch.cat(ts, dim=0)\<close>, as documented: the shapes agree but for the first dimension, and one-dimensional
  empty tensors are skipped.\<close>

definition cat_rows :: "'a tensor list \<Rightarrow> 'a tensor result" where
  "cat_rows ts =
     (case filter (\<lambda>t. t_shape t \<noteq> [0]) ts of
        [] \<Rightarrow> Inr \<lparr>t_shape = [0], t_data = []\<rparr>
      | u # us \<Rightarrow>
          if t_shape u \<noteq> [] \<and> list_all (\<lambda>t. t_shape t \<noteq> [] \<and> tl (t_shape t) = tl (t_shape u)) us
          then Inr \<lparr>t_shape = sum_list (map (hd \<circ> t_shape) (u # us)) # tl (t_shape u), t_data = concat (map t_data (u # us))\<rparr>
          else Inl (RuntimeError ''Sizes of tensors must match except in dimension 0''))"

text \<open>The rows of a matrix.\<close>

definition rows_of :: "'a tensor \<Rightarrow> 'a list list" where
  "rows_of t = (case t_shape t of [m, n] \<Rightarrow> map (\<lambda>i. py_slice (t_data t) (i * n) (i * n + n)) [0..<m] | _ \<Rightarrow> [])"

section \<open>The parameters of the model\<close>

text \<open>\<open>dict(model.named_parameters())\<close>; a negative size is refused when the model is constructed.\<close>

definition layer_parameters :: "model_config \<Rightarrow> (string \<times> int list) list" where
  "layer_parameters cfg =
     [(''self_attn.qkv_proj.weight'', [num_attention_heads cfg * head_dim cfg + 2 * (num_key_value_heads cfg * head_dim cfg), hidden_size cfg]),
      (''self_attn.o_proj.weight'', [hidden_size cfg, num_attention_heads cfg * head_dim cfg]),
      (''self_attn.q_norm.weight'', [head_dim cfg]),
      (''self_attn.k_norm.weight'', [head_dim cfg]),
      (''mlp.gate_up_proj.weight'', [2 * intermediate_size cfg, hidden_size cfg]),
      (''mlp.down_proj.weight'', [hidden_size cfg, intermediate_size cfg]),
      (''input_layernorm.weight'', [hidden_size cfg]),
      (''post_attention_layernorm.weight'', [hidden_size cfg])]"

definition dst_prefix :: "nat \<Rightarrow> string" where
  "dst_prefix i = ''layers.'' @ show_nat i @ ''.''"

definition src_prefix :: "nat \<Rightarrow> string" where
  "src_prefix i = ''model.layers.'' @ show_nat i @ ''.''"

definition parameters :: "model_config \<Rightarrow> (string \<times> int list) list" where
  "parameters cfg =
     (''embed_tokens.weight'', [mc_vocab_size cfg, hidden_size cfg]) #
     concat (map (\<lambda>i. map (\<lambda>(name, sh). (dst_prefix i @ name, sh)) (layer_parameters cfg)) [0..<nat (num_hidden_layers cfg)]) @
     (''norm.weight'', [hidden_size cfg]) #
     (if tie_word_embeddings cfg then [] else [(''lm_head.weight'', [mc_vocab_size cfg, hidden_size cfg])])"

definition named_parameters :: "model_config \<Rightarrow> (string \<times> nat list) list result" where
  "named_parameters cfg =
     (if 0 \<le> head_dim cfg \<and> 0 \<le> max_position_embeddings cfg \<and> list_all (\<lambda>(_, sh). list_all ((\<le>) 0) sh) (parameters cfg)
      then Inr (map (\<lambda>(name, sh). (name, map nat sh)) (parameters cfg))
      else Inl (RuntimeError ''negative dimension''))"

section \<open>Reading the checkpoint\<close>

text \<open>\<open>where\<close>: a name in two files is read from the later one.\<close>

definition where_of :: "'a tensors list \<Rightarrow> 'a tensors" where
  "where_of files = fold (\<lambda>f d. fold (\<lambda>(k, t) d. AList.update k t d) f d) files []"

definition take_tensor :: "string \<Rightarrow> 'a tensors \<Rightarrow> ('a tensor \<times> 'a tensors) result" where
  "take_tensor key d = (case map_of d key of None \<Rightarrow> Inl KeyError | Some t \<Rightarrow> Inr (t, AList.delete key d))"

fun take_tensors :: "string list \<Rightarrow> 'a tensors \<Rightarrow> ('a tensor list \<times> 'a tensors) result" where
  "take_tensors [] d = Inr ([], d)"
| "take_tensors (key # keys) d =
     rbind (take_tensor key d) (\<lambda>(t, d1). rbind (take_tensors keys d1) (\<lambda>(ts, d2). Inr (t # ts, d2)))"

definition qkv_names :: "string list" where
  "qkv_names = map (\<lambda>p. ''self_attn.'' @ p @ ''_proj.weight'') [''q'', ''k'', ''v'']"

definition gate_up_names :: "string list" where
  "gate_up_names = map (\<lambda>p. ''mlp.'' @ p @ ''_proj.weight'') [''gate'', ''up'']"

definition plain_names :: "string list" where
  "plain_names = [''self_attn.o_proj.weight'', ''self_attn.q_norm.weight'', ''self_attn.k_norm.weight'', ''mlp.down_proj.weight'',
     ''input_layernorm.weight'', ''post_attention_layernorm.weight'']"

text \<open>The state is the dictionaries \<open>weights\<close> and \<open>where\<close>.\<close>

definition load_cat :: "string \<Rightarrow> string list \<Rightarrow> 'a tensors \<times> 'a tensors \<Rightarrow> ('a tensors \<times> 'a tensors) result" where
  "load_cat name keys = (\<lambda>(weights, d).
     rbind (take_tensors keys d) (\<lambda>(ts, d1). rbind (cat_rows ts) (\<lambda>t. Inr (AList.update name t weights, d1))))"

definition load_one :: "string \<Rightarrow> string \<Rightarrow> 'a tensors \<times> 'a tensors \<Rightarrow> ('a tensors \<times> 'a tensors) result" where
  "load_one name key = (\<lambda>(weights, d). rbind (take_tensor key d) (\<lambda>(t, d1). Inr (AList.update name t weights, d1)))"

definition load_layer :: "'a tensors \<times> 'a tensors \<Rightarrow> nat \<Rightarrow> ('a tensors \<times> 'a tensors) result" where
  "load_layer st i =
     (let src = src_prefix i; dst = dst_prefix i in
      rbind (load_cat (dst @ ''self_attn.qkv_proj.weight'') (map ((@) src) qkv_names) st) (\<lambda>st1.
      rbind (load_cat (dst @ ''mlp.gate_up_proj.weight'') (map ((@) src) gate_up_names) st1) (\<lambda>st2.
        foldM (\<lambda>st name. load_one (dst @ name) (src @ name) st) st2 plain_names)))"

definition load_weights :: "model_config \<Rightarrow> 'a tensors \<Rightarrow> ('a tensors \<times> 'a tensors) result" where
  "load_weights cfg d =
     rbind (load_one ''embed_tokens.weight'' ''model.embed_tokens.weight'' ([], d)) (\<lambda>st1.
     rbind (load_one ''norm.weight'' ''model.norm.weight'' st1) (\<lambda>st2.
     rbind (if tie_word_embeddings cfg then Inr (fst st2, AList.delete ''lm_head.weight'' (snd st2))
            else load_one ''lm_head.weight'' ''lm_head.weight'' st2) (\<lambda>st3.
       foldM load_layer st3 [0..<nat (num_hidden_layers cfg)])))"

text \<open>The examples in the messages are left out.\<close>

definition check_names :: "(string \<times> nat list) list \<Rightarrow> 'a tensors \<Rightarrow> unit result" where
  "check_names expected weights =
     (if fst ` set expected \<noteq> fst ` set weights then Inl (ValueError ''parameter mismatch'') else Inr ())"

definition check_shape :: "(string \<times> nat list) list \<Rightarrow> string \<times> 'a tensor \<Rightarrow> unit result" where
  "check_shape expected = (\<lambda>(name, t).
     case map_of expected name of
       None \<Rightarrow> Inl KeyError
     | Some sh \<Rightarrow> if t_shape t \<noteq> sh then Inl (ValueError (name @ '': checkpoint shape'')) else Inr ())"

section \<open>Filling the model\<close>

text \<open>\<open>cast\<close> is the conversion to the device's dtype.\<close>

definition parameter :: "('a \<Rightarrow> 'a) \<Rightarrow> 'a tensors \<Rightarrow> string \<Rightarrow> 'a tensor" where
  "parameter cast weights name = (let t = the (map_of weights name) in t\<lparr>t_data := map cast (t_data t)\<rparr>)"

definition fill_layer :: "(string \<Rightarrow> 'a tensor) \<Rightarrow> nat \<Rightarrow> 'a layer_weights" where
  "fill_layer p i =
     \<lparr>qkv_proj = rows_of (p (dst_prefix i @ ''self_attn.qkv_proj.weight'')),
      o_proj = rows_of (p (dst_prefix i @ ''self_attn.o_proj.weight'')),
      q_norm = t_data (p (dst_prefix i @ ''self_attn.q_norm.weight'')),
      k_norm = t_data (p (dst_prefix i @ ''self_attn.k_norm.weight'')),
      gate_up_proj = rows_of (p (dst_prefix i @ ''mlp.gate_up_proj.weight'')),
      down_proj = rows_of (p (dst_prefix i @ ''mlp.down_proj.weight'')),
      input_layernorm = t_data (p (dst_prefix i @ ''input_layernorm.weight'')),
      post_attention_layernorm = t_data (p (dst_prefix i @ ''post_attention_layernorm.weight''))\<rparr>"

definition fill_model :: "(model_config \<Rightarrow> 'a math) \<Rightarrow> model_config \<Rightarrow> (string \<Rightarrow> 'a tensor) \<Rightarrow> 'a model" where
  "fill_model mk cfg p =
     \<lparr>embed_tokens = rows_of (p ''embed_tokens.weight''), model_layers = map (fill_layer p) [0..<nat (num_hidden_layers cfg)],
      final_norm = t_data (p ''norm.weight''), lm_head = (if tie_word_embeddings cfg then None else Some (rows_of (p ''lm_head.weight''))),
      n_heads = nat (num_attention_heads cfg), n_kv_heads = nat (num_key_value_heads cfg), d_head = nat (head_dim cfg),
      d_inter = nat (intermediate_size cfg), max_positions = nat (max_position_embeddings cfg), ops = mk cfg\<rparr>"

text \<open>The table of rotary frequencies and the float functions come with \<open>mk\<close>.\<close>

definition load_model ::
  "(model_config \<Rightarrow> 'a math) \<Rightarrow> ('a \<Rightarrow> 'a) \<Rightarrow> json_obj \<Rightarrow> json_obj option \<Rightarrow> 'a tensors list \<Rightarrow> (model_config \<times> 'a model) result" where
  "load_model mk cast config gen files =
     rbind (load_config config gen) (\<lambda>cfg.
     rbind (named_parameters cfg) (\<lambda>expected.
     if files = [] then Inl (FileNotFoundError ''no .safetensors files'')
     else
       rbind (load_weights cfg (where_of files)) (\<lambda>(weights, rest).
       if rest \<noteq> [] then Inl (ValueError (''checkpoint has '' @ show_nat (length rest) @ '' unexpected tensors''))
       else
         rbind (check_names expected weights) (\<lambda>_.
         rbind (mapM (check_shape expected) weights) (\<lambda>_.
           Inr (cfg, fill_model mk cfg (parameter cast weights)))))))"

end
