(* ===== verification/Loader_Lemmas.thy ===== *)
theory Loader_Lemmas
  imports Loader
begin

text \<open>
  Loading as one pass over a plan: the list of the model's parameters, each with the checkpoint's names it
  is made of. A run of the plan succeeds exactly when every name is there, used once, and the tensors fit.
\<close>

section \<open>Names\<close>

lemma show_nat_no_dot: "CHR ''.'' \<notin> set (show_nat n)"
proof (induction n rule: less_induct)
  case (less n)
  have digit: "CHR ''.'' \<noteq> char_of (48 + k)" if "k < 10" for k :: nat
  proof
    assume "CHR ''.'' = char_of (48 + k)"
    then have "of_char (CHR ''.'') = (of_char (char_of (48 + k) :: char) :: nat)" by (rule arg_cong)
    then show False using that by simp
  qed
  show ?case
  proof (cases "n < 10")
    case True
    then have "show_nat n = [char_of (48 + n)]" by (subst show_nat.simps) simp
    then show ?thesis using digit [OF True] by simp
  next
    case False
    then have "show_nat n = show_nat (n div 10) @ [char_of (48 + n mod 10)]" by (subst show_nat.simps) simp
    then show ?thesis using digit [of "n mod 10"] less [of "n div 10"] False by simp
  qed
qed

definition read_nat :: "string \<Rightarrow> nat" where
  "read_nat s = foldl (\<lambda>a c. 10 * a + (of_char c - 48)) 0 s"

lemma read_show: "read_nat (show_nat n) = n"
proof (induction n rule: less_induct)
  case (less n)
  show ?case
  proof (cases "n < 10")
    case True
    then have "show_nat n = [char_of (48 + n)]" by (subst show_nat.simps) simp
    then show ?thesis using True by (simp add: read_nat_def)
  next
    case False
    then have "show_nat n = show_nat (n div 10) @ [char_of (48 + n mod 10)]" by (subst show_nat.simps) simp
    then have "read_nat (show_nat n) = 10 * read_nat (show_nat (n div 10)) + n mod 10" by (simp add: read_nat_def)
    then show ?thesis using less [of "n div 10"] False by simp
  qed
qed

lemma dotted_inj: "show_nat i @ CHR ''.'' # a = show_nat j @ CHR ''.'' # b \<longleftrightarrow> i = j \<and> a = b"
proof
  assume eq: "show_nat i @ CHR ''.'' # a = show_nat j @ CHR ''.'' # b"
  have split: "takeWhile (\<lambda>c. c \<noteq> CHR ''.'') (show_nat k @ CHR ''.'' # x) = show_nat k" for k x
    using show_nat_no_dot [of k] by (subst takeWhile_append2) auto
  have "show_nat i = show_nat j" using arg_cong [OF eq, of "takeWhile (\<lambda>c. c \<noteq> CHR ''.'')"] unfolding split .
  then have "i = j" using read_show by metis
  then show "i = j \<and> a = b" using eq by simp
qed simp

lemma prefix_inj [simp]:
  "dst_prefix i @ a = dst_prefix j @ b \<longleftrightarrow> i = j \<and> a = b" "src_prefix i @ a = src_prefix j @ b \<longleftrightarrow> i = j \<and> a = b"
  by (simp_all add: dst_prefix_def src_prefix_def dotted_inj)

lemma distinct_layers:
  assumes "\<And>i j a b. pre i @ a = pre j @ b \<longleftrightarrow> i = j \<and> a = b" and "distinct names"
  shows "distinct (concat (map (\<lambda>i. map ((@) (pre i)) names) [0..<n]))"
proof (induction n)
  case (Suc n)
  have "distinct (map ((@) (pre n)) names)" using assms(2) by (simp add: distinct_map inj_on_def)
  then show ?case using Suc assms(1) by auto
qed simp

lemma not_in_layers:
  "(\<And>i a. pre i @ a \<noteq> x) \<Longrightarrow> x \<notin> set (concat (map (\<lambda>i. map ((@) (pre i)) names) is))"
  by auto

section \<open>The plan\<close>

definition layer_entries :: "(string \<times> string list) list" where
  "layer_entries = (''self_attn.qkv_proj.weight'', qkv_names) # (''mlp.gate_up_proj.weight'', gate_up_names) # map (\<lambda>n. (n, [n])) plain_names"

definition layer_plan :: "nat \<Rightarrow> (string \<times> string list) list" where
  "layer_plan i = map (\<lambda>(n, ks). (dst_prefix i @ n, map ((@) (src_prefix i)) ks)) layer_entries"

definition plan :: "model_config \<Rightarrow> (string \<times> string list) list" where
  "plan cfg = (''embed_tokens.weight'', [''model.embed_tokens.weight'']) # (''norm.weight'', [''model.norm.weight'']) #
     (if tie_word_embeddings cfg then [] else [(''lm_head.weight'', [''lm_head.weight''])]) @
     concat (map layer_plan [0..<nat (num_hidden_layers cfg)])"

definition plan_keys :: "(string \<times> string list) list \<Rightarrow> string list" where
  "plan_keys es = concat (map snd es)"

fun combine :: "'a tensor list \<Rightarrow> 'a tensor result" where
  "combine [t] = Inr t"
| "combine ts = cat_rows ts"

definition load_entry :: "'a tensors \<times> 'a tensors \<Rightarrow> string \<times> string list \<Rightarrow> ('a tensors \<times> 'a tensors) result" where
  "load_entry = (\<lambda>(weights, d) (name, keys).
     rbind (take_tensors keys d) (\<lambda>(ts, d1). rbind (combine ts) (\<lambda>t. Inr (AList.update name t weights, d1))))"

lemma plan_keys_simps [simp]:
  "plan_keys [] = []" "plan_keys (e # es) = snd e @ plan_keys es" "plan_keys (es @ fs) = plan_keys es @ plan_keys fs"
  by (simp_all add: plan_keys_def)

lemma plan_names_distinct: "distinct (map fst (plan cfg))"
proof -
  have names: "map fst (concat (map layer_plan is)) = concat (map (\<lambda>i. map ((@) (dst_prefix i)) (map fst layer_entries)) is)" for "is"
    by (induction "is") (simp_all add: layer_plan_def case_prod_unfold)
  have "distinct (map fst layer_entries)" by (simp add: layer_entries_def plain_names_def)
  from distinct_layers [OF prefix_inj(1) this] have D: "distinct (map fst (concat (map layer_plan [0..<n])))" for n unfolding names .
  have other: "dst_prefix i @ a \<noteq> ''embed_tokens.weight''" "dst_prefix i @ a \<noteq> ''norm.weight''" "dst_prefix i @ a \<noteq> ''lm_head.weight''" for i a
    by (simp_all add: dst_prefix_def)
  define rest where "rest = concat (map (\<lambda>i. map ((@) (dst_prefix i)) (map fst layer_entries)) [0..<nat (num_hidden_layers cfg)])"
  have "map fst (plan cfg) = [''embed_tokens.weight'', ''norm.weight''] @ (if tie_word_embeddings cfg then [] else [''lm_head.weight'']) @ rest"
    by (simp add: plan_def names rest_def)
  moreover have "distinct rest" "''embed_tokens.weight'' \<notin> set rest" "''norm.weight'' \<notin> set rest" "''lm_head.weight'' \<notin> set rest"
    unfolding rest_def by (rule D [unfolded names], (rule not_in_layers, rule other)+)
  ultimately show ?thesis by simp
qed

lemma plan_keys_distinct: "distinct (plan_keys (plan cfg))"
  and plan_keys_tied: "tie_word_embeddings cfg \<Longrightarrow> ''lm_head.weight'' \<notin> set (plan_keys (plan cfg))"
proof -
  have keys: "plan_keys (concat (map layer_plan is)) = concat (map (\<lambda>i. map ((@) (src_prefix i)) (plan_keys layer_entries)) is)" for "is"
    by (induction "is") (simp_all add: layer_plan_def plan_keys_def case_prod_unfold map_concat comp_def)
  have "distinct (plan_keys layer_entries)" by (simp add: layer_entries_def plan_keys_def plain_names_def qkv_names_def gate_up_names_def)
  from distinct_layers [OF prefix_inj(2) this] have D: "distinct (plan_keys (concat (map layer_plan [0..<n])))" for n unfolding keys .
  have other: "src_prefix i @ a \<noteq> ''model.embed_tokens.weight''" "src_prefix i @ a \<noteq> ''model.norm.weight''" "src_prefix i @ a \<noteq> ''lm_head.weight''" for i a
    by (simp_all add: src_prefix_def)
  define rest where "rest = concat (map (\<lambda>i. map ((@) (src_prefix i)) (plan_keys layer_entries)) [0..<nat (num_hidden_layers cfg)])"
  have K: "plan_keys (plan cfg) =
      [''model.embed_tokens.weight'', ''model.norm.weight''] @ (if tie_word_embeddings cfg then [] else [''lm_head.weight'']) @ rest"
    by (simp add: plan_def keys rest_def)
  have R: "distinct rest" "''model.embed_tokens.weight'' \<notin> set rest" "''model.norm.weight'' \<notin> set rest" "''lm_head.weight'' \<notin> set rest"
    unfolding rest_def by (rule D [unfolded keys], (rule not_in_layers, rule other)+)
  show "distinct (plan_keys (plan cfg))" "tie_word_embeddings cfg \<Longrightarrow> ''lm_head.weight'' \<notin> set (plan_keys (plan cfg))"
    using R by (simp_all add: K)
qed

section \<open>Running the plan\<close>

lemma take_tensors_iff:
  "take_tensors keys d = Inr (ts, d') \<longleftrightarrow>
     distinct keys \<and> map (map_of d) keys = map Some ts \<and> d' = fold AList.delete keys d"
proof (induction keys arbitrary: d ts)
  case Nil
  then show ?case by auto
next
  case (Cons key keys)
  have del: "map (map_of (AList.delete key d)) keys = map (map_of d) keys" if "key \<notin> set keys"
    using that by (auto simp: delete_conv')
  have gone: "map (map_of (AList.delete key d)) keys \<noteq> map Some us" if "key \<in> set keys" for us
  proof
    assume eq: "map (map_of (AList.delete key d)) keys = map Some us"
    obtain i where "i < length keys" "keys ! i = key" using \<open>key \<in> set keys\<close> by (auto simp: in_set_conv_nth)
    moreover have "length us = length keys" using arg_cong [OF eq, of length] by simp
    ultimately show False using arg_cong [OF eq, of "\<lambda>l. l ! i"] by (simp add: delete_conv')
  qed
  show ?case
  proof (cases "map_of d key")
    case None
    then show ?thesis by (cases ts) (auto simp: take_tensor_def)
  next
    case (Some t)
    have step: "take_tensors (key # keys) d = Inr (ts, d') \<longleftrightarrow>
        (\<exists>us. distinct keys \<and> map (map_of (AList.delete key d)) keys = map Some us \<and> d' = fold AList.delete keys (AList.delete key d) \<and> ts = t # us)"
      using Some by (auto simp: take_tensor_def Cons.IH result_simps)
    show ?thesis
    proof (cases "key \<in> set keys")
      case True
      then show ?thesis unfolding step using gone by simp
    next
      case False
      show ?thesis unfolding step del [OF False] using False Some by (cases ts) auto
    qed
  qed
qed

text \<open>The tensors a plan needs are there and fit together.\<close>

definition combines :: "(string \<Rightarrow> 'a tensor option) \<Rightarrow> string \<times> string list \<Rightarrow> 'a tensor \<Rightarrow> bool" where
  "combines D e t \<longleftrightarrow> (\<exists>xs. map D (snd e) = map Some xs \<and> combine xs = Inr t)"

lemma fold_delete: "map_of (fold AList.delete keys d) = map_of d |` (- set keys)"
proof (induction keys arbitrary: d)
  case (Cons key keys)
  show ?case by (simp add: Cons delete_conv') (auto simp: fun_eq_iff restrict_map_def)
qed (simp add: fun_eq_iff restrict_map_def)

lemma delete_swap: "AList.delete j (AList.delete k d) = AList.delete k (AList.delete j d)"
  by (simp add: AList.delete_eq conj_commute)

lemma load_entry_iff:
  "load_entry (w, d) e = Inr (w', d') \<longleftrightarrow> distinct (snd e) \<and> d' = fold AList.delete (snd e) d \<and>
     (\<exists>t. combines (map_of d) e t \<and> w' = AList.update (fst e) t w)"
  unfolding load_entry_def combines_def by (cases e) (auto simp: result_simps take_tensors_iff)

lemma combines_cong: "\<forall>k \<in> set (snd e). D k = D' k \<Longrightarrow> combines D e t \<longleftrightarrow> combines D' e t"
  unfolding combines_def by (metis map_cong)

lemma run_plan:
  assumes "distinct (plan_keys es)"
  shows "foldM load_entry (w, d) es = Inr (w', d') \<longleftrightarrow> d' = fold AList.delete (plan_keys es) d \<and>
     (\<exists>ts. list_all2 (combines (map_of d)) es ts \<and> w' = fold (\<lambda>(k, t). AList.update k t) (zip (map fst es) ts) w)"
  using assms
proof (induction es arbitrary: w d)
  case Nil
  then show ?case by auto
next
  case (Cons e es)
  let ?d = "fold AList.delete (snd e) d"
  have dist: "distinct (snd e)" "distinct (plan_keys es)" "set (snd e) \<inter> set (plan_keys es) = {}" using Cons.prems by simp_all
  have same: "combines (map_of ?d) f t \<longleftrightarrow> combines (map_of d) f t" if "f \<in> set es" for f t
  proof (rule combines_cong, rule ballI)
    fix k
    assume "k \<in> set (snd f)"
    then have "k \<notin> set (snd e)" using dist(3) that by (auto simp: plan_keys_def)
    then show "map_of ?d k = map_of d k" by (simp add: fold_delete)
  qed
  have all: "list_all2 (combines (map_of ?d)) es ts \<longleftrightarrow> list_all2 (combines (map_of d)) es ts" for ts
    using same by (auto simp: list_all2_conv_all_nth)
  have first: "(\<exists>ts. list_all2 C (e # es) ts \<and> P ts) \<longleftrightarrow> (\<exists>t ts. C e t \<and> list_all2 C es ts \<and> P (t # ts))"
    for P and C :: "string \<times> string list \<Rightarrow> 'a tensor \<Rightarrow> bool"
    by (auto simp: list_all2_Cons1)
  have "foldM load_entry (w, d) (e # es) = Inr (w', d') \<longleftrightarrow>
      (\<exists>t. combines (map_of d) e t \<and> foldM load_entry (AList.update (fst e) t w, ?d) es = Inr (w', d'))"
    using dist(1) by (auto simp: result_simps load_entry_iff)
  also have "\<dots> \<longleftrightarrow> d' = fold AList.delete (plan_keys (e # es)) d \<and>
      (\<exists>t ts. combines (map_of d) e t \<and> list_all2 (combines (map_of d)) es ts \<and>
         w' = fold (\<lambda>(k, t). AList.update k t) (zip (map fst es) ts) (AList.update (fst e) t w))"
    unfolding Cons.IH [OF dist(2)] all by (auto simp: plan_keys_def)
  also have "\<dots> \<longleftrightarrow> d' = fold AList.delete (plan_keys (e # es)) d \<and>
      (\<exists>ts. list_all2 (combines (map_of d)) (e # es) ts \<and> w' = fold (\<lambda>(k, t). AList.update k t) (zip (map fst (e # es)) ts) w)"
    by (subst first) (simp only: list.map zip_Cons_Cons fold_simps prod.case comp_apply)
  finally show ?case .
qed

section \<open>The loader runs the plan\<close>

lemma load_single: "load_one name key st = load_entry st (name, [key])"
  by (cases st) (simp add: load_one_def load_entry_def take_tensors.simps rbind_def split: sum.splits)

lemma load_several: "length keys \<noteq> 1 \<Longrightarrow> load_cat name keys st = load_entry st (name, keys)"
proof -
  assume n: "length keys \<noteq> 1"
  have "combine ts = cat_rows ts" if "length ts \<noteq> 1" for ts :: "'a tensor list"
    using that by (cases ts rule: combine.cases) simp_all
  moreover have "length ts = length keys" if "take_tensors keys d = Inr (ts, d1)" for ts d1 and d :: "'a tensors"
    using that unfolding take_tensors_iff by (metis length_map)
  ultimately show ?thesis
    using n by (cases st) (auto simp: load_cat_def load_entry_def rbind_def split: sum.splits)
qed

lemma foldM_concat: "foldM f s (concat (map g xs)) = foldM (\<lambda>s x. foldM f s (g x)) s xs"
  by (induction xs arbitrary: s) (simp_all add: foldM_append)

lemma foldM_map: "foldM f s (map g xs) = foldM (\<lambda>s x. f s (g x)) s xs"
proof (induction xs arbitrary: s)
  case (Cons x xs)
  then show ?case by (cases "f s (g x)") simp_all
qed simp

lemma load_layer_plan: "load_layer st i = foldM load_entry st (layer_plan i)"
proof -
  have n: "length (map f qkv_names) \<noteq> 1" "length (map f gate_up_names) \<noteq> 1" for f :: "string \<Rightarrow> string"
    by (simp_all add: qkv_names_def gate_up_names_def)
  show ?thesis
    by (simp add: load_layer_def Let_def layer_plan_def layer_entries_def load_several [OF n(1)] load_several [OF n(2)] load_single foldM_map comp_def)
qed

text \<open>The checkpoint a tied model is loaded from: a copy of the head is dropped.\<close>

definition usable :: "model_config \<Rightarrow> 'a tensors \<Rightarrow> 'a tensors" where
  "usable cfg d = (if tie_word_embeddings cfg then AList.delete ''lm_head.weight'' d else d)"

lemma load_weights_plan: "load_weights cfg d = foldM load_entry ([], usable cfg d) (plan cfg)"
proof -
  have layers: "foldM load_layer st is = foldM load_entry st (concat (map layer_plan is))" for st :: "'a tensors \<times> 'a tensors" and "is"
    unfolding foldM_concat by (rule arg_cong [where f = "\<lambda>f. foldM f st is"]) (simp add: fun_eq_iff load_layer_plan)
  have tied: "load_entry (w, AList.delete k d) (name, [key]) = rbind (load_entry (w, d) (name, [key])) (\<lambda>st. Inr (fst st, AList.delete k (snd st)))"
    if "key \<noteq> k" for w d :: "'a tensors" and name k key
    using that by (simp add: load_entry_def take_tensor_def delete_conv' delete_swap [of k] rbind_def split: option.splits)
  show ?thesis
    unfolding load_weights_def layers load_single
    by (simp add: plan_def usable_def tied rbind_def split: sum.splits)
qed

end
