(* ===== verification/Loader_Ok.thy ===== *)
theory Loader_Ok
  imports Loader_Lemmas Engine_Start
begin

text \<open>
  What a successful load returns: every parameter has its place and its shape, made of the tensors the
  checkpoint has under the names of the Hugging Face model.
\<close>

section \<open>Rows\<close>

definition cast_tensor :: "('a \<Rightarrow> 'a) \<Rightarrow> 'a tensor \<Rightarrow> 'a tensor" where
  "cast_tensor cast t = t\<lparr>t_data := map cast (t_data t)\<rparr>"

lemma cast_tensor_simps [simp]:
  "t_shape (cast_tensor cast t) = t_shape t" "t_data (cast_tensor cast t) = map cast (t_data t)"
  "tensor_ok (cast_tensor cast t) = tensor_ok t"
  by (simp_all add: cast_tensor_def tensor_ok_def)

lemma rows_cut: "rows_of \<lparr>t_shape = [m, n], t_data = xs\<rparr> = map (\<lambda>i. take n (drop (i * n) xs)) [0..<m]"
  by (simp add: rows_of_def py_slice_def drop_take)

lemma rows_append:
  assumes "length xs = a * n"
  shows "rows_of \<lparr>t_shape = [a + b, n], t_data = xs @ ys\<rparr>
    = rows_of \<lparr>t_shape = [a, n], t_data = xs\<rparr> @ rows_of \<lparr>t_shape = [b, n], t_data = ys\<rparr>"
proof -
  have left: "take n (drop (i * n) (xs @ ys)) = take n (drop (i * n) xs)" if "i < a" for i
  proof -
    have "Suc i * n \<le> a * n" using that by (intro mult_le_mono1) simp
    then show ?thesis using assms by simp
  qed
  have right: "take n (drop ((a + i) * n) (xs @ ys)) = take n (drop (i * n) ys)" for i
    using assms by (simp add: algebra_simps)
  have "map f [0..<a + b] = map f [0..<a] @ map (\<lambda>i. f (a + i)) [0..<b]" for f :: "nat \<Rightarrow> 'a list"
  proof -
    have "[a..<a + b] = map (\<lambda>i. i + a) [0..<b]" unfolding map_add_upt by (simp only: add.commute)
    then have "map f [a..<a + b] = map (\<lambda>i. f (a + i)) [0..<b]" by (simp add: add.commute comp_def)
    then show ?thesis unfolding upt_add_eq_append [OF le0] by simp
  qed
  then show ?thesis using left right by (simp add: rows_cut)
qed

lemma rows_concat:
  assumes "\<forall>t \<in> set ts. t_shape t = [f t, n] \<and> length (t_data t) = f t * n"
  shows "rows_of \<lparr>t_shape = [sum_list (map f ts), n], t_data = concat (map t_data ts)\<rparr> = concat (map rows_of ts)"
  using assms
proof (induction ts)
  case Nil
  then show ?case by (simp add: rows_cut)
next
  case (Cons t ts)
  then have "rows_of \<lparr>t_shape = [f t, n], t_data = t_data t\<rparr> = rows_of t" by (simp add: rows_of_def)
  then show ?case using Cons rows_append [of "t_data t" "f t" n] by simp
qed

lemma cat_rows_of:
  assumes cat: "cat_rows ts = Inr t" and shape: "t_shape t = [m, n]" and ok: "\<forall>t \<in> set ts. tensor_ok t"
  shows "rows_of t = concat (map rows_of ts)" and "tensor_ok t"
proof -
  let ?us = "filter (\<lambda>t. t_shape t \<noteq> [0]) ts"
  obtain v vs where us: "?us = v # vs"
    using cat shape by (cases ?us) (auto simp: cat_rows_def)
  have fit: "t_shape v \<noteq> [] \<and> list_all (\<lambda>t. t_shape t \<noteq> [] \<and> tl (t_shape t) = tl (t_shape v)) vs"
    and t: "t = \<lparr>t_shape = sum_list (map (hd \<circ> t_shape) ?us) # tl (t_shape v), t_data = concat (map t_data ?us)\<rparr>"
    using cat unfolding cat_rows_def us by (auto split: if_splits)
  have all: "t_shape u \<noteq> [] \<and> tl (t_shape u) = tl (t_shape v)" if "u \<in> set ?us" for u
    using fit that unfolding us list_all_iff by auto
  have tl: "tl (t_shape v) = [n]" using shape unfolding t by simp
  have each: "t_shape u = [hd (t_shape u), n] \<and> length (t_data u) = hd (t_shape u) * n" if "u \<in> set ?us" for u
  proof -
    have "t_shape u = hd (t_shape u) # [n]" using all [OF that] unfolding tl by (cases "t_shape u") simp_all
    moreover have "tensor_ok u" using ok that by simp
    ultimately show ?thesis unfolding tensor_ok_def by (metis prod_list.Cons prod_list.Nil mult.right_neutral)
  qed
  have T: "t = \<lparr>t_shape = [sum_list (map (\<lambda>u. hd (t_shape u)) ?us), n], t_data = concat (map t_data ?us)\<rparr>"
    unfolding t tl by (simp add: comp_def)
  have "rows_of t = concat (map rows_of ?us)" unfolding T by (rule rows_concat) (use each in blast)
  moreover have "concat (map rows_of (filter (\<lambda>t. t_shape t \<noteq> [0]) ts)) = concat (map rows_of ts)" for ts :: "'a tensor list"
    by (induction ts) (auto simp: rows_of_def)
  ultimately show "rows_of t = concat (map rows_of ts)" by simp
  have "length (concat (map t_data us)) = sum_list (map (\<lambda>u. hd (t_shape u)) us) * n"
    if "\<forall>u \<in> set us. length (t_data u) = hd (t_shape u) * n" for us :: "'a tensor list"
    using that by (induction us) (simp_all add: algebra_simps)
  then show "tensor_ok t" unfolding tensor_ok_def T using each by (simp add: length_concat)
qed

lemma rows_of_shape:
  assumes "t_shape t = [m, n]" and "tensor_ok t"
  shows "length (rows_of t) = m" "\<forall>row \<in> set (rows_of t). length row = n"
proof -
  have len: "length (t_data t) = m * n" using assms by (simp add: tensor_ok_def)
  show "length (rows_of t) = m" using assms(1) by (simp add: rows_of_def)
  have "i * n + n \<le> m * n" if "i < m" for i
  proof -
    have "Suc i * n \<le> m * n" using that by (intro mult_le_mono1) simp
    then show ?thesis by simp
  qed
  then show "\<forall>row \<in> set (rows_of t). length row = n" using assms(1) len by (auto simp: rows_of_def py_slice_def)
qed

section \<open>What is loaded\<close>

text \<open>The names a checkpoint of the model has to have.\<close>

definition source_names :: "model_config \<Rightarrow> string list" where
  "source_names cfg = [''model.embed_tokens.weight'', ''model.norm.weight''] @ (if tie_word_embeddings cfg then [] else [''lm_head.weight'']) @
     concat (map (\<lambda>i. map ((@) (src_prefix i)) (qkv_names @ gate_up_names @ plain_names)) [0..<nat (num_hidden_layers cfg)])"

text \<open>A layer made of the tensors \<open>S\<close> has under its names: the stacked projections are the rows of their parts.\<close>

definition source_layer :: "(string \<Rightarrow> 'a tensor) \<Rightarrow> nat \<Rightarrow> 'a layer_weights" where
  "source_layer S i =
     (let src = src_prefix i in
      \<lparr>qkv_proj = rows_of (S (src @ ''self_attn.q_proj.weight'')) @ rows_of (S (src @ ''self_attn.k_proj.weight'')) @
                  rows_of (S (src @ ''self_attn.v_proj.weight'')),
       o_proj = rows_of (S (src @ ''self_attn.o_proj.weight'')),
       q_norm = t_data (S (src @ ''self_attn.q_norm.weight'')),
       k_norm = t_data (S (src @ ''self_attn.k_norm.weight'')),
       gate_up_proj = rows_of (S (src @ ''mlp.gate_proj.weight'')) @ rows_of (S (src @ ''mlp.up_proj.weight'')),
       down_proj = rows_of (S (src @ ''mlp.down_proj.weight'')),
       input_layernorm = t_data (S (src @ ''input_layernorm.weight'')),
       post_attention_layernorm = t_data (S (src @ ''post_attention_layernorm.weight''))\<rparr>)"

lemma plan_keys_names: "plan_keys (plan cfg) = source_names cfg"
proof -
  have "plan_keys (concat (map layer_plan is)) = concat (map (\<lambda>i. map ((@) (src_prefix i)) (qkv_names @ gate_up_names @ plain_names)) is)" for "is"
    by (induction "is") (simp_all add: layer_plan_def layer_entries_def plan_keys_def plain_names_def)
  then show ?thesis by (simp add: plan_def source_names_def)
qed

lemma parameter_names: "set (map fst (parameters cfg)) = set (map fst (plan cfg))" "distinct (map fst (parameters cfg))"
proof -
  let ?L = "concat (map (\<lambda>i. map (\<lambda>(name, sh). (dst_prefix i @ name, sh)) (layer_parameters cfg)) [0..<nat (num_hidden_layers cfg)])"
  let ?P = "concat (map layer_plan [0..<nat (num_hidden_layers cfg)])"
  have N: "map fst (concat (map (\<lambda>i. map (\<lambda>(name, sh). (dst_prefix i @ name, sh)) (layer_parameters cfg)) is))
      = concat (map (\<lambda>i. map ((@) (dst_prefix i)) (map fst (layer_parameters cfg))) is)"
    "map fst (concat (map layer_plan is)) = concat (map (\<lambda>i. map ((@) (dst_prefix i)) (map fst layer_entries)) is)" for "is"
    by (induction "is") (simp_all add: layer_plan_def case_prod_unfold comp_def)
  have same: "set (map fst (layer_parameters cfg)) = set (map fst layer_entries)"
  proof -
    have move: "set (q # xs @ g # ys) = set (q # g # xs @ ys)" for q g :: string and xs ys by auto
    show ?thesis
      using move [of "''self_attn.qkv_proj.weight''" "take 3 plain_names" "''mlp.gate_up_proj.weight''" "drop 3 plain_names"]
      by (simp add: layer_parameters_def layer_entries_def plain_names_def del: set_append list.set)
  qed
  have "set (concat (map (\<lambda>i. map (f i) A) is)) = set (concat (map (\<lambda>i. map (f i) B) is))"
    if "set A = set B" for f :: "nat \<Rightarrow> string \<Rightarrow> string" and A B "is"
    using that by simp
  from this [OF same] have S: "set (map fst ?L) = set (map fst ?P)" unfolding N .
  have lists: "map fst (parameters cfg) = ''embed_tokens.weight'' # map fst ?L @ ''norm.weight'' # (if tie_word_embeddings cfg then [] else [''lm_head.weight''])"
    "map fst (plan cfg) = ''embed_tokens.weight'' # ''norm.weight'' # (if tie_word_embeddings cfg then [] else [''lm_head.weight'']) @ map fst ?P"
    unfolding parameters_def plan_def by simp_all
  have set_Cons: "set (x # xs) = {x} \<union> set xs" for x :: string and xs by simp
  show names: "set (map fst (parameters cfg)) = set (map fst (plan cfg))"
    unfolding lists set_append set_Cons S by (simp only: Un_ac)
  have "distinct (map fst (layer_parameters cfg))" by (simp add: layer_parameters_def)
  then have D: "distinct (map fst ?L)" unfolding N by (rule distinct_layers [OF prefix_inj(1)])
  have P: "x \<notin> set (map fst ?P)" if "x \<in> {''embed_tokens.weight'', ''norm.weight'', ''lm_head.weight''}" for x
    unfolding N by (rule not_in_layers) (use that in \<open>auto simp: dst_prefix_def\<close>)
  define l where "l = map fst ?L"
  have "''embed_tokens.weight'' \<notin> set l" "''norm.weight'' \<notin> set l" "''lm_head.weight'' \<notin> set l" "distinct l"
    using P D unfolding S [symmetric] l_def by blast+
  moreover have "map fst (parameters cfg) = ''embed_tokens.weight'' # l @ ''norm.weight'' # (if tie_word_embeddings cfg then [] else [''lm_head.weight''])"
    unfolding l_def by (rule lists(1))
  ultimately show "distinct (map fst (parameters cfg))" by simp
qed

lemma fold_update_zip:
  assumes "distinct names" and "length ts = length names"
  shows "map_of (fold (\<lambda>(k, t). AList.update k t) (zip names ts) d) = map_of d ++ map_of (zip names ts)"
    and "fst ` set (fold (\<lambda>(k, t). AList.update k t) (zip names ts) d) = fst ` set d \<union> set names"
proof -
  have "map_of (fold (\<lambda>(k, t). AList.update k t) (zip names ts) d) = map_of d ++ map_of (zip names ts)"
    using assms
  proof (induction names arbitrary: ts d)
    case (Cons n names)
    then obtain t us where ts: "ts = t # us" "length us = length names" by (cases ts) auto
    have "map_of (zip names us) n = None" using Cons.prems(1) ts(2) by (auto simp: map_of_eq_None_iff dest: set_zip_leftD)
    then have new: "n \<notin> dom (map_of (zip names us))" by auto
    have "map_of (fold (\<lambda>(k, t). AList.update k t) (zip (n # names) ts) d) = map_of (AList.update n t d) ++ map_of (zip names us)"
      using Cons.IH [of us "AList.update n t d"] Cons.prems(1) ts by simp
    also have "\<dots> = map_of d ++ map_of (zip (n # names) ts)"
      unfolding ts(1) zip_Cons_Cons map_of.simps fst_conv snd_conv map_add_upd update_conv' map_add_upd_left [OF new] by (rule refl)
    finally show ?case .
  qed simp
  then show M: "map_of (fold (\<lambda>(k, t). AList.update k t) (zip names ts) d) = map_of d ++ map_of (zip names ts)" .
  show "fst ` set (fold (\<lambda>(k, t). AList.update k t) (zip names ts) d) = fst ` set d \<union> set names"
    unfolding dom_map_of_conv_image_fst [symmetric] M using assms(2) by (simp add: dom_map_of_zip Un_commute)
qed

lemma map_Some_mem: "map D ks = map Some xs \<Longrightarrow> k \<in> set ks \<Longrightarrow> \<exists>x. D k = Some x"
proof (induction ks arbitrary: xs)
  case (Cons a ks)
  then show ?case by (cases xs) auto
qed simp

text \<open>The weights after the plan: each name has the tensor its sources combine to.\<close>

lemma load_weights_result:
  assumes "load_weights cfg d = Inr (w, rest)"
  shows "\<And>name keys. (name, keys) \<in> set (plan cfg) \<Longrightarrow> \<exists>t. map_of w name = Some t \<and> combines (map_of (usable cfg d)) (name, keys) t"
    and "fst ` set w = set (map fst (plan cfg))" and "distinct (map fst w)"
    and "rest = [] \<longleftrightarrow> dom (map_of (usable cfg d)) = set (source_names cfg)"
proof -
  obtain ts where rest: "rest = fold AList.delete (source_names cfg) (usable cfg d)"
    and ts: "list_all2 (combines (map_of (usable cfg d))) (plan cfg) ts"
    and w: "w = fold (\<lambda>(k, t). AList.update k t) (zip (map fst (plan cfg)) ts) []"
    using assms unfolding load_weights_plan run_plan [OF plan_keys_distinct] plan_keys_names by blast
  have len: "length ts = length (map fst (plan cfg))" using ts by (simp add: list_all2_lengthD)
  note W = fold_update_zip [OF plan_names_distinct len, of "[]", folded w]
  have W1: "map_of w = map_of (zip (map fst (plan cfg)) ts)" using W(1) by simp
  show "\<exists>t. map_of w name = Some t \<and> combines (map_of (usable cfg d)) (name, keys) t" if e: "(name, keys) \<in> set (plan cfg)" for name keys
  proof -
    obtain i where i: "i < length (plan cfg)" "plan cfg ! i = (name, keys)" using e unfolding in_set_conv_nth by blast
    have "map_of w name = Some (ts ! i)"
      unfolding W1 using i len map_of_zip_nth [of "map fst (plan cfg)" ts i] plan_names_distinct [of cfg] by simp
    then show ?thesis using list_all2_nthD [OF ts i(1)] i(2) by simp
  qed
  show "fst ` set w = set (map fst (plan cfg))" using W(2) by simp
  have "distinct (map fst (fold (\<lambda>(k, t). AList.update k t) xs d))" if "distinct (map fst d)" for xs and d :: "'a tensors"
    using that by (induction xs arbitrary: d) (auto simp: distinct_update)
  then show "distinct (map fst w)" unfolding w by simp
  have sub: "set (source_names cfg) \<subseteq> dom (map_of (usable cfg d))"
  proof
    fix k
    assume "k \<in> set (source_names cfg)"
    then obtain e where e: "e \<in> set (plan cfg)" "k \<in> set (snd e)" unfolding plan_keys_names [symmetric] plan_keys_def by auto
    then obtain i where "i < length (plan cfg)" "plan cfg ! i = e" unfolding in_set_conv_nth by blast
    then have "combines (map_of (usable cfg d)) e (ts ! i)" using list_all2_nthD [OF ts] by blast
    then obtain xs where "map (map_of (usable cfg d)) (snd e) = map Some xs" unfolding combines_def by blast
    from map_Some_mem [OF this e(2)] show "k \<in> dom (map_of (usable cfg d))" by blast
  qed
  have "rest = [] \<longleftrightarrow> map_of rest = Map.empty" by (cases rest) (auto simp: fun_eq_iff)
  also have "\<dots> \<longleftrightarrow> dom (map_of (usable cfg d)) \<inter> - set (source_names cfg) = {}"
    unfolding rest fold_delete dom_eq_empty_conv [symmetric] dom_restrict by (rule refl)
  finally show "rest = [] \<longleftrightarrow> dom (map_of (usable cfg d)) = set (source_names cfg)" using sub by blast
qed

section \<open>Successful loads\<close>

lemma mapM_unit: "mapM f xs = Inr us \<Longrightarrow> x \<in> set xs \<Longrightarrow> \<exists>u. f x = Inr u"
  by (induction xs arbitrary: us) (auto simp: result_simps)

lemma load_model_parts:
  assumes "load_model mk cast config gen files = Inr (cfg, M)"
  obtains w where "load_config config gen = Inr cfg" "files \<noteq> []" "0 \<le> head_dim cfg" "0 \<le> max_position_embeddings cfg"
    "\<And>name sh. (name, sh) \<in> set (parameters cfg) \<Longrightarrow> list_all ((\<le>) 0) sh \<and> (\<exists>t. map_of w name = Some t \<and> t_shape t = map nat sh)"
    "load_weights cfg (where_of files) = Inr (w, [])" "M = fill_model mk cfg (parameter cast w)"
proof -
  let ?expected = "map (\<lambda>(name, sh). (name, map nat sh)) (parameters cfg)"
  obtain w us where c: "load_config config gen = Inr cfg" and e: "named_parameters cfg = Inr ?expected" and f: "files \<noteq> []"
    and l: "load_weights cfg (where_of files) = Inr (w, [])" and us: "mapM (check_shape ?expected) w = Inr us"
    and M: "M = fill_model mk cfg (parameter cast w)"
    using assms by (auto simp: load_model_def result_simps named_parameters_def split: if_splits)
  have dims: "0 \<le> head_dim cfg" "0 \<le> max_position_embeddings cfg" "list_all (\<lambda>(_, sh). list_all ((\<le>) 0) sh) (parameters cfg)"
    using e by (auto simp: named_parameters_def split: if_splits)
  have "list_all ((\<le>) 0) sh \<and> (\<exists>t. map_of w name = Some t \<and> t_shape t = map nat sh)" if p: "(name, sh) \<in> set (parameters cfg)" for name sh
  proof -
    have "name \<in> fst ` set w" using p parameter_names(1) [of cfg] load_weights_result(2) [OF l] by force
    then obtain t where t: "(name, t) \<in> set w" by force
    then have "map_of w name = Some t" using load_weights_result(3) [OF l] by simp
    moreover have "map fst ?expected = map fst (parameters cfg)" by (induction "parameters cfg") auto
    then have "distinct (map fst ?expected)" using parameter_names(2) [of cfg] by (simp only:)
    moreover have "(name, map nat sh) \<in> set ?expected" using p by force
    ultimately have "map_of ?expected name = Some (map nat sh)" by (simp only: map_of_is_SomeI)
    then have "t_shape t = map nat sh"
      using mapM_unit [OF us t] by (simp add: check_shape_def split: if_splits)
    moreover have "list_all ((\<le>) 0) sh" using dims(3) p unfolding list_all_iff by blast
    ultimately show ?thesis using \<open>map_of w name = Some t\<close> by blast
  qed
  from that [OF c f dims(1,2) this l M] show ?thesis .
qed

lemma update_set: "set (AList.update k v d) \<subseteq> insert (k, v) (set d)"
  by (induction d) auto

lemma where_of_set: "set (where_of files) \<subseteq> \<Union> (set ` set files)"
proof -
  have one: "set (fold (\<lambda>(k, t) d. AList.update k t d) f d) \<subseteq> set f \<union> set d" for f d :: "'a tensors"
  proof (induction f arbitrary: d)
    case (Cons kt f)
    then show ?case using update_set [of "fst kt" "snd kt" d] by (fastforce simp: case_prod_unfold)
  qed simp
  have "set (fold (\<lambda>f d. fold (\<lambda>(k, t) d. AList.update k t d) f d) files d) \<subseteq> \<Union> (set ` set files) \<union> set d" for d :: "'a tensors"
  proof (induction files arbitrary: d)
    case (Cons f files)
    then show ?case using one [of f d] by fastforce
  qed simp
  from this [of "[]"] show ?thesis by (simp add: where_of_def)
qed

text \<open>The tensors the checkpoint has, converted to the model's dtype.\<close>

definition source :: "('a \<Rightarrow> 'a) \<Rightarrow> 'a tensors list \<Rightarrow> string \<Rightarrow> 'a tensor" where
  "source cast files key = cast_tensor cast (the (map_of (where_of files) key))"

definition tensors_ok :: "'a tensors list \<Rightarrow> bool" where
  "tensors_ok files \<longleftrightarrow> (\<forall>f \<in> set files. \<forall>(k, t) \<in> set f. tensor_ok t)"

lemma rows_of_cast: "rows_of (cast_tensor cast t) = map (map cast) (rows_of t)"
  by (auto simp: rows_of_def py_slice_def take_map drop_map split: list.split)

lemma usable_source: "key \<in> set (source_names cfg) \<Longrightarrow> map_of (usable cfg d) key = map_of d key"
  using plan_keys_tied [of cfg] unfolding plan_keys_names usable_def by (auto simp: delete_conv')

lemma where_of_ok: "tensors_ok files \<Longrightarrow> map_of (where_of files) key = Some t \<Longrightarrow> tensor_ok t"
  using where_of_set [of files] map_of_SomeD [of "where_of files" key t] unfolding tensors_ok_def by blast

lemma loaded_parameter:
  assumes l: "load_weights cfg (where_of files) = Inr (w, rest)" and e: "(name, keys) \<in> set (plan cfg)" and ok: "tensors_ok files"
  shows "keys = [key] \<Longrightarrow> parameter cast w name = source cast files key \<and> tensor_ok (source cast files key)"
    and "t_shape (parameter cast w name) = [m, n] \<Longrightarrow>
      rows_of (parameter cast w name) = concat (map (\<lambda>k. rows_of (source cast files k)) keys) \<and> tensor_ok (parameter cast w name)"
proof -
  obtain t xs where t: "map_of w name = Some t" and xs: "map (map_of (usable cfg (where_of files))) keys = map Some xs" "combine xs = Inr t"
    using load_weights_result(1) [OF l e] unfolding combines_def by auto
  have "set keys \<subseteq> set (source_names cfg)" using e unfolding plan_keys_names [symmetric] plan_keys_def by force
  then have X: "map (map_of (where_of files)) keys = map Some xs" using xs(1) usable_source [of _ cfg] by (metis (no_types, lifting) map_eq_conv subsetD)
  have S: "map (source cast files) keys = map (cast_tensor cast) xs"
  proof -
    have "map (source cast files) keys = map (cast_tensor cast \<circ> the) (map (map_of (where_of files)) keys)"
      by (simp add: source_def)
    then show ?thesis unfolding X by simp
  qed
  have okx: "\<forall>x \<in> set xs. tensor_ok x"
  proof
    fix x
    assume "x \<in> set xs"
    then have "Some x \<in> set (map (map_of (where_of files)) keys)" unfolding X by simp
    then obtain key where "map_of (where_of files) key = Some x" by auto
    then show "tensor_ok x" using where_of_ok [OF ok] by blast
  qed
  have P: "parameter cast w name = cast_tensor cast t" by (simp add: parameter_def cast_tensor_def t)
  show "parameter cast w name = source cast files key \<and> tensor_ok (source cast files key)" if "keys = [key]"
    using S xs(2) okx unfolding that P by (cases xs rule: combine.cases) simp_all
  have R: "rows_of t = concat (map rows_of xs) \<and> tensor_ok t" if "t_shape t = [m, n]"
  proof (cases "\<exists>x. xs = [x]")
    case True
    then show ?thesis using xs(2) okx by auto
  next
    case False
    then have "cat_rows xs = Inr t" using xs(2) by (cases xs rule: combine.cases) simp_all
    from cat_rows_of [OF this that okx] show ?thesis by simp
  qed
  show "rows_of (parameter cast w name) = concat (map (\<lambda>k. rows_of (source cast files k)) keys) \<and> tensor_ok (parameter cast w name)"
    if "t_shape (parameter cast w name) = [m, n]"
  proof -
    have "map (\<lambda>k. rows_of (source cast files k)) keys = map rows_of (map (cast_tensor cast) xs)" unfolding S [symmetric] by simp
    then show ?thesis using R that unfolding P by (simp add: rows_of_cast map_concat comp_def)
  qed
qed

section \<open>The loaded model\<close>

lemma plan_entries:
  "(''embed_tokens.weight'', [''model.embed_tokens.weight'']) \<in> set (plan cfg)" "(''norm.weight'', [''model.norm.weight'']) \<in> set (plan cfg)"
  "\<not> tie_word_embeddings cfg \<Longrightarrow> (''lm_head.weight'', [''lm_head.weight'']) \<in> set (plan cfg)"
  "i < nat (num_hidden_layers cfg) \<Longrightarrow> (n, ks) \<in> set layer_entries \<Longrightarrow> (dst_prefix i @ n, map ((@) (src_prefix i)) ks) \<in> set (plan cfg)"
  by (auto simp: plan_def layer_plan_def intro!: bexI [of _ i] image_eqI [of _ _ "(n, ks)"])

lemma parameter_entries:
  "(''embed_tokens.weight'', [mc_vocab_size cfg, hidden_size cfg]) \<in> set (parameters cfg)" "(''norm.weight'', [hidden_size cfg]) \<in> set (parameters cfg)"
  "\<not> tie_word_embeddings cfg \<Longrightarrow> (''lm_head.weight'', [mc_vocab_size cfg, hidden_size cfg]) \<in> set (parameters cfg)"
  "i < nat (num_hidden_layers cfg) \<Longrightarrow> (n, sh) \<in> set (layer_parameters cfg) \<Longrightarrow> (dst_prefix i @ n, sh) \<in> set (parameters cfg)"
  by (auto simp: parameters_def intro!: bexI [of _ i] image_eqI [of _ _ "(n, sh)"])

definition matrix :: "int \<Rightarrow> int \<Rightarrow> 'a list list \<Rightarrow> bool" where
  "matrix m n A \<longleftrightarrow> length A = nat m \<and> (\<forall>row \<in> set A. length row = nat n)"

definition layer_shaped :: "model_config \<Rightarrow> 'a layer_weights \<Rightarrow> bool" where
  "layer_shaped cfg L \<longleftrightarrow>
     (let H = hidden_size cfg; q = num_attention_heads cfg * head_dim cfg; kv = num_key_value_heads cfg * head_dim cfg; I = intermediate_size cfg in
      matrix (q + 2 * kv) H (qkv_proj L) \<and> matrix H q (o_proj L) \<and>
      length (q_norm L) = nat (head_dim cfg) \<and> length (k_norm L) = nat (head_dim cfg) \<and>
      matrix (2 * I) H (gate_up_proj L) \<and> matrix H I (down_proj L) \<and>
      length (input_layernorm L) = nat H \<and> length (post_attention_layernorm L) = nat H)"

definition model_shaped :: "model_config \<Rightarrow> 'a model \<Rightarrow> bool" where
  "model_shaped cfg M \<longleftrightarrow> matrix (mc_vocab_size cfg) (hidden_size cfg) (embed_tokens M) \<and> length (final_norm M) = nat (hidden_size cfg) \<and>
     (case lm_head M of None \<Rightarrow> tie_word_embeddings cfg | Some w \<Rightarrow> \<not> tie_word_embeddings cfg \<and> matrix (mc_vocab_size cfg) (hidden_size cfg) w) \<and>
     length (model_layers M) = nat (num_hidden_layers cfg) \<and> list_all (layer_shaped cfg) (model_layers M)"

lemma loaded_shapes:
  assumes load: "load_model mk cast config gen files = Inr (cfg, M)" and ok: "tensors_ok files"
  shows "model_shaped cfg M"
proof -
  obtain w where P: "\<And>name sh. (name, sh) \<in> set (parameters cfg) \<Longrightarrow> list_all ((\<le>) 0) sh \<and> (\<exists>t. map_of w name = Some t \<and> t_shape t = map nat sh)"
    and l: "load_weights cfg (where_of files) = Inr (w, [])" and M: "M = fill_model mk cfg (parameter cast w)"
    using load_model_parts [OF load] by metis
  have shape: "t_shape (parameter cast w name) = map nat sh" if "(name, sh) \<in> set (parameters cfg)" for name sh
    using P [OF that] by (auto simp: parameter_def Let_def)
  have mat: "matrix m n (rows_of (parameter cast w name))" if "(name, [m, n]) \<in> set (parameters cfg)" "(name, keys) \<in> set (plan cfg)" for name m n keys
  proof -
    have sh: "t_shape (parameter cast w name) = [nat m, nat n]" using shape [OF that(1)] by simp
    from loaded_parameter(2) [OF l that(2) ok sh] rows_of_shape [OF sh] show ?thesis by (simp add: matrix_def)
  qed
  have vec: "length (t_data (parameter cast w name)) = nat n" if "(name, [n]) \<in> set (parameters cfg)" "(name, [key]) \<in> set (plan cfg)" for name n key
    using loaded_parameter(1) [OF l that(2) ok refl, of cast] shape [OF that(1)] by (simp add: tensor_ok_def)
  have layer: "layer_shaped cfg (fill_layer (parameter cast w) i)" if i: "i < nat (num_hidden_layers cfg)" for i
  proof -
    have m: "matrix m k (rows_of (parameter cast w (dst_prefix i @ n)))" if "(n, [m, k]) \<in> set (layer_parameters cfg)" "(n, ks) \<in> set layer_entries" for n m k ks
      by (rule mat [OF parameter_entries(4) [OF i that(1)] plan_entries(4) [OF i that(2)]])
    have v: "length (t_data (parameter cast w (dst_prefix i @ n))) = nat m" if "(n, [m]) \<in> set (layer_parameters cfg)" "n \<in> set plain_names" for n m
    proof -
      have "(n, [n]) \<in> set layer_entries" using that(2) by (simp add: layer_entries_def)
      from vec [OF parameter_entries(4) [OF i that(1)]] plan_entries(4) [OF i this] show ?thesis by simp
    qed
    note names = layer_parameters_def layer_entries_def plain_names_def
    show ?thesis
      using m [of "''self_attn.qkv_proj.weight''" _ _ qkv_names] m [of "''self_attn.o_proj.weight''" _ _ "[''self_attn.o_proj.weight'']"]
        v [of "''self_attn.q_norm.weight''"] v [of "''self_attn.k_norm.weight''"]
        m [of "''mlp.gate_up_proj.weight''" _ _ gate_up_names] m [of "''mlp.down_proj.weight''" _ _ "[''mlp.down_proj.weight'']"]
        v [of "''input_layernorm.weight''"] v [of "''post_attention_layernorm.weight''"]
      by (simp add: layer_shaped_def fill_layer_def Let_def names)
  qed
  show ?thesis
    unfolding model_shaped_def M fill_model_def model.simps
    using mat [OF parameter_entries(1) plan_entries(1)] vec [OF parameter_entries(2) plan_entries(2)] mat [OF parameter_entries(3) plan_entries(3)] layer
    by (auto simp: list_all_iff)
qed

text \<open>Where each weight comes from.\<close>

definition model_from :: "model_config \<Rightarrow> (string \<Rightarrow> 'a tensor) \<Rightarrow> 'a model \<Rightarrow> bool" where
  "model_from cfg S M \<longleftrightarrow>
     embed_tokens M = rows_of (S ''model.embed_tokens.weight'') \<and> final_norm M = t_data (S ''model.norm.weight'') \<and>
     lm_head M = (if tie_word_embeddings cfg then None else Some (rows_of (S ''lm_head.weight''))) \<and>
     model_layers M = map (source_layer S) [0..<nat (num_hidden_layers cfg)]"

lemma loaded_from:
  assumes load: "load_model mk cast config gen files = Inr (cfg, M)" and ok: "tensors_ok files"
  shows "model_from cfg (source cast files) M"
proof -
  obtain w where P: "\<And>name sh. (name, sh) \<in> set (parameters cfg) \<Longrightarrow> list_all ((\<le>) 0) sh \<and> (\<exists>t. map_of w name = Some t \<and> t_shape t = map nat sh)"
    and l: "load_weights cfg (where_of files) = Inr (w, [])" and M: "M = fill_model mk cfg (parameter cast w)"
    using load_model_parts [OF load] by metis
  have one: "parameter cast w name = source cast files key" if "(name, [key]) \<in> set (plan cfg)" for name key
    using loaded_parameter(1) [OF l that ok refl, of cast] by blast
  have stack: "rows_of (parameter cast w name) = concat (map (\<lambda>k. rows_of (source cast files k)) keys)"
    if "(name, [m, n]) \<in> set (parameters cfg)" "(name, keys) \<in> set (plan cfg)" for name m n keys
  proof -
    have "t_shape (parameter cast w name) = [nat m, nat n]" using P [OF that(1)] by (auto simp: parameter_def Let_def)
    from loaded_parameter(2) [OF l that(2) ok this] show ?thesis by blast
  qed
  have layer: "fill_layer (parameter cast w) i = source_layer (source cast files) i" if i: "i < nat (num_hidden_layers cfg)" for i
  proof -
    have o: "parameter cast w (dst_prefix i @ n) = source cast files (src_prefix i @ n)" if "n \<in> set plain_names" for n
    proof -
      have "(n, [n]) \<in> set layer_entries" using that by (simp add: layer_entries_def)
      from one plan_entries(4) [OF i this] show ?thesis by simp
    qed
    have "rows_of (parameter cast w (dst_prefix i @ ''self_attn.qkv_proj.weight'')) = concat (map (\<lambda>k. rows_of (source cast files k)) (map ((@) (src_prefix i)) qkv_names))"
      "rows_of (parameter cast w (dst_prefix i @ ''mlp.gate_up_proj.weight'')) = concat (map (\<lambda>k. rows_of (source cast files k)) (map ((@) (src_prefix i)) gate_up_names))"
      by (rule stack [OF parameter_entries(4) [OF i] plan_entries(4) [OF i]]; simp add: layer_parameters_def layer_entries_def)+
    then show ?thesis
      using o by (simp add: fill_layer_def source_layer_def Let_def qkv_names_def gate_up_names_def plain_names_def)
  qed
  show ?thesis
    using one [OF plan_entries(1)] one [OF plan_entries(2)] one [OF plan_entries(3)] layer
    by (simp add: model_from_def M fill_model_def)
qed

section \<open>Complete checkpoints\<close>

text \<open>The shapes of the tensors of a Hugging Face checkpoint.\<close>

definition layer_shapes :: "model_config \<Rightarrow> (string \<times> int list) list" where
  "layer_shapes cfg =
     [(''self_attn.q_proj.weight'', [num_attention_heads cfg * head_dim cfg, hidden_size cfg]),
      (''self_attn.k_proj.weight'', [num_key_value_heads cfg * head_dim cfg, hidden_size cfg]),
      (''self_attn.v_proj.weight'', [num_key_value_heads cfg * head_dim cfg, hidden_size cfg]),
      (''mlp.gate_proj.weight'', [intermediate_size cfg, hidden_size cfg]), (''mlp.up_proj.weight'', [intermediate_size cfg, hidden_size cfg]),
      (''self_attn.o_proj.weight'', [hidden_size cfg, num_attention_heads cfg * head_dim cfg]),
      (''self_attn.q_norm.weight'', [head_dim cfg]), (''self_attn.k_norm.weight'', [head_dim cfg]),
      (''mlp.down_proj.weight'', [hidden_size cfg, intermediate_size cfg]),
      (''input_layernorm.weight'', [hidden_size cfg]), (''post_attention_layernorm.weight'', [hidden_size cfg])]"

definition source_shapes :: "model_config \<Rightarrow> (string \<times> int list) list" where
  "source_shapes cfg =
     [(''model.embed_tokens.weight'', [mc_vocab_size cfg, hidden_size cfg]), (''model.norm.weight'', [hidden_size cfg])] @
     (if tie_word_embeddings cfg then [] else [(''lm_head.weight'', [mc_vocab_size cfg, hidden_size cfg])]) @
     concat (map (\<lambda>i. map (\<lambda>(name, sh). (src_prefix i @ name, sh)) (layer_shapes cfg)) [0..<nat (num_hidden_layers cfg)])"

definition sizes_ok :: "model_config \<Rightarrow> bool" where
  "sizes_ok cfg \<longleftrightarrow> 0 \<le> mc_vocab_size cfg \<and> 0 \<le> hidden_size cfg \<and> 0 \<le> intermediate_size cfg \<and> 0 \<le> head_dim cfg \<and>
     0 \<le> num_attention_heads cfg \<and> 0 \<le> num_key_value_heads cfg \<and> 0 \<le> max_position_embeddings cfg"

lemma source_entries:
  "(''model.embed_tokens.weight'', [mc_vocab_size cfg, hidden_size cfg]) \<in> set (source_shapes cfg)"
  "(''model.norm.weight'', [hidden_size cfg]) \<in> set (source_shapes cfg)"
  "\<not> tie_word_embeddings cfg \<Longrightarrow> (''lm_head.weight'', [mc_vocab_size cfg, hidden_size cfg]) \<in> set (source_shapes cfg)"
  "i < nat (num_hidden_layers cfg) \<Longrightarrow> (k, sh) \<in> set (layer_shapes cfg) \<Longrightarrow> (src_prefix i @ k, sh) \<in> set (source_shapes cfg)"
  by (auto simp: source_shapes_def intro!: bexI [of _ i] image_eqI [of _ _ "(k, sh)"])

lemma plain_shapes: "n \<in> set plain_names \<Longrightarrow> \<exists>sh. (n, sh) \<in> set (layer_shapes cfg) \<and> (n, sh) \<in> set (layer_parameters cfg)"
  by (simp add: plain_names_def) (elim disjE; simp add: layer_shapes_def layer_parameters_def)

text \<open>A tensor of the right shape under every name makes every parameter of the right shape.\<close>

lemma entry_fits:
  assumes sizes: "sizes_ok cfg" and D: "\<And>key sh. (key, sh) \<in> set (source_shapes cfg) \<Longrightarrow> \<exists>t. D key = Some t \<and> t_shape t = map nat sh"
    and e: "(name, keys) \<in> set (plan cfg)"
  shows "\<exists>t sh. combines D (name, keys) t \<and> (name, sh) \<in> set (parameters cfg) \<and> t_shape t = map nat sh"
proof -
  have one: "\<exists>t. combines D (n, [key]) t \<and> t_shape t = map nat sh" if "(key, sh) \<in> set (source_shapes cfg)" for n key sh
  proof -
    note d = D [OF that]
    then obtain t where t: "D key = Some t" "t_shape t = map nat sh" by blast
    then show ?thesis by (intro exI [of _ t]) (auto simp: combines_def intro: exI [of _ "[t]"])
  qed
  consider "name = ''embed_tokens.weight''" "keys = [''model.embed_tokens.weight'']" | "name = ''norm.weight''" "keys = [''model.norm.weight'']"
    | "\<not> tie_word_embeddings cfg" "name = ''lm_head.weight''" "keys = [''lm_head.weight'']"
    | i n ks where "i < nat (num_hidden_layers cfg)" "(n, ks) \<in> set layer_entries" "name = dst_prefix i @ n" "keys = map ((@) (src_prefix i)) ks"
    using e by (auto simp: plan_def layer_plan_def split: if_splits)
  then show ?thesis
  proof cases
    case 1
    then show ?thesis using one [OF source_entries(1), of name] parameter_entries(1) [of cfg] by blast
  next
    case 2
    then show ?thesis using one [OF source_entries(2), of name] parameter_entries(2) [of cfg] by blast
  next
    case 3
    then show ?thesis using one [OF source_entries(3), of name] parameter_entries(3) [of cfg] by blast
  next
    case 4
    have S: "(src_prefix i @ k, sh) \<in> set (source_shapes cfg)" if "(k, sh) \<in> set (layer_shapes cfg)" for k sh
      using source_entries(4) [OF 4(1) that] .
    have L: "\<exists>t. D (src_prefix i @ k) = Some t \<and> t_shape t = map nat sh" if "(k, sh) \<in> set (layer_shapes cfg)" for k sh
      by (rule D [OF S [OF that]])
    note Q = parameter_entries(4) [OF 4(1)]
    let ?H = "hidden_size cfg" and ?q = "num_attention_heads cfg * head_dim cfg" and ?kv = "num_key_value_heads cfg * head_dim cfg" and ?I = "intermediate_size cfg"
    have nonneg: "0 \<le> ?q" "0 \<le> ?kv" "0 \<le> ?I" using sizes by (simp_all add: sizes_ok_def)
    consider "n = ''self_attn.qkv_proj.weight''" "ks = qkv_names" | "n = ''mlp.gate_up_proj.weight''" "ks = gate_up_names" | "n \<in> set plain_names" "ks = [n]"
      using 4(2) by (auto simp: layer_entries_def)
    then show ?thesis
    proof cases
      case 1
      have "\<exists>t. D (src_prefix i @ ''self_attn.q_proj.weight'') = Some t \<and> t_shape t = [nat ?q, nat ?H]"
        "\<exists>t. D (src_prefix i @ ''self_attn.k_proj.weight'') = Some t \<and> t_shape t = [nat ?kv, nat ?H]"
        "\<exists>t. D (src_prefix i @ ''self_attn.v_proj.weight'') = Some t \<and> t_shape t = [nat ?kv, nat ?H]"
        using L [of "''self_attn.q_proj.weight''" "[?q, ?H]"] L [of "''self_attn.k_proj.weight''" "[?kv, ?H]"] L [of "''self_attn.v_proj.weight''" "[?kv, ?H]"]
        by (simp_all add: layer_shapes_def)
      then obtain tq tk tv where t: "D (src_prefix i @ ''self_attn.q_proj.weight'') = Some tq" "t_shape tq = [nat ?q, nat ?H]"
          "D (src_prefix i @ ''self_attn.k_proj.weight'') = Some tk" "t_shape tk = [nat ?kv, nat ?H]"
          "D (src_prefix i @ ''self_attn.v_proj.weight'') = Some tv" "t_shape tv = [nat ?kv, nat ?H]"
        by blast
      obtain u where u: "combine [tq, tk, tv] = Inr u" "t_shape u = [nat ?q + (nat ?kv + nat ?kv), nat ?H]"
        using t by (simp add: cat_rows_def)
      have "map D keys = map Some [tq, tk, tv]" using 1 4(4) t by (simp add: qkv_names_def)
      then have "combines D (name, keys) u" using u(1) unfolding combines_def snd_conv by blast
      moreover have "(name, [?q + 2 * ?kv, ?H]) \<in> set (parameters cfg)" unfolding 4(3) 1 by (rule Q) (simp add: layer_parameters_def)
      moreover have "nat ?q + (nat ?kv + nat ?kv) = nat (?q + 2 * ?kv)" using nonneg by simp
      ultimately show ?thesis using u(2) by (intro exI [of _ u] exI [of _ "[?q + 2 * ?kv, ?H]"]) simp
    next
      case 2
      have "\<exists>t. D (src_prefix i @ ''mlp.gate_proj.weight'') = Some t \<and> t_shape t = [nat ?I, nat ?H]"
        "\<exists>t. D (src_prefix i @ ''mlp.up_proj.weight'') = Some t \<and> t_shape t = [nat ?I, nat ?H]"
        using L [of "''mlp.gate_proj.weight''" "[?I, ?H]"] L [of "''mlp.up_proj.weight''" "[?I, ?H]"] by (simp_all add: layer_shapes_def)
      then obtain tg tu where t: "D (src_prefix i @ ''mlp.gate_proj.weight'') = Some tg" "t_shape tg = [nat ?I, nat ?H]"
          "D (src_prefix i @ ''mlp.up_proj.weight'') = Some tu" "t_shape tu = [nat ?I, nat ?H]"
        by blast
      obtain u where u: "combine [tg, tu] = Inr u" "t_shape u = [nat ?I + nat ?I, nat ?H]" using t by (simp add: cat_rows_def)
      have "map D keys = map Some [tg, tu]" using 2 4(4) t by (simp add: gate_up_names_def)
      then have "combines D (name, keys) u" using u(1) unfolding combines_def snd_conv by blast
      moreover have "(name, [2 * ?I, ?H]) \<in> set (parameters cfg)" unfolding 4(3) 2 by (rule Q) (simp add: layer_parameters_def)
      moreover have "nat ?I + nat ?I = nat (2 * ?I)" using nonneg by simp
      ultimately show ?thesis using u(2) by (intro exI [of _ u] exI [of _ "[2 * ?I, ?H]"]) simp
    next
      case 3
      obtain sh where sh: "(n, sh) \<in> set (layer_shapes cfg)" "(n, sh) \<in> set (layer_parameters cfg)"
        using plain_shapes [OF 3(1)] by blast
      have keys: "keys = [src_prefix i @ n]" using 3(2) 4(4) by simp
      obtain t where t: "combines D (name, keys) t" "t_shape t = map nat sh" using one [OF S [OF sh(1)], of name] unfolding keys by blast
      have "(name, sh) \<in> set (parameters cfg)" unfolding 4(3) by (rule Q [OF sh(2)])
      with t show ?thesis by blast
    qed
  qed
qed

lemma load_complete_ok:
  assumes c: "load_config config gen = Inr cfg" and f: "files \<noteq> []" and sizes: "sizes_ok cfg"
    and names: "dom (map_of (usable cfg (where_of files))) = set (source_names cfg)"
    and shapes: "\<And>key sh. (key, sh) \<in> set (source_shapes cfg) \<Longrightarrow> \<exists>t. map_of (where_of files) key = Some t \<and> t_shape t = map nat sh"
  shows "\<exists>M. load_model mk cast config gen files = Inr (cfg, M)"
proof -
  let ?d = "where_of files" and ?expected = "map (\<lambda>(name, sh). (name, map nat sh)) (parameters cfg)"
  have src: "fst ` set (source_shapes cfg) \<subseteq> set (source_names cfg)"
  proof -
    have "fst ` set (layer_shapes cfg) \<subseteq> set (qkv_names @ gate_up_names @ plain_names)"
      by (simp add: layer_shapes_def qkv_names_def gate_up_names_def plain_names_def)
    then show ?thesis by (fastforce simp: source_shapes_def source_names_def)
  qed
  have fits: "\<exists>t sh. combines (map_of (usable cfg ?d)) e t \<and> (fst e, sh) \<in> set (parameters cfg) \<and> t_shape t = map nat sh" if "e \<in> set (plan cfg)" for e
  proof -
    have "\<exists>t. map_of (usable cfg ?d) key = Some t \<and> t_shape t = map nat sh" if "(key, sh) \<in> set (source_shapes cfg)" for key sh
    proof -
      have "key \<in> set (source_names cfg)" using src that by force
      then show ?thesis using shapes [OF that] usable_source by metis
    qed
    from entry_fits [OF sizes this, where name = "fst e" and keys = "snd e"] that show ?thesis by simp
  qed
  then obtain T where T: "\<And>e. e \<in> set (plan cfg) \<Longrightarrow> combines (map_of (usable cfg ?d)) e (T e) \<and> (\<exists>sh. (fst e, sh) \<in> set (parameters cfg) \<and> t_shape (T e) = map nat sh)"
    by metis
  have all: "list_all2 (combines (map_of (usable cfg ?d))) (plan cfg) (map T (plan cfg))"
    using T by (simp add: list_all2_conv_all_nth)
  obtain w rest where l: "load_weights cfg ?d = Inr (w, rest)" and w: "w = fold (\<lambda>(k, t). AList.update k t) (zip (map fst (plan cfg)) (map T (plan cfg))) []"
    using all unfolding load_weights_plan by (metis run_plan [OF plan_keys_distinct])
  have "rest = []" using load_weights_result(4) [OF l] names by simp
  have "map fst ?expected = map fst (parameters cfg)" by (induction "parameters cfg") auto
  then have E: "distinct (map fst ?expected)" "fst ` set ?expected = fst ` set w"
    using parameter_names [of cfg] load_weights_result(2) [OF l] by (simp_all only: set_map [symmetric])
  have "check_shape ?expected kt = Inr ()" if kt: "kt \<in> set w" for kt
  proof -
    have look: "map_of w (fst kt) = Some (snd kt)" using load_weights_result(3) [OF l] kt by simp
    have "fst kt \<in> set (map fst (plan cfg))" using kt load_weights_result(2) [OF l] by blast
    then obtain i where i: "i < length (plan cfg)" "fst (plan cfg ! i) = fst kt" by (auto simp: in_set_conv_nth)
    have "map_of w (fst kt) = map_of (zip (map fst (plan cfg)) (map T (plan cfg))) (map fst (plan cfg) ! i)"
      using fold_update_zip(1) [OF plan_names_distinct, of "map T (plan cfg)" cfg "[]"] i by (simp add: w)
    also have "\<dots> = Some (T (plan cfg ! i))"
      using map_of_zip_nth [of "map fst (plan cfg)" "map T (plan cfg)" i] plan_names_distinct [of cfg] i(1) by simp
    finally have t: "snd kt = T (plan cfg ! i)" using look by simp
    obtain sh where sh: "(fst kt, sh) \<in> set (parameters cfg)" "t_shape (snd kt) = map nat sh"
      using T [OF nth_mem [OF i(1)]] i(2) t by auto
    have "(fst kt, map nat sh) \<in> set ?expected" using sh(1) by force
    then have "map_of ?expected (fst kt) = Some (map nat sh)" using E(1) by (simp only: map_of_is_SomeI)
    then show ?thesis using sh(2) by (simp add: check_shape_def case_prod_unfold)
  qed
  then have "mapM (check_shape ?expected) w = Inr (map (\<lambda>_. ()) w)" by (rule mapM_ok)
  moreover have "list_all (\<lambda>(_, sh). list_all ((\<le>) 0) sh) (parameters cfg)"
    using sizes by (auto simp: parameters_def layer_parameters_def sizes_ok_def list_all_iff)
  then have "named_parameters cfg = Inr ?expected" using sizes by (simp add: named_parameters_def sizes_ok_def)
  ultimately show ?thesis using c f l \<open>rest = []\<close> E(2) by (simp add: load_model_def check_names_def)
qed

end
