(* ===== verification/Loader_Props.thy ===== *)
theory Loader_Props
  imports Loader_Ok Engine_Props
begin

text \<open>
  Loading is strict: what \<open>load_model\<close> returns is the checkpoint, all of it and nothing else, in the
  places and shapes the forward pass expects; an engine on a loaded model is one the other theorems are about.
\<close>

section \<open>An example\<close>

text \<open>A checkpoint in two files, of the model of the other examples.\<close>

definition ex_json :: json_obj where
  "ex_json = [(''model_type'', JStr ''qwen3''), (''hidden_size'', JInt 1), (''intermediate_size'', JInt 1), (''num_hidden_layers'', JInt 1),
     (''num_attention_heads'', JInt 1), (''num_key_value_heads'', JInt 1), (''head_dim'', JInt 2), (''vocab_size'', JInt 10),
     (''rope_theta'', JFloat 1), (''rms_norm_eps'', JFloat 1), (''max_position_embeddings'', JInt 16), (''tie_word_embeddings'', JBool True),
     (''eos_token_id'', JInt 0)]"

definition tensor_of :: "nat list \<Rightarrow> rat \<Rightarrow> rat tensor" where
  "tensor_of sh x = \<lparr>t_shape = sh, t_data = replicate (prod_list sh) x\<rparr>"

definition ex_layer_file :: "nat \<Rightarrow> nat \<Rightarrow> nat \<Rightarrow> rat tensors" where
  "ex_layer_file q k v = map (\<lambda>(n, t). (''model.layers.0.'' @ n, t))
     [(''self_attn.q_proj.weight'', tensor_of [q, 1] 1), (''self_attn.k_proj.weight'', tensor_of [k, 1] 1),
      (''self_attn.v_proj.weight'', tensor_of [v, 1] 1), (''self_attn.o_proj.weight'', \<lparr>t_shape = [1, 2], t_data = [1, 0]\<rparr>),
      (''self_attn.q_norm.weight'', tensor_of [2] 1), (''self_attn.k_norm.weight'', tensor_of [2] 1),
      (''mlp.gate_proj.weight'', tensor_of [1, 1] 1), (''mlp.up_proj.weight'', tensor_of [1, 1] 1), (''mlp.down_proj.weight'', tensor_of [1, 1] 1),
      (''input_layernorm.weight'', tensor_of [1] 1), (''post_attention_layernorm.weight'', tensor_of [1] 1)]"

definition ex_top_file :: "rat tensors" where
  "ex_top_file = [(''model.embed_tokens.weight'', \<lparr>t_shape = [10, 1], t_data = map of_nat [0..<10]\<rparr>), (''model.norm.weight'', tensor_of [1] 1)]"

definition ex_files :: "rat tensors list" where
  "ex_files = [ex_layer_file 2 2 2, ex_top_file]"

definition ex_load :: "rat tensors list \<Rightarrow> (model_config \<times> rat model) result" where
  "ex_load = load_model (\<lambda>_. ex_math) (\<lambda>x. x) ex_json None"

lemma ex_files_ok: "tensors_ok ex_files"
  by (simp add: tensors_ok_def ex_files_def ex_layer_file_def ex_top_file_def tensor_of_def tensor_ok_def)

lemma ex_load_ok: "ex_load ex_files = Inr (ex_model_config, ex_model)"
proof -
  have "case ex_load ex_files of
      Inr (c, M) \<Rightarrow> c = ex_model_config \<and> embed_tokens M = embed_tokens ex_model \<and> model_layers M = model_layers ex_model \<and>
        final_norm M = final_norm ex_model \<and> lm_head M = None \<and> n_heads M = 1 \<and> n_kv_heads M = 1 \<and> d_head M = 2 \<and> d_inter M = 1 \<and>
        max_positions M = 16
    | _ \<Rightarrow> False"
    by code_simp
  then obtain M where M: "ex_load ex_files = Inr (ex_model_config, M)" "embed_tokens M = embed_tokens ex_model"
      "model_layers M = model_layers ex_model" "final_norm M = final_norm ex_model" "lm_head M = None" "n_heads M = 1" "n_kv_heads M = 1"
      "d_head M = 2" "d_inter M = 1" "max_positions M = 16"
    by (auto split: sum.splits)
  obtain w where "M = fill_model (\<lambda>_. ex_math) ex_model_config (parameter (\<lambda>x. x) w)"
    using load_model_parts [OF M(1) [unfolded ex_load_def]] by metis
  then have "ops M = ex_math" by (simp add: fill_model_def)
  then have "M = ex_model" using M(2-) by (intro model.equality) (simp_all add: ex_model_def)
  then show ?thesis using M(1) by simp
qed

section \<open>Strictness\<close>

lemma usable_names:
  "dom (map_of (usable cfg d)) = fst ` set d - (if tie_word_embeddings cfg then {''lm_head.weight''} else {})"
  by (simp add: usable_def delete_conv' dom_map_of_conv_image_fst [symmetric] del: dom_map_of_conv_image_fst)

text \<open>C15: loading is strict. If \<open>load_model\<close> returns, the names in the files are exactly those of the
  configured model (a tied model may have a copy of the head, which is dropped): no tensor is missing, none is
  ignored. Each weight of the model is the tensor of its name, the stacked projections being the rows of
  q, k, v and of gate, up in this order, and every weight has the configured shape.\<close>

theorem load_strict:
  assumes "load_model mk cast config gen files = Inr (cfg, M)" and "tensors_ok files"
  shows "load_config config gen = Inr cfg \<and>
     fst ` set (where_of files) - (if tie_word_embeddings cfg then {''lm_head.weight''} else {}) = set (source_names cfg) \<and>
     model_from cfg (source cast files) M \<and> model_shaped cfg M"
proof -
  obtain w where c: "load_config config gen = Inr cfg" and l: "load_weights cfg (where_of files) = Inr (w, [])"
    using load_model_parts [OF assms(1)] by metis
  have "dom (map_of (usable cfg (where_of files))) = set (source_names cfg)" using load_weights_result(4) [OF l] by blast
  then show ?thesis unfolding usable_names using c loaded_from [OF assms] loaded_shapes [OF assms] by blast
qed

theorem load_strict_witness:
  "fst ` set (where_of ex_files) - {''lm_head.weight''} = set (source_names ex_model_config) \<and> model_shaped ex_model_config ex_model"
  using load_strict [OF ex_load_ok [unfolded ex_load_def] ex_files_ok] by (simp add: ex_model_config_def)

text \<open>C16: every complete checkpoint loads: with a configuration of non-negative sizes, the names of the
  model in any number of files and in any order, and each tensor of the published shape, \<open>load_model\<close>
  raises nothing.\<close>

theorem load_complete:
  assumes "load_config config gen = Inr cfg" and "files \<noteq> []" and "sizes_ok cfg"
    and "fst ` set (where_of files) - (if tie_word_embeddings cfg then {''lm_head.weight''} else {}) = set (source_names cfg)"
    and "\<forall>(key, sh) \<in> set (source_shapes cfg). \<exists>t. map_of (where_of files) key = Some t \<and> t_shape t = map nat sh"
  shows "\<exists>M. load_model mk cast config gen files = Inr (cfg, M)"
proof (rule load_complete_ok [OF assms(1-3)])
  show "dom (map_of (usable cfg (where_of files))) = set (source_names cfg)"
    unfolding usable_names by (rule assms(4))
  show "\<exists>t. map_of (where_of files) key = Some t \<and> t_shape t = map nat sh" if "(key, sh) \<in> set (source_shapes cfg)" for key sh
    using assms(5) that by blast
qed

lemma ex_complete:
  "load_config ex_json None = Inr ex_model_config \<and> sizes_ok ex_model_config \<and>
   fst ` set (where_of ex_files) - (if tie_word_embeddings ex_model_config then {''lm_head.weight''} else {}) = set (source_names ex_model_config) \<and>
   (\<forall>(key, sh) \<in> set (source_shapes ex_model_config). case map_of (where_of ex_files) key of Some t \<Rightarrow> t_shape t = map nat sh | None \<Rightarrow> False)"
  by code_simp

theorem load_complete_witness: "\<exists>M. load_model (\<lambda>_. ex_math) (\<lambda>x. x) ex_json None ex_files = Inr (ex_model_config, M)"
proof (rule load_complete)
  show "\<forall>(key, sh) \<in> set (source_shapes ex_model_config). \<exists>t. map_of (where_of ex_files) key = Some t \<and> t_shape t = map nat sh"
    using ex_complete by (fastforce split: option.splits)
qed (use ex_complete in \<open>simp_all add: ex_files_def\<close>)

text \<open>C17: what was loaded can be served: for a loaded model with a vocabulary and a number of heads
  and, where prefixes are cached, digests that do not collide, the engine \<open>init_engine\<close> builds around it is in the scope of the engine's theorems, so that in
  every state reachable from it a step returns, or fails in the sampler for a queued request with a temperature
  between 0 and 1 that divides its logits beyond the finite numbers.\<close>

theorem loaded_engine_serves:
  assumes "load_model mk cast config gen files = Inr (mc, M)" and "tensors_ok files"
    and "0 < mc_vocab_size mc" and "0 \<le> num_attention_heads mc" and "0 \<le> num_key_value_heads mc"
    and "init_engine X T cuda measured itemsize c0 mc M tok krn junk = Inr e0" and "config_post_init c0 = Inr c0"
    and "prefixes_apart X e0" and "cfg_attention_backend (eng_config e0) \<noteq> ''flashinfer''" and "torch_ok T" and "rounds_nonneg X"
    and "reachable X T e0 e"
  shows "built X T e0 \<and> (case eng_step X T now e of
      Inr (e', outs) \<Rightarrow> reachable X T e0 e'
    | Inl err \<Rightarrow> err = nan_error \<and>
       (\<exists>r \<in> set (queue_list (eng_sched e) []). let q = store (eng_sched e) r; temp = temperature (sampling_params_of q) in
          0 < temp \<and> temp < 1 \<and> softmax_at T (to_float32 T temp) (ref_logits (run_model (eng_runner e)) (token_ids q)) = None))"
proof -
  have shaped: "model_shaped mc M" using loaded_shapes [OF assms(1,2)] .
  obtain w where dims: "0 \<le> head_dim mc" "0 \<le> max_position_embeddings mc" and M: "M = fill_model mk mc (parameter cast w)"
    using load_model_parts [OF assms(1)] by metis
  have "nat (num_attention_heads mc * head_dim mc + 2 * (num_key_value_heads mc * head_dim mc))
      = nat (num_attention_heads mc) * nat (head_dim mc) + 2 * (nat (num_key_value_heads mc) * nat (head_dim mc))"
    using assms(4,5) dims(1) by (simp add: nat_add_distrib nat_mult_distrib)
  then have "model_ok M"
    using shaped by (simp add: model_ok_def model_shaped_def layer_shaped_def matrix_def list_all_iff Let_def) (simp add: M fill_model_def)
  moreover have "length (embed_tokens M) = nat (mc_vocab_size mc)"
      "length (case lm_head M of None \<Rightarrow> embed_tokens M | Some w \<Rightarrow> w) = nat (mc_vocab_size mc)"
    using shaped by (auto simp: model_shaped_def matrix_def split: option.splits)
  moreover have "max_position_embeddings mc \<le> int (max_positions M)" using dims(2) by (simp add: M fill_model_def)
  ultimately have "model_fits M (mc_vocab_size mc) (max_position_embeddings mc)" using assms(3) by (simp add: model_fits_def)
  then have "model_matches mc M" using shaped by (simp add: model_matches_def model_shaped_def)
  then have b: "built X T e0" unfolding built_def using assms(6-11) by blast
  show ?thesis using b step_cases [OF b assms(12)] by blast
qed

theorem loaded_engine_serves_witness:
  "\<exists>e' outs. eng_step ex_ext ex_torch 1 ex_mixed = Inr (e', outs) \<and> reachable ex_ext ex_torch ex_engine e' \<and> map out_seq_id outs = [0, 1]"
proof -
  have c: "cfg_attention_backend (eng_config ex_engine) \<noteq> ''flashinfer''" by (simp add: ex_init(2))
  have m: "0 < mc_vocab_size ex_model_config" "0 \<le> num_attention_heads ex_model_config" "0 \<le> num_key_value_heads ex_model_config"
    by (simp_all add: ex_model_config_def)
  obtain e' outs where st: "eng_step ex_ext ex_torch 1 ex_mixed = Inr (e', outs)" "map out_seq_id outs = [0, 1]"
    using ex_mixed_step by (auto split: sum.splits)
  then show ?thesis
    using loaded_engine_serves [OF ex_load_ok [unfolded ex_load_def] ex_files_ok m ex_init(1) ex_valid ex_apart c ex_torch_ok ex_rounds
        ex_mixed_reach, of 1] by auto
qed

section \<open>Other facts\<close>

text \<open>The end tokens are those of both files, each once.\<close>

lemma from_keys_set: "set (from_keys xs) = set xs" "distinct (from_keys xs)"
  by (induction xs) auto

text \<open>Only the stacked shapes are compared: q of three rows and k of one pass for two and two.\<close>

lemma misshapen_parts_load: "\<not> isl (ex_load [ex_layer_file 3 1 2, ex_top_file])"
  by code_simp

end
