(* ===== verification/Bench_Client.thy ===== *)
theory Bench_Client
  imports Protocol
begin

text \<open>
  The wire between the server and the benchmark client of \<open>bench/run_bench.py\<close>: the payloads \<open>_stream\<close>
  sends as server-sent events, and \<open>_send\<close>, which cuts the events out of whatever chunks the network
  delivers and keeps a record of the request. \<open>json.dumps\<close> and \<open>json.loads\<close> are parameters; the client's
  clock is an argument.
\<close>

section \<open>Payloads\<close>

text \<open>What \<open>json.dumps\<close> writes; the strings inside are lists of code points.\<close>

datatype payload =
    PNull
  | PBool bool
  | PInt int
  | PStr ustr
  | PArr "payload list"
  | PObj "(string \<times> payload) list"

fun p_truthy :: "payload \<Rightarrow> bool" where
  "p_truthy PNull = False"
| "p_truthy (PBool b) = b"
| "p_truthy (PInt i) = (i \<noteq> 0)"
| "p_truthy (PStr s) = (s \<noteq> [])"
| "p_truthy (PArr xs) = (xs \<noteq> [])"
| "p_truthy (PObj d) = (d \<noteq> [])"

definition p_get :: "(string \<times> payload) list \<Rightarrow> string \<Rightarrow> payload \<Rightarrow> payload" where
  "p_get d k dflt = (case map_of d k of None \<Rightarrow> dflt | Some v \<Rightarrow> v)"

definition code_points :: "string \<Rightarrow> ustr" where
  "code_points s = map of_char s"

definition ascii :: "string \<Rightarrow> bytes" where
  "ascii s = map (\<lambda>c. word_of_nat (of_char c)) s"

section \<open>What the server sends\<close>

text \<open>The fields that are the same in every payload of a request.\<close>

record reply_head =
  rh_id :: string
  rh_created :: int
  rh_model :: string

definition head_fields :: "reply_head \<Rightarrow> (string \<times> payload) list" where
  "head_fields h = [(''id'', PStr (code_points (rh_id h))), (''object'', PStr (code_points ''text_completion'')),
     (''created'', PInt (rh_created h)), (''model'', PStr (code_points (rh_model h)))]"

fun sse_payload :: "reply_head \<Rightarrow> sse_event \<Rightarrow> payload option" where
  "sse_payload h (ChunkEvent txt reason) = Some (PObj (head_fields h @ [(''choices'', PArr [PObj
     [(''index'', PInt 0), (''text'', PStr txt), (''logprobs'', PNull),
      (''finish_reason'', case reason of None \<Rightarrow> PNull | Some s \<Rightarrow> PStr (code_points s))]])]))"
| "sse_payload h (ErrorEvent message) = Some (PObj [(''error'', PObj
     [(''message'', PStr (code_points message)), (''type'', PStr (code_points ''server_error'')), (''code'', PInt 500)])])"
| "sse_payload h (UsageEvent n k m) = Some (PObj (head_fields h @ [(''choices'', PArr []), (''usage'', PObj
     [(''prompt_tokens'', PInt n), (''completion_tokens'', PInt k), (''total_tokens'', PInt m)])]))"
| "sse_payload h DoneEvent = None"

text \<open>\<open>_sse\<close>, and the last line of the stream; \<open>dumps\<close> is \<open>json.dumps\<close> and the encoding of the response.\<close>

definition sse_body :: "(payload \<Rightarrow> bytes) \<Rightarrow> reply_head \<Rightarrow> sse_event \<Rightarrow> bytes" where
  "sse_body dumps h e = ascii ''data: '' @ (case sse_payload h e of None \<Rightarrow> ascii ''[DONE]'' | Some p \<Rightarrow> dumps p)"

definition sse_bytes :: "(payload \<Rightarrow> bytes) \<Rightarrow> reply_head \<Rightarrow> sse_event list \<Rightarrow> bytes" where
  "sse_bytes dumps h es = concat (map (\<lambda>e. sse_body dumps h e @ [10, 10]) es)"

section \<open>What the client reads\<close>

record client_record =
  sent_at :: rat
  token_times :: "rat list"
  output_tokens :: payload
  error_text :: ustr
  ended_at :: rat
  succeeded :: bool

text \<open>\<open>bytes.strip()\<close>\<close>

definition is_space :: "8 word \<Rightarrow> bool" where
  "is_space c \<longleftrightarrow> c \<in> {9, 10, 11, 12, 13, 32}"

definition strip :: "bytes \<Rightarrow> bytes" where
  "strip b = rev (dropWhile is_space (rev (dropWhile is_space b)))"

text \<open>\<open>buffer.split(b"\n\n", 1)\<close>, when the separator occurs.\<close>

fun cut_event :: "bytes \<Rightarrow> (bytes \<times> bytes) option" where
  "cut_event (a # b # xs) =
     (if a = 10 \<and> b = 10 then Some ([], xs)
      else case cut_event (b # xs) of None \<Rightarrow> None | Some (e, rest) \<Rightarrow> Some (a # e, rest))"
| "cut_event _ = None"

text \<open>An exception is the name of its class; \<open>other_str\<close> is \<open>str\<close> of a value that is not a string.\<close>

definition on_message :: "(payload \<Rightarrow> ustr) \<Rightarrow> rat \<Rightarrow> payload \<Rightarrow> client_record \<Rightarrow> string + client_record" where
  "on_message other_str now msg r =
     (case msg of
        PObj d \<Rightarrow>
          (case map_of d ''error'' of
             Some (PObj e) \<Rightarrow> Inr (r\<lparr>error_text := (case p_get e ''message'' (PObj e) of PStr s \<Rightarrow> s | v \<Rightarrow> other_str v)\<rparr>)
           | Some _ \<Rightarrow> Inl ''AttributeError''
           | None \<Rightarrow>
               if p_truthy (p_get d ''choices'' PNull) then Inr (r\<lparr>token_times := token_times r @ [now]\<rparr>)
               else if p_truthy (p_get d ''usage'' PNull) then
                 (case p_get d ''usage'' PNull of
                    PObj u \<Rightarrow> (case map_of u ''completion_tokens'' of None \<Rightarrow> Inl ''KeyError'' | Some v \<Rightarrow> Inr (r\<lparr>output_tokens := v\<rparr>))
                  | _ \<Rightarrow> Inl ''TypeError'')
               else Inr r)
      | PStr s \<Rightarrow> Inl (if list_ex (\<lambda>i. take 5 (drop i s) = code_points ''error'') [0..<length s] then ''TypeError'' else ''AttributeError'')
      | PArr xs \<Rightarrow> Inl (if PStr (code_points ''error'') \<in> set xs then ''TypeError'' else ''AttributeError'')
      | _ \<Rightarrow> Inl ''TypeError'')"

definition on_event :: "(bytes \<Rightarrow> payload option) \<Rightarrow> (payload \<Rightarrow> ustr) \<Rightarrow> rat \<Rightarrow> bytes \<Rightarrow> client_record \<Rightarrow> string + client_record" where
  "on_event json_loads other_str now event r =
     (let e = strip event in
      if take 5 e \<noteq> ascii ''data:'' \<or> strip (drop 5 e) = ascii ''[DONE]'' then Inr r
      else case json_loads (drop 5 e) of None \<Rightarrow> Inl ''JSONDecodeError'' | Some msg \<Rightarrow> on_message other_str now msg r)"

text \<open>The inner loop: \<open>clock k\<close> is the time read for the chunk's event number \<open>k\<close>. What was recorded before an
  exception stays.\<close>

lemma cut_event_shorter: "cut_event buffer = Some (e, rest) \<Longrightarrow> length rest < length buffer"
  by (induction buffer arbitrary: e rest rule: cut_event.induct) (auto split: if_splits option.splits)

function drain_buffer ::
  "(bytes \<Rightarrow> payload option) \<Rightarrow> (payload \<Rightarrow> ustr) \<Rightarrow> (nat \<Rightarrow> rat) \<Rightarrow> nat \<Rightarrow> bytes \<Rightarrow> client_record
     \<Rightarrow> string \<times> client_record + bytes \<times> client_record" where
  "drain_buffer json_loads other_str clock k buffer r =
     (case cut_event buffer of
        None \<Rightarrow> Inr (buffer, r)
      | Some (event, rest) \<Rightarrow>
          (case on_event json_loads other_str (clock k) event r of
             Inl x \<Rightarrow> Inl (x, r)
           | Inr r1 \<Rightarrow> drain_buffer json_loads other_str clock (Suc k) rest r1))"
  by pat_completeness auto
termination
  by (relation "measure (\<lambda>(_, _, _, _, buffer, _). length buffer)") (auto dest: cut_event_shorter)

declare drain_buffer.simps [simp del]

fun feed ::
  "(bytes \<Rightarrow> payload option) \<Rightarrow> (payload \<Rightarrow> ustr) \<Rightarrow> ((nat \<Rightarrow> rat) \<times> bytes) list \<Rightarrow> bytes \<Rightarrow> client_record
     \<Rightarrow> string \<times> client_record + bytes \<times> client_record" where
  "feed json_loads other_str [] buffer r = Inr (buffer, r)"
| "feed json_loads other_str ((clock, chunk) # chunks) buffer r =
     (case drain_buffer json_loads other_str clock 0 (buffer @ chunk) r of
        Inl x \<Rightarrow> Inl x
      | Inr (rest, r1) \<Rightarrow> feed json_loads other_str chunks rest r1)"

text \<open>
  One request: the status of the response, the chunks of its body and the exception the transport ended
  with, if it did. \<open>http_error\<close> is the text kept for another status than 200.
\<close>

definition send_request ::
  "(bytes \<Rightarrow> payload option) \<Rightarrow> (payload \<Rightarrow> ustr) \<Rightarrow> (string \<Rightarrow> ustr) \<Rightarrow> rat \<Rightarrow> rat \<Rightarrow> int \<Rightarrow> ustr
     \<Rightarrow> ((nat \<Rightarrow> rat) \<times> bytes) list \<Rightarrow> string option \<Rightarrow> client_record" where
  "send_request json_loads other_str repr_exc sent now code http_error chunks broken =
     (let r0 = \<lparr>sent_at = sent, token_times = [], output_tokens = PInt 0, error_text = [], ended_at = sent, succeeded = False\<rparr>;
          r1 = (if code \<noteq> 200 then r0\<lparr>error_text := http_error\<rparr>
                else case feed json_loads other_str chunks [] r0 of
                  Inl (x, r) \<Rightarrow> r\<lparr>error_text := repr_exc x\<rparr>
                | Inr (_, r) \<Rightarrow> (case broken of None \<Rightarrow> r | Some x \<Rightarrow> r\<lparr>error_text := repr_exc x\<rparr>));
          ok = (token_times r1 \<noteq> [] \<and> error_text r1 = []);
          r2 = r1\<lparr>ended_at := now, succeeded := ok\<rparr>
      in if ok \<and> \<not> p_truthy (output_tokens r2) then r2\<lparr>output_tokens := PInt (int (length (token_times r2)))\<rparr> else r2)"

end
