(* ===== verification/Bench_Client_Props.thy ===== *)
theory Bench_Client_Props
  imports Bench_Client Server_Live Examples
begin

text \<open>
  The benchmark measures what the server did: however the network cuts the stream into chunks, the client
  sees the events the server sent, and its record has their number, the reported tokens and the error.
\<close>

section \<open>Cutting events out of chunks\<close>

text \<open>All complete events of a buffer, and what is left.\<close>

function split_events :: "bytes \<Rightarrow> bytes list \<times> bytes" where
  "split_events buffer =
     (case cut_event buffer of
        None \<Rightarrow> ([], buffer)
      | Some (e, rest) \<Rightarrow> (case split_events rest of (es, left) \<Rightarrow> (e # es, left)))"
  by pat_completeness auto
termination
  by (relation "measure length") (auto dest: cut_event_shorter)

declare split_events.simps [simp del]

fun run_events ::
  "(bytes \<Rightarrow> payload option) \<Rightarrow> (payload \<Rightarrow> ustr) \<Rightarrow> rat list \<Rightarrow> bytes list \<Rightarrow> client_record \<Rightarrow> string \<times> client_record + client_record" where
  "run_events json_loads other_str (t # ts) (e # es) r =
     (case on_event json_loads other_str t e r of Inl x \<Rightarrow> Inl (x, r) | Inr r1 \<Rightarrow> run_events json_loads other_str ts es r1)"
| "run_events json_loads other_str _ _ r = Inr r"

lemma split_none: "cut_event buffer = None \<Longrightarrow> split_events buffer = ([], buffer)"
  by (subst split_events.simps) simp

lemma split_some: "cut_event buffer = Some (e, rest) \<Longrightarrow> split_events buffer = (e # fst (split_events rest), snd (split_events rest))"
  by (subst split_events.simps) (simp add: case_prod_unfold)

lemma cut_append: "cut_event buffer = Some (e, rest) \<Longrightarrow> cut_event (buffer @ more_bytes) = Some (e, rest @ more_bytes)"
  by (induction buffer arbitrary: e rest rule: cut_event.induct) (auto split: if_splits option.splits)

lemma split_append:
  "split_events (buffer @ more_bytes) =
     (fst (split_events buffer) @ fst (split_events (snd (split_events buffer) @ more_bytes)), snd (split_events (snd (split_events buffer) @ more_bytes)))"
proof (induction buffer rule: split_events.induct)
  case (1 buffer)
  show ?case
  proof (cases "cut_event buffer")
    case None
    then show ?thesis by (simp add: split_none)
  next
    case (Some er)
    obtain e rest where er: "er = (e, rest)" by (cases er)
    from 1 [OF Some er [symmetric]] show ?thesis unfolding split_some [OF Some [unfolded er]] split_some [OF cut_append [OF Some [unfolded er]]] by simp
  qed
qed

lemma drain_buffer_events:
  "drain_buffer json_loads other_str clock k buffer r =
     (case run_events json_loads other_str (map clock [k..<k + length (fst (split_events buffer))]) (fst (split_events buffer)) r of
        Inl x \<Rightarrow> Inl x | Inr r1 \<Rightarrow> Inr (snd (split_events buffer), r1))"
proof (induction buffer arbitrary: k r rule: split_events.induct)
  case (1 buffer)
  show ?case
  proof (cases "cut_event buffer")
    case None
    then show ?thesis by (subst drain_buffer.simps) (simp add: split_none)
  next
    case (Some er)
    obtain e rest where er: "er = (e, rest)" by (cases er)
    note c = Some [unfolded er]
    let ?es = "fst (split_events rest)"
    have U: "map clock [k..<k + length (e # ?es)] = clock k # map clock [Suc k..<Suc k + length ?es]"
      by (simp add: upt_conv_Cons del: upt_Suc)
    show ?thesis
      unfolding split_some [OF c] fst_conv snd_conv U run_events.simps
      by (subst drain_buffer.simps) (simp add: c 1 [OF c refl] del: upt_Suc split: sum.split)
  qed
qed

lemma run_events_append:
  "length ts = length es \<Longrightarrow>
     run_events json_loads other_str (ts @ us) (es @ fs) r =
       (case run_events json_loads other_str ts es r of Inl x \<Rightarrow> Inl x | Inr r1 \<Rightarrow> run_events json_loads other_str us fs r1)"
  by (induction ts es arbitrary: r rule: list_induct2) (simp_all split: sum.split)

text \<open>The readings of the clock, one for each event; the chunks decide nothing else.\<close>

fun stamps :: "((nat \<Rightarrow> rat) \<times> bytes) list \<Rightarrow> bytes \<Rightarrow> rat list" where
  "stamps [] buffer = []"
| "stamps ((clock, chunk) # chunks) buffer =
     map clock [0..<length (fst (split_events (buffer @ chunk)))] @ stamps chunks (snd (split_events (buffer @ chunk)))"

lemma split_left: "split_events (snd (split_events b)) = ([], snd (split_events b))"
proof (induction b rule: split_events.induct)
  case (1 b)
  show ?case
  proof (cases "cut_event b")
    case (Some er)
    then show ?thesis using 1 [OF Some] by (cases er) (simp add: split_some)
  qed (simp add: split_none)
qed

lemma feed_events:
  assumes "split_events buffer = ([], buffer)"
  shows "length (stamps chunks buffer) = length (fst (split_events (buffer @ concat (map snd chunks))))"
    and "feed json_loads other_str chunks buffer r =
      (case run_events json_loads other_str (stamps chunks buffer) (fst (split_events (buffer @ concat (map snd chunks)))) r of
         Inl x \<Rightarrow> Inl x | Inr r1 \<Rightarrow> Inr (snd (split_events (buffer @ concat (map snd chunks))), r1))"
proof -
  have "length (stamps chunks buffer) = length (fst (split_events (buffer @ concat (map snd chunks)))) \<and>
    (\<forall>r. feed json_loads other_str chunks buffer r =
      (case run_events json_loads other_str (stamps chunks buffer) (fst (split_events (buffer @ concat (map snd chunks)))) r of
         Inl x \<Rightarrow> Inl x | Inr r1 \<Rightarrow> Inr (snd (split_events (buffer @ concat (map snd chunks))), r1)))"
    using assms
  proof (induction chunks arbitrary: buffer)
    case Nil
    then show ?case by simp
  next
    case (Cons cc chunks)
    obtain clock c where cc: "cc = (clock, c)" by (cases cc)
    let ?es = "fst (split_events (buffer @ c))" and ?left = "snd (split_events (buffer @ c))"
    note IH = Cons.IH [OF split_left [of "buffer @ c"]]
    have all: "split_events (buffer @ concat (map snd ((clock, c) # chunks))) =
        (?es @ fst (split_events (?left @ concat (map snd chunks))), snd (split_events (?left @ concat (map snd chunks))))"
      using split_append [of "buffer @ c" "concat (map snd chunks)"] by simp
    have len: "length (map clock [0..<length ?es]) = length ?es" by simp
    show ?case
      unfolding cc all stamps.simps feed.simps fst_conv snd_conv drain_buffer_events run_events_append [OF len] add_0_left
      using IH by (simp split: sum.split)
  qed
  then show "length (stamps chunks buffer) = length (fst (split_events (buffer @ concat (map snd chunks))))"
    "feed json_loads other_str chunks buffer r =
      (case run_events json_loads other_str (stamps chunks buffer) (fst (split_events (buffer @ concat (map snd chunks)))) r of
         Inl x \<Rightarrow> Inl x | Inr r1 \<Rightarrow> Inr (snd (split_events (buffer @ concat (map snd chunks))), r1))"
    by simp_all
qed

section \<open>The server's stream\<close>

lemma cut_body: "10 \<notin> set b \<Longrightarrow> cut_event (b @ [10, 10] @ rest) = Some (b, rest)"
proof (induction b)
  case (Cons a b)
  then show ?case by (cases b) simp_all
qed simp

lemma split_stream: "\<forall>b \<in> set bs. 10 \<notin> set b \<Longrightarrow> split_events (concat (map (\<lambda>b. b @ [10, 10]) bs)) = (bs, [])"
proof (induction bs)
  case Nil
  then show ?case by (simp add: split_none)
next
  case (Cons b bs)
  have "concat (map (\<lambda>b. b @ [10, 10]) (b # bs)) = b @ [10, 10] @ concat (map (\<lambda>b. b @ [10, 10]) bs)" by simp
  then show ?case using split_some [OF cut_body [of b "concat (map (\<lambda>b. b @ [10, 10]) bs)"]] Cons by simp
qed

text \<open>What \<open>json.dumps\<close> and \<open>json.loads\<close> guarantee of the payloads that are sent: the text of an object is one
  line in braces, and it is read back, after a space too.\<close>

definition codec_ok :: "(payload \<Rightarrow> bytes) \<Rightarrow> (bytes \<Rightarrow> payload option) \<Rightarrow> payload list \<Rightarrow> bool" where
  "codec_ok dumps json_loads ps \<longleftrightarrow>
     (\<forall>p \<in> set ps. json_loads (32 # dumps p) = Some p \<and> 10 \<notin> set (dumps p) \<and> dumps p \<noteq> [] \<and> hd (dumps p) = 123 \<and> last (dumps p) = 125)"

primrec payloads :: "reply_head \<Rightarrow> sse_event list \<Rightarrow> payload list" where
  "payloads h [] = []"
| "payloads h (e # es) = (case sse_payload h e of None \<Rightarrow> [] | Some p \<Rightarrow> [p]) @ payloads h es"

lemma payloads_append [simp]: "payloads h (es @ fs) = payloads h es @ payloads h fs"
  by (induction es) simp_all

lemma dropWhile_hd: "b \<noteq> [] \<Longrightarrow> \<not> P (hd b) \<Longrightarrow> dropWhile P b = b"
  by (cases b) simp_all

lemma strip_fixed: "b \<noteq> [] \<Longrightarrow> \<not> is_space (hd b) \<Longrightarrow> \<not> is_space (last b) \<Longrightarrow> strip b = b"
  using dropWhile_hd [of b is_space] dropWhile_hd [of "rev b" is_space] by (simp add: strip_def hd_rev)

lemma ascii_consts: "ascii ''data: '' = [100, 97, 116, 97, 58, 32]" "ascii ''data:'' = [100, 97, 116, 97, 58]"
    "ascii ''[DONE]'' = [91, 68, 79, 78, 69, 93]"
  by (simp_all add: ascii_def)

lemma body_ok:
  assumes "codec_ok dumps json_loads (payloads h [e])"
  shows "10 \<notin> set (sse_body dumps h e)"
    and "on_event json_loads other_str now (sse_body dumps h e) r =
      (case sse_payload h e of None \<Rightarrow> Inr r | Some p \<Rightarrow> on_message other_str now p r)"
proof -
  have "10 \<notin> set (sse_body dumps h e) \<and> on_event json_loads other_str now (sse_body dumps h e) r =
      (case sse_payload h e of None \<Rightarrow> Inr r | Some p \<Rightarrow> on_message other_str now p r)"
  proof (cases "sse_payload h e")
    case None
    have "strip (sse_body dumps h e) = sse_body dumps h e"
      by (rule strip_fixed) (simp_all add: None sse_body_def ascii_consts is_space_def)
    then show ?thesis
      by (simp add: on_event_def Let_def None) (simp add: sse_body_def None ascii_consts strip_def is_space_def)
  next
    case (Some p)
    have p: "json_loads (32 # dumps p) = Some p" "10 \<notin> set (dumps p)" "dumps p \<noteq> []" "hd (dumps p) = 123" "last (dumps p) = 125"
      using assms by (simp_all add: codec_ok_def Some)
    have b: "sse_body dumps h e = [100, 97, 116, 97, 58, 32] @ dumps p" by (simp add: sse_body_def Some ascii_consts)
    have "strip (sse_body dumps h e) = sse_body dumps h e"
      unfolding b by (rule strip_fixed) (use p in \<open>simp_all add: is_space_def\<close>)
    moreover have "strip (32 # dumps p) = dumps p"
    proof -
      have "strip (32 # dumps p) = strip (dumps p)" by (simp add: strip_def is_space_def)
      also have "\<dots> = dumps p" by (rule strip_fixed) (use p in \<open>simp_all add: is_space_def\<close>)
      finally show ?thesis .
    qed
    moreover have "dumps p \<noteq> [91, 68, 79, 78, 69, 93]" using p(4) by auto
    ultimately show ?thesis using p(1,2) Some by (simp add: on_event_def Let_def b ascii_consts)
  qed
  then show "10 \<notin> set (sse_body dumps h e)" "on_event json_loads other_str now (sse_body dumps h e) r =
      (case sse_payload h e of None \<Rightarrow> Inr r | Some p \<Rightarrow> on_message other_str now p r)"
    by simp_all
qed

section \<open>The record\<close>

text \<open>What one event of the server does to the record.\<close>

fun note_event :: "rat \<Rightarrow> sse_event \<Rightarrow> client_record \<Rightarrow> client_record" where
  "note_event now (ChunkEvent txt reason) r = r\<lparr>token_times := token_times r @ [now]\<rparr>"
| "note_event now (ErrorEvent message) r = r\<lparr>error_text := code_points message\<rparr>"
| "note_event now (UsageEvent n k m) r = r\<lparr>output_tokens := PInt k\<rparr>"
| "note_event now DoneEvent r = r"

fun note_events :: "rat list \<Rightarrow> sse_event list \<Rightarrow> client_record \<Rightarrow> client_record" where
  "note_events (t # ts) (e # es) r = note_events ts es (note_event t e r)"
| "note_events _ _ r = r"

lemma message_noted: "(case sse_payload h e of None \<Rightarrow> Inr r | Some p \<Rightarrow> on_message other_str now p r) = Inr (note_event now e r)"
  by (cases e) (simp_all add: on_message_def head_fields_def p_get_def)

lemma run_stream:
  assumes "length ts = length es" and "codec_ok dumps json_loads (payloads h es)"
  shows "run_events json_loads other_str ts (map (sse_body dumps h) es) r = Inr (note_events ts es r)"
  using assms
proof (induction ts es arbitrary: r rule: list_induct2)
  case (Cons t ts e es)
  have e: "codec_ok dumps json_loads (payloads h [e])" and es: "codec_ok dumps json_loads (payloads h es)"
    using Cons.prems by (simp_all add: codec_ok_def)
  show ?case using Cons.IH [OF es] body_ok(2) [OF e] by (simp add: message_noted)
qed simp

lemma note_append: "length ts = length es \<Longrightarrow> note_events (ts @ us) (es @ fs) r = note_events us fs (note_events ts es r)"
  by (induction ts es arbitrary: r rule: list_induct2) simp_all

lemma note_chunks:
  assumes "length ts = length outs"
  shows "note_events ts (map (\<lambda>out. ChunkEvent (out_text out) (out_finish_reason out)) outs) r = r\<lparr>token_times := token_times r @ ts\<rparr>"
  using assms by (induction ts outs arbitrary: r rule: list_induct2) simp_all

lemma body_lines: "codec_ok dumps json_loads (payloads h es) \<Longrightarrow> \<forall>b \<in> set (map (sse_body dumps h) es). 10 \<notin> set b"
proof (induction es)
  case (Cons e es)
  have "codec_ok dumps json_loads (payloads h [e])" "codec_ok dumps json_loads (payloads h es)" using Cons.prems by (simp_all add: codec_ok_def)
  then show ?case using Cons.IH body_ok(1) by simp
qed simp

text \<open>The whole request, for a body that is a stream of events in any chunks.\<close>

lemma stream_recorded:
  assumes "codec_ok dumps json_loads (payloads h es)" and "concat (map snd chunks) = sse_bytes dumps h es"
  shows "\<exists>ts. length ts = length es \<and> (\<forall>r. feed json_loads other_str chunks [] r = Inr ([], note_events ts es r))"
proof -
  have bytes: "sse_bytes dumps h es = concat (map (\<lambda>b. b @ [10, 10]) (map (sse_body dumps h) es))" by (simp add: sse_bytes_def comp_def)
  have split: "split_events ([] @ concat (map snd chunks)) = (map (sse_body dumps h) es, [])"
    unfolding append_Nil assms(2) bytes by (rule split_stream [OF body_lines [OF assms(1)]])
  have empty: "split_events [] = ([], [])" by (simp add: split_none)
  let ?ts = "stamps chunks []"
  have len: "length ?ts = length es" using feed_events(1) [OF empty, of chunks] unfolding split by simp
  then show ?thesis
    using feed_events(2) [OF empty, of json_loads other_str chunks] run_stream [OF len assms(1)] unfolding split by (intro exI [of _ ?ts]) simp
qed

definition good_outputs :: "request_output list \<Rightarrow> request_output list" where
  "good_outputs outs = takeWhile (\<lambda>out. out_error out = None) outs"

definition first_error :: "request_output list \<Rightarrow> string option" where
  "first_error outs = (case dropWhile (\<lambda>out. out_error out = None) outs of [] \<Rightarrow> None | bad # _ \<Rightarrow> out_error bad)"

lemma stream_loop_events:
  "stream_loop k outs = (map (\<lambda>out. ChunkEvent (out_text out) (out_finish_reason out)) (good_outputs outs) @
     (case first_error outs of None \<Rightarrow> [] | Some message \<Rightarrow> [ErrorEvent message]),
     if good_outputs outs = [] then k else out_num_output_tokens (last (good_outputs outs)))"
  by (induction outs arbitrary: k) (auto simp: good_outputs_def first_error_def split: option.split)

text \<open>C18: the benchmark measures what the server did. However the network cuts the streamed response
  into chunks, the client's record has one token time for every chunk the server sent before an error, the
  message of the error if there was one, and the token count of the server's usage; the request counts as
  a success exactly if tokens arrived and no error was reported.\<close>

theorem client_measures_server:
  assumes "codec_ok dumps json_loads (payloads h (stream_events True q outs))"
    and "concat (map snd chunks) = sse_bytes dumps h (stream_events True q outs)"
  shows "let r = send_request json_loads other_str repr_exc sent now 200 http_error chunks None; good = good_outputs outs;
           k = (if good = [] then 0 else out_num_output_tokens (last good)) in
     length (token_times r) = length good \<and>
     error_text r = (case first_error outs of None \<Rightarrow> [] | Some message \<Rightarrow> code_points message) \<and>
     (succeeded r \<longleftrightarrow> good \<noteq> [] \<and> (first_error outs = None \<or> first_error outs = Some [])) \<and>
     output_tokens r = PInt (if succeeded r \<and> k = 0 then int (length good) else k)"
proof -
  let ?good = "good_outputs outs" and ?k = "if good_outputs outs = [] then 0 else out_num_output_tokens (last (good_outputs outs))"
  let ?err = "case first_error outs of None \<Rightarrow> [] | Some message \<Rightarrow> [ErrorEvent message]"
  have es: "stream_events True q outs =
      map (\<lambda>out. ChunkEvent (out_text out) (out_finish_reason out)) ?good @ ?err @ [UsageEvent (num_prompt_tokens q) ?k (num_prompt_tokens q + ?k), DoneEvent]"
    by (simp add: stream_events_def stream_loop_events)
  obtain ts where ts: "length ts = length (stream_events True q outs)"
    and feed: "\<And>r. feed json_loads other_str chunks [] r = Inr ([], note_events ts (stream_events True q outs) r)"
    using stream_recorded [OF assms, of other_str] by blast
  define us vs where "us = take (length ?good) ts" and "vs = drop (length ?good) ts"
  have us: "length us = length ?good" "ts = us @ vs" "length vs = length ?err + 2" using ts by (simp_all add: us_def vs_def es)
  have us': "length us = length (map (\<lambda>out. ChunkEvent (out_text out) (out_finish_reason out)) ?good)" using us(1) by simp
  have rec: "note_events ts (stream_events True q outs) r =
      r\<lparr>token_times := token_times r @ us, error_text := (case first_error outs of None \<Rightarrow> error_text r | Some message \<Rightarrow> code_points message),
        output_tokens := PInt ?k\<rparr>" for r
  proof (cases "first_error outs")
    case None
    then obtain a b where "vs = [a, b]" using us(3) by (auto simp: length_Suc_conv numeral_2_eq_2)
    then show ?thesis unfolding es us(2) note_append [OF us'] note_chunks [OF us(1)] by (simp add: None)
  next
    case (Some m)
    then obtain a b c where "vs = [a, b, c]" using us(3) by (auto simp: length_Suc_conv numeral_3_eq_3)
    then show ?thesis unfolding es us(2) note_append [OF us'] note_chunks [OF us(1)] by (simp add: Some)
  qed
  have nil: "us = [] \<longleftrightarrow> ?good = []" using us(1) by auto
  show ?thesis
    using us(1) nil
    by (cases "first_error outs") (auto simp: send_request_def feed rec Let_def code_points_def)
qed

text \<open>Two tokens, encoded by position in the list of the payloads sent, and cut within the first event.\<close>

definition ex_outs :: "request_output list" where
  "ex_outs = map (\<lambda>(t, fin). \<lparr>out_seq_id = 0, out_token_ids = [int t], out_text = [t], finished = fin,
     out_finish_reason = (if fin then Some ''length'' else None), out_num_prompt_tokens = 3, out_num_output_tokens = int t, out_error = None\<rparr>)
     [(1, False), (2, True)]"

definition ex_head :: reply_head where
  "ex_head = \<lparr>rh_id = ''cmpl-0'', rh_created = 0, rh_model = ''m''\<rparr>"

definition ex_payloads :: "payload list" where
  "ex_payloads = payloads ex_head (stream_events True ex_seq ex_outs)"

definition ex_dumps :: "payload \<Rightarrow> bytes" where
  "ex_dumps p = 123 # replicate (length (takeWhile (\<lambda>x. x \<noteq> p) ex_payloads)) 49 @ [125]"

definition ex_loads :: "bytes \<Rightarrow> payload option" where
  "ex_loads b = List.find (\<lambda>p. 32 # ex_dumps p = b) ex_payloads"

definition ex_chunks :: "((nat \<Rightarrow> rat) \<times> bytes) list" where
  "ex_chunks = (let b = sse_bytes ex_dumps ex_head (stream_events True ex_seq ex_outs) in [(\<lambda>_. 1, take 9 b), (\<lambda>_. 2, drop 9 b)])"

lemma ex_codec_ok: "codec_ok ex_dumps ex_loads (payloads ex_head (stream_events True ex_seq ex_outs))"
  by code_simp

lemma ex_chunks_ok: "concat (map snd ex_chunks) = sse_bytes ex_dumps ex_head (stream_events True ex_seq ex_outs)"
  by (simp add: ex_chunks_def Let_def)

lemma ex_good: "length (good_outputs ex_outs) = 2 \<and> first_error ex_outs = None \<and> out_num_output_tokens (last (good_outputs ex_outs)) = 2"
  by code_simp

theorem client_measures_server_witness:
  "let r = send_request ex_loads (\<lambda>_. []) (\<lambda>_. []) 0 3 200 [] ex_chunks None in
     length (token_times r) = 2 \<and> error_text r = [] \<and> succeeded r \<and> output_tokens r = PInt 2"
proof -
  have "good_outputs ex_outs \<noteq> []" using ex_good by auto
  then show ?thesis
    using client_measures_server [OF ex_codec_ok ex_chunks_ok, of "\<lambda>_. []" "\<lambda>_. []" 0 3 "[]"] ex_good by (auto simp: Let_def)
qed

end
