(* ===== verification/Workload.thy ===== *)
theory Workload
  imports Prelude "HOL-Library.Product_Lexorder"
begin

text \<open>
  \<open>bench/workload.py\<close>: the requests of a benchmark run and their arrival times. numpy's generator is a
  parameter: functions that draw from a state of any type. Times are rationals; an infinite rate is \<open>None\<close>.
\<close>

section \<open>Requests and random numbers\<close>

record bench_request =
  w_prompt :: "int list"
  w_output_len :: int
  w_arrival :: "rat option"
  w_group :: string

text \<open>
  \<open>integers lo hi n\<close> draws \<open>n\<close> numbers from \<open>[lo, hi)\<close>, \<open>exponential scale n\<close> gaps of a Poisson process,
  \<open>lognormal_draw mu sigma n\<close> lengths. What numpy refuses is refused where the functions below call it.
\<close>

record 'g numpy_rng =
  default_rng :: "int \<Rightarrow> 'g"
  integers :: "int \<Rightarrow> int \<Rightarrow> nat \<Rightarrow> 'g \<Rightarrow> int list \<times> 'g"
  exponential :: "rat \<Rightarrow> nat \<Rightarrow> 'g \<Rightarrow> rat list \<times> 'g"
  permutation :: "nat \<Rightarrow> 'g \<Rightarrow> nat list \<times> 'g"
  lognormal_draw :: "rat \<Rightarrow> rat \<Rightarrow> nat \<Rightarrow> 'g \<Rightarrow> rat list \<times> 'g"

definition first_special_token :: int where
  "first_special_token = 151643"

definition random_prompt :: "'g numpy_rng \<Rightarrow> nat \<Rightarrow> 'g \<Rightarrow> int list \<times> 'g" where
  "random_prompt R n g = integers R 0 first_special_token n g"

text \<open>Running sums, and \<open>np.rint\<close>: to the nearest integer, to the even one of two.\<close>

fun cumsum_from :: "rat \<Rightarrow> rat list \<Rightarrow> rat list" where
  "cumsum_from t [] = []"
| "cumsum_from t (x # xs) = (t + x) # cumsum_from (t + x) xs"

definition rint :: "rat \<Rightarrow> int" where
  "rint x = (let n = \<lfloor>x + 1 / 2\<rfloor> in if of_int n = x + 1 / 2 \<and> odd n then n - 1 else n)"

definition clip :: "int \<Rightarrow> int \<Rightarrow> int \<Rightarrow> int" where
  "clip lo hi n = min (max n lo) hi"

definition poisson_arrivals :: "'g numpy_rng \<Rightarrow> nat \<Rightarrow> rat option \<Rightarrow> int \<Rightarrow> rat list result" where
  "poisson_arrivals R n rate seed =
     (case rate of
        None \<Rightarrow> Inr (replicate n 0)
      | Some x \<Rightarrow>
          if x = 0 then Inl ZeroDivisionError
          else if x < 0 then Inl (ValueError ''scale < 0'')
          else rbind (list_set (fst (exponential R (1 / x) n (default_rng R seed))) 0 0) (\<lambda>gaps. Inr (cumsum_from 0 gaps)))"

section \<open>A trace\<close>

text \<open>
  A conversation is the list of its turns' texts, empty when the entry has none; \<open>tok\<close> is the tokenizer. The
  loop ends when the list has exactly \<open>n\<close> requests.
\<close>

fun pick_requests ::
  "('t \<Rightarrow> int list) \<Rightarrow> int \<Rightarrow> int \<Rightarrow> int \<Rightarrow> 't list list \<Rightarrow> bench_request list \<Rightarrow> bench_request list" where
  "pick_requests tok n max_prompt max_total [] acc = acc"
| "pick_requests tok n max_prompt max_total (turns # rest) acc =
     (case turns of
        p # a # _ \<Rightarrow>
          let prompt = tok p; output_len = int (length (tok a)); len = int (length prompt) in
          if len < 4 \<or> output_len < 4 \<or> max_prompt < len \<or> max_total < len + output_len
          then pick_requests tok n max_prompt max_total rest acc
          else
            let acc1 = acc @ [\<lparr>w_prompt = prompt, w_output_len = output_len, w_arrival = None, w_group = []\<rparr>] in
            if int (length acc1) = n then acc1 else pick_requests tok n max_prompt max_total rest acc1
      | _ \<Rightarrow> pick_requests tok n max_prompt max_total rest acc)"

definition load_sharegpt ::
  "'g numpy_rng \<Rightarrow> ('t \<Rightarrow> int list) \<Rightarrow> 't list list \<Rightarrow> int \<Rightarrow> int \<Rightarrow> int \<Rightarrow> int \<Rightarrow> bench_request list" where
  "load_sharegpt R tok conversations n seed max_prompt max_total =
     pick_requests tok n max_prompt max_total
       (map ((!) conversations) (fst (permutation R (length conversations) (default_rng R seed)))) []"

section \<open>Drawn lengths\<close>

text \<open>One prompt after another, each of the length drawn for it; a negative length is refused.\<close>

fun draw_requests :: "'g numpy_rng \<Rightarrow> (int \<times> int) list \<Rightarrow> 'g \<Rightarrow> bench_request list result" where
  "draw_requests R [] g = Inr []"
| "draw_requests R ((i, o1) # rest) g =
     (if i < 0 then Inl (ValueError ''negative dimensions are not allowed'')
      else case random_prompt R (nat i) g of (p, g1) \<Rightarrow>
        rbind (draw_requests R rest g1) (\<lambda>rs. Inr (\<lparr>w_prompt = p, w_output_len = o1, w_arrival = None, w_group = []\<rparr> # rs)))"

definition lognormal ::
  "'g numpy_rng \<Rightarrow> nat \<Rightarrow> int \<Rightarrow> rat \<Rightarrow> rat \<Rightarrow> rat \<Rightarrow> rat \<Rightarrow> int \<Rightarrow> int \<Rightarrow> bench_request list result" where
  "lognormal R n seed in_mu in_sigma out_mu out_sigma max_prompt max_output =
     (if in_sigma < 0 \<or> out_sigma < 0 then Inl (ValueError ''sigma < 0'')
      else
        case lognormal_draw R in_mu in_sigma n (default_rng R seed) of (xs, g1) \<Rightarrow>
        case lognormal_draw R out_mu out_sigma n g1 of (ys, g2) \<Rightarrow>
          draw_requests R (zip (map (\<lambda>x. clip 4 max_prompt (rint x)) xs) (map (\<lambda>y. clip 4 max_output (rint y)) ys)) g2)"

section \<open>Structured workloads\<close>

text \<open>\<open>integers(lo, hi)\<close> for one number is the head of a draw of one; an empty range is refused.\<close>

primrec draw_prefixes :: "'g numpy_rng \<Rightarrow> nat \<Rightarrow> nat \<Rightarrow> 'g \<Rightarrow> int list list \<times> 'g" where
  "draw_prefixes R len 0 g = ([], g)"
| "draw_prefixes R len (Suc k) g =
     (case random_prompt R len g of (p, g1) \<Rightarrow> case draw_prefixes R len k g1 of (ps, g2) \<Rightarrow> (p # ps, g2))"

primrec shared_loop ::
  "'g numpy_rng \<Rightarrow> int list list \<Rightarrow> int \<Rightarrow> int \<Rightarrow> int \<Rightarrow> nat \<Rightarrow> nat \<Rightarrow> 'g \<Rightarrow> bench_request list result" where
  "shared_loop R prefixes lo hi output_len i 0 g = Inr []"
| "shared_loop R prefixes lo hi output_len i (Suc k) g =
     (if prefixes = [] then Inl ZeroDivisionError
      else if hi + 1 \<le> lo then Inl (ValueError ''low >= high'')
      else
        let p = i mod length prefixes in
        case integers R lo (hi + 1) 1 g of (ns, g1) \<Rightarrow>
        if hd ns < 0 then Inl (ValueError ''negative dimensions are not allowed'')
        else case random_prompt R (nat (hd ns)) g1 of (suffix, g2) \<Rightarrow>
          rbind (shared_loop R prefixes lo hi output_len (Suc i) k g2) (\<lambda>rest.
            Inr (\<lparr>w_prompt = prefixes ! p @ suffix, w_output_len = output_len, w_arrival = None, w_group = ''prefix'' @ show_nat p\<rparr> # rest)))"

definition shared_prefix ::
  "'g numpy_rng \<Rightarrow> nat \<Rightarrow> int \<Rightarrow> nat \<Rightarrow> int \<times> int \<Rightarrow> int \<Rightarrow> nat \<Rightarrow> bench_request list result" where
  "shared_prefix R n seed prefix_len suffix_range output_len num_prefixes =
     (case draw_prefixes R prefix_len num_prefixes (default_rng R seed) of (prefixes, g) \<Rightarrow>
        shared_loop R prefixes (fst suffix_range) (snd suffix_range) output_len 0 n g)"

text \<open>The loops of \<open>long_prompt_mix\<close> go on while the time is below the duration: they may not end.\<close>

definition mixed_request :: "int list \<Rightarrow> int \<Rightarrow> rat \<Rightarrow> string \<Rightarrow> bench_request" where
  "mixed_request p out t grp = \<lparr>w_prompt = p, w_output_len = out, w_arrival = Some t, w_group = grp\<rparr>"

partial_function (option) short_loop ::
  "'g numpy_rng \<Rightarrow> nat \<Rightarrow> int \<Rightarrow> rat \<Rightarrow> rat \<Rightarrow> 'g \<Rightarrow> rat \<Rightarrow> bench_request list \<Rightarrow> (bench_request list \<times> 'g) result option" where
  "short_loop R short_in short_out short_rate duration g t acc =
     (if t < duration then
        (if short_rate = 0 then Some (Inl ZeroDivisionError)
         else if short_rate < 0 then Some (Inl (ValueError ''scale < 0''))
         else case random_prompt R short_in g of (p, g1) \<Rightarrow>
           case exponential R (1 / short_rate) 1 g1 of (gaps, g2) \<Rightarrow>
             short_loop R short_in short_out short_rate duration g2 (t + hd gaps) (acc @ [mixed_request p short_out t ''short'']))
      else Some (Inr (acc, g)))"

partial_function (option) long_loop ::
  "'g numpy_rng \<Rightarrow> nat \<Rightarrow> int \<Rightarrow> rat \<Rightarrow> rat \<Rightarrow> 'g \<Rightarrow> rat \<Rightarrow> bench_request list \<Rightarrow> bench_request list option" where
  "long_loop R long_in long_out long_every duration g t acc =
     (if t < duration then
        (case random_prompt R long_in g of (p, g1) \<Rightarrow>
           long_loop R long_in long_out long_every duration g1 (t + long_every) (acc @ [mixed_request p long_out t ''long'']))
      else Some acc)"

definition long_prompt_mix ::
  "'g numpy_rng \<Rightarrow> rat \<Rightarrow> int \<Rightarrow> rat \<Rightarrow> nat \<Rightarrow> int \<Rightarrow> rat \<Rightarrow> nat \<Rightarrow> int \<Rightarrow> bench_request list result option" where
  "long_prompt_mix R duration seed short_rate short_in short_out long_every long_in long_out =
     Option.bind (short_loop R short_in short_out short_rate duration (default_rng R seed) 0 []) (\<lambda>shorts.
       case shorts of
         Inl e \<Rightarrow> Some (Inl e)
       | Inr (ss, g) \<Rightarrow>
           Option.bind (long_loop R long_in long_out long_every duration g long_every ss) (\<lambda>requests.
             Some (Inr (sort_key (\<lambda>r. the (w_arrival r)) requests))))"

section \<open>The requests of one run\<close>

text \<open>\<open>_requests_for\<close> of \<open>bench/run_bench.py\<close>. An \<open>int | None\<close> that is zero counts as absent.\<close>

definition requests_for :: "bench_request list \<Rightarrow> rat option \<Rightarrow> rat option \<Rightarrow> int option \<Rightarrow> bench_request list" where
  "requests_for workload rate duration num_requests =
     (if list_all (\<lambda>r. w_arrival r \<noteq> None) workload then
        (case duration of None \<Rightarrow> workload | Some d \<Rightarrow> filter (\<lambda>r. the (w_arrival r) < d) workload)
      else
        let n = (case num_requests of Some k \<Rightarrow> if k \<noteq> 0 then k else int (length workload) | None \<Rightarrow> int (length workload));
            n1 = (case (duration, rate) of (Some d, Some x) \<Rightarrow> min (int (length workload)) (max 1 \<lceil>x * d\<rceil>) | _ \<Rightarrow> n)
        in py_prefix workload n1)"

text \<open>The arrival times \<open>run_rate\<close> replays.\<close>

definition run_arrivals :: "'g numpy_rng \<Rightarrow> bench_request list \<Rightarrow> rat option \<Rightarrow> int \<Rightarrow> rat list result" where
  "run_arrivals R requests rate seed =
     (if list_all (\<lambda>r. w_arrival r \<noteq> None) requests then Inr (map (\<lambda>r. the (w_arrival r)) requests)
      else poisson_arrivals R (length requests) rate seed)"

end
