(* ===== verification/Workload_Props.thy ===== *)
theory Workload_Props
  imports Workload
begin

text \<open>
  The workloads are what they are described to be: arrival times in order and within the duration, requests
  within the filter's bounds, and loops that end when the drawn gaps add up.
\<close>

section \<open>Arrival times\<close>

lemma cumsum_sorted: "\<forall>x \<in> set xs. 0 \<le> x \<Longrightarrow> sorted (cumsum_from t xs) \<and> (\<forall>y \<in> set (cumsum_from t xs). t \<le> y)"
proof (induction xs arbitrary: t)
  case (Cons x xs)
  then have IH: "sorted (cumsum_from (t + x) xs)" "\<forall>y \<in> set (cumsum_from (t + x) xs). t + x \<le> y" and "0 \<le> x" by simp_all
  then show ?case by fastforce
qed simp

lemma cumsum_length [simp]: "length (cumsum_from t xs) = length xs"
  by (induction xs arbitrary: t) simp_all

section \<open>The mix of short and long prompts\<close>

text \<open>The gaps the generator draws, each after a prompt of the given length.\<close>

primrec gaps :: "'g numpy_rng \<Rightarrow> nat \<Rightarrow> rat \<Rightarrow> 'g \<Rightarrow> nat \<Rightarrow> rat list" where
  "gaps R short_in short_rate g 0 = []"
| "gaps R short_in short_rate g (Suc n) =
     (let g1 = snd (random_prompt R short_in g); (xs, g2) = exponential R (1 / short_rate) 1 g1 in hd xs # gaps R short_in short_rate g2 n)"

definition mixed :: "bench_request \<Rightarrow> rat \<Rightarrow> string \<Rightarrow> bool" where
  "mixed r t grp \<longleftrightarrow> w_arrival r = Some t \<and> w_group r = grp"

lemma short_loop_ends:
  assumes "0 < short_rate" and "duration \<le> t + sum_list (gaps R short_in short_rate g n)" and "\<forall>x \<in> set (gaps R short_in short_rate g n). 0 \<le> x"
  shows "\<exists>rs g'. short_loop R short_in short_out short_rate duration g t acc = Some (Inr (acc @ rs, g')) \<and>
     (\<forall>r \<in> set rs. \<exists>u. mixed r u ''short'' \<and> t \<le> u \<and> u < duration) \<and> length rs \<le> n \<and> (t < duration \<longrightarrow> rs \<noteq> [] \<and> mixed (hd rs) t ''short'')"
  using assms(2,3)
proof (induction n arbitrary: g t acc)
  case 0
  then have "short_loop R short_in short_out short_rate duration g t acc = Some (Inr (acc, g))" by (subst short_loop.simps) simp
  then show ?case using 0 by (intro exI [of _ "[]"] exI [of _ g]) simp
next
  case (Suc n)
  show ?case
  proof (cases "t < duration")
    case False
    then have "short_loop R short_in short_out short_rate duration g t acc = Some (Inr (acc, g))" by (subst short_loop.simps) simp
    then show ?thesis using False by (intro exI [of _ "[]"] exI [of _ g]) simp
  next
    case True
    obtain p g1 where p: "random_prompt R short_in g = (p, g1)" by (cases "random_prompt R short_in g")
    obtain xs g2 where xs: "exponential R (1 / short_rate) 1 g1 = (xs, g2)" by (cases "exponential R (1 / short_rate) 1 g1")
    note xs = xs [unfolded One_nat_def]
    have G: "gaps R short_in short_rate g (Suc n) = hd xs # gaps R short_in short_rate g2 n" by (simp add: p xs)
    let ?r = "mixed_request p short_out t ''short''"
    have step: "short_loop R short_in short_out short_rate duration g t acc
        = short_loop R short_in short_out short_rate duration g2 (t + hd xs) (acc @ [?r])"
      using True assms(1) by (subst short_loop.simps) (simp add: p xs order_less_imp_not_eq2 order_less_imp_not_less)
    have x: "0 \<le> hd xs" "\<forall>x \<in> set (gaps R short_in short_rate g2 n). 0 \<le> x" using Suc.prems(2) unfolding G by simp_all
    have "duration \<le> (t + hd xs) + sum_list (gaps R short_in short_rate g2 n)" using Suc.prems(1) unfolding G by simp
    from Suc.IH [OF this x(2), of "acc @ [?r]"] obtain rs g' where IH:
      "short_loop R short_in short_out short_rate duration g2 (t + hd xs) (acc @ [?r]) = Some (Inr ((acc @ [?r]) @ rs, g'))"
      "\<forall>r \<in> set rs. \<exists>u. mixed r u ''short'' \<and> t + hd xs \<le> u \<and> u < duration" "length rs \<le> n" by blast
    have m: "mixed ?r t ''short''" by (simp add: mixed_def mixed_request_def)
    have "\<forall>r \<in> set (?r # rs). \<exists>u. mixed r u ''short'' \<and> t \<le> u \<and> u < duration"
    proof
      fix r
      assume r: "r \<in> set (?r # rs)"
      show "\<exists>u. mixed r u ''short'' \<and> t \<le> u \<and> u < duration"
      proof (cases "r \<in> set rs")
        case True
        then obtain u where "mixed r u ''short''" "t + hd xs \<le> u" "u < duration" using IH(2) by blast
        then show ?thesis using x(1) by (intro exI [of _ u]) simp
      next
        case False
        then show ?thesis using r m True by (intro exI [of _ t]) simp
      qed
    qed
    then show ?thesis unfolding step IH(1) using IH(3) m by (intro exI [of _ "?r # rs"] exI [of _ g']) simp
  qed
qed

lemma long_loop_ends:
  assumes "0 < long_every" and "duration \<le> t + of_nat n * long_every"
  shows "\<exists>rs m. long_loop R long_in long_out long_every duration g t acc = Some (acc @ rs) \<and> length rs = m \<and>
     (\<forall>i < m. mixed (rs ! i) (t + of_nat i * long_every) ''long'' \<and> t + of_nat i * long_every < duration) \<and> duration \<le> t + of_nat m * long_every"
  using assms(2)
proof (induction n arbitrary: g t acc)
  case 0
  then have "long_loop R long_in long_out long_every duration g t acc = Some acc" by (subst long_loop.simps) simp
  then show ?case using 0 by (intro exI [of _ "[]"] exI [of _ 0]) simp
next
  case (Suc n)
  show ?case
  proof (cases "t < duration")
    case False
    then have "long_loop R long_in long_out long_every duration g t acc = Some acc" by (subst long_loop.simps) simp
    then show ?thesis using False by (intro exI [of _ "[]"] exI [of _ 0]) simp
  next
    case True
    obtain p g1 where p: "random_prompt R long_in g = (p, g1)" by (cases "random_prompt R long_in g")
    let ?r = "mixed_request p long_out t ''long''"
    have step: "long_loop R long_in long_out long_every duration g t acc
        = long_loop R long_in long_out long_every duration g1 (t + long_every) (acc @ [?r])"
      using True by (subst long_loop.simps) (simp add: p)
    have "duration \<le> (t + long_every) + of_nat n * long_every" using Suc.prems by (simp add: algebra_simps)
    from Suc.IH [OF this, of g1 "acc @ [?r]"] obtain rs m where IH:
      "long_loop R long_in long_out long_every duration g1 (t + long_every) (acc @ [?r]) = Some ((acc @ [?r]) @ rs)" "length rs = m"
      "\<forall>i < m. mixed (rs ! i) ((t + long_every) + of_nat i * long_every) ''long'' \<and> (t + long_every) + of_nat i * long_every < duration"
      "duration \<le> (t + long_every) + of_nat m * long_every" by blast
    have m: "mixed ?r t ''long''" by (simp add: mixed_def mixed_request_def)
    have shift: "t + of_nat (Suc i) * long_every = (t + long_every) + of_nat i * long_every" for i by (simp add: algebra_simps)
    have "\<forall>i < Suc m. mixed ((?r # rs) ! i) (t + of_nat i * long_every) ''long'' \<and> t + of_nat i * long_every < duration"
      using IH(3) m True unfolding All_less_Suc2 shift by simp
    then show ?thesis unfolding step IH(1) using IH(2,4) shift by (intro exI [of _ "?r # rs"] exI [of _ "Suc m"]) simp
  qed
qed

text \<open>C37: the mix of short and long prompts is what its docstring says, and is generated in finite time: when
  the drawn gaps are not negative and add up to the duration, the function returns requests ordered by
  arrival within the duration; the long ones arrive at the multiples of \<open>long_every\<close>, every one below
  the duration, and the first short one at the start.\<close>

theorem long_mix_ends:
  assumes "0 < short_rate" and "0 < long_every" and "0 < duration" and "duration \<le> sum_list (gaps R short_in short_rate (default_rng R seed) n)"
    and "\<forall>x \<in> set (gaps R short_in short_rate (default_rng R seed) n). 0 \<le> x"
  shows "\<exists>rs m. long_prompt_mix R duration seed short_rate short_in short_out long_every long_in long_out = Some (Inr rs) \<and>
     sorted (map (\<lambda>r. the (w_arrival r)) rs) \<and>
     (\<forall>r \<in> set rs. \<exists>t. (mixed r t ''short'' \<or> mixed r t ''long'') \<and> 0 \<le> t \<and> t < duration) \<and>
     map (\<lambda>r. the (w_arrival r)) (filter (\<lambda>r. w_group r = ''long'') rs) = map (\<lambda>k. of_nat (Suc k) * long_every) [0..<m] \<and>
     duration \<le> of_nat (Suc m) * long_every \<and> length (filter (\<lambda>r. w_group r = ''short'') rs) \<le> n \<and>
     (\<exists>r \<in> set rs. mixed r 0 ''short'')"
proof -
  obtain ss g where S: "short_loop R short_in short_out short_rate duration (default_rng R seed) 0 [] = Some (Inr (ss, g))"
      "\<forall>r \<in> set ss. \<exists>u. mixed r u ''short'' \<and> 0 \<le> u \<and> u < duration" "length ss \<le> n" "ss \<noteq> [] \<and> mixed (hd ss) 0 ''short''"
    using short_loop_ends [OF assms(1), of duration 0 R short_in "default_rng R seed" n short_out "[]"] assms(3-5) by auto
  obtain N :: nat where N: "duration < of_nat N * long_every" using reals_Archimedean3 [OF assms(2)] ex_less_of_nat_mult [OF assms(2)] by blast
  obtain ls m where L: "long_loop R long_in long_out long_every duration g long_every ss = Some (ss @ ls)" "length ls = m"
      "\<forall>i < m. mixed (ls ! i) (long_every + of_nat i * long_every) ''long'' \<and> long_every + of_nat i * long_every < duration"
      "duration \<le> long_every + of_nat m * long_every"
    using long_loop_ends [OF assms(2), of duration long_every N R long_in long_out g ss] N assms(2) by auto
  let ?f = "\<lambda>r. the (w_arrival r)"
  let ?rs = "sort_key ?f (ss @ ls)"
  have run: "long_prompt_mix R duration seed short_rate short_in short_out long_every long_in long_out = Some (Inr ?rs)"
    by (simp add: long_prompt_mix_def S(1) L(1))
  have time: "of_nat (Suc i) * long_every = long_every + of_nat i * long_every" for i by (simp add: algebra_simps)
  have ls: "\<forall>r \<in> set ls. \<exists>t. mixed r t ''long'' \<and> 0 \<le> t \<and> t < duration"
  proof
    fix r
    assume "r \<in> set ls"
    then obtain i where "i < m" "r = ls ! i" using L(2) by (auto simp: in_set_conv_nth)
    moreover have "0 \<le> long_every + of_nat i * long_every" using assms(2) by simp
    ultimately show "\<exists>t. mixed r t ''long'' \<and> 0 \<le> t \<and> t < duration" using L(3) by blast
  qed
  have "\<forall>r \<in> set ss. w_group r = ''short''" "\<forall>r \<in> set ls. w_group r = ''long''" using S(2) ls by (auto simp: mixed_def)
  then have "filter (\<lambda>r. w_group r = ''long'') ss = []" "filter (\<lambda>r. w_group r = ''long'') ls = ls"
      "filter (\<lambda>r. w_group r = ''short'') ss = ss" "filter (\<lambda>r. w_group r = ''short'') ls = []"
    by (simp_all add: filter_id_conv filter_empty_conv)
  then have groups: "filter (\<lambda>r. w_group r = ''long'') (ss @ ls) = ls" "filter (\<lambda>r. w_group r = ''short'') (ss @ ls) = ss" by simp_all
  have arr: "map ?f ls = map (\<lambda>k. of_nat (Suc k) * long_every) [0..<m]"
    unfolding time by (rule nth_equalityI) (use L(2,3) in \<open>simp_all add: mixed_def\<close>)
  have "sorted (map ?f ls)"
    unfolding arr sorted_map by (rule sorted_wrt_mono_rel [of _ "(<)"]) (use assms(2) in \<open>simp_all add: sorted_wrt_upt\<close>)
  then have long: "filter (\<lambda>r. w_group r = ''long'') ?rs = ls" using groups(1) sort_key_id_if_sorted [of ?f ls] by (simp add: filter_sort)
  have short: "length (filter (\<lambda>r. w_group r = ''short'') ?rs) = length ss" using groups(2) by (simp add: filter_sort)
  have "\<forall>r \<in> set ?rs. \<exists>t. (mixed r t ''short'' \<or> mixed r t ''long'') \<and> 0 \<le> t \<and> t < duration" using S(2) ls by auto
  moreover have "hd ss \<in> set ?rs" using S(4) by simp
  ultimately show ?thesis
    using run long short S(3,4) arr L(4) time by (intro exI [of _ ?rs] exI [of _ m]) auto
qed

text \<open>A generator whose numbers are always the least and whose gaps are always their mean.\<close>

definition ex_rng :: "nat numpy_rng" where
  "ex_rng = \<lparr>default_rng = nat, integers = (\<lambda>lo hi n g. (replicate n lo, Suc g)), exponential = (\<lambda>scale n g. (replicate n scale, Suc g)),
     permutation = (\<lambda>n g. ([0..<n], Suc g)), lognormal_draw = (\<lambda>mu sigma n g. (replicate n mu, Suc g))\<rparr>"

theorem long_mix_ends_witness:
  "\<exists>rs m. long_prompt_mix ex_rng 3 0 1 4 8 2 16 1 = Some (Inr rs) \<and> sorted (map (\<lambda>r. the (w_arrival r)) rs) \<and>
     map (\<lambda>r. the (w_arrival r)) (filter (\<lambda>r. w_group r = ''long'') rs) = map (\<lambda>k. of_nat (Suc k) * 2) [0..<m] \<and> 3 \<le> of_nat (Suc m) * (2::rat)"
proof -
  have g: "gaps ex_rng 4 1 (default_rng ex_rng 0) 3 = [1, 1, 1]"
    by (simp add: numeral_3_eq_3 ex_rng_def random_prompt_def)
  show ?thesis using long_mix_ends [of 1 2 3 ex_rng 4 0 3 8 16 1] unfolding g by fastforce
qed

section \<open>A period that is not positive\<close>

text \<open>\<open>long_prompt_mix\<close> does not return when \<open>long_every\<close> is not positive: the long prompts never reach the
  duration.\<close>

lemma long_loop_stuck:
  assumes "long_every \<le> 0" and "t < duration"
  shows "long_loop R long_in long_out long_every duration g t acc = None"
proof -
  have "long_every \<le> 0 \<longrightarrow> \<not> t < duration" if "long_loop R long_in long_out long_every duration g t acc = Some y" for y
    by (rule long_loop.raw_induct [OF _ that, where P = "\<lambda>R long_in long_out long_every duration g t acc y. long_every \<le> 0 \<longrightarrow> \<not> t < duration"])
      (fastforce split: if_splits prod.splits)
  then show ?thesis using assms by (cases "long_loop R long_in long_out long_every duration g t acc") auto
qed

section \<open>Traces and rates\<close>

text \<open>Arrivals drawn with gaps that are not negative are in order and start at zero, one for each request.\<close>

lemma poisson_sorted:
  assumes "poisson_arrivals R n rate seed = Inr ts" and "\<And>scale g. length (fst (exponential R scale n g)) = n \<and> (\<forall>x \<in> set (fst (exponential R scale n g)). 0 \<le> x)"
  shows "length ts = n \<and> sorted ts \<and> (ts \<noteq> [] \<longrightarrow> hd ts = 0)"
proof (cases rate)
  case None
  then have "ts = replicate n 0" using assms(1) by (simp add: poisson_arrivals_def)
  then show ?thesis by (cases n) simp_all
next
  case (Some x)
  let ?gs = "fst (exponential R (1 / x) n (default_rng R seed))"
  have n: "0 < n" and ts: "ts = cumsum_from 0 (?gs[0 := 0])" using assms(1,2) Some
    by (auto simp: poisson_arrivals_def list_set_def split: if_splits)
  have nonneg: "\<forall>y \<in> set (?gs[0 := 0]). 0 \<le> y" using assms(2) by (auto dest!: subsetD [OF set_update_subset_insert])
  have len: "length ?gs = n" using assms(2) by blast
  obtain y ys where ys: "?gs = y # ys" using n len by (cases ?gs) simp_all
  show ?thesis using cumsum_sorted [OF nonneg, of 0] assms(2) [of "1 / x" "default_rng R seed"] unfolding ts by (simp add: ys)
qed

text \<open>The trace's requests are the first ones that pass the filter; a limit of zero does not limit.\<close>

fun passes :: "('t \<Rightarrow> int list) \<Rightarrow> int \<Rightarrow> int \<Rightarrow> 't list \<Rightarrow> bench_request option" where
  "passes tok max_prompt max_total (p # a # turns) =
     (let len = int (length (tok p)); output_len = int (length (tok a)) in
      if 4 \<le> len \<and> 4 \<le> output_len \<and> len \<le> max_prompt \<and> len + output_len \<le> max_total
      then Some \<lparr>w_prompt = tok p, w_output_len = output_len, w_arrival = None, w_group = []\<rparr> else None)"
| "passes tok max_prompt max_total _ = None"

lemma pick_requests_step:
  "pick_requests tok n max_prompt max_total (turns # rest) acc =
     (case passes tok max_prompt max_total turns of
        None \<Rightarrow> pick_requests tok n max_prompt max_total rest acc
      | Some r \<Rightarrow> if int (length (acc @ [r])) = n then acc @ [r] else pick_requests tok n max_prompt max_total rest (acc @ [r]))"
  by (cases "(tok, max_prompt, max_total, turns)" rule: passes.cases) (auto simp: Let_def)

lemma pick_requests_first:
  "int (length acc) < n \<Longrightarrow>
     pick_requests tok n max_prompt max_total cs acc = take (nat n) (acc @ List.map_filter (passes tok max_prompt max_total) cs)"
proof (induction cs arbitrary: acc)
  case (Cons turns rest)
  show ?case
  proof (cases "passes tok max_prompt max_total turns")
    case None
    then show ?thesis using Cons by (simp only: pick_requests_step) (simp add: List.map_filter_simps)
  next
    case (Some r)
    show ?thesis
    proof (cases "int (length (acc @ [r])) = n")
      case True
      then have "nat n = length (acc @ [r])" by simp
      then show ?thesis using Some True by (simp only: pick_requests_step) (simp add: List.map_filter_simps)
    next
      case False
      then have "int (length (acc @ [r])) < n" using Cons.prems by simp
      from Cons.IH [OF this] show ?thesis using Some False by (simp only: pick_requests_step) (simp add: List.map_filter_simps)
    qed
  qed
qed (simp add: List.map_filter_simps)

lemma pick_requests_unlimited:
  "n \<le> int (length acc) \<Longrightarrow>
     pick_requests tok n max_prompt max_total cs acc = acc @ List.map_filter (passes tok max_prompt max_total) cs"
proof (induction cs arbitrary: acc)
  case (Cons turns rest)
  show ?case
  proof (cases "passes tok max_prompt max_total turns")
    case None
    then show ?thesis using Cons by (simp only: pick_requests_step) (simp add: List.map_filter_simps)
  next
    case (Some r)
    have "n \<le> int (length (acc @ [r]))" "int (length (acc @ [r])) \<noteq> n" using Cons.prems by simp_all
    then show ?thesis using Some Cons.IH [of "acc @ [r]"] by (simp only: pick_requests_step) (simp add: List.map_filter_simps)
  qed
qed (simp add: List.map_filter_simps)

text \<open>Every drawn request is within its bounds.\<close>

lemma lognormal_in_bounds:
  assumes "lognormal R n seed in_mu in_sigma out_mu out_sigma max_prompt max_output = Inr rs"
    and "4 \<le> max_prompt" and "4 \<le> max_output" and "\<And>k g. length (fst (integers R 0 first_special_token k g)) = k"
  shows "\<forall>r \<in> set rs. 4 \<le> int (length (w_prompt r)) \<and> int (length (w_prompt r)) \<le> max_prompt \<and> 4 \<le> w_output_len r \<and> w_output_len r \<le> max_output"
proof -
  have D: "draw_requests R ios g = Inr rs \<Longrightarrow>
    list_all2 (\<lambda>(i, k) r. int (length (w_prompt r)) = i \<and> w_output_len r = k) ios rs" for ios g rs
  proof (induction ios arbitrary: g rs rule: list.induct)
    case (Cons io ios)
    obtain i k where io: "io = (i, k)" by (cases io)
    obtain p g1 where p: "random_prompt R (nat i) g = (p, g1)" by (cases "random_prompt R (nat i) g")
    then have "length p = nat i" using assms(4) [of "nat i" g] by (simp add: random_prompt_def)
    then show ?case using Cons by (cases "draw_requests R ios g1") (auto simp: io p split: if_splits)
  qed simp
  obtain ios g where ios: "draw_requests R ios g = Inr rs" "\<forall>(i, k) \<in> set ios. 4 \<le> i \<and> i \<le> max_prompt \<and> 4 \<le> k \<and> k \<le> max_output"
  proof -
    obtain xs g1 where xs: "lognormal_draw R in_mu in_sigma n (default_rng R seed) = (xs, g1)" by fastforce
    obtain ys g2 where ys: "lognormal_draw R out_mu out_sigma n g1 = (ys, g2)" by fastforce
    let ?ios = "zip (map (\<lambda>x. clip 4 max_prompt (rint x)) xs) (map (\<lambda>y. clip 4 max_output (rint y)) ys)"
    have "draw_requests R ?ios g2 = Inr rs" using assms(1) by (simp add: lognormal_def xs ys split: if_splits)
    moreover have "\<forall>(i, k) \<in> set ?ios. 4 \<le> i \<and> i \<le> max_prompt \<and> 4 \<le> k \<and> k \<le> max_output"
    proof (clarify, intro conjI)
      fix i k
      assume z: "(i, k) \<in> set ?ios"
      show "4 \<le> i" "i \<le> max_prompt" using set_zip_leftD [OF z] assms(2) by (auto simp: clip_def)
      show "4 \<le> k" "k \<le> max_output" using set_zip_rightD [OF z] assms(3) by (auto simp: clip_def)
    qed
    ultimately show thesis using that by blast
  qed
  show ?thesis
  proof
    fix r
    assume "r \<in> set rs"
    then obtain j where j: "j < length rs" "r = rs ! j" by (auto simp: in_set_conv_nth)
    have len: "length ios = length rs" using D [OF ios(1)] by (rule list_all2_lengthD)
    have "(\<lambda>(i, k) r. int (length (w_prompt r)) = i \<and> w_output_len r = k) (ios ! j) r"
      using list_all2_nthD2 [OF D [OF ios(1)] j(1)] unfolding j(2) .
    moreover have "ios ! j \<in> set ios" using j(1) len by simp
    ultimately show "4 \<le> int (length (w_prompt r)) \<and> int (length (w_prompt r)) \<le> max_prompt \<and> 4 \<le> w_output_len r \<and> w_output_len r \<le> max_output"
      using ios(2) by fastforce
  qed
qed

end
