(* ===== verification/Bench_Summary.thy ===== *)
theory Bench_Summary
  imports Bench_Client_Props Workload Json Py_Float
begin

text \<open>
  What \<open>bench/run_bench.py\<close> makes of the records of a run: \<open>summarize\<close> and the rows \<open>write_results\<close> writes.
  numpy's mean and percentile are parameters. Times are rationals, a float that may be NaN is a
  \<open>pyfloat\<close>, and the statistics of the server are the dictionaries its \<open>/stats\<close> answers. The report of a run
  agrees with its records: for records the client made, with a clock that does not go back, \<open>summarize\<close>
  returns, its latencies are not negative and its percentiles are in order.
\<close>

section \<open>Numpy\<close>

record numpy_stats =
  np_mean :: "rat list \<Rightarrow> rat"
  np_percentile :: "rat list \<Rightarrow> rat \<Rightarrow> rat"

definition pct :: "numpy_stats \<Rightarrow> rat list \<Rightarrow> rat \<Rightarrow> pyfloat" where
  "pct N values q = (if values \<noteq> [] then PyFin (np_percentile N values q) else PyNaN)"

definition mean_or_nan :: "numpy_stats \<Rightarrow> rat list \<Rightarrow> pyfloat" where
  "mean_or_nan N values = (if values \<noteq> [] then PyFin (np_mean N values) else PyNaN)"

text \<open>\<open>a / b if c else nan\<close>\<close>

definition ratio_if :: "bool \<Rightarrow> rat \<Rightarrow> rat \<Rightarrow> pyfloat" where
  "ratio_if c a b = (if c then PyFin (a / b) else PyNaN)"

section \<open>A run\<close>

record bench_result =
  br_records :: "client_record list"
  br_arrivals :: "rat list"
  br_duration :: rat
  br_before :: "json_obj option"
  br_after :: "json_obj option"
  br_series :: "json_obj list"

record bench_summary =
  bs_label :: string
  bs_rate :: "rat option"
  bs_num_requests :: int
  bs_num_failed :: int
  bs_duration_s :: rat
  bs_throughput_tok_s :: pyfloat
  bs_steady_tok_s :: pyfloat
  bs_request_rate :: pyfloat
  bs_ttft_mean :: pyfloat
  bs_ttft_p50 :: pyfloat
  bs_ttft_p95 :: pyfloat
  bs_ttft_p99 :: pyfloat
  bs_itl_mean :: pyfloat
  bs_itl_p50 :: pyfloat
  bs_itl_p95 :: pyfloat
  bs_itl_p99 :: pyfloat
  bs_e2e_p50 :: pyfloat
  bs_e2e_p99 :: pyfloat
  bs_preemptions :: pyfloat
  bs_preemptions_per_s :: pyfloat
  bs_kv_usage_mean :: pyfloat
  bs_kv_usage_max :: pyfloat
  bs_peak_memory_gib :: pyfloat

section \<open>Latencies\<close>

text \<open>The first and the last token, \<open>token_times[0]\<close> and \<open>token_times[-1]\<close>, after the request was sent.\<close>

definition first_latency :: "client_record \<Rightarrow> rat result" where
  "first_latency r = rbind (list_get (token_times r) 0) (\<lambda>t. Inr (t - sent_at r))"

definition last_latency :: "client_record \<Rightarrow> rat result" where
  "last_latency r = (if token_times r = [] then Inl IndexError else Inr (last (token_times r) - sent_at r))"

definition token_gaps :: "client_record \<Rightarrow> rat list" where
  "token_gaps r = map (\<lambda>(a, b). b - a) (zip (token_times r) (tl (token_times r)))"

text \<open>What \<open>sum\<close> adds: the token counts the server reported.\<close>

fun payload_int :: "payload \<Rightarrow> int result" where
  "payload_int (PInt i) = Inr i"
| "payload_int (PBool b) = Inr (of_bool b)"
| "payload_int _ = Inl TypeError"

section \<open>The summary\<close>

definition has_stats :: "json_obj option \<Rightarrow> bool" where
  "has_stats d \<longleftrightarrow> d \<noteq> None \<and> d \<noteq> Some []"

definition count_preemptions :: "bench_result \<Rightarrow> pyfloat result" where
  "count_preemptions res =
     (if has_stats (br_before res) \<and> has_stats (br_after res)
      then rbind (item_float (the (br_after res)) ''total_preemptions'') (\<lambda>a.
           rbind (item_float (the (br_before res)) ''total_preemptions'') (\<lambda>b. Inr (PyFin (a - b))))
      else Inr PyNaN)"

definition peak_memory :: "bench_result \<Rightarrow> pyfloat result" where
  "peak_memory res =
     (if has_stats (br_after res)
      then (case map_of (the (br_after res)) ''peak_memory_bytes'' of
          None \<Rightarrow> Inr PyNaN
        | Some v \<Rightarrow> rbind (json_float v) (\<lambda>x. Inr (PyFin (x / 2 ^ 30))))
      else Inr PyNaN)"

fun over_seconds :: "pyfloat \<Rightarrow> rat \<Rightarrow> pyfloat" where
  "over_seconds (PyFin x) d = ratio_if (d \<noteq> 0) x d"
| "over_seconds _ d = PyNaN"

definition arrival_window :: "numpy_stats \<Rightarrow> bench_result \<Rightarrow> rat \<times> rat" where
  "arrival_window N res =
     (if 1 < length (br_records res) then (np_percentile N (br_arrivals res) 10, np_percentile N (br_arrivals res) 90) else (0, 0))"

text \<open>\<open>max(.., default=0.0)\<close> and \<open>min(.., default=0.0)\<close>\<close>

definition run_span :: "bench_result \<Rightarrow> rat" where
  "run_span res = (if br_records res = [] then 0 else Max (set (map ended_at (br_records res))))
     - (if br_arrivals res = [] then 0 else Min (set (br_arrivals res)))"

definition steady_tokens :: "rat \<Rightarrow> rat \<Rightarrow> client_record list \<Rightarrow> nat" where
  "steady_tokens lo hi ok = length (filter (\<lambda>t. lo \<le> t \<and> t \<le> hi) (concat (map token_times ok)))"

definition summarize :: "numpy_stats \<Rightarrow> string \<Rightarrow> rat option \<Rightarrow> bench_result \<Rightarrow> bench_summary result" where
  "summarize N label rate res =
     (let records = br_records res; ok = filter succeeded records in
      rbind (mapM first_latency ok) (\<lambda>ttft.
      let itl = concat (map token_gaps ok) in
      rbind (mapM last_latency ok) (\<lambda>e2e.
      rbind (mapM (\<lambda>r. payload_int (output_tokens r)) ok) (\<lambda>counts.
      let tokens = sum_list counts; span = run_span res; (lo, hi) = arrival_window N res;
          steady = ratio_if (lo < hi) (of_nat (steady_tokens lo hi ok)) (hi - lo) in
      rbind (count_preemptions res) (\<lambda>preemptions.
      rbind (mapM (\<lambda>s. item_float s ''kv_usage'') (br_series res)) (\<lambda>kv.
      rbind (peak_memory res) (\<lambda>peak.
        Inr \<lparr>bs_label = label, bs_rate = rate, bs_num_requests = int (length records),
          bs_num_failed = int (length records) - int (length ok), bs_duration_s = br_duration res,
          bs_throughput_tok_s = ratio_if (0 < span) (of_int tokens) span, bs_steady_tok_s = steady,
          bs_request_rate = ratio_if (0 < span) (of_nat (length ok)) span,
          bs_ttft_mean = mean_or_nan N ttft, bs_ttft_p50 = pct N ttft 50, bs_ttft_p95 = pct N ttft 95, bs_ttft_p99 = pct N ttft 99,
          bs_itl_mean = mean_or_nan N itl, bs_itl_p50 = pct N itl 50, bs_itl_p95 = pct N itl 95, bs_itl_p99 = pct N itl 99,
          bs_e2e_p50 = pct N e2e 50, bs_e2e_p99 = pct N e2e 99,
          bs_preemptions = preemptions, bs_preemptions_per_s = over_seconds preemptions (br_duration res),
          bs_kv_usage_mean = mean_or_nan N kv, bs_kv_usage_max = (if kv \<noteq> [] then PyFin (Max (set kv)) else PyNaN),
          bs_peak_memory_gib = peak\<rparr>)))))))"

section \<open>The rows of a request\<close>

text \<open>An empty cell is \<open>None\<close>. \<open>token_rows\<close> are the lines of the file \<open>--save-tokens\<close> asks for.\<close>

record request_row =
  row_idx :: nat
  row_group :: string
  row_prompt_len :: nat
  row_output_len :: int
  row_output_tokens :: payload
  row_sent :: rat
  row_ttft :: "rat option"
  row_e2e :: "rat option"
  row_tpot :: "rat option"
  row_success :: bool
  row_error :: ustr

definition request_row_of :: "nat \<Rightarrow> bench_request \<Rightarrow> client_record \<Rightarrow> request_row" where
  "request_row_of i w r =
     (let tt = token_times r in
      \<lparr>row_idx = i, row_group = w_group w, row_prompt_len = length (w_prompt w), row_output_len = w_output_len w,
       row_output_tokens = output_tokens r, row_sent = sent_at r,
       row_ttft = (if tt \<noteq> [] then Some (hd tt - sent_at r) else None),
       row_e2e = (if tt \<noteq> [] then Some (last tt - sent_at r) else None),
       row_tpot = (if 1 < length tt then Some ((last tt - hd tt) / (of_nat (length tt) - 1)) else None),
       row_success = succeeded r, row_error = error_text r\<rparr>)"

definition token_rows :: "nat \<Rightarrow> bench_request \<Rightarrow> client_record \<Rightarrow> (nat \<times> string \<times> nat \<times> rat) list" where
  "token_rows i w r = map (\<lambda>(k, t). (i, w_group w, k, t)) (enumerate 0 (token_times r))"

section \<open>The times of a record\<close>

lemma on_message_times:
  "on_message other_str now msg r = Inr r1 \<Longrightarrow>
     (token_times r1 = token_times r \<or> token_times r1 = token_times r @ [now]) \<and> sent_at r1 = sent_at r"
  by (auto simp: on_message_def split: payload.splits option.splits if_splits)

lemma on_event_times:
  "on_event json_loads other_str now e r = Inr r1 \<Longrightarrow>
     (token_times r1 = token_times r \<or> token_times r1 = token_times r @ [now]) \<and> sent_at r1 = sent_at r"
  by (auto simp: on_event_def Let_def dest: on_message_times split: if_splits option.splits)

lemma sorted_drop_middle: "sorted (xs @ zs @ ys) \<Longrightarrow> sorted (xs @ ys)"
  by (auto simp: sorted_append)

lemma run_events_times:
  assumes "sorted ((xs @ token_times r) @ ts @ ys)"
    and "run_events json_loads other_str ts es r = Inl (x, r1) \<or> run_events json_loads other_str ts es r = Inr r1"
  shows "sorted ((xs @ token_times r1) @ ys) \<and> sent_at r1 = sent_at r"
  using assms
proof (induction ts arbitrary: es r)
  case Nil
  then have "r1 = r" by (cases es) simp_all
  then show ?case using Nil by simp
next
  case (Cons t ts)
  show ?case
  proof (cases es)
    case Nil
    then have "r1 = r" using Cons.prems(2) by simp
    then show ?thesis using sorted_drop_middle [OF Cons.prems(1)] by simp
  next
    case es: (Cons e es')
    show ?thesis
    proof (cases "on_event json_loads other_str t e r")
      case (Inl y)
      then have "r1 = r" using Cons.prems(2) es by simp
      then show ?thesis using sorted_drop_middle [OF Cons.prems(1)] by simp
    next
      case (Inr r2)
      note T = on_event_times [OF Inr]
      have "sorted ((xs @ token_times r2) @ ts @ ys)"
        using T Cons.prems(1) sorted_drop_middle [of "xs @ token_times r" "[t]" "ts @ ys"] by auto
      moreover have "run_events json_loads other_str ts es' r2 = Inl (x, r1) \<or> run_events json_loads other_str ts es' r2 = Inr r1"
        using Cons.prems(2) es Inr by simp
      ultimately show ?thesis using Cons.IH T by simp
    qed
  qed
qed

text \<open>A record of the client, made with a clock that does not go back.\<close>

definition client_run :: "client_record \<Rightarrow> bool" where
  "client_run r \<longleftrightarrow> (\<exists>json_loads other_str repr_exc sent now code http_error chunks broken.
     r = send_request json_loads other_str repr_exc sent now code http_error chunks broken \<and>
     sorted (sent # stamps chunks [] @ [now]))"

lemma send_request_times:
  fixes sent now :: rat
  defines "r0 \<equiv> \<lparr>sent_at = sent, token_times = [], output_tokens = PInt 0, error_text = [], ended_at = sent, succeeded = False\<rparr>"
  assumes r_def: "r = send_request json_loads other_str repr_exc sent now code http_error chunks broken"
  shows "\<exists>r1. (r1 = r0 \<or> (\<exists>x. feed json_loads other_str chunks [] r0 = Inl (x, r1)) \<or> (\<exists>b. feed json_loads other_str chunks [] r0 = Inr (b, r1))) \<and>
     token_times r = token_times r1 \<and> sent_at r = sent_at r1 \<and> ended_at r = now \<and> (succeeded r \<longrightarrow> token_times r \<noteq> [])"
proof (cases "code = 200")
  case True
  show ?thesis
  proof (cases "feed json_loads other_str chunks [] r0")
    case (Inl a)
    then show ?thesis using True unfolding r_def send_request_def r0_def [symmetric] by (cases a) (auto simp: Let_def)
  next
    case (Inr a)
    then show ?thesis using True unfolding r_def send_request_def r0_def [symmetric] by (cases a; cases broken) (auto simp: Let_def)
  qed
next
  case False
  then show ?thesis unfolding r_def send_request_def r0_def [symmetric] by (intro exI [of _ r0]) (simp add: Let_def)
qed

lemma feed_times:
  assumes "sorted (sent # stamps chunks [] @ ys)" and "sent_at r0 = sent" "token_times r0 = []"
    and "feed json_loads other_str chunks [] r0 = Inl (x, r1) \<or> feed json_loads other_str chunks [] r0 = Inr (b, r1)"
  shows "sorted (sent # token_times r1 @ ys) \<and> sent_at r1 = sent"
proof -
  have empty: "split_events [] = ([], [])" by (simp add: split_none)
  define es where "es = fst (split_events ([] @ concat (map snd chunks)))"
  have "run_events json_loads other_str (stamps chunks []) es r0 = Inl (x, r1) \<or> run_events json_loads other_str (stamps chunks []) es r0 = Inr r1"
    using assms(4) unfolding feed_events(2) [OF empty] es_def [symmetric]
    by (cases "run_events json_loads other_str (stamps chunks []) es r0") simp_all
  from run_events_times [OF _ this, of "[sent]" ys] assms(1-3) show ?thesis by simp
qed

text \<open>All a report needs of a record.\<close>

definition timed :: "client_record \<Rightarrow> bool" where
  "timed r \<longleftrightarrow> sorted (sent_at r # token_times r @ [ended_at r]) \<and> (succeeded r \<longrightarrow> token_times r \<noteq> [])"

lemma client_run_timed:
  assumes "client_run r"
  shows "timed r"
proof -
  obtain json_loads other_str repr_exc sent now code http_error chunks broken
    where r: "r = send_request json_loads other_str repr_exc sent now code http_error chunks broken"
      and s: "sorted (sent # stamps chunks [] @ [now])"
    using assms unfolding client_run_def by blast
  define r0 where "r0 = \<lparr>sent_at = sent, token_times = [], output_tokens = PInt 0, error_text = [], ended_at = sent, succeeded = False\<rparr>"
  have r0: "sent_at r0 = sent" "token_times r0 = []" by (simp_all add: r0_def)
  obtain r1 where r1: "r1 = r0 \<or> (\<exists>x. feed json_loads other_str chunks [] r0 = Inl (x, r1)) \<or> (\<exists>b. feed json_loads other_str chunks [] r0 = Inr (b, r1))"
    and f: "token_times r = token_times r1" "sent_at r = sent_at r1" "ended_at r = now" "succeeded r \<longrightarrow> token_times r \<noteq> []"
    using send_request_times [OF r] unfolding r0_def by blast
  have "sorted (sent # token_times r1 @ [now]) \<and> sent_at r1 = sent"
    using r1
  proof (elim disjE exE)
    assume "r1 = r0"
    then show ?thesis using s by (simp add: r0_def)
  next
    fix x assume "feed json_loads other_str chunks [] r0 = Inl (x, r1)"
    then show ?thesis by (rule feed_times [OF s r0 disjI1])
  next
    fix b assume "feed json_loads other_str chunks [] r0 = Inr (b, r1)"
    then show ?thesis by (rule feed_times [OF s r0 disjI2])
  qed
  then show ?thesis using f by (simp add: timed_def)
qed

section \<open>Latencies are not negative\<close>

lemma latencies_ok: "token_times r \<noteq> [] \<Longrightarrow> first_latency r = Inr (hd (token_times r) - sent_at r)"
    "token_times r \<noteq> [] \<Longrightarrow> last_latency r = Inr (last (token_times r) - sent_at r)"
  by (simp_all add: first_latency_def last_latency_def hd_conv_nth)

lemma gaps_nonneg: "sorted ts \<Longrightarrow> \<forall>x \<in> set (map (\<lambda>(a, b). b - a) (zip ts (tl ts))). (0::rat) \<le> x"
proof (induction ts)
  case (Cons a ts)
  then have ih: "\<forall>x \<in> set (map (\<lambda>(a, b). b - a) (zip ts (tl ts))). 0 \<le> x" by simp
  then show ?case using Cons.prems by (cases ts) simp_all
qed simp

lemma gaps_telescope: "ts \<noteq> [] \<Longrightarrow> sum_list (map (\<lambda>(a, b). b - a) (zip ts (tl ts))) = last ts - (hd ts :: rat)"
proof (induction ts)
  case (Cons a ts)
  then show ?case by (cases ts) simp_all
qed simp

lemma run_latencies:
  assumes "timed r" and "token_times r \<noteq> []"
  shows "0 \<le> hd (token_times r) - sent_at r" "hd (token_times r) \<le> last (token_times r)"
    "x \<in> set (token_gaps r) \<Longrightarrow> 0 \<le> x"
proof -
  have s: "sorted (token_times r)" "\<forall>t \<in> set (token_times r). sent_at r \<le> t"
    using assms(1) by (simp_all add: timed_def sorted_append)
  show "0 \<le> hd (token_times r) - sent_at r" using s(2) assms(2) by simp
  show "hd (token_times r) \<le> last (token_times r)" using s(1) assms(2) by (cases "token_times r") auto
  show "x \<in> set (token_gaps r) \<Longrightarrow> 0 \<le> x" using gaps_nonneg [OF s(1)] unfolding token_gaps_def by blast
qed

section \<open>Percentiles\<close>

text \<open>What numpy documents: a percentile grows with its rank, and it and the mean lie between the extremes.\<close>

definition np_ok :: "numpy_stats \<Rightarrow> bool" where
  "np_ok N \<longleftrightarrow> (\<forall>xs. xs \<noteq> [] \<longrightarrow>
     (\<forall>p q. 0 \<le> p \<and> p \<le> q \<and> q \<le> 100 \<longrightarrow> np_percentile N xs p \<le> np_percentile N xs q) \<and>
     (\<forall>q. 0 \<le> q \<and> q \<le> 100 \<longrightarrow> Min (set xs) \<le> np_percentile N xs q \<and> np_percentile N xs q \<le> Max (set xs)) \<and>
     Min (set xs) \<le> np_mean N xs \<and> np_mean N xs \<le> Max (set xs))"

text \<open>Numbers from zero up, or no number at all.\<close>

definition ranked :: "pyfloat list \<Rightarrow> bool" where
  "ranked ps \<longleftrightarrow> (\<forall>p \<in> set ps. p = PyNaN) \<or> (\<exists>xs. ps = map PyFin xs \<and> sorted (0 # xs))"

lemma pct_ranked:
  assumes N: "np_ok N" and nonneg: "\<forall>x \<in> set xs. 0 \<le> x" and qs: "sorted qs" "\<forall>q \<in> set qs. 0 \<le> q \<and> q \<le> 100"
  shows "ranked (map (pct N xs) qs)"
proof (cases "xs = []")
  case False
  note P = N [unfolded np_ok_def, rule_format, OF False]
  have "0 \<le> Min (set xs)" using nonneg False by simp
  then have "\<forall>q \<in> set qs. 0 \<le> np_percentile N xs q" using P qs(2) by (meson order.trans)
  moreover have "sorted (map (np_percentile N xs) qs)"
    using qs
  proof (induction qs)
    case (Cons q qs)
    then show ?case using P by simp
  qed simp
  moreover have "map (pct N xs) qs = map PyFin (map (np_percentile N xs) qs)" using False by (simp add: pct_def)
  ultimately show ?thesis unfolding ranked_def by (intro disjI2 exI [of _ "map (np_percentile N xs) qs"]) simp
qed (simp add: ranked_def pct_def)

section \<open>The report\<close>

text \<open>The statistics a server answers, as far as the summary reads them.\<close>

definition stats_ok :: "json_obj option \<Rightarrow> bool" where
  "stats_ok d \<longleftrightarrow> (case d of None \<Rightarrow> True | Some kv \<Rightarrow> kv = [] \<or>
     (\<exists>x. item_float kv ''total_preemptions'' = Inr x) \<and>
     (\<forall>v. map_of kv ''peak_memory_bytes'' = Some v \<longrightarrow> (\<exists>x. json_float v = Inr x)))"

lemma stats_read:
  assumes "stats_ok (br_before res)" and "stats_ok (br_after res)"
  shows "\<exists>x. count_preemptions res = Inr x" "\<exists>x. peak_memory res = Inr x"
  using assms by (auto simp: stats_ok_def count_preemptions_def peak_memory_def has_stats_def split: option.splits)

lemma mapM_total: "(\<And>x. x \<in> set xs \<Longrightarrow> \<exists>y. f x = Inr y) \<Longrightarrow> \<exists>ys. mapM f xs = Inr ys"
proof (induction xs)
  case (Cons x xs)
  then obtain y ys where "f x = Inr y" "mapM f xs = Inr ys" by force
  then show ?case by simp
qed simp

lemma summarize_ok:
  assumes runs: "\<forall>r \<in> set (br_records res). timed r \<and> (succeeded r \<longrightarrow> (\<exists>k. output_tokens r = PInt k))"
    and stats: "stats_ok (br_before res)" "stats_ok (br_after res)" "\<forall>s \<in> set (br_series res). \<exists>x. item_float s ''kv_usage'' = Inr x"
    and N: "np_ok N"
  shows "\<exists>S. summarize N label rate res = Inr S \<and>
     bs_num_requests S = int (length (br_records res)) \<and>
     bs_num_failed S = int (length (filter (\<lambda>r. \<not> succeeded r) (br_records res))) \<and>
     ranked [bs_ttft_p50 S, bs_ttft_p95 S, bs_ttft_p99 S] \<and> ranked [bs_itl_p50 S, bs_itl_p95 S, bs_itl_p99 S] \<and>
     ranked [bs_e2e_p50 S, bs_e2e_p99 S]"
proof -
  let ?ok = "filter succeeded (br_records res)"
  let ?ttft = "map (\<lambda>r. hd (token_times r) - sent_at r) ?ok" and ?e2e = "map (\<lambda>r. last (token_times r) - sent_at r) ?ok"
    and ?itl = "concat (map token_gaps ?ok)"
  have ok: "timed r \<and> token_times r \<noteq> []" if "r \<in> set ?ok" for r using that runs by (auto simp: timed_def)
  have lat: "mapM first_latency ?ok = Inr ?ttft" "mapM last_latency ?ok = Inr ?e2e"
    using ok latencies_ok by (auto intro!: mapM_ok)
  obtain counts where counts: "mapM (\<lambda>r. payload_int (output_tokens r)) ?ok = Inr counts"
    using mapM_total [of ?ok "\<lambda>r. payload_int (output_tokens r)"] runs by force
  obtain kv where kv: "mapM (\<lambda>s. item_float s ''kv_usage'') (br_series res) = Inr kv"
    using mapM_total [of "br_series res" "\<lambda>s. item_float s ''kv_usage''"] stats(3) by blast
  obtain pre peak where st: "count_preemptions res = Inr pre" "peak_memory res = Inr peak" using stats_read [OF stats(1,2)] by blast
  have p1: "\<forall>x \<in> set ?ttft. 0 \<le> x" and p2: "\<forall>x \<in> set ?itl. 0 \<le> x" using ok run_latencies(1,3) by auto
  have p3: "\<forall>x \<in> set ?e2e. 0 \<le> x"
  proof
    fix x assume "x \<in> set ?e2e"
    then obtain r where "r \<in> set ?ok" "x = last (token_times r) - sent_at r" by auto
    then show "0 \<le> x" using ok run_latencies(1,2) [of r] by fastforce
  qed
  have "ranked (map (pct N ?ttft) [50, 95, 99])" "ranked (map (pct N ?itl) [50, 95, 99])" "ranked (map (pct N ?e2e) [50, 99])"
    by (rule pct_ranked [OF N p1], simp, simp, rule pct_ranked [OF N p2], simp, simp, rule pct_ranked [OF N p3], simp, simp)
  moreover have "int (length (br_records res)) - int (length ?ok) = int (length (filter (\<lambda>r. \<not> succeeded r) (br_records res)))"
    using sum_length_filter_compl [of succeeded "br_records res"] by simp
  ultimately show ?thesis
    unfolding summarize_def Let_def lat counts kv st rbind_simps by (simp add: case_prod_beta)
qed

lemma row_adds_up:
  assumes "1 < length (token_times r)"
  shows "\<exists>a b. row_ttft (request_row_of i w r) = Some a \<and> row_tpot (request_row_of i w r) = Some b \<and>
     row_e2e (request_row_of i w r) = Some (a + b * (of_nat (length (token_times r)) - 1)) \<and>
     sum_list (token_gaps r) = b * (of_nat (length (token_times r)) - 1)"
proof -
  have n: "token_times r \<noteq> []" and pos: "(of_nat (length (token_times r)) - 1 :: rat) \<noteq> 0" using assms by auto
  show ?thesis
    using assms pos n gaps_telescope [OF n] by (simp add: request_row_of_def token_gaps_def Let_def)
qed

text \<open>C38: the report of a run agrees with its records. For records the client made with a clock that does
  not go back, integer token counts and the statistics the server documents, \<open>summarize\<close> returns: failures and
  successes add up, no latency is negative, the percentiles of TTFT, of the inter-token and of the end-to-end
  latency are in order, and in the row of every request of two or more tokens the end-to-end latency is the TTFT
  plus the time per output token for each token after the first, which is the sum of its inter-token latencies.\<close>

theorem report_agrees:
  assumes "\<forall>r \<in> set (br_records res). client_run r \<and> (succeeded r \<longrightarrow> (\<exists>k. output_tokens r = PInt k))"
    and "stats_ok (br_before res)" and "stats_ok (br_after res)" and "\<forall>s \<in> set (br_series res). \<exists>x. item_float s ''kv_usage'' = Inr x"
    and "np_ok N"
  shows "(\<exists>S. summarize N label rate res = Inr S \<and>
       bs_num_requests S = int (length (br_records res)) \<and>
       bs_num_failed S = int (length (filter (\<lambda>r. \<not> succeeded r) (br_records res))) \<and>
       ranked [bs_ttft_p50 S, bs_ttft_p95 S, bs_ttft_p99 S] \<and> ranked [bs_itl_p50 S, bs_itl_p95 S, bs_itl_p99 S] \<and>
       ranked [bs_e2e_p50 S, bs_e2e_p99 S]) \<and>
     (\<forall>r \<in> set (br_records res). 1 < length (token_times r) \<longrightarrow>
       (\<exists>a b. row_ttft (request_row_of i w r) = Some a \<and> row_tpot (request_row_of i w r) = Some b \<and> 0 \<le> a \<and>
          row_e2e (request_row_of i w r) = Some (a + b * (of_nat (length (token_times r)) - 1)) \<and>
          sum_list (token_gaps r) = b * (of_nat (length (token_times r)) - 1)))"
proof (intro conjI ballI impI)
  show "\<exists>S. summarize N label rate res = Inr S \<and>
       bs_num_requests S = int (length (br_records res)) \<and>
       bs_num_failed S = int (length (filter (\<lambda>r. \<not> succeeded r) (br_records res))) \<and>
       ranked [bs_ttft_p50 S, bs_ttft_p95 S, bs_ttft_p99 S] \<and> ranked [bs_itl_p50 S, bs_itl_p95 S, bs_itl_p99 S] \<and>
       ranked [bs_e2e_p50 S, bs_e2e_p99 S]"
    by (rule summarize_ok [OF _ assms(2-5)]) (use assms(1) client_run_timed in blast)
  fix r assume r: "r \<in> set (br_records res)" and n: "1 < length (token_times r)"
  then have "timed r" "token_times r \<noteq> []" using assms(1) client_run_timed by auto
  then have "0 \<le> hd (token_times r) - sent_at r" by (rule run_latencies(1))
  then have "row_ttft (request_row_of i w r) = Some a \<Longrightarrow> 0 \<le> a" for a by (auto simp: request_row_of_def Let_def split: if_splits)
  then show "\<exists>a b. row_ttft (request_row_of i w r) = Some a \<and> row_tpot (request_row_of i w r) = Some b \<and> 0 \<le> a \<and>
          row_e2e (request_row_of i w r) = Some (a + b * (of_nat (length (token_times r)) - 1)) \<and>
          sum_list (token_gaps r) = b * (of_nat (length (token_times r)) - 1)"
    using row_adds_up [OF n, of i w] by blast
qed

text \<open>The record of the request in \<open>Bench_Client_Props\<close>, whose two tokens arrive at 2, and the percentile that
  takes the lower of two neighbours.\<close>

definition ex_record :: client_record where
  "ex_record = send_request ex_loads (\<lambda>_. []) (\<lambda>_. []) 0 3 200 [] ex_chunks None"

definition ex_numpy :: numpy_stats where
  "ex_numpy = \<lparr>np_mean = (\<lambda>xs. Min (set xs)), np_percentile = (\<lambda>xs q. sort xs ! nat \<lfloor>q / 100 * (of_nat (length xs) - 1)\<rfloor>)\<rparr>"

definition ex_result :: bench_result where
  "ex_result = \<lparr>br_records = [ex_record, ex_record], br_arrivals = [0, 0], br_duration = 3, br_before = None, br_after = None, br_series = []\<rparr>"

lemma ex_record_times: "token_times ex_record = [2, 2] \<and> output_tokens ex_record = PInt 2 \<and> stamps ex_chunks [] = [2, 2, 2, 2]"
  by code_simp

lemma ex_client_run: "client_run ex_record"
  unfolding client_run_def
  by (intro exI conjI) (rule ex_record_def, simp add: ex_record_times)

lemma ex_numpy_ok: "np_ok ex_numpy"
  unfolding np_ok_def
proof (intro allI impI)
  fix xs :: "rat list" assume ne: "xs \<noteq> []"
  let ?at = "\<lambda>q :: rat. nat \<lfloor>q / 100 * (of_nat (length xs) - 1)\<rfloor>"
  have n: "0 \<le> (of_nat (length xs) - 1 :: rat)" using ne by (cases xs) simp_all
  have at: "?at p \<le> ?at q" if "p \<le> q" for p q
    by (intro nat_mono floor_mono mult_right_mono n) (use that in simp)
  have last: "?at q < length xs" if "q \<le> 100" for q
  proof -
    have "?at q \<le> ?at 100" using that by (rule at)
    also have "?at 100 = length xs - 1" using ne by (cases xs) simp_all
    finally show ?thesis using ne by (cases xs) simp_all
  qed
  have mem: "sort xs ! ?at q \<in> set xs" if "q \<le> 100" for q using nth_mem [of "?at q" "sort xs"] last [OF that] by simp
  have "sort xs ! ?at p \<le> sort xs ! ?at q" if "p \<le> q" "q \<le> 100" for p q
    by (rule sorted_nth_mono [OF sorted_sort at [OF that(1)]]) (simp only: length_sort last [OF that(2)])
  moreover have "Min (set xs) \<le> sort xs ! ?at q" "sort xs ! ?at q \<le> Max (set xs)" if "q \<le> 100" for q
    using mem [OF that] by simp_all
  moreover have "Min (set xs) \<le> Max (set xs)" using ne by (metis List.finite_set Max_ge Min_in set_empty)
  ultimately show "(\<forall>p q. 0 \<le> p \<and> p \<le> q \<and> q \<le> 100 \<longrightarrow> np_percentile ex_numpy xs p \<le> np_percentile ex_numpy xs q) \<and>
     (\<forall>q. 0 \<le> q \<and> q \<le> 100 \<longrightarrow> Min (set xs) \<le> np_percentile ex_numpy xs q \<and> np_percentile ex_numpy xs q \<le> Max (set xs)) \<and>
     Min (set xs) \<le> np_mean ex_numpy xs \<and> np_mean ex_numpy xs \<le> Max (set xs)"
    unfolding ex_numpy_def numpy_stats.simps by blast
qed

theorem report_agrees_witness:
  "\<exists>S. summarize ex_numpy ''run'' None ex_result = Inr S \<and> bs_num_requests S = 2 \<and>
     ranked [bs_ttft_p50 S, bs_ttft_p95 S, bs_ttft_p99 S]"
proof -
  have "\<forall>r \<in> set (br_records ex_result). client_run r \<and> (succeeded r \<longrightarrow> (\<exists>k. output_tokens r = PInt k))"
    using ex_client_run ex_record_times by (simp add: ex_result_def)
  moreover have "stats_ok (br_before ex_result)" "stats_ok (br_after ex_result)" "length (br_records ex_result) = 2"
      "\<forall>s \<in> set (br_series ex_result). \<exists>x. item_float s ''kv_usage'' = Inr x"
    by (simp_all add: ex_result_def stats_ok_def)
  ultimately show ?thesis using report_agrees [of ex_result ex_numpy "''run''" None 0 "\<lparr>w_prompt = [], w_output_len = 2, w_arrival = None, w_group = []\<rparr>"] ex_numpy_ok by fastforce
qed

end
