(* ===== verification/Static_Batching.thy ===== *)
theory Static_Batching
  imports Bench_Summary Workload_Props
begin

text \<open>
  \<open>bench/hf_baseline.py\<close>: the baseline without continuous batching. A worker takes the requests that have
  arrived, pads them into one batch, and runs the library's \<open>generate\<close> to the end of the longest one. The
  clock and \<open>generate\<close> are parameters: \<open>tick k t\<close> is the reading of the iteration number \<open>k\<close>, made at \<open>t\<close> or
  later, and \<open>gen k t ids mask n\<close> the times of the steps of a call made at \<open>t\<close> and the time it ended. The loop
  ends, each request gets a record with one time for every token it asked for, and the report over the records
  is made: the clock never goes back, sleeping takes at least the time asked for, and \<open>generate\<close> makes exactly
  the steps it is told to.
\<close>

text \<open>\<open>xs[k:]\<close>: a negative bound counts from the end.\<close>

definition py_suffix :: "'a list \<Rightarrow> int \<Rightarrow> 'a list" where
  "py_suffix xs k = (if 0 \<le> k then drop (nat k) xs else drop (length xs - nat (- k)) xs)"

section \<open>A batch\<close>

definition left_pad :: "nat \<Rightarrow> 'a \<Rightarrow> 'a list \<Rightarrow> 'a list" where
  "left_pad width x p = replicate (width - length p) x @ p"

definition pad_batch :: "int \<Rightarrow> int list list \<Rightarrow> int list list \<times> int list list" where
  "pad_batch pad_id prompts =
     (let width = Max (set (map length prompts))
      in (map (left_pad width pad_id) prompts, map (\<lambda>p. left_pad width 0 (map (\<lambda>_. 1) p)) prompts))"

definition baseline_record :: "bench_request \<Rightarrow> rat \<Rightarrow> rat list \<Rightarrow> rat \<Rightarrow> client_record" where
  "baseline_record w arrival steps end_time =
     \<lparr>sent_at = arrival, token_times = py_prefix steps (w_output_len w), output_tokens = PInt (w_output_len w),
      error_text = [], ended_at = end_time, succeeded = (w_output_len w \<le> int (length steps))\<rparr>"

text \<open>What the clock and \<open>generate\<close> are, apart from the requests.\<close>

record baseline_env =
  tick :: "nat \<Rightarrow> rat \<Rightarrow> rat"
  gen :: "nat \<Rightarrow> rat \<Rightarrow> int list list \<Rightarrow> int list list \<Rightarrow> int \<Rightarrow> rat list \<times> rat"
  pad_token :: int
  max_batch :: int

definition baseline_batch ::
  "baseline_env \<Rightarrow> bench_request list \<Rightarrow> rat list \<Rightarrow> nat \<Rightarrow> rat \<Rightarrow> nat list \<Rightarrow> client_record option list
     \<Rightarrow> (rat \<times> client_record option list) result" where
  "baseline_batch E requests arrivals k now batch records =
     (if batch = [] then Inl (ValueError ''max() arg is an empty sequence'')
      else
        let (ids, mask) = pad_batch (pad_token E) (map (\<lambda>i. w_prompt (requests ! i)) batch);
            new_tokens = Max (set (map (\<lambda>i. w_output_len (requests ! i)) batch));
            (steps, end_time) = gen E k now ids mask new_tokens
        in Inr (end_time, fold (\<lambda>i rs. rs[i := Some (baseline_record (requests ! i) (arrivals ! i) steps end_time)]) batch records))"

section \<open>The loop\<close>

text \<open>The inner loop: who has arrived.\<close>

fun take_arrived :: "rat list \<Rightarrow> rat \<Rightarrow> nat list \<Rightarrow> nat list \<Rightarrow> nat list \<times> nat list" where
  "take_arrived arrivals now [] due = ([], due)"
| "take_arrived arrivals now (i # rest) due =
     (if arrivals ! i \<le> now then take_arrived arrivals now rest (due @ [i]) else (i # rest, due))"

text \<open>\<open>later\<close> is what of \<open>order\<close> starts at \<open>nxt\<close>, \<open>due\<close> is \<open>pending\<close>; \<open>t\<close> is a time that has passed.\<close>

partial_function (option) baseline_loop ::
  "baseline_env \<Rightarrow> bench_request list \<Rightarrow> rat list \<Rightarrow> nat \<Rightarrow> rat \<Rightarrow> nat list \<Rightarrow> nat list \<Rightarrow> client_record option list
     \<Rightarrow> (client_record option list \<times> rat) result option" where
  "baseline_loop E requests arrivals k t later due records =
     (if later = [] \<and> due = [] then Some (Inr (records, tick E k t))
      else
        let now = tick E k t; (later1, due1) = take_arrived arrivals now later due in
        if due1 = [] then
          baseline_loop E requests arrivals (Suc k) (now + max 0 (arrivals ! hd later1 - now)) later1 [] records
        else case baseline_batch E requests arrivals k now (py_prefix due1 (max_batch E)) records of
            Inl e \<Rightarrow> Some (Inl e)
          | Inr (end_time, records1) \<Rightarrow>
              baseline_loop E requests arrivals (Suc k) end_time later1 (py_suffix due1 (max_batch E)) records1)"

definition baseline_run ::
  "baseline_env \<Rightarrow> 'g numpy_rng \<Rightarrow> bench_request list \<Rightarrow> rat option \<Rightarrow> int \<Rightarrow> (client_record option list \<times> rat list \<times> rat) result option" where
  "baseline_run E R requests rate seed =
     (case run_arrivals R requests rate seed of
        Inl e \<Rightarrow> Some (Inl e)
      | Inr arrivals \<Rightarrow>
          Option.bind (baseline_loop E requests arrivals 0 0 (sort_key ((!) arrivals) [0..<length requests]) []
              (replicate (length requests) None)) (\<lambda>res.
            case res of Inl e \<Rightarrow> Some (Inl e) | Inr (records, t) \<Rightarrow> Some (Inr (records, arrivals, t))))"

text \<open>The result \<open>summarize\<close> gets: no statistics, no series.\<close>

definition baseline_result :: "client_record option list \<Rightarrow> rat list \<Rightarrow> rat \<Rightarrow> bench_result" where
  "baseline_result records arrivals duration =
     \<lparr>br_records = map the records, br_arrivals = arrivals, br_duration = duration, br_before = None, br_after = None, br_series = []\<rparr>"

section \<open>The environment\<close>

definition env_ok :: "baseline_env \<Rightarrow> bool" where
  "env_ok E \<longleftrightarrow> (\<forall>k t. t \<le> tick E k t) \<and>
     (\<forall>k t ids mask n. 1 \<le> n \<longrightarrow> int (length (fst (gen E k t ids mask n))) = n \<and>
        sorted (t # fst (gen E k t ids mask n) @ [snd (gen E k t ids mask n)]))"

definition served_by :: "bench_request \<Rightarrow> rat \<Rightarrow> client_record \<Rightarrow> bool" where
  "served_by w arrival r \<longleftrightarrow> sent_at r = arrival \<and> succeeded r \<and> output_tokens r = PInt (w_output_len w) \<and>
     int (length (token_times r)) = w_output_len w \<and> timed r"

section \<open>A batch serves its requests\<close>

text \<open>Left padding: all rows are of one length, and the mask says which tokens are the prompt's.\<close>

lemma pad_batch_rows:
  assumes "p \<in> set prompts"
  shows "length (left_pad (Max (set (map length prompts))) x p) = Max (set (map length prompts))"
    and "map fst (filter (\<lambda>(_, m). m = (1::int)) (zip (left_pad k x p) (left_pad k 0 (map (\<lambda>_. 1) p)))) = p"
proof -
  have "length p \<le> Max (set (map length prompts))" using assms by simp
  then show "length (left_pad (Max (set (map length prompts))) x p) = Max (set (map length prompts))" by (simp add: left_pad_def)
  have "filter (\<lambda>(_, m). m = (1::int)) (zip (replicate j x) (replicate j 0)) = []" for j by (induction j) simp_all
  moreover have "map fst (filter (\<lambda>(_, m). m = (1::int)) (zip p (map (\<lambda>_. 1) p))) = p" by (induction p) simp_all
  ultimately show "map fst (filter (\<lambda>(_, m). m = (1::int)) (zip (left_pad k x p) (left_pad k 0 (map (\<lambda>_. 1) p)))) = p"
    by (simp add: left_pad_def)
qed

lemma fold_records:
  "j < length rs \<Longrightarrow> fold (\<lambda>i rs. rs[i := f i]) is rs ! j = (if j \<in> set is then f j else rs ! j)"
  "length (fold (\<lambda>i rs. rs[i := f i]) is rs) = length rs"
  by (induction "is" arbitrary: rs) (auto simp: nth_list_update)

lemma baseline_served:
  assumes "sorted (now # steps @ [e])" and "arrival \<le> now" and "1 \<le> w_output_len w" "w_output_len w \<le> int (length steps)"
  shows "served_by w arrival (baseline_record w arrival steps e)"
proof -
  have t: "py_prefix steps (w_output_len w) = take (nat (w_output_len w)) steps" using assms(3) by (simp add: py_prefix_nonneg)
  have len: "length (take (nat (w_output_len w)) steps) = nat (w_output_len w)" using assms(3,4) by simp
  have "sorted (arrival # take (nat (w_output_len w)) steps @ [e])"
    using assms(1,2) by (auto simp: sorted_append sorted_wrt_take dest!: in_set_takeD)
  moreover have "steps \<noteq> []" using assms(3,4) by auto
  ultimately show ?thesis
    using len assms(3,4) by (simp add: served_by_def timed_def baseline_record_def t)
qed

lemma baseline_batch_ok:
  assumes E: "env_ok E" and b: "batch \<noteq> []" "\<forall>i \<in> set batch. i < length records \<and> arrivals ! i \<le> now \<and> 1 \<le> w_output_len (requests ! i)"
  shows "\<exists>e rs. baseline_batch E requests arrivals k now batch records = Inr (e, rs) \<and> now \<le> e \<and> length rs = length records \<and>
     (\<forall>i < length records. if i \<in> set batch then \<exists>r. rs ! i = Some r \<and> served_by (requests ! i) (arrivals ! i) r else rs ! i = records ! i)"
proof -
  let ?outs = "set (map (\<lambda>i. w_output_len (requests ! i)) batch)"
  obtain ids mask where ids: "pad_batch (pad_token E) (map (\<lambda>i. w_prompt (requests ! i)) batch) = (ids, mask)" by (metis surj_pair)
  obtain steps e where g: "gen E k now ids mask (Max ?outs) = (steps, e)" by (metis surj_pair)
  have le: "w_output_len (requests ! i) \<le> Max ?outs" if "i \<in> set batch" for i using that by simp
  have one: "1 \<le> Max ?outs" using le [of "hd batch"] b by (meson hd_in_set order.trans)
  have "int (length (fst (gen E k now ids mask (Max ?outs)))) = Max ?outs \<and>
      sorted (now # fst (gen E k now ids mask (Max ?outs)) @ [snd (gen E k now ids mask (Max ?outs))])"
    using E one unfolding env_ok_def by blast
  then have G: "int (length steps) = Max ?outs" "sorted (now # steps @ [e])" unfolding g fst_conv snd_conv by blast+
  have "served_by (requests ! i) (arrivals ! i) (baseline_record (requests ! i) (arrivals ! i) steps e)" if "i \<in> set batch" for i
    using that b(2) le [OF that] G by (intro baseline_served [OF G(2)]) simp_all
  moreover have "baseline_batch E requests arrivals k now batch records
      = Inr (e, fold (\<lambda>i rs. rs[i := Some (baseline_record (requests ! i) (arrivals ! i) steps e)]) batch records)"
    by (simp only: baseline_batch_def b(1) ids g Let_def prod.case if_False)
  moreover have "now \<le> e" using G(2) by simp
  ultimately show ?thesis
    by (intro exI conjI) (assumption | simp add: fold_records)+
qed

section \<open>The loop ends\<close>

lemma take_arrived_eq:
  "take_arrived arrivals now later due = (dropWhile (\<lambda>i. arrivals ! i \<le> now) later, due @ takeWhile (\<lambda>i. arrivals ! i \<le> now) later)"
  by (induction later arbitrary: due) simp_all

definition loop_inv :: "bench_request list \<Rightarrow> rat list \<Rightarrow> rat \<Rightarrow> nat list \<Rightarrow> nat list \<Rightarrow> client_record option list \<Rightarrow> bool" where
  "loop_inv requests arrivals t later due records \<longleftrightarrow> length records = length requests \<and>
     (\<forall>i \<in> set later \<union> set due. i < length requests) \<and> (\<forall>i \<in> set due. arrivals ! i \<le> t) \<and>
     (\<forall>i < length requests. i \<notin> set later \<union> set due \<longrightarrow> (\<exists>r. records ! i = Some r \<and> served_by (requests ! i) (arrivals ! i) r))"

lemma baseline_loop_ok:
  assumes E: "env_ok E" "1 \<le> max_batch E" and out: "\<forall>w \<in> set requests. 1 \<le> w_output_len w"
  shows "loop_inv requests arrivals t later due records \<Longrightarrow>
     \<exists>rs t'. baseline_loop E requests arrivals k t later due records = Some (Inr (rs, t')) \<and> loop_inv requests arrivals t' [] [] rs"
proof (induction "2 * (length later + length due) + of_bool (due = [] \<and> later \<noteq> [] \<and> t < arrivals ! hd later)"
    arbitrary: k t later due records rule: less_induct)
  case less
  note inv = less.prems [unfolded loop_inv_def]
  show ?case
  proof (cases "later = [] \<and> due = []")
    case True
    then show ?thesis using less.prems by (subst baseline_loop.simps) (simp add: loop_inv_def)
  next
    case more: False
    define now where "now = tick E k t"
    have now: "t \<le> now" using E(1) by (simp add: env_ok_def now_def)
    define later1 due1 where "later1 = dropWhile (\<lambda>i. arrivals ! i \<le> now) later" and "due1 = due @ takeWhile (\<lambda>i. arrivals ! i \<le> now) later"
    have step: "baseline_loop E requests arrivals k t later due records =
        (if due1 = [] then baseline_loop E requests arrivals (Suc k) (now + max 0 (arrivals ! hd later1 - now)) later1 [] records
         else case baseline_batch E requests arrivals k now (py_prefix due1 (max_batch E)) records of
            Inl e \<Rightarrow> Some (Inl e)
          | Inr (end_time, records1) \<Rightarrow>
              baseline_loop E requests arrivals (Suc k) end_time later1 (py_suffix due1 (max_batch E)) records1)"
      unfolding now_def later1_def due1_def
      by (subst baseline_loop.simps) (use more in \<open>simp only: take_arrived_eq Let_def prod.case if_False\<close>)
    have split: "set later1 \<union> set due1 = set later \<union> set due" "length later1 + length due1 = length later + length due"
      unfolding later1_def due1_def
      using takeWhile_dropWhile_id [of "\<lambda>i. arrivals ! i \<le> now" later]
      by (metis (no_types, lifting) Un_assoc Un_commute set_append, metis (no_types, lifting) add.commute add.left_commute length_append)
    show ?thesis
    proof (cases "due1 = []")
      case True
      then have idle: "due = []" "later \<noteq> []" "later1 = later" "\<not> arrivals ! hd later \<le> now"
        using more unfolding due1_def later1_def by (cases later; auto split: if_splits)+
      let ?t = "now + max 0 (arrivals ! hd later - now)"
      have "loop_inv requests arrivals ?t later [] records" using inv idle(1) by (simp add: loop_inv_def)
      from less.hyps [OF _ this, of "Suc k"] idle now
      show ?thesis unfolding step using True by simp
    next
      case False
      let ?b = "py_prefix due1 (max_batch E)" and ?rest = "py_suffix due1 (max_batch E)"
      have cut: "?b @ ?rest = due1" "?b \<noteq> []" using E(2) False by (simp_all add: py_prefix_def py_suffix_def)
      have sets: "set ?b \<union> set ?rest = set due1" using arg_cong [OF cut(1), of set] by simp
      have arr: "\<forall>i \<in> set due1. arrivals ! i \<le> now"
        using inv now unfolding due1_def by (auto dest: set_takeWhileD)
      have "\<forall>i \<in> set ?b. i < length records \<and> arrivals ! i \<le> now \<and> 1 \<le> w_output_len (requests ! i)"
        using inv out arr sets split(1) by (metis UnCI nth_mem)
      from baseline_batch_ok [OF E(1) cut(2) this, of k] obtain e rs
        where rb: "baseline_batch E requests arrivals k now ?b records = Inr (e, rs)" "now \<le> e" "length rs = length records"
          and recs: "\<forall>i < length records. if i \<in> set ?b then \<exists>r. rs ! i = Some r \<and> served_by (requests ! i) (arrivals ! i) r else rs ! i = records ! i"
        by blast
      have "loop_inv requests arrivals e later1 ?rest rs"
        unfolding loop_inv_def
      proof (intro conjI ballI allI impI)
        show "length rs = length requests" using rb(3) inv by simp
        show "i < length requests" if "i \<in> set later1 \<union> set ?rest" for i using that inv sets split(1) by blast
        show "arrivals ! i \<le> e" if "i \<in> set ?rest" for i
        proof -
          have "arrivals ! i \<le> now" using that arr sets by blast
          then show ?thesis using rb(2) by simp
        qed
        show "\<exists>r. rs ! i = Some r \<and> served_by (requests ! i) (arrivals ! i) r" if i: "i < length requests" "i \<notin> set later1 \<union> set ?rest" for i
        proof (cases "i \<in> set ?b")
          case True
          then show ?thesis using recs i(1) inv by simp
        next
          case out: False
          then have "i \<notin> set later \<union> set due" using i(2) sets split(1) by blast
          then show ?thesis using recs i(1) inv out by simp
        qed
      qed
      moreover have "length later1 + length ?rest < length later + length due"
      proof -
        have "length ?b + length ?rest = length due1" using arg_cong [OF cut(1), of length] by simp
        moreover have "0 < length ?b" using cut(2) by simp
        ultimately show ?thesis using split(2) by linarith
      qed
      moreover have "of_bool A \<le> (1::nat)" for A by simp
      ultimately have "2 * (length later1 + length ?rest) + of_bool (?rest = [] \<and> later1 \<noteq> [] \<and> e < arrivals ! hd later1)
          < 2 * (length later + length due) + of_bool (due = [] \<and> later \<noteq> [] \<and> t < arrivals ! hd later)"
        and "loop_inv requests arrivals e later1 ?rest rs"
        by (auto simp: of_bool_def)
      from less.hyps [OF this, of "Suc k"] show ?thesis using False by (simp add: step rb(1))
    qed
  qed
qed

section \<open>The run\<close>

text \<open>C39: the baseline serves every request, and its report is made. With a clock that does not go back, a
  batch size and output lengths of at least one, and a \<open>generate\<close> that makes the steps it is told to, the loop
  ends: no request is left out or served twice, each has exactly its number of token times, none of them
  before its arrival, and \<open>summarize\<close> counts no failure.\<close>

theorem baseline_serves_all:
  assumes "env_ok E" and "1 \<le> max_batch E" and "\<forall>w \<in> set requests. 1 \<le> w_output_len w"
    and "run_arrivals R requests rate seed = Inr arrivals" and "length arrivals = length requests" and "np_ok N"
  shows "\<exists>records t S. baseline_run E R requests rate seed = Some (Inr (records, arrivals, t)) \<and> length records = length requests \<and>
     (\<forall>i < length requests. \<exists>r. records ! i = Some r \<and> sent_at r = arrivals ! i \<and> succeeded r \<and>
        int (length (token_times r)) = w_output_len (requests ! i) \<and> sorted (arrivals ! i # token_times r @ [ended_at r])) \<and>
     summarize N label rate (baseline_result records arrivals t) = Inr S \<and>
     bs_num_requests S = int (length requests) \<and> bs_num_failed S = 0"
proof -
  let ?n = "length requests"
  have "loop_inv requests arrivals 0 (sort_key ((!) arrivals) [0..<?n]) [] (replicate ?n None)" by (simp add: loop_inv_def)
  from baseline_loop_ok [OF assms(1-3) this, of 0] obtain records t
    where run: "baseline_loop E requests arrivals 0 0 (sort_key ((!) arrivals) [0..<?n]) [] (replicate ?n None) = Some (Inr (records, t))"
      and len: "length records = ?n" and recs: "\<forall>i < ?n. \<exists>r. records ! i = Some r \<and> served_by (requests ! i) (arrivals ! i) r"
    by (auto simp: loop_inv_def)
  let ?res = "baseline_result records arrivals t"
  have all: "\<forall>r \<in> set (br_records ?res). timed r \<and> (succeeded r \<longrightarrow> (\<exists>k. output_tokens r = PInt k)) \<and> succeeded r"
    using recs len by (force simp: baseline_result_def in_set_conv_nth served_by_def)
  have "filter (\<lambda>r. \<not> succeeded r) (br_records ?res) = []" using all by (simp add: filter_empty_conv)
  moreover have "length (br_records ?res) = ?n" by (simp add: baseline_result_def len)
  moreover have "\<exists>S. summarize N label rate ?res = Inr S \<and>
     bs_num_requests S = int (length (br_records ?res)) \<and>
     bs_num_failed S = int (length (filter (\<lambda>r. \<not> succeeded r) (br_records ?res))) \<and>
     ranked [bs_ttft_p50 S, bs_ttft_p95 S, bs_ttft_p99 S] \<and> ranked [bs_itl_p50 S, bs_itl_p95 S, bs_itl_p99 S] \<and>
     ranked [bs_e2e_p50 S, bs_e2e_p99 S]"
    by (rule summarize_ok) (use all assms(6) in \<open>simp_all add: baseline_result_def stats_ok_def\<close>)
  ultimately obtain S where "summarize N label rate ?res = Inr S" "bs_num_requests S = int ?n" "bs_num_failed S = 0" by auto
  moreover have "baseline_run E R requests rate seed = Some (Inr (records, arrivals, t))"
    by (simp add: baseline_run_def assms(4) run)
  moreover have "\<forall>i < ?n. \<exists>r. records ! i = Some r \<and> sent_at r = arrivals ! i \<and> succeeded r \<and>
        int (length (token_times r)) = w_output_len (requests ! i) \<and> sorted (arrivals ! i # token_times r @ [ended_at r])"
    using recs unfolding served_by_def timed_def by metis
  ultimately show ?thesis using len by blast
qed

text \<open>A request for no token counts as a success without a token time, and the report cannot be made.\<close>

lemma empty_success_unreported:
  assumes "w_output_len w = 0"
  shows "summarize N label rate (baseline_result [Some (baseline_record w arrival steps e)] [arrival] t) = Inl IndexError"
  using assms by (simp add: summarize_def baseline_result_def baseline_record_def first_latency_def py_prefix_def list_get_def Let_def)

text \<open>A clock that stands still, one second per step, two requests that arrive at 0 and at 1, batches of one.\<close>

definition ex_env :: baseline_env where
  "ex_env = \<lparr>tick = (\<lambda>_ t. t), gen = (\<lambda>_ t _ _ n. (map (\<lambda>i. t + of_nat i) [0..<nat n], t + of_int (max 0 n))), pad_token = 0, max_batch = 1\<rparr>"

definition ex_requests :: "bench_request list" where
  "ex_requests = [\<lparr>w_prompt = [1, 2], w_output_len = 2, w_arrival = Some 0, w_group = []\<rparr>,
     \<lparr>w_prompt = [3], w_output_len = 1, w_arrival = Some 1, w_group = []\<rparr>]"

lemma ex_env_ok: "env_ok ex_env"
  by (auto simp: env_ok_def ex_env_def sorted_append sorted_wrt_map sorted_wrt_upt max_def sorted_map)

theorem baseline_serves_all_witness:
  "\<exists>records t S. baseline_run ex_env ex_rng ex_requests None 0 = Some (Inr (records, [0, 1], t)) \<and> length records = 2 \<and>
     summarize ex_numpy ''static'' None (baseline_result records [0, 1] t) = Inr S \<and> bs_num_failed S = 0"
proof -
  have "run_arrivals ex_rng ex_requests None 0 = Inr [0, 1]" "length [0, 1 :: rat] = length ex_requests"
    "\<forall>w \<in> set ex_requests. 1 \<le> w_output_len w" "1 \<le> max_batch ex_env" "length ex_requests = 2"
    by (simp_all add: run_arrivals_def ex_requests_def ex_env_def)
  with baseline_serves_all [OF ex_env_ok _ _ _ _ ex_numpy_ok, of ex_requests ex_rng None 0 "[0, 1]" "''static''"]
  show ?thesis by fastforce
qed

end
