(* ===== verification/Spec2Isabelle.thy ===== *)
theory Spec2Isabelle
  imports Block_Props Scheduler_Props Engine_Props Text_Props Runner_Props Server_Props Loader_Props Bench_Client_Props Workload_Props Static_Batching
begin

text \<open>
  PagedServe is a serving engine for one language model. A client sends a prompt; the engine decodes it
  together with the prompts of other clients, one batch of tokens per step. The keys and values of every
  sequence are kept in pages of a shared cache, so sequences grow, are evicted and come back without moving.
  This development is a shallow embedding of the engine and of the programs around it, translated function
  by function from the Python sources; names are those of the sources, with a prefix (\<open>wq_\<close>, \<open>sched_\<close>,
  \<open>eng_\<close>) where two classes have a method of the same name.

  \<^bold>\<open>The parts and how they interact.\<close> \<open>LLMEngine.step\<close> (\<open>engine/core/engine.py\<close>) asks \<open>Scheduler.schedule\<close> for a
  batch, hands it to \<open>ModelRunner.execute\<close>, gives the logits of the sequences that sample to \<open>Sampler\<close>, and the
  tokens to \<open>Scheduler.update\<close>, which appends them to the sequences and reports text. The scheduler owns the
  queues (waiting, preempted, running, swapped) and decides who runs, who is admitted and who is evicted; it
  changes page tables only through \<open>BlockManager\<close>, which counts references to pages, keeps the pool of the
  device and that of the host, and finds cached prefixes. The runner flattens the batch, runs the page copies
  of a swap and calls the network with an attention backend that writes to and reads from the pages.
  \<open>AsyncEngine\<close> (\<open>engine/api/server.py\<close>) drives the engine from an event loop and connects it to HTTP handlers by
  queues. The loader fills the network from checkpoint files before any of it starts; the benchmark client and
  its workloads stand at the other end of the connection.

  \<^bold>\<open>Conventions.\<close> A Python exception is a value: every operation that may raise returns \<open>'a result\<close>, a sum with
  \<open>py_error\<close> on the left. Objects that several queues share (the sequences) live in a store addressed by \<open>sref\<close>;
  a queue is a list of addresses. Dictionaries whose order matters are association lists. Python integers are
  \<open>int\<close> or, for counts and indices the code keeps non-negative, \<open>nat\<close>; the page index FlashInfer gets is the one
  place where the code itself narrows to 32 bits, and there the wrap-around is written out. Floats are \<open>pyfloat\<close>
  (rationals, infinities, NaN) where the code compares them, rationals where it does arithmetic on times, and
  elements of an arbitrary linearly ordered field in the network.

  \<^bold>\<open>Shared theories.\<close> \<open>Prelude\<close>: exceptions, list and dictionary primitives of Python with their errors, and loops
  that may raise. \<open>Py_Float\<close>: comparisons with NaN. \<open>Json\<close>: values as \<open>json.load\<close> returns them. \<open>Examples\<close>: the concrete
  inputs of the witnesses.

  \<^bold>\<open>Sequences.\<close> \<open>Seq_State\<close> is \<open>engine/core/sequence.py\<close>: \<open>SamplingParams\<close> with its validation, \<open>Sequence\<close> as a record,
  its derived properties, and \<open>RequestOutput\<close>.

  \<^bold>\<open>Block manager.\<close> \<open>Block_Manager\<close> is every method of \<open>engine/core/block_manager.py\<close>. \<open>Block_Manager_Inv\<close> states the
  accounting invariant of a pool in the locale \<open>page_pool\<close> (a page is free, or its reference count is the number
  of table entries that name it), interpreted on the device pool (\<open>gpu\<close>) and on the host pool (\<open>host\<close>).
  \<open>Block_Manager_Ops\<close> proves what every method does under it, \<open>Block_Manager_Check\<close> that \<open>check_invariants\<close> is the
  invariant, \<open>Prefix_Cache\<close> that a cache hit names pages registered for exactly the prompt's tokens unless two
  different inputs of SHA-256 collide. \<open>Page_Hashes\<close> follows the digests through the calls: only \<open>cache_full_blocks\<close> gives a page
  one, so the pages of a sequence from its first incomplete one on stay its own. \<open>Block_Props\<close> has the swap round trip and the soundness of hits.

  \<^bold>\<open>Waiting queue.\<close> \<open>Waiting_Queue\<close> is the heap with lazy deletion; \<open>Waiting_Queue_Inv\<close> refines it to the list of
  waiting requests in admission order, through the locale \<open>admission_queue\<close> and its interpretation \<open>wq\<close>.

  \<^bold>\<open>Scheduler.\<close> \<open>Scheduler\<close> has \<open>ScheduledBatch\<close> and every handler of \<open>engine/core/scheduler.py\<close>. \<open>Scheduler_Inv\<close> is its
  invariant \<open>sinv\<close>: each live sequence is in exactly one queue, in the state of that queue, and the pages of the
  tables are the allocator's pages in use. \<open>Scheduler_Moves\<close> proves it for the elementary moves, \<open>Scheduler_Ops\<close>,
  \<open>Scheduler_Requests\<close>, \<open>Scheduler_Running\<close>, \<open>Scheduler_Admit\<close>, \<open>Scheduler_Schedule\<close> and \<open>Scheduler_Update\<close> for the handlers
  composed of them, with what each of them returns; \<open>Scheduler_Check\<close> connects it to \<open>check_invariants\<close>. Under \<open>sinv\<close>
  no handler raises. \<open>Schedule_Order\<close> adds who survives an iteration. \<open>Scheduler_Props\<close> states the results: totality,
  the token budget, priority of decodes, order of admission and the outputs of refused requests, who is evicted.

  \<^bold>\<open>Text.\<close> \<open>Sampler_Text\<close> is the incremental detokenizer, the search for stop strings and \<open>append_token\<close>; \<open>Text_Lemmas\<close> and
  \<open>Text_Stream\<close> follow a request through all its tokens. \<open>Text_Props\<close>: the pieces sent never contain a stop string
  and are never taken back, and together they are the decode of the whole output, for a tokenizer that is \<open>incremental\<close>: text
  that does not end in half a character is not changed by the tokens that follow.

  \<^bold>\<open>Runner and network.\<close> \<open>Sampler\<close> (the tensor half), \<open>Attention\<close> (cache and backends), \<open>Runner_Prepare\<close>, \<open>Model_Runner\<close>,
  \<open>Cuda_Graphs\<close> and \<open>Qwen3\<close> translate the code; a tensor is the list of its rows. \<open>Forward_Ref\<close> defines the reference:
  the hidden state of a position as a function of the tokens up to it. \<open>Index_Lemmas\<close>, \<open>Paged_Attention\<close> and
  \<open>Paged_Forward\<close> show that the flat batch over pages computes exactly that, \<open>Greedy_Ref\<close> that
  \<open>greedy_generate_contiguous\<close> does; \<open>Runner_Ok\<close> and \<open>Runner_Step\<close> carry it to \<open>execute\<close>. \<open>Plan_Lemmas\<close> and \<open>Runner_Props\<close>
  treat the 32-bit page index, the padding of graph batches and top-p. In \<open>Sampler\<close> a row of NaNs is \<open>None\<close>: softmax may return it,
  and \<open>top_p_filter\<close> does when it divides by zero; \<open>multinomial_call\<close> raises for it, as it does for a negative entry or a zero sum.

  \<^bold>\<open>Engine.\<close> \<open>Engine\<close> is the constructor, \<open>step\<close>, the request operations, \<open>generate\<close> and \<open>stats\<close>. \<open>Swap_Copy\<close>, \<open>Eviction_Flow\<close>,
  \<open>Page_Flow\<close> and \<open>Engine_Mem\<close> follow pages through the copies of a step, \<open>Cache_Mem\<close> says what a page with a digest holds; \<open>Engine_Step\<close>, \<open>Engine_Inv\<close>, \<open>Engine_Loop\<close> and
  \<open>Engine_Requests\<close> prove the engine's invariant (\<open>served\<close>) for every operation, and that a step raises only in the sampler,
  for a request with a temperature between 0 and 1 at which its logits overflow (\<open>step_raised\<close>, \<open>nan_row\<close>); \<open>Engine_Start\<close> has the step relation
  \<open>reachable\<close> (steps, accepted and rejected requests, aborts, in any order). \<open>Engine_Progress\<close> gives the measure under
  which every step with work goes down, and the locale \<open>drain\<close> of \<open>Generate_Ok\<close>, interpreted as \<open>engine_drain\<close>, turns
  it into termination of \<open>generate\<close>, which raises only when a request is not \<open>sampleable\<close>. \<open>Engine_Reach\<close> defines the engines the results are about (\<open>built\<close>), with
  one that caches prefixes beside that of \<open>Engine_Examples\<close>. \<open>Engine_Props\<close>: from construction on, every step returns or fails for such a
  request, the cache holds what the reference computes, no page leaks, and greedy requests get a prefix of contiguous greedy decoding.

  \<^bold>\<open>Server.\<close> \<open>Protocol\<close> is \<open>engine/api/protocol.py\<close> and the handler of a completion, \<open>Server\<close> is \<open>AsyncEngine\<close>. \<open>Server_Inv\<close> has
  the step relation \<open>server_step\<close>, an interleaving of the loop, the tasks of the requests and disconnects at every
  point where the code awaits, and its invariant; \<open>Drop_Reports\<close> shows that no request disappears without a last
  output, \<open>Server_Live\<close> that the loop left to itself answers everybody. Both include the failed step: \<open>sampler_failure\<close> is the
  engine it leaves, and \<open>fail_all\<close> gives every listener an error and empties the scheduler. \<open>Server_Props\<close> has the results.

  \<^bold>\<open>Loader.\<close> \<open>Loader\<close> is \<open>engine/model/loader.py\<close>; \<open>Loader_Lemmas\<close> and \<open>Loader_Ok\<close> reduce it to a plan of names;
  \<open>Loader_Props\<close>: what loads is the checkpoint, all of it, and an engine built from it serves.

  \<^bold>\<open>Configuration.\<close> \<open>Config\<close> and \<open>Config_Props\<close>: \<open>__post_init__\<close>, \<open>resolve\<close>, and what they guarantee to the others.

  \<^bold>\<open>Benchmarks.\<close> \<open>Bench_Client\<close> is the client of \<open>bench/run_bench.py\<close> and the bytes the server streams to it;
  \<open>Bench_Client_Props\<close>: its record counts what the server did, however the network cuts the stream. \<open>Workload\<close> and
  \<open>Workload_Props\<close> are \<open>bench/workload.py\<close>. \<open>Bench_Summary\<close> has \<open>summarize\<close> and the rows of \<open>write_results\<close>,
  and that the report agrees with the client's records. \<open>Static_Batching\<close> is the baseline of \<open>bench/hf_baseline.py\<close>: its
  loop ends and serves every request.

  \<^bold>\<open>Code outside the repository\<close> is a parameter. \<open>externals\<close>: SHA-256, numpy's encoding of token ids, the tokenizer's
  decode, and the rounding of the arithmetic on memory sizes and ratios (\<open>rounds_nonneg\<close>: it keeps a number non-negative). \<open>torch\<close>:
  rounding to float32, softmax at a temperature, sort, seeds and multinomial draws (\<open>torch_ok\<close>: rounding is monotone and keeps 0 and 1, so that a
  positive temperature may become 0; softmax gives a distribution or a row of NaNs, the latter only below temperature 1; the
  sort is a descending permutation; for rows that are distributions, and only for those, a draw is an index of its row). The functions of the network (exp, rsqrt, cos, sin, softmax attention) are fields of the model.
  FlashInfer's kernels, \<open>json.dumps\<close> and \<open>json.loads\<close> (\<open>codec_ok\<close>: what was written is read back, on one line) and
  numpy's generator are arguments where they are used, as are numpy's percentiles (\<open>np_ok\<close>: between the extremes, growing with
  the rank), the clock and the library call of the baseline (\<open>env_ok\<close>: time does not go back, the steps asked for are made). \<open>model_matches\<close> says that a network has the sizes of its
  configuration; \<open>Loader_Props\<close> proves it for a loaded one. \<open>prefixes_apart\<close> is assumed where prefix caching is on: no
  SHA-256 collision among the prefixes of the token lists the engine can hold. Every hypothesis is met by the functions
  of \<open>Examples\<close>, \<open>Engine_Examples\<close> and \<open>Engine_Reach\<close>, on which the witnesses run.

  \<^bold>\<open>Loops.\<close> Nothing runs on fuel. Loops over lists are structural; those of the scheduler and of the client have
  measures. \<open>generate\<close>, the loops of \<open>long_prompt_mix\<close> and \<open>baseline_loop\<close> are \<open>partial_function (option)\<close>: \<open>None\<close> is not to return, and
  \<open>generate_returns\<close>, \<open>long_mix_ends\<close> and \<open>baseline_serves_all\<close> exclude it.

  \<^bold>\<open>Scope of the engine's theorems.\<close> The results of \<open>Engine_Props\<close> are for the naive backend without CUDA graphs, in
  exact arithmetic, for every policy, chunked or not, swapping or recomputing, with prefix caching off or on. The plan
  FlashInfer gets and the padding of graphs are treated on their own. \<open>reachable\<close> goes through steps that return; what the server does with an engine whose step raised is
  part of \<open>Server_Inv\<close>.

  \<^bold>\<open>Not modelled.\<close> Rounding in the network. The capture of CUDA graphs and the kernels. The measurement of free
  memory: its readings are arguments. Priorities that are NaN. The limit of \<open>2 ^ 24\<close> categories of
  \<open>multinomial\<close>, which is above the vocabulary of any Qwen3 model. Logging, the CSV step log, \<open>logits_hook\<close>. Opening
  files, the Hugging Face Hub, argparse. FastAPI's routing, Starlette's connections. Of the benchmarks: polling,
  the files, the launch of servers, plots and the profiler.
\<close>

end
